(* ===== verification/Prelude.thy ===== *)
theory Prelude
  imports Main "HOL-Library.Word" "HOL-Library.AList" "HOL-Library.Monad_Syntax"
    "HOL-Library.Char_ord" "HOL-Library.List_Lexorder" "HOL-Library.Multiset"
    "HOL-Library.Sublist"
begin

text \<open>
  What every component shares: the names of the model's basic types, the theorem
  collections, and generic lemmas on lists, association lists and words.

  A Go \<open>map\<close> that the code ranges over is an association list with distinct keys
  (\<open>map_of\<close>, \<open>AList.update\<close>, \<open>AList.delete\<close> are its read, write and \<open>delete\<close>); Go leaves
  the order of a range unspecified, and the model's theorems hold for every order the list
  may have. A Go map that is only read and written by key is a function into \<open>option\<close>.

  A run-time panic (a nil dereference, an index out of range, a send on a closed channel)
  and a fuel that ran out are the value \<open>None\<close> of an operation whose result is an option;
  that an operation returns at all is then a theorem (\<open>\<exists>r. f x = Some r\<close>).
\<close>

named_theorems inv_intros "introduction rules of the components' invariants"
named_theorems frame_simps "fields an operation leaves alone"
named_theorems path_simps "rewriting of slash-separated paths"

type_synonym addr = nat
type_synonym byte = "8 word"
type_synonym u32 = "32 word"
type_synonym u64 = "64 word"

text \<open>\<open>time.Time\<close> as nanoseconds since the zero \<open>Time\<close>, which is 0.\<close>
type_synonym time = int

abbreviation slash :: char where
  "slash \<equiv> CHR ''/''"

section \<open>Lists\<close>

text \<open>Exchanging two cells of an array.\<close>

definition swap_list :: "nat \<Rightarrow> nat \<Rightarrow> 'a list \<Rightarrow> 'a list" where
  "swap_list i j xs = xs[i := xs ! j, j := xs ! i]"

lemma length_swap_list [simp]: "length (swap_list i j xs) = length xs"
  by (simp add: swap_list_def)

lemma nth_swap_list:
  "i < length xs \<Longrightarrow> j < length xs \<Longrightarrow> k < length xs \<Longrightarrow>
   swap_list i j xs ! k = (if k = i then xs ! j else if k = j then xs ! i else xs ! k)"
  by (simp add: swap_list_def nth_list_update)

lemma mset_swap_list [simp]:
  "i < length xs \<Longrightarrow> j < length xs \<Longrightarrow> mset (swap_list i j xs) = mset xs"
  by (simp add: swap_list_def mset_swap)

lemma set_swap_list [simp]:
  "i < length xs \<Longrightarrow> j < length xs \<Longrightarrow> set (swap_list i j xs) = set xs"
  by (metis mset_swap_list set_mset_mset)

lemma distinct_swap_list [simp]:
  "i < length xs \<Longrightarrow> j < length xs \<Longrightarrow> distinct (swap_list i j xs) = distinct xs"
  by (simp add: swap_list_def)

lemma distinct_remove1_filter: "distinct xs \<Longrightarrow> remove1 x xs = filter (\<lambda>y. y \<noteq> x) xs"
  by (simp add: distinct_remove1_removeAll removeAll_filter_not_eq eq_commute)

lemma strict_prefix_snocD: "prefix (ds @ [c]) xs \<Longrightarrow> prefix ds xs"
  by (auto simp: prefix_def)

section \<open>Association lists\<close>

lemma map_of_delete_eq: "map_of (AList.delete k m) = (map_of m)(k := None)"
  by (rule AList.delete_conv')

lemma map_of_update_eq: "map_of (AList.update k v m) = (map_of m)(k \<mapsto> v)"
  by (rule AList.update_conv')

lemma distinct_fst_delete: "distinct (map fst m) \<Longrightarrow> distinct (map fst (AList.delete k m))"
  by (rule AList.distinct_delete)

lemma distinct_fst_update: "distinct (map fst m) \<Longrightarrow> distinct (map fst (AList.update k v m))"
  by (rule AList.distinct_update)

lemma set_update_new:
  "k \<notin> fst ` set m \<Longrightarrow> set (AList.update k v m) = insert (k, v) (set m)"
  by (induction m) auto

lemma set_delete: "set (AList.delete k m) = {p \<in> set m. fst p \<noteq> k}"
  by (auto simp: AList.delete_eq)

section \<open>Machine words\<close>

lemma unat_plus_one: "w \<noteq> (- 1 :: 'a :: len word) \<Longrightarrow> unat (w + 1) = Suc (unat w)"
  by (metis add.commute max_word_wrap unatSuc)

end
