(* ===== verification/GoHeap.thy ===== *)
theory GoHeap
  imports Prelude
begin

text \<open>
  Go's \<open>container/heap\<close>: the sift operations of a binary heap over an interface
  (\<open>Less\<close>, \<open>Swap\<close>, \<open>Len\<close>, \<open>Push\<close>, \<open>Pop\<close>), which the caller's type provides. The
  operations are functions of the interface's operations; the locale \<open>heap_interface\<close>
  states what a client must provide (a list view that \<open>Swap\<close> exchanges, a key that \<open>Less\<close>
  compares) and proves once that the sifts restore the heap order and permute the elements.
\<close>

section \<open>Operations\<close>

function heap_up :: "('h \<Rightarrow> nat \<Rightarrow> nat \<Rightarrow> bool) \<Rightarrow> ('h \<Rightarrow> nat \<Rightarrow> nat \<Rightarrow> 'h) \<Rightarrow> 'h \<Rightarrow> nat \<Rightarrow> 'h" where
  "heap_up lt swap h j =
     (let i = (j - 1) div 2
      in if i = j \<or> \<not> lt h j i then h else heap_up lt swap (swap h i j) i)"
  by pat_completeness auto
termination
  by (relation "measure (\<lambda>(lt, swap, h, j). j)") auto

text \<open>The child of \<open>i\<close> that \<open>down\<close> compares with, for \<open>2 * i + 1 < n\<close>.\<close>

definition heap_child :: "('h \<Rightarrow> nat \<Rightarrow> nat \<Rightarrow> bool) \<Rightarrow> 'h \<Rightarrow> nat \<Rightarrow> nat \<Rightarrow> nat" where
  "heap_child lt h i n =
     (let j1 = 2 * i + 1; j2 = j1 + 1 in if j2 < n \<and> \<not> lt h j1 j2 then j2 else j1)"

function heap_down :: "('h \<Rightarrow> nat \<Rightarrow> nat \<Rightarrow> bool) \<Rightarrow> ('h \<Rightarrow> nat \<Rightarrow> nat \<Rightarrow> 'h) \<Rightarrow> 'h \<Rightarrow> nat \<Rightarrow> nat \<Rightarrow> 'h" where
  "heap_down lt swap h i n =
     (if n \<le> 2 * i + 1 then h
      else let j = heap_child lt h i n
           in if \<not> lt h j i then h else heap_down lt swap (swap h i j) j n)"
  by pat_completeness auto
termination
  by (relation "measure (\<lambda>(lt, swap, h, i, n). n - i)") (auto simp: heap_child_def Let_def)

declare heap_up.simps [simp del] heap_down.simps [simp del]

section \<open>Heap order on lists\<close>

definition heap_edges :: "('a \<Rightarrow> 'k :: linorder) \<Rightarrow> 'a list \<Rightarrow> nat \<Rightarrow> (nat \<Rightarrow> bool) \<Rightarrow> bool" where
  "heap_edges key xs n ok \<longleftrightarrow>
     (\<forall>j. 0 < j \<and> j < n \<and> ok j \<longrightarrow> key (xs ! ((j - 1) div 2)) \<le> key (xs ! j))"

definition heap_ordered :: "('a \<Rightarrow> 'k :: linorder) \<Rightarrow> 'a list \<Rightarrow> nat \<Rightarrow> bool" where
  "heap_ordered key xs n \<longleftrightarrow> heap_edges key xs n (\<lambda>_. True)"

text \<open>Around position \<open>i\<close> the order may be broken, but its parent is below its children.\<close>

definition heap_hole :: "('a \<Rightarrow> 'k :: linorder) \<Rightarrow> 'a list \<Rightarrow> nat \<Rightarrow> nat \<Rightarrow> bool" where
  "heap_hole key xs i n \<longleftrightarrow>
     heap_edges key xs n (\<lambda>j. j \<noteq> i \<and> (j - 1) div 2 \<noteq> i) \<and>
     (\<forall>j. 0 < j \<and> j < n \<and> (j - 1) div 2 = i \<and> 0 < i \<longrightarrow> key (xs ! ((i - 1) div 2)) \<le> key (xs ! j))"

definition below_parent :: "('a \<Rightarrow> 'k :: linorder) \<Rightarrow> 'a list \<Rightarrow> nat \<Rightarrow> bool" where
  "below_parent key xs i \<longleftrightarrow> (0 < i \<longrightarrow> key (xs ! ((i - 1) div 2)) \<le> key (xs ! i))"

definition above_children :: "('a \<Rightarrow> 'k :: linorder) \<Rightarrow> 'a list \<Rightarrow> nat \<Rightarrow> nat \<Rightarrow> bool" where
  "above_children key xs i n \<longleftrightarrow>
     (\<forall>j. 0 < j \<and> j < n \<and> (j - 1) div 2 = i \<longrightarrow> key (xs ! i) \<le> key (xs ! j))"

lemma heap_ordered_hole:
  assumes ord: "heap_ordered key xs n" and i: "i < n"
  shows "heap_hole key xs i n"
proof -
  have e: "key (xs ! ((j - 1) div 2)) \<le> key (xs ! j)" if "0 < j" "j < n" for j
    using ord that by (simp add: heap_ordered_def heap_edges_def)
  have "key (xs ! ((i - 1) div 2)) \<le> key (xs ! j)"
    if j: "0 < j" "j < n" "(j - 1) div 2 = i" "0 < i" for j
    by (rule order.trans [OF e [OF j(4) i] e [OF j(1,2), unfolded j(3)]])
  then show ?thesis using e by (simp add: heap_hole_def heap_edges_def)
qed

lemma heap_ordered_parts:
  "heap_ordered key xs n \<Longrightarrow> i < n \<Longrightarrow> below_parent key xs i \<and> above_children key xs i n"
  by (auto simp: heap_ordered_def heap_edges_def below_parent_def above_children_def)

lemma heap_hole_fill:
  assumes hole: "heap_hole key xs i n"
    and "below_parent key xs i" and "above_children key xs i n"
  shows "heap_ordered key xs n"
  unfolding heap_ordered_def heap_edges_def
proof (intro allI impI)
  fix j assume j: "0 < j \<and> j < n \<and> True"
  consider "j = i" | "(j - 1) div 2 = i" | "j \<noteq> i" "(j - 1) div 2 \<noteq> i" by blast
  then show "key (xs ! ((j - 1) div 2)) \<le> key (xs ! j)"
    using assms j by cases (simp_all add: below_parent_def above_children_def heap_hole_def heap_edges_def)
qed

lemma heap_ordered_top:
  assumes "heap_ordered key xs n" and "i < n"
  shows "key (xs ! 0) \<le> key (xs ! i)"
  using assms(2)
proof (induction i rule: less_induct)
  case (less i)
  show ?case
  proof (cases "i = 0")
    case False
    then have "(i - 1) div 2 < i" by auto
    moreover from this less.prems have "(i - 1) div 2 < n" by simp
    ultimately have "key (xs ! 0) \<le> key (xs ! ((i - 1) div 2))" by (rule less.IH)
    also have "\<dots> \<le> key (xs ! i)"
      using assms(1) False less.prems by (simp add: heap_ordered_def heap_edges_def)
    finally show ?thesis .
  qed simp
qed

lemma heap_edges_cong:
  assumes "\<And>j. j < n \<Longrightarrow> xs ! j = ys ! j"
  shows "heap_edges key xs n ok = heap_edges key ys n ok"
proof -
  have "xs ! ((j - 1) div 2) = ys ! ((j - 1) div 2) \<and> xs ! j = ys ! j" if "j < n" for j
  proof -
    have "(j - 1) div 2 < n" using that by linarith
    then show ?thesis using assms that by blast
  qed
  then show ?thesis unfolding heap_edges_def by metis
qed

lemma heap_ordered_butlast:
  "heap_ordered key xs n \<Longrightarrow> m \<le> n \<Longrightarrow> m \<le> length xs \<Longrightarrow> heap_ordered key (take m xs) m"
  unfolding heap_ordered_def
  using heap_edges_cong [of m "take m xs" xs key "\<lambda>_. True"]
  by (simp add: heap_edges_def)

lemma heap_ordered_key_cong:
  assumes "heap_ordered key xs (length xs)" and "\<And>x. x \<in> set xs \<Longrightarrow> key' x = key x"
  shows "heap_ordered key' xs (length xs)"
  unfolding heap_ordered_def heap_edges_def
proof (intro allI impI)
  fix j assume j: "0 < j \<and> j < length xs \<and> True"
  then have "(j - 1) div 2 < length xs" by linarith
  with j assms show "key' (xs ! ((j - 1) div 2)) \<le> key' (xs ! j)"
    by (simp add: heap_ordered_def heap_edges_def)
qed

section \<open>The interface\<close>

locale heap_interface =
  fixes Less :: "'h \<Rightarrow> nat \<Rightarrow> nat \<Rightarrow> bool"
    and Swap :: "'h \<Rightarrow> nat \<Rightarrow> nat \<Rightarrow> 'h"
    and elems :: "'h \<Rightarrow> 'a list"
    and key :: "'a \<Rightarrow> 'k :: linorder"
    and invar :: "'h \<Rightarrow> bool"
  assumes less_key: "i < length (elems h) \<Longrightarrow> j < length (elems h) \<Longrightarrow>
      Less h i j \<longleftrightarrow> key (elems h ! i) < key (elems h ! j)"
    and swap_elems: "i < length (elems h) \<Longrightarrow> j < length (elems h) \<Longrightarrow>
      elems (Swap h i j) = swap_list i j (elems h)"
    and swap_invar: "invar h \<Longrightarrow> i < length (elems h) \<Longrightarrow> j < length (elems h) \<Longrightarrow> invar (Swap h i j)"
begin

lemma child_props:
  assumes "2 * i + 1 < n" and "n \<le> length (elems h)"
  defines "j \<equiv> heap_child Less h i n"
  shows "i < j" "j < n" "(j - 1) div 2 = i"
    "\<And>k. 0 < k \<Longrightarrow> k < n \<Longrightarrow> (k - 1) div 2 = i \<Longrightarrow> key (elems h ! j) \<le> key (elems h ! k)"
proof -
  have j: "j = 2 * i + 1 \<or> j = 2 * i + 2" and jn: "j < n"
    using assms(1) by (auto simp: j_def heap_child_def Let_def)
  show "i < j" "j < n" "(j - 1) div 2 = i" using j jn by auto
  fix k assume k: "0 < k" "k < n" "(k - 1) div 2 = i"
  then have "k = 2 * i + 1 \<or> k = 2 * i + 2" by linarith
  then show "key (elems h ! j) \<le> key (elems h ! k)"
    using assms(1,2) k(2) by (auto simp: j_def heap_child_def Let_def less_key split: if_splits)
qed

lemma down_step_hole:
  assumes hole: "heap_hole key xs i n" and n: "n \<le> length xs"
    and ij: "i < j" "j < n" "(j - 1) div 2 = i"
    and min: "\<And>k. 0 < k \<Longrightarrow> k < n \<Longrightarrow> (k - 1) div 2 = i \<Longrightarrow> key (xs ! j) \<le> key (xs ! k)"
  shows "heap_hole key (swap_list i j xs) j n"
proof -
  have nth: "swap_list i j xs ! k = (if k = i then xs ! j else if k = j then xs ! i else xs ! k)"
    if "k < n" for k using that ij n by (simp add: nth_swap_list)
  have edge: "key (xs ! ((k - 1) div 2)) \<le> key (xs ! k)"
    if "0 < k" "k < n" "k \<noteq> i" "(k - 1) div 2 \<noteq> i" for k
    using hole that by (simp add: heap_hole_def heap_edges_def)
  have up: "key (xs ! ((i - 1) div 2)) \<le> key (xs ! j)" if "0 < i"
    using hole that ij by (simp add: heap_hole_def)
  have e: "key (swap_list i j xs ! ((k - 1) div 2)) \<le> key (swap_list i j xs ! k)"
    if k: "0 < k" "k < n" "k \<noteq> j" "(k - 1) div 2 \<noteq> j" for k
  proof -
    have p: "(k - 1) div 2 < n" "(k - 1) div 2 \<noteq> k" using k by auto
    consider "k = i" | "k \<noteq> i" "(k - 1) div 2 = i" | "k \<noteq> i" "(k - 1) div 2 \<noteq> i" by blast
    then show ?thesis
    proof cases
      case 1
      then show ?thesis using nth [OF k(2)] nth [OF p(1)] k p up ij by auto
    next
      case 2
      then show ?thesis using nth [OF k(2)] nth [OF p(1)] k min by auto
    next
      case 3
      then show ?thesis using nth [OF k(2)] nth [OF p(1)] k edge by auto
    qed
  qed
  have c: "key (swap_list i j xs ! ((j - 1) div 2)) \<le> key (swap_list i j xs ! k)"
    if k: "0 < k" "k < n" "(k - 1) div 2 = j" for k
  proof -
    have "j < k" using k by linarith
    then show ?thesis using nth [OF k(2)] nth [of i] edge [of k] k ij by auto
  qed
  show ?thesis unfolding heap_hole_def heap_edges_def using e c by blast
qed

lemma down_correct:
  "heap_hole key (elems h) i n \<Longrightarrow> below_parent key (elems h) i \<Longrightarrow> n \<le> length (elems h) \<Longrightarrow>
   heap_ordered key (elems (heap_down Less Swap h i n)) n"
proof (induction "n - i" arbitrary: h i rule: less_induct)
  case less
  show ?case
  proof (cases "2 * i + 1 < n")
    case False
    then have "above_children key (elems h) i n" by (auto simp: above_children_def)
    with less.prems False show ?thesis
      by (simp add: heap_down.simps [of _ _ h] heap_hole_fill)
  next
    case True
    let ?j = "heap_child Less h i n"
    note c = child_props [OF True less.prems(3)]
    have len: "i < length (elems h)" "?j < length (elems h)" using c less.prems(3) True by auto
    show ?thesis
    proof (cases "Less h ?j i")
      case False
      then have "key (elems h ! i) \<le> key (elems h ! ?j)" using less_key len by auto
      then have "above_children key (elems h) i n"
        using c(4) by (auto simp: above_children_def intro: order.trans)
      with less.prems False True show ?thesis
        by (simp add: heap_down.simps [of _ _ h] heap_hole_fill Let_def)
    next
      case True
      let ?h = "Swap h i ?j"
      have el: "elems ?h = swap_list i ?j (elems h)" using swap_elems len by blast
      have "heap_hole key (elems ?h) ?j n"
        unfolding el using less.prems(1,3) c by (rule down_step_hole)
      moreover have "below_parent key (elems ?h) ?j"
        using True len c(1-3) by (auto simp: el below_parent_def nth_swap_list less_key)
      ultimately have "heap_ordered key (elems (heap_down Less Swap ?h ?j n)) n"
        using less.hyps [of ?j ?h] c(1,2) less.prems(3) by (simp add: el)
      then show ?thesis using True \<open>2 * i + 1 < n\<close>
        by (simp add: heap_down.simps [of _ _ h] Let_def)
    qed
  qed
qed

lemma down_stays:
  assumes "above_children key (elems h) i n" and "n \<le> length (elems h)"
  shows "heap_down Less Swap h i n = h"
proof (cases "2 * i + 1 < n")
  case True
  note c = child_props [OF True assms(2)]
  have "key (elems h ! i) \<le> key (elems h ! heap_child Less h i n)"
    using assms(1) c(1-3) by (simp add: above_children_def)
  then have "\<not> Less h (heap_child Less h i n) i" using less_key c assms(2) True by auto
  then show ?thesis by (simp add: heap_down.simps [of _ _ h] Let_def)
qed (simp add: heap_down.simps [of _ _ h])

lemma down_frame:
  "n \<le> length (elems h) \<Longrightarrow> invar h \<Longrightarrow>
   invar (heap_down Less Swap h i n) \<and>
   mset (elems (heap_down Less Swap h i n)) = mset (elems h) \<and>
   (\<forall>k \<ge> n. k < length (elems h) \<longrightarrow> elems (heap_down Less Swap h i n) ! k = elems h ! k)"
proof (induction "n - i" arbitrary: h i rule: less_induct)
  case less
  show ?case
  proof (cases "2 * i + 1 < n \<and> Less h (heap_child Less h i n) i")
    case False
    then show ?thesis using less.prems by (auto simp: heap_down.simps [of _ _ h] Let_def)
  next
    case True
    let ?j = "heap_child Less h i n"
    let ?h = "Swap h i ?j"
    note c = child_props [OF True [THEN conjunct1] less.prems(1)]
    have len: "i < length (elems h)" "?j < length (elems h)" using c less.prems(1) by auto
    have el: "elems ?h = swap_list i ?j (elems h)" using swap_elems len by blast
    have "invar ?h" using swap_invar len less.prems(2) by blast
    with less.hyps [of ?j ?h] have
      "invar (heap_down Less Swap ?h ?j n) \<and>
       mset (elems (heap_down Less Swap ?h ?j n)) = mset (elems ?h) \<and>
       (\<forall>k \<ge> n. k < length (elems h) \<longrightarrow> elems (heap_down Less Swap ?h ?j n) ! k = elems ?h ! k)"
      using c(1,2) less.prems(1) by (simp add: el)
    then show ?thesis using True c(1,2) len
      by (auto simp: heap_down.simps [of _ _ h] Let_def el nth_swap_list)
  qed
qed

lemma up_step_hole:
  assumes hole: "heap_hole key xs j n" and n: "n \<le> length xs" and j: "0 < j" "j < n"
    and lt: "key (xs ! j) < key (xs ! ((j - 1) div 2))" and above: "above_children key xs j n"
  defines "i \<equiv> (j - 1) div 2"
  shows "heap_hole key (swap_list i j xs) i n \<and> above_children key (swap_list i j xs) i n"
proof -
  have ij: "i < j" "i < n" using j by (auto simp: i_def)
  have nth: "swap_list i j xs ! k = (if k = i then xs ! j else if k = j then xs ! i else xs ! k)"
    if "k < n" for k using that ij j n by (simp add: nth_swap_list)
  have edge: "key (xs ! ((k - 1) div 2)) \<le> key (xs ! k)"
    if "0 < k" "k < n" "k \<noteq> j" "(k - 1) div 2 \<noteq> j" for k
    using hole that by (simp add: heap_hole_def heap_edges_def)
  have grand: "key (xs ! i) \<le> key (xs ! k)" if "0 < k" "k < n" "(k - 1) div 2 = j" for k
    using hole that j by (simp add: heap_hole_def i_def)
  have e: "key (swap_list i j xs ! ((k - 1) div 2)) \<le> key (swap_list i j xs ! k)"
    if k: "0 < k" "k < n" "k \<noteq> i" "(k - 1) div 2 \<noteq> i" for k
  proof -
    have "(k - 1) div 2 < n" "k \<noteq> j" using k by (auto simp: i_def)
    then show ?thesis
      using nth [OF k(2)] nth [of "(k - 1) div 2"] k edge [of k] grand [of k] by auto
  qed
  have c: "key (swap_list i j xs ! ((i - 1) div 2)) \<le> key (swap_list i j xs ! k)"
    if k: "0 < k" "k < n" "(k - 1) div 2 = i" "0 < i" for k
  proof -
    have p: "(i - 1) div 2 < n" "(i - 1) div 2 \<noteq> i" "(i - 1) div 2 \<noteq> j" "i < k"
      using ij k by auto
    have "key (xs ! ((i - 1) div 2)) \<le> key (xs ! i)" using edge [of i] ij k(4) p by auto
    moreover have "key (xs ! i) \<le> key (xs ! k)" if "k \<noteq> j"
      using edge [of k] k that ij by auto
    ultimately show ?thesis using nth [OF k(2)] nth [OF p(1)] p by (auto intro: order.trans)
  qed
  have lt': "key (xs ! j) \<le> key (xs ! i)" using lt by (simp add: i_def)
  have a: "key (swap_list i j xs ! i) \<le> key (swap_list i j xs ! k)"
    if k: "0 < k" "k < n" "(k - 1) div 2 = i" for k
  proof -
    have "i < k" using k by linarith
    moreover have "key (xs ! i) \<le> key (xs ! k)" if "k \<noteq> j" using edge [of k] k that ij by auto
    ultimately show ?thesis
      using nth [OF k(2)] nth [OF ij(2)] lt' by (auto intro: order.trans)
  qed
  show ?thesis unfolding heap_hole_def heap_edges_def above_children_def using e c a by blast
qed

lemma up_correct:
  "heap_hole key (elems h) j n \<Longrightarrow> above_children key (elems h) j n \<Longrightarrow> j < n \<Longrightarrow>
   n \<le> length (elems h) \<Longrightarrow> heap_ordered key (elems (heap_up Less Swap h j)) n"
proof (induction j arbitrary: h rule: less_induct)
  case (less j)
  let ?i = "(j - 1) div 2"
  have len: "?i < length (elems h)" "j < length (elems h)" using less.prems by auto
  show ?case
  proof (cases "?i = j \<or> \<not> Less h j ?i")
    case True
    then have "below_parent key (elems h) j" using less_key len by (auto simp: below_parent_def)
    with less.prems True show ?thesis
      by (auto simp: heap_up.simps [of _ _ h] Let_def intro: heap_hole_fill)
  next
    case False
    let ?h = "Swap h ?i j"
    have el: "elems ?h = swap_list ?i j (elems h)" using swap_elems len by blast
    have "0 < j" and lt: "key (elems h ! j) < key (elems h ! ?i)"
      using False less_key len by auto
    then have "heap_hole key (elems ?h) ?i n \<and> above_children key (elems ?h) ?i n"
      unfolding el using less.prems by (intro up_step_hole) auto
    moreover have "length (elems ?h) = length (elems h)" by (simp only: el length_swap_list)
    moreover have "?i < j" using \<open>0 < j\<close> by linarith
    ultimately have "heap_ordered key (elems (heap_up Less Swap ?h ?i)) n"
      using less.IH [of ?i ?h] less.prems by linarith
    then show ?thesis using False by (simp add: heap_up.simps [of _ _ h] Let_def)
  qed
qed

lemma up_frame:
  "j < n \<Longrightarrow> n \<le> length (elems h) \<Longrightarrow> invar h \<Longrightarrow>
   invar (heap_up Less Swap h j) \<and>
   mset (elems (heap_up Less Swap h j)) = mset (elems h) \<and>
   (\<forall>k \<ge> n. k < length (elems h) \<longrightarrow> elems (heap_up Less Swap h j) ! k = elems h ! k)"
proof (induction j arbitrary: h rule: less_induct)
  case (less j)
  let ?i = "(j - 1) div 2"
  have len: "?i < length (elems h)" "j < length (elems h)" "?i < n" using less.prems by auto
  show ?case
  proof (cases "?i = j \<or> \<not> Less h j ?i")
    case True
    then show ?thesis using less.prems by (auto simp: heap_up.simps [of _ _ h] Let_def)
  next
    case False
    let ?h = "Swap h ?i j"
    have el: "elems ?h = swap_list ?i j (elems h)" using swap_elems len by blast
    have leq: "length (elems ?h) = length (elems h)" by (simp only: el length_swap_list)
    have "invar ?h" using swap_invar len less.prems(3) by blast
    moreover have "?i < j" using False by linarith
    moreover have "n \<le> length (elems ?h)" using less.prems(2) leq by linarith
    ultimately have
      "invar (heap_up Less Swap ?h ?i) \<and>
       mset (elems (heap_up Less Swap ?h ?i)) = mset (elems ?h) \<and>
       (\<forall>k \<ge> n. k < length (elems h) \<longrightarrow> elems (heap_up Less Swap ?h ?i) ! k = elems ?h ! k)"
      using less.IH [of ?i ?h] len(3) unfolding leq by blast
    moreover have "elems ?h ! k = elems h ! k" if "n \<le> k" "k < length (elems h)" for k
      using that len less.prems(1) by (simp only: el) (auto simp: nth_swap_list)
    moreover have "mset (elems ?h) = mset (elems h)"
      using len by (simp only: el mset_swap_list)
    ultimately show ?thesis using False
      by (simp add: heap_up.simps [of _ _ h] Let_def)
  qed
qed

text \<open>\<open>heap.Remove\<close> sifts down and then up: one of the two does nothing.\<close>

lemma down_up_correct:
  assumes hole: "heap_hole key (elems h) i n" and i: "i < n" and n: "n \<le> length (elems h)"
    and inv: "invar h"
  shows "heap_ordered key (elems (heap_up Less Swap (heap_down Less Swap h i n) i)) n"
proof (cases "below_parent key (elems h) i")
  case True
  let ?h = "heap_down Less Swap h i n"
  have ord: "heap_ordered key (elems ?h) n" using hole True n by (rule down_correct)
  have "length (elems ?h) = length (elems h)"
    using down_frame [OF n inv] by (metis size_mset)
  then show ?thesis
    using up_correct [OF heap_ordered_hole [OF ord i]] heap_ordered_parts [OF ord i] i n by simp
next
  case False
  then have "above_children key (elems h) i n"
    using hole by (auto simp: below_parent_def above_children_def heap_hole_def)
  then show ?thesis using up_correct [OF hole _ i n] down_stays n by simp
qed

end

end
