(* ===== verification/EtcdHeap.thy ===== *)
theory EtcdHeap
  imports GoHeap
begin

text \<open>
  \<open>coreos/etcd/store/ttl_key_heap.go\<close>: the heap of the nodes that expire, and the \<open>node\<close>
  record it points at (from \<open>node.go\<close>).

  A \<open>*node\<close> is an address and the nodes are the cells of a memory. The heap compares the
  \<open>ExpireTime\<close> the memory holds, so the operations take the memory as an argument. An index
  out of range panics (\<open>None\<close>). \<open>ttl_ok\<close> is the invariant: \<open>keyMap\<close> is the inverse of
  \<open>array\<close>, and the array is heap ordered by expiration.
\<close>

section \<open>Nodes and the heap\<close>

text \<open>
  The \<open>store\<close> field of the code is omitted: every node of the model belongs to the one
  store whose memory it is in. \<open>Children\<close> is \<open>None\<close> for the nil map of a key-value pair.
\<close>

record node =
  Path :: string
  CreatedIndex :: u64
  ModifiedIndex :: u64
  Parent :: "addr option"
  ExpireTime :: time
  ACL :: string
  Value :: string
  Children :: "(string \<times> addr) list option"

type_synonym memory = "addr \<Rightarrow> node"

record ttlKeyHeap =
  array :: "addr list"
  keyMap :: "addr \<Rightarrow> nat option"

text \<open>\<open>heap.Init\<close> of an empty array does nothing.\<close>

definition newTtlKeyHeap :: ttlKeyHeap where
  "newTtlKeyHeap = \<lparr>array = [], keyMap = Map.empty\<rparr>"

definition ttl_Len :: "ttlKeyHeap \<Rightarrow> nat" where
  "ttl_Len h = length (array h)"

definition ttl_Less :: "memory \<Rightarrow> ttlKeyHeap \<Rightarrow> nat \<Rightarrow> nat \<Rightarrow> bool" where
  "ttl_Less m h i j \<longleftrightarrow> ExpireTime (m (array h ! i)) < ExpireTime (m (array h ! j))"

definition ttl_Swap :: "ttlKeyHeap \<Rightarrow> nat \<Rightarrow> nat \<Rightarrow> ttlKeyHeap" where
  "ttl_Swap h i j =
     (let a = swap_list i j (array h)
      in \<lparr>array = a, keyMap = (keyMap h)(a ! i \<mapsto> i, a ! j \<mapsto> j)\<rparr>)"

definition ttl_Push :: "ttlKeyHeap \<Rightarrow> addr \<Rightarrow> ttlKeyHeap" where
  "ttl_Push h n = \<lparr>array = array h @ [n], keyMap = (keyMap h)(n \<mapsto> length (array h))\<rparr>"

definition ttl_Pop :: "ttlKeyHeap \<Rightarrow> (addr \<times> ttlKeyHeap) option" where
  "ttl_Pop h =
     (if array h = [] then None
      else let x = last (array h)
           in Some (x, \<lparr>array = butlast (array h), keyMap = (keyMap h)(x := None)\<rparr>))"

text \<open>\<open>heap.Push\<close>, \<open>heap.Pop\<close> and \<open>heap.Remove\<close> on this heap.\<close>

definition heap_Push :: "memory \<Rightarrow> ttlKeyHeap \<Rightarrow> addr \<Rightarrow> ttlKeyHeap" where
  "heap_Push m h n =
     (let h1 = ttl_Push h n in heap_up (ttl_Less m) ttl_Swap h1 (ttl_Len h1 - 1))"

definition heap_Pop :: "memory \<Rightarrow> ttlKeyHeap \<Rightarrow> (addr \<times> ttlKeyHeap) option" where
  "heap_Pop m h =
     (if ttl_Len h = 0 then None
      else let n = ttl_Len h - 1
           in ttl_Pop (heap_down (ttl_Less m) ttl_Swap (ttl_Swap h 0 n) 0 n))"

definition heap_Remove :: "memory \<Rightarrow> ttlKeyHeap \<Rightarrow> nat \<Rightarrow> (addr \<times> ttlKeyHeap) option" where
  "heap_Remove m h i =
     (if ttl_Len h \<le> i then None
      else let n = ttl_Len h - 1
           in ttl_Pop (if n \<noteq> i
                then heap_up (ttl_Less m) ttl_Swap
                       (heap_down (ttl_Less m) ttl_Swap (ttl_Swap h n i) i n) i
                else h))"

definition ttl_top :: "ttlKeyHeap \<Rightarrow> addr option" where
  "ttl_top h = (if ttl_Len h \<noteq> 0 then Some (array h ! 0) else None)"

definition ttl_pop :: "memory \<Rightarrow> ttlKeyHeap \<Rightarrow> (addr \<times> ttlKeyHeap) option" where
  "ttl_pop m h = heap_Pop m h"

definition ttl_push :: "memory \<Rightarrow> ttlKeyHeap \<Rightarrow> addr \<Rightarrow> ttlKeyHeap" where
  "ttl_push m h n = heap_Push m h n"

definition ttl_update :: "memory \<Rightarrow> ttlKeyHeap \<Rightarrow> addr \<Rightarrow> ttlKeyHeap option" where
  "ttl_update m h n =
     (case keyMap h n of
        None \<Rightarrow> Some h
      | Some index \<Rightarrow> map_option (\<lambda>(_, h1). heap_Push m h1 n) (heap_Remove m h index))"

definition ttl_remove :: "memory \<Rightarrow> ttlKeyHeap \<Rightarrow> addr \<Rightarrow> ttlKeyHeap option" where
  "ttl_remove m h n =
     (case keyMap h n of
        None \<Rightarrow> Some h
      | Some index \<Rightarrow> map_option snd (heap_Remove m h index))"

section \<open>The invariant\<close>

definition ttl_map_inv :: "ttlKeyHeap \<Rightarrow> bool" where
  "ttl_map_inv h \<longleftrightarrow>
     (\<forall>i < length (array h). keyMap h (array h ! i) = Some i) \<and>
     (\<forall>a i. keyMap h a = Some i \<longrightarrow> i < length (array h) \<and> array h ! i = a)"

definition ttl_ok :: "memory \<Rightarrow> ttlKeyHeap \<Rightarrow> bool" where
  "ttl_ok m h \<longleftrightarrow>
     ttl_map_inv h \<and> heap_ordered (\<lambda>a. ExpireTime (m a)) (array h) (length (array h))"

lemma ttl_mapD:
  assumes "ttl_map_inv h"
  shows "i < length (array h) \<Longrightarrow> keyMap h (array h ! i) = Some i"
    and "keyMap h a = Some i \<Longrightarrow> i < length (array h)"
    and "keyMap h a = Some i \<Longrightarrow> array h ! i = a"
  using assms by (auto simp: ttl_map_inv_def)

lemma ttl_map_distinct:
  assumes "ttl_map_inv h"
  shows "distinct (array h)"
  unfolding distinct_conv_nth
proof (intro allI impI)
  fix i j assume "i < length (array h)" "j < length (array h)" "i \<noteq> j"
  then show "array h ! i \<noteq> array h ! j" using ttl_mapD(1) [OF assms, of i] ttl_mapD(1) [OF assms, of j] by auto
qed

lemma ttl_map_in:
  assumes "ttl_map_inv h"
  shows "keyMap h a \<noteq> None \<longleftrightarrow> a \<in> set (array h)"
proof
  assume "keyMap h a \<noteq> None"
  then obtain i where "keyMap h a = Some i" by blast
  then show "a \<in> set (array h)" using ttl_mapD(2,3) [OF assms] by (metis nth_mem)
next
  assume "a \<in> set (array h)"
  then show "keyMap h a \<noteq> None" using ttl_mapD(1) [OF assms] by (auto simp: in_set_conv_nth)
qed

lemma ttl_Swap_inv:
  assumes inv: "ttl_map_inv h" and ij: "i < length (array h)" "j < length (array h)"
  shows "ttl_map_inv (ttl_Swap h i j)"
proof -
  let ?h = "ttl_Swap h i j"
  have d: "array h ! k = array h ! l \<longleftrightarrow> k = l" if "k < length (array h)" "l < length (array h)" for k l
    using ttl_map_distinct [OF inv] that by (simp add: nth_eq_iff_index_eq)
  have a: "array ?h ! k = (if k = i then array h ! j else if k = j then array h ! i else array h ! k)"
    if "k < length (array h)" for k using ij that by (simp add: ttl_Swap_def Let_def nth_swap_list)
  have len: "length (array ?h) = length (array h)" by (simp add: ttl_Swap_def Let_def)
  have km: "keyMap ?h = (keyMap h)(array h ! j \<mapsto> i, array h ! i \<mapsto> j)"
    using ij by (auto simp: ttl_Swap_def Let_def nth_swap_list)
  have "keyMap ?h (array ?h ! k) = Some k" if k: "k < length (array h)" for k
  proof (cases "k = i \<or> k = j")
    case True
    then show ?thesis using a [OF k] d [OF ij] by (auto simp: km)
  next
    case False
    then show ?thesis using a [OF k] d [OF k ij(1)] d [OF k ij(2)] ttl_mapD(1) [OF inv k] by (simp add: km)
  qed
  moreover have "k < length (array h) \<and> array ?h ! k = b" if b: "keyMap ?h b = Some k" for b k
  proof (cases "b = array h ! i \<or> b = array h ! j")
    case True
    then show ?thesis using b ij a by (auto simp: km split: if_splits)
  next
    case False
    then have "keyMap h b = Some k" using b by (auto simp: km)
    then have "k < length (array h)" "array h ! k = b" using ttl_mapD(2,3) [OF inv] by blast+
    then show ?thesis using False a [of k] by auto
  qed
  ultimately show ?thesis by (simp add: ttl_map_inv_def len)
qed

text \<open>The heap provides what \<open>container/heap\<close> asks for, whatever the memory is.\<close>

interpretation ttl: heap_interface "ttl_Less m" ttl_Swap array "\<lambda>a. ExpireTime (m a)" ttl_map_inv
  for m :: memory
  by unfold_locales (auto simp: ttl_Less_def ttl_Swap_inv, simp add: ttl_Swap_def Let_def)

section \<open>Correctness of the operations\<close>

lemma ttl_ok_new [simp]: "ttl_ok m newTtlKeyHeap" "array newTtlKeyHeap = []"
  by (simp_all add: ttl_ok_def newTtlKeyHeap_def ttl_map_inv_def heap_ordered_def heap_edges_def)

lemma ttl_ok_cong:
  assumes "ttl_ok m h" and "\<And>a. a \<in> set (array h) \<Longrightarrow> ExpireTime (m' a) = ExpireTime (m a)"
  shows "ttl_ok m' h"
  using assms by (auto simp: ttl_ok_def elim: heap_ordered_key_cong)

text \<open>The top of the heap expires first.\<close>

lemma ttl_top_min:
  assumes ok: "ttl_ok m h" and top: "ttl_top h = Some a"
  shows "a \<in> set (array h)" "\<And>b. b \<in> set (array h) \<Longrightarrow> ExpireTime (m a) \<le> ExpireTime (m b)"
proof -
  have ne: "array h \<noteq> []" and a: "a = array h ! 0"
    using top by (auto simp: ttl_top_def ttl_Len_def split: if_splits)
  then show "a \<in> set (array h)" by simp
  fix b assume "b \<in> set (array h)"
  then obtain i where "i < length (array h)" "b = array h ! i" by (auto simp: in_set_conv_nth)
  then show "ExpireTime (m a) \<le> ExpireTime (m b)"
    using ok a heap_ordered_top [of "\<lambda>a. ExpireTime (m a)" "array h" "length (array h)" i]
    by (simp add: ttl_ok_def)
qed

lemma ttl_Push_inv:
  assumes "ttl_map_inv h" and "n \<notin> set (array h)"
  shows "ttl_map_inv (ttl_Push h n)"
proof -
  have n: "keyMap h n = None" using ttl_map_in [OF assms(1), of n] assms(2) by blast
  let ?h = "ttl_Push h n"
  have "keyMap ?h (array ?h ! i) = Some i" if "i < length (array ?h)" for i
  proof (cases "i < length (array h)")
    case True
    then have "array h ! i \<noteq> n" using assms(2) by (metis nth_mem)
    then show ?thesis using True ttl_mapD(1) [OF assms(1) True] by (simp add: ttl_Push_def nth_append)
  next
    case False
    then show ?thesis using that by (simp add: ttl_Push_def nth_append)
  qed
  moreover have "i < length (array ?h) \<and> array ?h ! i = a" if "keyMap ?h a = Some i" for a i
  proof (cases "a = n")
    case False
    then have "keyMap h a = Some i" using that by (simp add: ttl_Push_def)
    from ttl_mapD(2,3) [OF assms(1) this] show ?thesis by (simp add: ttl_Push_def nth_append)
  qed (use that in \<open>simp add: ttl_Push_def nth_append\<close>)
  ultimately show ?thesis by (simp add: ttl_map_inv_def)
qed

lemma ttl_push_ok:
  assumes ok: "ttl_ok m h" and n: "n \<notin> set (array h)"
  shows "ttl_ok m (ttl_push m h n)" "set (array (ttl_push m h n)) = insert n (set (array h))"
proof -
  let ?h = "ttl_Push h n" and ?l = "length (array h)"
  have inv: "ttl_map_inv ?h" using ok n by (simp add: ttl_ok_def ttl_Push_inv)
  have arr: "array ?h = array h @ [n]" by (simp add: ttl_Push_def)
  have "heap_edges (\<lambda>a. ExpireTime (m a)) (array h @ [n]) (Suc ?l) (\<lambda>j. j \<noteq> ?l \<and> (j - 1) div 2 \<noteq> ?l)"
    unfolding heap_edges_def
  proof (intro allI impI)
    fix j assume j: "0 < j \<and> j < Suc ?l \<and> j \<noteq> ?l \<and> (j - 1) div 2 \<noteq> ?l"
    then have "j < ?l" "(j - 1) div 2 < ?l" by auto
    then show "ExpireTime (m ((array h @ [n]) ! ((j - 1) div 2))) \<le> ExpireTime (m ((array h @ [n]) ! j))"
      using ok j by (simp add: ttl_ok_def heap_ordered_def heap_edges_def nth_append)
  qed
  then have hole: "heap_hole (\<lambda>a. ExpireTime (m a)) (array ?h) ?l (Suc ?l)"
    by (auto simp: heap_hole_def arr)
  have ch: "above_children (\<lambda>a. ExpireTime (m a)) (array ?h) ?l (Suc ?l)"
    by (auto simp: above_children_def)
  have len: "Suc ?l \<le> length (array ?h)" by (simp add: arr)
  have ord: "heap_ordered (\<lambda>a. ExpireTime (m a)) (array (heap_up (ttl_Less m) ttl_Swap ?h ?l)) (Suc ?l)"
    using ttl.up_correct [OF hole ch _ len] by simp
  have fr: "ttl_map_inv (heap_up (ttl_Less m) ttl_Swap ?h ?l)"
    "mset (array (heap_up (ttl_Less m) ttl_Swap ?h ?l)) = mset (array ?h)"
    using ttl.up_frame [OF _ len inv, of ?l m] by simp_all
  have p: "ttl_push m h n = heap_up (ttl_Less m) ttl_Swap ?h ?l"
    by (simp add: ttl_push_def heap_Push_def ttl_Len_def Let_def arr)
  have "length (array (ttl_push m h n)) = Suc ?l" unfolding p using fr(2) by (metis arr length_append_singleton size_mset)
  then show "ttl_ok m (ttl_push m h n)" using ord fr(1) by (simp add: ttl_ok_def p)
  show "set (array (ttl_push m h n)) = insert n (set (array h))"
    unfolding p using fr(2) arr by (metis mset_eq_setD set_append list.simps(15) empty_set Un_insert_right sup_bot_right)
qed

lemma butlast_set:
  assumes "distinct xs" and "xs \<noteq> []"
  shows "set (butlast xs) = set xs - {last xs}"
  using assms by (induction xs rule: rev_induct) auto

lemma ttl_Pop_spec:
  assumes inv: "ttl_map_inv h" and ne: "array h \<noteq> []"
    and ord: "heap_ordered (\<lambda>a. ExpireTime (m a)) (array h) (length (array h) - 1)"
  shows "\<exists>h'. ttl_Pop h = Some (last (array h), h') \<and> ttl_ok m h' \<and>
    set (array h') = set (array h) - {last (array h)}"
proof -
  let ?x = "last (array h)" and ?n = "length (array h) - 1"
  let ?h = "\<lparr>array = butlast (array h), keyMap = (keyMap h)(?x := None)\<rparr>"
  have d: "distinct (array h)" using inv by (rule ttl_map_distinct)
  have x: "?x = array h ! ?n" using ne by (simp add: last_conv_nth)
  have nth: "butlast (array h) ! i = array h ! i" if "i < ?n" for i
    using that by (simp add: nth_butlast)
  have neq: "array h ! i \<noteq> ?x" if "i < ?n" for i
    using d that ne by (simp add: x nth_eq_iff_index_eq)
  have "ttl_map_inv ?h"
    unfolding ttl_map_inv_def
  proof (intro conjI allI impI)
    fix i assume "i < length (array ?h)"
    then show "keyMap ?h (array ?h ! i) = Some i" using inv nth neq by (simp add: ttl_map_inv_def)
  next
    fix a i assume "keyMap ?h a = Some i"
    then have a: "a \<noteq> ?x" "i < length (array h)" "array h ! i = a"
      using inv by (auto simp: ttl_map_inv_def split: if_splits)
    then have "i < ?n" using x by (cases "i = ?n") auto
    then show "i < length (array ?h)" "array ?h ! i = a" using a nth by auto
  qed
  moreover have "heap_ordered (\<lambda>a. ExpireTime (m a)) (butlast (array h)) ?n"
    using heap_ordered_butlast [OF ord] by (simp add: butlast_conv_take)
  moreover have "set (butlast (array h)) = set (array h) - {?x}"
    using butlast_set [OF d ne] .
  ultimately show ?thesis using ne by (simp add: ttl_Pop_def Let_def ttl_ok_def)
qed

text \<open>
  Removing the node at an index, when only that node's \<open>ExpireTime\<close> may have changed since
  the heap was last ordered.
\<close>

lemma heap_Remove_ok:
  assumes ok: "ttl_ok m h" and i: "i < length (array h)"
    and same: "\<And>a. a \<in> set (array h) \<Longrightarrow> a \<noteq> array h ! i \<Longrightarrow> ExpireTime (m' a) = ExpireTime (m a)"
  shows "\<exists>h'. heap_Remove m' h i = Some (array h ! i, h') \<and> ttl_ok m' h' \<and>
    set (array h') = set (array h) - {array h ! i}"
proof -
  let ?n = "length (array h) - 1"
  have inv: "ttl_map_inv h" and ord: "heap_ordered (\<lambda>a. ExpireTime (m a)) (array h) (length (array h))"
    using ok by (auto simp: ttl_ok_def)
  have d: "distinct (array h)" using inv by (rule ttl_map_distinct)
  have ne: "array h \<noteq> []" using i by auto
  have key': "ExpireTime (m' (array h ! k)) = ExpireTime (m (array h ! k))" if "k < length (array h)" "k \<noteq> i" for k
    using same that d i by (simp add: nth_eq_iff_index_eq)
  have edge: "ExpireTime (m (array h ! ((k - 1) div 2))) \<le> ExpireTime (m (array h ! k))"
    if "0 < k" "k < length (array h)" for k
    using ord that by (simp add: heap_ordered_def heap_edges_def)
  show ?thesis
  proof (cases "?n = i")
    case True
    have "ExpireTime (m' (array h ! ((k - 1) div 2))) \<le> ExpireTime (m' (array h ! k))"
      if "0 < k" "k < ?n" for k
    proof -
      have k: "k < length (array h)" "k \<noteq> i" "(k - 1) div 2 < length (array h)" "(k - 1) div 2 \<noteq> i"
        using that True by auto
      show ?thesis unfolding key' [OF k(1,2)] key' [OF k(3,4)] by (rule edge [OF that(1) k(1)])
    qed
    then have "heap_ordered (\<lambda>a. ExpireTime (m' a)) (array h) ?n"
      by (simp add: heap_ordered_def heap_edges_def)
    from ttl_Pop_spec [OF inv ne this] show ?thesis
      using True i ne by (simp add: heap_Remove_def ttl_Len_def Let_def last_conv_nth)
  next
    case False
    let ?s = "ttl_Swap h ?n i"
    have lt: "i < ?n" using False i by simp
    have n: "?n < length (array h)" using ne by simp
    have arr: "array ?s = swap_list ?n i (array h)" by (simp add: ttl_Swap_def Let_def)
    have nth: "array ?s ! k = (if k = ?n then array h ! i else if k = i then array h ! ?n else array h ! k)"
      if "k < length (array h)" for k
      using that i n by (simp add: arr nth_swap_list del: One_nat_def)
    have sinv: "ttl_map_inv ?s" using inv n i by (rule ttl_Swap_inv)
    have hole: "heap_hole (\<lambda>a. ExpireTime (m' a)) (array ?s) i ?n"
      unfolding heap_hole_def heap_edges_def
    proof (intro conjI allI impI)
      fix k assume k: "0 < k \<and> k < ?n \<and> k \<noteq> i \<and> (k - 1) div 2 \<noteq> i"
      let ?p = "(k - 1) div 2"
      from k have p: "?p < length (array h)" "?p \<noteq> i" "?p \<noteq> ?n" "k < length (array h)" "k \<noteq> i" "k \<noteq> ?n"
        by linarith+
      have s: "array ?s ! ?p = array h ! ?p" "array ?s ! k = array h ! k"
        unfolding nth [OF p(1)] nth [OF p(4)] using p by simp_all
      show "ExpireTime (m' (array ?s ! ?p)) \<le> ExpireTime (m' (array ?s ! k))"
        unfolding s key' [OF p(1,2)] key' [OF p(4,5)] using k p(4) by (intro edge) simp_all
    next
      fix k assume k: "0 < k \<and> k < ?n \<and> (k - 1) div 2 = i \<and> 0 < i"
      let ?p = "(i - 1) div 2"
      have p: "?p < i" "i < k" using k by linarith+
      have "ExpireTime (m (array h ! ?p)) \<le> ExpireTime (m (array h ! i))" using edge [OF _ i] k by simp
      also have "\<dots> \<le> ExpireTime (m (array h ! k))"
      proof -
        have "k < length (array h)" using k by linarith
        then show ?thesis using edge [of k] k by simp
      qed
      finally have le: "ExpireTime (m (array h ! ?p)) \<le> ExpireTime (m (array h ! k))" .
      from p k have q: "?p < length (array h)" "?p \<noteq> i" "?p \<noteq> ?n" "k < length (array h)" "k \<noteq> i" "k \<noteq> ?n"
        by linarith+
      have s: "array ?s ! ?p = array h ! ?p" "array ?s ! k = array h ! k"
        unfolding nth [OF q(1)] nth [OF q(4)] using q by simp_all
      show "ExpireTime (m' (array ?s ! ?p)) \<le> ExpireTime (m' (array ?s ! k))"
        unfolding s key' [OF q(1,2)] key' [OF q(4,5)] by (rule le)
    qed
    let ?h = "heap_up (ttl_Less m') ttl_Swap (heap_down (ttl_Less m') ttl_Swap ?s i ?n) i"
    have len: "?n \<le> length (array ?s)" unfolding arr by simp
    have ord': "heap_ordered (\<lambda>a. ExpireTime (m' a)) (array ?h) ?n"
      by (rule ttl.down_up_correct [OF hole lt len sinv])
    have df: "ttl_map_inv (heap_down (ttl_Less m') ttl_Swap ?s i ?n)"
      "mset (array (heap_down (ttl_Less m') ttl_Swap ?s i ?n)) = mset (array ?s)"
      "array (heap_down (ttl_Less m') ttl_Swap ?s i ?n) ! ?n = array ?s ! ?n"
      using ttl.down_frame [OF len sinv, of m' i] n arr by auto
    have dlen: "length (array (heap_down (ttl_Less m') ttl_Swap ?s i ?n)) = length (array h)"
      using df(2) arr by (metis length_swap_list size_mset)
    then have dn: "?n \<le> length (array (heap_down (ttl_Less m') ttl_Swap ?s i ?n))" by simp
    have uf: "ttl_map_inv ?h" "mset (array ?h) = mset (array ?s)" "array ?h ! ?n = array h ! i"
      using ttl.up_frame [OF lt dn df(1), of m'] df(2,3) nth [OF n] n dlen by auto
    have ulen: "length (array ?h) = length (array h)" using uf(2) arr by (metis length_swap_list size_mset)
    have "set (array ?h) = set (array h)"
      using uf(2) i n by (metis arr mset_eq_setD set_swap_list)
    moreover have "array ?h \<noteq> []" using ulen ne by auto
    moreover have "last (array ?h) = array h ! i"
      using uf(3) ulen ne \<open>array ?h \<noteq> []\<close> by (simp add: last_conv_nth)
    ultimately show ?thesis
      using ttl_Pop_spec [OF uf(1) _ , of m'] ord' ulen False i
      by (simp add: heap_Remove_def ttl_Len_def Let_def)
  qed
qed

lemma ttl_remove_ok:
  assumes ok: "ttl_ok m h"
    and same: "\<And>a. a \<in> set (array h) \<Longrightarrow> a \<noteq> n \<Longrightarrow> ExpireTime (m' a) = ExpireTime (m a)"
  shows "\<exists>h'. ttl_remove m' h n = Some h' \<and> ttl_ok m' h' \<and> set (array h') = set (array h) - {n}"
proof (cases "keyMap h n")
  case None
  then have "n \<notin> set (array h)" using ok ttl_map_in [of h n] by (simp add: ttl_ok_def)
  then show ?thesis using None ttl_ok_cong [OF ok] same by (auto simp: ttl_remove_def)
next
  case (Some i)
  then have i: "i < length (array h)" "array h ! i = n" using ok by (auto simp: ttl_ok_def ttl_map_inv_def)
  from heap_Remove_ok [OF ok i(1), of m'] same i(2) show ?thesis
    using Some by (auto simp: ttl_remove_def)
qed

lemma ttl_update_ok:
  assumes ok: "ttl_ok m h" and n: "n \<in> set (array h)"
    and same: "\<And>a. a \<in> set (array h) \<Longrightarrow> a \<noteq> n \<Longrightarrow> ExpireTime (m' a) = ExpireTime (m a)"
  shows "\<exists>h'. ttl_update m' h n = Some h' \<and> ttl_ok m' h' \<and> set (array h') = set (array h)"
proof -
  obtain i where some: "keyMap h n = Some i" using ok n ttl_map_in [of h n] by (auto simp: ttl_ok_def)
  then have i: "i < length (array h)" "array h ! i = n" using ok by (auto simp: ttl_ok_def ttl_map_inv_def)
  from heap_Remove_ok [OF ok i(1), of m'] same i(2) obtain h1 where
    h1: "heap_Remove m' h i = Some (n, h1)" "ttl_ok m' h1" "set (array h1) = set (array h) - {n}" by auto
  have "n \<notin> set (array h1)" using h1(3) by simp
  from ttl_push_ok [OF h1(2) this] show ?thesis
    using some h1(1,3) n by (auto simp: ttl_update_def ttl_push_def)
qed

text \<open>\<open>heap.Pop\<close> takes the top away.\<close>

lemma ttl_pop_ok:
  assumes ok: "ttl_ok m h" and top: "ttl_top h = Some a"
  shows "\<exists>h'. ttl_pop m h = Some (a, h') \<and> ttl_ok m h' \<and> set (array h') = set (array h) - {a}"
proof -
  have ne: "array h \<noteq> []" and a: "a = array h ! 0"
    using top by (auto simp: ttl_top_def ttl_Len_def split: if_splits)
  have inv: "ttl_map_inv h" and ord: "heap_ordered (\<lambda>a. ExpireTime (m a)) (array h) (length (array h))"
    using ok by (auto simp: ttl_ok_def)
  let ?n = "length (array h) - 1" and ?k = "\<lambda>a. ExpireTime (m a)"
  let ?s = "ttl_Swap h 0 ?n" and ?h = "heap_down (ttl_Less m) ttl_Swap (ttl_Swap h 0 ?n) 0 ?n"
  have n: "?n < length (array h)" using ne by simp
  have arr: "array ?s = swap_list 0 ?n (array h)" by (simp add: ttl_Swap_def Let_def)
  have nth: "array ?s ! k = (if k = 0 then array h ! ?n else if k = ?n then array h ! 0 else array h ! k)"
    if "k < length (array h)" for k
    using that n ne by (simp add: arr nth_swap_list del: One_nat_def)
  have sinv: "ttl_map_inv ?s" using inv n ne by (intro ttl_Swap_inv) auto
  have "heap_hole ?k (array ?s) 0 ?n"
    unfolding heap_hole_def heap_edges_def
  proof (intro conjI allI impI)
    fix j assume j: "0 < j \<and> j < ?n \<and> j \<noteq> 0 \<and> (j - 1) div 2 \<noteq> 0"
    let ?p = "(j - 1) div 2"
    from j have p: "?p < length (array h)" "?p \<noteq> 0" "?p \<noteq> ?n" "j < length (array h)" "j \<noteq> 0" "j \<noteq> ?n"
      by linarith+
    have s: "array ?s ! ?p = array h ! ?p" "array ?s ! j = array h ! j"
      unfolding nth [OF p(1)] nth [OF p(4)] using p by simp_all
    show "?k (array ?s ! ?p) \<le> ?k (array ?s ! j)"
      unfolding s using j p(4) ord by (simp add: heap_ordered_def heap_edges_def)
  qed simp
  moreover have len: "?n \<le> length (array ?s)" unfolding arr by simp
  ultimately have ord': "heap_ordered ?k (array ?h) ?n"
    by (intro ttl.down_correct) (simp_all add: below_parent_def)
  have df: "ttl_map_inv ?h" "mset (array ?h) = mset (array ?s)" "array ?h ! ?n = array ?s ! ?n"
    using ttl.down_frame [OF len sinv, of m 0] n arr by auto
  have dlen: "length (array ?h) = length (array h)"
    using df(2) arr by (metis length_swap_list size_mset)
  then have "array ?h \<noteq> []" using ne by auto
  moreover have "last (array ?h) = a"
    using df(3) nth [OF n] dlen \<open>array ?h \<noteq> []\<close> ne a by (cases "?n = 0") (simp_all add: last_conv_nth)
  moreover have "set (array ?h) = set (array h)"
    using df(2) n ne by (metis arr length_greater_0_conv mset_eq_setD set_swap_list)
  ultimately show ?thesis
    using ttl_Pop_spec [OF df(1), of m] ord' dlen ne
    by (simp add: ttl_pop_def heap_Pop_def ttl_Len_def Let_def)
qed

end
