(* ===== verification/GoPath.thy ===== *)
theory GoPath
  imports Prelude
begin

text \<open>
  The parts of Go's \<open>strings\<close>, \<open>strconv\<close> and \<open>path\<close> packages the sources call:
  \<open>strings.Split\<close>, \<open>strings.Join\<close>, \<open>path.Clean\<close>, \<open>path.Join\<close>, \<open>path.Split\<close> and
  \<open>strconv.FormatUint(n, 10)\<close>, on strings as lists of bytes.

  A cleaned rooted path is \<open>render cs\<close> for a list \<open>cs\<close> of names (non-empty, without a slash,
  neither \<open>.\<close> nor \<open>..\<close>): the lemmas bring every path the store computes to that form.
\<close>

section \<open>Operations\<close>

fun split_on :: "char \<Rightarrow> string \<Rightarrow> string list" where
  "split_on c [] = [[]]"
| "split_on c (x # xs) =
     (if x = c then [] # split_on c xs
      else (case split_on c xs of [] \<Rightarrow> [[x]] | y # ys \<Rightarrow> (x # y) # ys))"

definition strings_Split :: "string \<Rightarrow> string list" where
  "strings_Split s = split_on slash s"

fun strings_Join :: "string list \<Rightarrow> string \<Rightarrow> string" where
  "strings_Join [] sep = []"
| "strings_Join [x] sep = x"
| "strings_Join (x # y # ys) sep = x @ sep @ strings_Join (y # ys) sep"

text \<open>One component of \<open>path.Clean\<close>; the components kept so far are in reverse order.\<close>

fun clean_step :: "bool \<Rightarrow> string list \<Rightarrow> string \<Rightarrow> string list" where
  "clean_step rooted out c =
     (if c = [] \<or> c = ''.'' then out
      else if c = ''..'' then
        (case out of
           [] \<Rightarrow> (if rooted then [] else [c])
         | d # ds \<Rightarrow> (if d = ''..'' then c # out else ds))
      else c # out)"

definition clean_comps :: "bool \<Rightarrow> string \<Rightarrow> string list" where
  "clean_comps rooted p = rev (foldl (clean_step rooted) [] (strings_Split p))"

definition path_Clean :: "string \<Rightarrow> string" where
  "path_Clean p =
     (case p of
        [] \<Rightarrow> ''.''
      | c # _ \<Rightarrow>
          (if c = slash then slash # strings_Join (clean_comps True p) ''/''
           else (case strings_Join (clean_comps False p) ''/'' of [] \<Rightarrow> ''.'' | out \<Rightarrow> out)))"

definition path_Join :: "string list \<Rightarrow> string" where
  "path_Join elems =
     (case dropWhile (\<lambda>e. e = []) elems of [] \<Rightarrow> [] | es \<Rightarrow> path_Clean (strings_Join es ''/''))"

definition path_Split :: "string \<Rightarrow> string \<times> string" where
  "path_Split p =
     (let file = rev (takeWhile (\<lambda>c. c \<noteq> slash) (rev p))
      in (take (length p - length file) p, file))"

definition strings_HasPrefix :: "string \<Rightarrow> string \<Rightarrow> bool" where
  "strings_HasPrefix s pre = (take (length pre) s = pre)"

fun strings_Contains :: "string \<Rightarrow> string \<Rightarrow> bool" where
  "strings_Contains [] sub = (sub = [])"
| "strings_Contains (c # s) sub = (strings_HasPrefix (c # s) sub \<or> strings_Contains s sub)"

fun FormatUint :: "nat \<Rightarrow> string" where
  "FormatUint n =
     (if n < 10 then [char_of (48 + n)] else FormatUint (n div 10) @ [char_of (48 + n mod 10)])"

declare FormatUint.simps [simp del]

section \<open>Splitting and joining\<close>

lemma split_on_not_Nil [simp]: "split_on c s \<noteq> []"
  by (induction s) (auto split: list.splits)

lemma split_on_notin: "c \<notin> set s \<Longrightarrow> split_on c s = [s]"
  by (induction s) auto

lemma split_on_append: "c \<notin> set s \<Longrightarrow> split_on c (s @ c # t) = s # split_on c t"
  by (induction s) auto

lemma split_on_no_sep: "x \<in> set (split_on c s) \<Longrightarrow> c \<notin> set x"
proof (induction s arbitrary: x)
  case (Cons a s)
  show ?case
  proof (cases "a = c")
    case True
    with Cons show ?thesis by auto
  next
    case False
    obtain y ys where ys: "split_on c s = y # ys"
      by (cases "split_on c s") auto
    with Cons.prems False have "x = a # y \<or> x \<in> set ys" by simp
    moreover have "c \<notin> set y" and "x \<in> set ys \<Longrightarrow> c \<notin> set x"
      using Cons.IH ys by auto
    ultimately show ?thesis using False by auto
  qed
qed simp

section \<open>Names and rendered paths\<close>

definition valid_name :: "string \<Rightarrow> bool" where
  "valid_name c \<longleftrightarrow> c \<noteq> [] \<and> slash \<notin> set c \<and> c \<noteq> ''.'' \<and> c \<noteq> ''..''"

definition valid_names :: "string list \<Rightarrow> bool" where
  "valid_names cs \<longleftrightarrow> list_all valid_name cs"

definition render :: "string list \<Rightarrow> string" where
  "render cs = (if cs = [] then ''/'' else concat (map (\<lambda>c. slash # c) cs))"

lemma valid_names_simps [simp]:
  "valid_names []"
  "valid_names (c # cs) \<longleftrightarrow> valid_name c \<and> valid_names cs"
  "valid_names (cs @ ds) \<longleftrightarrow> valid_names cs \<and> valid_names ds"
  by (simp_all add: valid_names_def)

lemma valid_names_rev [simp]: "valid_names (rev cs) = valid_names cs"
  by (simp add: valid_names_def list_all_iff)

lemma render_Nil [path_simps]: "render [] = ''/''"
  by (simp add: render_def)

lemma render_eq_Join: "render cs = slash # strings_Join cs ''/''"
proof (induction cs "''/''" rule: strings_Join.induct)
  case (3 x y ys)
  then show ?case by (simp add: render_def)
qed (simp_all add: render_def)

lemma split_on_concat:
  "valid_names cs \<Longrightarrow> cs \<noteq> [] \<Longrightarrow> split_on slash (concat (map (\<lambda>c. slash # c) cs)) = [] # cs"
proof (induction cs)
  case (Cons c cs)
  then have c: "slash \<notin> set c" by (simp add: valid_name_def)
  show ?case
  proof (cases cs)
    case Nil
    then show ?thesis using c by (simp add: split_on_notin)
  next
    case (Cons d ds)
    then have "concat (map (\<lambda>c. slash # c) (c # cs)) = slash # c @ slash # (d @ concat (map (\<lambda>c. slash # c) ds))"
      by simp
    moreover have "split_on slash (slash # (d @ concat (map (\<lambda>c. slash # c) ds))) = [] # cs"
      using Cons Cons.IH Cons.prems by simp
    ultimately show ?thesis
      using c by (simp add: split_on_append)
  qed
qed simp

lemma Split_render [path_simps]:
  "valid_names cs \<Longrightarrow> strings_Split (render cs) = (if cs = [] then [[], []] else [] # cs)"
  by (simp add: strings_Split_def render_def split_on_concat)

lemma foldl_clean_valid:
  "valid_names cs \<Longrightarrow> foldl (clean_step rooted) out cs = rev cs @ out"
  by (induction cs arbitrary: out) (auto simp: valid_name_def)

lemma clean_step_valid:
  "slash \<notin> set c \<Longrightarrow> valid_names out \<Longrightarrow> valid_names (clean_step True out c)"
  by (cases out) (auto simp: valid_name_def)

lemma foldl_clean_step_valid:
  "(\<forall>c \<in> set xs. slash \<notin> set c) \<Longrightarrow> valid_names out \<Longrightarrow>
   valid_names (foldl (clean_step True) out xs)"
proof (induction xs arbitrary: out)
  case (Cons x xs)
  then show ?case by (simp del: clean_step.simps add: clean_step_valid)
qed simp

lemma clean_comps_valid: "valid_names (clean_comps True p)"
  unfolding clean_comps_def strings_Split_def
  using split_on_no_sep by (simp del: clean_step.simps add: foldl_clean_step_valid)

lemma path_Clean_rooted: "path_Clean (slash # p) = render (clean_comps True (slash # p))"
  by (simp add: path_Clean_def render_eq_Join)

lemma clean_comps_render: "valid_names cs \<Longrightarrow> clean_comps True (render cs) = cs"
  by (auto simp: clean_comps_def Split_render foldl_clean_valid)

lemma path_Clean_render [path_simps]: "valid_names cs \<Longrightarrow> path_Clean (render cs) = render cs"
  by (metis clean_comps_render path_Clean_rooted render_eq_Join)

text \<open>The names of a key as the store reads it: \<open>path.Clean(path.Join("/", p))\<close>.\<close>

definition key_names :: "string \<Rightarrow> string list" where
  "key_names p = clean_comps True (slash # slash # p)"

lemma key_names_valid [simp]: "valid_names (key_names p)"
  by (simp add: key_names_def clean_comps_valid)

lemma Clean_Join_key [path_simps]: "path_Clean (path_Join [''/'', p]) = render (key_names p)"
  by (simp add: path_Join_def path_Clean_rooted key_names_def path_Clean_render clean_comps_valid)

lemma clean_comps_slash: "clean_comps True (slash # p) = clean_comps True p"
  by (simp add: clean_comps_def strings_Split_def)

lemma key_names_render [simp]: "valid_names cs \<Longrightarrow> key_names (render cs) = cs"
  by (simp add: key_names_def clean_comps_slash clean_comps_render)

lemma path_Join_render [path_simps]:
  assumes "valid_names cs" and "valid_name c"
  shows "path_Join [render cs, c] = render (cs @ [c])"
proof (cases "cs = []")
  case True
  have "strings_Split (''/'' @ ''/'' @ c) = [[], [], c]"
    using assms(2) by (simp add: strings_Split_def split_on_notin valid_name_def)
  then have "clean_comps True (slash # slash # c) = [c]"
    using assms(2) by (simp add: clean_comps_def valid_name_def)
  then show ?thesis
    using True by (simp add: path_Join_def render_def path_Clean_rooted [of "slash # c"])
next
  case False
  then have "render cs @ ''/'' @ c = render (cs @ [c])"
    by (simp add: render_def)
  moreover have "render cs \<noteq> []" by (simp add: render_def False)
  ultimately show ?thesis
    using path_Clean_render [of "cs @ [c]"] assms by (simp add: path_Join_def)
qed

lemma render_inj: "valid_names cs \<Longrightarrow> valid_names ds \<Longrightarrow> render cs = render ds \<Longrightarrow> cs = ds"
  by (metis clean_comps_render)

lemma render_eq_slash [simp]: "valid_names cs \<Longrightarrow> (render cs = ''/'') = (cs = [])"
  using render_inj [of cs "[]"] by (auto simp: render_Nil)

lemma path_Split_append: "slash \<notin> set f \<Longrightarrow> path_Split (d @ slash # f) = (d @ ''/'', f)"
  by (auto simp: path_Split_def takeWhile_append)

text \<open>The directory part of a key keeps its trailing slash.\<close>

definition render_dir :: "string list \<Rightarrow> string" where
  "render_dir cs = concat (map (\<lambda>c. slash # c) cs) @ ''/''"

lemma path_Split_render [path_simps]:
  "valid_name c \<Longrightarrow> path_Split (render (cs @ [c])) = (render_dir cs, c)"
  using path_Split_append [of c "concat (map (\<lambda>c. slash # c) cs)"]
  by (simp add: render_def render_dir_def valid_name_def)

lemma split_on_concat_dir:
  "valid_names cs \<Longrightarrow> split_on slash (concat (map (\<lambda>c. slash # c) cs) @ ''/'') = [] # cs @ [[]]"
proof (induction cs)
  case (Cons c cs)
  then have c: "slash \<notin> set c" by (simp add: valid_name_def)
  have "split_on slash (c @ concat (map (\<lambda>c. slash # c) cs) @ ''/'') = c # cs @ [[]]"
  proof (cases cs)
    case Nil
    then show ?thesis using split_on_append [OF c, of "[]"] by simp
  next
    case (Cons d ds)
    then show ?thesis
      using Cons.IH Cons.prems split_on_append [OF c, of "d @ concat (map (\<lambda>c. slash # c) ds) @ ''/''"]
      by simp
  qed
  then show ?case by simp
qed simp

lemma Split_render_dir [path_simps]:
  "valid_names cs \<Longrightarrow> strings_Split (render_dir cs) = [] # cs @ [[]]"
  by (simp add: strings_Split_def render_dir_def split_on_concat_dir)

lemma hd_render [simp]: "\<exists>r. render cs = slash # r"
  by (simp add: render_eq_Join)

end
