(* ===== verification/EtcdError.thy ===== *)
theory EtcdError
  imports Prelude
begin

text \<open>
  \<open>coreos/etcd/error/error.go\<close>: the error codes, their messages and the HTTP status of an
  error response. An \<open>*etcdErr.Error\<close> is a record; a fallible operation of the store
  returns \<open>etcd_error + 'a\<close>, \<open>Inl\<close> for the error.
\<close>

record etcd_error =
  ErrorCode :: int
  Message :: string
  Cause :: string
  ErrIndex :: u64

definition EcodeKeyNotFound :: int where "EcodeKeyNotFound = 100"
definition EcodeTestFailed :: int where "EcodeTestFailed = 101"
definition EcodeNotFile :: int where "EcodeNotFile = 102"
definition EcodeNoMorePeer :: int where "EcodeNoMorePeer = 103"
definition EcodeNotDir :: int where "EcodeNotDir = 104"
definition EcodeNodeExist :: int where "EcodeNodeExist = 105"
definition EcodeKeyIsPreserved :: int where "EcodeKeyIsPreserved = 106"
definition EcodeRootROnly :: int where "EcodeRootROnly = 107"
definition EcodeDirNotEmpty :: int where "EcodeDirNotEmpty = 108"
definition EcodeExistingPeerAddr :: int where "EcodeExistingPeerAddr = 109"
definition EcodeValueRequired :: int where "EcodeValueRequired = 200"
definition EcodePrevValueRequired :: int where "EcodePrevValueRequired = 201"
definition EcodeTTLNaN :: int where "EcodeTTLNaN = 202"
definition EcodeIndexNaN :: int where "EcodeIndexNaN = 203"
definition EcodeValueOrTTLRequired :: int where "EcodeValueOrTTLRequired = 204"
definition EcodeTimeoutNaN :: int where "EcodeTimeoutNaN = 205"
definition EcodeNameRequired :: int where "EcodeNameRequired = 206"
definition EcodeIndexOrValueRequired :: int where "EcodeIndexOrValueRequired = 207"
definition EcodeIndexValueMutex :: int where "EcodeIndexValueMutex = 208"
definition EcodeInvalidField :: int where "EcodeInvalidField = 209"
definition EcodeRaftInternal :: int where "EcodeRaftInternal = 300"
definition EcodeLeaderElect :: int where "EcodeLeaderElect = 301"
definition EcodeWatcherCleared :: int where "EcodeWatcherCleared = 400"
definition EcodeEventIndexCleared :: int where "EcodeEventIndexCleared = 401"
definition EcodeStandbyInternal :: int where "EcodeStandbyInternal = 402"
definition EcodeInvalidActiveSize :: int where "EcodeInvalidActiveSize = 403"
definition EcodeInvalidRemoveDelay :: int where "EcodeInvalidRemoveDelay = 404"
definition EcodeClientInternal :: int where "EcodeClientInternal = 500"

lemmas ecode_defs = EcodeKeyNotFound_def EcodeTestFailed_def EcodeNotFile_def EcodeNoMorePeer_def
  EcodeNotDir_def EcodeNodeExist_def EcodeKeyIsPreserved_def EcodeRootROnly_def
  EcodeDirNotEmpty_def EcodeExistingPeerAddr_def EcodeRaftInternal_def EcodeLeaderElect_def
  EcodeWatcherCleared_def EcodeEventIndexCleared_def EcodeClientInternal_def
  EcodeValueRequired_def EcodePrevValueRequired_def EcodeTTLNaN_def EcodeIndexNaN_def EcodeValueOrTTLRequired_def
  EcodeTimeoutNaN_def EcodeNameRequired_def EcodeIndexOrValueRequired_def EcodeIndexValueMutex_def EcodeInvalidField_def
  EcodeStandbyInternal_def EcodeInvalidActiveSize_def EcodeInvalidRemoveDelay_def

text \<open>The table of messages; a code that is not a key of the Go map reads as the empty string.\<close>

definition errors :: "(int \<times> string) list" where
  "errors =
     [(EcodeKeyNotFound, ''Key not found''),
      (EcodeTestFailed, ''Compare failed''),
      (EcodeNotFile, ''Not a file''),
      (EcodeNoMorePeer, ''Reached the max number of peers in the cluster''),
      (EcodeNotDir, ''Not a directory''),
      (EcodeNodeExist, ''Key already exists''),
      (EcodeRootROnly, ''Root is read only''),
      (EcodeKeyIsPreserved, ''The prefix of given key is a keyword in etcd''),
      (EcodeDirNotEmpty, ''Directory not empty''),
      (EcodeExistingPeerAddr, ''Peer address has existed''),
      (EcodeValueRequired, ''Value is Required in POST form''),
      (EcodePrevValueRequired, ''PrevValue is Required in POST form''),
      (EcodeTTLNaN, ''The given TTL in POST form is not a number''),
      (EcodeIndexNaN, ''The given index in POST form is not a number''),
      (EcodeValueOrTTLRequired, ''Value or TTL is required in POST form''),
      (EcodeTimeoutNaN, ''The given timeout in POST form is not a number''),
      (EcodeNameRequired, ''Name is required in POST form''),
      (EcodeIndexOrValueRequired, ''Index or value is required''),
      (EcodeIndexValueMutex, ''Index and value cannot both be specified''),
      (EcodeInvalidField, ''Invalid field''),
      (EcodeRaftInternal, ''Raft Internal Error''),
      (EcodeLeaderElect, ''During Leader Election''),
      (EcodeWatcherCleared, ''watcher is cleared due to etcd recovery''),
      (EcodeEventIndexCleared, ''The event in requested index is outdated and cleared''),
      (EcodeStandbyInternal, ''Standby Internal Error''),
      (EcodeInvalidActiveSize, ''Invalid active size''),
      (EcodeInvalidRemoveDelay, ''Standby remove delay''),
      (EcodeClientInternal, ''Client Internal Error'')]"

definition ErrMessage :: "int \<Rightarrow> string" where
  "ErrMessage code = (case map_of errors code of None \<Rightarrow> [] | Some m \<Rightarrow> m)"

definition NewError :: "int \<Rightarrow> string \<Rightarrow> u64 \<Rightarrow> etcd_error" where
  "NewError errorCode cause index =
     \<lparr>ErrorCode = errorCode, Message = ErrMessage errorCode, Cause = cause, ErrIndex = index\<rparr>"

definition Error_string :: "etcd_error \<Rightarrow> string" where
  "Error_string e = Message e @ '' ('' @ Cause e @ '')''"

text \<open>The status line of \<open>Error.Write\<close>; Go's integer division truncates.\<close>

definition Error_status :: "etcd_error \<Rightarrow> int" where
  "Error_status e =
     (if ErrorCode e = EcodeKeyNotFound then 404
      else if ErrorCode e = EcodeNotFile \<or> ErrorCode e = EcodeDirNotEmpty then 403
      else if ErrorCode e = EcodeTestFailed \<or> ErrorCode e = EcodeNodeExist then 412
      else if sgn (ErrorCode e) * (\<bar>ErrorCode e\<bar> div 100) = 3 then 500
      else 400)"

lemma NewError_simps [simp]:
  "ErrorCode (NewError c m i) = c" "Cause (NewError c m i) = m" "ErrIndex (NewError c m i) = i"
  "Message (NewError c m i) = ErrMessage c"
  by (simp_all add: NewError_def)

text \<open>Every status is one of the five HTTP codes, and only raft's internal errors are 500.\<close>

lemma Error_status_range: "Error_status e \<in> {400, 403, 404, 412, 500}"
  by (simp add: Error_status_def)

lemma Error_status_500: "Error_status e = 500 \<longleftrightarrow> 300 \<le> ErrorCode e \<and> ErrorCode e < 400"
  by (cases "0 < ErrorCode e"; cases "ErrorCode e = 0")
    (auto simp: Error_status_def ecode_defs sgn_if split: if_splits)

end
