(* ===== verification/EtcdEvent.thy ===== *)
theory EtcdEvent
  imports GoPath EtcdError
begin

text \<open>
  \<open>coreos/etcd/store\<close>: \<open>node_extern.go\<close> (the external view of a node), \<open>event.go\<close> and
  \<open>response_v1.go\<close> (events and the version-1 response), \<open>event_queue.go\<close> and
  \<open>event_history.go\<close> (the ring buffer of recent events that watches scan).

  A \<open>*time.Time\<close> in a \<open>NodeExtern\<close> points at the \<open>ExpireTime\<close> field of a live node, so it
  is the node's address: what it reads changes when the node's TTL does. The pointers to
  strings point at private copies and are values.

  The ring buffer is related to the list of the events it holds, oldest first
  (\<open>hist_list\<close>); \<open>hist_inv\<close> says that the indices of these events are consecutive.
\<close>

section \<open>External nodes and events\<close>

datatype NodeExtern = NodeExtern
  (Key: string) (EValue: "string option") (EDir: bool) (Expiration: "addr option") (ETTL: int)
  (Nodes: "NodeExtern list") (EModifiedIndex: u64) (ECreatedIndex: u64)

fun set_EValue :: "string \<Rightarrow> NodeExtern \<Rightarrow> NodeExtern" where
  "set_EValue v (NodeExtern k _ d x t ns m c) = NodeExtern k (Some v) d x t ns m c"

fun set_EDir :: "NodeExtern \<Rightarrow> NodeExtern" where
  "set_EDir (NodeExtern k v _ x t ns m c) = NodeExtern k v True x t ns m c"

fun set_Expiration :: "addr option \<times> int \<Rightarrow> NodeExtern \<Rightarrow> NodeExtern" where
  "set_Expiration (x, t) (NodeExtern k v d _ _ ns m c) = NodeExtern k v d x t ns m c"

fun set_Nodes :: "NodeExtern list \<Rightarrow> NodeExtern \<Rightarrow> NodeExtern" where
  "set_Nodes ns (NodeExtern k v d x t _ m c) = NodeExtern k v d x t ns m c"

text \<open>\<open>sort.Sort(NodeExterns)\<close> orders by \<open>Key\<close>, bytewise.\<close>

definition sort_NodeExterns :: "NodeExtern list \<Rightarrow> NodeExtern list" where
  "sort_NodeExterns ns = sort_key Key ns"

record event =
  Action :: string
  ENode :: NodeExtern
  PrevNode :: "NodeExtern option"

definition newEvent :: "string \<Rightarrow> string \<Rightarrow> u64 \<Rightarrow> u64 \<Rightarrow> event" where
  "newEvent action key modifiedIndex createdIndex =
     \<lparr>Action = action,
      ENode = NodeExtern key None False None 0 [] modifiedIndex createdIndex,
      PrevNode = None\<rparr>"

definition EvIndex :: "event \<Rightarrow> u64" where
  "EvIndex e = EModifiedIndex (ENode e)"

definition IsCreated :: "event \<Rightarrow> bool" where
  "IsCreated e =
     (if Action e = ''create'' then True
      else if Action e = ''set'' \<and> PrevNode e = None then True else False)"

record response =
  RAction :: string
  RKey :: string
  RDir :: bool
  RPrevValue :: "string option"
  RValue :: "string option"
  RNewKey :: bool
  RExpiration :: "addr option"
  RTTL :: int
  RIndex :: u64

text \<open>\<open>Event.Response\<close>: one response for a file, a list of them for a directory.\<close>

definition Response :: "event \<Rightarrow> u64 \<Rightarrow> response + response list" where
  "Response e currentIndex =
     (let n = ENode e in
      if \<not> EDir n then
        let prev = (case PrevNode e of None \<Rightarrow> None | Some p \<Rightarrow> EValue p);
            index = (if currentIndex \<noteq> 0 then currentIndex else EModifiedIndex n);
            newKey = (Action e = ''set'' \<and> prev = None);
            action = (if Action e = ''compareAndSwap'' \<or> Action e = ''create''
                      then ''testAndSet'' else Action e)
        in Inl \<lparr>RAction = action, RKey = Key n, RDir = False, RPrevValue = prev,
                RValue = EValue n, RNewKey = newKey, RExpiration = Expiration n,
                RTTL = ETTL n, RIndex = index\<rparr>
      else
        Inr (map (\<lambda>c. \<lparr>RAction = Action e, RKey = Key c, RDir = EDir c, RPrevValue = None,
                       RValue = EValue c, RNewKey = False, RExpiration = None, RTTL = 0,
                       RIndex = (if currentIndex \<noteq> 0 then currentIndex
                                 else EModifiedIndex c)\<rparr>) (Nodes n)))"

lemma newEvent_simps [simp]:
  "Key (ENode (newEvent a k m c)) = k" "EvIndex (newEvent a k m c) = m"
  "Action (newEvent a k m c) = a" "PrevNode (newEvent a k m c) = None"
  "ECreatedIndex (ENode (newEvent a k m c)) = c" "EDir (ENode (newEvent a k m c)) = False"
  "EValue (ENode (newEvent a k m c)) = None" "Nodes (ENode (newEvent a k m c)) = []"
  "Expiration (ENode (newEvent a k m c)) = None" "ETTL (ENode (newEvent a k m c)) = 0"
  "EModifiedIndex (ENode (newEvent a k m c)) = m"
  by (simp_all add: newEvent_def EvIndex_def)

lemma set_EValue_simps [simp]:
  "Key (set_EValue v n) = Key n" "EValue (set_EValue v n) = Some v" "EDir (set_EValue v n) = EDir n"
  "EModifiedIndex (set_EValue v n) = EModifiedIndex n"
  "ECreatedIndex (set_EValue v n) = ECreatedIndex n" "Nodes (set_EValue v n) = Nodes n"
  "Expiration (set_EValue v n) = Expiration n" "ETTL (set_EValue v n) = ETTL n"
  by (cases n, simp)+

lemma set_EDir_simps [simp]:
  "Key (set_EDir n) = Key n" "EValue (set_EDir n) = EValue n" "EDir (set_EDir n)"
  "EModifiedIndex (set_EDir n) = EModifiedIndex n" "ECreatedIndex (set_EDir n) = ECreatedIndex n"
  "Nodes (set_EDir n) = Nodes n" "Expiration (set_EDir n) = Expiration n" "ETTL (set_EDir n) = ETTL n"
  by (cases n, simp)+

lemma set_Expiration_simps [simp]:
  "Key (set_Expiration x n) = Key n" "EValue (set_Expiration x n) = EValue n"
  "EDir (set_Expiration x n) = EDir n" "EModifiedIndex (set_Expiration x n) = EModifiedIndex n"
  "ECreatedIndex (set_Expiration x n) = ECreatedIndex n" "Nodes (set_Expiration x n) = Nodes n"
  "Expiration (set_Expiration x n) = fst x" "ETTL (set_Expiration x n) = snd x"
  by (cases n; cases x; simp)+

lemma set_Nodes_simps [simp]:
  "Key (set_Nodes ns n) = Key n" "EValue (set_Nodes ns n) = EValue n"
  "EDir (set_Nodes ns n) = EDir n" "EModifiedIndex (set_Nodes ns n) = EModifiedIndex n"
  "ECreatedIndex (set_Nodes ns n) = ECreatedIndex n" "Nodes (set_Nodes ns n) = ns"
  "Expiration (set_Nodes ns n) = Expiration n" "ETTL (set_Nodes ns n) = ETTL n"
  by (cases n, simp)+

section \<open>The event queue\<close>

record eventQueue =
  Events :: "event option list"
  QSize :: nat
  Front :: nat
  Back :: nat
  Capacity :: nat

text \<open>A store past the end of the array panics.\<close>

definition eq_insert :: "eventQueue \<Rightarrow> event \<Rightarrow> eventQueue option" where
  "eq_insert eq e =
     (if length (Events eq) \<le> Back eq then None
      else
        let eq1 = eq\<lparr>Events := (Events eq)[Back eq := Some e],
                     Back := (Back eq + 1) mod Capacity eq\<rparr>
        in Some (if QSize eq1 = Capacity eq1
                 then eq1\<lparr>Front := (Front eq1 + 1) mod Capacity eq1\<rparr>
                 else eq1\<lparr>QSize := QSize eq1 + 1\<rparr>))"

section \<open>The event history\<close>

record EventHistory =
  Queue :: eventQueue
  StartIndex :: u64
  LastIndex :: u64

definition newEventHistory :: "nat \<Rightarrow> EventHistory" where
  "newEventHistory capacity =
     \<lparr>Queue = \<lparr>Events = replicate capacity None, QSize = 0, Front = 0, Back = 0,
               Capacity = capacity\<rparr>,
      StartIndex = 0, LastIndex = 0\<rparr>"

text \<open>An array read: \<open>None\<close> past the end (a panic) and for a nil pointer (a nil dereference).\<close>

definition event_at :: "event option list \<Rightarrow> nat \<Rightarrow> event option" where
  "event_at es i = (if i < length es then es ! i else None)"

definition addEvent :: "EventHistory \<Rightarrow> event \<Rightarrow> EventHistory option" where
  "addEvent eh e = do {
     q \<leftarrow> eq_insert (Queue eh) e;
     first \<leftarrow> event_at (Events q) (Front q);
     Some \<lparr>Queue = q, StartIndex = EvIndex first, LastIndex = EvIndex e\<rparr>
   }"

text \<open>Whether \<open>scan\<close> stops at an event: its key, or a key below it when recursive.\<close>

definition scan_match :: "string \<Rightarrow> bool \<Rightarrow> event \<Rightarrow> bool" where
  "scan_match key recursive e =
     (let ok = (Key (ENode e) = key) in
      if recursive then
        let k = path_Clean key; k' = (if last k \<noteq> slash then k @ ''/'' else k)
        in ok \<or> strings_HasPrefix (Key (ENode e)) k'
      else ok)"

text \<open>
  The \<open>for\<close> loop of \<open>scan\<close>, with the steps still allowed as fuel: it stops at the latest
  when \<open>i\<close> reaches \<open>Back\<close>, after \<open>Capacity\<close> steps (\<open>scan_loop_list\<close> below).
\<close>

fun scan_loop :: "nat \<Rightarrow> eventQueue \<Rightarrow> string \<Rightarrow> bool \<Rightarrow> nat \<Rightarrow> event option option" where
  "scan_loop 0 q key recursive i = None"
| "scan_loop (Suc fuel) q key recursive i =
     (case event_at (Events q) i of
        None \<Rightarrow> None
      | Some e \<Rightarrow>
          if scan_match key recursive e then Some (Some e)
          else
            let i' = (i + 1) mod Capacity q
            in if i' = Back q then Some None else scan_loop fuel q key recursive i')"

text \<open>
  \<open>int(offset)\<close> reads the unsigned difference as a signed word, the sum wraps, and Go's \<open>%\<close>
  keeps the sign of the dividend: a negative position panics.
\<close>

definition eh_scan ::
    "EventHistory \<Rightarrow> string \<Rightarrow> bool \<Rightarrow> u64 \<Rightarrow> (etcd_error + event option) option" where
  "eh_scan eh key recursive index =
     (if index < StartIndex eh then
        Some (Inl (NewError EcodeEventIndexCleared
          (''the requested history has been cleared ['' @ FormatUint (unat (StartIndex eh)) @
           ''/'' @ FormatUint (unat index) @ '']'') 0))
      else if LastIndex eh < index then Some (Inr None)
      else
        let q = Queue eh;
            pos = sint ((of_nat (Front q) :: u64) + (index - StartIndex eh))
        in if Capacity q = 0 then None
           else if pos < 0 \<and> \<bar>pos\<bar> mod int (Capacity q) \<noteq> 0 then None
           else map_option Inr
                  (scan_loop (Capacity q) q key recursive (nat (\<bar>pos\<bar> mod int (Capacity q)))))"

definition eh_clone :: "EventHistory \<Rightarrow> EventHistory" where
  "eh_clone eh =
     \<lparr>Queue = \<lparr>Events = map id (Events (Queue eh)), QSize = QSize (Queue eh),
               Front = Front (Queue eh), Back = Back (Queue eh), Capacity = Capacity (Queue eh)\<rparr>,
      StartIndex = StartIndex eh, LastIndex = LastIndex eh\<rparr>"

section \<open>The list view of the history\<close>

definition hist_list :: "EventHistory \<Rightarrow> event list" where
  "hist_list eh =
     (let q = Queue eh
      in map (\<lambda>k. the (Events q ! ((Front q + k) mod Capacity q))) [0..<QSize q])"

definition queue_inv :: "eventQueue \<Rightarrow> bool" where
  "queue_inv q \<longleftrightarrow>
     0 < Capacity q \<and> Capacity q < 2 ^ 62 \<and> length (Events q) = Capacity q \<and>
     QSize q \<le> Capacity q \<and> Front q < Capacity q \<and>
     Back q = (Front q + QSize q) mod Capacity q \<and>
     (\<forall>k < QSize q. Events q ! ((Front q + k) mod Capacity q) \<noteq> None)"

definition hist_inv :: "EventHistory \<Rightarrow> bool" where
  "hist_inv eh \<longleftrightarrow>
     queue_inv (Queue eh) \<and>
     (\<forall>k < length (hist_list eh). unat (EvIndex (hist_list eh ! k)) = unat (StartIndex eh) + k) \<and>
     (if hist_list eh = [] then StartIndex eh = 0 \<and> LastIndex eh = 0
      else unat (LastIndex eh) + 1 = unat (StartIndex eh) + length (hist_list eh))"

lemma length_hist_list [simp]: "length (hist_list eh) = QSize (Queue eh)"
  by (simp add: hist_list_def Let_def)

lemma ring_inj:
  fixes F j k c :: nat
  assumes "(F + j) mod c = (F + k) mod c" and "j < c" and "k < c"
  shows "j = k"
proof -
  have *: "a = b" if "(F + a) mod c = (F + b) mod c" "a \<le> b" "b < c" for a b
  proof -
    from that have "(F + b) mod c = (F + a) mod c" "F + a \<le> F + b" by simp_all
    then have "c dvd (F + b) - (F + a)" using mod_eq_dvd_iff_nat by blast
    then have "c dvd b - a" by simp
    with that show ?thesis by (auto dest: dvd_imp_le)
  qed
  show ?thesis using assms * [of j k] * [of k j] by (cases "j \<le> k") auto
qed

text \<open>Inserting drops the oldest event of a full queue and appends the new one.\<close>

lemma eq_insert_list:
  assumes inv: "queue_inv q"
  shows "\<exists>q'. eq_insert q e = Some q' \<and> queue_inv q' \<and> Capacity q' = Capacity q \<and>
     QSize q' = (if QSize q = Capacity q then QSize q else QSize q + 1) \<and>
     (\<forall>k < QSize q'. Events q' ! ((Front q' + k) mod Capacity q) =
        (if k = QSize q' - 1 then Some e
         else Events q ! ((Front q + (if QSize q = Capacity q then k + 1 else k)) mod Capacity q)))"
proof (cases "QSize q = Capacity q")
  case False
  let ?c = "Capacity q"
  let ?q' = "q\<lparr>Events := (Events q)[Back q := Some e], Back := (Back q + 1) mod ?c, QSize := QSize q + 1\<rparr>"
  have c: "0 < ?c" "length (Events q) = ?c" "QSize q < ?c" "Front q < ?c"
    "Back q = (Front q + QSize q) mod ?c" "Back q < ?c"
    and some: "\<And>k. k < QSize q \<Longrightarrow> Events q ! ((Front q + k) mod ?c) \<noteq> None"
    using inv False by (auto simp: queue_inv_def)
  have ins: "eq_insert q e = Some ?q'"
    using c(2,6) False by (simp add: eq_insert_def Let_def)
  have nth: "Events ?q' ! ((Front q + k) mod ?c) =
      (if k = QSize q then Some e else Events q ! ((Front q + k) mod ?c))" if "k \<le> QSize q" for k
    using c that ring_inj [of "Front q" k ?c "QSize q"] by (auto simp: nth_list_update)
  have "queue_inv ?q'"
    using inv c nth some by (auto simp: queue_inv_def mod_Suc_eq split: if_splits)
  with ins nth False show ?thesis by (intro exI [of _ ?q']) auto
next
  case True
  let ?c = "Capacity q"
  let ?q' = "q\<lparr>Events := (Events q)[Back q := Some e], Back := (Back q + 1) mod ?c,
    Front := (Front q + 1) mod ?c\<rparr>"
  have c: "0 < ?c" "length (Events q) = ?c" "Front q < ?c" "Back q = Front q"
    and some: "\<And>k. k < ?c \<Longrightarrow> Events q ! ((Front q + k) mod ?c) \<noteq> None"
    using inv True by (auto simp: queue_inv_def)
  have ins: "eq_insert q e = Some ?q'"
    using c True by (simp add: eq_insert_def Let_def)
  have nth: "Events ?q' ! ((Front ?q' + k) mod ?c) =
      (if k = ?c - 1 then Some e else Events q ! ((Front q + (k + 1)) mod ?c))" if "k < ?c" for k
  proof -
    have pos: "(Front ?q' + k) mod ?c = (Front q + (k + 1)) mod ?c"
      by (simp add: mod_simps)
    show ?thesis
    proof (cases "k = ?c - 1")
      case True
      then have "(Front q + (k + 1)) mod ?c = Front q" using c by simp
      then show ?thesis using pos c True by simp
    next
      case False
      then have "k + 1 < ?c" using that by linarith
      then have "(Front q + (k + 1)) mod ?c \<noteq> (Front q + 0) mod ?c"
        using ring_inj [of "Front q" "k + 1" ?c 0] c(1) by auto
      then show ?thesis using pos c False by simp
    qed
  qed
  have "Events ?q' ! ((Front ?q' + k) mod ?c) \<noteq> None" if "k < ?c" for k
    using nth [OF that] some [of "k + 1"] that by (cases "k = ?c - 1") auto
  then have "queue_inv ?q'"
    using inv c True by (auto simp: queue_inv_def)
  with ins nth True show ?thesis by (intro exI [of _ ?q']) auto
qed

lemma map_upt_snoc_list:
  assumes "length ys = n" and "\<And>k. k < n \<Longrightarrow> f k = ys ! k"
  shows "map f [0..<n] = ys"
  using assms by (auto intro: nth_equalityI)

lemma hist_list_queue:
  "hist_list \<lparr>Queue = q, StartIndex = a, LastIndex = b\<rparr> =
     map (\<lambda>k. the (Events q ! ((Front q + k) mod Capacity q))) [0..<QSize q]"
  by (simp add: hist_list_def)

text \<open>An event may follow the history when its index is the next one.\<close>

definition next_event :: "EventHistory \<Rightarrow> event \<Rightarrow> bool" where
  "next_event eh e \<longleftrightarrow> hist_list eh = [] \<or> unat (EvIndex e) = unat (LastIndex eh) + 1"

lemma hist_inv_snocI:
  assumes "queue_inv (Queue eh)" and list: "hist_list eh = xs @ [e]"
    and start: "StartIndex eh = EvIndex ((xs @ [e]) ! 0)" and last: "LastIndex eh = EvIndex e"
    and idx: "\<And>k. k < length (xs @ [e]) \<Longrightarrow>
      unat (EvIndex ((xs @ [e]) ! k)) = unat (EvIndex ((xs @ [e]) ! 0)) + k"
  shows "hist_inv eh"
proof -
  have "unat (EvIndex e) = unat (StartIndex eh) + length xs"
    using idx [of "length xs"] start by (simp add: nth_append)
  then have "unat (LastIndex eh) + 1 = unat (StartIndex eh) + length (hist_list eh)"
    by (simp add: list last)
  moreover have "\<forall>k < length (hist_list eh).
      unat (EvIndex (hist_list eh ! k)) = unat (StartIndex eh) + k"
    unfolding list start using idx by blast
  moreover have "hist_list eh \<noteq> []" by (simp add: list)
  ultimately show ?thesis using assms(1) unfolding hist_inv_def by presburger
qed

lemma addEvent_list:
  assumes inv: "hist_inv eh" and e: "next_event eh e"
  shows "\<exists>eh'. addEvent eh e = Some eh' \<and> hist_inv eh' \<and> LastIndex eh' = EvIndex e \<and>
     Capacity (Queue eh') = Capacity (Queue eh) \<and>
     hist_list eh' =
       (if length (hist_list eh) = Capacity (Queue eh) then tl (hist_list eh) else hist_list eh) @ [e]"
proof -
  let ?q = "Queue eh" and ?c = "Capacity (Queue eh)"
  from inv have qinv: "queue_inv ?q" by (simp add: hist_inv_def)
  from eq_insert_list [OF qinv, of e] obtain q' where
    q': "eq_insert ?q e = Some q'" "queue_inv q'" "Capacity q' = ?c"
      "QSize q' = (if QSize ?q = ?c then QSize ?q else QSize ?q + 1)"
    and nth: "\<And>k. k < QSize q' \<Longrightarrow> Events q' ! ((Front q' + k) mod ?c) =
        (if k = QSize q' - 1 then Some e
         else Events ?q ! ((Front ?q + (if QSize ?q = ?c then k + 1 else k)) mod ?c))"
    by blast
  have c0: "0 < ?c" and size': "0 < QSize q'" using q'(4) qinv by (auto simp: queue_inv_def)
  let ?l = "(if QSize ?q = ?c then tl (hist_list eh) else hist_list eh) @ [e]"
  have len: "length ?l = QSize q'" using q'(4) c0 by simp
  have entry: "Events q' ! ((Front q' + k) mod ?c) = Some (?l ! k)" if k: "k < QSize q'" for k
  proof (cases "k = QSize q' - 1")
    case True
    then show ?thesis using nth [OF k] len size' by (simp add: nth_append)
  next
    case False
    let ?m = "if QSize ?q = ?c then k + 1 else k"
    have m: "?m < QSize ?q" using False k q'(4) by (auto split: if_splits)
    then have "Events ?q ! ((Front ?q + ?m) mod ?c) = Some (hist_list eh ! ?m)"
      using qinv by (auto simp: queue_inv_def hist_list_def Let_def)
    moreover have "?l ! k = hist_list eh ! ?m"
      using False k len m q'(4) by (auto simp: nth_append nth_tl split: if_splits)
    ultimately show ?thesis using nth [OF k] False by simp
  qed
  let ?e0 = "?l ! 0"
  let ?eh' = "\<lparr>Queue = q', StartIndex = EvIndex ?e0, LastIndex = EvIndex e\<rparr>"
  have "event_at (Events q') (Front q') = Some ?e0"
    using entry [OF size'] q'(2,3) by (simp add: event_at_def queue_inv_def)
  then have add: "addEvent eh e = Some ?eh'" using q'(1) by (simp add: addEvent_def)
  have list: "hist_list ?eh' = ?l"
    unfolding hist_list_queue by (rule map_upt_snoc_list [OF len]) (simp add: entry q'(3))
  have inv': "\<And>k. k < QSize ?q \<Longrightarrow> unat (EvIndex (hist_list eh ! k)) = unat (StartIndex eh) + k"
    and last: "hist_list eh \<noteq> [] \<Longrightarrow> unat (LastIndex eh) + 1 = unat (StartIndex eh) + QSize ?q"
    using inv by (auto simp: hist_inv_def split: if_splits)
  have e_idx: "unat (EvIndex e) = unat (StartIndex eh) + QSize ?q" if "hist_list eh \<noteq> []"
    using e that last by (simp add: next_event_def)
  let ?d = "if QSize ?q = ?c then 1 else 0"
  have idx: "unat (EvIndex (?l ! k)) = unat (EvIndex ?e0) + k" if "k < length ?l" for k
  proof (cases "hist_list eh = []")
    case True
    then show ?thesis using that c0 q'(4) by (auto simp: nth_append split: if_splits)
  next
    case False
    then have pos: "0 < QSize ?q" by (metis length_greater_0_conv length_hist_list)
    have *: "unat (EvIndex (?l ! j)) = unat (StartIndex eh) + ?d + j" if "j < length ?l" for j
      using that inv' e_idx [OF False] pos by (auto simp: nth_append nth_tl)
    show ?thesis using * [OF that] * [of 0] len size' by simp
  qed
  have "hist_inv ?eh'"
    by (rule hist_inv_snocI [OF _ list _ _ idx]) (simp_all add: q'(2))
  with add list q'(3) show ?thesis by (intro exI [of _ ?eh']) simp
qed

text \<open>
  \<open>scan\<close> visits the retained events from \<open>index\<close> on, in the order of their indices, and
  returns the first that matches; the loop's fuel suffices.
\<close>

lemma scan_loop_list:
  assumes inv: "queue_inv q"
  shows "k < QSize q \<Longrightarrow> QSize q - k \<le> fuel \<Longrightarrow>
     scan_loop fuel q key rec ((Front q + k) mod Capacity q) =
     Some (find (scan_match key rec)
       (drop k (map (\<lambda>k. the (Events q ! ((Front q + k) mod Capacity q))) [0..<QSize q])))"
proof (induction fuel arbitrary: k)
  case 0
  then show ?case by simp
next
  case (Suc fuel)
  let ?c = "Capacity q" and ?i = "(Front q + k) mod Capacity q"
  let ?l = "map (\<lambda>k. the (Events q ! ((Front q + k) mod Capacity q))) [0..<QSize q]"
  obtain e where e: "Events q ! ?i = Some e"
    using inv Suc.prems(1) by (auto simp: queue_inv_def)
  then have at: "event_at (Events q) ?i = Some e"
    using inv by (simp add: event_at_def queue_inv_def)
  have drop: "drop k ?l = e # drop (Suc k) ?l"
    using Suc.prems(1) e by (simp add: Cons_nth_drop_Suc [symmetric])
  have next_i: "(?i + 1) mod ?c = (Front q + Suc k) mod ?c" by (simp add: mod_simps)
  show ?case
  proof (cases "Suc k = QSize q")
    case True
    then have "(?i + 1) mod ?c = Back q" using inv next_i by (simp add: queue_inv_def)
    then show ?thesis using at drop True by (simp add: Let_def)
  next
    case False
    then have k: "Suc k < QSize q" using Suc.prems(1) by simp
    have "(Front q + Suc k) mod ?c \<noteq> Back q"
    proof
      assume "(Front q + Suc k) mod ?c = Back q"
      then have eq: "(Front q + Suc k) mod ?c = (Front q + QSize q) mod ?c"
        using inv by (simp add: queue_inv_def)
      show False
      proof (cases "QSize q < ?c")
        case True
        then show False using ring_inj [OF eq] k by simp
      next
        case False
        then have "QSize q = ?c" using inv by (simp add: queue_inv_def)
        then show False using ring_inj [of "Front q" "Suc k" ?c 0] eq k by simp
      qed
    qed
    moreover have "scan_loop fuel q key rec ((Front q + Suc k) mod ?c) =
        Some (find (scan_match key rec) (drop (Suc k) ?l))"
      using Suc.IH [OF k] Suc.prems(2) by simp
    ultimately show ?thesis using at drop next_i by (simp add: Let_def)
  qed
qed

lemma unat_diff_word: "a \<le> b \<Longrightarrow> unat (b - a) = unat b - unat (a :: 'a :: len word)"
  by (simp add: unat_sub)

lemma sint_small:
  fixes w :: u64
  assumes "unat w = n" and "n < 2 ^ 63"
  shows "sint w = int n"
proof -
  have "uint w = int n" using assms(1) by (metis uint_nat)
  then show ?thesis using assms(2) by (simp add: sint_uint signed_take_bit_int_eq_self)
qed

lemma eh_scan_list:
  assumes inv: "hist_inv eh" and lo: "StartIndex eh \<le> index" and hi: "index \<le> LastIndex eh"
    and ne: "hist_list eh \<noteq> []"
  shows "eh_scan eh key rec index =
    Some (Inr (find (scan_match key rec)
      (drop (unat index - unat (StartIndex eh)) (hist_list eh))))"
proof -
  let ?q = "Queue eh" and ?k = "unat index - unat (StartIndex eh)"
  have q: "queue_inv ?q" using inv by (simp add: hist_inv_def)
  have "unat (LastIndex eh) + 1 = unat (StartIndex eh) + QSize ?q"
    using inv ne by (simp add: hist_inv_def)
  then have k: "?k < QSize ?q" using hi lo by (simp add: word_le_nat_alt)
  let ?w = "(of_nat (Front ?q) :: u64) + (index - StartIndex eh)"
  have small: "Front ?q + ?k < 2 ^ 64" "Front ?q < 2 ^ 64"
    using q k by (auto simp: queue_inv_def)
  then have w: "unat ?w = Front ?q + ?k"
    by (simp add: unat_word_ariths unat_diff_word [OF lo] take_bit_eq_mod unat_of_nat)
  have pos: "sint ?w = int (Front ?q + ?k)"
    using q k by (intro sint_small) (auto simp: queue_inv_def w)
  have "scan_loop (Capacity ?q) ?q key rec ((Front ?q + ?k) mod Capacity ?q) =
      Some (find (scan_match key rec) (drop ?k (hist_list eh)))"
    unfolding hist_list_def Let_def
    by (rule scan_loop_list [OF q k]) (use q k in \<open>auto simp: queue_inv_def\<close>)
  moreover have "nat (int (Front ?q + ?k) mod int (Capacity ?q)) = (Front ?q + ?k) mod Capacity ?q"
    by (metis nat_int zmod_int)
  ultimately show ?thesis
    using q lo hi pos by (auto simp: eh_scan_def Let_def queue_inv_def not_less)
qed

lemma hist_inv_new: "0 < c \<Longrightarrow> c < 2 ^ 62 \<Longrightarrow> hist_inv (newEventHistory c)"
  by (simp add: hist_inv_def newEventHistory_def queue_inv_def hist_list_def)

lemma hist_list_new [simp]: "hist_list (newEventHistory c) = []"
  by (simp add: newEventHistory_def hist_list_def)

section \<open>The interface of an event log\<close>

text \<open>
  What the watcher hub relies on: a bounded log whose view is the list of the retained
  events, oldest first. The lemmas about sequences of additions are proved from these laws.
\<close>

locale event_log =
  fixes invar :: "'l \<Rightarrow> bool"
    and view :: "'l \<Rightarrow> 'e list"
    and cap :: "'l \<Rightarrow> nat"
    and allowed :: "'l \<Rightarrow> 'e \<Rightarrow> bool"
    and add :: "'l \<Rightarrow> 'e \<Rightarrow> 'l option"
  assumes bound: "invar l \<Longrightarrow> length (view l) \<le> cap l \<and> 0 < cap l"
    and add_view: "invar l \<Longrightarrow> allowed l e \<Longrightarrow>
      \<exists>l'. add l e = Some l' \<and> invar l' \<and> cap l' = cap l \<and>
        view l' = (if length (view l) = cap l then tl (view l) else view l) @ [e]"
begin

fun add_all :: "'l \<Rightarrow> 'e list \<Rightarrow> 'l option" where
  "add_all l [] = Some l"
| "add_all l (e # es) = (case add l e of None \<Rightarrow> None | Some l' \<Rightarrow> add_all l' es)"

fun allowed_all :: "'l \<Rightarrow> 'e list \<Rightarrow> bool" where
  "allowed_all l [] = True"
| "allowed_all l (e # es) =
     (allowed l e \<and> (case add l e of None \<Rightarrow> False | Some l' \<Rightarrow> allowed_all l' es))"

lemma add_view_drop:
  assumes "invar l" and "allowed l e" and "add l e = Some l'"
  shows "invar l'" "cap l' = cap l"
    "view l' = drop (length (view l) + 1 - cap l) (view l @ [e])"
proof -
  from add_view [OF assms(1,2)] assms(3) have l':
    "invar l'" "cap l' = cap l"
    "view l' = (if length (view l) = cap l then tl (view l) else view l) @ [e]" by auto
  then show "invar l'" "cap l' = cap l" by auto
  show "view l' = drop (length (view l) + 1 - cap l) (view l @ [e])"
    using l'(3) bound [OF assms(1)] by (auto simp: drop_Suc)
qed

text \<open>After any sequence of additions the log holds the last \<open>cap\<close> of all events.\<close>

lemma add_all_view:
  "invar l \<Longrightarrow> allowed_all l es \<Longrightarrow>
   \<exists>l'. add_all l es = Some l' \<and> invar l' \<and> cap l' = cap l \<and>
     view l' = drop (length (view l @ es) - cap l) (view l @ es)"
proof (induction es arbitrary: l)
  case Nil
  then show ?case using bound [of l] by simp
next
  case (Cons e es)
  from add_view [of l e] Cons.prems obtain l1 where add: "add l e = Some l1" by auto
  with Cons.prems have all: "allowed_all l1 es" by simp
  note l1 = add_view_drop [OF Cons.prems(1) _ add]
  from Cons.prems(2) have e: "allowed l e" by simp
  from Cons.IH [OF l1(1) [OF e] all] obtain l' where l': "add_all l1 es = Some l'" "invar l'"
    "cap l' = cap l" "view l' = drop (length (view l1 @ es) - cap l) (view l1 @ es)"
    using l1(2) [OF e] by auto
  have "view l1 @ es = drop (length (view l) + 1 - cap l) (view l @ e # es)"
    using l1(3) [OF e] bound [OF Cons.prems(1)] by simp
  then have "view l' = drop (length (view l @ e # es) - cap l) (view l @ e # es)"
    using l'(4) bound [OF Cons.prems(1)]
    by (cases "length (view l) = cap l") (simp_all add: add.commute)
  then show ?case using add l' by simp
qed

lemma retained:
  assumes "invar l" and "allowed_all l es" and "add_all l es = Some l'"
    and "e \<in> set (drop (length es - cap l) es)"
  shows "e \<in> set (view l')"
proof -
  from add_all_view [OF assms(1,2)] assms(3)
  have v: "view l' = drop (length (view l @ es) - cap l) (view l @ es)" by auto
  have "set (drop (length es - cap l) es) \<subseteq> set (drop (length (view l @ es) - cap l) (view l @ es))"
    using bound [OF assms(1)] by (cases "length es \<le> cap l") auto
  then show ?thesis using assms(4) v by auto
qed

end

interpretation eh: event_log hist_inv hist_list "\<lambda>eh. Capacity (Queue eh)" next_event addEvent
proof unfold_locales
  show "length (hist_list l) \<le> Capacity (Queue l) \<and> 0 < Capacity (Queue l)" if "hist_inv l" for l
    using that by (simp add: hist_inv_def queue_inv_def)
qed (use addEvent_list in blast)

end
