(* ===== verification/EtcdWatch.thy ===== *)
theory EtcdWatch
  imports EtcdEvent
begin

text \<open>
  \<open>coreos/etcd/store/watcher.go\<close> and \<open>watcher_hub.go\<close>: watchers, their buffered channels
  and the hub that delivers events to them.

  Watchers and the hub's lists are heap objects: \<open>wmem\<close> and \<open>wlists\<close> are their cells, and the
  closure a watcher's \<open>remove\<close> field holds is the key and the list it captured. A channel
  is the list of the events in its buffer (capacity 1) and whether it is closed; a send on
  a closed channel, closing a closed channel and calling a nil \<open>remove\<close> panic (\<open>None\<close>).
  The hub's mutex makes each operation one step.
\<close>

type_synonym wid = nat
type_synonym lid = nat

record Watcher =
  EventChan :: "event list"
  chan_closed :: bool
  stream :: bool
  recursive :: bool
  sinceIndex :: u64
  removed :: bool
  remove_fn :: "(string \<times> lid) option"

definition zero_Watcher :: Watcher where
  "zero_Watcher = \<lparr>EventChan = [], chan_closed = False, stream = False, recursive = False,
     sinceIndex = 0, removed = False, remove_fn = None\<rparr>"

record watcherHub =
  watchers :: "string \<Rightarrow> lid option"
  wlists :: "lid \<Rightarrow> wid list"
  wmem :: "wid \<Rightarrow> Watcher"
  next_lid :: lid
  next_wid :: wid
  hub_count :: int
  EHistory :: EventHistory

definition newWatchHub :: "nat \<Rightarrow> watcherHub" where
  "newWatchHub capacity =
     \<lparr>watchers = Map.empty, wlists = (\<lambda>_. []), wmem = (\<lambda>_. zero_Watcher), next_lid = 0,
      next_wid = 0, hub_count = 0, EHistory = newEventHistory capacity\<rparr>"

definition upd_watcher :: "wid \<Rightarrow> (Watcher \<Rightarrow> Watcher) \<Rightarrow> watcherHub \<Rightarrow> watcherHub" where
  "upd_watcher w f hub = hub\<lparr>wmem := (wmem hub)(w := f (wmem hub w))\<rparr>"

text \<open>The closure \<open>w.remove\<close> made by \<open>watch\<close>; a nil function value panics when called.\<close>

definition call_remove :: "watcherHub \<Rightarrow> wid \<Rightarrow> watcherHub option" where
  "call_remove hub w =
     (case remove_fn (wmem hub w) of
        None \<Rightarrow> None
      | Some (key, l) \<Rightarrow>
          if removed (wmem hub w) then Some hub
          else
            let hub1 = upd_watcher w (\<lambda>x. x\<lparr>removed := True\<rparr>) hub;
                hub2 = hub1\<lparr>wlists := (wlists hub1)(l := remove1 w (wlists hub1 l)),
                            hub_count := hub_count hub1 - 1\<rparr>
            in Some (if wlists hub2 l = [] then hub2\<lparr>watchers := (watchers hub2)(key := None)\<rparr>
                     else hub2))"

text \<open>\<open>Watcher.notify\<close>: the select sends when the one-element buffer has room.\<close>

definition Watcher_notify ::
    "watcherHub \<Rightarrow> wid \<Rightarrow> event \<Rightarrow> bool \<Rightarrow> bool \<Rightarrow> (bool \<times> watcherHub) option" where
  "Watcher_notify hub w e originalPath deleted =
     (let x = wmem hub w in
      if (recursive x \<or> originalPath \<or> deleted) \<and> sinceIndex x \<le> EvIndex e then
        if chan_closed x then None
        else if length (EventChan x) < 1 then
          Some (True, upd_watcher w (\<lambda>x. x\<lparr>EventChan := EventChan x @ [e]\<rparr>) hub)
        else map_option (Pair True) (call_remove hub w)
      else Some (False, hub))"

definition Watcher_Remove :: "watcherHub \<Rightarrow> wid \<Rightarrow> watcherHub option" where
  "Watcher_Remove hub w =
     (if chan_closed (wmem hub w) then None
      else call_remove (upd_watcher w (\<lambda>x. x\<lparr>chan_closed := True\<rparr>) hub) w)"

text \<open>The client's receive: the oldest buffered event, if any.\<close>

definition chan_recv :: "watcherHub \<Rightarrow> wid \<Rightarrow> event option \<times> watcherHub" where
  "chan_recv hub w =
     (case EventChan (wmem hub w) of
        [] \<Rightarrow> (None, hub)
      | e # es \<Rightarrow> (Some e, upd_watcher w (\<lambda>x. x\<lparr>EventChan := es\<rparr>) hub))"

definition hub_watch ::
    "watcherHub \<Rightarrow> string \<Rightarrow> bool \<Rightarrow> bool \<Rightarrow> u64 \<Rightarrow> ((etcd_error + wid) \<times> watcherHub) option" where
  "hub_watch hub key rec strm index =
     (case eh_scan (EHistory hub) key rec index of
        None \<Rightarrow> None
      | Some (Inl err) \<Rightarrow> Some (Inl err, hub)
      | Some (Inr ev) \<Rightarrow>
          let w = next_wid hub;
              x = zero_Watcher\<lparr>recursive := rec, stream := strm, sinceIndex := index\<rparr>
          in case ev of
               Some e \<Rightarrow>
                 Some (Inr w, hub\<lparr>wmem := (wmem hub)(w := x\<lparr>EventChan := [e]\<rparr>), next_wid := w + 1\<rparr>)
             | None \<Rightarrow>
                 (case watchers hub key of
                    Some l \<Rightarrow>
                      Some (Inr w, hub\<lparr>wmem := (wmem hub)(w := x\<lparr>remove_fn := Some (key, l)\<rparr>),
                        next_wid := w + 1, wlists := (wlists hub)(l := wlists hub l @ [w]),
                        hub_count := hub_count hub + 1\<rparr>)
                  | None \<Rightarrow>
                      let l = next_lid hub
                      in Some (Inr w, hub\<lparr>wmem := (wmem hub)(w := x\<lparr>remove_fn := Some (key, l)\<rparr>),
                        next_wid := w + 1, wlists := (wlists hub)(l := [w]), next_lid := l + 1,
                        watchers := (watchers hub)(key \<mapsto> l), hub_count := hub_count hub + 1\<rparr>)))"

definition isHidden :: "string \<Rightarrow> string \<Rightarrow> bool" where
  "isHidden watchPath keyPath =
     (if length keyPath < length watchPath then False
      else strings_Contains (path_Clean (''/'' @ drop (length watchPath) keyPath)) ''/_'')"

text \<open>
  The loop of \<open>notifyWatchers\<close>. The code saves \<open>curr.Next()\<close> before it may remove \<open>curr\<close>,
  and nothing else leaves the list during the loop, so it runs over the list it began with.
\<close>

fun notify_loop ::
    "watcherHub \<Rightarrow> event \<Rightarrow> string \<Rightarrow> bool \<Rightarrow> lid \<Rightarrow> wid list \<Rightarrow> watcherHub option" where
  "notify_loop hub e nodePath deleted l [] = Some hub"
| "notify_loop hub e nodePath deleted l (w # ws) =
     (let originalPath = (Key (ENode e) = nodePath) in
      if originalPath \<or> \<not> isHidden nodePath (Key (ENode e)) then
        (case Watcher_notify hub w e originalPath deleted of
           None \<Rightarrow> None
         | Some (ok, hub1) \<Rightarrow>
             let hub2 =
               (if ok \<and> \<not> stream (wmem hub1 w) then
                  hub1\<lparr>wlists := (wlists hub1)(l := remove1 w (wlists hub1 l)),
                       hub_count := hub_count hub1 - 1\<rparr>
                else hub1)
             in notify_loop hub2 e nodePath deleted l ws)
      else notify_loop hub e nodePath deleted l ws)"

definition notifyWatchers :: "watcherHub \<Rightarrow> event \<Rightarrow> string \<Rightarrow> bool \<Rightarrow> watcherHub option" where
  "notifyWatchers hub e nodePath deleted =
     (case watchers hub nodePath of
        None \<Rightarrow> Some hub
      | Some l \<Rightarrow>
          (case notify_loop hub e nodePath deleted l (wlists hub l) of
             None \<Rightarrow> None
           | Some hub1 \<Rightarrow>
               Some (if wlists hub1 l = [] then hub1\<lparr>watchers := (watchers hub1)(nodePath := None)\<rparr>
                     else hub1)))"

text \<open>The loop of \<open>notify\<close> over the segments of the key, joining them one by one.\<close>

fun notify_segments :: "watcherHub \<Rightarrow> event \<Rightarrow> string \<Rightarrow> string list \<Rightarrow> watcherHub option" where
  "notify_segments hub e currPath [] = Some hub"
| "notify_segments hub e currPath (seg # segs) =
     (let p = path_Join [currPath, seg] in
      case notifyWatchers hub e p False of
        None \<Rightarrow> None
      | Some hub1 \<Rightarrow> notify_segments hub1 e p segs)"

definition hub_notify :: "watcherHub \<Rightarrow> event \<Rightarrow> watcherHub option" where
  "hub_notify hub e =
     (case addEvent (EHistory hub) e of
        None \<Rightarrow> None
      | Some eh \<Rightarrow>
          notify_segments (hub\<lparr>EHistory := eh\<rparr>) e ''/'' (strings_Split (Key (ENode e))))"

text \<open>\<open>clone\<close> keeps the history only: the copy has a nil map, no watchers and count 0.\<close>

definition hub_clone :: "watcherHub \<Rightarrow> watcherHub" where
  "hub_clone hub = (newWatchHub 0)\<lparr>EHistory := eh_clone (EHistory hub)\<rparr>"

section \<open>The hub's invariant\<close>

text \<open>
  A registered watcher is in the one list its closure names, has not been removed, its
  channel is open, and it has nothing buffered unless it is a stream watcher; \<open>hub_count\<close> is
  the number of registered watchers.
\<close>

definition registered_at :: "watcherHub \<Rightarrow> string \<Rightarrow> wid \<Rightarrow> bool" where
  "registered_at hub k w \<longleftrightarrow>
     (case watchers hub k of None \<Rightarrow> False | Some l \<Rightarrow> w \<in> set (wlists hub l))"

definition reg_set :: "watcherHub \<Rightarrow> wid set" where
  "reg_set hub = {w. \<exists>k. registered_at hub k w}"

definition live :: "Watcher \<Rightarrow> bool" where
  "live x \<longleftrightarrow> \<not> removed x \<and> \<not> chan_closed x \<and> length (EventChan x) \<le> 1 \<and>
     (\<not> stream x \<longrightarrow> EventChan x = [])"

definition hub_core :: "watcherHub \<Rightarrow> bool" where
  "hub_core hub \<longleftrightarrow>
     (\<forall>k l. watchers hub k = Some l \<longrightarrow>
        l < next_lid hub \<and> distinct (wlists hub l) \<and>
        (\<forall>w \<in> set (wlists hub l). w < next_wid hub \<and> live (wmem hub w) \<and>
           remove_fn (wmem hub w) = Some (k, l))) \<and>
     hub_count hub = int (card (reg_set hub))"

definition nonempty_except :: "string set \<Rightarrow> watcherHub \<Rightarrow> bool" where
  "nonempty_except K hub \<longleftrightarrow> (\<forall>k l. watchers hub k = Some l \<and> k \<notin> K \<longrightarrow> wlists hub l \<noteq> [])"

definition hub_inv :: "watcherHub \<Rightarrow> bool" where
  "hub_inv hub \<longleftrightarrow> hub_core hub \<and> nonempty_except {} hub \<and> hist_inv (EHistory hub)"

lemma hub_coreD:
  assumes "hub_core hub" and "watchers hub k = Some l"
  shows "l < next_lid hub" "distinct (wlists hub l)"
    "w \<in> set (wlists hub l) \<Longrightarrow> w < next_wid hub"
    "w \<in> set (wlists hub l) \<Longrightarrow> live (wmem hub w)"
    "w \<in> set (wlists hub l) \<Longrightarrow> remove_fn (wmem hub w) = Some (k, l)"
  using assms by (auto simp: hub_core_def)

lemma registered_unique:
  assumes core: "hub_core hub" and "registered_at hub k w" and "registered_at hub k' w"
  shows "k = k'"
proof -
  from assms(2,3) obtain l l' where "watchers hub k = Some l" "w \<in> set (wlists hub l)"
    "watchers hub k' = Some l'" "w \<in> set (wlists hub l')"
    by (auto simp: registered_at_def split: option.splits)
  then have "remove_fn (wmem hub w) = Some (k, l)" "remove_fn (wmem hub w) = Some (k', l')"
    using hub_coreD(5) [OF core] by blast+
  then show ?thesis by simp
qed

lemma finite_reg_set: "hub_core hub \<Longrightarrow> finite (reg_set hub)"
  by (rule finite_subset [of _ "{..< next_wid hub}"])
    (auto simp: reg_set_def registered_at_def hub_core_def split: option.splits)

lemma lid_unique:
  assumes "hub_core hub" "watchers hub k = Some l" "watchers hub k' = Some l" "wlists hub l \<noteq> []"
  shows "k = k'"
  using registered_unique [OF assms(1), of k "hd (wlists hub l)" k'] assms
  by (simp add: registered_at_def)

text \<open>What a delivery does to the watcher, and whether the watcher leaves its list.\<close>

definition interested :: "Watcher \<Rightarrow> event \<Rightarrow> string \<Rightarrow> bool \<Rightarrow> bool" where
  "interested x e p deleted \<longleftrightarrow>
     (Key (ENode e) = p \<or> \<not> isHidden p (Key (ENode e))) \<and>
     (recursive x \<or> Key (ENode e) = p \<or> deleted) \<and> sinceIndex x \<le> EvIndex e"

definition deliver :: "Watcher \<Rightarrow> event \<Rightarrow> Watcher" where
  "deliver x e = (if EventChan x = [] then x\<lparr>EventChan := [e]\<rparr> else x\<lparr>removed := True\<rparr>)"

definition leaves :: "Watcher \<Rightarrow> bool" where
  "leaves x \<longleftrightarrow> \<not> stream x \<or> EventChan x \<noteq> []"

definition unlink :: "watcherHub \<Rightarrow> lid \<Rightarrow> wid \<Rightarrow> watcherHub" where
  "unlink hub l w = hub\<lparr>wlists := (wlists hub)(l := remove1 w (wlists hub l)), hub_count := hub_count hub - 1\<rparr>"

definition set_wmem :: "watcherHub \<Rightarrow> wid \<Rightarrow> Watcher \<Rightarrow> watcherHub" where
  "set_wmem hub w x = hub\<lparr>wmem := (wmem hub)(w := x)\<rparr>"

definition drop_key :: "watcherHub \<Rightarrow> string \<Rightarrow> lid \<Rightarrow> watcherHub" where
  "drop_key hub k l = (if wlists hub l = [] then hub\<lparr>watchers := (watchers hub)(k := None)\<rparr> else hub)"

text \<open>One step of the loop, for a live watcher of the list.\<close>

definition notify_step :: "watcherHub \<Rightarrow> event \<Rightarrow> string \<Rightarrow> bool \<Rightarrow> lid \<Rightarrow> wid \<Rightarrow> watcherHub" where
  "notify_step hub e p deleted l w =
     (let x = wmem hub w; hub1 = set_wmem hub w (deliver x e) in
      if interested x e p deleted then
        if leaves x then
          let hub2 = unlink hub1 l w
          in if EventChan x = [] then hub2 else drop_key hub2 p l
        else hub1
      else hub)"

lemma Watcher_notify_live:
  assumes "live (wmem hub w)" and "remove_fn (wmem hub w) = Some (p, l)"
  shows "Watcher_notify hub w e orig deleted =
    (if (recursive (wmem hub w) \<or> orig \<or> deleted) \<and> sinceIndex (wmem hub w) \<le> EvIndex e then
       Some (True,
         (let hub1 = set_wmem hub w (deliver (wmem hub w) e)
          in if EventChan (wmem hub w) = [] then hub1 else drop_key (unlink hub1 l w) p l))
     else Some (False, hub))"
  using assms
  by (cases "EventChan (wmem hub w)")
    (simp_all add: Watcher_notify_def call_remove_def upd_watcher_def deliver_def unlink_def
      set_wmem_def drop_key_def live_def Let_def)

lemma drop_key_wmem [simp]: "wmem (drop_key hub k l) = wmem hub"
  by (simp add: drop_key_def)

lemma unlink_wmem [simp]: "wmem (unlink hub l w) = wmem hub"
  by (simp add: unlink_def)

lemma set_wmem_same [simp]: "wmem (set_wmem hub w x) = (wmem hub)(w := x)"
  by (simp add: set_wmem_def)

lemma notify_loop_step:
  assumes "live (wmem hub w)" and "remove_fn (wmem hub w) = Some (p, l)"
  shows "notify_loop hub e p deleted l (w # ws) =
    notify_loop (notify_step hub e p deleted l w) e p deleted l ws"
proof (cases "interested (wmem hub w) e p deleted")
  case False
  then show ?thesis
    by (auto simp: notify_step_def interested_def Let_def Watcher_notify_live [OF assms])
next
  case True
  have "stream (wmem hub w)" if "EventChan (wmem hub w) \<noteq> []" using assms(1) that by (auto simp: live_def)
  moreover have "stream (deliver (wmem hub w) e) = stream (wmem hub w)" by (simp add: deliver_def)
  ultimately show ?thesis using True
    by (auto simp: notify_step_def interested_def leaves_def Let_def unlink_def [of "set_wmem _ _ _"]
        Watcher_notify_live [OF assms] Watcher_notify_live [OF assms, unfolded Let_def])
qed

text \<open>What a step changes, seen through \<open>registered_at\<close>.\<close>

definition same_hub :: "watcherHub \<Rightarrow> watcherHub \<Rightarrow> bool" where
  "same_hub hub hub' \<longleftrightarrow> EHistory hub' = EHistory hub \<and> next_lid hub' = next_lid hub \<and>
     next_wid hub' = next_wid hub"

lemma step_wmem:
  "wmem (notify_step hub e p deleted l w) =
     (if interested (wmem hub w) e p deleted then (wmem hub)(w := deliver (wmem hub w) e) else wmem hub)"
  by (simp add: notify_step_def Let_def)

lemma step_same_hub: "same_hub hub (notify_step hub e p deleted l w)"
  by (simp add: notify_step_def Let_def same_hub_def set_wmem_def unlink_def drop_key_def)

lemma step_wlists:
  "wlists (notify_step hub e p deleted l w) =
     (if interested (wmem hub w) e p deleted \<and> leaves (wmem hub w)
      then (wlists hub)(l := remove1 w (wlists hub l)) else wlists hub)"
  by (simp add: notify_step_def Let_def set_wmem_def unlink_def drop_key_def)

lemma step_count:
  "hub_count (notify_step hub e p deleted l w) =
     (if interested (wmem hub w) e p deleted \<and> leaves (wmem hub w)
      then hub_count hub - 1 else hub_count hub)"
  by (simp add: notify_step_def Let_def set_wmem_def unlink_def drop_key_def)

lemma step_watchers:
  "watchers (notify_step hub e p deleted l w) k = watchers hub k \<or>
   (k = p \<and> watchers (notify_step hub e p deleted l w) k = None \<and>
    wlists (notify_step hub e p deleted l w) l = [])"
  by (simp add: notify_step_def Let_def set_wmem_def unlink_def drop_key_def)

lemma step_registered:
  fixes e :: event and deleted :: bool
  assumes core: "hub_core hub" and l: "watchers hub p = Some l" and w: "w \<in> set (wlists hub l)"
  defines "hub' \<equiv> notify_step hub e p deleted l w"
  shows "registered_at hub' k v \<longleftrightarrow> registered_at hub k v \<and>
    \<not> (v = w \<and> interested (wmem hub w) e p deleted \<and> leaves (wmem hub w))"
proof -
  have dist: "distinct (wlists hub l)" using hub_coreD(2) [OF core l] .
  have other: "k = p" if "watchers hub k = Some l" for k
    using lid_unique [OF core that l] w by (cases "wlists hub l") auto
  consider "watchers hub' k = watchers hub k"
    | "k = p" "watchers hub' k = None" "wlists hub' l = []"
    using step_watchers [of hub e p deleted l w k] by (auto simp: hub'_def)
  then show ?thesis
  proof cases
    case 1
    show ?thesis
    proof (cases "watchers hub k")
      case None
      then show ?thesis using 1 by (simp add: registered_at_def)
    next
      case (Some l')
      have "l' = l" if "w \<in> set (wlists hub l')"
        using hub_coreD(5) [OF core Some that] hub_coreD(5) [OF core l w] by simp
      then show ?thesis using 1 Some dist
        by (auto simp: registered_at_def step_wlists hub'_def)
    qed
  next
    case 2
    have gone: "interested (wmem hub w) e p deleted \<and> leaves (wmem hub w)"
      using 2(3) w by (auto simp: hub'_def step_wlists split: if_splits)
    then have "remove1 w (wlists hub l) = []" using 2(3) by (simp add: hub'_def step_wlists)
    then have "set (wlists hub l) - {w} = {}" using dist by (metis set_remove1_eq set_empty)
    then show ?thesis using 2(1,2) gone l by (auto simp: registered_at_def)
  qed
qed

lemma step_core:
  assumes core: "hub_core hub" and l: "watchers hub p = Some l" and w: "w \<in> set (wlists hub l)"
  shows "hub_core (notify_step hub e p deleted l w)"
proof -
  let ?hub = "notify_step hub e p deleted l w"
  let ?gone = "interested (wmem hub w) e p deleted \<and> leaves (wmem hub w)"
  have reg: "registered_at ?hub k v \<longleftrightarrow> registered_at hub k v \<and> \<not> (v = w \<and> ?gone)" for k v
    using step_registered [OF assms] by blast
  have "registered_at hub p w" using l w by (simp add: registered_at_def)
  then have "w \<in> reg_set hub" by (auto simp: reg_set_def)
  moreover have "reg_set ?hub = (if ?gone then reg_set hub - {w} else reg_set hub)"
    using reg by (auto simp: reg_set_def)
  ultimately have card: "hub_count ?hub = int (card (reg_set ?hub))"
    using core finite_reg_set [OF core] card_gt_0_iff [of "reg_set hub"]
    by (auto simp: step_count hub_core_def card_Diff_singleton_if of_nat_diff Suc_leI)
  have "l' < next_lid ?hub \<and> distinct (wlists ?hub l') \<and>
      (\<forall>v \<in> set (wlists ?hub l'). v < next_wid ?hub \<and> live (wmem ?hub v) \<and>
         remove_fn (wmem ?hub v) = Some (k, l'))" if k: "watchers ?hub k = Some l'" for k l'
  proof -
    have hk: "watchers hub k = Some l'" using k step_watchers [of hub e p deleted l w k] by auto
    have v: "v < next_wid ?hub \<and> live (wmem ?hub v) \<and> remove_fn (wmem ?hub v) = Some (k, l')"
      if v: "v \<in> set (wlists ?hub l')" for v
    proof -
      have "registered_at ?hub k v" using k v by (simp add: registered_at_def)
      then have "registered_at hub k v" "\<not> (v = w \<and> ?gone)" using reg by auto
      then have "v \<in> set (wlists hub l')" using hk by (simp add: registered_at_def)
      then have "v < next_wid hub" "live (wmem hub v)" "remove_fn (wmem hub v) = Some (k, l')"
        using hub_coreD(3-5) [OF core hk] by auto
      then show ?thesis using \<open>\<not> (v = w \<and> ?gone)\<close> step_same_hub [of hub e p deleted l w]
        by (auto simp: step_wmem deliver_def leaves_def live_def same_hub_def)
    qed
    have "l' < next_lid ?hub \<and> distinct (wlists ?hub l')"
      using hub_coreD(1,2) [OF core hk] step_same_hub [of hub e p deleted l w]
      by (auto simp: step_wlists same_hub_def)
    then show ?thesis using v by blast
  qed
  then show ?thesis unfolding hub_core_def using card by blast
qed

text \<open>The whole loop: every watcher of the list that is interested gets the delivery.\<close>

lemma notify_loop_spec:
  "hub_core hub \<Longrightarrow> distinct ws \<Longrightarrow> set ws \<subseteq> set (wlists hub l) \<Longrightarrow>
   (ws \<noteq> [] \<Longrightarrow> watchers hub p = Some l) \<Longrightarrow> watchers hub p \<in> {None, Some l} \<Longrightarrow>
   \<exists>hub'. notify_loop hub e p deleted l ws = Some hub' \<and> hub_core hub' \<and> same_hub hub hub' \<and>
     (\<forall>w. wmem hub' w = (if w \<in> set ws \<and> interested (wmem hub w) e p deleted
                        then deliver (wmem hub w) e else wmem hub w)) \<and>
     (\<forall>k v. registered_at hub' k v \<longleftrightarrow> registered_at hub k v \<and>
        \<not> (v \<in> set ws \<and> interested (wmem hub v) e p deleted \<and> leaves (wmem hub v))) \<and>
     (\<forall>k. k \<noteq> p \<longrightarrow> watchers hub' k = watchers hub k) \<and> watchers hub' p \<in> {None, Some l} \<and>
     (\<forall>j. j \<noteq> l \<longrightarrow> wlists hub' j = wlists hub j)"
proof (induction ws arbitrary: hub)
  case Nil
  then show ?case by (simp add: same_hub_def)
next
  case (Cons w ws)
  let ?g = "\<lambda>v. interested (wmem hub v) e p deleted"
  let ?hub = "notify_step hub e p deleted l w"
  have l: "watchers hub p = Some l" using Cons.prems(4) by simp
  have w: "w \<in> set (wlists hub l)" using Cons.prems(3) by simp
  note d = hub_coreD [OF Cons.prems(1) l]
  note step = step_registered [OF Cons.prems(1) l w]
  have ws: "set ws \<subseteq> set (wlists ?hub l)"
    using Cons.prems(2,3) d(2) by (auto simp: step_wlists)
  have some: "watchers ?hub p = Some l" if "ws \<noteq> []"
    using step_watchers [of hub e p deleted l w p] that ws l by auto
  have opt: "watchers ?hub p \<in> {None, Some l}"
    using step_watchers [of hub e p deleted l w p] l by auto
  from Cons.IH [OF step_core [OF Cons.prems(1) l w] _ ws some opt] Cons.prems(2)
  obtain hub' where hub': "notify_loop ?hub e p deleted l ws = Some hub'" "hub_core hub'"
    "same_hub ?hub hub'" "watchers hub' p \<in> {None, Some l}"
    "\<And>v. wmem hub' v = (if v \<in> set ws \<and> interested (wmem ?hub v) e p deleted
                        then deliver (wmem ?hub v) e else wmem ?hub v)"
    "\<And>k v. registered_at hub' k v \<longleftrightarrow> registered_at ?hub k v \<and>
        \<not> (v \<in> set ws \<and> interested (wmem ?hub v) e p deleted \<and> leaves (wmem ?hub v))"
    "\<And>k. k \<noteq> p \<Longrightarrow> watchers hub' k = watchers ?hub k"
    "\<And>j. j \<noteq> l \<Longrightarrow> wlists hub' j = wlists ?hub j" by auto
  have ne: "v \<noteq> w" if "v \<in> set ws" for v using that Cons.prems(2) by auto
  have "notify_loop hub e p deleted l (w # ws) = Some hub'"
    using notify_loop_step [OF d(4,5) [OF w]] hub'(1) by simp
  moreover have "same_hub hub hub'"
    using hub'(3) step_same_hub [of hub e p deleted l w] by (simp add: same_hub_def)
  moreover have "wmem hub' v = (if v \<in> set (w # ws) \<and> ?g v then deliver (wmem hub v) e else wmem hub v)" for v
    using ne [of v] hub'(5) [of v] by (auto simp: step_wmem)
  moreover have "registered_at hub' k v \<longleftrightarrow> registered_at hub k v \<and>
      \<not> (v \<in> set (w # ws) \<and> ?g v \<and> leaves (wmem hub v))" for k v
    using ne [of v] hub'(6) [of k v] step [of e deleted k v] by (auto simp: step_wmem)
  moreover have "watchers hub' k = watchers hub k" if "k \<noteq> p" for k
    using hub'(7) [OF that] step_watchers [of hub e p deleted l w k] that by auto
  moreover have "wlists hub' j = wlists hub j" if "j \<noteq> l" for j
    using hub'(8) [OF that] that by (simp add: step_wlists)
  ultimately show ?case using hub'(2,4) by blast
qed

text \<open>
  \<open>notifyWatchers\<close> under the invariant: it returns, exactly the interested watchers of the
  path get the event (or, when a stream watcher's buffer is full, are dropped), and exactly
  those that are one-shot or full leave the hub.
\<close>

lemma notifyWatchers_spec:
  assumes inv: "hub_inv hub"
  shows "\<exists>hub'. notifyWatchers hub e p deleted = Some hub' \<and> hub_inv hub' \<and> same_hub hub hub' \<and>
     (\<forall>w. wmem hub' w = (if registered_at hub p w \<and> interested (wmem hub w) e p deleted
                        then deliver (wmem hub w) e else wmem hub w)) \<and>
     (\<forall>k v. registered_at hub' k v \<longleftrightarrow> registered_at hub k v \<and>
        \<not> (k = p \<and> interested (wmem hub v) e p deleted \<and> leaves (wmem hub v)))"
proof (cases "watchers hub p")
  case None
  then show ?thesis using inv
    by (auto simp: notifyWatchers_def same_hub_def registered_at_def)
next
  case (Some l)
  have core: "hub_core hub" and ne: "nonempty_except {} hub" and h: "hist_inv (EHistory hub)"
    using inv by (auto simp: hub_inv_def)
  from notify_loop_spec [OF core hub_coreD(2) [OF core Some], of l p e deleted] Some
  obtain hub1 where hub1: "notify_loop hub e p deleted l (wlists hub l) = Some hub1" "hub_core hub1"
    "same_hub hub hub1" "watchers hub1 p \<in> {None, Some l}"
    "\<And>w. wmem hub1 w = (if w \<in> set (wlists hub l) \<and> interested (wmem hub w) e p deleted
                        then deliver (wmem hub w) e else wmem hub w)"
    "\<And>k v. registered_at hub1 k v \<longleftrightarrow> registered_at hub k v \<and>
        \<not> (v \<in> set (wlists hub l) \<and> interested (wmem hub v) e p deleted \<and> leaves (wmem hub v))"
    "\<And>k. k \<noteq> p \<Longrightarrow> watchers hub1 k = watchers hub k"
    "\<And>j. j \<noteq> l \<Longrightarrow> wlists hub1 j = wlists hub j" by auto
  let ?hub = "drop_key hub1 p l"
  have not: "notifyWatchers hub e p deleted = Some ?hub"
    using Some hub1(1) by (simp add: notifyWatchers_def drop_key_def)
  have reg1: "registered_at ?hub k v = registered_at hub1 k v" for k v
    using hub1(4) by (auto simp: registered_at_def drop_key_def split: option.splits)
  have inl: "v \<in> set (wlists hub l) \<longleftrightarrow> registered_at hub p v" for v
    using Some by (simp add: registered_at_def)
  have reg: "registered_at ?hub k v \<longleftrightarrow> registered_at hub k v \<and>
        \<not> (k = p \<and> interested (wmem hub v) e p deleted \<and> leaves (wmem hub v))" for k v
    using hub1(6) [of k v] reg1 [of k v] inl registered_unique [OF core, of k v p] by blast
  have core': "hub_core ?hub"
  proof -
    have "reg_set ?hub = reg_set hub1" by (simp add: reg_set_def reg1)
    then show ?thesis using hub1(2) by (auto simp: hub_core_def drop_key_def)
  qed
  have "nonempty_except {} ?hub"
    unfolding nonempty_except_def
  proof (intro allI impI)
    fix k l' assume k: "watchers ?hub k = Some l' \<and> k \<notin> {}"
    show "wlists ?hub l' \<noteq> []"
    proof (cases "k = p")
      case True
      then show ?thesis using k hub1(4) by (auto simp: drop_key_def split: if_splits)
    next
      case False
      then have hk: "watchers hub k = Some l'"
        using k hub1(7) by (auto simp: drop_key_def split: if_splits)
      then have ne': "wlists hub l' \<noteq> []" using ne by (simp add: nonempty_except_def)
      then have "l' \<noteq> l" using lid_unique [OF core hk] Some False by blast
      then show ?thesis using hub1(8) ne' by (simp add: drop_key_def)
    qed
  qed
  moreover have "same_hub hub ?hub" using hub1(3) by (simp add: same_hub_def drop_key_def)
  ultimately have "hub_inv ?hub"
    using core' h by (simp add: hub_inv_def same_hub_def)
  moreover have "wmem ?hub w = (if registered_at hub p w \<and> interested (wmem hub w) e p deleted
                        then deliver (wmem hub w) e else wmem hub w)" for w
    using hub1(5) inl by simp
  ultimately show ?thesis using not reg \<open>same_hub hub ?hub\<close> by blast
qed

section \<open>Notification along a key\<close>

fun notify_paths :: "watcherHub \<Rightarrow> event \<Rightarrow> bool \<Rightarrow> string list \<Rightarrow> watcherHub option" where
  "notify_paths hub e deleted [] = Some hub"
| "notify_paths hub e deleted (p # ps) =
     (case notifyWatchers hub e p deleted of
        None \<Rightarrow> None
      | Some hub1 \<Rightarrow> notify_paths hub1 e deleted ps)"

lemma notify_paths_spec:
  "hub_inv hub \<Longrightarrow> distinct ps \<Longrightarrow>
   \<exists>hub'. notify_paths hub e deleted ps = Some hub' \<and> hub_inv hub' \<and> same_hub hub hub' \<and>
     (\<forall>w. wmem hub' w =
        (if \<exists>p \<in> set ps. registered_at hub p w \<and> interested (wmem hub w) e p deleted
         then deliver (wmem hub w) e else wmem hub w)) \<and>
     (\<forall>k v. registered_at hub' k v \<longleftrightarrow> registered_at hub k v \<and>
        \<not> (k \<in> set ps \<and> interested (wmem hub v) e k deleted \<and> leaves (wmem hub v)))"
proof (induction ps arbitrary: hub)
  case Nil
  then show ?case by (simp add: same_hub_def)
next
  case (Cons p ps)
  from notifyWatchers_spec [OF Cons.prems(1), of e p deleted] obtain hub1 where
    hub1: "notifyWatchers hub e p deleted = Some hub1" "hub_inv hub1" "same_hub hub hub1"
    "\<And>w. wmem hub1 w = (if registered_at hub p w \<and> interested (wmem hub w) e p deleted
                        then deliver (wmem hub w) e else wmem hub w)"
    "\<And>k v. registered_at hub1 k v \<longleftrightarrow> registered_at hub k v \<and>
        \<not> (k = p \<and> interested (wmem hub v) e p deleted \<and> leaves (wmem hub v))" by blast
  from Cons.IH [OF hub1(2)] Cons.prems(2) obtain hub' where
    hub': "notify_paths hub1 e deleted ps = Some hub'" "hub_inv hub'" "same_hub hub1 hub'"
    "\<And>w. wmem hub' w =
        (if \<exists>p \<in> set ps. registered_at hub1 p w \<and> interested (wmem hub1 w) e p deleted
         then deliver (wmem hub1 w) e else wmem hub1 w)"
    "\<And>k v. registered_at hub' k v \<longleftrightarrow> registered_at hub1 k v \<and>
        \<not> (k \<in> set ps \<and> interested (wmem hub1 v) e k deleted \<and> leaves (wmem hub1 v))" by auto
  have core: "hub_core hub" using Cons.prems(1) by (simp add: hub_inv_def)
  have same: "wmem hub1 w = wmem hub w" if "q \<in> set ps" "registered_at hub q w" for q w
    using hub1(4) [of w] registered_unique [OF core that(2), of p] that(1) Cons.prems(2) by auto
  have m: "wmem hub' w =
        (if \<exists>q \<in> set (p # ps). registered_at hub q w \<and> interested (wmem hub w) e q deleted
         then deliver (wmem hub w) e else wmem hub w)" for w
  proof (cases "\<exists>q \<in> set ps. registered_at hub q w")
    case True
    then obtain q where q: "q \<in> set ps" "registered_at hub q w" by blast
    have uq: "k = q" if "registered_at hub k w" for k using registered_unique [OF core that q(2)] .
    then have "\<not> registered_at hub p w" using q(1) Cons.prems(2) by auto
    then show ?thesis using hub'(4) [of w] hub1(5) same [OF q] by auto
  next
    case False
    then show ?thesis using hub'(4) [of w] hub1(4) [of w] hub1(5) by auto
  qed
  have r: "registered_at hub' k v \<longleftrightarrow> registered_at hub k v \<and>
        \<not> (k \<in> set (p # ps) \<and> interested (wmem hub v) e k deleted \<and> leaves (wmem hub v))" for k v
    using hub'(5) [of k v] hub1(5) [of k v] same [of k v] Cons.prems(2) by auto
  have "same_hub hub hub'" using hub1(3) hub'(3) by (simp add: same_hub_def)
  then show ?case using hub1(1) hub'(1,2) m r by auto
qed

text \<open>The paths \<open>notify\<close> visits for a key: the root, then every prefix down to the key.\<close>

definition prefix_paths :: "string list \<Rightarrow> string list \<Rightarrow> string list" where
  "prefix_paths ds cs = map (\<lambda>i. render (ds @ take (Suc i) cs)) [0..<length cs]"

lemma prefix_paths_Cons: "prefix_paths ds (c # cs) = render (ds @ [c]) # prefix_paths (ds @ [c]) cs"
proof -
  have "[0..<length (c # cs)] = 0 # map Suc [0..<length cs]"
    by (simp add: upt_conv_Cons map_Suc_upt del: upt_Suc)
  then show ?thesis by (simp add: prefix_paths_def)
qed

lemma notify_segments_paths:
  "valid_names (ds @ cs) \<Longrightarrow>
   notify_segments hub e (render ds) cs = notify_paths hub e False (prefix_paths ds cs)"
proof (induction cs arbitrary: hub ds)
  case Nil
  then show ?case by (simp add: prefix_paths_def)
next
  case (Cons c cs)
  then show ?case
    by (auto simp: prefix_paths_Cons path_Join_render Let_def split: option.splits)
qed

definition key_paths :: "string list \<Rightarrow> string list" where
  "key_paths cs = render [] # prefix_paths [] cs"

lemma hub_notify_paths:
  assumes "valid_names cs" and "cs \<noteq> []" and "Key (ENode e) = render cs"
  shows "hub_notify hub e =
    (case addEvent (EHistory hub) e of
       None \<Rightarrow> None
     | Some eh \<Rightarrow> notify_paths (hub\<lparr>EHistory := eh\<rparr>) e False (key_paths cs))"
proof -
  have "path_Join [''/'', []] = render []"
    by (simp add: path_Join_def path_Clean_def clean_comps_def strings_Split_def render_def)
  then show ?thesis
    using assms notify_segments_paths [of "[]" cs]
    by (auto simp: hub_notify_def Split_render key_paths_def Let_def render_Nil split: option.splits)
qed

lemma in_key_paths:
  "p \<in> set (key_paths cs) \<longleftrightarrow> (\<exists>ds. prefix ds cs \<and> p = render ds)"
proof -
  have "(\<exists>ds. prefix ds cs \<and> p = render ds) \<longleftrightarrow> (\<exists>n \<le> length cs. p = render (take n cs))"
    by (metis append_eq_conv_conj prefix_def take_is_prefix nat_le_linear take_all)
  also have "\<dots> \<longleftrightarrow> p = render [] \<or> (\<exists>i < length cs. p = render (take (Suc i) cs))"
    by (metis Suc_le_eq le_0_eq not0_implies_Suc take_0 zero_le)
  finally show ?thesis by (auto simp: key_paths_def prefix_paths_def)
qed

lemma distinct_key_paths:
  assumes "valid_names cs"
  shows "distinct (key_paths cs)"
proof -
  have v: "valid_names (take n cs)" for n
    using assms by (metis append_take_drop_id valid_names_simps(3))
  have "inj_on (\<lambda>i. render (take (Suc i) cs)) {0..<length cs}"
  proof (rule inj_onI)
    fix i j assume ij: "i \<in> {0..<length cs}" "j \<in> {0..<length cs}"
      "render (take (Suc i) cs) = render (take (Suc j) cs)"
    then have "take (Suc i) cs = take (Suc j) cs" using render_inj v by blast
    then have "length (take (Suc i) cs) = length (take (Suc j) cs)" by simp
    then show "i = j" using ij by simp
  qed
  moreover have "render [] \<noteq> render (take (Suc i) cs)" if "i < length cs" for i
    using render_inj [OF _ v [of "Suc i"], of "[]"] that by auto
  then have "render [] \<notin> (\<lambda>i. render (take (Suc i) cs)) ` {0..<length cs}" by fastforce
  ultimately show ?thesis
    unfolding key_paths_def prefix_paths_def by (simp add: distinct_map)
qed

lemma registered_frame [simp]:
  "registered_at (hub\<lparr>EHistory := eh\<rparr>) = registered_at hub"
  "registered_at (hub\<lparr>wmem := m\<rparr>) = registered_at hub"
  "registered_at (hub\<lparr>next_wid := n\<rparr>) = registered_at hub"
  by (auto simp: fun_eq_iff registered_at_def split: option.splits)

lemma hub_inv_history: "hub_inv hub \<Longrightarrow> hist_inv eh \<Longrightarrow> hub_inv (hub\<lparr>EHistory := eh\<rparr>)"
  by (simp add: hub_inv_def hub_core_def nonempty_except_def reg_set_def)

text \<open>
  \<open>notify\<close> under the invariant: it returns, records the event, delivers it to exactly the
  interested watchers registered on the key's path, and keeps the invariant.
\<close>

lemma hub_notify_spec:
  assumes inv: "hub_inv hub" and cs: "valid_names cs" "cs \<noteq> []" and key: "Key (ENode e) = render cs"
    and e: "next_event (EHistory hub) e"
  shows "\<exists>hub'. hub_notify hub e = Some hub' \<and> hub_inv hub' \<and>
     addEvent (EHistory hub) e = Some (EHistory hub') \<and>
     next_lid hub' = next_lid hub \<and> next_wid hub' = next_wid hub \<and>
     (\<forall>w. wmem hub' w =
        (if \<exists>ds. prefix ds cs \<and> registered_at hub (render ds) w \<and>
              interested (wmem hub w) e (render ds) False
         then deliver (wmem hub w) e else wmem hub w)) \<and>
     (\<forall>k v. registered_at hub' k v \<longleftrightarrow> registered_at hub k v \<and>
        \<not> ((\<exists>ds. prefix ds cs \<and> k = render ds) \<and> interested (wmem hub v) e k False \<and>
           leaves (wmem hub v)))"
proof -
  have "hist_inv (EHistory hub)" using inv by (simp add: hub_inv_def)
  from addEvent_list [OF this e] obtain eh where
    eh: "addEvent (EHistory hub) e = Some eh" "hist_inv eh" by blast
  let ?hub = "hub\<lparr>EHistory := eh\<rparr>"
  from notify_paths_spec [OF hub_inv_history [OF inv eh(2)] distinct_key_paths [OF cs(1)], of e False]
  obtain hub' where hub': "notify_paths ?hub e False (key_paths cs) = Some hub'" "hub_inv hub'"
    "same_hub ?hub hub'"
    "\<And>w. wmem hub' w =
        (if \<exists>p \<in> set (key_paths cs). registered_at ?hub p w \<and> interested (wmem ?hub w) e p False
         then deliver (wmem ?hub w) e else wmem ?hub w)"
    "\<And>k v. registered_at hub' k v \<longleftrightarrow> registered_at ?hub k v \<and>
        \<not> (k \<in> set (key_paths cs) \<and> interested (wmem ?hub v) e k False \<and> leaves (wmem ?hub v))"
    by blast
  have "hub_notify hub e = Some hub'"
    using hub_notify_paths [OF cs key] eh(1) hub'(1) by simp
  moreover have "EHistory hub' = eh" "next_lid hub' = next_lid hub" "next_wid hub' = next_wid hub"
    using hub'(3) by (simp_all add: same_hub_def)
  moreover have bex: "(\<exists>p \<in> set (key_paths cs). Q p) \<longleftrightarrow> (\<exists>ds. prefix ds cs \<and> Q (render ds))" for Q
    by (metis in_key_paths)
  moreover have "wmem hub' w = (if \<exists>ds. prefix ds cs \<and> registered_at hub (render ds) w \<and>
              interested (wmem hub w) e (render ds) False
         then deliver (wmem hub w) e else wmem hub w)" for w
  proof -
    have "wmem ?hub = wmem hub" by simp
    then show ?thesis using hub'(4) [of w] by (simp only: bex registered_frame)
  qed
  ultimately show ?thesis using hub'(2,5) eh(1) by (simp add: in_key_paths)
qed

section \<open>Watching\<close>

lemma find_scan_Some: "find P xs = Some x \<Longrightarrow> P x \<and> x \<in> set xs"
  by (induction xs) (auto split: if_splits)

lemma eh_scan_cases:
  assumes inv: "hist_inv eh" and nz: "index \<noteq> 0"
  shows "eh_scan eh key rec index =
    (if index < StartIndex eh then
       Some (Inl (NewError EcodeEventIndexCleared
          (''the requested history has been cleared ['' @ FormatUint (unat (StartIndex eh)) @
           ''/'' @ FormatUint (unat index) @ '']'') 0))
     else Some (Inr (find (scan_match key rec)
       (drop (unat index - unat (StartIndex eh)) (hist_list eh)))))"
proof (cases "LastIndex eh < index \<or> index < StartIndex eh")
  case True
  have "drop (unat index - unat (StartIndex eh)) (hist_list eh) = []"
    if "LastIndex eh < index" "\<not> index < StartIndex eh"
  proof -
    have "length (hist_list eh) \<le> unat index - unat (StartIndex eh)"
      using inv that by (cases "hist_list eh = []") (auto simp: hist_inv_def word_less_nat_alt)
    then show ?thesis by simp
  qed
  then show ?thesis using True by (auto simp: eh_scan_def)
next
  case False
  then have "hist_list eh \<noteq> []" using inv nz by (auto simp: hist_inv_def not_less)
  then show ?thesis using False eh_scan_list [OF inv] by (auto simp: not_less)
qed

text \<open>
  \<open>watch\<close>: an index the history no longer holds is an error; otherwise the watcher gets the
  first retained event from \<open>index\<close> on that matches, or is registered.
\<close>

lemma hub_watch_spec:
  assumes inv: "hub_inv hub" and nz: "index \<noteq> 0"
  shows "\<exists>r hub'. hub_watch hub key rec strm index = Some (r, hub') \<and> hub_inv hub' \<and>
    EHistory hub' = EHistory hub \<and>
    (\<forall>w. w \<noteq> next_wid hub \<longrightarrow> wmem hub' w = wmem hub w \<and>
       (\<forall>k. registered_at hub' k w = registered_at hub k w)) \<and>
    (case r of
       Inl err \<Rightarrow> index < StartIndex (EHistory hub) \<and> ErrorCode err = EcodeEventIndexCleared \<and> hub' = hub
     | Inr w \<Rightarrow> \<not> index < StartIndex (EHistory hub) \<and> w = next_wid hub \<and>
         recursive (wmem hub' w) = rec \<and> stream (wmem hub' w) = strm \<and>
         sinceIndex (wmem hub' w) = index \<and>
         (case find (scan_match key rec)
             (drop (unat index - unat (StartIndex (EHistory hub))) (hist_list (EHistory hub))) of
            Some e \<Rightarrow> EventChan (wmem hub' w) = [e] \<and> (\<forall>k. \<not> registered_at hub' k w) \<and>
              remove_fn (wmem hub' w) = None
          | None \<Rightarrow> EventChan (wmem hub' w) = [] \<and>
              (\<forall>k. registered_at hub' k w \<longleftrightarrow> k = key)))"
proof (cases "index < StartIndex (EHistory hub)")
  case True
  then show ?thesis
    using inv nz by (simp add: hub_watch_def hub_inv_def eh_scan_cases)
next
  case False
  have h: "hist_inv (EHistory hub)" and core: "hub_core hub" and ne: "nonempty_except {} hub"
    using inv by (simp_all add: hub_inv_def)
  let ?f = "find (scan_match key rec)
    (drop (unat index - unat (StartIndex (EHistory hub))) (hist_list (EHistory hub)))"
  note scan = eh_scan_cases [OF h nz, of key rec]
  let ?w = "next_wid hub"
  have fresh: "\<not> registered_at hub k ?w" for k
    using core by (auto simp: hub_core_def registered_at_def split: option.splits)
  let ?x = "zero_Watcher\<lparr>recursive := rec, stream := strm, sinceIndex := index\<rparr>"
  show ?thesis
  proof (cases ?f)
    case (Some e)
    let ?hub = "hub\<lparr>wmem := (wmem hub)(?w := ?x\<lparr>EventChan := [e]\<rparr>), next_wid := ?w + 1\<rparr>"
    have regs: "reg_set ?hub = reg_set hub" by (simp add: reg_set_def)
    have "l < next_lid hub \<and> distinct (wlists hub l) \<and>
        (\<forall>v \<in> set (wlists hub l). v < next_wid ?hub \<and> live (wmem ?hub v) \<and>
           remove_fn (wmem ?hub v) = Some (k, l))" if k: "watchers hub k = Some l" for k l
    proof -
      have "v < ?w" if "v \<in> set (wlists hub l)" for v using hub_coreD(3) [OF core k that] .
      then show ?thesis using hub_coreD [OF core k] by fastforce
    qed
    then have "hub_core ?hub" using core regs by (simp add: hub_core_def)
    then have "hub_inv ?hub" using h ne by (simp add: hub_inv_def nonempty_except_def)
    moreover have "hub_watch hub key rec strm index = Some (Inr ?w, ?hub)"
      using False Some by (simp add: hub_watch_def scan Let_def)
    ultimately show ?thesis using False Some fresh
      by (intro exI [of _ "Inr ?w"] exI [of _ ?hub]) (simp add: zero_Watcher_def)
  next
    case None
    define l where "l = (case watchers hub key of Some l \<Rightarrow> l | None \<Rightarrow> next_lid hub)"
    define ws where "ws = (case watchers hub key of Some l \<Rightarrow> wlists hub l | None \<Rightarrow> [])"
    let ?hub = "hub\<lparr>wmem := (wmem hub)(?w := ?x\<lparr>remove_fn := Some (key, l)\<rparr>), next_wid := ?w + 1,
      wlists := (wlists hub)(l := ws @ [?w]), next_lid := max (next_lid hub) (l + 1),
      watchers := (watchers hub)(key \<mapsto> l), hub_count := hub_count hub + 1\<rparr>"
    have "hub_watch hub key rec strm index = Some (Inr ?w, ?hub)"
    proof (cases "watchers hub key")
      case None
      then show ?thesis using False \<open>?f = None\<close> scan
        by (simp add: hub_watch_def Let_def l_def ws_def max_def)
    next
      case (Some l')
      then have "l' < next_lid hub" using hub_coreD(1) [OF core] by blast
      then show ?thesis using False \<open>?f = None\<close> Some scan
        by (simp add: hub_watch_def Let_def l_def ws_def max_def fun_upd_idem)
    qed
    moreover have other: "l' \<noteq> l" if "watchers hub k = Some l'" "k \<noteq> key" for k l'
    proof (cases "watchers hub key")
      case None
      then show ?thesis using hub_coreD(1) [OF core that(1)] by (simp add: l_def)
    next
      case (Some m)
      have "wlists hub m \<noteq> []" using ne Some by (simp add: nonempty_except_def)
      then show ?thesis using lid_unique [OF core Some, of k] that Some by (auto simp: l_def)
    qed
    have ws: "v \<in> set ws \<longleftrightarrow> registered_at hub key v" for v
      by (simp add: ws_def registered_at_def split: option.splits)
    have reg: "registered_at ?hub k v \<longleftrightarrow> registered_at hub k v \<or> (k = key \<and> v = ?w)" for k v
      using ws other by (auto simp: registered_at_def split: option.splits)
    have wsD: "distinct ws" "\<And>v. v \<in> set ws \<Longrightarrow> v < ?w \<and> live (wmem hub v) \<and> remove_fn (wmem hub v) = Some (key, l)"
      using hub_coreD [OF core] by (auto simp: ws_def l_def split: option.splits)
    have "reg_set ?hub = insert ?w (reg_set hub)" using reg by (auto simp: reg_set_def)
    moreover have "?w \<notin> reg_set hub" using fresh by (simp add: reg_set_def)
    ultimately have count: "hub_count ?hub = int (card (reg_set ?hub))"
      using core finite_reg_set [OF core] by (simp add: hub_core_def)
    have "l' < next_lid ?hub \<and> distinct (wlists ?hub l') \<and>
        (\<forall>v \<in> set (wlists ?hub l'). v < next_wid ?hub \<and> live (wmem ?hub v) \<and>
           remove_fn (wmem ?hub v) = Some (k, l'))" if k: "watchers ?hub k = Some l'" for k l'
    proof (cases "k = key")
      case True
      then show ?thesis using k wsD by (auto simp: live_def zero_Watcher_def less_Suc_eq)
    next
      case False
      then have hk: "watchers hub k = Some l'" using k by simp
      have "v < ?w" if "v \<in> set (wlists hub l')" for v using hub_coreD(3) [OF core hk that] .
      then show ?thesis using other [OF hk False] hub_coreD [OF core hk] by fastforce
    qed
    then have "hub_core ?hub" unfolding hub_core_def using count by blast
    moreover have "nonempty_except {} ?hub"
      using ne other by (auto simp: nonempty_except_def)
    ultimately have "hub_inv ?hub" using h by (simp add: hub_inv_def)
    moreover have "registered_at ?hub k ?w \<longleftrightarrow> k = key" for k using reg fresh by blast
    moreover have "\<forall>v. v \<noteq> ?w \<longrightarrow> (\<forall>k. registered_at ?hub k v = registered_at hub k v)"
      using reg by blast
    ultimately show ?thesis using False None \<open>hub_watch hub key rec strm index = Some (Inr ?w, ?hub)\<close>
      by (intro exI [of _ "Inr ?w"] exI [of _ ?hub]) (simp add: zero_Watcher_def)
  qed
qed

section \<open>Receiving and removing\<close>

lemma chan_recv_inv:
  assumes inv: "hub_inv hub"
  shows "hub_inv (snd (chan_recv hub w))" "EHistory (snd (chan_recv hub w)) = EHistory hub"
    "registered_at (snd (chan_recv hub w)) = registered_at hub"
proof -
  have "hub_inv (snd (chan_recv hub w)) \<and> EHistory (snd (chan_recv hub w)) = EHistory hub \<and>
    registered_at (snd (chan_recv hub w)) = registered_at hub"
  proof (cases "EventChan (wmem hub w)")
    case Nil
    then show ?thesis using inv by (simp add: chan_recv_def)
  next
    case (Cons e es)
    let ?hub = "hub\<lparr>wmem := (wmem hub)(w := wmem hub w\<lparr>EventChan := es\<rparr>)\<rparr>"
    have core: "hub_core hub" using inv by (simp add: hub_inv_def)
    have regs: "reg_set ?hub = reg_set hub" by (simp add: reg_set_def)
    have "l < next_lid hub \<and> distinct (wlists hub l) \<and>
        (\<forall>v \<in> set (wlists hub l). v < next_wid hub \<and> live (wmem ?hub v) \<and>
           remove_fn (wmem ?hub v) = Some (k, l))" if k: "watchers hub k = Some l" for k l
    proof -
      have "length (EventChan (wmem hub v)) \<le> 1" if "v \<in> set (wlists hub l)" for v
        using hub_coreD(4) [OF core k that] by (simp add: live_def)
      then have "length es \<le> 1" if "w \<in> set (wlists hub l)" using that Cons by force
      then show ?thesis using hub_coreD [OF core k] Cons by (auto simp: live_def)
    qed
    then have "hub_core ?hub" using core regs by (simp add: hub_core_def)
    then show ?thesis using inv Cons
      by (simp add: chan_recv_def upd_watcher_def hub_inv_def nonempty_except_def)
  qed
  then show "hub_inv (snd (chan_recv hub w))" "EHistory (snd (chan_recv hub w)) = EHistory hub"
    "registered_at (snd (chan_recv hub w)) = registered_at hub" by simp_all
qed

text \<open>
  Removing a watcher that is still registered closes its channel and takes it off the hub.
\<close>

lemma Watcher_Remove_spec:
  assumes inv: "hub_inv hub" and reg: "registered_at hub p w"
  shows "\<exists>hub'. Watcher_Remove hub w = Some hub' \<and> hub_inv hub' \<and> EHistory hub' = EHistory hub \<and>
    chan_closed (wmem hub' w) \<and> removed (wmem hub' w) \<and>
    (\<forall>k v. registered_at hub' k v \<longleftrightarrow> registered_at hub k v \<and> v \<noteq> w)"
proof -
  have core: "hub_core hub" and ne: "nonempty_except {} hub" and h: "hist_inv (EHistory hub)"
    using inv by (simp_all add: hub_inv_def)
  obtain l where l: "watchers hub p = Some l" and w: "w \<in> set (wlists hub l)"
    using reg by (auto simp: registered_at_def split: option.splits)
  note d = hub_coreD [OF core l]
  have rw: "remove_fn (wmem hub w) = Some (p, l)" "live (wmem hub w)" using d(4,5) [OF w] by simp_all
  let ?x = "wmem hub w\<lparr>chan_closed := True, removed := True\<rparr>"
  define hub1 where "hub1 = unlink (set_wmem hub w ?x) l w"
  let ?hub = "drop_key hub1 p l"
  have rem: "Watcher_Remove hub w = Some ?hub"
    using rw by (simp add: Watcher_Remove_def call_remove_def upd_watcher_def live_def Let_def
        drop_key_def hub1_def unlink_def set_wmem_def)
  have f: "watchers hub1 = watchers hub" "wlists hub1 = (wlists hub)(l := remove1 w (wlists hub l))"
    "wmem hub1 = (wmem hub)(w := ?x)" "hub_count hub1 = hub_count hub - 1" "next_lid hub1 = next_lid hub"
    "next_wid hub1 = next_wid hub" "EHistory hub1 = EHistory hub"
    by (simp_all add: hub1_def unlink_def set_wmem_def)
  have other: "l' \<noteq> l" if "watchers hub k = Some l'" "k \<noteq> p" for k l'
    using lid_unique [OF core that(1), of p] that l w by (cases "wlists hub l") auto
  have r1: "registered_at hub1 k v \<longleftrightarrow> registered_at hub k v \<and> v \<noteq> w" for k v
  proof (cases "k = p")
    case True
    then show ?thesis using l d(2) by (simp add: registered_at_def f)
  next
    case False
    have "\<not> registered_at hub k w" using registered_unique [OF core reg, of k] False by blast
    then show ?thesis using other [of k] False
      by (cases "watchers hub k") (auto simp: registered_at_def f)
  qed
  have dk: "registered_at ?hub k v \<longleftrightarrow> registered_at hub1 k v" for k v
    using l by (cases "watchers hub k") (auto simp: registered_at_def drop_key_def f)
  have r: "registered_at ?hub k v \<longleftrightarrow> registered_at hub k v \<and> v \<noteq> w" for k v using dk r1 by blast
  have "reg_set ?hub = reg_set hub - {w}" using r by (auto simp: reg_set_def)
  moreover have "w \<in> reg_set hub" using reg by (auto simp: reg_set_def)
  moreover have "hub_count ?hub = hub_count hub - 1" by (simp add: drop_key_def f)
  ultimately have card: "hub_count ?hub = int (card (reg_set ?hub))"
    using core finite_reg_set [OF core] card_gt_0_iff [of "reg_set hub"]
    by (auto simp: hub_core_def card_Diff_singleton_if of_nat_diff Suc_leI)
  have "l' < next_lid ?hub \<and> distinct (wlists ?hub l') \<and>
      (\<forall>v \<in> set (wlists ?hub l'). v < next_wid ?hub \<and> live (wmem ?hub v) \<and>
         remove_fn (wmem ?hub v) = Some (k, l'))" if k: "watchers ?hub k = Some l'" for k l'
  proof -
    have hk: "watchers hub k = Some l'" using k by (auto simp: drop_key_def f split: if_splits)
    have "v \<in> set (wlists hub l') \<and> v \<noteq> w" if "v \<in> set (wlists ?hub l')" for v
    proof -
      have "registered_at ?hub k v" using that k by (simp add: registered_at_def)
      then show ?thesis using r hk by (simp add: registered_at_def)
    qed
    moreover have "distinct (wlists ?hub l')" using hub_coreD(2) [OF core hk] d(2) by (simp add: drop_key_def f)
    ultimately show ?thesis using hub_coreD [OF core hk] by (auto simp: drop_key_def f)
  qed
  then have "hub_core ?hub" unfolding hub_core_def using card by blast
  moreover have "nonempty_except {} ?hub"
    using ne other by (auto simp: nonempty_except_def drop_key_def f split: if_splits)
  ultimately have "hub_inv ?hub" using h by (simp add: hub_inv_def drop_key_def f)
  then show ?thesis using rem r by (auto simp: drop_key_def f)
qed

end
