(* ===== verification/EtcdStats.thy ===== *)
theory EtcdStats
  imports Prelude
begin

text \<open>
  \<open>coreos/etcd/store/stats.go\<close>: the store's operation counters, each an atomic \<open>uint64\<close>.
\<close>

datatype stat_kind =
    SetSuccess | SetFail | DeleteSuccess | DeleteFail | CreateSuccess | CreateFail
  | UpdateSuccess | UpdateFail | CompareAndSwapSuccess | CompareAndSwapFail
  | GetSuccess | GetFail | ExpireCount | CompareAndDeleteSuccess | CompareAndDeleteFail

text \<open>The struct's fields in its order, which the positional literal of \<open>clone\<close> relies on.\<close>

record stats =
  sGetSuccess :: u64
  sGetFail :: u64
  sSetSuccess :: u64
  sSetFail :: u64
  sDeleteSuccess :: u64
  sDeleteFail :: u64
  sUpdateSuccess :: u64
  sUpdateFail :: u64
  sCreateSuccess :: u64
  sCreateFail :: u64
  sCompareAndSwapSuccess :: u64
  sCompareAndSwapFail :: u64
  sCompareAndDeleteSuccess :: u64
  sCompareAndDeleteFail :: u64
  sExpireCount :: u64
  sWatchers :: u64

definition newStats :: stats where
  "newStats = \<lparr>sGetSuccess = 0, sGetFail = 0, sSetSuccess = 0, sSetFail = 0, sDeleteSuccess = 0,
     sDeleteFail = 0, sUpdateSuccess = 0, sUpdateFail = 0, sCreateSuccess = 0, sCreateFail = 0,
     sCompareAndSwapSuccess = 0, sCompareAndSwapFail = 0, sCompareAndDeleteSuccess = 0,
     sCompareAndDeleteFail = 0, sExpireCount = 0, sWatchers = 0\<rparr>"

text \<open>The literal of \<open>clone\<close> has \<open>Watchers\<close> and \<open>ExpireCount\<close> in the other order.\<close>

definition Stats_clone :: "stats \<Rightarrow> stats" where
  "Stats_clone s = stats.make (sGetSuccess s) (sGetFail s) (sSetSuccess s) (sSetFail s)
     (sDeleteSuccess s) (sDeleteFail s) (sUpdateSuccess s) (sUpdateFail s) (sCreateSuccess s)
     (sCreateFail s) (sCompareAndSwapSuccess s) (sCompareAndSwapFail s)
     (sCompareAndDeleteSuccess s) (sCompareAndDeleteFail s) (sWatchers s) (sExpireCount s)"

definition TotalReads :: "stats \<Rightarrow> u64" where
  "TotalReads s = sGetSuccess s + sGetFail s"

definition TotalTranscations :: "stats \<Rightarrow> u64" where
  "TotalTranscations s = sSetSuccess s + sSetFail s + sDeleteSuccess s + sDeleteFail s +
     sCompareAndSwapSuccess s + sCompareAndSwapFail s +
     sCompareAndDeleteSuccess s + sCompareAndDeleteFail s + sUpdateSuccess s + sUpdateFail s"

fun Inc :: "stats \<Rightarrow> stat_kind \<Rightarrow> stats" where
  "Inc s SetSuccess = s\<lparr>sSetSuccess := sSetSuccess s + 1\<rparr>"
| "Inc s SetFail = s\<lparr>sSetFail := sSetFail s + 1\<rparr>"
| "Inc s CreateSuccess = s\<lparr>sCreateSuccess := sCreateSuccess s + 1\<rparr>"
| "Inc s CreateFail = s\<lparr>sCreateFail := sCreateFail s + 1\<rparr>"
| "Inc s DeleteSuccess = s\<lparr>sDeleteSuccess := sDeleteSuccess s + 1\<rparr>"
| "Inc s DeleteFail = s\<lparr>sDeleteFail := sDeleteFail s + 1\<rparr>"
| "Inc s GetSuccess = s\<lparr>sGetSuccess := sGetSuccess s + 1\<rparr>"
| "Inc s GetFail = s\<lparr>sGetFail := sGetFail s + 1\<rparr>"
| "Inc s UpdateSuccess = s\<lparr>sUpdateSuccess := sUpdateSuccess s + 1\<rparr>"
| "Inc s UpdateFail = s\<lparr>sUpdateFail := sUpdateFail s + 1\<rparr>"
| "Inc s CompareAndSwapSuccess = s\<lparr>sCompareAndSwapSuccess := sCompareAndSwapSuccess s + 1\<rparr>"
| "Inc s CompareAndSwapFail = s\<lparr>sCompareAndSwapFail := sCompareAndSwapFail s + 1\<rparr>"
| "Inc s CompareAndDeleteSuccess = s\<lparr>sCompareAndDeleteSuccess := sCompareAndDeleteSuccess s + 1\<rparr>"
| "Inc s CompareAndDeleteFail = s\<lparr>sCompareAndDeleteFail := sCompareAndDeleteFail s + 1\<rparr>"
| "Inc s ExpireCount = s\<lparr>sExpireCount := sExpireCount s + 1\<rparr>"

text \<open>The kinds whose counters \<open>TotalTranscations\<close> adds up.\<close>

fun counted_kind :: "stat_kind \<Rightarrow> bool" where
  "counted_kind CreateSuccess = False"
| "counted_kind CreateFail = False"
| "counted_kind GetSuccess = False"
| "counted_kind GetFail = False"
| "counted_kind ExpireCount = False"
| "counted_kind _ = True"

lemma TotalTranscations_Inc:
  "TotalTranscations (Inc s k) = TotalTranscations s + (if counted_kind k then 1 else 0)"
  by (cases k) (simp_all add: TotalTranscations_def)

lemma Stats_clone_fields:
  "Stats_clone s = s\<lparr>sExpireCount := sWatchers s, sWatchers := sExpireCount s\<rparr>"
  by (simp add: Stats_clone_def stats.make_def)

lemma Stats_clone_involutive: "Stats_clone (Stats_clone s) = s"
  by (simp add: Stats_clone_fields)

end
