(* ===== verification/EtcdNode.thy ===== *)
theory EtcdNode
  imports EtcdHeap EtcdWatch EtcdStats
begin

text \<open>
  \<open>coreos/etcd/store/node.go\<close> and \<open>loadInternalNode\<close> of \<open>node_extern.go\<close>: the nodes of the
  key tree and their operations, over the \<open>store\<close> record of \<open>store.go\<close>.

  The nodes are the cells of the memory \<open>smem\<close>; \<open>snext\<close> is the next free address, so a
  pointer to a new node is distinct from every other. The recursive methods take a fuel:
  a child's address is above its parent's (\<open>tree_ok\<close>), so \<open>Suc (snext s)\<close> is enough. The
  clock (\<open>time.Now()\<close>) is the parameter \<open>now\<close>.

  \<open>lookup\<close> is the node at a list of names below the root. \<open>tree_ok\<close> says that the graph of
  the nodes is a tree whose paths, parent pointers and child maps agree.
\<close>

section \<open>The store's state\<close>

record store =
  smem :: memory
  snext :: addr
  Root :: addr
  WatcherHub :: watcherHub
  CurrentIndex :: u64
  Stats :: stats
  CurrentVersion :: int
  TtlKeyHeap :: ttlKeyHeap

definition set_node :: "addr \<Rightarrow> (node \<Rightarrow> node) \<Rightarrow> store \<Rightarrow> store" where
  "set_node n f s = s\<lparr>smem := (smem s)(n := f (smem s n))\<rparr>"

definition Permanent :: time where "Permanent = 0"

definition alloc :: "node \<Rightarrow> store \<Rightarrow> addr \<times> store" where
  "alloc x s = (snext s, s\<lparr>smem := (smem s)(snext s := x), snext := snext s + 1\<rparr>)"

definition newKV :: "string \<Rightarrow> string \<Rightarrow> u64 \<Rightarrow> addr option \<Rightarrow> string \<Rightarrow> time \<Rightarrow> node" where
  "newKV nodePath value createdIndex parent acl expireTime =
     \<lparr>Path = nodePath, CreatedIndex = createdIndex, ModifiedIndex = createdIndex, Parent = parent,
      ExpireTime = expireTime, ACL = acl, Value = value, Children = None\<rparr>"

definition newDir :: "string \<Rightarrow> u64 \<Rightarrow> addr option \<Rightarrow> string \<Rightarrow> time \<Rightarrow> node" where
  "newDir nodePath createdIndex parent acl expireTime =
     \<lparr>Path = nodePath, CreatedIndex = createdIndex, ModifiedIndex = createdIndex, Parent = parent,
      ExpireTime = expireTime, ACL = acl, Value = [], Children = Some []\<rparr>"

section \<open>Simple operations\<close>

text \<open>\<open>name[0]\<close> panics when the path ends in a slash.\<close>

definition IsHidden :: "node \<Rightarrow> bool option" where
  "IsHidden n =
     (case snd (path_Split (Path n)) of [] \<Rightarrow> None | c # _ \<Rightarrow> Some (c = CHR ''_''))"

definition IsPermanent :: "node \<Rightarrow> bool" where
  "IsPermanent n \<longleftrightarrow> ExpireTime n = 0"

definition IsDir :: "node \<Rightarrow> bool" where
  "IsDir n \<longleftrightarrow> Children n \<noteq> None"

definition Read :: "store \<Rightarrow> addr \<Rightarrow> etcd_error + string" where
  "Read s n =
     (if IsDir (smem s n) then Inl (NewError EcodeNotFile [] (CurrentIndex s))
      else Inr (Value (smem s n)))"

definition Write :: "store \<Rightarrow> addr \<Rightarrow> string \<Rightarrow> u64 \<Rightarrow> etcd_error option \<times> store" where
  "Write s n value index =
     (if IsDir (smem s n) then (Some (NewError EcodeNotFile [] (CurrentIndex s)), s)
      else (None, set_node n (\<lambda>x. x\<lparr>Value := value, ModifiedIndex := index\<rparr>) s))"

definition Second :: int where "Second = 1000000000"

text \<open>\<open>Time.Sub\<close> saturates at the bounds of \<open>int64\<close>; Go's \<open>/\<close> and \<open>%\<close> truncate.\<close>

definition time_Sub :: "time \<Rightarrow> time \<Rightarrow> int" where
  "time_Sub t u = max (- (2 ^ 63)) (min (2 ^ 63 - 1) (t - u))"

definition ttl_seconds :: "int \<Rightarrow> int" where
  "ttl_seconds ttlN =
     (let ttl = sgn ttlN * (\<bar>ttlN\<bar> div Second)
      in if sgn ttlN * (\<bar>ttlN\<bar> mod Second) > 0 then ttl + 1 else ttl)"

definition ExpirationAndTTL :: "memory \<Rightarrow> time \<Rightarrow> addr \<Rightarrow> addr option \<times> int" where
  "ExpirationAndTTL m now n =
     (if \<not> IsPermanent (m n) then (Some n, ttl_seconds (time_Sub (ExpireTime (m n)) now))
      else (None, 0))"

definition node_List :: "store \<Rightarrow> addr \<Rightarrow> etcd_error + addr list" where
  "node_List s n =
     (case Children (smem s n) of
        None \<Rightarrow> Inl (NewError EcodeNotDir [] (CurrentIndex s))
      | Some ch \<Rightarrow> Inr (map snd ch))"

text \<open>Reading a map that may be nil.\<close>

definition child :: "memory \<Rightarrow> addr \<Rightarrow> string \<Rightarrow> addr option" where
  "child m n name = (case Children (m n) of None \<Rightarrow> None | Some ch \<Rightarrow> map_of ch name)"

definition GetChild :: "store \<Rightarrow> addr \<Rightarrow> string \<Rightarrow> etcd_error + addr option" where
  "GetChild s n name =
     (if \<not> IsDir (smem s n) then Inl (NewError EcodeNotDir (Path (smem s n)) (CurrentIndex s))
      else Inr (child (smem s) n name))"

text \<open>Writing to a nil map panics.\<close>

definition put_child :: "addr \<Rightarrow> string \<Rightarrow> addr \<Rightarrow> store \<Rightarrow> store option" where
  "put_child n name c s =
     (case Children (smem s n) of
        None \<Rightarrow> None
      | Some ch \<Rightarrow> Some (set_node n (\<lambda>x. x\<lparr>Children := Some (AList.update name c ch)\<rparr>) s))"

definition delete_child :: "addr \<Rightarrow> string \<Rightarrow> store \<Rightarrow> store" where
  "delete_child n name s =
     set_node n (\<lambda>x. x\<lparr>Children := map_option (AList.delete name) (Children x)\<rparr>) s"

definition Add :: "store \<Rightarrow> addr \<Rightarrow> addr \<Rightarrow> (etcd_error option \<times> store) option" where
  "Add s n c =
     (if \<not> IsDir (smem s n) then Some (Some (NewError EcodeNotDir [] (CurrentIndex s)), s)
      else
        let name = snd (path_Split (Path (smem s c)))
        in if child (smem s) n name \<noteq> None
           then Some (Some (NewError EcodeNodeExist [] (CurrentIndex s)), s)
           else map_option (Pair None) (put_child n name c s))"

section \<open>Remove\<close>

text \<open>The \<open>callback\<close> closures of the callers act on the watcher hub only; \<open>nil\<close> is \<open>None\<close>.\<close>

type_synonym callback = "(string \<Rightarrow> watcherHub \<Rightarrow> watcherHub option) option"

definition call :: "callback \<Rightarrow> string \<Rightarrow> store \<Rightarrow> store option" where
  "call callback path s =
     (case callback of
        None \<Rightarrow> Some s
      | Some f \<Rightarrow> map_option (\<lambda>hub. s\<lparr>WatcherHub := hub\<rparr>) (f path (WatcherHub s)))"

text \<open>The test \<open>n.Parent != nil && n.Parent.Children[name] == n\<close>.\<close>

definition linked :: "memory \<Rightarrow> addr \<Rightarrow> bool" where
  "linked m n =
     (case Parent (m n) of
        None \<Rightarrow> False
      | Some p \<Rightarrow> child m p (snd (path_Split (Path (m n)))) = Some n)"

definition unlink_node :: "addr \<Rightarrow> store \<Rightarrow> store" where
  "unlink_node n s =
     (case Parent (smem s n) of
        None \<Rightarrow> s
      | Some p \<Rightarrow> delete_child p (snd (path_Split (Path (smem s n)))) s)"

text \<open>The end of both branches: the callback, then \<open>ttlKeyHeap.remove\<close>.\<close>

definition finish_Remove :: "callback \<Rightarrow> addr \<Rightarrow> store \<Rightarrow> store option" where
  "finish_Remove callback n s =
     (case call callback (Path (smem s n)) s of
        None \<Rightarrow> None
      | Some s1 \<Rightarrow>
          if \<not> IsPermanent (smem s1 n) then
            map_option (\<lambda>h. s1\<lparr>TtlKeyHeap := h\<rparr>) (ttl_remove (smem s1) (TtlKeyHeap s1) n)
          else Some s1)"

fun for_each :: "('a \<Rightarrow> 's \<Rightarrow> 's option) \<Rightarrow> 'a list \<Rightarrow> 's \<Rightarrow> 's option" where
  "for_each f [] s = Some s"
| "for_each f (x # xs) s = (case f x s of None \<Rightarrow> None | Some s1 \<Rightarrow> for_each f xs s1)"

text \<open>
  The code ranges over the map while the calls delete the entry they are at, so the range
  visits the entries the map had at the start.
\<close>

primrec Remove ::
    "nat \<Rightarrow> callback \<Rightarrow> addr \<Rightarrow> bool \<Rightarrow> bool \<Rightarrow> store \<Rightarrow> (etcd_error option \<times> store) option" where
  "Remove 0 callback n dir recu s = None"
| "Remove (Suc fuel) callback n dir recu s =
     (case Children (smem s n) of
        None \<Rightarrow>
          map_option (Pair None)
            (finish_Remove callback n (if linked (smem s) n then unlink_node n s else s))
      | Some ch \<Rightarrow>
          if \<not> dir then Some (Some (NewError EcodeNotFile (Path (smem s n)) (CurrentIndex s)), s)
          else if ch \<noteq> [] \<and> \<not> recu then
            Some (Some (NewError EcodeDirNotEmpty (Path (smem s n)) (CurrentIndex s)), s)
          else
            (case for_each (\<lambda>c s1. map_option snd (Remove fuel callback c True True s1)) (map snd ch) s of
               None \<Rightarrow> None
             | Some s1 \<Rightarrow>
                 if linked (smem s1) n
                 then map_option (Pair None) (finish_Remove callback n (unlink_node n s1))
                 else Some (None, s1)))"

section \<open>The external representation\<close>

fun visible :: "memory \<Rightarrow> addr list \<Rightarrow> addr list option" where
  "visible m [] = Some []"
| "visible m (c # cs) =
     (case IsHidden (m c) of
        None \<Rightarrow> None
      | Some h \<Rightarrow> map_option (\<lambda>vs. if h then vs else c # vs) (visible m cs))"

primrec Repr :: "nat \<Rightarrow> memory \<Rightarrow> time \<Rightarrow> bool \<Rightarrow> bool \<Rightarrow> addr \<Rightarrow> NodeExtern option" where
  "Repr 0 m now recu srt n = None"
| "Repr (Suc fuel) m now recu srt n =
     (let x = m n; (exp, ttl) = ExpirationAndTTL m now n in
      case Children x of
        None \<Rightarrow>
          Some (NodeExtern (Path x) (Some (Value x)) False exp ttl [] (ModifiedIndex x) (CreatedIndex x))
      | Some ch \<Rightarrow>
          if \<not> recu then
            Some (NodeExtern (Path x) None True exp ttl [] (ModifiedIndex x) (CreatedIndex x))
          else
            (case visible m (map snd ch) of
               None \<Rightarrow> None
             | Some vs \<Rightarrow>
                 map_option
                   (\<lambda>ns. NodeExtern (Path x) None True exp ttl
                      (if srt then sort_NodeExterns ns else ns) (ModifiedIndex x) (CreatedIndex x))
                   (those (map (Repr fuel m now recu srt) vs))))"

definition loadInternalNode ::
    "store \<Rightarrow> time \<Rightarrow> addr \<Rightarrow> bool \<Rightarrow> bool \<Rightarrow> NodeExtern \<Rightarrow> NodeExtern option" where
  "loadInternalNode s now n recu srt e =
     (case Children (smem s n) of
        Some ch \<Rightarrow>
          (case visible (smem s) (map snd ch) of
             None \<Rightarrow> None
           | Some vs \<Rightarrow>
               map_option
                 (\<lambda>ns. set_Expiration (ExpirationAndTTL (smem s) now n)
                    (set_Nodes (if srt then sort_NodeExterns ns else ns) (set_EDir e)))
                 (those (map (Repr (Suc (snext s)) (smem s) now recu srt) vs)))
      | None \<Rightarrow>
          Some (set_Expiration (ExpirationAndTTL (smem s) now n)
            (set_EValue (case Read s n of Inl _ \<Rightarrow> [] | Inr v \<Rightarrow> v) e)))"

section \<open>TTL, comparison, copy and recovery\<close>

definition UpdateTTL :: "addr \<Rightarrow> time \<Rightarrow> store \<Rightarrow> store option" where
  "UpdateTTL n expireTime s =
     (let s1 = set_node n (\<lambda>x. x\<lparr>ExpireTime := expireTime\<rparr>) s;
          with_heap = map_option (\<lambda>h. s1\<lparr>TtlKeyHeap := h\<rparr>)
      in if \<not> IsPermanent (smem s n) then
           if expireTime = 0 then with_heap (ttl_remove (smem s1) (TtlKeyHeap s1) n)
           else with_heap (ttl_update (smem s1) (TtlKeyHeap s1) n)
         else if expireTime \<noteq> 0 then with_heap (Some (ttl_push (smem s1) (TtlKeyHeap s1) n))
         else Some s)"

definition CompareMatch :: int where "CompareMatch = 0"
definition CompareIndexNotMatch :: int where "CompareIndexNotMatch = 1"
definition CompareValueNotMatch :: int where "CompareValueNotMatch = 2"
definition CompareNotMatch :: int where "CompareNotMatch = 3"

definition Compare :: "node \<Rightarrow> string \<Rightarrow> u64 \<Rightarrow> bool \<times> int" where
  "Compare n prevValue prevIndex =
     (let indexMatch = (prevIndex = 0 \<or> ModifiedIndex n = prevIndex);
          valueMatch = (prevValue = [] \<or> Value n = prevValue)
      in (valueMatch \<and> indexMatch,
          if valueMatch \<and> indexMatch then CompareMatch
          else if indexMatch \<and> \<not> valueMatch then CompareValueNotMatch
          else if valueMatch \<and> \<not> indexMatch then CompareIndexNotMatch
          else CompareNotMatch))"

text \<open>Copies keep the creation index only, for both indices.\<close>

primrec Clone :: "nat \<Rightarrow> addr \<Rightarrow> store \<Rightarrow> (addr \<times> store) option" where
  "Clone 0 n s = None"
| "Clone (Suc fuel) n s =
     (let x = smem s n in
      case Children x of
        None \<Rightarrow>
          Some (alloc (newKV (Path x) (Value x) (CreatedIndex x) (Parent x) (ACL x) (ExpireTime x)) s)
      | Some ch \<Rightarrow>
          let (c, s1) = alloc (newDir (Path x) (CreatedIndex x) (Parent x) (ACL x) (ExpireTime x)) s
          in map_option (Pair c)
               (for_each
                  (\<lambda>(key, n') s2.
                     case Clone fuel n' s2 of
                       None \<Rightarrow> None
                     | Some (c', s3) \<Rightarrow> put_child c key c' s3)
                  ch s1))"

primrec recoverAndclean :: "nat \<Rightarrow> addr \<Rightarrow> store \<Rightarrow> store option" where
  "recoverAndclean 0 n s = None"
| "recoverAndclean (Suc fuel) n s =
     map_option
       (\<lambda>s1. if ExpireTime (smem s1 n) \<noteq> 0
             then s1\<lparr>TtlKeyHeap := ttl_push (smem s1) (TtlKeyHeap s1) n\<rparr> else s1)
       (case Children (smem s n) of
          None \<Rightarrow> Some s
        | Some ch \<Rightarrow>
            for_each
              (\<lambda>c s1. recoverAndclean fuel c (set_node c (\<lambda>x. x\<lparr>Parent := Some n\<rparr>) s1))
              (map snd ch) s)"

end
