(* ===== verification/EtcdTree.thy ===== *)
theory EtcdTree
  imports EtcdNode
begin

text \<open>
  The tree of nodes: the node at a path, the invariant that the nodes reachable from the root
  form a tree, the abstract view of the tree as a map from paths to entries, and the
  specification of \<open>Remove\<close>, \<open>Repr\<close> and \<open>UpdateTTL\<close> over them.
\<close>

section \<open>The node at a path\<close>

fun lookup :: "memory \<Rightarrow> addr \<Rightarrow> string list \<Rightarrow> addr option" where
  "lookup m a [] = Some a"
| "lookup m a (c # cs) = (case child m a c of None \<Rightarrow> None | Some b \<Rightarrow> lookup m b cs)"

lemma lookup_append:
  "lookup m a (cs @ ds) = (case lookup m a cs of None \<Rightarrow> None | Some b \<Rightarrow> lookup m b ds)"
  by (induction cs arbitrary: a) (auto split: option.splits)

lemma lookup_snoc:
  "lookup m a (cs @ [c]) = (case lookup m a cs of None \<Rightarrow> None | Some b \<Rightarrow> child m b c)"
  by (auto simp: lookup_append split: option.splits)

lemma lookup_cong: "(\<And>x. Children (m' x) = Children (m x)) \<Longrightarrow> lookup m' a cs = lookup m a cs"
  by (induction cs arbitrary: a) (simp_all add: child_def split: option.splits)

definition tree_ok :: "memory \<Rightarrow> addr \<Rightarrow> addr \<Rightarrow> bool" where
  "tree_ok m nxt root \<longleftrightarrow>
     Children (m root) \<noteq> None \<and> Parent (m root) = None \<and> ExpireTime (m root) = 0 \<and>
     (\<forall>cs a. lookup m root cs = Some a \<longrightarrow>
        valid_names cs \<and> a < nxt \<and> Path (m a) = render cs \<and>
        (\<forall>ch. Children (m a) = Some ch \<longrightarrow> distinct (map fst ch)) \<and>
        (\<forall>c b. child m a c = Some b \<longrightarrow> a < b \<and> Parent (m b) = Some a))"

lemma tree_okD:
  assumes "tree_ok m nxt root" and "lookup m root cs = Some a"
  shows "valid_names cs" "a < nxt" "Path (m a) = render cs"
    "Children (m a) = Some ch \<Longrightarrow> distinct (map fst ch)"
    "child m a c = Some b \<Longrightarrow> a < b" "child m a c = Some b \<Longrightarrow> Parent (m b) = Some a"
  using assms unfolding tree_ok_def by blast+

lemma tree_ok_root:
  assumes "tree_ok m nxt root"
  shows "Children (m root) \<noteq> None" "Parent (m root) = None" "ExpireTime (m root) = 0"
  using assms unfolding tree_ok_def by blast+

lemma lookup_unique:
  assumes "tree_ok m nxt root" "lookup m root cs = Some a" "lookup m root ds = Some a"
  shows "cs = ds"
  using tree_okD(1,3) [OF assms(1,2)] tree_okD(1,3) [OF assms(1,3)] render_inj by metis

lemma lookup_prefix:
  assumes "lookup m root (cs @ ds) = Some b"
  obtains a where "lookup m root cs = Some a" "lookup m a ds = Some b"
  using assms by (auto simp: lookup_append split: option.splits)

lemma lookup_prefix_None: "lookup m root cs = None \<Longrightarrow> prefix cs ds \<Longrightarrow> lookup m root ds = None"
  by (auto simp: prefix_def lookup_append)

lemma child_in: "child m a c = Some b \<Longrightarrow> \<exists>ch. Children (m a) = Some ch \<and> (c, b) \<in> set ch"
  by (auto simp: child_def split: option.splits dest: map_of_SomeD)

lemma child_of_in:
  "Children (m a) = Some ch \<Longrightarrow> distinct (map fst ch) \<Longrightarrow> (c, b) \<in> set ch \<Longrightarrow> child m a c = Some b"
  by (simp add: child_def)

lemma lookup_child:
  "lookup m root cs = Some a \<Longrightarrow> lookup m root (cs @ [c]) = child m a c"
  by (simp add: lookup_snoc)

text \<open>Changing one entry of one node's child map.\<close>

lemma lookup_change:
  assumes ok: "tree_ok m nxt root" and a: "lookup m root cs = Some a"
    and other: "\<And>x xs d. lookup m root xs = Some x \<Longrightarrow> x \<noteq> a \<or> d \<noteq> c \<Longrightarrow> child m' x d = child m x d"
  shows "\<not> prefix (cs @ [c]) ds \<Longrightarrow> lookup m' root ds = lookup m root ds"
proof (induction ds rule: rev_induct)
  case (snoc d ds)
  have IH: "lookup m' root ds = lookup m root ds" using snoc by (simp add: prefix_snoc)
  show ?case
  proof (cases "lookup m root ds")
    case (Some x)
    have "x \<noteq> a \<or> d \<noteq> c" using lookup_unique [OF ok a, of ds] Some snoc.prems by auto
    then show ?thesis using other [OF Some] IH Some by (simp add: lookup_snoc)
  qed (simp add: IH lookup_snoc)
qed simp

lemma lookup_delete:
  assumes ok: "tree_ok m nxt root" and a: "lookup m root cs = Some a"
    and other: "\<And>x xs d. lookup m root xs = Some x \<Longrightarrow> x \<noteq> a \<or> d \<noteq> c \<Longrightarrow> child m' x d = child m x d"
    and del: "child m' a c = None"
  shows "lookup m' root ds = (if prefix (cs @ [c]) ds then None else lookup m root ds)"
proof -
  have change: "lookup m' root es = lookup m root es" if "\<not> prefix (cs @ [c]) es" for es
    using ok a other that by (rule lookup_change)
  have "lookup m' root (cs @ [c]) = None"
    using change [of cs] a del by (simp add: lookup_snoc)
  then show ?thesis using change [of ds] lookup_prefix_None by auto
qed

lemma lookup_insert:
  assumes ok: "tree_ok m nxt root" and a: "lookup m root cs = Some a"
    and other: "\<And>x xs d. lookup m root xs = Some x \<Longrightarrow> x \<noteq> a \<or> d \<noteq> c \<Longrightarrow> child m' x d = child m x d"
    and new: "child m' a c = Some n" and leaf: "\<And>d. child m' n d = None"
  shows "lookup m' root ds =
    (if ds = cs @ [c] then Some n else if prefix (cs @ [c]) ds then None else lookup m root ds)"
proof -
  have change: "lookup m' root es = lookup m root es" if "\<not> prefix (cs @ [c]) es" for es
    using ok a other that by (rule lookup_change)
  have n: "lookup m' root (cs @ [c]) = Some n"
    using change [of cs] a new by (simp add: lookup_snoc)
  have "lookup m' root ds = None" if "prefix (cs @ [c]) ds" "ds \<noteq> cs @ [c]"
  proof -
    from that obtain fs where "ds = (cs @ [c]) @ fs" "fs \<noteq> []" by (auto simp: prefix_def)
    moreover from this(2) obtain e es where "fs = e # es" by (cases fs) auto
    ultimately show ?thesis using n leaf by (simp only: lookup_append) simp
  qed
  then show ?thesis using n change [of ds] by auto
qed

text \<open>A memory whose tree is a part of an old one is a tree.\<close>

lemma tree_ok_sub:
  assumes ok: "tree_ok m nxt root" and nxt: "nxt \<le> nxt'"
    and sub: "\<And>cs a. lookup m' root cs = Some a \<Longrightarrow> lookup m root cs = Some a"
    and same: "\<And>cs a. lookup m' root cs = Some a \<Longrightarrow> Path (m' a) = Path (m a) \<and> Parent (m' a) = Parent (m a)"
    and dist: "\<And>cs a ch. lookup m' root cs = Some a \<Longrightarrow> Children (m' a) = Some ch \<Longrightarrow> distinct (map fst ch)"
    and root: "Children (m' root) \<noteq> None" "ExpireTime (m' root) = 0"
  shows "tree_ok m' nxt' root"
  unfolding tree_ok_def
proof (intro conjI allI impI root)
  show "Parent (m' root) = None" using same [of "[]" root] tree_ok_root(2) [OF ok] by simp
next
  fix cs a assume a': "lookup m' root cs = Some a"
  note a = sub [OF a']
  show "valid_names cs" "a < nxt'" "Path (m' a) = render cs"
    using tree_okD(1-3) [OF ok a] same [OF a'] nxt by auto
  fix ch assume "Children (m' a) = Some ch"
  then show "distinct (map fst ch)" by (rule dist [OF a'])
next
  fix cs a c b assume a': "lookup m' root cs = Some a" and "child m' a c = Some b"
  then have b': "lookup m' root (cs @ [c]) = Some b" by (simp add: lookup_snoc)
  have "child m a c = Some b" using sub [OF b'] sub [OF a'] by (simp add: lookup_snoc)
  then show "a < b" "Parent (m' b) = Some a"
    using tree_okD(5,6) [OF ok sub [OF a']] same [OF b'] by auto
qed

lemma tree_ok_fields:
  assumes ok: "tree_ok m nxt root"
    and "\<And>x. Children (m' x) = Children (m x)" "\<And>x. Path (m' x) = Path (m x)"
      "\<And>x. Parent (m' x) = Parent (m x)" "ExpireTime (m' root) = 0"
  shows "tree_ok m' nxt root"
  using tree_ok_sub [OF ok order.refl, of m'] assms lookup_cong [of m' m] tree_ok_root [OF ok]
    tree_okD(4) [OF ok] by auto

text \<open>Adding a fresh leaf under a directory.\<close>

lemma tree_ok_insert:
  assumes ok: "tree_ok m nxt root" and a: "lookup m root cs = Some a"
    and look: "\<And>ds. lookup m' root ds =
      (if ds = cs @ [c] then Some nxt else if prefix (cs @ [c]) ds then None else lookup m root ds)"
    and same: "\<And>x. x < nxt \<Longrightarrow> Path (m' x) = Path (m x) \<and> Parent (m' x) = Parent (m x)"
    and dist: "\<And>x ch. x < nxt \<Longrightarrow> Children (m' x) = Some ch \<Longrightarrow> (\<And>ch'. Children (m x) = Some ch' \<Longrightarrow> distinct (map fst ch')) \<Longrightarrow> distinct (map fst ch)"
    and n: "Path (m' nxt) = render (cs @ [c])" "Parent (m' nxt) = Some a" "Children (m' nxt) \<in> {None, Some []}"
    and c: "valid_name c" and root: "Children (m' root) \<noteq> None" "ExpireTime (m' root) = 0"
  shows "tree_ok m' (nxt + 1) root"
  unfolding tree_ok_def
proof (intro conjI allI impI root)
  have r: "root < nxt" using tree_okD(2) [OF ok, of "[]"] by simp
  show "Parent (m' root) = None" using same [OF r] tree_ok_root(2) [OF ok] by simp
next
  fix ds x assume x: "lookup m' root ds = Some x"
  have cases: "(ds = cs @ [c] \<and> x = nxt) \<or> (ds \<noteq> cs @ [c] \<and> lookup m root ds = Some x \<and> x < nxt)"
    using x look [of ds] tree_okD(2) [OF ok, of ds] by (auto split: if_splits)
  show "valid_names ds" "x < nxt + 1" "Path (m' x) = render ds"
    using cases tree_okD(1-3) [OF ok, of ds x] tree_okD(1) [OF ok a] c n(1) same [of x] by auto
  fix ch assume ch: "Children (m' x) = Some ch"
  show "distinct (map fst ch)"
  proof (cases "x = nxt")
    case True
    then show ?thesis using n(3) ch by auto
  next
    case False
    then show ?thesis using cases dist [OF _ ch] tree_okD(4) [OF ok] by blast
  qed
next
  fix ds x d b assume x: "lookup m' root ds = Some x" and b: "child m' x d = Some b"
  then have b': "lookup m' root (ds @ [d]) = Some b" by (simp add: lookup_snoc)
  have ne: "x \<noteq> nxt" using b n(3) by (auto simp: child_def)
  have x': "lookup m root ds = Some x" using x look [of ds] ne by (auto split: if_splits)
  have "x < b \<and> Parent (m' b) = Some x"
  proof (cases "ds @ [d] = cs @ [c]")
    case True
    then have "b = nxt" "x = a" using b' look [of "ds @ [d]"] x' a by auto
    then show ?thesis using n(2) tree_okD(2) [OF ok a] by simp
  next
    case False
    then have bl: "lookup m root (ds @ [d]) = Some b" using b' look [of "ds @ [d]"] by (auto split: if_splits)
    then have "child m x d = Some b" using x' by (simp add: lookup_snoc)
    then show ?thesis using tree_okD(5,6) [OF ok x'] same [OF tree_okD(2) [OF ok bl]] by auto
  qed
  then show "x < b" "Parent (m' b) = Some x" by simp_all
qed

section \<open>The abstract view\<close>

text \<open>What a client sees at a path: a file with its value or a directory, and its attributes.\<close>

datatype content = FileC string | DirC

record entry =
  content :: content
  created :: u64
  modified :: u64
  expires :: time

type_synonym tree_view = "string list \<Rightarrow> entry option"

definition entry_of :: "node \<Rightarrow> entry" where
  "entry_of n =
     \<lparr>content = (case Children n of None \<Rightarrow> FileC (Value n) | Some _ \<Rightarrow> DirC),
      created = CreatedIndex n, modified = ModifiedIndex n, expires = ExpireTime n\<rparr>"

definition tree_view :: "memory \<Rightarrow> addr \<Rightarrow> tree_view" where
  "tree_view m root cs = map_option (\<lambda>a. entry_of (m a)) (lookup m root cs)"

definition is_file :: "tree_view \<Rightarrow> string list \<Rightarrow> bool" where
  "is_file v cs \<longleftrightarrow> (\<exists>x w. v cs = Some x \<and> content x = FileC w)"

lemma content_entry_of:
  "content (entry_of n) = DirC \<longleftrightarrow> IsDir n"
  "content (entry_of n) = FileC v \<longleftrightarrow> \<not> IsDir n \<and> Value n = v"
  by (auto simp: entry_of_def IsDir_def split: option.splits)

lemma entry_of_fields [simp]:
  "created (entry_of n) = CreatedIndex n" "modified (entry_of n) = ModifiedIndex n"
  "expires (entry_of n) = ExpireTime n"
  by (simp_all add: entry_of_def)


section \<open>Removing a subtree\<close>

text \<open>The nodes that expire; the heap holds them all, but for the set \<open>X\<close>.\<close>

definition ttl_nodes :: "memory \<Rightarrow> addr \<Rightarrow> addr set" where
  "ttl_nodes m root = {a. \<exists>cs. lookup m root cs = Some a \<and> ExpireTime (m a) \<noteq> 0}"

definition core_inv :: "addr set \<Rightarrow> store \<Rightarrow> bool" where
  "core_inv X s \<longleftrightarrow>
     tree_ok (smem s) (snext s) (Root s) \<and> ttl_ok (smem s) (TtlKeyHeap s) \<and>
     set (array (TtlKeyHeap s)) = ttl_nodes (smem s) (Root s) - X"

lemma core_invD:
  assumes "core_inv X s"
  shows "tree_ok (smem s) (snext s) (Root s)" "ttl_ok (smem s) (TtlKeyHeap s)"
    "set (array (TtlKeyHeap s)) = ttl_nodes (smem s) (Root s) - X"
  using assms by (simp_all add: core_inv_def)

abbreviation look :: "store \<Rightarrow> string list \<Rightarrow> addr option" where
  "look s cs \<equiv> lookup (smem s) (Root s) cs"

text \<open>Two memories that differ in the entries of child maps only.\<close>

definition same_attrs :: "memory \<Rightarrow> memory \<Rightarrow> bool" where
  "same_attrs m m' \<longleftrightarrow>
     (\<forall>x. Path (m' x) = Path (m x) \<and> CreatedIndex (m' x) = CreatedIndex (m x) \<and>
        ModifiedIndex (m' x) = ModifiedIndex (m x) \<and> Parent (m' x) = Parent (m x) \<and>
        ExpireTime (m' x) = ExpireTime (m x) \<and> ACL (m' x) = ACL (m x) \<and>
        Value (m' x) = Value (m x) \<and> (Children (m' x) = None \<longleftrightarrow> Children (m x) = None))"

lemma same_attrs_refl [simp]: "same_attrs m m"
  by (simp add: same_attrs_def)

lemma same_attrs_trans: "same_attrs m m' \<Longrightarrow> same_attrs m' m'' \<Longrightarrow> same_attrs m m''"
  by (simp add: same_attrs_def)

lemma same_attrsD:
  assumes "same_attrs m m'"
  shows "Path (m' x) = Path (m x)" "Parent (m' x) = Parent (m x)" "ExpireTime (m' x) = ExpireTime (m x)"
    "Children (m' x) = None \<longleftrightarrow> Children (m x) = None" "entry_of (m' x) = entry_of (m x)"
proof -
  have *: "Path (m' x) = Path (m x) \<and> CreatedIndex (m' x) = CreatedIndex (m x) \<and>
        ModifiedIndex (m' x) = ModifiedIndex (m x) \<and> Parent (m' x) = Parent (m x) \<and>
        ExpireTime (m' x) = ExpireTime (m x) \<and> Value (m' x) = Value (m x) \<and>
        (Children (m' x) = None \<longleftrightarrow> Children (m x) = None)"
    using assms by (simp add: same_attrs_def)
  show "Path (m' x) = Path (m x)" "Parent (m' x) = Parent (m x)" "ExpireTime (m' x) = ExpireTime (m x)"
    "Children (m' x) = None \<longleftrightarrow> Children (m x) = None" using * by blast+
  show "entry_of (m' x) = entry_of (m x)"
    using * by (cases "Children (m x)"; cases "Children (m' x)") (simp_all add: entry_of_def)
qed

definition rm_frame :: "store \<Rightarrow> store \<Rightarrow> bool" where
  "rm_frame s s' \<longleftrightarrow>
     same_attrs (smem s) (smem s') \<and> snext s' = snext s \<and> Root s' = Root s \<and>
     CurrentIndex s' = CurrentIndex s \<and> Stats s' = Stats s \<and> CurrentVersion s' = CurrentVersion s"

lemma rm_frameD:
  assumes "rm_frame s s'"
  shows "same_attrs (smem s) (smem s')" "snext s' = snext s" "Root s' = Root s"
    "CurrentIndex s' = CurrentIndex s" "Stats s' = Stats s" "CurrentVersion s' = CurrentVersion s"
  using assms by (simp_all add: rm_frame_def)

lemma rm_frame_refl [simp]: "rm_frame s s"
  by (simp add: rm_frame_def)

lemma rm_frame_trans: "rm_frame s s' \<Longrightarrow> rm_frame s' s'' \<Longrightarrow> rm_frame s s''"
  by (auto simp: rm_frame_def intro: same_attrs_trans)

text \<open>The callbacks of a removal, in the order of the calls.\<close>

definition run_cb :: "callback \<Rightarrow> string list \<Rightarrow> watcherHub \<Rightarrow> watcherHub option" where
  "run_cb cb ps hub = (case cb of None \<Rightarrow> Some hub | Some f \<Rightarrow> for_each f ps hub)"

lemma for_each_append:
  "for_each f (xs @ ys) s = (case for_each f xs s of None \<Rightarrow> None | Some s1 \<Rightarrow> for_each f ys s1)"
  by (induction xs arbitrary: s) (auto split: option.splits)

lemma run_cb_append:
  "run_cb cb (ps @ qs) hub = (case run_cb cb ps hub of None \<Rightarrow> None | Some hub1 \<Rightarrow> run_cb cb qs hub1)"
  by (auto simp: run_cb_def for_each_append split: option.splits)

lemma run_cb_Nil [simp]: "run_cb cb [] hub = Some hub"
  by (simp add: run_cb_def split: option.splits)

lemma call_run: "call cb p s = map_option (\<lambda>hub. s\<lparr>WatcherHub := hub\<rparr>) (run_cb cb [p] (WatcherHub s))"
  by (auto simp: call_def run_cb_def split: option.splits)

definition cb_ok :: "callback \<Rightarrow> (watcherHub \<Rightarrow> bool) \<Rightarrow> bool" where
  "cb_ok cb P \<longleftrightarrow> (\<forall>p hub. P hub \<longrightarrow> (\<exists>hub'. run_cb cb [p] hub = Some hub' \<and> P hub'))"

lemma delete_child_attrs: "same_attrs (smem s) (smem (delete_child a c s))"
  by (auto simp: same_attrs_def delete_child_def set_node_def)

lemma child_delete_child:
  "child (smem (delete_child a c s)) x d = (if x = a \<and> d = c then None else child (smem s) x d)"
  by (auto simp: child_def delete_child_def set_node_def map_of_delete_eq split: option.splits)

text \<open>Removing a leaf.\<close>

lemma remove_leaf:
  assumes inv: "core_inv X s" and n: "look s (cs @ [c]) = Some n"
    and leaf: "\<And>d. child (smem s) n d = None" and cb: "cb_ok cb P" "P (WatcherHub s)"
  shows "linked (smem s) n \<and>
    (\<exists>s'. finish_Remove cb n (unlink_node n s) = Some s' \<and> core_inv X s' \<and> rm_frame s s' \<and>
      (\<forall>ds. look s' ds = (if prefix (cs @ [c]) ds then None else look s ds)) \<and>
      P (WatcherHub s') \<and> run_cb cb [render (cs @ [c])] (WatcherHub s) = Some (WatcherHub s'))"
proof -
  note ok = core_invD(1) [OF inv]
  from n obtain a where a: "look s cs = Some a" and ac: "child (smem s) a c = Some n"
    by (auto simp: lookup_snoc split: option.splits)
  have v: "valid_names cs" "valid_name c" and p: "Path (smem s n) = render (cs @ [c])"
    using tree_okD(1,3) [OF ok n] by simp_all
  have par: "Parent (smem s n) = Some a" using tree_okD(6) [OF ok a ac] .
  have name: "snd (path_Split (Path (smem s n))) = c" using v p by (simp add: path_Split_render)
  have linked: "linked (smem s) n" using par name ac by (simp add: linked_def)
  let ?s = "delete_child a c s"
  have u: "unlink_node n s = ?s" using par name by (simp add: unlink_node_def)
  have attrs: "same_attrs (smem s) (smem ?s)" by (rule delete_child_attrs)
  note at = same_attrsD [OF attrs]
  have f: "snext ?s = snext s" "Root ?s = Root s" "WatcherHub ?s = WatcherHub s" "TtlKeyHeap ?s = TtlKeyHeap s"
    by (simp_all add: delete_child_def set_node_def)
  have look: "look ?s ds = (if prefix (cs @ [c]) ds then None else look s ds)" for ds
    unfolding f by (rule lookup_delete [OF ok a]) (auto simp: child_delete_child)
  have tree: "tree_ok (smem ?s) (snext s) (Root s)"
  proof (rule tree_ok_sub [OF ok order.refl])
    fix ds x ch assume x: "lookup (smem ?s) (Root s) ds = Some x" and ch: "Children (smem ?s x) = Some ch"
    then have "look s ds = Some x" using look [of ds] f by (auto split: if_splits)
    then show "distinct (map fst ch)"
      using tree_okD(4) [OF ok] ch
      by (auto simp: delete_child_def set_node_def distinct_fst_delete split: if_splits)
  next
    fix ds x assume "lookup (smem ?s) (Root s) ds = Some x"
    then show "look s ds = Some x" using look [of ds] f by (auto split: if_splits)
  qed (use at tree_ok_root [OF ok] in auto)
  have nodes: "ttl_nodes (smem ?s) (Root s) = ttl_nodes (smem s) (Root s) - {n}"
  proof -
    have "look s ds = Some x \<and> \<not> prefix (cs @ [c]) ds \<longleftrightarrow> look s ds = Some x \<and> x \<noteq> n" for ds x
    proof
      assume "look s ds = Some x \<and> x \<noteq> n"
      moreover have "ds = cs @ [c] \<or> look s ds = None" if pre: "prefix (cs @ [c]) ds"
      proof -
        from pre obtain fs where fs: "ds = (cs @ [c]) @ fs" by (auto simp: prefix_def)
        show ?thesis using n leaf unfolding fs by (cases fs) (simp_all only: lookup_append, simp_all)
      qed
      ultimately show "look s ds = Some x \<and> \<not> prefix (cs @ [c]) ds" using n by auto
    qed (use lookup_unique [OF ok n] in auto)
    then have "look ?s ds = Some x \<longleftrightarrow> look s ds = Some x \<and> x \<noteq> n" for ds x
      using look [of ds] by auto
    then show ?thesis using f at(3) by (auto simp: ttl_nodes_def)
  qed
  obtain hub where hub: "run_cb cb [Path (smem s n)] (WatcherHub s) = Some hub" "P hub"
    using cb by (auto simp: cb_ok_def)
  let ?s1 = "?s\<lparr>WatcherHub := hub\<rparr>"
  have call: "call cb (Path (smem ?s n)) ?s = Some ?s1"
    using hub(1) f at(1) by (simp add: call_run)
  have tok: "ttl_ok (smem ?s) (TtlKeyHeap s)" using core_invD(2) [OF inv] at(3) by (auto intro: ttl_ok_cong)
  have "\<exists>h. finish_Remove cb n ?s = Some (?s1\<lparr>TtlKeyHeap := h\<rparr>) \<and> ttl_ok (smem ?s) h \<and>
      set (array h) = ttl_nodes (smem ?s) (Root s) - X"
  proof (cases "ExpireTime (smem s n) = 0")
    case True
    then have "n \<notin> ttl_nodes (smem s) (Root s)" by (auto simp: ttl_nodes_def)
    moreover have "finish_Remove cb n ?s = Some (?s1\<lparr>TtlKeyHeap := TtlKeyHeap s\<rparr>)"
      using True call at(3) f by (simp add: finish_Remove_def IsPermanent_def)
    ultimately show ?thesis using tok nodes core_invD(3) [OF inv] by auto
  next
    case False
    from ttl_remove_ok [OF tok, of n "smem ?s"] obtain h where
      h: "ttl_remove (smem ?s) (TtlKeyHeap s) n = Some h" "ttl_ok (smem ?s) h"
      "set (array h) = set (array (TtlKeyHeap s)) - {n}" by auto
    have "finish_Remove cb n ?s = Some (?s1\<lparr>TtlKeyHeap := h\<rparr>)"
      using False call at(3) h(1) f by (simp add: finish_Remove_def IsPermanent_def)
    then show ?thesis using h nodes core_invD(3) [OF inv] by auto
  qed
  then obtain h where h: "finish_Remove cb n ?s = Some (?s1\<lparr>TtlKeyHeap := h\<rparr>)" "ttl_ok (smem ?s) h"
    "set (array h) = ttl_nodes (smem ?s) (Root s) - X" by blast
  let ?s2 = "?s1\<lparr>TtlKeyHeap := h\<rparr>"
  have "core_inv X ?s2" using tree h f by (simp add: core_inv_def)
  moreover have "rm_frame s ?s2"
    using attrs by (simp add: rm_frame_def delete_child_def set_node_def)
  ultimately show ?thesis using linked u h(1) look f hub p by auto
qed


text \<open>
  The node at \<open>cs\<close> can be removed when it is a file, when it has no children and \<open>dir\<close> is set,
  or when \<open>dir\<close> and \<open>recursive\<close> are set. Then \<open>Remove\<close> removes the subtree and nothing else,
  and runs the callback once for each of its nodes.
\<close>

definition removed_sub :: "callback \<Rightarrow> (watcherHub \<Rightarrow> bool) \<Rightarrow> addr set \<Rightarrow> (string list \<Rightarrow> bool) \<Rightarrow> store \<Rightarrow> store \<Rightarrow> bool" where
  "removed_sub cb P X R s s' \<longleftrightarrow>
     core_inv X s' \<and> rm_frame s s' \<and> (\<forall>ds. look s' ds = (if R ds then None else look s ds)) \<and>
     P (WatcherHub s') \<and>
     (\<exists>ps. run_cb cb ps (WatcherHub s) = Some (WatcherHub s') \<and> distinct ps \<and>
        set ps = render ` {ds. R ds \<and> look s ds \<noteq> None})"

lemma removed_sub_refl:
  "core_inv X s \<Longrightarrow> P (WatcherHub s) \<Longrightarrow> removed_sub cb P X (\<lambda>_. False) s s"
  unfolding removed_sub_def by (auto intro!: exI [of _ "[]"])

lemma removed_sub_trans:
  assumes inv: "core_inv X s" and 1: "removed_sub cb P X R s s1" and 2: "removed_sub cb P X R' s1 s2"
  shows "removed_sub cb P X (\<lambda>ds. R ds \<or> R' ds) s s2"
proof -
  from 1 obtain ps where ps: "run_cb cb ps (WatcherHub s) = Some (WatcherHub s1)" "distinct ps"
    "set ps = render ` {ds. R ds \<and> look s ds \<noteq> None}" by (auto simp: removed_sub_def)
  from 2 obtain qs where qs: "run_cb cb qs (WatcherHub s1) = Some (WatcherHub s2)" "distinct qs"
    "set qs = render ` {ds. R' ds \<and> look s1 ds \<noteq> None}" by (auto simp: removed_sub_def)
  have l1: "look s1 ds = (if R ds then None else look s ds)" for ds using 1 by (simp add: removed_sub_def)
  have v: "valid_names ds" if "look s ds \<noteq> None" for ds
    using that tree_okD(1) [OF core_invD(1) [OF inv]] by blast
  have "set ps \<inter> set qs = {}"
  proof (rule ccontr)
    assume "set ps \<inter> set qs \<noteq> {}"
    then obtain p where "p \<in> set ps" "p \<in> set qs" by blast
    then obtain ds es where "R ds" "look s ds \<noteq> None" "look s1 es \<noteq> None" "render ds = render es"
      unfolding ps(3) qs(3) by blast
    moreover from this(3) have "\<not> R es" "look s es \<noteq> None" using l1 [of es] by (auto split: if_splits)
    ultimately show False using render_inj [OF v v, of ds es] by blast
  qed
  moreover have "set (ps @ qs) = render ` {ds. (R ds \<or> R' ds) \<and> look s ds \<noteq> None}"
    unfolding set_append ps(3) qs(3) using l1 by (auto split: if_splits)
  moreover have "run_cb cb (ps @ qs) (WatcherHub s) = Some (WatcherHub s2)"
    using ps(1) qs(1) by (simp add: run_cb_append)
  ultimately have cb: "\<exists>ps. run_cb cb ps (WatcherHub s) = Some (WatcherHub s2) \<and> distinct ps \<and>
      set ps = render ` {ds. (R ds \<or> R' ds) \<and> look s ds \<noteq> None}"
    using ps(2) qs(2) by (intro exI [of _ "ps @ qs"]) simp
  have "rm_frame s s2" using 1 2 rm_frame_trans by (auto simp: removed_sub_def)
  moreover have "look s2 ds = (if R ds \<or> R' ds then None else look s ds)" for ds
    using 2 l1 by (auto simp: removed_sub_def)
  ultimately show ?thesis using cb 2 by (simp add: removed_sub_def)
qed

lemma removed_sub_cong:
  assumes "removed_sub cb P X R s s'" and "\<And>ds. look s ds \<noteq> None \<Longrightarrow> R' ds = R ds"
  shows "removed_sub cb P X R' s s'"
proof -
  have "{ds. R' ds \<and> look s ds \<noteq> None} = {ds. R ds \<and> look s ds \<noteq> None}" using assms(2) by auto
  moreover have "(if R' ds then None else look s ds) = (if R ds then None else look s ds)" for ds
    using assms(2) [of ds] by (cases "look s ds") auto
  ultimately show ?thesis using assms(1) by (simp add: removed_sub_def)
qed

lemma remove_children:
  assumes step: "\<And>s c b. core_inv X s \<Longrightarrow> P (WatcherHub s) \<Longrightarrow> snext s = nxt \<Longrightarrow>
      look s cs = Some n \<Longrightarrow> look s (cs @ [c]) = Some b \<Longrightarrow>
      \<exists>s'. f b s = Some s' \<and> removed_sub cb P X (prefix (cs @ [c])) s s'"
  shows "core_inv X s \<Longrightarrow> P (WatcherHub s) \<Longrightarrow> snext s = nxt \<Longrightarrow> look s cs = Some n \<Longrightarrow>
    distinct (map fst ch) \<Longrightarrow> (\<forall>(c, b) \<in> set ch. look s (cs @ [c]) = Some b) \<Longrightarrow>
    \<exists>s'. for_each f (map snd ch) s = Some s' \<and>
      removed_sub cb P X (\<lambda>ds. \<exists>c \<in> fst ` set ch. prefix (cs @ [c]) ds) s s'"
proof (induction ch arbitrary: s)
  case Nil
  then show ?case using removed_sub_refl by auto
next
  case (Cons e ch)
  obtain c b where e: "e = (c, b)" by (cases e)
  from step [OF Cons.prems(1-4), of c b] Cons.prems(6) e obtain s1 where
    s1: "f b s = Some s1" "removed_sub cb P X (prefix (cs @ [c])) s s1" by auto
  have pre: "core_inv X s1" "P (WatcherHub s1)" "snext s1 = nxt" "look s1 cs = Some n"
    using s1(2) Cons.prems(3,4) rm_frameD(2) [of s s1] by (auto simp: removed_sub_def)
  have "look s1 (cs @ [c']) = Some b'" if "(c', b') \<in> set ch" for c' b'
  proof -
    have "c' \<noteq> c" using that Cons.prems(5) e by force
    then show ?thesis using s1(2) Cons.prems(6) that by (auto simp: removed_sub_def)
  qed
  then obtain s2 where s2: "for_each f (map snd ch) s1 = Some s2"
    "removed_sub cb P X (\<lambda>ds. \<exists>c \<in> fst ` set ch. prefix (cs @ [c]) ds) s1 s2"
    using Cons.IH [OF pre] Cons.prems(5) by auto
  have "removed_sub cb P X (\<lambda>ds. \<exists>c \<in> fst ` set (e # ch). prefix (cs @ [c]) ds) s s2"
    by (rule removed_sub_cong [OF removed_sub_trans [OF Cons.prems(1) s1(2) s2(2)]]) (auto simp: e)
  then show ?case using s1(1) s2(1) e by auto
qed

lemma Remove_spec:
  assumes cb: "cb_ok cb P"
  shows "core_inv X s \<Longrightarrow> P (WatcherHub s) \<Longrightarrow> look s cs = Some n \<Longrightarrow> cs \<noteq> [] \<Longrightarrow> snext s \<le> fuel + n \<Longrightarrow>
    Children (smem s n) = None \<or> dir \<and> (recu \<or> Children (smem s n) = Some []) \<Longrightarrow>
    \<exists>s'. Remove fuel cb n dir recu s = Some (None, s') \<and> removed_sub cb P X (prefix cs) s s'"
proof (induction fuel arbitrary: s n cs dir recu)
  case 0
  then show ?case using tree_okD(2) [OF core_invD(1) [OF 0(1)] 0(3)] by simp
next
  case (Suc fuel)
  note inv = Suc.prems(1) and n = Suc.prems(3)
  note ok = core_invD(1) [OF inv]
  obtain ds c where cs: "cs = ds @ [c]" using Suc.prems(4) by (metis rev_exhaust)
  have single: "removed_sub cb P X (prefix cs) s1 s'"
    if "core_inv X s1" "look s1 cs = Some n" "\<And>d. child (smem s1) n d = None"
       "core_inv X s'" "rm_frame s1 s'" "\<forall>es. look s' es = (if prefix (ds @ [c]) es then None else look s1 es)"
       "P (WatcherHub s')" "run_cb cb [render (ds @ [c])] (WatcherHub s1) = Some (WatcherHub s')" for s1 s'
  proof -
    have "{es. prefix cs es \<and> look s1 es \<noteq> None} = {cs}"
    proof -
      have "es = cs" if "prefix cs es" "look s1 es \<noteq> None" for es
      proof -
        from that(1) obtain fs where fs: "es = cs @ fs" by (auto simp: prefix_def)
        show ?thesis using that(2) \<open>look s1 cs = Some n\<close> \<open>\<And>d. child (smem s1) n d = None\<close>
          unfolding fs by (cases fs) (simp_all add: lookup_append)
      qed
      then show ?thesis using that(2) by auto
    qed
    then show ?thesis using that unfolding removed_sub_def cs [symmetric]
      by (intro conjI exI [of _ "[render cs]"]) simp_all
  qed
  show ?case
  proof (cases "Children (smem s n)")
    case None
    have leaf: "child (smem s) n d = None" for d using None by (simp add: child_def)
    from remove_leaf [OF inv n [unfolded cs] leaf cb Suc.prems(2)] obtain s' where
      "linked (smem s) n" "finish_Remove cb n (unlink_node n s) = Some s'" "core_inv X s'" "rm_frame s s'"
      "\<forall>es. look s' es = (if prefix (ds @ [c]) es then None else look s es)"
      "P (WatcherHub s')" "run_cb cb [render (ds @ [c])] (WatcherHub s) = Some (WatcherHub s')" by blast
    then show ?thesis using single [OF inv n leaf] None by simp
  next
    case (Some ch)
    have dist: "distinct (map fst ch)" using tree_okD(4) [OF ok n Some] .
    have look_ch: "\<forall>(c, b) \<in> set ch. look s (cs @ [c]) = Some b"
      using child_of_in [of "smem s" n ch] Some dist n by (auto simp: lookup_snoc)
    define f where "f = (\<lambda>c s1. map_option snd (Remove fuel cb c True True s1))"
    have step: "\<exists>s''. f b s' = Some s'' \<and> removed_sub cb P X (prefix (cs @ [c])) s' s''"
      if s': "core_inv X s'" "P (WatcherHub s')" "snext s' = snext s" "look s' cs = Some n"
        "look s' (cs @ [c]) = Some b" for s' c b
    proof -
      have "n < b" using s'(4,5) tree_okD(5) [OF core_invD(1) [OF s'(1)] s'(4)] by (simp add: lookup_snoc)
      then show ?thesis
        using Suc.IH [OF s'(1,2,5), of True True] s'(3) Suc.prems(5) by (auto simp: f_def)
    qed
    from remove_children [of X P "snext s" cs n f cb, OF step inv Suc.prems(2) refl n dist look_ch]
    obtain s1 where s1: "for_each f (map snd ch) s = Some s1"
      "removed_sub cb P X (\<lambda>ds. \<exists>c \<in> fst ` set ch. prefix (cs @ [c]) ds) s s1" by blast
    have gone: "look s1 (cs @ d # es) = None" for d es
    proof (cases "child (smem s) n d")
      case None
      then have "look s (cs @ d # es) = None" using n by (simp add: lookup_append)
      then show ?thesis using s1(2) by (simp add: removed_sub_def)
    next
      case (Some b)
      then have "d \<in> fst ` set ch" using \<open>Children (smem s n) = Some ch\<close> child_in [of "smem s" n d b] by force
      moreover have "prefix (cs @ [d]) (cs @ d # es)" by simp
      ultimately show ?thesis using s1(2) unfolding removed_sub_def by meson
    qed
    have inv1: "core_inv X s1" "P (WatcherHub s1)" and n1: "look s1 cs = Some n"
      using s1(2) n by (auto simp: removed_sub_def)
    have leaf: "child (smem s1) n d = None" for d
      using gone [of d "[]"] n1 by (simp add: lookup_snoc)
    from remove_leaf [OF inv1(1) n1 [unfolded cs] leaf cb inv1(2)] obtain s' where
      s': "linked (smem s1) n" "finish_Remove cb n (unlink_node n s1) = Some s'" "core_inv X s'" "rm_frame s1 s'"
      "\<forall>es. look s' es = (if prefix (ds @ [c]) es then None else look s1 es)"
      "P (WatcherHub s')" "run_cb cb [render (ds @ [c])] (WatcherHub s1) = Some (WatcherHub s')" by blast
    have "removed_sub cb P X (prefix cs) s1 s'" using single [OF inv1(1) n1 leaf s'(3-7)] .
    from removed_sub_trans [OF inv s1(2) this]
    have "removed_sub cb P X (prefix cs) s s'"
      by (rule removed_sub_cong) (auto dest: append_prefixD)
    moreover have "Remove (Suc fuel) cb n dir recu s = Some (None, s')"
      using Some Suc.prems(6) s1(1) s'(1,2) by (auto simp: f_def)
    ultimately show ?thesis by blast
  qed
qed


section \<open>Updates of one node\<close>

lemma core_inv_update:
  assumes inv: "core_inv {} s" and n: "look s cs = Some n" "cs \<noteq> []"
    and f: "\<And>x. Children (f x) = Children x" "\<And>x. Path (f x) = Path x" "\<And>x. Parent (f x) = Parent x"
  shows "tree_ok ((smem s)(n := f (smem s n))) (snext s) (Root s)"
    "lookup ((smem s)(n := f (smem s n))) (Root s) ds = look s ds"
proof -
  have "n \<noteq> Root s" using lookup_unique [OF core_invD(1) [OF inv] n(1), of "[]"] n(2) by auto
  then show "tree_ok ((smem s)(n := f (smem s n))) (snext s) (Root s)"
    using tree_ok_root(3) [OF core_invD(1) [OF inv]]
    by (intro tree_ok_fields [OF core_invD(1) [OF inv]]) (simp_all add: f)
  show "lookup ((smem s)(n := f (smem s n))) (Root s) ds = look s ds"
    by (rule lookup_cong) (simp add: f)
qed

lemma UpdateTTL_spec:
  assumes inv: "core_inv {} s" and n: "look s cs = Some n" "cs \<noteq> []"
  shows "\<exists>h. UpdateTTL n t s =
      Some (s\<lparr>smem := (smem s)(n := smem s n\<lparr>ExpireTime := t\<rparr>), TtlKeyHeap := h\<rparr>) \<and>
    core_inv {} (s\<lparr>smem := (smem s)(n := smem s n\<lparr>ExpireTime := t\<rparr>), TtlKeyHeap := h\<rparr>)"
proof -
  let ?m = "(smem s)(n := smem s n\<lparr>ExpireTime := t\<rparr>)" and ?h = "TtlKeyHeap s"
  note u = core_inv_update [OF inv n, of "\<lambda>x. x\<lparr>ExpireTime := t\<rparr>"]
  have tree: "tree_ok ?m (snext s) (Root s)" using u(1) by simp
  have nodes: "ttl_nodes ?m (Root s) =
      (if t = 0 then ttl_nodes (smem s) (Root s) - {n} else insert n (ttl_nodes (smem s) (Root s)))"
    using u(2) n(1) by (auto simp: ttl_nodes_def)
  have ok: "ttl_ok (smem s) ?h" and heap: "set (array ?h) = ttl_nodes (smem s) (Root s)"
    using core_invD [OF inv] by simp_all
  have in_heap: "n \<in> set (array ?h) \<longleftrightarrow> ExpireTime (smem s n) \<noteq> 0"
    using heap n(1) by (auto simp: ttl_nodes_def)
  have "\<exists>h. UpdateTTL n t s = Some (s\<lparr>smem := ?m, TtlKeyHeap := h\<rparr>) \<and> ttl_ok ?m h \<and>
      set (array h) = ttl_nodes ?m (Root s)"
  proof (cases "ExpireTime (smem s n) = 0")
    case True
    then have nin: "n \<notin> set (array ?h)" using in_heap by simp
    then have ok': "ttl_ok ?m ?h" by (intro ttl_ok_cong [OF ok]) auto
    show ?thesis
    proof (cases "t = 0")
      case t: True
      have "smem s n\<lparr>ExpireTime := 0\<rparr> = smem s n" using True by simp
      then have "?m = smem s" using t by simp
      then have "s\<lparr>smem := ?m, TtlKeyHeap := ?h\<rparr> = s" by (metis store.surjective store.update_convs(1,8))
      then have "UpdateTTL n t s = Some (s\<lparr>smem := ?m, TtlKeyHeap := ?h\<rparr>)"
        using t True by (simp add: UpdateTTL_def IsPermanent_def Let_def)
      moreover have "set (array ?h) = ttl_nodes ?m (Root s)" using heap nodes t nin by simp
      ultimately show ?thesis using ok' by blast
    next
      case False
      then have "UpdateTTL n t s = Some (s\<lparr>smem := ?m, TtlKeyHeap := ttl_push ?m ?h n\<rparr>)"
        using True by (simp add: UpdateTTL_def IsPermanent_def Let_def set_node_def)
      then show ?thesis using ttl_push_ok [OF ok' nin] heap nodes False by auto
    qed
  next
    case False
    show ?thesis
    proof (cases "t = 0")
      case True
      from ttl_remove_ok [OF ok, of n ?m] obtain h where
        h: "ttl_remove ?m ?h n = Some h" "ttl_ok ?m h" "set (array h) = set (array ?h) - {n}" by auto
      have "UpdateTTL n t s = Some (s\<lparr>smem := ?m, TtlKeyHeap := h\<rparr>)"
        using False True h(1) by (simp add: UpdateTTL_def IsPermanent_def Let_def set_node_def)
      moreover have "set (array h) = ttl_nodes ?m (Root s)" unfolding h(3) heap nodes using True by simp
      ultimately show ?thesis using h(2) by blast
    next
      case t: False
      from ttl_update_ok [OF ok, of n ?m] False in_heap obtain h where
        h: "ttl_update ?m ?h n = Some h" "ttl_ok ?m h" "set (array h) = set (array ?h)" by auto
      have "UpdateTTL n t s = Some (s\<lparr>smem := ?m, TtlKeyHeap := h\<rparr>)"
        using False t h(1) by (simp add: UpdateTTL_def IsPermanent_def Let_def set_node_def)
      moreover have "set (array h) = ttl_nodes ?m (Root s)"
        unfolding h(3) nodes using t heap in_heap False by auto
      ultimately show ?thesis using h(2) by blast
    qed
  qed
  then obtain h where "UpdateTTL n t s = Some (s\<lparr>smem := ?m, TtlKeyHeap := h\<rparr>)" "ttl_ok ?m h"
    "set (array h) = ttl_nodes ?m (Root s)" by blast
  then show ?thesis using tree by (intro exI [of _ h]) (simp add: core_inv_def)
qed

section \<open>The external representation\<close>

definition attrs :: "memory \<Rightarrow> time \<Rightarrow> addr \<Rightarrow> NodeExtern \<Rightarrow> bool" where
  "attrs m now n e \<longleftrightarrow>
     Key e = Path (m n) \<and> EDir e = IsDir (m n) \<and>
     EValue e = (if IsDir (m n) then None else Some (Value (m n))) \<and>
     (Expiration e, ETTL e) = ExpirationAndTTL m now n \<and>
     EModifiedIndex e = ModifiedIndex (m n) \<and> ECreatedIndex e = CreatedIndex (m n)"

definition find_node :: "NodeExtern list \<Rightarrow> string \<Rightarrow> NodeExtern option" where
  "find_node ns k = map_of (map (\<lambda>e. (Key e, e)) ns) k"

text \<open>The node that a list of keys leads to, one level of \<open>Nodes\<close> for each.\<close>

fun ext_lookup :: "NodeExtern \<Rightarrow> string list \<Rightarrow> NodeExtern option" where
  "ext_lookup e [] = Some e"
| "ext_lookup e (k # ks) = (case find_node (Nodes e) k of None \<Rightarrow> None | Some e' \<Rightarrow> ext_lookup e' ks)"

definition hidden_name :: "string \<Rightarrow> bool" where
  "hidden_name c \<longleftrightarrow> hd c = CHR ''_''"

lemma find_node_Some:
  assumes "distinct (map Key ns)"
  shows "find_node ns k = Some e \<longleftrightarrow> e \<in> set ns \<and> Key e = k"
proof -
  have "map fst (map (\<lambda>e. (Key e, e)) ns) = map Key ns" by simp
  then have "distinct (map fst (map (\<lambda>e. (Key e, e)) ns))" using assms by metis
  then show ?thesis by (auto simp: find_node_def)
qed

lemma find_node_sort:
  assumes "distinct (map Key ns)"
  shows "find_node (sort_NodeExterns ns) k = find_node ns k"
proof -
  have "mset (map Key (sort_NodeExterns ns)) = mset (map Key ns)"
    by (simp add: sort_NodeExterns_def)
  then have d: "distinct (map Key (sort_NodeExterns ns))" using assms mset_eq_imp_distinct_iff by blast
  have "find_node (sort_NodeExterns ns) k = Some e \<longleftrightarrow> find_node ns k = Some e" for e
    using find_node_Some [OF assms] find_node_Some [OF d] by (simp add: sort_NodeExterns_def)
  then show ?thesis by (metis not_Some_eq)
qed

lemma IsHidden_path:
  assumes "tree_ok m nxt root" and "lookup m root (cs @ [c]) = Some b"
  shows "IsHidden (m b) = Some (hidden_name c)"
proof -
  have v: "valid_name c" "Path (m b) = render (cs @ [c])" using tree_okD(1,3) [OF assms] by simp_all
  then have "c \<noteq> []" by (simp add: valid_name_def)
  then show ?thesis using v by (cases c) (simp_all add: IsHidden_def path_Split_render hidden_name_def)
qed

lemma visible_spec:
  assumes "\<forall>(c, b) \<in> set ch. IsHidden (m b) = Some (hidden_name c)"
  shows "visible m (map snd ch) = Some (map snd (filter (\<lambda>(c, b). \<not> hidden_name c) ch))"
  using assms by (induction ch) auto

lemma those_map_Some:
  "(\<And>x. x \<in> set xs \<Longrightarrow> f x = Some (g x)) \<Longrightarrow> those (map f xs) = Some (map g xs)"
  by (induction xs) auto

text \<open>The list of the external nodes of a directory's children, hidden ones left out.\<close>

lemma children_repr:
  assumes ok: "tree_ok m nxt root" and n: "lookup m root cs = Some n" and ch: "Children (m n) = Some ch"
    and rep: "\<forall>c b. child m n c = Some b \<longrightarrow> (\<exists>e. f b = Some e \<and> Key e = Path (m b))"
  shows "\<exists>vs ns. visible m (map snd ch) = Some vs \<and> those (map f vs) = Some ns \<and> distinct (map Key ns) \<and>
    (\<forall>c. valid_name c \<longrightarrow> find_node ns (render (cs @ [c])) =
      (if hidden_name c then None else case child m n c of None \<Rightarrow> None | Some b \<Rightarrow> f b))"
proof -
  let ?ch = "filter (\<lambda>(c, b). \<not> hidden_name c) ch"
  let ?ns = "map (the \<circ> f) (map snd ?ch)"
  have dist: "distinct (map fst ch)" using tree_okD(4) [OF ok n ch] .
  have c: "child m n c = Some b \<longleftrightarrow> (c, b) \<in> set ch" for c b
    using ch dist by (simp add: child_def)
  have p: "lookup m root (cs @ [c]) = Some b" if "(c, b) \<in> set ch" for c b
    using n that c by (simp add: lookup_snoc)
  have vis: "visible m (map snd ch) = Some (map snd ?ch)"
    using IsHidden_path [OF ok p] by (intro visible_spec) auto
  have rep': "f b = Some (the (f b))" if "(c, b) \<in> set ch" for c b
    using rep that c by fastforce
  have ths: "those (map f (map snd ?ch)) = Some ?ns"
    unfolding comp_def using rep' by (intro those_map_Some) auto
  have key: "Key (the (f b)) = render (cs @ [c])" if "(c, b) \<in> set ch" for c b
  proof -
    have "Key (the (f b)) = Path (m b)" using rep that c by fastforce
    then show ?thesis using tree_okD(3) [OF ok p [OF that]] by simp
  qed
  have keys: "map Key ?ns = map (\<lambda>c. render (cs @ [c])) (map fst ?ch)"
    using key by auto
  have "inj_on (\<lambda>c. render (cs @ [c])) (set (map fst ?ch))"
  proof (rule inj_onI)
    fix c d assume "c \<in> set (map fst ?ch)" "d \<in> set (map fst ?ch)" "render (cs @ [c]) = render (cs @ [d])"
    moreover have "valid_names (cs @ [c])" if "c \<in> set (map fst ?ch)" for c
      using that p tree_okD(1) [OF ok] by fastforce
    ultimately show "c = d" using render_inj by blast
  qed
  moreover have "distinct (map fst ?ch)" using dist by (rule distinct_map_filter)
  ultimately have d: "distinct (map Key ?ns)" unfolding keys by (simp only: distinct_map [of _ "map fst ?ch"])
  have "find_node ?ns (render (cs @ [c])) =
      (if hidden_name c then None else case child m n c of None \<Rightarrow> None | Some b \<Rightarrow> f b)"
    if v: "valid_name c" for c
  proof -
    have vcs: "valid_names (cs @ [c])" using tree_okD(1) [OF ok n] v by simp
    have "find_node ?ns (render (cs @ [c])) = Some e \<longleftrightarrow>
        (\<exists>b. child m n c = Some b \<and> \<not> hidden_name c \<and> f b = Some e)" for e
    proof
      assume "find_node ?ns (render (cs @ [c])) = Some e"
      then have "e \<in> set ?ns" "Key e = render (cs @ [c])" using find_node_Some [OF d] by auto
      then obtain d b where db: "(d, b) \<in> set ch" "\<not> hidden_name d" "e = the (f b)" by auto
      then have "render (cs @ [d]) = render (cs @ [c])" using key \<open>Key e = _\<close> by simp
      then have "d = c" using render_inj [of "cs @ [d]" "cs @ [c]"] tree_okD(1) [OF ok p [OF db(1)]] vcs by simp
      then show "\<exists>b. child m n c = Some b \<and> \<not> hidden_name c \<and> f b = Some e"
        using db rep' c by metis
    next
      assume "\<exists>b. child m n c = Some b \<and> \<not> hidden_name c \<and> f b = Some e"
      then obtain b where b: "(c, b) \<in> set ch" "\<not> hidden_name c" "f b = Some e" using c by blast
      then have "e \<in> set ?ns" by force
      moreover have "Key e = render (cs @ [c])" using key [OF b(1)] b(3) by simp
      ultimately show "find_node ?ns (render (cs @ [c])) = Some e" using find_node_Some [OF d] by blast
    qed
    then show ?thesis
      by (cases "find_node ?ns (render (cs @ [c]))") (auto split: option.splits, metis not_None_eq)
  qed
  then show ?thesis using vis ths d by blast
qed

text \<open>
  \<open>Repr\<close> returns, and what a client finds at a path below is the node there, unless one of
  the path's names is hidden or the representation is not recursive.
\<close>

definition ext_matches :: "memory \<Rightarrow> time \<Rightarrow> addr option \<Rightarrow> NodeExtern option \<Rightarrow> bool" where
  "ext_matches m now = rel_option (attrs m now)"

definition visible_at :: "memory \<Rightarrow> addr \<Rightarrow> string list \<Rightarrow> addr option" where
  "visible_at m n es = (if \<exists>c \<in> set es. hidden_name c then None else lookup m n es)"

lemma visible_at_simps [simp]:
  "visible_at m n [] = Some n"
  "visible_at m n (c # es) = (if hidden_name c then None else
     case child m n c of None \<Rightarrow> None | Some b \<Rightarrow> visible_at m b es)"
  by (auto simp: visible_at_def split: option.splits)

lemma prefix_paths_Nil [simp]: "prefix_paths cs [] = []"
  by (simp add: prefix_paths_def)

lemma Repr_spec:
  assumes ok: "tree_ok m nxt root"
  shows "lookup m root cs = Some n \<Longrightarrow> nxt \<le> fuel + n \<Longrightarrow>
    \<exists>e. Repr fuel m now recu srt n = Some e \<and> attrs m now n e \<and>
      (\<forall>es. valid_names es \<longrightarrow> recu \<or> es = [] \<longrightarrow>
         ext_matches m now (visible_at m n es) (ext_lookup e (prefix_paths cs es)))"
proof (induction fuel arbitrary: n cs)
  case 0
  then show ?case using tree_okD(2) [OF ok 0(1)] by simp
next
  case (Suc fuel)
  note n = Suc.prems(1)
  obtain exp ttl where et: "ExpirationAndTTL m now n = (exp, ttl)" by (cases "ExpirationAndTTL m now n")
  show ?case
  proof (cases "Children (m n)")
    case None
    let ?e = "NodeExtern (Path (m n)) (Some (Value (m n))) False exp ttl [] (ModifiedIndex (m n)) (CreatedIndex (m n))"
    have at: "attrs m now n ?e" using None et by (simp add: attrs_def IsDir_def)
    have "ext_matches m now (visible_at m n es) (ext_lookup ?e (prefix_paths cs es))" for es
      using None at by (cases es) (simp_all add: ext_matches_def prefix_paths_Cons child_def find_node_def)
    moreover have "Repr (Suc fuel) m now recu srt n = Some ?e" using None et by (simp add: Let_def)
    ultimately show ?thesis using at by blast
  next
    case (Some ch)
    show ?thesis
    proof (cases recu)
      case False
      let ?e = "NodeExtern (Path (m n)) None True exp ttl [] (ModifiedIndex (m n)) (CreatedIndex (m n))"
      have "attrs m now n ?e" using Some et by (simp add: attrs_def IsDir_def)
      then show ?thesis using Some et False by (simp add: ext_matches_def Let_def)
    next
      case True
      let ?f = "Repr fuel m now recu srt"
      have IH: "\<exists>e. ?f b = Some e \<and> attrs m now b e \<and> (\<forall>es. valid_names es \<longrightarrow> recu \<or> es = [] \<longrightarrow>
         ext_matches m now (visible_at m b es) (ext_lookup e (prefix_paths (cs @ [c]) es)))"
        if "child m n c = Some b" for c b
        using Suc.IH [of "cs @ [c]" b] n that tree_okD(5) [OF ok n that] Suc.prems(2)
        by (simp add: lookup_snoc)
      have "\<forall>c b. child m n c = Some b \<longrightarrow> (\<exists>e. ?f b = Some e \<and> Key e = Path (m b))"
        using IH by (fastforce simp: attrs_def)
      from children_repr [OF ok n Some this] obtain vs ns where
        vs: "visible m (map snd ch) = Some vs" "those (map ?f vs) = Some ns" "distinct (map Key ns)"
        "\<forall>c. valid_name c \<longrightarrow> find_node ns (render (cs @ [c])) =
          (if hidden_name c then None else case child m n c of None \<Rightarrow> None | Some b \<Rightarrow> ?f b)" by blast
      let ?ns = "if srt then sort_NodeExterns ns else ns"
      let ?e = "NodeExtern (Path (m n)) None True exp ttl ?ns (ModifiedIndex (m n)) (CreatedIndex (m n))"
      have at: "attrs m now n ?e" using Some et by (simp add: attrs_def IsDir_def)
      have "ext_matches m now (visible_at m n es) (ext_lookup ?e (prefix_paths cs es))" if "valid_names es" for es
      proof (cases es)
        case Nil
        then show ?thesis using at by (simp add: ext_matches_def)
      next
        case (Cons c es')
        then have fn: "find_node ?ns (render (cs @ [c])) =
            (if hidden_name c then None else case child m n c of None \<Rightarrow> None | Some b \<Rightarrow> ?f b)"
          using vs(3,4) that by (simp add: find_node_sort)
        show ?thesis
        proof (cases "hidden_name c \<or> child m n c = None")
          case True
          then show ?thesis using fn Cons by (auto simp: prefix_paths_Cons ext_matches_def)
        next
          case False
          then obtain b where b: "child m n c = Some b" by blast
          from IH [OF this] obtain e' where e': "?f b = Some e'" "\<forall>es. valid_names es \<longrightarrow> recu \<or> es = [] \<longrightarrow>
            ext_matches m now (visible_at m b es) (ext_lookup e' (prefix_paths (cs @ [c]) es))" by blast
          then have "ext_matches m now (visible_at m b es') (ext_lookup e' (prefix_paths (cs @ [c]) es'))"
            using that Cons True by simp
          then show ?thesis using fn Cons b False e'(1) by (simp add: prefix_paths_Cons)
        qed
      qed
      moreover have "Repr (Suc fuel) m now recu srt n = Some ?e" using Some et True vs(1,2) by (simp add: Let_def)
      ultimately show ?thesis using at by blast
    qed
  qed
qed

end
