(* ===== verification/EtcdStore.thy ===== *)
theory EtcdStore
  imports EtcdTree
begin

text \<open>
  \<open>coreos/etcd/store/store.go\<close>: the operations of the store, each one step under the world
  lock. An operation returns the error or the event together with the next state; \<open>None\<close> is
  a panic. The clock (\<open>time.Now()\<close>) is the parameter \<open>now\<close>. Where the code's nil callback,
  nil node or nil error decides a branch, the option or sum does here.
\<close>

section \<open>State, counters and walking\<close>

text \<open>\<open>2000-01-01T00:00:00Z\<close>, in nanoseconds since the zero time: expirations before it are not valid.\<close>

definition minExpireTime :: time where
  "minExpireTime = 63082281600 * Second"

definition zero_node :: node where
  "zero_node = newKV [] [] 0 None [] 0"

definition newStore :: store where
  "newStore =
     \<lparr>smem = (\<lambda>_. zero_node)(0 := newDir ''/'' 0 None [] Permanent), snext = 1, Root = 0,
      WatcherHub = newWatchHub 1000, CurrentIndex = 0, Stats = newStats, CurrentVersion = 2,
      TtlKeyHeap = newTtlKeyHeap\<rparr>"

definition inc_stat :: "stat_kind \<Rightarrow> store \<Rightarrow> store" where
  "inc_stat k s = s\<lparr>Stats := Inc (Stats s) k\<rparr>"

definition set_index :: "u64 \<Rightarrow> store \<Rightarrow> store" where
  "set_index i s = s\<lparr>CurrentIndex := i\<rparr>"

definition notify :: "event \<Rightarrow> store \<Rightarrow> store option" where
  "notify e s = map_option (\<lambda>hub. s\<lparr>WatcherHub := hub\<rparr>) (hub_notify (WatcherHub s) e)"

type_synonym 'a result = "((etcd_error + 'a) \<times> store) option"

text \<open>The loop of \<open>walk\<close> over the components after the first; an empty one ends it.\<close>

fun walk_loop :: "(addr \<Rightarrow> string \<Rightarrow> store \<Rightarrow> addr result) \<Rightarrow> string list \<Rightarrow> addr \<Rightarrow> store \<Rightarrow> addr result" where
  "walk_loop walkFunc [] curr_node s = Some (Inr curr_node, s)"
| "walk_loop walkFunc (c # cs) curr_node s =
     (if c = [] then Some (Inr curr_node, s)
      else
        case walkFunc curr_node c s of
          None \<Rightarrow> None
        | Some (Inl err, s1) \<Rightarrow> Some (Inl err, s1)
        | Some (Inr next, s1) \<Rightarrow> walk_loop walkFunc cs next s1)"

definition walk :: "string \<Rightarrow> (addr \<Rightarrow> string \<Rightarrow> store \<Rightarrow> addr result) \<Rightarrow> store \<Rightarrow> addr result" where
  "walk nodePath walkFunc s = walk_loop walkFunc (tl (strings_Split nodePath)) (Root s) s"

text \<open>The closure \<open>walkFunc\<close> of \<open>internalGet\<close>.\<close>

definition get_step :: "addr \<Rightarrow> string \<Rightarrow> store \<Rightarrow> addr result" where
  "get_step parent name s =
     Some (if \<not> IsDir (smem s parent)
           then Inl (NewError EcodeNotDir (Path (smem s parent)) (CurrentIndex s))
           else case child (smem s) parent name of
                  Some c \<Rightarrow> Inr c
                | None \<Rightarrow> Inl (NewError EcodeKeyNotFound (path_Join [Path (smem s parent), name]) (CurrentIndex s)),
           s)"

definition internalGet :: "string \<Rightarrow> store \<Rightarrow> addr result" where
  "internalGet nodePath s = walk (path_Clean (path_Join [''/'', nodePath])) get_step s"

definition checkDir :: "addr \<Rightarrow> string \<Rightarrow> store \<Rightarrow> addr result" where
  "checkDir parent dirName s =
     (case child (smem s) parent dirName of
        Some n \<Rightarrow>
          Some (if IsDir (smem s n) then Inr n
                else Inl (NewError EcodeNotDir (Path (smem s n)) (CurrentIndex s)), s)
      | None \<Rightarrow>
          let (n, s1) = alloc (newDir (path_Join [Path (smem s parent), dirName]) (CurrentIndex s + 1)
                                 (Some parent) (ACL (smem s parent)) Permanent) s
          in map_option (Pair (Inr n)) (put_child parent dirName n s1))"

section \<open>Creating, reading and comparing\<close>

text \<open>The end of \<open>internalCreate\<close>: the new node below \<open>d\<close>; the result of \<open>d.Add\<close> is not used.\<close>

definition create_finish ::
    "time \<Rightarrow> string \<Rightarrow> addr \<Rightarrow> bool \<Rightarrow> string \<Rightarrow> time \<Rightarrow> u64 \<Rightarrow> event \<Rightarrow> store \<Rightarrow> event result" where
  "create_finish now nodePath d dir value expireTime nextIndex e s =
     (let (eNode, x) =
            (if \<not> dir then (set_EValue value (ENode e), newKV nodePath value nextIndex (Some d) [] expireTime)
             else (set_EDir (ENode e), newDir nodePath nextIndex (Some d) [] expireTime));
          (n, s1) = alloc x s
      in do {
        (_, s2) \<leftarrow> Add s1 d n;
        Some (if \<not> IsPermanent (smem s2 n) then
                (Inr (e\<lparr>ENode := set_Expiration (ExpirationAndTTL (smem s2) now n) eNode\<rparr>),
                 set_index nextIndex (s2\<lparr>TtlKeyHeap := ttl_push (smem s2) (TtlKeyHeap s2) n\<rparr>))
              else (Inr (e\<lparr>ENode := eNode\<rparr>), set_index nextIndex s2))
      })"

text \<open>
  \<open>internalCreate\<close> after the walk: \<open>d\<close> is the parent directory. Discarding the error of
  \<open>GetChild\<close> leaves a nil node.
\<close>

definition create_at ::
    "time \<Rightarrow> string \<Rightarrow> string \<Rightarrow> addr \<Rightarrow> bool \<Rightarrow> string \<Rightarrow> bool \<Rightarrow> time \<Rightarrow> string \<Rightarrow> u64 \<Rightarrow> store \<Rightarrow> event result" where
  "create_at now nodePath nodeName d dir value replace expireTime action currIndex s =
     (let nextIndex = currIndex + 1;
          e = newEvent action nodePath nextIndex nextIndex
      in case (case GetChild s d nodeName of Inl _ \<Rightarrow> None | Inr c \<Rightarrow> c) of
           None \<Rightarrow> create_finish now nodePath d dir value expireTime nextIndex e s
         | Some old \<Rightarrow>
             if replace then
               if IsDir (smem s old) then Some (Inl (NewError EcodeNotFile nodePath currIndex), s)
               else do {
                 prev \<leftarrow> Repr (Suc (snext s)) (smem s) now False False old;
                 (_, s1) \<leftarrow> Remove (Suc (snext s)) None old False False s;
                 create_finish now nodePath d dir value expireTime nextIndex (e\<lparr>PrevNode := Some prev\<rparr>) s1
               }
             else Some (Inl (NewError EcodeNodeExist nodePath currIndex), s))"

definition internalCreate ::
    "time \<Rightarrow> string \<Rightarrow> bool \<Rightarrow> string \<Rightarrow> bool \<Rightarrow> bool \<Rightarrow> time \<Rightarrow> string \<Rightarrow> store \<Rightarrow> event result" where
  "internalCreate now nodePath0 dir value unique replace expireTime0 action s =
     (let currIndex = CurrentIndex s; nextIndex = currIndex + 1;
          nodePath1 = (if unique then nodePath0 @ ''/'' @ FormatUint (unat nextIndex) else nodePath0);
          nodePath = path_Clean (path_Join [''/'', nodePath1])
      in if nodePath = ''/'' then Some (Inl (NewError EcodeRootROnly ''/'' currIndex), s)
         else
           let expireTime = (if expireTime0 < minExpireTime then Permanent else expireTime0);
               (dirName, nodeName) = path_Split nodePath
           in case walk dirName checkDir s of
                None \<Rightarrow> None
              | Some (Inl err, s1) \<Rightarrow> Some (Inl (err\<lparr>ErrIndex := currIndex\<rparr>), inc_stat SetFail s1)
              | Some (Inr d, s1) \<Rightarrow>
                  create_at now nodePath nodeName d dir value replace expireTime action currIndex s1)"

definition store_Get :: "time \<Rightarrow> string \<Rightarrow> bool \<Rightarrow> bool \<Rightarrow> store \<Rightarrow> event result" where
  "store_Get now nodePath0 recu srt s =
     (let nodePath = path_Clean (path_Join [''/'', nodePath0])
      in case internalGet nodePath s of
           None \<Rightarrow> None
         | Some (Inl err, s1) \<Rightarrow> Some (Inl err, inc_stat GetFail s1)
         | Some (Inr n, s1) \<Rightarrow>
             let e = newEvent ''get'' nodePath (ModifiedIndex (smem s1 n)) (CreatedIndex (smem s1 n))
             in map_option (\<lambda>eNode. (Inr (e\<lparr>ENode := eNode\<rparr>), inc_stat GetSuccess s1))
                  (loadInternalNode s1 now n recu srt (ENode e)))"

definition store_Create ::
    "time \<Rightarrow> string \<Rightarrow> bool \<Rightarrow> string \<Rightarrow> bool \<Rightarrow> time \<Rightarrow> store \<Rightarrow> event result" where
  "store_Create now nodePath dir value unique expireTime s =
     (case internalCreate now nodePath dir value unique False expireTime ''create'' s of
        None \<Rightarrow> None
      | Some (Inl err, s1) \<Rightarrow> Some (Inl err, inc_stat CreateFail s1)
      | Some (Inr e, s1) \<Rightarrow> map_option (\<lambda>s2. (Inr e, inc_stat CreateSuccess s2)) (notify e s1))"

text \<open>\<open>Set\<close> after \<open>internalGet\<close>: \<open>old\<close> is the node it found, if any.\<close>

definition set_rest ::
    "time \<Rightarrow> string \<Rightarrow> bool \<Rightarrow> string \<Rightarrow> time \<Rightarrow> addr option \<Rightarrow> store \<Rightarrow> event result" where
  "set_rest now nodePath dir value expireTime old s =
     (case internalCreate now nodePath dir value False True expireTime ''set'' s of
        None \<Rightarrow> None
      | Some (Inl err, s1) \<Rightarrow> Some (Inl err, inc_stat SetFail s1)
      | Some (Inr e, s1) \<Rightarrow>
          (case old of
             None \<Rightarrow> map_option (\<lambda>s2. (Inr e, inc_stat SetSuccess s2)) (notify e s1)
           | Some n \<Rightarrow>
               let prev = newEvent ''get'' nodePath (ModifiedIndex (smem s1 n)) (CreatedIndex (smem s1 n))
               in do {
                 p \<leftarrow> loadInternalNode s1 now n False False (ENode prev);
                 s2 \<leftarrow> notify (e\<lparr>PrevNode := Some p\<rparr>) s1;
                 Some (Inr (e\<lparr>PrevNode := Some p\<rparr>), inc_stat SetSuccess s2)
               }))"

definition store_Set :: "time \<Rightarrow> string \<Rightarrow> bool \<Rightarrow> string \<Rightarrow> time \<Rightarrow> store \<Rightarrow> event result" where
  "store_Set now nodePath dir value expireTime s =
     (case internalGet nodePath s of
        None \<Rightarrow> None
      | Some (Inl getErr, s1) \<Rightarrow>
          if ErrorCode getErr \<noteq> EcodeKeyNotFound then Some (Inl getErr, inc_stat SetFail s1)
          else set_rest now nodePath dir value expireTime None s1
      | Some (Inr n, s1) \<Rightarrow> set_rest now nodePath dir value expireTime (Some n) s1)"

definition getCompareFailCause :: "node \<Rightarrow> int \<Rightarrow> string \<Rightarrow> u64 \<Rightarrow> string" where
  "getCompareFailCause n which prevValue prevIndex =
     (let idx = ''['' @ FormatUint (unat prevIndex) @ '' != '' @ FormatUint (unat (ModifiedIndex n)) @ '']'';
          val = ''['' @ prevValue @ '' != '' @ Value n @ '']''
      in if which = CompareIndexNotMatch then idx
         else if which = CompareValueNotMatch then val
         else val @ '' '' @ idx)"

definition store_CompareAndSwap ::
    "time \<Rightarrow> string \<Rightarrow> string \<Rightarrow> u64 \<Rightarrow> string \<Rightarrow> time \<Rightarrow> store \<Rightarrow> event result" where
  "store_CompareAndSwap now nodePath0 prevValue prevIndex value expireTime s =
     (let nodePath = path_Clean (path_Join [''/'', nodePath0])
      in if nodePath = ''/'' then Some (Inl (NewError EcodeRootROnly ''/'' (CurrentIndex s)), s)
         else case internalGet nodePath s of
           None \<Rightarrow> None
         | Some (Inl err, s1) \<Rightarrow> Some (Inl err, inc_stat CompareAndSwapFail s1)
         | Some (Inr n, s1) \<Rightarrow>
             if IsDir (smem s1 n) then
               Some (Inl (NewError EcodeNotFile nodePath (CurrentIndex s1)), inc_stat CompareAndSwapFail s1)
             else
               let (ok, which) = Compare (smem s1 n) prevValue prevIndex
               in if \<not> ok then
                    Some (Inl (NewError EcodeTestFailed
                            (getCompareFailCause (smem s1 n) which prevValue prevIndex) (CurrentIndex s1)),
                          inc_stat CompareAndSwapFail s1)
                  else
                    let s2 = set_index (CurrentIndex s1 + 1) s1;
                        e = newEvent ''compareAndSwap'' nodePath (CurrentIndex s2) (CreatedIndex (smem s2 n))
                    in do {
                      prev \<leftarrow> Repr (Suc (snext s2)) (smem s2) now False False n;
                      s3 \<leftarrow> UpdateTTL n expireTime (snd (Write s2 n value (CurrentIndex s2)));
                      let e1 = e\<lparr>PrevNode := Some prev,
                                ENode := set_Expiration (ExpirationAndTTL (smem s3) now n)
                                           (set_EValue value (ENode e))\<rparr>;
                      s4 \<leftarrow> notify e1 s3;
                      Some (Inr e1, inc_stat CompareAndSwapSuccess s4)
                    })"

section \<open>Updating and deleting\<close>

definition store_Update :: "time \<Rightarrow> string \<Rightarrow> string \<Rightarrow> time \<Rightarrow> store \<Rightarrow> event result" where
  "store_Update now nodePath0 newValue expireTime s =
     (let nodePath = path_Clean (path_Join [''/'', nodePath0])
      in if nodePath = ''/'' then Some (Inl (NewError EcodeRootROnly ''/'' (CurrentIndex s)), s)
         else
           let currIndex = CurrentIndex s; nextIndex = CurrentIndex s + 1
           in case internalGet nodePath s of
                None \<Rightarrow> None
              | Some (Inl err, s1) \<Rightarrow> Some (Inl err, inc_stat UpdateFail s1)
              | Some (Inr n, s1) \<Rightarrow>
                  let e = newEvent ''update'' nodePath nextIndex (CreatedIndex (smem s1 n)) in do {
                    prev \<leftarrow> Repr (Suc (snext s1)) (smem s1) now False False n;
                    if IsDir (smem s1 n) \<and> newValue \<noteq> [] then
                      Some (Inl (NewError EcodeNotFile nodePath currIndex), inc_stat UpdateFail s1)
                    else do {
                      let s2 = snd (Write s1 n newValue nextIndex);
                      let eNode = (if IsDir (smem s2 n) then set_EDir (ENode e) else set_EValue newValue (ENode e));
                      s3 \<leftarrow> UpdateTTL n expireTime s2;
                      let e1 = e\<lparr>PrevNode := Some prev,
                                ENode := set_Expiration (ExpirationAndTTL (smem s3) now n) eNode\<rparr>;
                      s4 \<leftarrow> notify e1 s3;
                      Some (Inr e1, set_index nextIndex (inc_stat UpdateSuccess s4))
                    }
                  })"

text \<open>The closures that tell the watchers of a removed node's path.\<close>

definition delete_callback :: "event \<Rightarrow> callback" where
  "delete_callback e = Some (\<lambda>path hub. notifyWatchers hub e path True)"

definition store_Delete :: "time \<Rightarrow> string \<Rightarrow> bool \<Rightarrow> bool \<Rightarrow> store \<Rightarrow> event result" where
  "store_Delete now nodePath0 dir0 recu s =
     (let nodePath = path_Clean (path_Join [''/'', nodePath0])
      in if nodePath = ''/'' then Some (Inl (NewError EcodeRootROnly ''/'' (CurrentIndex s)), s)
         else
           let dir = (if recu then True else dir0)
           in case internalGet nodePath s of
                None \<Rightarrow> None
              | Some (Inl err, s1) \<Rightarrow> Some (Inl err, inc_stat DeleteFail s1)
              | Some (Inr n, s1) \<Rightarrow>
                  let nextIndex = CurrentIndex s1 + 1;
                      e = newEvent ''delete'' nodePath nextIndex (CreatedIndex (smem s1 n))
                  in do {
                    prev \<leftarrow> Repr (Suc (snext s1)) (smem s1) now False False n;
                    let e1 = e\<lparr>PrevNode := Some prev,
                              ENode := (if IsDir (smem s1 n) then set_EDir (ENode e) else ENode e)\<rparr>;
                    (err, s2) \<leftarrow> Remove (Suc (snext s1)) (delete_callback e1) n dir recu s1;
                    case err of
                      Some err \<Rightarrow> Some (Inl err, inc_stat DeleteFail s2)
                    | None \<Rightarrow>
                        map_option (\<lambda>s4. (Inr e1, inc_stat DeleteSuccess s4))
                          (notify e1 (set_index (CurrentIndex s2 + 1) s2))
                  })"

definition store_CompareAndDelete :: "time \<Rightarrow> string \<Rightarrow> string \<Rightarrow> u64 \<Rightarrow> store \<Rightarrow> event result" where
  "store_CompareAndDelete now nodePath0 prevValue prevIndex s =
     (let nodePath = path_Clean (path_Join [''/'', nodePath0])
      in case internalGet nodePath s of
           None \<Rightarrow> None
         | Some (Inl err, s1) \<Rightarrow> Some (Inl err, inc_stat CompareAndDeleteFail s1)
         | Some (Inr n, s1) \<Rightarrow>
             if IsDir (smem s1 n) then
               Some (Inl (NewError EcodeNotFile nodePath (CurrentIndex s1)), inc_stat CompareAndSwapFail s1)
             else
               let (ok, which) = Compare (smem s1 n) prevValue prevIndex
               in if \<not> ok then
                    Some (Inl (NewError EcodeTestFailed
                            (getCompareFailCause (smem s1 n) which prevValue prevIndex) (CurrentIndex s1)),
                          inc_stat CompareAndDeleteFail s1)
                  else
                    let s2 = set_index (CurrentIndex s1 + 1) s1;
                        e = newEvent ''compareAndDelete'' nodePath (CurrentIndex s2) (CreatedIndex (smem s2 n))
                    in do {
                      prev \<leftarrow> Repr (Suc (snext s2)) (smem s2) now False False n;
                      let e1 = e\<lparr>PrevNode := Some prev\<rparr>;
                      (_, s3) \<leftarrow> Remove (Suc (snext s2)) (delete_callback e1) n False False s2;
                      map_option (\<lambda>s4. (Inr e1, inc_stat CompareAndDeleteSuccess s4)) (notify e1 s3)
                    })"

text \<open>The loop of \<open>DeleteExpiredKeys\<close>; each round takes one node off the heap.\<close>

primrec expire_loop :: "nat \<Rightarrow> time \<Rightarrow> time \<Rightarrow> store \<Rightarrow> store option" where
  "expire_loop 0 now cutoff s = None"
| "expire_loop (Suc fuel) now cutoff s =
     (case ttl_top (TtlKeyHeap s) of
        None \<Rightarrow> Some s
      | Some n \<Rightarrow>
          if cutoff < ExpireTime (smem s n) then Some s
          else
            let s1 = set_index (CurrentIndex s + 1) s;
                e = newEvent ''expire'' (Path (smem s1 n)) (CurrentIndex s1) (CreatedIndex (smem s1 n))
            in do {
              prev \<leftarrow> Repr (Suc (snext s1)) (smem s1) now False False n;
              let e1 = e\<lparr>PrevNode := Some prev\<rparr>;
              (_, h) \<leftarrow> ttl_pop (smem s1) (TtlKeyHeap s1);
              (_, s2) \<leftarrow> Remove (Suc (snext s1)) (delete_callback e1) n True True (s1\<lparr>TtlKeyHeap := h\<rparr>);
              s3 \<leftarrow> notify e1 (inc_stat ExpireCount s2);
              expire_loop fuel now cutoff s3
            })"

definition DeleteExpiredKeys :: "time \<Rightarrow> time \<Rightarrow> store \<Rightarrow> store option" where
  "DeleteExpiredKeys now cutoff s = expire_loop (Suc (ttl_Len (TtlKeyHeap s))) now cutoff s"

section \<open>Watching, saving and statistics\<close>

definition store_Watch :: "string \<Rightarrow> bool \<Rightarrow> bool \<Rightarrow> u64 \<Rightarrow> store \<Rightarrow> wid result" where
  "store_Watch key0 recu strm since s =
     (let key = path_Clean (path_Join [''/'', key0]);
          nextIndex = CurrentIndex s + 1
      in case hub_watch (WatcherHub s) key recu strm (if since = 0 then nextIndex else since) of
           None \<Rightarrow> None
         | Some (Inl err, hub) \<Rightarrow>
             Some (Inl (err\<lparr>ErrIndex := CurrentIndex s\<rparr>), s\<lparr>WatcherHub := hub\<rparr>)
         | Some (Inr w, hub) \<Rightarrow> Some (Inr w, s\<lparr>WatcherHub := hub\<rparr>))"

text \<open>
  \<open>Save\<close> up to the JSON encoding: the store (whose memory now also holds the copies) and the
  store to encode.
\<close>

definition Save_clone :: "store \<Rightarrow> (store \<times> store) option" where
  "Save_clone s =
     map_option
       (\<lambda>(root, s1).
          (s1, s1\<lparr>Root := root, WatcherHub := hub_clone (WatcherHub s1), Stats := Stats_clone (Stats s1),
                  TtlKeyHeap := newTtlKeyHeap\<rparr>))
       (Clone (Suc (snext s)) (Root s) s)"

text \<open>\<open>Recovery\<close> after the JSON decoding has set the exported fields.\<close>

definition Recovery_rest :: "store \<Rightarrow> store option" where
  "Recovery_rest s = recoverAndclean (Suc (snext s)) (Root s) (s\<lparr>TtlKeyHeap := newTtlKeyHeap\<rparr>)"

text \<open>\<open>JsonStats\<close> up to the JSON encoding.\<close>

definition JsonStats :: "store \<Rightarrow> stats \<times> store" where
  "JsonStats s =
     (let st = Stats s\<lparr>sWatchers := word_of_int (hub_count (WatcherHub s))\<rparr> in (st, s\<lparr>Stats := st\<rparr>))"

definition TotalTransactions :: "store \<Rightarrow> u64" where
  "TotalTransactions s = TotalTranscations (Stats s)"

end
