(* ===== verification/EtcdCreate.thy ===== *)
theory EtcdCreate
  imports EtcdStore
begin

text \<open>
  Finding and creating nodes: what \<open>internalGet\<close>, the walk with \<open>checkDir\<close> and
  \<open>internalCreate\<close> do to the abstract view of the tree, on every branch.
\<close>

section \<open>Finding a node\<close>

abbreviation view :: "store \<Rightarrow> tree_view" where
  "view s \<equiv> tree_view (smem s) (Root s)"

text \<open>A file on the way to a path: an operation at the path fails with \<open>EcodeNotDir\<close>.\<close>

definition blocked :: "tree_view \<Rightarrow> string list \<Rightarrow> bool" where
  "blocked v cs \<longleftrightarrow> (\<exists>ds. strict_prefix ds cs \<and> is_file v ds)"

lemma view_Some: "look s cs = Some n \<Longrightarrow> view s cs = Some (entry_of (smem s n))"
  by (simp add: tree_view_def)

lemma view_None: "view s cs = None \<longleftrightarrow> look s cs = None"
  by (simp add: tree_view_def)

lemma is_file_look: "is_file (tree_view m root) cs \<longleftrightarrow> (\<exists>n. lookup m root cs = Some n \<and> \<not> IsDir (m n))"
  by (auto simp: is_file_def tree_view_def content_entry_of)

lemma strict_prefix_Cons:
  "strict_prefix ds (c # cs) \<longleftrightarrow> ds = [] \<or> (\<exists>es. ds = c # es \<and> strict_prefix es cs)"
  by (cases ds) (simp_all add: eq_commute)

lemma is_file_simps:
  "is_file (tree_view m a) [] \<longleftrightarrow> \<not> IsDir (m a)"
  "is_file (tree_view m a) (c # cs) \<longleftrightarrow> (\<exists>b. child m a c = Some b \<and> is_file (tree_view m b) cs)"
  by (auto simp: is_file_look split: option.splits)

lemma blocked_Nil [simp]: "\<not> blocked v []"
  by (simp add: blocked_def)

lemma blocked_Cons [simp]:
  "blocked (tree_view m a) (c # cs) \<longleftrightarrow>
     \<not> IsDir (m a) \<or> (\<exists>b. child m a c = Some b \<and> blocked (tree_view m b) cs)"
  unfolding blocked_def strict_prefix_Cons using is_file_simps by metis

lemma child_IsDir: "child m a c = Some b \<Longrightarrow> IsDir (m a)"
  by (auto simp: child_def IsDir_def split: option.splits)

lemma lookup_not_blocked: "lookup m a cs = Some n \<Longrightarrow> \<not> blocked (tree_view m a) cs"
  by (induction cs arbitrary: a) (auto split: option.splits dest: child_IsDir)

lemma blocked_append:
  "lookup m a cs = Some b \<Longrightarrow> blocked (tree_view m a) (cs @ ds) \<longleftrightarrow> blocked (tree_view m b) ds"
  by (induction cs arbitrary: a) (auto split: option.splits dest: child_IsDir)

definition get_error :: "tree_view \<Rightarrow> string list \<Rightarrow> int" where
  "get_error v cs = (if blocked v cs then EcodeNotDir else EcodeKeyNotFound)"

lemma walk_get:
  "valid_names cs \<Longrightarrow>
   \<exists>r. walk_loop get_step cs a s = Some (r, s) \<and>
     (case lookup (smem s) a cs of
        Some n \<Rightarrow> r = Inr n
      | None \<Rightarrow> \<exists>err. r = Inl err \<and> ErrIndex err = CurrentIndex s \<and>
          ErrorCode err = get_error (tree_view (smem s) a) cs)"
proof (induction cs arbitrary: a)
  case Nil
  then show ?case by simp
next
  case (Cons c cs)
  have c: "c \<noteq> []" using Cons.prems by (simp add: valid_name_def)
  show ?case
  proof (cases "child (smem s) a c")
    case None
    then show ?thesis using c by (auto simp: get_step_def get_error_def)
  next
    case (Some b)
    have "get_error (tree_view (smem s) a) (c # cs) = get_error (tree_view (smem s) b) cs"
      using Some child_IsDir [OF Some] by (simp add: get_error_def)
    moreover have "walk_loop get_step (c # cs) a s = walk_loop get_step cs b s"
      using c Some child_IsDir [OF Some] by (simp add: get_step_def)
    moreover have "lookup (smem s) a (c # cs) = lookup (smem s) b cs" using Some by simp
    ultimately show ?thesis using Cons.IH [of b] Cons.prems by (simp only: valid_names_simps)
  qed
qed

lemma tl_Split_render:
  "valid_names cs \<Longrightarrow> walk_loop f (tl (strings_Split (render cs))) a s = walk_loop f cs a s"
  by (simp add: Split_render)

lemma internalGet_spec:
  "\<exists>r. internalGet p s = Some (r, s) \<and>
     (case look s (key_names p) of
        Some n \<Rightarrow> r = Inr n
      | None \<Rightarrow> \<exists>err. r = Inl err \<and> ErrIndex err = CurrentIndex s \<and>
          ErrorCode err = get_error (view s) (key_names p))"
  unfolding internalGet_def walk_def Clean_Join_key tl_Split_render [OF key_names_valid]
  by (rule walk_get) simp

lemma internalGet_cases:
  obtains (found) n where "internalGet p s = Some (Inr n, s)" "look s (key_names p) = Some n"
  | (missing) err where "internalGet p s = Some (Inl err, s)" "look s (key_names p) = None"
      "ErrIndex err = CurrentIndex s" "ErrorCode err = get_error (view s) (key_names p)"
  using internalGet_spec [of p s] by (auto split: option.splits)

section \<open>Inserting a node\<close>

definition entry_frame :: "store \<Rightarrow> store \<Rightarrow> bool" where
  "entry_frame s s' \<longleftrightarrow> snext s \<le> snext s' \<and> (\<forall>x < snext s. entry_of (smem s' x) = entry_of (smem s x))"

lemma entry_frame_refl [simp]: "entry_frame s s"
  by (simp add: entry_frame_def)

lemma entry_frame_trans: "entry_frame s s' \<Longrightarrow> entry_frame s' s'' \<Longrightarrow> entry_frame s s''"
  by (auto simp: entry_frame_def)

lemma ttl_node_less: "core_inv X s \<Longrightarrow> a \<in> set (array (TtlKeyHeap s)) \<Longrightarrow> a < snext s"
  using core_invD(1,3) tree_okD(2) by (fastforce simp: ttl_nodes_def)

lemma insert_node:
  assumes inv: "core_inv {} s" and a: "look s cs = Some a" "IsDir (smem s a)"
    and c: "child (smem s) a c = None" "valid_name c"
    and x: "Path x = render (cs @ [c])" "Parent x = Some a" "Children x \<in> {None, Some []}"
  shows "\<exists>s'. put_child a c (snext s) (snd (alloc x s)) = Some s' \<and>
    s' = s\<lparr>smem := smem s', snext := snext s + 1\<rparr> \<and> smem s' (snext s) = x \<and>
    core_inv (if ExpireTime x = 0 then {} else {snext s}) s' \<and> entry_frame s s' \<and>
    (\<forall>ds. look s' ds = (if ds = cs @ [c] then Some (snext s) else look s ds))"
proof -
  note ok = core_invD(1) [OF inv]
  let ?n = "snext s"
  obtain ch where ch: "Children (smem s a) = Some ch" using a(2) by (auto simp: IsDir_def)
  have an: "a < ?n" using tree_okD(2) [OF ok a(1)] .
  have dist: "distinct (map fst ch)" using tree_okD(4) [OF ok a(1) ch] .
  let ?m = "(smem s)(?n := x, a := smem s a\<lparr>Children := Some (AList.update c ?n ch)\<rparr>)"
  let ?s = "s\<lparr>smem := ?m, snext := ?n + 1\<rparr>"
  have put: "put_child a c ?n (snd (alloc x s)) = Some ?s"
    using ch an by (simp add: put_child_def alloc_def set_node_def)
  have child: "child ?m y d = (if y = a \<and> d = c then Some ?n else child (smem s) y d)" if "y \<noteq> ?n" for y d
    using that ch by (auto simp: child_def map_of_update_eq)
  have leaf: "child ?m ?n d = None" for d using x(3) an by (auto simp: child_def)
  have look0: "lookup ?m (Root s) ds =
      (if ds = cs @ [c] then Some ?n else if prefix (cs @ [c]) ds then None else look s ds)" for ds
  proof (rule lookup_insert [OF ok a(1)])
    fix y ys d assume "look s ys = Some y" "y \<noteq> a \<or> d \<noteq> c"
    then show "child ?m y d = child (smem s) y d" using child [of y d] tree_okD(2) [OF ok, of ys y] by auto
  qed (use child [of a c] leaf an in auto)
  have old: "look s (cs @ [c]) = None" using a c by (simp add: lookup_snoc)
  have look: "lookup ?m (Root s) ds = (if ds = cs @ [c] then Some ?n else look s ds)" for ds
    using look0 [of ds] lookup_prefix_None [OF old, of ds] by auto
  have r: "Root s < ?n" using tree_okD(2) [OF ok, of "[]"] by simp
  have tree: "tree_ok ?m (?n + 1) (Root s)"
  proof (rule tree_ok_insert [OF ok a(1) look0])
    fix y ch' assume y: "y < ?n" "Children (?m y) = Some ch'"
      "\<And>ch''. Children (smem s y) = Some ch'' \<Longrightarrow> distinct (map fst ch'')"
    then show "distinct (map fst ch')" using dist by (auto simp: distinct_fst_update split: if_splits)
  next
    show "Children (?m ?n) \<in> {None, Some []}" using x(3) an by auto
  qed (use x an c(2) r tree_ok_root [OF ok] in auto)
  have nodes: "ttl_nodes ?m (Root s) =
      ttl_nodes (smem s) (Root s) \<union> (if ExpireTime x = 0 then {} else {?n})"
  proof -
    have e: "ExpireTime (?m y) = (if y = ?n then ExpireTime x else ExpireTime (smem s y))" for y
      using an by auto
    have "y \<noteq> ?n" if "look s ds = Some y" for ds y using tree_okD(2) [OF ok that] by simp
    then have "y \<in> ttl_nodes ?m (Root s) \<longleftrightarrow>
        y \<in> ttl_nodes (smem s) (Root s) \<or> (y = ?n \<and> ExpireTime x \<noteq> 0)" for y
      unfolding ttl_nodes_def mem_Collect_eq look e using old
      by (auto split: if_splits) (metis option.distinct(1))+
    then show ?thesis by auto
  qed
  have "ttl_ok ?m (TtlKeyHeap s)"
    using core_invD(2) [OF inv] by (rule ttl_ok_cong) (use ttl_node_less [OF inv] in auto)
  moreover have "?n \<notin> ttl_nodes (smem s) (Root s)"
    using tree_okD(2) [OF ok] by (fastforce simp: ttl_nodes_def)
  ultimately have "core_inv (if ExpireTime x = 0 then {} else {?n}) ?s"
    using tree nodes core_invD(3) [OF inv] by (auto simp: core_inv_def)
  moreover have "entry_frame s ?s"
  proof -
    have "entry_of (?m y) = entry_of (smem s y)" if "y < ?n" for y
    proof -
      have "y \<noteq> ?n" using that by simp
      then show ?thesis using ch by (cases "y = a") (simp_all add: entry_of_def)
    qed
    then show ?thesis by (simp add: entry_frame_def)
  qed
  ultimately show ?thesis using put look an by (intro exI [of _ ?s]) simp
qed

lemma view_insert:
  assumes inv: "core_inv {} s" and fr: "entry_frame s s'" and look: "\<And>ds. look s' ds = (if ds = cs then Some (snext s) else look s ds)"
  shows "view s' = (view s)(cs \<mapsto> entry_of (smem s' (snext s)))"
proof
  fix ds
  have "entry_of (smem s' y) = entry_of (smem s y)" if "look s ds = Some y" for y
    using tree_okD(2) [OF core_invD(1) [OF inv] that] fr by (simp add: entry_frame_def)
  then show "view s' ds = ((view s)(cs \<mapsto> entry_of (smem s' (snext s)))) ds"
    by (cases "look s ds") (simp_all add: tree_view_def look)
qed

section \<open>Creating the missing directories\<close>

definition dir_entry :: "u64 \<Rightarrow> entry" where
  "dir_entry i = \<lparr>content = DirC, created = i, modified = i, expires = 0\<rparr>"

text \<open>A view with the missing ones among the prefixes of \<open>cs\<close> that satisfy \<open>P\<close> made directories.\<close>

definition fill_dirs :: "(string list \<Rightarrow> bool) \<Rightarrow> u64 \<Rightarrow> tree_view \<Rightarrow> tree_view" where
  "fill_dirs P i v = (\<lambda>ds. if P ds \<and> v ds = None then Some (dir_entry i) else v ds)"

lemma fill_dirs_None: "(\<And>ds. P ds \<Longrightarrow> v ds \<noteq> None) \<Longrightarrow> fill_dirs P i v = v"
  by (auto simp: fill_dirs_def)

definition only_tree :: "store \<Rightarrow> store \<Rightarrow> bool" where
  "only_tree s s' \<longleftrightarrow>
     Root s' = Root s \<and> WatcherHub s' = WatcherHub s \<and> CurrentIndex s' = CurrentIndex s \<and>
     Stats s' = Stats s \<and> CurrentVersion s' = CurrentVersion s \<and> entry_frame s s'"

lemma only_tree_refl [simp]: "only_tree s s"
  by (simp add: only_tree_def)

lemma only_tree_trans: "only_tree s s' \<Longrightarrow> only_tree s' s'' \<Longrightarrow> only_tree s s''"
  unfolding only_tree_def using entry_frame_trans by fastforce

lemma strict_prefix_le: "prefix ds (cs @ [c]) \<longleftrightarrow> prefix ds cs \<or> ds = cs @ [c]"
  by (simp add: prefix_snoc disj_commute)

lemma checkDir_new:
  assumes inv: "core_inv {} s" and a: "look s cs = Some a" "IsDir (smem s a)"
    and c: "child (smem s) a c = None" "valid_name c"
  shows "\<exists>n s'. checkDir a c s = Some (Inr n, s') \<and> core_inv {} s' \<and> only_tree s s' \<and>
    look s' (cs @ [c]) = Some n \<and> IsDir (smem s' n) \<and> (\<forall>d. child (smem s') n d = None) \<and>
    view s' = (view s)(cs @ [c] \<mapsto> dir_entry (CurrentIndex s + 1))"
proof -
  let ?x = "newDir (path_Join [Path (smem s a), c]) (CurrentIndex s + 1) (Some a) (ACL (smem s a)) Permanent"
  have p: "path_Join [Path (smem s a), c] = render (cs @ [c])"
    using tree_okD(1,3) [OF core_invD(1) [OF inv] a(1)] c(2) by (simp add: path_Join_render)
  from insert_node [OF inv a c, of ?x] obtain s' where
    s': "put_child a c (snext s) (snd (alloc ?x s)) = Some s'"
    "s' = s\<lparr>smem := smem s', snext := snext s + 1\<rparr>" "smem s' (snext s) = ?x" "core_inv {} s'"
    "entry_frame s s'" "\<And>ds. look s' ds = (if ds = cs @ [c] then Some (snext s) else look s ds)"
    by (auto simp: newDir_def Permanent_def p)
  have "checkDir a c s = Some (Inr (snext s), s')"
    using c(1) s'(1) by (simp add: checkDir_def alloc_def)
  moreover have "only_tree s s'" unfolding only_tree_def using s'(5) by (subst s'(2), subst s'(2), subst s'(2), subst s'(2), subst s'(2)) simp
  moreover have "view s' = (view s)(cs @ [c] \<mapsto> dir_entry (CurrentIndex s + 1))"
    using view_insert [OF inv s'(5,6)] s'(3) by (simp add: newDir_def entry_of_def dir_entry_def Permanent_def)
  ultimately show ?thesis using s'(3,4,6) by (simp add: IsDir_def newDir_def child_def)
qed


lemma blocked_file: "\<not> IsDir (m a) \<Longrightarrow> blocked (tree_view m a) (cs @ [x])"
  by (cases cs) simp_all

lemma blocked_empty: "IsDir (m a) \<Longrightarrow> (\<And>d. child m a d = None) \<Longrightarrow> \<not> blocked (tree_view m a) (cs @ [x])"
  by (cases cs) simp_all

text \<open>
  The walk fails at the first file on the way, before it has created anything; otherwise it
  makes directories of the missing prefixes.
\<close>

lemma walk_dirs:
  "core_inv {} s \<Longrightarrow> look s pre = Some a \<Longrightarrow> IsDir (smem s a) \<Longrightarrow> valid_names cs \<Longrightarrow>
   \<exists>r s'. walk_loop checkDir cs a s = Some (r, s') \<and>
     (if blocked (tree_view (smem s) a) (cs @ [x])
      then s' = s \<and> (\<exists>err. r = Inl err \<and> ErrorCode err = EcodeNotDir)
      else \<exists>d. r = Inr d \<and> core_inv {} s' \<and> only_tree s s' \<and> look s' (pre @ cs) = Some d \<and>
        IsDir (smem s' d) \<and> (look s (pre @ cs) \<noteq> None \<longrightarrow> s' = s) \<and>
        view s' = fill_dirs (\<lambda>ds. prefix ds (pre @ cs)) (CurrentIndex s + 1) (view s))"
proof (induction cs arbitrary: a pre s)
  case Nil
  then have "fill_dirs (\<lambda>ds. prefix ds pre) i (view s) = view s" for i
    using lookup_prefix_None view_None by (intro fill_dirs_None) (metis option.distinct(1))
  then show ?case using Nil by simp
next
  case (Cons c cs)
  have c: "valid_name c" "c \<noteq> []" using Cons.prems(4) by (auto simp: valid_name_def)
  have v: "valid_names cs" using Cons.prems(4) by simp
  show ?case
  proof (cases "child (smem s) a c")
    case (Some b)
    show ?thesis
    proof (cases "IsDir (smem s b)")
      case True
      have "look s (pre @ [c]) = Some b" using Cons.prems(2) Some by (simp add: lookup_snoc)
      note IH = Cons.IH [OF Cons.prems(1) this True v]
      have 1: "walk_loop checkDir (c # cs) a s = walk_loop checkDir cs b s"
        using Some True c(2) by (simp add: checkDir_def)
      have 2: "blocked (tree_view (smem s) a) ((c # cs) @ [x]) = blocked (tree_view (smem s) b) (cs @ [x])"
        using Some Cons.prems(3) by simp
      have 3: "pre @ c # cs = (pre @ [c]) @ cs" by simp
      show ?thesis unfolding 1 2 3 by (rule IH)
    next
      case False
      then show ?thesis
        using Some c(2) Cons.prems(3) blocked_file [of "smem s" b cs x] by (simp add: checkDir_def)
    qed
  next
    case None
    from checkDir_new [OF Cons.prems(1-3) None c(1)] obtain n s1 where
      s1: "checkDir a c s = Some (Inr n, s1)" "core_inv {} s1" "only_tree s s1" "look s1 (pre @ [c]) = Some n"
      "IsDir (smem s1 n)" "\<And>d. child (smem s1) n d = None"
      "view s1 = (view s)(pre @ [c] \<mapsto> dir_entry (CurrentIndex s + 1))" by blast
    have "\<not> blocked (tree_view (smem s1) n) (cs @ [x])" using blocked_empty [OF s1(5,6)] .
    with Cons.IH [OF s1(2,4,5) v] obtain d s' where
      s': "walk_loop checkDir cs n s1 = Some (Inr d, s')" "core_inv {} s'" "only_tree s1 s'"
      "look s' (pre @ c # cs) = Some d" "IsDir (smem s' d)"
      "view s' = fill_dirs (\<lambda>ds. prefix ds (pre @ c # cs)) (CurrentIndex s1 + 1) (view s1)" by auto
    have old: "look s (pre @ [c]) = None" using None Cons.prems(2) by (simp add: lookup_snoc)
    have "look s (pre @ c # cs) = None" using lookup_prefix_None [OF old, of "pre @ c # cs"] by simp
    moreover have "only_tree s s'" using only_tree_trans [OF s1(3) s'(3)] .
    moreover have "CurrentIndex s1 = CurrentIndex s" using s1(3) by (simp add: only_tree_def)
    then have "view s' = fill_dirs (\<lambda>ds. prefix ds (pre @ c # cs)) (CurrentIndex s + 1) (view s)"
      using s'(6) s1(7) old by (auto simp: fill_dirs_def view_None fun_eq_iff)
    moreover have "\<not> blocked (tree_view (smem s) a) ((c # cs) @ [x])" using None Cons.prems(3) by simp
    ultimately show ?thesis using s1(1) s'(1,2,4,5) c(2) by simp
  qed
qed

section \<open>The new node\<close>

definition new_entry :: "bool \<Rightarrow> string \<Rightarrow> u64 \<Rightarrow> time \<Rightarrow> entry" where
  "new_entry dir value i t =
     \<lparr>content = (if dir then DirC else FileC value), created = i, modified = i, expires = t\<rparr>"

text \<open>What the event of a create or set says of the new node.\<close>

definition created_event :: "event \<Rightarrow> string \<Rightarrow> string list \<Rightarrow> bool \<Rightarrow> string \<Rightarrow> u64 \<Rightarrow> bool" where
  "created_event e action cs dir value i \<longleftrightarrow>
     Action e = action \<and> Key (ENode e) = render cs \<and> EvIndex e = i \<and> ECreatedIndex (ENode e) = i \<and>
     EDir (ENode e) = dir \<and> EValue (ENode e) = (if dir then None else Some value)"

definition after_create :: "store \<Rightarrow> store \<Rightarrow> bool" where
  "after_create s s' \<longleftrightarrow>
     Root s' = Root s \<and> WatcherHub s' = WatcherHub s \<and> CurrentIndex s' = CurrentIndex s + 1 \<and>
     Stats s' = Stats s \<and> CurrentVersion s' = CurrentVersion s \<and> entry_frame s s'"

lemma create_finish_spec:
  assumes inv: "core_inv {} s" and d: "look s cs = Some d" "IsDir (smem s d)"
    and c: "child (smem s) d c = None" "valid_name c"
    and e: "Action e = action" "Key (ENode e) = render (cs @ [c])" "EvIndex e = CurrentIndex s + 1"
      "ECreatedIndex (ENode e) = CurrentIndex s + 1" "\<not> EDir (ENode e)" "EValue (ENode e) = None"
  shows "\<exists>e' s'. create_finish now (render (cs @ [c])) d dir value t (CurrentIndex s + 1) e s = Some (Inr e', s') \<and>
    core_inv {} s' \<and> after_create s s' \<and> created_event e' action (cs @ [c]) dir value (CurrentIndex s + 1) \<and>
    PrevNode e' = PrevNode e \<and>
    view s' = (view s)(cs @ [c] \<mapsto> new_entry dir value (CurrentIndex s + 1) t)"
proof -
  let ?i = "CurrentIndex s + 1" and ?p = "render (cs @ [c])" and ?n = "snext s"
  define x where "x = (if \<not> dir then newKV ?p value ?i (Some d) [] t else newDir ?p ?i (Some d) [] t)"
  define eN where "eN = (if \<not> dir then set_EValue value (ENode e) else set_EDir (ENode e))"
  have x: "Path x = ?p" "Parent x = Some d" "Children x \<in> {None, Some []}" "ExpireTime x = t"
    "entry_of x = new_entry dir value ?i t"
    by (auto simp: x_def newKV_def newDir_def entry_of_def new_entry_def)
  from insert_node [OF inv d c x(1-3)] x(4) obtain s2 where
    s2: "put_child d c ?n (snd (alloc x s)) = Some s2" "s2 = s\<lparr>smem := smem s2, snext := ?n + 1\<rparr>"
    "smem s2 ?n = x" "core_inv (if t = 0 then {} else {?n}) s2" "entry_frame s s2"
    "\<And>ds. look s2 ds = (if ds = cs @ [c] then Some ?n else look s ds)" by auto
  have dn: "d < ?n" using tree_okD(2) [OF core_invD(1) [OF inv] d(1)] .
  have vn: "valid_names cs" using tree_okD(1) [OF core_invD(1) [OF inv] d(1)] .
  have child: "child (smem (snd (alloc x s))) d c = None" "IsDir (smem (snd (alloc x s)) d)"
    "Path (smem (snd (alloc x s)) ?n) = ?p"
    using c d(2) dn x(1) by (auto simp: alloc_def child_def IsDir_def)
  have add: "Add (snd (alloc x s)) d ?n = Some (None, s2)"
    using child s2(1) vn c(2) by (simp add: Add_def path_Split_render)
  have fields: "Root s2 = Root s" "WatcherHub s2 = WatcherHub s" "CurrentIndex s2 = CurrentIndex s"
    "Stats s2 = Stats s" "CurrentVersion s2 = CurrentVersion s" "TtlKeyHeap s2 = TtlKeyHeap s"
    by (subst s2(2), simp)+
  define e' where "e' = (if t \<noteq> 0 then e\<lparr>ENode := set_Expiration (ExpirationAndTTL (smem s2) now ?n) eN\<rparr>
    else e\<lparr>ENode := eN\<rparr>)"
  define s' where "s' = set_index ?i (if t \<noteq> 0 then s2\<lparr>TtlKeyHeap := ttl_push (smem s2) (TtlKeyHeap s2) ?n\<rparr> else s2)"
  have fin: "create_finish now ?p d dir value t ?i e s = Some (Inr e', s')"
  proof -
    obtain s1 where al: "alloc x s = (?n, s1)" by (simp add: alloc_def)
    then have add1: "Add s1 d ?n = Some (None, s2)" using add by simp
    have "(if \<not> dir then (set_EValue value (ENode e), newKV ?p value ?i (Some d) [] t)
      else (set_EDir (ENode e), newDir ?p ?i (Some d) [] t)) = (eN, x)" by (simp add: eN_def x_def)
    then show ?thesis
      by (simp only: create_finish_def Let_def al prod.case)
        (simp add: add1 s2(3) x(4) IsPermanent_def e'_def s'_def)
  qed
  have "core_inv {} s'"
  proof (cases "t = 0")
    case True
    then show ?thesis using s2(4) by (simp add: s'_def set_index_def core_inv_def)
  next
    case False
    then have ci: "core_inv {?n} s2" using s2(4) by simp
    have nin: "?n \<notin> set (array (TtlKeyHeap s2))" using core_invD(3) [OF ci] by simp
    have "?n \<in> ttl_nodes (smem s2) (Root s2)"
      using s2(3,6) x(4) False by (auto simp: ttl_nodes_def intro: exI [of _ "cs @ [c]"])
    then show ?thesis
      using core_invD [OF ci] ttl_push_ok [OF core_invD(2) [OF ci] nin] False
      by (auto simp: s'_def set_index_def core_inv_def)
  qed
  moreover have "after_create s s'"
    using fields s2(5) by (simp add: after_create_def s'_def set_index_def entry_frame_def)
  moreover have "created_event e' action (cs @ [c]) dir value ?i" "PrevNode e' = PrevNode e"
    using e by (simp_all add: created_event_def e'_def eN_def EvIndex_def)
  moreover have "view s' = (view s)(cs @ [c] \<mapsto> new_entry dir value ?i t)"
    using view_insert [OF inv s2(5,6)] s2(3) x(5) fields by (simp add: s'_def set_index_def)
  ultimately show ?thesis using fin by blast
qed


section \<open>\<open>internalCreate\<close>\<close>

definition effective_expire :: "time \<Rightarrow> time" where
  "effective_expire t = (if t < minExpireTime then 0 else t)"

text \<open>The view with \<open>x\<close> at \<open>cs\<close>, and directories for the prefixes that were missing.\<close>

definition put_view :: "string list \<Rightarrow> entry \<Rightarrow> u64 \<Rightarrow> tree_view \<Rightarrow> tree_view" where
  "put_view cs x i v = (fill_dirs (\<lambda>ds. strict_prefix ds cs) i v)(cs \<mapsto> x)"

lemma file_no_below: "is_file (view s) cs \<Longrightarrow> strict_prefix cs ds \<Longrightarrow> look s ds = None"
proof -
  assume f: "is_file (view s) cs" and p: "strict_prefix cs ds"
  from p obtain d es where ds: "ds = cs @ d # es" by (auto elim: strict_prefixE')
  show "look s ds = None"
    using f unfolding ds is_file_look by (auto simp: lookup_append child_def IsDir_def)
qed

lemma look_view_cong: "look s' ds = look s ds \<Longrightarrow> (\<And>x. entry_of (smem s' x) = entry_of (smem s x)) \<Longrightarrow> view s' ds = view s ds"
  by (simp add: tree_view_def)

lemma remove_file:
  assumes inv: "core_inv {} s" and n: "look s cs = Some n" "\<not> IsDir (smem s n)" "cs \<noteq> []"
  shows "\<exists>s'. Remove (Suc (snext s)) None n dir recu s = Some (None, s') \<and> core_inv {} s' \<and> only_tree s s' \<and>
    view s' = (view s)(cs := None) \<and> (\<forall>ds. ds \<noteq> cs \<longrightarrow> look s' ds = look s ds) \<and> look s' cs = None \<and>
    (\<forall>x. IsDir (smem s' x) = IsDir (smem s x))"
proof -
  have cb: "cb_ok None (\<lambda>_. True)" by (simp add: cb_ok_def run_cb_def)
  have leaf: "Children (smem s n) = None" using n(2) by (simp add: IsDir_def)
  from Remove_spec [OF cb inv _ n(1,3), of "Suc (snext s)" dir recu] leaf obtain s' where
    s': "Remove (Suc (snext s)) None n dir recu s = Some (None, s')" "removed_sub None (\<lambda>_. True) {} (prefix cs) s s'"
    by auto
  have rf: "rm_frame s s'" and ci: "core_inv {} s'" and hub: "WatcherHub s' = WatcherHub s"
    using s'(2) by (auto simp: removed_sub_def run_cb_def)
  note at = same_attrsD [OF rm_frameD(1) [OF rf]]
  have nf: "is_file (view s) cs" using n by (auto simp: is_file_look)
  have look: "look s' ds = (if ds = cs then None else look s ds)" for ds
    using s'(2) file_no_below [OF nf, of ds] by (auto simp: removed_sub_def strict_prefix_def)
  then have "view s' = (view s)(cs := None)"
    using at(5) by (auto simp: tree_view_def fun_eq_iff)
  moreover have "only_tree s s'"
    using rm_frameD [OF rf] hub at(5) by (simp add: only_tree_def entry_frame_def)
  moreover have "IsDir (smem s' x) = IsDir (smem s x)" for x using at(4) [of x] by (simp add: IsDir_def)
  ultimately show ?thesis using s'(1) ci look by (simp del: Remove.simps)
qed

definition create_ok :: "time \<Rightarrow> string \<Rightarrow> string list \<Rightarrow> bool \<Rightarrow> string \<Rightarrow> time \<Rightarrow> store \<Rightarrow> event \<Rightarrow> store \<Rightarrow> bool" where
  "create_ok now action cs dir value t s e s' \<longleftrightarrow>
     core_inv {} s' \<and> after_create s s' \<and>
     created_event e action cs dir value (CurrentIndex s + 1) \<and>
     ext_matches (smem s) now (look s cs) (PrevNode e) \<and>
     view s' = put_view cs (new_entry dir value (CurrentIndex s + 1) t) (CurrentIndex s + 1) (view s)"

lemma create_at_spec:
  assumes inv: "core_inv {} s" and d: "look s cs = Some d" "IsDir (smem s d)" and c: "valid_name c"
  shows "let p = render (cs @ [c]);
             r = create_at now p c d dir value replace t action (CurrentIndex s) s in
    if view s (cs @ [c]) \<noteq> None \<and> \<not> replace then r = Some (Inl (NewError EcodeNodeExist p (CurrentIndex s)), s)
    else if view s (cs @ [c]) \<noteq> None \<and> \<not> is_file (view s) (cs @ [c])
      then r = Some (Inl (NewError EcodeNotFile p (CurrentIndex s)), s)
    else \<exists>e s'. r = Some (Inr e, s') \<and> core_inv {} s' \<and> after_create s s' \<and>
      created_event e action (cs @ [c]) dir value (CurrentIndex s + 1) \<and>
      ext_matches (smem s) now (look s (cs @ [c])) (PrevNode e) \<and>
      view s' = (view s)(cs @ [c] \<mapsto> new_entry dir value (CurrentIndex s + 1) t)"
proof (cases "child (smem s) d c")
  case None
  then have v: "look s (cs @ [c]) = None" using d(1) by (simp add: lookup_snoc)
  from create_finish_spec [OF inv d None c, of "newEvent action (render (cs @ [c])) (CurrentIndex s + 1) (CurrentIndex s + 1)"]
  show ?thesis using v None d(2)
    by (auto simp: create_at_def Let_def GetChild_def view_None ext_matches_def)
next
  case (Some n)
  then have n: "look s (cs @ [c]) = Some n" using d(1) by (simp add: lookup_snoc)
  have f: "is_file (view s) (cs @ [c]) \<longleftrightarrow> \<not> IsDir (smem s n)" using n by (simp add: is_file_look)
  show ?thesis
  proof (cases "replace \<and> \<not> IsDir (smem s n)")
    case False
    then show ?thesis using Some d(2) n f
      by (auto simp: create_at_def Let_def GetChild_def view_None)
  next
    case True
    note ok = core_invD(1) [OF inv]
    have "\<exists>p. Repr (Suc (snext s)) (smem s) now False False n = Some p \<and> attrs (smem s) now n p"
      using Repr_spec [OF ok n, of "Suc (snext s)"] by fastforce
    then obtain p where p: "Repr (Suc (snext s)) (smem s) now False False n = Some p" "attrs (smem s) now n p" by blast
    from remove_file [OF inv n, of False False] True obtain s1 where
      s1: "Remove (Suc (snext s)) None n False False s = Some (None, s1)" "core_inv {} s1" "only_tree s s1"
      "view s1 = (view s)(cs @ [c] := None)" "\<forall>ds. ds \<noteq> cs @ [c] \<longrightarrow> look s1 ds = look s ds" "look s1 (cs @ [c]) = None"
      "\<forall>x. IsDir (smem s1 x) = IsDir (smem s x)" by auto
    have d1: "look s1 cs = Some d" "IsDir (smem s1 d)" using s1(5,7) d by simp_all
    have c1: "child (smem s1) d c = None" using s1(6) d1(1) by (simp add: lookup_snoc)
    have i1: "CurrentIndex s1 = CurrentIndex s" using s1(3) by (simp add: only_tree_def)
    let ?e = "newEvent action (render (cs @ [c])) (CurrentIndex s + 1) (CurrentIndex s + 1)\<lparr>PrevNode := Some p\<rparr>"
    from create_finish_spec [OF s1(2) d1 c1 c, of ?e action now dir "value" t] i1 obtain e s' where
      e: "create_finish now (render (cs @ [c])) d dir value t (CurrentIndex s + 1) ?e s1 = Some (Inr e, s')"
      "core_inv {} s'" "after_create s1 s'" "created_event e action (cs @ [c]) dir value (CurrentIndex s + 1)"
      "PrevNode e = Some p" "view s' = (view s1)(cs @ [c] \<mapsto> new_entry dir value (CurrentIndex s + 1) t)"
      by (auto simp: EvIndex_def)
    have "after_create s s'"
      using e(3) s1(3) entry_frame_trans by (auto simp: after_create_def only_tree_def)
    moreover have "create_at now (render (cs @ [c])) c d dir value replace t action (CurrentIndex s) s = Some (Inr e, s')"
      using Some d(2) True p(1) s1(1) e(1) by (simp add: create_at_def Let_def GetChild_def)
    ultimately show ?thesis using True f n e p(2) s1(4)
      by (simp add: Let_def ext_matches_def)
  qed
qed

lemma walk_loop_end: "walk_loop f (cs @ [[]]) a s = walk_loop f cs a s"
  by (induction cs arbitrary: a s) (auto split: option.splits sum.splits)

lemma put_fill:
  "(fill_dirs (\<lambda>ds. prefix ds cs) i v)(cs @ [c] \<mapsto> x) = put_view (cs @ [c]) x i v"
  by (auto simp: put_view_def fill_dirs_def fun_eq_iff strict_prefix_def prefix_snoc)

text \<open>The names a create or set works on.\<close>

definition create_names :: "string \<Rightarrow> bool \<Rightarrow> u64 \<Rightarrow> string list" where
  "create_names p unique i = key_names (if unique then p @ ''/'' @ FormatUint (unat (i + 1)) else p)"

lemma create_names_valid [simp]: "valid_names (create_names p unique i)"
  by (simp add: create_names_def)

lemma internalCreate_spec:
  fixes p unique s
  defines "cs \<equiv> create_names p unique (CurrentIndex s)"
  assumes inv: "core_inv {} s"
  shows "let r = internalCreate now p dir value unique replace t action s in
    if cs = [] then r = Some (Inl (NewError EcodeRootROnly ''/'' (CurrentIndex s)), s)
    else if blocked (view s) cs then
      \<exists>err. r = Some (Inl err, inc_stat SetFail s) \<and> ErrorCode err = EcodeNotDir \<and> ErrIndex err = CurrentIndex s
    else if view s cs \<noteq> None \<and> \<not> replace then
      r = Some (Inl (NewError EcodeNodeExist (render cs) (CurrentIndex s)), s)
    else if view s cs \<noteq> None \<and> \<not> is_file (view s) cs then
      r = Some (Inl (NewError EcodeNotFile (render cs) (CurrentIndex s)), s)
    else \<exists>e s'. r = Some (Inr e, s') \<and> create_ok now action cs dir value (effective_expire t) s e s'"
proof -
  have path: "path_Clean (path_Join [''/'', if unique then p @ ''/'' @ FormatUint (unat (CurrentIndex s + 1)) else p]) = render cs"
    unfolding Clean_Join_key cs_def create_names_def ..
  have v: "valid_names cs" by (simp add: cs_def)
  show ?thesis
  proof (cases "cs = []")
    case True
    then show ?thesis by (simp add: internalCreate_def Let_def path render_Nil)
  next
    case False
    then obtain ds c where cs: "cs = ds @ [c]" by (metis rev_exhaust)
    have vd: "valid_names ds" "valid_name c" using v cs by simp_all
    let ?t = "effective_expire t"
    have t: "(if t < minExpireTime then Permanent else t) = ?t" by (simp add: effective_expire_def Permanent_def)
    have ne: "render cs \<noteq> ''/''" using v False by simp
    have walk: "walk (render_dir ds) checkDir s = walk_loop checkDir ds (Root s) s"
      by (simp add: walk_def Split_render_dir [OF vd(1)] walk_loop_end)
    have r: "internalCreate now p dir value unique replace t action s =
      (case walk_loop checkDir ds (Root s) s of
                None \<Rightarrow> None
              | Some (Inl err, s1) \<Rightarrow> Some (Inl (err\<lparr>ErrIndex := CurrentIndex s\<rparr>), inc_stat SetFail s1)
              | Some (Inr d, s1) \<Rightarrow>
                  create_at now (render cs) c d dir value replace ?t action (CurrentIndex s) s1)"
      unfolding internalCreate_def Let_def path t using ne
      by (simp add: path_Split_render [OF vd(2), of ds, folded cs] walk)
    have root: "IsDir (smem s (Root s))" using tree_ok_root(1) [OF core_invD(1) [OF inv]] by (simp add: IsDir_def)
    note wd = walk_dirs [OF inv _ root vd(1), of "[]" c, unfolded append_Nil, OF lookup.simps(1), folded cs]
    from wd obtain r' s1 where
      w: "walk_loop checkDir ds (Root s) s = Some (r', s1)"
      "if blocked (view s) cs
      then s1 = s \<and> (\<exists>err. r' = Inl err \<and> ErrorCode err = EcodeNotDir)
      else \<exists>d. r' = Inr d \<and> core_inv {} s1 \<and> only_tree s s1 \<and> look s1 ds = Some d \<and>
        IsDir (smem s1 d) \<and> (look s ds \<noteq> None \<longrightarrow> s1 = s) \<and>
        view s1 = fill_dirs (\<lambda>es. prefix es ds) (CurrentIndex s + 1) (view s)"
      by blast
    show ?thesis
    proof (cases "blocked (view s) cs")
      case True
      then show ?thesis using w r False by (auto simp: Let_def)
    next
      case nb: False
      then obtain d where d: "r' = Inr d" "core_inv {} s1" "only_tree s s1" "look s1 ds = Some d"
        "IsDir (smem s1 d)" "look s ds \<noteq> None \<Longrightarrow> s1 = s"
        "view s1 = fill_dirs (\<lambda>es. prefix es ds) (CurrentIndex s + 1) (view s)" using w(2) by auto
      have i1: "CurrentIndex s1 = CurrentIndex s" using d(3) by (simp add: only_tree_def)
      have r2: "internalCreate now p dir value unique replace t action s =
          create_at now (render cs) c d dir value replace ?t action (CurrentIndex s1) s1"
        using r w(1) d(1) i1 by simp
      have vcs: "view s1 cs = view s cs" using d(7) by (auto simp: fill_dirs_def cs)
      have same: "s1 = s" if "look s cs \<noteq> None"
      proof (rule d(6))
        show "look s ds \<noteq> None" using lookup_prefix_None [of "smem s" "Root s" ds cs] that by (metis cs prefixI)
      qed
      note at = create_at_spec [OF d(2,4,5) vd(2), of now dir "value" replace ?t action, folded cs, unfolded Let_def]
      show ?thesis
      proof (cases "view s cs \<noteq> None \<and> (\<not> replace \<or> \<not> is_file (view s) cs)")
        case True
        then have "look s cs \<noteq> None" by (simp add: view_None)
        then have "s1 = s" by (rule same)
        then show ?thesis using at True r2 nb False by (auto simp: Let_def)
      next
        case okc: False
        have "is_file (view s1) cs = is_file (view s) cs" using vcs by (simp add: is_file_def)
        then obtain e s' where e: "internalCreate now p dir value unique replace t action s = Some (Inr e, s')"
          "core_inv {} s'" "after_create s1 s'" "created_event e action cs dir value (CurrentIndex s1 + 1)"
          "ext_matches (smem s1) now (look s1 cs) (PrevNode e)"
          "view s' = (view s1)(cs \<mapsto> new_entry dir value (CurrentIndex s1 + 1) ?t)"
          using at okc r2 vcs by (auto split: if_splits)
        have "after_create s s'" using e(3) d(3) entry_frame_trans by (auto simp: after_create_def only_tree_def)
        moreover have "ext_matches (smem s) now (look s cs) (PrevNode e)"
        proof (cases "look s cs")
          case None
          then have "look s1 cs = None" using vcs view_None by metis
          then show ?thesis using e(5) None by (simp add: ext_matches_def)
        next
          case (Some n)
          then show ?thesis using same e(5) by simp
        qed
        moreover have "view s' = put_view cs (new_entry dir value (CurrentIndex s + 1) ?t) (CurrentIndex s + 1) (view s)"
          unfolding e(6) d(7) i1 cs by (rule put_fill)
        ultimately have "create_ok now action cs dir value ?t s e s'"
          using e(2,4) i1 by (simp add: create_ok_def)
        then show ?thesis using e(1) nb False okc by (auto simp: Let_def)
      qed
    qed
  qed
qed

end
