(* ===== verification/EtcdOps.thy ===== *)
theory EtcdOps
  imports EtcdCreate
begin

text \<open>
  The store's operations implement an abstract key-value tree: the invariant of the store,
  the abstract operations on a map from paths to entries and an index, and for every
  operation that it returns (no panic), keeps the invariant, answers with the abstract
  operation's error code or success and changes the tree and the index as it does.
\<close>

section \<open>The invariant\<close>

definition store_inv :: "store \<Rightarrow> bool" where
  "store_inv s \<longleftrightarrow>
     core_inv {} s \<and> hub_inv (WatcherHub s) \<and> LastIndex (EHistory (WatcherHub s)) = CurrentIndex s"

lemma store_invD:
  assumes "store_inv s"
  shows "core_inv {} s" "hub_inv (WatcherHub s)" "LastIndex (EHistory (WatcherHub s)) = CurrentIndex s"
  using assms by (simp_all add: store_inv_def)

lemma store_inv_inc_stat [simp]: "store_inv (inc_stat k s) = store_inv s"
  by (simp add: store_inv_def core_inv_def inc_stat_def)

lemma inc_stat_fields [simp]:
  "smem (inc_stat k s) = smem s" "snext (inc_stat k s) = snext s" "Root (inc_stat k s) = Root s"
  "WatcherHub (inc_stat k s) = WatcherHub s" "CurrentIndex (inc_stat k s) = CurrentIndex s"
  "TtlKeyHeap (inc_stat k s) = TtlKeyHeap s" "Stats (inc_stat k s) = Inc (Stats s) k"
  by (simp_all add: inc_stat_def)

lemma set_index_fields [simp]:
  "smem (set_index i s) = smem s" "snext (set_index i s) = snext s" "Root (set_index i s) = Root s"
  "WatcherHub (set_index i s) = WatcherHub s" "CurrentIndex (set_index i s) = i"
  "TtlKeyHeap (set_index i s) = TtlKeyHeap s" "Stats (set_index i s) = Stats s"
  by (simp_all add: set_index_def)

lemma core_inv_cong:
  "smem s' = smem s \<Longrightarrow> snext s' = snext s \<Longrightarrow> Root s' = Root s \<Longrightarrow> TtlKeyHeap s' = TtlKeyHeap s \<Longrightarrow>
   core_inv X s' = core_inv X s"
  by (simp add: core_inv_def)

lemma core_inv_fields [simp]:
  "core_inv X (inc_stat k s) = core_inv X s" "core_inv X (set_index i s) = core_inv X s"
  "core_inv X (s\<lparr>WatcherHub := hub\<rparr>) = core_inv X s"
  by (simp_all add: core_inv_def)

lemma newStore_inv: "store_inv newStore"
proof -
  let ?m = "smem newStore"
  have ch: "child ?m a c = None" for a c
    by (simp add: child_def newStore_def newDir_def zero_node_def newKV_def)
  have look: "lookup ?m 0 cs = (if cs = [] then Some 0 else None)" for cs
    using ch by (cases cs) simp_all
  have "tree_ok ?m 1 0"
    unfolding tree_ok_def look using ch
    by (auto simp: newStore_def newDir_def Permanent_def render_Nil)
  moreover have "ttl_nodes ?m 0 = {}"
    unfolding ttl_nodes_def look by (simp add: newStore_def newDir_def Permanent_def)
  ultimately have "core_inv {} newStore"
    by (simp add: core_inv_def newStore_def)
  moreover have "hub_inv (newWatchHub 1000)"
    using hist_inv_new [of 1000]
    by (simp add: hub_inv_def hub_core_def nonempty_except_def reg_set_def registered_at_def newWatchHub_def)
  ultimately show ?thesis
    by (simp add: store_inv_def newStore_def newWatchHub_def newEventHistory_def)
qed

section \<open>The abstract store\<close>

record kv =
  ktree :: tree_view
  kindex :: u64

definition abs_store :: "store \<Rightarrow> kv" where
  "abs_store s = \<lparr>ktree = view s, kindex = CurrentIndex s\<rparr>"

lemma abs_inc_stat [simp]: "abs_store (inc_stat k s) = abs_store s"
  by (simp add: abs_store_def)

definition kv_create :: "bool \<Rightarrow> string list \<Rightarrow> bool \<Rightarrow> string \<Rightarrow> time \<Rightarrow> kv \<Rightarrow> int option \<times> kv" where
  "kv_create replace cs dir value t k =
     (let v = ktree k; i = kindex k + 1 in
      if cs = [] then (Some EcodeRootROnly, k)
      else if blocked v cs then (Some EcodeNotDir, k)
      else if v cs \<noteq> None \<and> \<not> replace then (Some EcodeNodeExist, k)
      else if v cs \<noteq> None \<and> \<not> is_file v cs then (Some EcodeNotFile, k)
      else (None, \<lparr>ktree = put_view cs (new_entry dir value i (effective_expire t)) i v, kindex = i\<rparr>))"

definition entry_matches :: "entry \<Rightarrow> string \<Rightarrow> u64 \<Rightarrow> bool" where
  "entry_matches x prevValue prevIndex \<longleftrightarrow>
     (prevIndex = 0 \<or> modified x = prevIndex) \<and> (prevValue = [] \<or> content x = FileC prevValue)"

definition kv_cas :: "string list \<Rightarrow> string \<Rightarrow> u64 \<Rightarrow> string \<Rightarrow> time \<Rightarrow> kv \<Rightarrow> int option \<times> kv" where
  "kv_cas cs prevValue prevIndex value t k =
     (let v = ktree k; i = kindex k + 1 in
      if cs = [] then (Some EcodeRootROnly, k)
      else case v cs of
        None \<Rightarrow> (Some (get_error v cs), k)
      | Some x \<Rightarrow>
          if content x = DirC then (Some EcodeNotFile, k)
          else if \<not> entry_matches x prevValue prevIndex then (Some EcodeTestFailed, k)
          else (None, \<lparr>ktree = v(cs \<mapsto> x\<lparr>content := FileC value, modified := i, expires := t\<rparr>), kindex = i\<rparr>))"

definition kv_update :: "string list \<Rightarrow> string \<Rightarrow> time \<Rightarrow> kv \<Rightarrow> int option \<times> kv" where
  "kv_update cs value t k =
     (let v = ktree k; i = kindex k + 1 in
      if cs = [] then (Some EcodeRootROnly, k)
      else case v cs of
        None \<Rightarrow> (Some (get_error v cs), k)
      | Some x \<Rightarrow>
          if content x = DirC then
            if value \<noteq> [] then (Some EcodeNotFile, k)
            else (None, \<lparr>ktree = v(cs \<mapsto> x\<lparr>expires := t\<rparr>), kindex = i\<rparr>)
          else (None, \<lparr>ktree = v(cs \<mapsto> x\<lparr>content := FileC value, modified := i, expires := t\<rparr>), kindex = i\<rparr>))"

definition cut_view :: "string list \<Rightarrow> tree_view \<Rightarrow> tree_view" where
  "cut_view cs v = (\<lambda>ds. if prefix cs ds then None else v ds)"

definition kv_delete :: "string list \<Rightarrow> bool \<Rightarrow> bool \<Rightarrow> kv \<Rightarrow> int option \<times> kv" where
  "kv_delete cs dir recu k =
     (let v = ktree k; i = kindex k + 1 in
      if cs = [] then (Some EcodeRootROnly, k)
      else case v cs of
        None \<Rightarrow> (Some (get_error v cs), k)
      | Some x \<Rightarrow>
          if content x = DirC \<and> \<not> dir \<and> \<not> recu then (Some EcodeNotFile, k)
          else if content x = DirC \<and> (\<exists>c. v (cs @ [c]) \<noteq> None) \<and> \<not> recu then (Some EcodeDirNotEmpty, k)
          else (None, \<lparr>ktree = cut_view cs v, kindex = i\<rparr>))"

definition kv_cad :: "string list \<Rightarrow> string \<Rightarrow> u64 \<Rightarrow> kv \<Rightarrow> int option \<times> kv" where
  "kv_cad cs prevValue prevIndex k =
     (let v = ktree k; i = kindex k + 1 in
      case v cs of
        None \<Rightarrow> (Some (get_error v cs), k)
      | Some x \<Rightarrow>
          if content x = DirC then (Some EcodeNotFile, k)
          else if \<not> entry_matches x prevValue prevIndex then (Some EcodeTestFailed, k)
          else (None, \<lparr>ktree = cut_view cs v, kindex = i\<rparr>))"

text \<open>
  An operation refines an abstract one: it returns, keeps the invariant, and its answer and
  the state after it are the abstract operation's; an error leaves the watchers and the
  history alone and names the index it happened at.
\<close>

definition err_code :: "etcd_error + 'a \<Rightarrow> int option" where
  "err_code r = (case r of Inl err \<Rightarrow> Some (ErrorCode err) | Inr _ \<Rightarrow> None)"

lemma err_code_simps [simp]: "err_code (Inl err) = Some (ErrorCode err)" "err_code (Inr e) = None"
  by (simp_all add: err_code_def)

definition refines :: "event result \<Rightarrow> (int option \<times> kv) \<Rightarrow> store \<Rightarrow> bool" where
  "refines res a s \<longleftrightarrow>
     (\<exists>r s'. res = Some (r, s') \<and> store_inv s' \<and> (err_code r, abs_store s') = a \<and>
        (\<forall>err. r = Inl err \<longrightarrow> ErrIndex err = CurrentIndex s \<and> WatcherHub s' = WatcherHub s))"

lemma refines_error:
  "store_inv s \<Longrightarrow> a = (Some (ErrorCode err), abs_store s) \<Longrightarrow> ErrIndex err = CurrentIndex s \<Longrightarrow>
   refines (Some (Inl err, s)) a s"
  "store_inv s \<Longrightarrow> a = (Some (ErrorCode err), abs_store s) \<Longrightarrow> ErrIndex err = CurrentIndex s \<Longrightarrow>
   refines (Some (Inl err, inc_stat k s)) a s"
  by (simp_all add: refines_def)

section \<open>Notification\<close>

lemma notify_spec:
  assumes hub: "hub_inv (WatcherHub s)" "LastIndex (EHistory (WatcherHub s)) = i" "i \<noteq> - 1"
    and e: "valid_names cs" "cs \<noteq> []" "Key (ENode e) = render cs" "EvIndex e = i + 1"
  shows "\<exists>hub'. notify e s = Some (s\<lparr>WatcherHub := hub'\<rparr>) \<and> hub_notify (WatcherHub s) e = Some hub' \<and>
    hub_inv hub' \<and> LastIndex (EHistory hub') = i + 1"
proof -
  have h: "hist_inv (EHistory (WatcherHub s))" using hub(1) by (simp add: hub_inv_def)
  have nx: "next_event (EHistory (WatcherHub s)) e"
    using hub(2,3) e(4) by (simp add: next_event_def unat_plus_one)
  from hub_notify_spec [OF hub(1) e(1-3) nx] obtain hub' where
    hub': "hub_notify (WatcherHub s) e = Some hub'" "hub_inv hub'"
    "addEvent (EHistory (WatcherHub s)) e = Some (EHistory hub')" by blast
  from addEvent_list [OF h nx] hub'(3) e(4) have "LastIndex (EHistory hub') = i + 1" by auto
  then show ?thesis using hub' by (simp add: notify_def)
qed

section \<open>Get, Create and Set\<close>

lemma loadInternalNode_spec:
  assumes ok: "tree_ok (smem s) (snext s) (Root s)" and n: "look s cs = Some n"
  shows "\<exists>e'. loadInternalNode s now n recu srt (ENode (newEvent a (render cs) (ModifiedIndex (smem s n)) (CreatedIndex (smem s n)))) = Some e' \<and>
    attrs (smem s) now n e' \<and>
    (\<forall>es. valid_names es \<longrightarrow> recu \<or> length es \<le> 1 \<longrightarrow>
       ext_matches (smem s) now (visible_at (smem s) n es) (ext_lookup e' (prefix_paths cs es)))"
proof -
  let ?e = "ENode (newEvent a (render cs) (ModifiedIndex (smem s n)) (CreatedIndex (smem s n)))"
  have p: "Path (smem s n) = render cs" using tree_okD(3) [OF ok n] .
  show ?thesis
  proof (cases "Children (smem s n)")
    case None
    let ?e' = "set_Expiration (ExpirationAndTTL (smem s) now n) (set_EValue (Value (smem s n)) ?e)"
    have at: "attrs (smem s) now n ?e'"
      using None p by (simp add: attrs_def IsDir_def)
    have "ext_matches (smem s) now (visible_at (smem s) n es) (ext_lookup ?e' (prefix_paths cs es))" for es
      using None at by (cases es) (simp_all add: ext_matches_def prefix_paths_Cons child_def find_node_def)
    moreover have "loadInternalNode s now n recu srt ?e = Some ?e'"
      using None by (simp add: loadInternalNode_def Read_def IsDir_def)
    ultimately show ?thesis using at by blast
  next
    case (Some ch)
    let ?f = "Repr (Suc (snext s)) (smem s) now recu srt"
    have R: "\<exists>e. ?f b = Some e \<and> attrs (smem s) now b e \<and> (\<forall>es. valid_names es \<longrightarrow> recu \<or> es = [] \<longrightarrow>
         ext_matches (smem s) now (visible_at (smem s) b es) (ext_lookup e (prefix_paths (cs @ [c]) es)))"
      if "child (smem s) n c = Some b" for c b
      using Repr_spec [OF ok, of "cs @ [c]" b "Suc (snext s)" now recu srt] n that
      by (simp add: lookup_snoc del: Repr.simps)
    have "\<forall>c b. child (smem s) n c = Some b \<longrightarrow> (\<exists>e. ?f b = Some e \<and> Key e = Path (smem s b))"
      using R by (meson attrs_def)
    from children_repr [OF ok n Some this] obtain vs ns where
      vs: "visible (smem s) (map snd ch) = Some vs" "those (map ?f vs) = Some ns" "distinct (map Key ns)"
      "\<forall>c. valid_name c \<longrightarrow> find_node ns (render (cs @ [c])) =
        (if hidden_name c then None else case child (smem s) n c of None \<Rightarrow> None | Some b \<Rightarrow> ?f b)" by blast
    let ?ns = "if srt then sort_NodeExterns ns else ns"
    let ?e' = "set_Expiration (ExpirationAndTTL (smem s) now n) (set_Nodes ?ns (set_EDir ?e))"
    have at: "attrs (smem s) now n ?e'"
      using Some p by (simp add: attrs_def IsDir_def)
    have "ext_matches (smem s) now (visible_at (smem s) n es) (ext_lookup ?e' (prefix_paths cs es))"
      if "valid_names es" "recu \<or> length es \<le> 1" for es
    proof (cases es)
      case Nil
      then show ?thesis using at by (simp add: ext_matches_def)
    next
      case (Cons c es')
      then have fn: "find_node ?ns (render (cs @ [c])) =
          (if hidden_name c then None else case child (smem s) n c of None \<Rightarrow> None | Some b \<Rightarrow> ?f b)"
        using vs(3,4) that by (simp add: find_node_sort)
      show ?thesis
      proof (cases "hidden_name c \<or> child (smem s) n c = None")
        case True
        then show ?thesis using fn Cons by (auto simp: prefix_paths_Cons ext_matches_def)
      next
        case False
        then obtain b where b: "child (smem s) n c = Some b" by blast
        from R [OF this] obtain e' where e': "?f b = Some e'" "\<forall>es. valid_names es \<longrightarrow> recu \<or> es = [] \<longrightarrow>
          ext_matches (smem s) now (visible_at (smem s) b es) (ext_lookup e' (prefix_paths (cs @ [c]) es))" by blast
        then have "ext_matches (smem s) now (visible_at (smem s) b es') (ext_lookup e' (prefix_paths (cs @ [c]) es'))"
          using that Cons by auto
        then show ?thesis using fn Cons b False e'(1) by (simp add: prefix_paths_Cons del: Repr.simps)
      qed
    qed
    moreover have "loadInternalNode s now n recu srt ?e = Some ?e'"
      using Some vs(1,2) by (simp add: loadInternalNode_def del: Repr.simps)
    ultimately show ?thesis using at by blast
  qed
qed

lemma store_Get_spec:
  assumes inv: "store_inv s"
  shows "\<exists>r s'. store_Get now p recu srt s = Some (r, s') \<and> store_inv s' \<and> abs_store s' = abs_store s \<and>
    WatcherHub s' = WatcherHub s \<and>
    (case look s (key_names p) of
       None \<Rightarrow> \<exists>err. r = Inl err \<and> ErrIndex err = CurrentIndex s \<and> ErrorCode err = get_error (view s) (key_names p)
     | Some n \<Rightarrow> \<exists>e. r = Inr e \<and> Action e = ''get'' \<and> attrs (smem s) now n (ENode e) \<and>
         (\<forall>es. valid_names es \<longrightarrow> recu \<or> length es \<le> 1 \<longrightarrow>
            ext_matches (smem s) now (visible_at (smem s) n es)
              (ext_lookup (ENode e) (prefix_paths (key_names p) es))))"
proof (cases rule: internalGet_cases [of p s])
  case (found n)
  from loadInternalNode_spec [OF core_invD(1) [OF store_invD(1) [OF inv]] found(2)] obtain e where
    e: "loadInternalNode s now n recu srt (ENode (newEvent ''get'' (render (key_names p)) (ModifiedIndex (smem s n)) (CreatedIndex (smem s n)))) = Some e"
    "attrs (smem s) now n e" "\<forall>es. valid_names es \<longrightarrow> recu \<or> length es \<le> 1 \<longrightarrow>
       ext_matches (smem s) now (visible_at (smem s) n es) (ext_lookup e (prefix_paths (key_names p) es))" by blast
  have g: "internalGet (render (key_names p)) s = internalGet p s"
    by (simp add: internalGet_def Clean_Join_key)
  show ?thesis using e found inv by (simp add: store_Get_def Clean_Join_key g Let_def)
next
  case (missing err)
  have g: "internalGet (render (key_names p)) s = internalGet p s"
    by (simp add: internalGet_def Clean_Join_key)
  show ?thesis using missing inv by (simp add: store_Get_def Clean_Join_key g Let_def)
qed


lemma create_notify:
  assumes inv: "store_inv s" and i: "CurrentIndex s \<noteq> - 1" and cs: "valid_names cs" "cs \<noteq> []"
    and c: "create_ok now action cs dir value t s e s1"
  shows "\<exists>hub. notify e s1 = Some (s1\<lparr>WatcherHub := hub\<rparr>) \<and> hub_notify (WatcherHub s) e = Some hub \<and>
    store_inv (s1\<lparr>WatcherHub := hub\<rparr>) \<and> abs_store (s1\<lparr>WatcherHub := hub\<rparr>) =
      \<lparr>ktree = put_view cs (new_entry dir value (CurrentIndex s + 1) t) (CurrentIndex s + 1) (view s),
       kindex = CurrentIndex s + 1\<rparr>"
proof -
  have c': "core_inv {} s1" "after_create s s1" "created_event e action cs dir value (CurrentIndex s + 1)"
    "view s1 = put_view cs (new_entry dir value (CurrentIndex s + 1) t) (CurrentIndex s + 1) (view s)"
    using c by (simp_all add: create_ok_def)
  have hub: "WatcherHub s1 = WatcherHub s" "CurrentIndex s1 = CurrentIndex s + 1"
    using c'(2) by (simp_all add: after_create_def)
  from notify_spec [of s1, unfolded hub, OF store_invD(2,3) [OF inv] i cs, of e] c'(3) obtain hub' where
    "notify e s1 = Some (s1\<lparr>WatcherHub := hub'\<rparr>)" "hub_notify (WatcherHub s) e = Some hub'"
    "hub_inv hub'" "LastIndex (EHistory hub') = CurrentIndex s + 1" by (auto simp: created_event_def)
  then show ?thesis using c'(1,4) hub by (simp add: store_inv_def abs_store_def)
qed

lemma abs_store_simps [simp]: "ktree (abs_store s) = view s" "kindex (abs_store s) = CurrentIndex s"
  by (simp_all add: abs_store_def)

lemma store_Create_spec:
  fixes p unique s
  defines "cs \<equiv> create_names p unique (CurrentIndex s)"
  assumes inv: "store_inv s" and i: "CurrentIndex s \<noteq> - 1"
  shows "refines (store_Create now p dir value unique t s) (kv_create False cs dir value t (abs_store s)) s"
    (is ?ref)
    and "store_Create now p dir value unique t s = Some (Inr e, s') \<Longrightarrow>
      created_event e ''create'' cs dir value (CurrentIndex s + 1) \<and> PrevNode e = None \<and>
      hub_notify (WatcherHub s) e = Some (WatcherHub s')" (is "_ \<Longrightarrow> ?ev")
proof -
  have cs: "valid_names cs" by (simp add: cs_def)
  note c = internalCreate_spec [OF store_invD(1) [OF inv], of now p dir "value" unique False t "''create''", folded cs_def, unfolded Let_def]
  consider (err) err st where
      "internalCreate now p dir value unique False t ''create'' s = Some (Inl err, st)"
      "st = s \<or> st = inc_stat SetFail s" "ErrIndex err = CurrentIndex s"
      "kv_create False cs dir value t (abs_store s) = (Some (ErrorCode err), abs_store s)"
    | (ok) e s1 where "internalCreate now p dir value unique False t ''create'' s = Some (Inr e, s1)"
      "create_ok now ''create'' cs dir value (effective_expire t) s e s1" "cs \<noteq> []" "view s cs = None"
      "\<not> blocked (view s) cs"
    using c by (auto simp: kv_create_def Let_def split: if_splits)
  then have "?ref \<and> (store_Create now p dir value unique t s = Some (Inr e, s') \<longrightarrow> ?ev)"
  proof cases
    case err
    then show ?thesis using inv by (auto simp: store_Create_def refines_def)
  next
    case (ok e1 s1)
    from create_notify [OF inv i cs ok(3,2)] obtain hub where
      hub: "notify e1 s1 = Some (s1\<lparr>WatcherHub := hub\<rparr>)" "hub_notify (WatcherHub s) e1 = Some hub"
      "store_inv (s1\<lparr>WatcherHub := hub\<rparr>)" "abs_store (s1\<lparr>WatcherHub := hub\<rparr>) =
      \<lparr>ktree = put_view cs (new_entry dir value (CurrentIndex s + 1) (effective_expire t)) (CurrentIndex s + 1) (view s),
       kindex = CurrentIndex s + 1\<rparr>" by blast
    have r: "store_Create now p dir value unique t s =
        Some (Inr e1, inc_stat CreateSuccess (s1\<lparr>WatcherHub := hub\<rparr>))"
      using ok(1) hub(1) by (simp add: store_Create_def)
    have "PrevNode e1 = None" using ok(2,4) by (simp add: create_ok_def view_None ext_matches_def)
    then show ?thesis unfolding r
      using hub ok(2-5) by (auto simp: refines_def kv_create_def Let_def create_ok_def)
  qed
  then show ?ref "store_Create now p dir value unique t s = Some (Inr e, s') \<Longrightarrow> ?ev" by blast+
qed

lemma create_names_False [simp]: "create_names p False i = key_names p"
  by (simp add: create_names_def)

lemma load_file:
  assumes "Children (smem s1 n) = None"
  shows "\<exists>q. loadInternalNode s1 now n False False x = Some q"
  using assms by (simp add: loadInternalNode_def)

text \<open>The previous node that \<open>Set\<close> reports keeps the caller's spelling of the key.\<close>

lemma set_rest_spec:
  assumes inv: "store_inv s" and i: "CurrentIndex s \<noteq> - 1"
    and old: "old = look s (key_names p)" and nb: "\<not> blocked (view s) (key_names p)"
  shows "refines (set_rest now p dir value t old s) (kv_create True (key_names p) dir value t (abs_store s)) s \<and>
    (set_rest now p dir value t old s = Some (Inr e, s') \<longrightarrow>
      created_event e ''set'' (key_names p) dir value (CurrentIndex s + 1) \<and>
      hub_notify (WatcherHub s) e = Some (WatcherHub s') \<and>
      (case old of None \<Rightarrow> PrevNode e = None
       | Some n \<Rightarrow> \<exists>q. PrevNode e = Some q \<and> Key q = p \<and> EValue q = Some (Value (smem s n)) \<and>
           EModifiedIndex q = ModifiedIndex (smem s n) \<and> ECreatedIndex q = CreatedIndex (smem s n)))"
    (is "?ref \<and> (_ \<longrightarrow> ?ev)")
proof -
  define cs where "cs = key_names p"
  have cs: "valid_names cs" by (simp add: cs_def)
  note c = internalCreate_spec [OF store_invD(1) [OF inv], of now p dir "value" False True t "''set''", unfolded Let_def create_names_False, folded cs_def]
  consider (err) err where
      "internalCreate now p dir value False True t ''set'' s = Some (Inl err, s)" "ErrIndex err = CurrentIndex s"
      "kv_create True cs dir value t (abs_store s) = (Some (ErrorCode err), abs_store s)"
    | (ok) e s1 where "internalCreate now p dir value False True t ''set'' s = Some (Inr e, s1)"
      "create_ok now ''set'' cs dir value (effective_expire t) s e s1" "cs \<noteq> []"
      "view s cs = None \<or> is_file (view s) cs"
    using c nb [folded cs_def] by (auto simp: kv_create_def Let_def split: if_splits)
  then show ?thesis
  proof cases
    case err
    then show ?thesis using inv by (auto simp: set_rest_def refines_def cs_def)
  next
    case (ok e1 s1)
    have c1: "created_event e1 ''set'' cs dir value (CurrentIndex s + 1)" using ok(2) by (simp add: create_ok_def)
    have kv: "kv_create True cs dir value t (abs_store s) =
      (None, \<lparr>ktree = put_view cs (new_entry dir value (CurrentIndex s + 1) (effective_expire t)) (CurrentIndex s + 1) (view s),
       kindex = CurrentIndex s + 1\<rparr>)"
      using ok(3,4) nb [folded cs_def] by (auto simp: kv_create_def Let_def)
    show ?thesis
    proof (cases old)
      case None
      from create_notify [OF inv i cs ok(3,2)] obtain hub where
        hub: "notify e1 s1 = Some (s1\<lparr>WatcherHub := hub\<rparr>)" "hub_notify (WatcherHub s) e1 = Some hub"
        "store_inv (s1\<lparr>WatcherHub := hub\<rparr>)" "abs_store (s1\<lparr>WatcherHub := hub\<rparr>) =
          snd (kv_create True cs dir value t (abs_store s))" unfolding kv by auto
      have "set_rest now p dir value t old s = Some (Inr e1, inc_stat SetSuccess (s1\<lparr>WatcherHub := hub\<rparr>))"
        using ok(1) hub(1) None by (simp add: set_rest_def)
      moreover have "PrevNode e1 = None"
        using ok(2) None old by (simp add: create_ok_def ext_matches_def cs_def)
      ultimately show ?thesis using hub kv c1 None by (auto simp: refines_def cs_def)
    next
      case (Some n)
      have n: "look s cs = Some n" "Children (smem s n) = None"
        using old Some ok(4) by (auto simp: cs_def view_None is_file_look IsDir_def)
      have fr: "entry_of (smem s1 n) = entry_of (smem s n)"
        using ok(2) tree_okD(2) [OF core_invD(1) [OF store_invD(1) [OF inv]] n(1)]
        by (auto simp: create_ok_def after_create_def entry_frame_def)
      then have n1: "Children (smem s1 n) = None" "Value (smem s1 n) = Value (smem s n)"
        "ModifiedIndex (smem s1 n) = ModifiedIndex (smem s n)" "CreatedIndex (smem s1 n) = CreatedIndex (smem s n)"
        using n(2) by (auto simp: entry_of_def split: option.splits)
      let ?prev = "newEvent ''get'' p (ModifiedIndex (smem s1 n)) (CreatedIndex (smem s1 n))"
      define q where "q = set_Expiration (ExpirationAndTTL (smem s1) now n) (set_EValue (Value (smem s1 n)) (ENode ?prev))"
      have q: "loadInternalNode s1 now n False False (ENode ?prev) = Some q"
        using n1(1) by (simp add: loadInternalNode_def Read_def IsDir_def q_def)
      have c2: "create_ok now ''set'' cs dir value (effective_expire t) s (e1\<lparr>PrevNode := PrevNode e1\<rparr>) s1"
        using ok(2) by simp
      let ?e = "e1\<lparr>PrevNode := Some q\<rparr>"
      have hub1: "WatcherHub s1 = WatcherHub s" "CurrentIndex s1 = CurrentIndex s + 1" "core_inv {} s1"
        "view s1 = put_view cs (new_entry dir value (CurrentIndex s + 1) (effective_expire t)) (CurrentIndex s + 1) (view s)"
        using ok(2) unfolding create_ok_def after_create_def by blast+
      from notify_spec [of s1, unfolded hub1(1), OF store_invD(2,3) [OF inv] i cs ok(3), of ?e] c1 obtain hub where
        hub: "notify ?e s1 = Some (s1\<lparr>WatcherHub := hub\<rparr>)" "hub_notify (WatcherHub s) ?e = Some hub"
        "hub_inv hub" "LastIndex (EHistory hub) = CurrentIndex s + 1"
        by (auto simp: created_event_def EvIndex_def)
      have r: "set_rest now p dir value t old s = Some (Inr ?e, inc_stat SetSuccess (s1\<lparr>WatcherHub := hub\<rparr>))"
        using ok(1) hub(1) Some q by (simp add: set_rest_def Let_def)
      have "store_inv (inc_stat SetSuccess (s1\<lparr>WatcherHub := hub\<rparr>))"
        using hub(3,4) hub1 by (simp add: store_inv_def)
      moreover have "abs_store (s1\<lparr>WatcherHub := hub\<rparr>) = snd (kv_create True cs dir value t (abs_store s))"
        using hub1 kv by (simp add: abs_store_def)
      moreover have "created_event ?e ''set'' cs dir value (CurrentIndex s + 1)"
        using c1 by (simp add: created_event_def EvIndex_def)
      moreover have "Key q = p" "EValue q = Some (Value (smem s n))" "EModifiedIndex q = ModifiedIndex (smem s n)"
        "ECreatedIndex q = CreatedIndex (smem s n)" by (simp_all add: q_def n1)
      ultimately show ?thesis unfolding r using hub(2) kv Some by (auto simp: refines_def cs_def)
    qed
  qed
qed

lemma store_Set_spec:
  assumes inv: "store_inv s" and i: "CurrentIndex s \<noteq> - 1"
  shows "refines (store_Set now p dir value t s) (kv_create True (key_names p) dir value t (abs_store s)) s"
    (is ?ref)
    and "store_Set now p dir value t s = Some (Inr e, s') \<Longrightarrow>
      created_event e ''set'' (key_names p) dir value (CurrentIndex s + 1) \<and>
      hub_notify (WatcherHub s) e = Some (WatcherHub s') \<and>
      (case look s (key_names p) of None \<Rightarrow> PrevNode e = None
       | Some n \<Rightarrow> \<exists>q. PrevNode e = Some q \<and> Key q = p \<and> EValue q = Some (Value (smem s n)) \<and>
           EModifiedIndex q = ModifiedIndex (smem s n) \<and> ECreatedIndex q = CreatedIndex (smem s n))"
    (is "_ \<Longrightarrow> ?ev")
proof -
  have "?ref \<and> (store_Set now p dir value t s = Some (Inr e, s') \<longrightarrow> ?ev)"
  proof (cases rule: internalGet_cases [of p s])
    case (found n)
    have "\<not> blocked (view s) (key_names p)" using lookup_not_blocked [OF found(2)] .
    from set_rest_spec [OF inv i refl this] found show ?thesis by (simp add: store_Set_def)
  next
    case (missing err)
    show ?thesis
    proof (cases "blocked (view s) (key_names p)")
      case True
      then have "key_names p \<noteq> []" by auto
      then have "kv_create True (key_names p) dir value t (abs_store s) = (Some EcodeNotDir, abs_store s)"
        using True by (simp add: kv_create_def Let_def)
      then show ?thesis using missing inv True
        by (simp add: store_Set_def get_error_def refines_def ecode_defs)
    next
      case False
      from set_rest_spec [OF inv i refl this] missing False show ?thesis
        by (simp add: store_Set_def get_error_def)
    qed
  qed
  then show ?ref "store_Set now p dir value t s = Some (Inr e, s') \<Longrightarrow> ?ev" by blast+
qed


section \<open>CompareAndSwap and Update\<close>

lemma internalGet_render [simp]: "internalGet (render (key_names p)) s = internalGet p s"
  by (simp add: internalGet_def Clean_Join_key)

lemma Compare_entry:
  assumes "\<not> IsDir n"
  shows "fst (Compare n v i) \<longleftrightarrow> entry_matches (entry_of n) v i"
  using assms by (auto simp: Compare_def entry_matches_def Let_def content_entry_of)

lemma Repr_at:
  assumes "tree_ok (smem s) (snext s) (Root s)" and "look s cs = Some n"
  shows "\<exists>e. Repr (Suc (snext s)) (smem s) now False False n = Some e \<and> attrs (smem s) now n e"
  using Repr_spec [OF assms, of "Suc (snext s)"] by fastforce

lemma Write_file:
  assumes inv: "core_inv {} s" and n: "look s cs = Some n" "\<not> IsDir (smem s n)" "cs \<noteq> []"
  shows "\<exists>s'. Write s n value i = (None, s') \<and> core_inv {} s' \<and>
    s' = s\<lparr>smem := (smem s)(n := smem s n\<lparr>Value := value, ModifiedIndex := i\<rparr>)\<rparr> \<and> look s' = look s"
proof -
  let ?f = "\<lambda>x. x\<lparr>Value := value, ModifiedIndex := i\<rparr>"
  let ?s = "s\<lparr>smem := (smem s)(n := ?f (smem s n))\<rparr>"
  note u = core_inv_update [OF inv n(1,3), of ?f]
  have ttl: "ttl_nodes (smem ?s) (Root s) = ttl_nodes (smem s) (Root s)"
    using u(2) by (auto simp: ttl_nodes_def)
  have "ttl_ok (smem ?s) (TtlKeyHeap s)" using core_invD(2) [OF inv] by (rule ttl_ok_cong) auto
  then have "core_inv {} ?s" using u(1) ttl core_invD(3) [OF inv] by (simp add: core_inv_def)
  moreover have "look ?s = look s" using u(2) by (simp add: fun_eq_iff)
  ultimately show ?thesis using n(2) by (simp add: Write_def set_node_def)
qed

text \<open>A change of one node's attributes changes one entry of the view.\<close>

lemma view_update:
  assumes inv: "core_inv {} s" and n: "look s cs = Some n" and same: "\<And>ds. lookup m' (Root s) ds = look s ds"
    and m': "\<And>x. x \<noteq> n \<Longrightarrow> entry_of (m' x) = entry_of (smem s x)"
  shows "tree_view m' (Root s) = (view s)(cs \<mapsto> entry_of (m' n))"
proof
  fix ds
  show "tree_view m' (Root s) ds = ((view s)(cs \<mapsto> entry_of (m' n))) ds"
  proof (cases "look s ds")
    case (Some x)
    then show ?thesis using lookup_unique [OF core_invD(1) [OF inv] n, of ds] n m' [of x] same
      by (cases "x = n") (auto simp: tree_view_def)
  next
    case None
    then show ?thesis using n same by (auto simp: tree_view_def)
  qed
qed

text \<open>Writing the value and the TTL, the step \<open>CompareAndSwap\<close> and \<open>Update\<close> share.\<close>

lemma write_ttl:
  assumes inv: "core_inv {} s" and n: "look s cs = Some n" "cs \<noteq> []"
  shows "\<exists>s'. UpdateTTL n t (snd (Write s n value i)) = Some s' \<and> core_inv {} s' \<and>
    Root s' = Root s \<and> WatcherHub s' = WatcherHub s \<and> CurrentIndex s' = CurrentIndex s \<and> Stats s' = Stats s \<and>
    view s' = (view s)(cs \<mapsto>
      (if IsDir (smem s n) then entry_of (smem s n)\<lparr>expires := t\<rparr>
       else entry_of (smem s n)\<lparr>content := FileC value, modified := i, expires := t\<rparr>))"
proof (cases "IsDir (smem s n)")
  case True
  then have w: "snd (Write s n value i) = s" by (simp add: Write_def)
  let ?m = "(smem s)(n := smem s n\<lparr>ExpireTime := t\<rparr>)"
  from UpdateTTL_spec [OF inv n, of t] obtain h where
    h: "UpdateTTL n t s = Some (s\<lparr>smem := ?m, TtlKeyHeap := h\<rparr>)"
    "core_inv {} (s\<lparr>smem := ?m, TtlKeyHeap := h\<rparr>)" by blast
  have "tree_view ?m (Root s) = (view s)(cs \<mapsto> entry_of (?m n))"
    by (rule view_update [OF inv n(1)]) (auto intro: lookup_cong)
  moreover obtain ch where "Children (smem s n) = Some ch" using True by (auto simp: IsDir_def)
  ultimately show ?thesis using h True w by (simp add: entry_of_def IsDir_def)
next
  case False
  from Write_file [OF inv n(1) False n(2), of "value" i] obtain s1 where
    s1: "Write s n value i = (None, s1)" "core_inv {} s1"
    "s1 = s\<lparr>smem := (smem s)(n := smem s n\<lparr>Value := value, ModifiedIndex := i\<rparr>)\<rparr>" "look s1 = look s" by blast
  let ?m = "(smem s1)(n := smem s1 n\<lparr>ExpireTime := t\<rparr>)"
  have n1: "look s1 cs = Some n" using s1(4) n by simp
  from UpdateTTL_spec [OF s1(2) n1 n(2), of t] obtain h where
    h: "UpdateTTL n t s1 = Some (s1\<lparr>smem := ?m, TtlKeyHeap := h\<rparr>)"
    "core_inv {} (s1\<lparr>smem := ?m, TtlKeyHeap := h\<rparr>)" by blast
  have "tree_view ?m (Root s) = (view s)(cs \<mapsto> entry_of (?m n))"
    by (rule view_update [OF inv n(1)]) (auto simp: s1(3) intro: lookup_cong)
  moreover have "entry_of (?m n) = entry_of (smem s n)\<lparr>content := FileC value, modified := i, expires := t\<rparr>"
    using False by (simp add: entry_of_def IsDir_def s1(3))
  ultimately show ?thesis using h s1(1,3) False by simp
qed

definition updated_event :: "event \<Rightarrow> string \<Rightarrow> string list \<Rightarrow> bool \<Rightarrow> string \<Rightarrow> u64 \<Rightarrow> bool" where
  "updated_event e action cs dir value i \<longleftrightarrow>
     Action e = action \<and> Key (ENode e) = render cs \<and> EvIndex e = i \<and>
     EDir (ENode e) = dir \<and> EValue (ENode e) = (if dir then None else Some value)"

lemma store_CompareAndSwap_spec:
  assumes inv: "store_inv s" and i: "CurrentIndex s \<noteq> - 1"
  shows "refines (store_CompareAndSwap now p pv pi value t s) (kv_cas (key_names p) pv pi value t (abs_store s)) s"
    (is ?ref)
    and "store_CompareAndSwap now p pv pi value t s = Some (Inr e, s') \<Longrightarrow>
      updated_event e ''compareAndSwap'' (key_names p) False value (CurrentIndex s + 1) \<and>
      (\<exists>n. look s (key_names p) = Some n \<and> ext_matches (smem s) now (Some n) (PrevNode e)) \<and>
      hub_notify (WatcherHub s) e = Some (WatcherHub s')" (is "_ \<Longrightarrow> ?ev")
proof -
  let ?cs = "key_names p"
  have "?ref \<and> (store_CompareAndSwap now p pv pi value t s = Some (Inr e, s') \<longrightarrow> ?ev)"
  proof (cases "?cs = []")
    case True
    then show ?thesis using inv
      by (simp add: store_CompareAndSwap_def Clean_Join_key render_Nil kv_cas_def refines_def)
  next
    case ne: False
    then have nr: "render ?cs \<noteq> ''/''" by simp
    show ?thesis
    proof (cases rule: internalGet_cases [of p s])
      case (missing err)
      then show ?thesis using inv ne nr
        by (simp add: store_CompareAndSwap_def Clean_Join_key Let_def kv_cas_def refines_def view_None [THEN iffD2])
    next
      case (found n)
      have v: "view s ?cs = Some (entry_of (smem s n))" using view_Some [OF found(2)] .
      note core = store_invD(1) [OF inv]
      show ?thesis
      proof (cases "IsDir (smem s n) \<or> \<not> fst (Compare (smem s n) pv pi)")
        case True
        show ?thesis
        proof (cases "IsDir (smem s n)")
          case True
          then show ?thesis using inv ne nr found v
            by (simp add: store_CompareAndSwap_def Clean_Join_key Let_def kv_cas_def refines_def content_entry_of)
        next
          case False
          then obtain which where "Compare (smem s n) pv pi = (False, which)"
            using True by (cases "Compare (smem s n) pv pi") simp
          moreover have "\<not> entry_matches (entry_of (smem s n)) pv pi" using True False Compare_entry by blast
          ultimately show ?thesis using inv ne nr found v False
            by (simp add: store_CompareAndSwap_def Clean_Join_key Let_def kv_cas_def refines_def content_entry_of)
        qed
      next
        case False
        obtain which where cmp: "Compare (smem s n) pv pi = (True, which)"
          using False by (cases "Compare (smem s n) pv pi") simp
        have m: "entry_matches (entry_of (smem s n)) pv pi" using False Compare_entry by blast
        let ?s2 = "set_index (CurrentIndex s + 1) s"
        have core2: "core_inv {} ?s2" using core by simp
        have n2: "look ?s2 ?cs = Some n" using found(2) by simp
        from Repr_at [OF core_invD(1) [OF core2] n2, of now] obtain prev where
          prev: "Repr (Suc (snext s)) (smem s) now False False n = Some prev" "attrs (smem s) now n prev" by auto
        from write_ttl [OF core2 n2 ne, of t "value" "CurrentIndex s + 1"] False obtain s3 where
          s3: "UpdateTTL n t (snd (Write ?s2 n value (CurrentIndex s + 1))) = Some s3" "core_inv {} s3"
          "WatcherHub s3 = WatcherHub s" "CurrentIndex s3 = CurrentIndex s + 1"
          "view s3 = (view s)(?cs \<mapsto> entry_of (smem s n)\<lparr>content := FileC value, modified := CurrentIndex s + 1, expires := t\<rparr>)"
          by auto
        let ?e0 = "newEvent ''compareAndSwap'' (render ?cs) (CurrentIndex s + 1) (CreatedIndex (smem s n))"
        let ?e = "?e0\<lparr>PrevNode := Some prev, ENode := set_Expiration (ExpirationAndTTL (smem s3) now n) (set_EValue value (ENode ?e0))\<rparr>"
        have ke: "Key (ENode ?e) = render ?cs" "EvIndex ?e = CurrentIndex s + 1" by (simp_all add: EvIndex_def)
        from notify_spec [of s3, unfolded s3(3), OF store_invD(2,3) [OF inv] i key_names_valid ne ke] obtain hub where
          hub: "notify ?e s3 = Some (s3\<lparr>WatcherHub := hub\<rparr>)" "hub_notify (WatcherHub s) ?e = Some hub"
          "hub_inv hub" "LastIndex (EHistory hub) = CurrentIndex s + 1" by blast
        have r: "store_CompareAndSwap now p pv pi value t s =
            Some (Inr ?e, inc_stat CompareAndSwapSuccess (s3\<lparr>WatcherHub := hub\<rparr>))"
          using found(1) nr False cmp prev(1) s3(1) hub(1)
          by (simp add: store_CompareAndSwap_def Clean_Join_key Let_def del: Repr.simps)
        have kv: "kv_cas ?cs pv pi value t (abs_store s) = (None, \<lparr>ktree = view s3, kindex = CurrentIndex s + 1\<rparr>)"
          using ne v False m s3(5) by (simp add: kv_cas_def Let_def content_entry_of)
        have ev: "updated_event ?e ''compareAndSwap'' ?cs False value (CurrentIndex s + 1)"
          by (simp add: updated_event_def EvIndex_def)
        have "store_inv (inc_stat CompareAndSwapSuccess (s3\<lparr>WatcherHub := hub\<rparr>))"
          using s3(2,4) hub(3,4) by (simp add: store_inv_def)
        moreover have "abs_store (s3\<lparr>WatcherHub := hub\<rparr>) = \<lparr>ktree = view s3, kindex = CurrentIndex s + 1\<rparr>"
          using s3(4) by (simp add: abs_store_def)
        ultimately show ?thesis unfolding r kv using ev hub(2) found(2) prev(2)
          by (auto simp: refines_def ext_matches_def)
      qed
    qed
  qed
  then show ?ref "store_CompareAndSwap now p pv pi value t s = Some (Inr e, s') \<Longrightarrow> ?ev" by blast+
qed

lemma store_Update_spec:
  assumes inv: "store_inv s" and i: "CurrentIndex s \<noteq> - 1"
  shows "refines (store_Update now p value t s) (kv_update (key_names p) value t (abs_store s)) s" (is ?ref)
    and "store_Update now p value t s = Some (Inr e, s') \<Longrightarrow>
      \<exists>n. look s (key_names p) = Some n \<and> ext_matches (smem s) now (Some n) (PrevNode e) \<and>
        updated_event e ''update'' (key_names p) (IsDir (smem s n)) value (CurrentIndex s + 1) \<and>
        hub_notify (WatcherHub s) e = Some (WatcherHub s')" (is "_ \<Longrightarrow> ?ev")
proof -
  let ?cs = "key_names p"
  have "?ref \<and> (store_Update now p value t s = Some (Inr e, s') \<longrightarrow> ?ev)"
  proof (cases "?cs = []")
    case True
    then show ?thesis using inv
      by (simp add: store_Update_def Clean_Join_key render_Nil kv_update_def refines_def)
  next
    case ne: False
    then have nr: "render ?cs \<noteq> ''/''" by simp
    show ?thesis
    proof (cases rule: internalGet_cases [of p s])
      case (missing err)
      then show ?thesis using inv ne nr
        by (simp add: store_Update_def Clean_Join_key Let_def kv_update_def refines_def view_None [THEN iffD2])
    next
      case (found n)
      have v: "view s ?cs = Some (entry_of (smem s n))" using view_Some [OF found(2)] .
      note core = store_invD(1) [OF inv]
      from Repr_at [OF core_invD(1) [OF core] found(2), of now] obtain prev where
        prev: "Repr (Suc (snext s)) (smem s) now False False n = Some prev" "attrs (smem s) now n prev" by auto
      show ?thesis
      proof (cases "IsDir (smem s n) \<and> value \<noteq> []")
        case True
        then show ?thesis using inv ne nr found v prev(1)
          by (simp add: store_Update_def Clean_Join_key Let_def kv_update_def refines_def content_entry_of del: Repr.simps)
      next
        case False
        from write_ttl [OF core found(2) ne, of t "value" "CurrentIndex s + 1"] obtain s3 where
          s3: "UpdateTTL n t (snd (Write s n value (CurrentIndex s + 1))) = Some s3" "core_inv {} s3"
          "WatcherHub s3 = WatcherHub s" "CurrentIndex s3 = CurrentIndex s"
          "view s3 = (view s)(?cs \<mapsto> (if IsDir (smem s n) then entry_of (smem s n)\<lparr>expires := t\<rparr>
             else entry_of (smem s n)\<lparr>content := FileC value, modified := CurrentIndex s + 1, expires := t\<rparr>))"
          by auto
        have dir: "IsDir (smem (snd (Write s n value (CurrentIndex s + 1))) n) = IsDir (smem s n)"
          by (simp add: Write_def set_node_def IsDir_def)
        let ?e0 = "newEvent ''update'' (render ?cs) (CurrentIndex s + 1) (CreatedIndex (smem s n))"
        let ?eN = "if IsDir (smem s n) then set_EDir (ENode ?e0) else set_EValue value (ENode ?e0)"
        let ?e = "?e0\<lparr>PrevNode := Some prev, ENode := set_Expiration (ExpirationAndTTL (smem s3) now n) ?eN\<rparr>"
        have ke: "Key (ENode ?e) = render ?cs" "EvIndex ?e = CurrentIndex s + 1" by (simp_all add: EvIndex_def)
        from notify_spec [of s3, unfolded s3(3), OF store_invD(2,3) [OF inv] i key_names_valid ne ke] obtain hub where
          hub: "notify ?e s3 = Some (s3\<lparr>WatcherHub := hub\<rparr>)" "hub_notify (WatcherHub s) ?e = Some hub"
          "hub_inv hub" "LastIndex (EHistory hub) = CurrentIndex s + 1" by blast
        let ?s = "set_index (CurrentIndex s + 1) (inc_stat UpdateSuccess (s3\<lparr>WatcherHub := hub\<rparr>))"
        have r: "store_Update now p value t s = Some (Inr ?e, ?s)"
          using found(1) nr False prev(1) s3(1) hub(1) dir
          by (simp add: store_Update_def Clean_Join_key Let_def del: Repr.simps)
        have kv: "kv_update ?cs value t (abs_store s) = (None, \<lparr>ktree = view s3, kindex = CurrentIndex s + 1\<rparr>)"
          using ne v False s3(5) by (simp add: kv_update_def Let_def content_entry_of)
        have ev: "updated_event ?e ''update'' ?cs (IsDir (smem s n)) value (CurrentIndex s + 1)"
          by (simp add: updated_event_def EvIndex_def)
        have "store_inv ?s"
          using s3(2) hub(3,4) by (simp add: store_inv_def)
        moreover have "abs_store ?s = \<lparr>ktree = view s3, kindex = CurrentIndex s + 1\<rparr>"
          by (simp add: abs_store_def)
        ultimately show ?thesis unfolding r kv using ev hub(2) found(2) prev(2)
          by (auto simp: refines_def ext_matches_def)
      qed
    qed
  qed
  then show ?ref "store_Update now p value t s = Some (Inr e, s') \<Longrightarrow> ?ev" by blast+
qed

end
