(* ===== verification/EtcdDelete.thy ===== *)
theory EtcdDelete
  imports EtcdOps
begin

text \<open>
  The store's operations that remove: \<open>Delete\<close>, \<open>CompareAndDelete\<close> and \<open>DeleteExpiredKeys\<close>
  refine their abstract operations, and tell the watchers of every removed path before they
  record the event. Then \<open>Watch\<close>.
\<close>

section \<open>Removal with the callback\<close>

lemma run_delete_callback: "run_cb (delete_callback e) ps hub = notify_paths hub e True ps"
  by (induction ps arbitrary: hub) (auto simp: run_cb_def delete_callback_def split: option.splits)

lemma delete_cb_ok: "cb_ok (delete_callback e) (\<lambda>hub. hub_inv hub \<and> EHistory hub = eh)"
  unfolding cb_ok_def run_delete_callback
  using notify_paths_spec [of _ "[_]" e True] by (fastforce simp: same_hub_def)

text \<open>The callbacks notified the watchers of exactly the removed paths.\<close>

definition notified_removal :: "event \<Rightarrow> string list \<Rightarrow> store \<Rightarrow> watcherHub \<Rightarrow> bool" where
  "notified_removal e cs s hub \<longleftrightarrow>
     (\<exists>ps. notify_paths (WatcherHub s) e True ps = Some hub \<and> distinct ps \<and>
        set ps = render ` {ds. prefix cs ds \<and> view s ds \<noteq> None})"

lemma remove_notified:
  assumes inv: "core_inv X s" and hub: "hub_inv (WatcherHub s)"
    and n: "look s cs = Some n" "cs \<noteq> []"
    and can: "Children (smem s n) = None \<or> dir \<and> (recu \<or> Children (smem s n) = Some [])"
  shows "\<exists>s'. Remove (Suc (snext s)) (delete_callback e) n dir recu s = Some (None, s') \<and>
    core_inv X s' \<and> rm_frame s s' \<and> view s' = cut_view cs (view s) \<and>
    look s' = (\<lambda>ds. if prefix cs ds then None else look s ds) \<and> hub_inv (WatcherHub s') \<and>
    EHistory (WatcherHub s') = EHistory (WatcherHub s) \<and> notified_removal e cs s (WatcherHub s')"
proof -
  let ?P = "\<lambda>hub. hub_inv hub \<and> EHistory hub = EHistory (WatcherHub s)"
  from Remove_spec [OF delete_cb_ok [of e "EHistory (WatcherHub s)"] inv _ n, of "Suc (snext s)" dir recu] hub can
  obtain s' where s': "Remove (Suc (snext s)) (delete_callback e) n dir recu s = Some (None, s')"
    "removed_sub (delete_callback e) ?P X (prefix cs) s s'" by auto
  have look: "look s' = (\<lambda>ds. if prefix cs ds then None else look s ds)"
    using s'(2) by (auto simp: removed_sub_def fun_eq_iff)
  have rf: "rm_frame s s'" using s'(2) by (simp add: removed_sub_def)
  have "view s' ds = cut_view cs (view s) ds" for ds
    using look same_attrsD(5) [OF rm_frameD(1) [OF rf]] by (simp add: tree_view_def cut_view_def)
  then have "view s' = cut_view cs (view s)" by (simp add: fun_eq_iff)
  moreover have "notified_removal e cs s (WatcherHub s')"
    using s'(2) by (auto simp: removed_sub_def notified_removal_def run_delete_callback view_None)
  ultimately show ?thesis using s' look rf by (simp add: removed_sub_def del: Remove.simps)
qed

lemma no_children:
  assumes ok: "tree_ok (smem s) (snext s) (Root s)" and n: "look s cs = Some n" and ch: "Children (smem s n) = Some ch"
  shows "(\<exists>c. view s (cs @ [c]) \<noteq> None) \<longleftrightarrow> ch \<noteq> []"
proof
  assume "\<exists>c. view s (cs @ [c]) \<noteq> None"
  then show "ch \<noteq> []" using n ch by (auto simp: view_None lookup_snoc child_def)
next
  assume "ch \<noteq> []"
  then obtain c b ch' where "ch = (c, b) # ch'" by (metis list.exhaust surj_pair)
  then have "look s (cs @ [c]) \<noteq> None" using n ch by (simp add: lookup_snoc child_def)
  then show "\<exists>c. view s (cs @ [c]) \<noteq> None" by (auto simp: view_None)
qed

definition removed_event :: "event \<Rightarrow> string \<Rightarrow> string list \<Rightarrow> bool \<Rightarrow> u64 \<Rightarrow> bool" where
  "removed_event e action cs dir i \<longleftrightarrow>
     Action e = action \<and> Key (ENode e) = render cs \<and> EvIndex e = i \<and> EDir (ENode e) = dir \<and>
     EValue (ENode e) = None"

section \<open>Delete and CompareAndDelete\<close>

lemma store_Delete_spec:
  assumes inv: "store_inv s" and i: "CurrentIndex s \<noteq> - 1"
  shows "refines (store_Delete now p dir recu s) (kv_delete (key_names p) dir recu (abs_store s)) s" (is ?ref)
    and "store_Delete now p dir recu s = Some (Inr e, s') \<Longrightarrow>
      \<exists>n hub. look s (key_names p) = Some n \<and> ext_matches (smem s) now (Some n) (PrevNode e) \<and>
        removed_event e ''delete'' (key_names p) (IsDir (smem s n)) (CurrentIndex s + 1) \<and>
        notified_removal e (key_names p) s hub \<and> hub_notify hub e = Some (WatcherHub s')" (is "_ \<Longrightarrow> ?ev")
proof -
  let ?cs = "key_names p" and ?dir = "if recu then True else dir"
  note core = store_invD(1) [OF inv]
  have "?ref \<and> (store_Delete now p dir recu s = Some (Inr e, s') \<longrightarrow> ?ev)"
  proof (cases "?cs = []")
    case True
    then show ?thesis using inv
      by (simp add: store_Delete_def Clean_Join_key render_Nil kv_delete_def refines_def)
  next
    case ne: False
    then have nr: "render ?cs \<noteq> ''/''" by simp
    show ?thesis
    proof (cases rule: internalGet_cases [of p s])
      case (missing err)
      then show ?thesis using inv ne nr
        by (simp add: store_Delete_def Clean_Join_key Let_def kv_delete_def refines_def view_None [THEN iffD2])
    next
      case (found n)
      have v: "view s ?cs = Some (entry_of (smem s n))" using view_Some [OF found(2)] .
      from Repr_at [OF core_invD(1) [OF core] found(2), of now] obtain prev where
        prev: "Repr (Suc (snext s)) (smem s) now False False n = Some prev" "attrs (smem s) now n prev" by auto
      let ?e0 = "newEvent ''delete'' (render ?cs) (CurrentIndex s + 1) (CreatedIndex (smem s n))"
      let ?e = "?e0\<lparr>PrevNode := Some prev, ENode := if IsDir (smem s n) then set_EDir (ENode ?e0) else ENode ?e0\<rparr>"
      have del: "store_Delete now p dir recu s =
        (case Remove (Suc (snext s)) (delete_callback ?e) n ?dir recu s of
           None \<Rightarrow> None
         | Some (Some err, s2) \<Rightarrow> Some (Inl err, inc_stat DeleteFail s2)
         | Some (None, s2) \<Rightarrow> map_option (\<lambda>s4. (Inr ?e, inc_stat DeleteSuccess s4))
             (notify ?e (set_index (CurrentIndex s2 + 1) s2)))"
        using found(1) nr prev(1)
        by (simp add: store_Delete_def Clean_Join_key Let_def del: Repr.simps Remove.simps
            split: option.splits prod.splits)
      show ?thesis
      proof (cases "Children (smem s n) = None \<or> ?dir \<and> (recu \<or> Children (smem s n) = Some [])")
        case False
        then obtain ch where ch: "Children (smem s n) = Some ch" by (cases "Children (smem s n)") auto
        have "content (entry_of (smem s n)) = DirC" using ch by (simp add: content_entry_of IsDir_def)
        then show ?thesis unfolding del
          using inv ne v False ch no_children [OF core_invD(1) [OF core] found(2) ch]
          by (auto simp: kv_delete_def Let_def refines_def)
      next
        case True
        from remove_notified [OF core store_invD(2) [OF inv] found(2) ne True, of ?e] obtain s2 where
          s2: "Remove (Suc (snext s)) (delete_callback ?e) n ?dir recu s = Some (None, s2)"
          "core_inv {} s2" "rm_frame s s2" "view s2 = cut_view ?cs (view s)" "hub_inv (WatcherHub s2)"
          "EHistory (WatcherHub s2) = EHistory (WatcherHub s)" "notified_removal ?e ?cs s (WatcherHub s2)" by blast
        have i2: "CurrentIndex s2 = CurrentIndex s" using rm_frameD(4) [OF s2(3)] .
        let ?s3 = "set_index (CurrentIndex s + 1) s2"
        have ke: "Key (ENode ?e) = render ?cs" "EvIndex ?e = CurrentIndex s + 1" by (simp_all add: EvIndex_def)
        have h3: "hub_inv (WatcherHub ?s3)" "LastIndex (EHistory (WatcherHub ?s3)) = CurrentIndex s"
          using s2(5,6) store_invD(3) [OF inv] by simp_all
        from notify_spec [OF h3 i key_names_valid ne ke] obtain hub where
          hub: "notify ?e ?s3 = Some (?s3\<lparr>WatcherHub := hub\<rparr>)" "hub_notify (WatcherHub s2) ?e = Some hub"
          "hub_inv hub" "LastIndex (EHistory hub) = CurrentIndex s + 1" by auto
        let ?s = "inc_stat DeleteSuccess (?s3\<lparr>WatcherHub := hub\<rparr>)"
        have r: "store_Delete now p dir recu s = Some (Inr ?e, ?s)"
          unfolding del s2(1) by (simp add: i2 hub(1))
        have kv: "kv_delete ?cs dir recu (abs_store s) = (None, \<lparr>ktree = view s2, kindex = CurrentIndex s + 1\<rparr>)"
        proof -
          have "(\<exists>c. view s (?cs @ [c]) \<noteq> None) \<longrightarrow> recu" if "content (entry_of (smem s n)) = DirC"
          proof -
            from that obtain ch where "Children (smem s n) = Some ch" by (auto simp: content_entry_of IsDir_def)
            then show ?thesis using no_children [OF core_invD(1) [OF core] found(2)] True by auto
          qed
          moreover have "dir \<or> recu" if "content (entry_of (smem s n)) = DirC"
            using that True by (auto simp: content_entry_of IsDir_def split: if_splits)
          ultimately show ?thesis using ne v s2(4) by (auto simp: kv_delete_def Let_def)
        qed
        have "store_inv ?s" using s2(2) hub(3,4) by (simp add: store_inv_def)
        moreover have "abs_store ?s = \<lparr>ktree = view s2, kindex = CurrentIndex s + 1\<rparr>"
          by (simp add: abs_store_def)
        moreover have "removed_event ?e ''delete'' ?cs (IsDir (smem s n)) (CurrentIndex s + 1)"
          by (simp add: removed_event_def EvIndex_def)
        ultimately show ?thesis unfolding r kv using s2(7) hub(2) found(2) prev(2)
          by (auto simp: refines_def ext_matches_def)
      qed
    qed
  qed
  then show ?ref "store_Delete now p dir recu s = Some (Inr e, s') \<Longrightarrow> ?ev" by blast+
qed

lemma store_CompareAndDelete_spec:
  assumes inv: "store_inv s" and i: "CurrentIndex s \<noteq> - 1"
  shows "refines (store_CompareAndDelete now p pv pi s) (kv_cad (key_names p) pv pi (abs_store s)) s" (is ?ref)
    and "store_CompareAndDelete now p pv pi s = Some (Inr e, s') \<Longrightarrow>
      \<exists>n hub. look s (key_names p) = Some n \<and> ext_matches (smem s) now (Some n) (PrevNode e) \<and>
        removed_event e ''compareAndDelete'' (key_names p) False (CurrentIndex s + 1) \<and>
        notified_removal e (key_names p) s hub \<and> hub_notify hub e = Some (WatcherHub s')" (is "_ \<Longrightarrow> ?ev")
proof -
  let ?cs = "key_names p"
  note core = store_invD(1) [OF inv]
  have "?ref \<and> (store_CompareAndDelete now p pv pi s = Some (Inr e, s') \<longrightarrow> ?ev)"
  proof (cases rule: internalGet_cases [of p s])
    case (missing err)
    then show ?thesis using inv
      by (simp add: store_CompareAndDelete_def Clean_Join_key Let_def kv_cad_def refines_def view_None [THEN iffD2])
  next
    case (found n)
    have v: "view s ?cs = Some (entry_of (smem s n))" using view_Some [OF found(2)] .
    show ?thesis
    proof (cases "IsDir (smem s n)")
      case True
      then show ?thesis using inv found v
        by (simp add: store_CompareAndDelete_def Clean_Join_key Let_def kv_cad_def refines_def content_entry_of)
    next
      case file_n: False
      have ne: "?cs \<noteq> []" using file_n found(2) tree_ok_root(1) [OF core_invD(1) [OF core]] by (auto simp: IsDir_def)
      obtain ok which where cmp: "Compare (smem s n) pv pi = (ok, which)" by (cases "Compare (smem s n) pv pi")
      have em: "entry_matches (entry_of (smem s n)) pv pi \<longleftrightarrow> ok" using Compare_entry [OF file_n, of pv pi] cmp by simp
      show ?thesis
      proof (cases ok)
        case False
        then show ?thesis using inv found v file_n cmp em
          by (simp add: store_CompareAndDelete_def Clean_Join_key Let_def kv_cad_def refines_def content_entry_of)
      next
        case True
        let ?s1 = "set_index (CurrentIndex s + 1) s"
        from Repr_at [OF core_invD(1) [OF core] found(2), of now] obtain prev where
          prev: "Repr (Suc (snext s)) (smem s) now False False n = Some prev" "attrs (smem s) now n prev" by auto
        let ?e = "newEvent ''compareAndDelete'' (render ?cs) (CurrentIndex s + 1) (CreatedIndex (smem s n))\<lparr>PrevNode := Some prev\<rparr>"
        have core1: "core_inv {} ?s1" and hub1: "hub_inv (WatcherHub ?s1)" and n1: "look ?s1 ?cs = Some n"
          and can: "Children (smem ?s1 n) = None \<or> False \<and> (False \<or> Children (smem ?s1 n) = Some [])"
          using core store_invD(2) [OF inv] found(2) file_n by (simp_all add: IsDir_def)
        from remove_notified [OF core1 hub1 n1 ne can, of ?e] obtain s2 where
          s2: "Remove (Suc (snext s)) (delete_callback ?e) n False False ?s1 = Some (None, s2)"
          "core_inv {} s2" "rm_frame ?s1 s2" "view s2 = cut_view ?cs (view s)" "hub_inv (WatcherHub s2)"
          "EHistory (WatcherHub s2) = EHistory (WatcherHub s)" "notified_removal ?e ?cs ?s1 (WatcherHub s2)" by auto
        have i2: "CurrentIndex s2 = CurrentIndex s + 1" using rm_frameD(4) [OF s2(3)] by simp
        have ke: "Key (ENode ?e) = render ?cs" "EvIndex ?e = CurrentIndex s + 1" by (simp_all add: EvIndex_def)
        have h3: "LastIndex (EHistory (WatcherHub s2)) = CurrentIndex s"
          using s2(6) store_invD(3) [OF inv] by simp
        from notify_spec [OF s2(5) h3 i key_names_valid ne ke] obtain hub where
          hub: "notify ?e s2 = Some (s2\<lparr>WatcherHub := hub\<rparr>)" "hub_notify (WatcherHub s2) ?e = Some hub"
          "hub_inv hub" "LastIndex (EHistory hub) = CurrentIndex s + 1" by auto
        let ?s = "inc_stat CompareAndDeleteSuccess (s2\<lparr>WatcherHub := hub\<rparr>)"
        have r: "store_CompareAndDelete now p pv pi s = Some (Inr ?e, ?s)"
          using found(1) file_n cmp True prev(1) s2(1) hub(1)
          by (simp add: store_CompareAndDelete_def Clean_Join_key Let_def del: Repr.simps Remove.simps)
        have kv: "kv_cad ?cs pv pi (abs_store s) = (None, \<lparr>ktree = view s2, kindex = CurrentIndex s + 1\<rparr>)"
          using v file_n em True s2(4) by (simp add: kv_cad_def Let_def content_entry_of)
        have "store_inv ?s" using s2(2) hub(3,4) i2 by (simp add: store_inv_def)
        moreover have "abs_store ?s = \<lparr>ktree = view s2, kindex = CurrentIndex s + 1\<rparr>"
          by (simp add: abs_store_def i2)
        moreover have "removed_event ?e ''compareAndDelete'' ?cs False (CurrentIndex s + 1)"
          by (simp add: removed_event_def EvIndex_def)
        moreover have "notified_removal ?e ?cs s (WatcherHub s2)" using s2(7) by (simp add: notified_removal_def)
        ultimately show ?thesis unfolding r kv using hub(2) found(2) prev(2)
          by (auto simp: refines_def ext_matches_def)
      qed
    qed
  qed
  then show ?ref "store_CompareAndDelete now p pv pi s = Some (Inr e, s') \<Longrightarrow> ?ev" by blast+
qed


section \<open>DeleteExpiredKeys\<close>

text \<open>A path is gone when it or a directory above it has expired by the cutoff.\<close>

definition expired :: "tree_view \<Rightarrow> time \<Rightarrow> string list \<Rightarrow> bool" where
  "expired v cutoff ds \<longleftrightarrow>
     (\<exists>es x. prefix es ds \<and> v es = Some x \<and> expires x \<noteq> 0 \<and> expires x \<le> cutoff)"

definition expire_view :: "time \<Rightarrow> tree_view \<Rightarrow> tree_view" where
  "expire_view cutoff v = (\<lambda>ds. if expired v cutoff ds then None else v ds)"

lemma expire_cut:
  assumes "v cs = Some x" "expires x \<noteq> 0" "expires x \<le> cutoff"
  shows "expire_view cutoff (cut_view cs v) = expire_view cutoff v"
proof
  fix ds
  have "expired (cut_view cs v) cutoff ds \<longleftrightarrow> expired v cutoff ds" if "\<not> prefix cs ds"
  proof -
    have "\<not> prefix cs es" if "prefix es ds" for es using that \<open>\<not> prefix cs ds\<close> prefix_order.trans by blast
    then show ?thesis unfolding expired_def cut_view_def by metis
  qed
  moreover have "expired v cutoff ds" if "prefix cs ds" using that assms by (auto simp: expired_def)
  ultimately show "expire_view cutoff (cut_view cs v) ds = expire_view cutoff v ds"
    by (cases "prefix cs ds") (auto simp: expire_view_def cut_view_def)
qed

lemma no_expired:
  assumes "\<And>es x. v es = Some x \<Longrightarrow> expires x \<noteq> 0 \<Longrightarrow> cutoff < expires x"
  shows "expire_view cutoff v = v"
proof -
  have "\<not> expired v cutoff ds" for ds using assms by (auto simp: expired_def not_le dest: leD)
  then show ?thesis by (simp add: expire_view_def)
qed

text \<open>The nodes that the loop takes off the heap, when a directory and what is below it never expire at the
  same time: those that have expired by the cutoff, with no directory above them that goes before.\<close>

definition expire_tops :: "time \<Rightarrow> tree_view \<Rightarrow> string list set" where
  "expire_tops cutoff v = {cs. \<exists>x. v cs = Some x \<and> expires x \<noteq> 0 \<and> expires x \<le> cutoff \<and>
     (\<forall>ds y. strict_prefix ds cs \<longrightarrow> v ds = Some y \<longrightarrow> expires y \<noteq> 0 \<longrightarrow> expires x < expires y)}"

definition untied :: "time \<Rightarrow> tree_view \<Rightarrow> bool" where
  "untied cutoff v \<longleftrightarrow> (\<forall>ds cs x y. strict_prefix ds cs \<and> v ds = Some x \<and> v cs = Some y \<and> expires x \<noteq> 0 \<and> expires x \<le> cutoff \<longrightarrow>
     expires x \<noteq> expires y)"

definition earliest :: "tree_view \<Rightarrow> entry \<Rightarrow> bool" where
  "earliest v x \<longleftrightarrow> (\<forall>es y. v es = Some y \<longrightarrow> expires y \<noteq> 0 \<longrightarrow> expires x \<le> expires y)"

lemma earliestD: "earliest v x \<Longrightarrow> v es = Some y \<Longrightarrow> expires y \<noteq> 0 \<Longrightarrow> expires x \<le> expires y"
  by (simp add: earliest_def)

lemma untied_cut: "untied cutoff v \<Longrightarrow> untied cutoff (cut_view cs v)"
  unfolding untied_def cut_view_def by (metis option.distinct(1))

lemma expire_tops_earliest:
  assumes v: "v cs = Some x" "expires x \<noteq> 0" "expires x \<le> cutoff" and e: "earliest v x" and u: "untied cutoff v"
  shows "cs \<in> expire_tops cutoff v"
proof -
  have "expires x < expires y" if d: "strict_prefix ds cs" "v ds = Some y" "expires y \<noteq> 0" for ds y
  proof -
    have "expires x \<le> expires y" by (rule earliestD [OF e d(2,3)])
    moreover have "expires y \<noteq> expires x"
    proof (cases "expires y \<le> cutoff")
      case True
      then show ?thesis using u v(1) d unfolding untied_def by blast
    qed (use v(3) in auto)
    ultimately show ?thesis by simp
  qed
  then show ?thesis using v by (auto simp: expire_tops_def)
qed

lemma expire_tops_cut:
  assumes v: "v cs = Some x" "expires x \<noteq> 0" "expires x \<le> cutoff" and e: "earliest v x"
  shows "expire_tops cutoff (cut_view cs v) = expire_tops cutoff v - {cs}"
proof (rule set_eqI)
  fix es
  show "es \<in> expire_tops cutoff (cut_view cs v) \<longleftrightarrow> es \<in> expire_tops cutoff v - {cs}"
  proof (cases "prefix cs es")
    case True
    then have "es \<notin> expire_tops cutoff (cut_view cs v)" by (simp add: expire_tops_def cut_view_def)
    moreover have "es \<notin> expire_tops cutoff v" if "es \<noteq> cs"
    proof
      assume "es \<in> expire_tops cutoff v"
      then obtain y where y: "v es = Some y" "expires y \<noteq> 0"
        "\<And>ds z. strict_prefix ds es \<Longrightarrow> v ds = Some z \<Longrightarrow> expires z \<noteq> 0 \<Longrightarrow> expires y < expires z"
        unfolding expire_tops_def by blast
      have "strict_prefix cs es" using True that by auto
      from y(3) [OF this v(1,2)] earliestD [OF e y(1,2)] show False by simp
    qed
    ultimately show ?thesis by blast
  next
    case False
    have "\<not> prefix cs ds" if "strict_prefix ds es" for ds
      using that False by (metis prefix_order.dual_order.strict_implies_order prefix_order.trans)
    then show ?thesis using False by (auto simp: expire_tops_def cut_view_def)
  qed
qed

lemma expire_tops_none:
  assumes "\<And>es x. v es = Some x \<Longrightarrow> expires x \<noteq> 0 \<Longrightarrow> cutoff < expires x"
  shows "expire_tops cutoff v = {}"
  using assms by (fastforce simp: expire_tops_def)

lemma not_max: "unat (w :: u64) + 1 < 2 ^ 64 \<or> unat w < 2 ^ 64 - 1 \<Longrightarrow> w \<noteq> - 1"
  by (auto simp: unsigned_minus_1_eq_mask mask_eq_exp_minus_1)

lemma ttl_Len_card: "core_inv X s \<Longrightarrow> ttl_Len (TtlKeyHeap s) = card (set (array (TtlKeyHeap s)))"
  using core_invD(2) [of X s] by (simp add: ttl_Len_def distinct_card ttl_map_distinct ttl_ok_def)

lemma ttl_top_earliest:
  assumes inv: "store_inv s" and top: "ttl_top (TtlKeyHeap s) = Some n"
  shows "\<exists>cs. look s cs = Some n \<and> ExpireTime (smem s n) \<noteq> 0 \<and> earliest (view s) (entry_of (smem s n))"
proof -
  note core = store_invD(1) [OF inv]
  have "n \<in> ttl_nodes (smem s) (Root s)"
    using ttl_top_min(1) [OF core_invD(2) [OF core] top] core_invD(3) [OF core] by simp
  then obtain cs where n: "look s cs = Some n" and t: "ExpireTime (smem s n) \<noteq> 0" by (auto simp: ttl_nodes_def)
  have "expires (entry_of (smem s n)) \<le> expires y" if y: "view s es = Some y" "expires y \<noteq> 0" for es y
  proof -
    obtain b where b: "look s es = Some b" "y = entry_of (smem s b)" using y(1) by (auto simp: tree_view_def)
    then have "b \<in> set (array (TtlKeyHeap s))" using y(2) core_invD(3) [OF core] by (auto simp: ttl_nodes_def)
    from ttl_top_min(2) [OF core_invD(2) [OF core] top this] show ?thesis using b(2) by simp
  qed
  then show ?thesis using n t by (auto simp: earliest_def)
qed

text \<open>One round: the node on top of the heap and all below it are removed.\<close>

lemma expire_round:
  assumes inv: "store_inv s" and i: "CurrentIndex s \<noteq> - 1"
    and top: "ttl_top (TtlKeyHeap s) = Some n" and cut: "ExpireTime (smem s n) \<le> cutoff"
  shows "\<exists>s' cs x. expire_loop (Suc fuel) now cutoff s = expire_loop fuel now cutoff s' \<and> store_inv s' \<and>
    view s cs = Some x \<and> expires x \<noteq> 0 \<and> expires x \<le> cutoff \<and> view s' = cut_view cs (view s) \<and>
    CurrentIndex s' = CurrentIndex s + 1 \<and> ttl_Len (TtlKeyHeap s') < ttl_Len (TtlKeyHeap s) \<and> earliest (view s) x"
proof -
  note core = store_invD(1) [OF inv]
  note ok = core_invD(1) [OF core]
  from ttl_top_earliest [OF inv top] obtain cs where n: "look s cs = Some n" and t: "ExpireTime (smem s n) \<noteq> 0"
    and first: "earliest (view s) (entry_of (smem s n))" by blast
  then have in_ttl: "n \<in> ttl_nodes (smem s) (Root s)" by (auto simp: ttl_nodes_def)
  have ne: "cs \<noteq> []" using n t tree_ok_root(3) [OF ok] by auto
  have v: "valid_names cs" and p: "Path (smem s n) = render cs" using tree_okD(1,3) [OF ok n] by simp_all
  let ?s1 = "set_index (CurrentIndex s + 1) s"
  from Repr_at [OF ok n, of now] obtain prev where
    prev: "Repr (Suc (snext s)) (smem s) now False False n = Some prev" by auto
  let ?e = "newEvent ''expire'' (render cs) (CurrentIndex s + 1) (CreatedIndex (smem s n))\<lparr>PrevNode := Some prev\<rparr>"
  from ttl_pop_ok [OF core_invD(2) [OF core] top] obtain h where
    h: "ttl_pop (smem s) (TtlKeyHeap s) = Some (n, h)" "ttl_ok (smem s) h"
    "set (array h) = set (array (TtlKeyHeap s)) - {n}" by blast
  let ?s2 = "?s1\<lparr>TtlKeyHeap := h\<rparr>"
  have inv2: "core_inv {n} ?s2" using ok h core_invD(3) [OF core] by (simp add: core_inv_def)
  have hub2: "hub_inv (WatcherHub ?s2)" and n2: "look ?s2 cs = Some n"
    and can: "Children (smem ?s2 n) = None \<or> True \<and> (True \<or> Children (smem ?s2 n) = Some [])"
    using store_invD(2) [OF inv] n by simp_all
  have eqs: "smem ?s2 = smem s" "snext ?s2 = snext s" "Root ?s2 = Root s" "WatcherHub ?s2 = WatcherHub s"
    by simp_all
  from remove_notified [OF inv2 hub2 n2 ne can, of ?e, unfolded eqs] obtain s3 where
    s3: "Remove (Suc (snext s)) (delete_callback ?e) n True True ?s2 = Some (None, s3)"
    "core_inv {n} s3" "rm_frame ?s2 s3" "view s3 = cut_view cs (view s)"
    "look s3 = (\<lambda>ds. if prefix cs ds then None else look s ds)" "hub_inv (WatcherHub s3)"
    "EHistory (WatcherHub s3) = EHistory (WatcherHub s)" by blast
  have "n \<notin> ttl_nodes (smem s3) (Root s3)"
    using lookup_unique [OF ok n] unfolding ttl_nodes_def s3(5) by (auto split: if_splits)
  then have core3: "core_inv {} s3" and set3: "set (array (TtlKeyHeap s3)) = ttl_nodes (smem s3) (Root s3)"
    using s3(2) by (auto simp: core_inv_def)
  have i3: "CurrentIndex s3 = CurrentIndex s + 1" using rm_frameD(4) [OF s3(3)] by simp
  let ?s4 = "inc_stat ExpireCount s3"
  have ke: "Key (ENode ?e) = render cs" "EvIndex ?e = CurrentIndex s + 1" by (simp_all add: EvIndex_def)
  have h4: "hub_inv (WatcherHub ?s4)" "LastIndex (EHistory (WatcherHub ?s4)) = CurrentIndex s"
    using s3(6,7) store_invD(3) [OF inv] by simp_all
  from notify_spec [OF h4 i v ne ke] obtain hub where
    hub: "notify ?e ?s4 = Some (?s4\<lparr>WatcherHub := hub\<rparr>)" "hub_inv hub"
    "LastIndex (EHistory hub) = CurrentIndex s + 1" by blast
  let ?s = "?s4\<lparr>WatcherHub := hub\<rparr>"
  have "expire_loop (Suc fuel) now cutoff s = expire_loop fuel now cutoff ?s"
    using top cut prev h(1) s3(1) hub(1) p by (simp add: Let_def del: Repr.simps Remove.simps)
  moreover have "store_inv ?s" using core3 hub(2,3) i3 by (simp add: store_inv_def)
  moreover have "ttl_Len (TtlKeyHeap s3) < ttl_Len (TtlKeyHeap s)"
  proof -
    have "ttl_nodes (smem s3) (Root s3) \<subseteq> ttl_nodes (smem s) (Root s) - {n}"
      using \<open>n \<notin> ttl_nodes (smem s3) (Root s3)\<close> same_attrsD(3) [OF rm_frameD(1) [OF s3(3)]]
      unfolding ttl_nodes_def s3(5) by (auto split: if_splits)
    then have "set (array (TtlKeyHeap s3)) \<subset> set (array (TtlKeyHeap s))"
      using set3 core_invD(3) [OF core] in_ttl by blast
    then show ?thesis
      unfolding ttl_Len_card [OF core3] ttl_Len_card [OF core] by (simp add: psubset_card_mono)
  qed
  ultimately show ?thesis using view_Some [OF n] t cut s3(4) i3 first
    by (intro exI [of _ ?s] exI [of _ cs] exI [of _ "entry_of (smem s n)"]) simp
qed

text \<open>The loop ends when nothing in the tree has expired.\<close>

lemma expire_end:
  assumes inv: "store_inv s" and d: "case ttl_top (TtlKeyHeap s) of None \<Rightarrow> True | Some n \<Rightarrow> cutoff < ExpireTime (smem s n)"
  shows "expire_loop (Suc fuel) now cutoff s = Some s" and "view s es = Some x \<Longrightarrow> expires x \<noteq> 0 \<Longrightarrow> cutoff < expires x"
proof -
  note core = store_invD(1) [OF inv]
  show "expire_loop (Suc fuel) now cutoff s = Some s" using d by (simp split: option.splits)
  assume x: "view s es = Some x" "expires x \<noteq> 0"
  then obtain b where b: "look s es = Some b" "x = entry_of (smem s b)" by (auto simp: tree_view_def)
  then have m: "b \<in> set (array (TtlKeyHeap s))" using x(2) core_invD(3) [OF core] by (auto simp: ttl_nodes_def)
  then obtain n where n: "ttl_top (TtlKeyHeap s) = Some n"
    by (cases "ttl_top (TtlKeyHeap s)") (auto simp: ttl_top_def ttl_Len_def split: if_splits)
  from ttl_top_min(2) [OF core_invD(2) [OF core] n m] show "cutoff < expires x" using d n b(2) by simp
qed

lemma expire_loop_spec:
  "store_inv s \<Longrightarrow> ttl_Len (TtlKeyHeap s) < fuel \<Longrightarrow>
   unat (CurrentIndex s) + ttl_Len (TtlKeyHeap s) < 2 ^ 64 \<Longrightarrow>
   \<exists>s'. expire_loop fuel now cutoff s = Some s' \<and> store_inv s' \<and> view s' = expire_view cutoff (view s) \<and>
     unat (CurrentIndex s) \<le> unat (CurrentIndex s') \<and>
     unat (CurrentIndex s') \<le> unat (CurrentIndex s) + ttl_Len (TtlKeyHeap s)"
proof (induction fuel arbitrary: s)
  case (Suc fuel)
  show ?case
  proof (cases "case ttl_top (TtlKeyHeap s) of None \<Rightarrow> True | Some n \<Rightarrow> cutoff < ExpireTime (smem s n)")
    case True
    note e = expire_end [OF Suc.prems(1) True]
    from e(1) [of fuel now] no_expired [OF e(2)] show ?thesis using Suc.prems(1) by (simp del: expire_loop.simps)
  next
    case False
    then obtain n where Some: "ttl_top (TtlKeyHeap s) = Some n" "ExpireTime (smem s n) \<le> cutoff" by (auto split: option.splits)
    have pos: "0 < ttl_Len (TtlKeyHeap s)" using Some by (auto simp: ttl_top_def split: if_splits)
    have i: "CurrentIndex s \<noteq> - 1"
      by (rule not_max) (use Suc.prems(3) pos in simp)
    from expire_round [OF Suc.prems(1) i Some, of fuel now] obtain s1 cs x where
      s1: "expire_loop (Suc fuel) now cutoff s = expire_loop fuel now cutoff s1" "store_inv s1"
      "view s cs = Some x" "expires x \<noteq> 0" "expires x \<le> cutoff" "view s1 = cut_view cs (view s)"
      "CurrentIndex s1 = CurrentIndex s + 1" "ttl_Len (TtlKeyHeap s1) < ttl_Len (TtlKeyHeap s)" by auto
    have u: "unat (CurrentIndex s1) = Suc (unat (CurrentIndex s))" using s1(7) i by (simp add: unat_plus_one)
    have "ttl_Len (TtlKeyHeap s1) < fuel" "unat (CurrentIndex s1) + ttl_Len (TtlKeyHeap s1) < 2 ^ 64"
      using s1(8) Suc.prems(2,3) u by linarith+
    from Suc.IH [OF s1(2) this] obtain s' where
      s': "expire_loop fuel now cutoff s1 = Some s'" "store_inv s'" "view s' = expire_view cutoff (view s1)"
      "unat (CurrentIndex s1) \<le> unat (CurrentIndex s')"
      "unat (CurrentIndex s') \<le> unat (CurrentIndex s1) + ttl_Len (TtlKeyHeap s1)" by blast
    have "view s' = expire_view cutoff (view s)" unfolding s'(3) s1(6) using s1(3-5) by (rule expire_cut)
    then show ?thesis using s1(1,8) s' u by (intro exI [of _ s']) (simp del: expire_loop.simps)
  qed
qed simp

text \<open>Without ties the index grows by exactly one for each node that the loop takes off the heap.\<close>

lemma finite_expire_tops:
  assumes "store_inv s"
  shows "finite (expire_tops cutoff (view s))"
proof -
  note core = store_invD(1) [OF assms]
  have "(\<lambda>cs. the (look s cs)) ` expire_tops cutoff (view s) \<subseteq> set (array (TtlKeyHeap s))"
    using core_invD(3) [OF core] by (auto simp: expire_tops_def tree_view_def ttl_nodes_def)
  moreover have "inj_on (\<lambda>cs. the (look s cs)) (expire_tops cutoff (view s))"
    using lookup_unique [OF core_invD(1) [OF core]] by (fastforce simp: inj_on_def expire_tops_def tree_view_def)
  ultimately show ?thesis using finite_imageD finite_subset [OF _ finite_set] by blast
qed

lemma expire_loop_counts:
  "store_inv s \<Longrightarrow> ttl_Len (TtlKeyHeap s) < fuel \<Longrightarrow> untied cutoff (view s) \<Longrightarrow>
   unat (CurrentIndex s) + card (expire_tops cutoff (view s)) < 2 ^ 64 \<Longrightarrow>
   \<exists>s'. expire_loop fuel now cutoff s = Some s' \<and> store_inv s' \<and> view s' = expire_view cutoff (view s) \<and>
     unat (CurrentIndex s') = unat (CurrentIndex s) + card (expire_tops cutoff (view s))"
proof (induction fuel arbitrary: s)
  case (Suc fuel)
  show ?case
  proof (cases "case ttl_top (TtlKeyHeap s) of None \<Rightarrow> True | Some n \<Rightarrow> cutoff < ExpireTime (smem s n)")
    case True
    note e = expire_end [OF Suc.prems(1) True]
    from e(1) [of fuel now] no_expired [OF e(2)] expire_tops_none [OF e(2)] show ?thesis
      using Suc.prems(1) by (simp del: expire_loop.simps)
  next
    case False
    then obtain n where top: "ttl_top (TtlKeyHeap s) = Some n" "ExpireTime (smem s n) \<le> cutoff" by (auto split: option.splits)
    let ?T = "expire_tops cutoff (view s)"
    from ttl_top_earliest [OF Suc.prems(1) top(1)] obtain ds where "view s ds = Some (entry_of (smem s n))" "ExpireTime (smem s n) \<noteq> 0"
      "earliest (view s) (entry_of (smem s n))" by (auto simp: tree_view_def)
    then have "ds \<in> ?T" using expire_tops_earliest [OF _ _ _ _ Suc.prems(3)] top(2) by simp
    then have pos: "0 < card ?T" using finite_expire_tops [OF Suc.prems(1)] by (auto simp: card_gt_0_iff)
    have i: "CurrentIndex s \<noteq> - 1" by (rule not_max) (use Suc.prems(4) pos in simp)
    from expire_round [OF Suc.prems(1) i top, of fuel now] obtain s1 cs x where
      s1: "expire_loop (Suc fuel) now cutoff s = expire_loop fuel now cutoff s1" "store_inv s1"
      "view s cs = Some x" "expires x \<noteq> 0" "expires x \<le> cutoff" "view s1 = cut_view cs (view s)"
      "CurrentIndex s1 = CurrentIndex s + 1" "ttl_Len (TtlKeyHeap s1) < ttl_Len (TtlKeyHeap s)" "earliest (view s) x" by auto
    have u: "unat (CurrentIndex s1) = Suc (unat (CurrentIndex s))" using s1(7) i by (simp add: unat_plus_one)
    have "expire_tops cutoff (view s1) = ?T - {cs}" "cs \<in> ?T"
      using expire_tops_cut [OF s1(3-5,9)] expire_tops_earliest [OF s1(3-5,9) Suc.prems(3)] s1(6) by simp_all
    then have c: "card (expire_tops cutoff (view s1)) = card ?T - 1" by simp
    have "ttl_Len (TtlKeyHeap s1) < fuel" "untied cutoff (view s1)" "unat (CurrentIndex s1) + card (expire_tops cutoff (view s1)) < 2 ^ 64"
      using s1(6,8) Suc.prems(2-4) untied_cut u c pos by simp_all
    from Suc.IH [OF s1(2) this] obtain s' where
      s': "expire_loop fuel now cutoff s1 = Some s'" "store_inv s'" "view s' = expire_view cutoff (view s1)"
      "unat (CurrentIndex s') = unat (CurrentIndex s1) + card (expire_tops cutoff (view s1))" by blast
    have "view s' = expire_view cutoff (view s)" unfolding s'(3) s1(6) using s1(3-5) by (rule expire_cut)
    then show ?thesis using s1(1) s' u c pos by (intro exI [of _ s']) (simp del: expire_loop.simps)
  qed
qed simp

section \<open>Watch\<close>

lemma store_Watch_spec:
  fixes p s since
  defines "index \<equiv> if since = 0 then CurrentIndex s + 1 else since"
  defines "h \<equiv> EHistory (WatcherHub s)"
  assumes inv: "store_inv s" and i: "CurrentIndex s \<noteq> - 1"
  shows "\<exists>r s'. store_Watch p rec strm since s = Some (r, s') \<and> store_inv s' \<and> abs_store s' = abs_store s \<and>
    EHistory (WatcherHub s') = h \<and>
    (case r of
       Inl err \<Rightarrow> index < StartIndex h \<and> ErrorCode err = EcodeEventIndexCleared \<and>
         ErrIndex err = CurrentIndex s \<and> s' = s
     | Inr w \<Rightarrow> \<not> index < StartIndex h \<and> w = next_wid (WatcherHub s) \<and>
         recursive (wmem (WatcherHub s') w) = rec \<and> stream (wmem (WatcherHub s') w) = strm \<and>
         sinceIndex (wmem (WatcherHub s') w) = index \<and>
         (case find (scan_match (render (key_names p)) rec)
             (drop (unat index - unat (StartIndex h)) (hist_list h)) of
            Some e \<Rightarrow> EventChan (wmem (WatcherHub s') w) = [e] \<and>
              (\<forall>k. \<not> registered_at (WatcherHub s') k w) \<and> remove_fn (wmem (WatcherHub s') w) = None
          | None \<Rightarrow> EventChan (wmem (WatcherHub s') w) = [] \<and>
              (\<forall>k. registered_at (WatcherHub s') k w \<longleftrightarrow> k = render (key_names p))))"
proof -
  have "CurrentIndex s + 1 \<noteq> 0" using i by (simp add: eq_neg_iff_add_eq_0 [symmetric])
  then have nz: "index \<noteq> 0" by (simp add: index_def)
  from hub_watch_spec [OF store_invD(2) [OF inv] nz, of "render (key_names p)" rec strm] obtain r hub where
    w: "hub_watch (WatcherHub s) (render (key_names p)) rec strm index = Some (r, hub)" "hub_inv hub"
    "EHistory hub = h"
    "(case r of
       Inl err \<Rightarrow> index < StartIndex h \<and> ErrorCode err = EcodeEventIndexCleared \<and> hub = WatcherHub s
     | Inr w \<Rightarrow> \<not> index < StartIndex h \<and> w = next_wid (WatcherHub s) \<and>
         recursive (wmem hub w) = rec \<and> stream (wmem hub w) = strm \<and>
         sinceIndex (wmem hub w) = index \<and>
         (case find (scan_match (render (key_names p)) rec)
             (drop (unat index - unat (StartIndex h)) (hist_list h)) of
            Some e \<Rightarrow> EventChan (wmem hub w) = [e] \<and> (\<forall>k. \<not> registered_at hub k w) \<and>
              remove_fn (wmem hub w) = None
          | None \<Rightarrow> EventChan (wmem hub w) = [] \<and>
              (\<forall>k. registered_at hub k w \<longleftrightarrow> k = render (key_names p))))"
    unfolding h_def by blast
  have "store_inv (s\<lparr>WatcherHub := hub\<rparr>)" "abs_store (s\<lparr>WatcherHub := hub\<rparr>) = abs_store s"
    using inv w(2,3) by (simp_all add: store_inv_def h_def abs_store_def)
  moreover have "store_Watch p rec strm since s =
      (case hub_watch (WatcherHub s) (render (key_names p)) rec strm index of
         None \<Rightarrow> None
       | Some (Inl err, hub) \<Rightarrow> Some (Inl (err\<lparr>ErrIndex := CurrentIndex s\<rparr>), s\<lparr>WatcherHub := hub\<rparr>)
       | Some (Inr w, hub) \<Rightarrow> Some (Inr w, s\<lparr>WatcherHub := hub\<rparr>))"
    by (simp add: store_Watch_def Clean_Join_key Let_def index_def)
  moreover have "s\<lparr>WatcherHub := WatcherHub s\<rparr> = s" by simp
  ultimately show ?thesis using w
    by (cases r; cases "find (scan_match (render (key_names p)) rec)
          (drop (unat index - unat (StartIndex h)) (hist_list h))") simp_all
qed

end
