(* ===== verification/EtcdCommand.thy ===== *)
theory EtcdCommand
  imports EtcdDelete
begin

text \<open>
  \<open>coreos/etcd/store/command_factory.go\<close> and \<open>store/v2/*.go\<close>: the registry of command
  factories, the version-2 commands a cluster's log holds and what applying one does to the
  store. \<open>store_step\<close> is one step of a running store (a command, a watch, a receive from a
  watcher's channel, a removal of a registered watcher); every store that steps reach
  satisfies the invariant, so no command panics.
\<close>

section \<open>The registry of command factories\<close>

record registry =
  factories :: "int \<Rightarrow> bool"
  minVersion :: int
  maxVersion :: int

definition no_factories :: registry where
  "no_factories = \<lparr>factories = (\<lambda>_. False), minVersion = 0, maxVersion = 0\<rparr>"

text \<open>Registering a version twice panics.\<close>

definition RegisterCommandFactory :: "int \<Rightarrow> registry \<Rightarrow> registry option" where
  "RegisterCommandFactory version r =
     (if factories r version then None
      else
        let r1 = r\<lparr>factories := (factories r)(version := True)\<rparr>;
            r2 = (if minVersion r1 = 0 \<or> version > minVersion r1 then r1\<lparr>minVersion := version\<rparr> else r1)
        in Some (if maxVersion r2 = 0 \<or> version > maxVersion r2 then r2\<lparr>maxVersion := version\<rparr> else r2))"

fun register_all :: "int list \<Rightarrow> registry \<Rightarrow> registry option" where
  "register_all [] r = Some r"
| "register_all (v # vs) r = Option.bind (RegisterCommandFactory v r) (register_all vs)"

lemma RegisterCommandFactory_versions:
  assumes "RegisterCommandFactory v r = Some r'" and "0 < v" and "minVersion r = maxVersion r"
    and "0 \<le> maxVersion r"
  shows "minVersion r' = maxVersion r'" "maxVersion r' = max v (maxVersion r)"
    "\<And>u. factories r' u \<longleftrightarrow> u = v \<or> factories r u"
  using assms by (auto simp: RegisterCommandFactory_def Let_def split: if_splits)

lemma register_all_versions:
  "register_all vs r = Some r' \<Longrightarrow> (\<forall>v \<in> set vs. 0 < v) \<Longrightarrow> minVersion r = maxVersion r \<Longrightarrow> 0 \<le> maxVersion r \<Longrightarrow>
   minVersion r' = maxVersion r' \<and> maxVersion r' = foldr max vs (maxVersion r)"
proof (induction vs arbitrary: r)
  case (Cons v vs)
  from Cons.prems(1) obtain r1 where r1: "RegisterCommandFactory v r = Some r1" "register_all vs r1 = Some r'"
    by (auto simp: bind_eq_Some_conv)
  have v: "0 < v" using Cons.prems(2) by simp
  note R = RegisterCommandFactory_versions(1,2) [OF r1(1) v Cons.prems(3,4)]
  have "0 \<le> maxVersion r1" using R(2) Cons.prems(4) by simp
  from Cons.IH [OF r1(2) _ R(1) this] Cons.prems(2)
  have IH: "minVersion r' = maxVersion r'" "maxVersion r' = foldr max vs (maxVersion r1)" by auto
  have "foldr max vs (max v m) = max v (foldr max vs m)" for m
    by (induction vs) (auto simp: max.left_commute)
  then show ?case using IH R(2) by simp
qed simp

section \<open>Commands\<close>

datatype command =
    SetCommand string bool string time
  | CreateCommand string bool string time bool
  | UpdateCommand string string time
  | DeleteCommand string bool bool
  | CompareAndSwapCommand string string string u64 time
  | CompareAndDeleteCommand string string u64
  | GetCommand string bool bool
  | SyncCommand time

text \<open>
  The \<open>Create...Command\<close> methods of the version-2 factory. \<open>CreateSyncCommand\<close> takes the clock
  as its first argument: it does not use the time it is given.
\<close>

definition CreateSetCommand :: "string \<Rightarrow> bool \<Rightarrow> string \<Rightarrow> time \<Rightarrow> command" where
  "CreateSetCommand key dir val t = SetCommand key dir val t"

definition CreateCreateCommand :: "string \<Rightarrow> bool \<Rightarrow> string \<Rightarrow> time \<Rightarrow> bool \<Rightarrow> command" where
  "CreateCreateCommand key dir val t unique = CreateCommand key dir val t unique"

definition CreateUpdateCommand :: "string \<Rightarrow> string \<Rightarrow> time \<Rightarrow> command" where
  "CreateUpdateCommand key val t = UpdateCommand key val t"

definition CreateDeleteCommand :: "string \<Rightarrow> bool \<Rightarrow> bool \<Rightarrow> command" where
  "CreateDeleteCommand key dir recu = DeleteCommand key dir recu"

definition CreateCompareAndSwapCommand :: "string \<Rightarrow> string \<Rightarrow> string \<Rightarrow> u64 \<Rightarrow> time \<Rightarrow> command" where
  "CreateCompareAndSwapCommand key val prevValue prevIndex t = CompareAndSwapCommand key val prevValue prevIndex t"

definition CreateCompareAndDeleteCommand :: "string \<Rightarrow> string \<Rightarrow> u64 \<Rightarrow> command" where
  "CreateCompareAndDeleteCommand key prevValue prevIndex = CompareAndDeleteCommand key prevValue prevIndex"

definition CreateSyncCommand :: "time \<Rightarrow> time \<Rightarrow> command" where
  "CreateSyncCommand clock now = SyncCommand clock"

definition CreateGetCommand :: "string \<Rightarrow> bool \<Rightarrow> bool \<Rightarrow> command" where
  "CreateGetCommand key recu srt = GetCommand key recu srt"

text \<open>What applying a command returns: an error, or an event (none for a sync).\<close>

type_synonym reply = "((etcd_error + event option) \<times> store) option"

definition reply :: "event result \<Rightarrow> reply" where
  "reply res = map_option (map_prod (map_sum id Some) id) res"

definition Set_Apply :: "time \<Rightarrow> string \<Rightarrow> bool \<Rightarrow> string \<Rightarrow> time \<Rightarrow> store \<Rightarrow> reply" where
  "Set_Apply now key dir val t s = reply (store_Set now key dir val t s)"

definition Create_Apply :: "time \<Rightarrow> string \<Rightarrow> bool \<Rightarrow> string \<Rightarrow> time \<Rightarrow> bool \<Rightarrow> store \<Rightarrow> reply" where
  "Create_Apply now key dir val t unique s = reply (store_Create now key dir val unique t s)"

definition Update_Apply :: "time \<Rightarrow> string \<Rightarrow> string \<Rightarrow> time \<Rightarrow> store \<Rightarrow> reply" where
  "Update_Apply now key val t s = reply (store_Update now key val t s)"

text \<open>Recursive implies dir.\<close>

definition Delete_Apply :: "time \<Rightarrow> string \<Rightarrow> bool \<Rightarrow> bool \<Rightarrow> store \<Rightarrow> reply" where
  "Delete_Apply now key dir recu s =
     (let dir1 = (if recu then True else dir) in reply (store_Delete now key dir1 recu s))"

definition CompareAndSwap_Apply ::
    "time \<Rightarrow> string \<Rightarrow> string \<Rightarrow> string \<Rightarrow> u64 \<Rightarrow> time \<Rightarrow> store \<Rightarrow> reply" where
  "CompareAndSwap_Apply now key val prevValue prevIndex t s =
     reply (store_CompareAndSwap now key prevValue prevIndex val t s)"

definition CompareAndDelete_Apply :: "time \<Rightarrow> string \<Rightarrow> string \<Rightarrow> u64 \<Rightarrow> store \<Rightarrow> reply" where
  "CompareAndDelete_Apply now key prevValue prevIndex s =
     reply (store_CompareAndDelete now key prevValue prevIndex s)"

definition Get_Apply :: "time \<Rightarrow> string \<Rightarrow> bool \<Rightarrow> bool \<Rightarrow> store \<Rightarrow> reply" where
  "Get_Apply now key recu srt s = reply (store_Get now key recu srt s)"

definition Sync_Apply :: "time \<Rightarrow> time \<Rightarrow> store \<Rightarrow> reply" where
  "Sync_Apply now t s = map_option (Pair (Inr None)) (DeleteExpiredKeys now t s)"

lemmas Apply_defs = reply_def Set_Apply_def Create_Apply_def Update_Apply_def Delete_Apply_def
  CompareAndSwap_Apply_def CompareAndDelete_Apply_def Get_Apply_def Sync_Apply_def

fun Apply :: "time \<Rightarrow> command \<Rightarrow> store \<Rightarrow> reply" where
  "Apply now (SetCommand key dir val t) s = Set_Apply now key dir val t s"
| "Apply now (CreateCommand key dir val t unique) s = Create_Apply now key dir val t unique s"
| "Apply now (UpdateCommand key val t) s = Update_Apply now key val t s"
| "Apply now (DeleteCommand key dir recu) s = Delete_Apply now key dir recu s"
| "Apply now (CompareAndSwapCommand key val prevValue prevIndex t) s =
     CompareAndSwap_Apply now key val prevValue prevIndex t s"
| "Apply now (CompareAndDeleteCommand key prevValue prevIndex) s =
     CompareAndDelete_Apply now key prevValue prevIndex s"
| "Apply now (GetCommand key recu srt) s = Get_Apply now key recu srt s"
| "Apply now (SyncCommand t) s = Sync_Apply now t s"

text \<open>The abstract command. A sync removes what has expired, one index for each node that it takes off
  the heap.\<close>

definition kv_sync :: "time \<Rightarrow> kv \<Rightarrow> kv" where
  "kv_sync t k = \<lparr>ktree = expire_view t (ktree k), kindex = kindex k + of_nat (card (expire_tops t (ktree k)))\<rparr>"

fun kv_apply :: "command \<Rightarrow> kv \<Rightarrow> int option \<times> kv" where
  "kv_apply (SetCommand key dir val t) k = kv_create True (key_names key) dir val t k"
| "kv_apply (CreateCommand key dir val t unique) k =
     kv_create False (create_names key unique (kindex k)) dir val t k"
| "kv_apply (UpdateCommand key val t) k = kv_update (key_names key) val t k"
| "kv_apply (DeleteCommand key dir recu) k = kv_delete (key_names key) dir recu k"
| "kv_apply (CompareAndSwapCommand key val prevValue prevIndex t) k =
     kv_cas (key_names key) prevValue prevIndex val t k"
| "kv_apply (CompareAndDeleteCommand key prevValue prevIndex) k = kv_cad (key_names key) prevValue prevIndex k"
| "kv_apply (GetCommand key recu srt) k =
     (if ktree k (key_names key) = None then (Some (get_error (ktree k) (key_names key)), k) else (None, k))"
| "kv_apply (SyncCommand t) k = (None, kv_sync t k)"

text \<open>The index has room for the command, and no directory expires at the same time as something below
  it, among what a sync removes: the heap would decide which of the two goes first.\<close>

fun determined :: "command \<Rightarrow> kv \<Rightarrow> bool" where
  "determined (SyncCommand t) k \<longleftrightarrow> untied t (ktree k) \<and> unat (kindex k) + card (expire_tops t (ktree k)) < 2 ^ 64"
| "determined c k \<longleftrightarrow> unat (kindex k) + 1 < 2 ^ 64"

text \<open>The index has room for the events of the command.\<close>

definition has_room :: "store \<Rightarrow> bool" where
  "has_room s \<longleftrightarrow> unat (CurrentIndex s) + ttl_Len (TtlKeyHeap s) < 2 ^ 64 - 1"

lemma has_room_index: "has_room s \<Longrightarrow> CurrentIndex s \<noteq> - 1"
  by (auto simp: has_room_def unsigned_minus_1_eq_mask mask_eq_exp_minus_1)

definition is_sync :: "command \<Rightarrow> bool" where
  "is_sync c \<longleftrightarrow> (\<exists>t. c = SyncCommand t)"

lemma kv_delete_recursive: "kv_delete cs (if recu then True else dir) recu k = kv_delete cs dir recu k"
  by (cases recu) (simp_all add: kv_delete_def Let_def split: option.splits)

lemma refines_map:
  assumes "refines res a s"
  shows "\<exists>r s'. map_option (map_prod (map_sum id Some) id) res = Some (r, s') \<and> store_inv s' \<and>
    (err_code r, abs_store s') = a"
proof -
  from assms obtain r s' where "res = Some (r, s')" "store_inv s'" "(err_code r, abs_store s') = a"
    by (auto simp: refines_def)
  then show ?thesis by (cases r) simp_all
qed

lemma Apply_refines:
  assumes inv: "store_inv s" and room: "CurrentIndex s \<noteq> - 1" and c: "\<not> is_sync c"
  shows "\<exists>r s'. Apply now c s = Some (r, s') \<and> store_inv s' \<and> (err_code r, abs_store s') = kv_apply c (abs_store s)"
proof (cases c)
  case (GetCommand key recu srt)
  from store_Get_spec [OF inv, of now key recu srt] obtain r s' where
    g: "store_Get now key recu srt s = Some (r, s')" "store_inv s'" "abs_store s' = abs_store s"
    "(case look s (key_names key) of
       None \<Rightarrow> \<exists>err. r = Inl err \<and> ErrIndex err = CurrentIndex s \<and> ErrorCode err = get_error (view s) (key_names key)
     | Some n \<Rightarrow> \<exists>e. r = Inr e)" by (auto split: option.splits)
  then show ?thesis using GetCommand by (cases "look s (key_names key)") (auto simp: view_None Apply_defs)
next
  case (DeleteCommand key dir recu)
  show ?thesis
    using refines_map [OF store_Delete_spec(1) [OF inv room, of now key "if recu then True else dir" recu]]
    unfolding kv_delete_recursive by (simp add: DeleteCommand Apply_defs)
qed (use refines_map [OF store_Set_spec(1) [OF inv room]]
      refines_map [OF store_Create_spec(1) [OF inv room]]
      refines_map [OF store_Update_spec(1) [OF inv room]]
      refines_map [OF store_CompareAndSwap_spec(1) [OF inv room]]
      refines_map [OF store_CompareAndDelete_spec(1) [OF inv room]] c
    in \<open>simp_all add: is_sync_def Apply_defs\<close>)

lemma DeleteExpiredKeys_spec:
  assumes inv: "store_inv s" and room: "has_room s"
  shows "\<exists>s'. DeleteExpiredKeys now cutoff s = Some s' \<and> store_inv s' \<and>
    view s' = expire_view cutoff (view s) \<and> unat (CurrentIndex s) \<le> unat (CurrentIndex s') \<and>
    unat (CurrentIndex s') \<le> unat (CurrentIndex s) + ttl_Len (TtlKeyHeap s)"
  using expire_loop_spec [OF inv, of "Suc (ttl_Len (TtlKeyHeap s))" now cutoff] room
  by (simp add: DeleteExpiredKeys_def has_room_def)

lemma DeleteExpiredKeys_refines:
  assumes inv: "store_inv s" and u: "untied t (view s)" and room: "unat (CurrentIndex s) + card (expire_tops t (view s)) < 2 ^ 64"
  shows "\<exists>s'. DeleteExpiredKeys now t s = Some s' \<and> store_inv s' \<and> abs_store s' = kv_sync t (abs_store s)"
proof -
  obtain s' where s': "DeleteExpiredKeys now t s = Some s'" "store_inv s'" "view s' = expire_view t (view s)"
    "unat (CurrentIndex s') = unat (CurrentIndex s) + card (expire_tops t (view s))"
    using expire_loop_counts [OF inv _ u room] by (force simp: DeleteExpiredKeys_def)
  have "CurrentIndex s' = CurrentIndex s + of_nat (card (expire_tops t (view s)))"
    using arg_cong [OF s'(4), of "of_nat :: nat \<Rightarrow> u64"] by simp
  then show ?thesis using s' by (simp add: abs_store_def kv_sync_def)
qed

lemma Apply_refines_determined:
  assumes inv: "store_inv s" and f: "determined c (abs_store s)"
  shows "\<exists>r s'. Apply now c s = Some (r, s') \<and> store_inv s' \<and> (err_code r, abs_store s') = kv_apply c (abs_store s)"
proof (cases "is_sync c")
  case True
  then obtain t where "c = SyncCommand t" by (auto simp: is_sync_def)
  then show ?thesis using DeleteExpiredKeys_refines [OF inv, of t now] f by (auto simp: Apply_defs abs_store_def)
next
  case False
  then have "CurrentIndex s \<noteq> - 1"
    using f by (intro not_max) (cases c; simp add: is_sync_def abs_store_def)
  then show ?thesis using Apply_refines [OF inv _ False] by blast
qed

lemma Apply_total:
  assumes inv: "store_inv s" and room: "has_room s"
  shows "\<exists>r s'. Apply now c s = Some (r, s') \<and> store_inv s'"
proof (cases "is_sync c")
  case True
  then obtain t where "c = SyncCommand t" by (auto simp: is_sync_def)
  then show ?thesis using DeleteExpiredKeys_spec [OF inv room, of now t] by (auto simp: Apply_defs)
next
  case False
  then show ?thesis using Apply_refines [OF inv has_room_index [OF room]] by blast
qed

section \<open>A running store\<close>

inductive store_step :: "store \<Rightarrow> store \<Rightarrow> bool" where
  apply_command: "has_room s \<Longrightarrow> Apply now c s = Some (r, s') \<Longrightarrow> store_step s s'"
| watch: "has_room s \<Longrightarrow> store_Watch p rec strm since s = Some (r, s') \<Longrightarrow> store_step s s'"
| receive: "store_step s (s\<lparr>WatcherHub := snd (chan_recv (WatcherHub s) w)\<rparr>)"
| remove_watcher: "registered_at (WatcherHub s) k w \<Longrightarrow> Watcher_Remove (WatcherHub s) w = Some hub \<Longrightarrow>
    store_step s (s\<lparr>WatcherHub := hub\<rparr>)"

lemma store_step_inv: "store_step s s' \<Longrightarrow> store_inv s \<Longrightarrow> store_inv s'"
proof (induction rule: store_step.induct)
  case (apply_command s now c r s')
  then show ?case using Apply_total [of s now c] by auto
next
  case (watch s p rec strm since r s')
  then show ?case
    using store_Watch_spec [OF watch(3) has_room_index [OF watch(1)], of p rec strm since] by auto
next
  case (receive s w)
  then show ?case using chan_recv_inv [OF store_invD(2)] by (simp add: store_inv_def)
next
  case (remove_watcher s k w hub)
  then show ?case using Watcher_Remove_spec [OF store_invD(2) [OF remove_watcher(3)] remove_watcher(1)]
    by (auto simp: store_inv_def)
qed

inductive reachable :: "store \<Rightarrow> bool" where
  init: "reachable newStore"
| step: "reachable s \<Longrightarrow> store_step s s' \<Longrightarrow> reachable s'"

lemma reachable_inv: "reachable s \<Longrightarrow> store_inv s"
  by (induction rule: reachable.induct) (auto intro: newStore_inv store_step_inv)

end
