(* ===== verification/EtcdProps.thy ===== *)
theory EtcdProps
  imports EtcdCommand
begin

text \<open>
  The properties of the store, operation by operation, and of the watcher hub and the event
  history it relies on. Each is stated over the code's own definitions, with the abstract
  tree (\<open>kv_...\<close>) as its specification, and has a witness at a concrete store.
\<close>

section \<open>Helpers\<close>

lemma refines_outcome:
  assumes "refines res a s" and "\<And>e s'. res = Some (Inr e, s') \<Longrightarrow> Q e s'"
  shows "\<exists>r s'. res = Some (r, s') \<and> store_inv s' \<and> (err_code r, abs_store s') = a \<and>
    (case r of Inl err \<Rightarrow> ErrIndex err = CurrentIndex s \<and> WatcherHub s' = WatcherHub s | Inr e \<Rightarrow> Q e s')"
proof -
  from assms(1) obtain r s' where r: "res = Some (r, s')" "store_inv s'" "(err_code r, abs_store s') = a"
    "\<forall>err. r = Inl err \<longrightarrow> ErrIndex err = CurrentIndex s \<and> WatcherHub s' = WatcherHub s"
    by (auto simp: refines_def)
  then show ?thesis
  proof (cases r)
    case (Inl err)
    then show ?thesis using r by (intro exI [of _ r] exI [of _ s']) simp
  next
    case (Inr e)
    then show ?thesis using r assms(2) [of e s'] by (intro exI [of _ r] exI [of _ s']) simp
  qed
qed

lemma refines_state:
  "refines res a s \<Longrightarrow> \<exists>s'. store_inv s' \<and> abs_store s' = snd a"
  by (auto simp: refines_def)

lemma view_newStore: "view newStore = [[] \<mapsto> dir_entry 0]"
proof
  fix cs
  have "child (smem newStore) a c = None" for a c
    by (simp add: child_def newStore_def newDir_def zero_node_def newKV_def)
  then show "view newStore cs = ([[] \<mapsto> dir_entry 0]) cs"
    by (cases cs) (simp_all add: tree_view_def newStore_def newDir_def entry_of_def dir_entry_def Permanent_def)
qed

lemma newStore_index [simp]: "CurrentIndex newStore = 0"
  by (simp add: newStore_def)

lemma blocked_newStore: "\<not> blocked (view newStore) [c]"
  by (auto simp: blocked_def is_file_def view_newStore dir_entry_def split: if_splits)

lemma key_names_foo: "key_names ''/foo'' = [''foo'']" "key_names ''foo'' = [''foo'']"
  by code_simp+

section \<open>Set and Create\<close>

text \<open>C5. \<open>Set\<close> implements the abstract put: it never panics, keeps the store's invariant, fails
  exactly when the abstract operation does and with its error code, leaving tree, index and
  watchers alone; on success the tree has the new file or directory with every missing parent
  directory, the index grew by one, and the event describes the new node, carries the
  previous one and has been delivered to the hub.\<close>

theorem set_implements_put:
  assumes "store_inv s" and "CurrentIndex s \<noteq> - 1"
  shows "\<exists>r s'. store_Set now p dir value t s = Some (r, s') \<and> store_inv s' \<and>
    (err_code r, abs_store s') = kv_create True (key_names p) dir value t (abs_store s) \<and>
    (case r of
       Inl err \<Rightarrow> ErrIndex err = CurrentIndex s \<and> WatcherHub s' = WatcherHub s
     | Inr e \<Rightarrow>
         created_event e ''set'' (key_names p) dir value (CurrentIndex s + 1) \<and>
         hub_notify (WatcherHub s) e = Some (WatcherHub s') \<and>
         (case look s (key_names p) of None \<Rightarrow> PrevNode e = None
          | Some n \<Rightarrow> \<exists>q. PrevNode e = Some q \<and> Key q = p \<and> EValue q = Some (Value (smem s n)) \<and>
              EModifiedIndex q = ModifiedIndex (smem s n) \<and> ECreatedIndex q = CreatedIndex (smem s n)))"
  by (rule refines_outcome [OF store_Set_spec(1) [OF assms]]) (rule store_Set_spec(2) [OF assms])

theorem set_implements_put_witness:
  "\<exists>e s'. store_Set 0 ''/foo'' False ''bar'' 0 newStore = Some (Inr e, s') \<and>
    view s' [''foo''] = Some (new_entry False ''bar'' 1 0) \<and> CurrentIndex s' = 1"
proof -
  have kv: "kv_create True [''foo''] False ''bar'' 0 (abs_store newStore) =
      (None, \<lparr>ktree = put_view [''foo''] (new_entry False ''bar'' 1 0) 1 (view newStore), kindex = 1\<rparr>)"
    using blocked_newStore [of "''foo''"]
    by (simp add: kv_create_def Let_def view_newStore effective_expire_def minExpireTime_def Second_def)
  from set_implements_put [of newStore 0 "''/foo''" False "''bar''" 0] newStore_inv obtain r s' where
    "store_Set 0 ''/foo'' False ''bar'' 0 newStore = Some (r, s')"
    "(err_code r, abs_store s') = kv_create True [''foo''] False ''bar'' 0 (abs_store newStore)"
    by (auto simp: key_names_foo)
  then show ?thesis unfolding kv by (cases r) (auto simp: abs_store_def put_view_def)
qed

text \<open>C35. \<open>Create\<close> implements the abstract create, at the given path or, when \<open>unique\<close> is set, at
  the path with the next index appended: it fails when the path is the root, below a file or
  taken, and otherwise makes the node and its missing parents.\<close>

theorem create_implements_put:
  assumes "store_inv s" and "CurrentIndex s \<noteq> - 1"
  shows "\<exists>r s'. store_Create now p dir value unique t s = Some (r, s') \<and> store_inv s' \<and>
    (err_code r, abs_store s') =
      kv_create False (create_names p unique (CurrentIndex s)) dir value t (abs_store s) \<and>
    (case r of
       Inl err \<Rightarrow> ErrIndex err = CurrentIndex s \<and> WatcherHub s' = WatcherHub s
     | Inr e \<Rightarrow>
         created_event e ''create'' (create_names p unique (CurrentIndex s)) dir value (CurrentIndex s + 1) \<and>
         PrevNode e = None \<and> hub_notify (WatcherHub s) e = Some (WatcherHub s'))"
  by (rule refines_outcome [OF store_Create_spec(1) [OF assms]]) (rule store_Create_spec(2) [OF assms])

theorem create_implements_put_witness:
  "\<exists>e s'. store_Create 0 ''/foo'' True [] False 0 newStore = Some (Inr e, s') \<and>
    view s' [''foo''] = Some (new_entry True [] 1 0)"
proof -
  have kv: "kv_create False [''foo''] True [] 0 (abs_store newStore) =
      (None, \<lparr>ktree = put_view [''foo''] (new_entry True [] 1 0) 1 (view newStore), kindex = 1\<rparr>)"
    using blocked_newStore [of "''foo''"]
    by (simp add: kv_create_def Let_def view_newStore effective_expire_def minExpireTime_def Second_def)
  from create_implements_put [of newStore 0 "''/foo''" True "[]" False 0] newStore_inv obtain r s' where
    "store_Create 0 ''/foo'' True [] False 0 newStore = Some (r, s')"
    "(err_code r, abs_store s') = kv_create False [''foo''] True [] 0 (abs_store newStore)"
    by (auto simp: key_names_foo)
  then show ?thesis unfolding kv by (cases r) (auto simp: abs_store_def put_view_def)
qed

section \<open>CompareAndSwap and Update\<close>

lemma foo_store:
  "\<exists>s. store_inv s \<and> CurrentIndex s = 1 \<and>
     view s = [[] \<mapsto> dir_entry 0, [''foo''] \<mapsto> new_entry False ''bar'' 1 0]"
proof -
  have kv: "kv_create True [''foo''] False ''bar'' 0 (abs_store newStore) =
      (None, \<lparr>ktree = put_view [''foo''] (new_entry False ''bar'' 1 0) 1 (view newStore), kindex = 1\<rparr>)"
    using blocked_newStore [of "''foo''"]
    by (simp add: kv_create_def Let_def view_newStore effective_expire_def minExpireTime_def Second_def)
  have "CurrentIndex newStore \<noteq> - 1" by simp
  from refines_state [OF store_Set_spec(1) [OF newStore_inv this, of 0 "''foo''" False "''bar''" 0]] obtain s where
    s: "store_inv s" "abs_store s = snd (kv_create True [''foo''] False ''bar'' 0 (abs_store newStore))"
    unfolding key_names_foo by blast
  then have v: "view s = put_view [''foo''] (new_entry False ''bar'' 1 0) 1 (view newStore)" "CurrentIndex s = 1"
    unfolding kv by (auto simp: abs_store_def)
  have "view s = [[] \<mapsto> dir_entry 0, [''foo''] \<mapsto> new_entry False ''bar'' 1 0]"
    unfolding v view_newStore by (auto simp: put_view_def fill_dirs_def strict_prefix_Cons fun_eq_iff)
  then show ?thesis using s(1) v(2) by blast
qed

lemma foo_store':
  "\<exists>s. store_inv s \<and> CurrentIndex s = 1 \<and> view s [''foo''] = Some (new_entry False ''bar'' 1 0)"
  using foo_store by (metis fun_upd_same)

text \<open>C10. \<open>CompareAndSwap\<close> implements the abstract compare-and-swap: it succeeds exactly when the
  path is a file whose modified index and value equal the given ones (where given), and then
  changes the file's value, modified index and TTL and nothing else; the event carries the
  file as it was.\<close>

theorem compare_and_swap_implements_cas:
  assumes "store_inv s" and "CurrentIndex s \<noteq> - 1"
  shows "\<exists>r s'. store_CompareAndSwap now p prevValue prevIndex value t s = Some (r, s') \<and> store_inv s' \<and>
    (err_code r, abs_store s') = kv_cas (key_names p) prevValue prevIndex value t (abs_store s) \<and>
    (case r of
       Inl err \<Rightarrow> ErrIndex err = CurrentIndex s \<and> WatcherHub s' = WatcherHub s
     | Inr e \<Rightarrow>
         updated_event e ''compareAndSwap'' (key_names p) False value (CurrentIndex s + 1) \<and>
         (\<exists>n. look s (key_names p) = Some n \<and> ext_matches (smem s) now (Some n) (PrevNode e)) \<and>
         hub_notify (WatcherHub s) e = Some (WatcherHub s'))"
  by (rule refines_outcome [OF store_CompareAndSwap_spec(1) [OF assms]])
    (rule store_CompareAndSwap_spec(2) [OF assms])

theorem compare_and_swap_implements_cas_witness:
  "\<exists>s e s'. store_CompareAndSwap 0 ''foo'' ''bar'' 1 ''baz'' 0 s = Some (Inr e, s') \<and>
     view s' [''foo''] = Some \<lparr>content = FileC ''baz'', created = 1, modified = 2, expires = 0\<rparr>"
proof -
  obtain s where s: "store_inv s" "CurrentIndex s = 1" "view s [''foo''] = Some (new_entry False ''bar'' 1 0)"
    using foo_store' by blast
  have kv: "kv_cas [''foo''] ''bar'' 1 ''baz'' 0 (abs_store s) =
      (None, \<lparr>ktree = (view s)([''foo''] \<mapsto> \<lparr>content = FileC ''baz'', created = 1, modified = 2, expires = 0\<rparr>), kindex = 2\<rparr>)"
    using s by (simp add: kv_cas_def Let_def new_entry_def entry_matches_def)
  from compare_and_swap_implements_cas [OF s(1), of 0 "''foo''" "''bar''" 1 "''baz''" 0] s(2) obtain r s' where
    "store_CompareAndSwap 0 ''foo'' ''bar'' 1 ''baz'' 0 s = Some (r, s')"
    "(err_code r, abs_store s') = kv_cas [''foo''] ''bar'' 1 ''baz'' 0 (abs_store s)"
    by (auto simp: key_names_foo)
  then show ?thesis unfolding kv by (intro exI [of _ s]) (cases r, auto simp: abs_store_def)
qed

text \<open>C36. \<open>Update\<close> implements the abstract update: on a file it replaces value, modified index and
  TTL; on a directory it accepts no value and replaces the TTL alone, so that the directory's
  modified index stays although the index grew and the event carries the new index.\<close>

theorem update_implements_update:
  assumes "store_inv s" and "CurrentIndex s \<noteq> - 1"
  shows "\<exists>r s'. store_Update now p value t s = Some (r, s') \<and> store_inv s' \<and>
    (err_code r, abs_store s') = kv_update (key_names p) value t (abs_store s) \<and>
    (case r of
       Inl err \<Rightarrow> ErrIndex err = CurrentIndex s \<and> WatcherHub s' = WatcherHub s
     | Inr e \<Rightarrow>
         \<exists>n. look s (key_names p) = Some n \<and> ext_matches (smem s) now (Some n) (PrevNode e) \<and>
           updated_event e ''update'' (key_names p) (IsDir (smem s n)) value (CurrentIndex s + 1) \<and>
           hub_notify (WatcherHub s) e = Some (WatcherHub s'))"
  by (rule refines_outcome [OF store_Update_spec(1) [OF assms]]) (rule store_Update_spec(2) [OF assms])

theorem update_implements_update_witness:
  "\<exists>s e s'. store_Update 0 ''foo'' ''baz'' 7 s = Some (Inr e, s') \<and>
     view s' [''foo''] = Some \<lparr>content = FileC ''baz'', created = 1, modified = 2, expires = 7\<rparr>"
proof -
  obtain s where s: "store_inv s" "CurrentIndex s = 1" "view s [''foo''] = Some (new_entry False ''bar'' 1 0)"
    using foo_store' by blast
  have kv: "kv_update [''foo''] ''baz'' 7 (abs_store s) =
      (None, \<lparr>ktree = (view s)([''foo''] \<mapsto> \<lparr>content = FileC ''baz'', created = 1, modified = 2, expires = 7\<rparr>), kindex = 2\<rparr>)"
    using s by (simp add: kv_update_def Let_def new_entry_def)
  from update_implements_update [OF s(1), of 0 "''foo''" "''baz''" 7] s(2) obtain r s' where
    "store_Update 0 ''foo'' ''baz'' 7 s = Some (r, s')"
    "(err_code r, abs_store s') = kv_update [''foo''] ''baz'' 7 (abs_store s)"
    by (auto simp: key_names_foo)
  then show ?thesis unfolding kv by (intro exI [of _ s]) (cases r, auto simp: abs_store_def)
qed

section \<open>Delete, CompareAndDelete and expiry\<close>

text \<open>C13. \<open>Delete\<close> removes exactly the subtree at the path: a directory only with \<open>dir\<close> or
  \<open>recursive\<close>, a non-empty one only with \<open>recursive\<close>; before the event is recorded, the
  watchers of each removed path, and of no other, have been notified.\<close>

theorem delete_removes_subtree:
  assumes "store_inv s" and "CurrentIndex s \<noteq> - 1"
  shows "\<exists>r s'. store_Delete now p dir recu s = Some (r, s') \<and> store_inv s' \<and>
    (err_code r, abs_store s') = kv_delete (key_names p) dir recu (abs_store s) \<and>
    (case r of
       Inl err \<Rightarrow> ErrIndex err = CurrentIndex s \<and> WatcherHub s' = WatcherHub s
     | Inr e \<Rightarrow>
         \<exists>n hub. look s (key_names p) = Some n \<and> ext_matches (smem s) now (Some n) (PrevNode e) \<and>
           removed_event e ''delete'' (key_names p) (IsDir (smem s n)) (CurrentIndex s + 1) \<and>
           notified_removal e (key_names p) s hub \<and> hub_notify hub e = Some (WatcherHub s'))"
  by (rule refines_outcome [OF store_Delete_spec(1) [OF assms]]) (rule store_Delete_spec(2) [OF assms])

theorem delete_removes_subtree_witness:
  "\<exists>s e s'. view s [''foo''] \<noteq> None \<and> store_Delete 0 ''foo'' False False s = Some (Inr e, s') \<and>
     view s' [''foo''] = None \<and> view s' [] = view s []"
proof -
  obtain s where s: "store_inv s" "CurrentIndex s = 1" "view s [''foo''] = Some (new_entry False ''bar'' 1 0)"
    using foo_store' by blast
  have kv: "kv_delete [''foo''] False False (abs_store s) = (None, \<lparr>ktree = cut_view [''foo''] (view s), kindex = 2\<rparr>)"
    using s by (simp add: kv_delete_def Let_def new_entry_def)
  from delete_removes_subtree [OF s(1), of 0 "''foo''" False False] s(2) obtain r s' where
    "store_Delete 0 ''foo'' False False s = Some (r, s')"
    "(err_code r, abs_store s') = kv_delete [''foo''] False False (abs_store s)"
    by (auto simp: key_names_foo)
  then show ?thesis using s(3) unfolding kv
    by (intro exI [of _ s]) (cases r, auto simp: abs_store_def cut_view_def)
qed

text \<open>\<open>CompareAndDelete\<close> removes the file at the path exactly when its modified index and
  value equal the given ones (where given), and never a directory.\<close>

theorem compare_and_delete_removes_file:
  assumes "store_inv s" and "CurrentIndex s \<noteq> - 1"
  shows "\<exists>r s'. store_CompareAndDelete now p prevValue prevIndex s = Some (r, s') \<and> store_inv s' \<and>
    (err_code r, abs_store s') = kv_cad (key_names p) prevValue prevIndex (abs_store s) \<and>
    (case r of
       Inl err \<Rightarrow> ErrIndex err = CurrentIndex s \<and> WatcherHub s' = WatcherHub s
     | Inr e \<Rightarrow>
         \<exists>n hub. look s (key_names p) = Some n \<and> ext_matches (smem s) now (Some n) (PrevNode e) \<and>
           removed_event e ''compareAndDelete'' (key_names p) False (CurrentIndex s + 1) \<and>
           notified_removal e (key_names p) s hub \<and> hub_notify hub e = Some (WatcherHub s'))"
  by (rule refines_outcome [OF store_CompareAndDelete_spec(1) [OF assms]])
    (rule store_CompareAndDelete_spec(2) [OF assms])

theorem compare_and_delete_removes_file_witness:
  "\<exists>s err s'. store_CompareAndDelete 0 ''foo'' ''nope'' 0 s = Some (Inl err, s') \<and>
     ErrorCode err = EcodeTestFailed \<and> view s' = view s"
proof -
  obtain s where s: "store_inv s" "CurrentIndex s = 1" "view s [''foo''] = Some (new_entry False ''bar'' 1 0)"
    using foo_store' by blast
  have kv: "kv_cad [''foo''] ''nope'' 0 (abs_store s) = (Some EcodeTestFailed, abs_store s)"
    using s by (simp add: kv_cad_def Let_def new_entry_def entry_matches_def)
  from compare_and_delete_removes_file [OF s(1), of 0 "''foo''" "''nope''" 0] s(2) obtain r s' where
    "store_CompareAndDelete 0 ''foo'' ''nope'' 0 s = Some (r, s')"
    "(err_code r, abs_store s') = kv_cad [''foo''] ''nope'' 0 (abs_store s)"
    by (auto simp: key_names_foo)
  then show ?thesis unfolding kv by (intro exI [of _ s]) (cases r, auto simp: abs_store_def)
qed

text \<open>C27. \<open>DeleteExpiredKeys\<close> returns, and removes exactly the nodes that have expired by the
  cutoff, with everything below them; the index grows by at most one for each node with a
  TTL.\<close>

theorem delete_expired_keys_exact:
  assumes "store_inv s" and "has_room s"
  shows "\<exists>s'. DeleteExpiredKeys now cutoff s = Some s' \<and> store_inv s' \<and>
    view s' = expire_view cutoff (view s) \<and> unat (CurrentIndex s) \<le> unat (CurrentIndex s') \<and>
    unat (CurrentIndex s') \<le> unat (CurrentIndex s) + ttl_Len (TtlKeyHeap s)"
  by (rule DeleteExpiredKeys_spec [OF assms])

theorem delete_expired_keys_exact_witness:
  "\<exists>s s'. view s [''foo''] \<noteq> None \<and> DeleteExpiredKeys 0 9 s = Some s' \<and> view s' [''foo''] = None \<and> view s' [] \<noteq> None"
proof -
  obtain s where s: "store_inv s" "CurrentIndex s = 1"
    "view s = [[] \<mapsto> dir_entry 0, [''foo''] \<mapsto> new_entry False ''bar'' 1 0]"
    using foo_store by blast
  let ?x = "\<lparr>content = FileC ''bar'', created = 1, modified = 2, expires = 7\<rparr>"
  have kv: "kv_update [''foo''] ''bar'' 7 (abs_store s) = (None, \<lparr>ktree = (view s)([''foo''] \<mapsto> ?x), kindex = 2\<rparr>)"
    using s by (simp add: kv_update_def Let_def new_entry_def)
  have "CurrentIndex s \<noteq> - 1" using s(2) by simp
  from refines_state [OF store_Update_spec(1) [OF s(1) this, of 0 "''foo''" "''bar''" 7]] obtain s1 where
    s1: "store_inv s1" "abs_store s1 = snd (kv_update [''foo''] ''bar'' 7 (abs_store s))"
    unfolding key_names_foo by blast
  then have v1: "view s1 = [[] \<mapsto> dir_entry 0, [''foo''] \<mapsto> ?x]" "CurrentIndex s1 = 2"
    unfolding kv s(3) by (auto simp: abs_store_def)
  have "ttl_nodes (smem s1) (Root s1) \<subseteq> {the (look s1 [''foo''])}"
  proof
    fix n assume "n \<in> ttl_nodes (smem s1) (Root s1)"
    then obtain cs where cs: "look s1 cs = Some n" "ExpireTime (smem s1 n) \<noteq> 0" by (auto simp: ttl_nodes_def)
    then have "view s1 cs = Some (entry_of (smem s1 n))" by (simp add: tree_view_def)
    then have "view s1 cs = Some (entry_of (smem s1 n))" "expires (entry_of (smem s1 n)) \<noteq> 0" using cs(2) by simp_all
    moreover have "view s1 [] = Some (dir_entry 0)" "expires (dir_entry 0) = 0"
      unfolding v1 by (simp_all add: dir_entry_def)
    ultimately have "cs \<noteq> []" by (metis option.inject)
    then have "cs = [''foo'']" using \<open>view s1 cs = Some (entry_of (smem s1 n))\<close> unfolding v1
      by (auto split: if_splits)
    then show "n \<in> {the (look s1 [''foo''])}" using cs(1) by simp
  qed
  then have "ttl_Len (TtlKeyHeap s1) \<le> 1"
    unfolding ttl_Len_card [OF store_invD(1) [OF s1(1)]] core_invD(3) [OF store_invD(1) [OF s1(1)]]
    by (metis Diff_empty card.empty card_insert_disjoint card_mono empty_iff finite.intros One_nat_def)
  then have "has_room s1" using v1(2) by (simp add: has_room_def)
  from delete_expired_keys_exact [OF s1(1) this, of 0 9] obtain s' where
    s': "DeleteExpiredKeys 0 9 s1 = Some s'" "view s' = expire_view 9 (view s1)" by blast
  have "expired (view s1) 9 [''foo'']" unfolding v1 by (auto simp: expired_def intro!: exI [of _ "[''foo'']"])
  moreover have "\<not> expired (view s1) 9 []" unfolding v1 by (auto simp: expired_def dir_entry_def)
  ultimately have "view s' [''foo''] = None" "view s' [] \<noteq> None"
    unfolding s'(2) by (simp_all add: expire_view_def v1)
  then show ?thesis using s'(1) v1(1) by (intro exI [of _ s1] exI [of _ s']) simp
qed


section \<open>Get and Watch\<close>

text \<open>C37. \<open>Get\<close> leaves tree, index and watchers alone and answers from the tree: an error when
  the path is missing or below a file; otherwise the node's own attributes and, at every path
  of names below it (one level, or all of them when recursive), exactly the node there, hidden
  names left out, whether sorted or not.\<close>

theorem get_reports_tree:
  assumes "store_inv s"
  shows "\<exists>r s'. store_Get now p recu srt s = Some (r, s') \<and> store_inv s' \<and> abs_store s' = abs_store s \<and>
    WatcherHub s' = WatcherHub s \<and>
    (case look s (key_names p) of
       None \<Rightarrow> \<exists>err. r = Inl err \<and> ErrIndex err = CurrentIndex s \<and> ErrorCode err = get_error (view s) (key_names p)
     | Some n \<Rightarrow> \<exists>e. r = Inr e \<and> Action e = ''get'' \<and> attrs (smem s) now n (ENode e) \<and>
         (\<forall>es. valid_names es \<longrightarrow> recu \<or> length es \<le> 1 \<longrightarrow>
            ext_matches (smem s) now (visible_at (smem s) n es)
              (ext_lookup (ENode e) (prefix_paths (key_names p) es))))"
  by (rule store_Get_spec [OF assms])

theorem get_reports_tree_witness:
  "\<exists>s e s' q. store_Get 0 [] True True s = Some (Inr e, s') \<and> EDir (ENode e) \<and>
     ext_lookup (ENode e) [''/foo''] = Some q \<and> EValue q = Some ''bar'' \<and> EModifiedIndex q = 1"
proof -
  obtain s where s: "store_inv s" "view s [''foo''] = Some (new_entry False ''bar'' 1 0)"
    using foo_store' by blast
  obtain b where b: "look s [''foo''] = Some b" "entry_of (smem s b) = new_entry False ''bar'' 1 0"
    using s(2) by (auto simp: tree_view_def)
  have k: "key_names [] = []" "valid_names [''foo'']" "prefix_paths [] [''foo''] = [''/foo'']" "\<not> hidden_name ''foo''"
    by (code_simp, simp add: valid_name_def, code_simp, code_simp)
  from get_reports_tree [OF s(1), of 0 "[]" True True] k(1) obtain e s' where
    g: "store_Get 0 [] True True s = Some (Inr e, s')" "attrs (smem s) 0 (Root s) (ENode e)"
    "\<forall>es. valid_names es \<longrightarrow> ext_matches (smem s) 0 (visible_at (smem s) (Root s) es) (ext_lookup (ENode e) (prefix_paths [] es))"
    by auto
  from g(3) [rule_format, OF k(2)] k(3,4) b(1) obtain q where
    q: "ext_lookup (ENode e) [''/foo''] = Some q" "attrs (smem s) 0 b q"
    by (auto simp: ext_matches_def visible_at_def option_rel_Some1)
  have "\<not> IsDir (smem s b)" "Value (smem s b) = ''bar''" "ModifiedIndex (smem s b) = 1"
    using b(2) by (auto simp: new_entry_def entry_of_def IsDir_def split: option.splits)
  then have "EValue q = Some ''bar''" "EModifiedIndex q = 1" using q(2) by (simp_all add: attrs_def)
  moreover have "EDir (ENode e)"
    using g(2) tree_ok_root(1) [OF core_invD(1) [OF store_invD(1) [OF s(1)]]] by (simp add: attrs_def IsDir_def)
  ultimately show ?thesis using g(1) q(1) by blast
qed

text \<open>\<open>Watch\<close> changes neither tree nor index nor history. From index 0 it means the next
  index. It fails when the history no longer holds the index; otherwise the new watcher holds
  the first retained event from the index on that matches, and is not registered, or is
  registered at the key, and nowhere else, with nothing buffered.\<close>

theorem watch_scans_then_registers:
  assumes "store_inv s" and "CurrentIndex s \<noteq> - 1"
  shows "\<exists>r s'. store_Watch p rec strm since s = Some (r, s') \<and> store_inv s' \<and> abs_store s' = abs_store s \<and>
    EHistory (WatcherHub s') = EHistory (WatcherHub s) \<and>
    (let index = (if since = 0 then CurrentIndex s + 1 else since); h = EHistory (WatcherHub s) in
     case r of
       Inl err \<Rightarrow> index < StartIndex h \<and> ErrorCode err = EcodeEventIndexCleared \<and>
         ErrIndex err = CurrentIndex s \<and> s' = s
     | Inr w \<Rightarrow> \<not> index < StartIndex h \<and> w = next_wid (WatcherHub s) \<and>
         recursive (wmem (WatcherHub s') w) = rec \<and> stream (wmem (WatcherHub s') w) = strm \<and>
         sinceIndex (wmem (WatcherHub s') w) = index \<and>
         (case find (scan_match (render (key_names p)) rec)
             (drop (unat index - unat (StartIndex h)) (hist_list h)) of
            Some e \<Rightarrow> EventChan (wmem (WatcherHub s') w) = [e] \<and>
              (\<forall>k. \<not> registered_at (WatcherHub s') k w) \<and> remove_fn (wmem (WatcherHub s') w) = None
          | None \<Rightarrow> EventChan (wmem (WatcherHub s') w) = [] \<and>
              (\<forall>k. registered_at (WatcherHub s') k w \<longleftrightarrow> k = render (key_names p))))"
  unfolding Let_def by (rule store_Watch_spec [OF assms])

lemma newStore_hub [simp]: "WatcherHub newStore = newWatchHub 1000"
  by (simp add: newStore_def)

lemma new_hist_fields [simp]:
  "EHistory (newWatchHub n) = newEventHistory n" "StartIndex (newEventHistory n) = 0"
  "LastIndex (newEventHistory n) = 0" "next_wid (newWatchHub n) = 0"
  by (simp_all add: newWatchHub_def newEventHistory_def)

theorem watch_scans_then_registers_witness:
  "\<exists>s'. store_Watch ''foo'' True False 0 newStore = Some (Inr 0, s') \<and>
     registered_at (WatcherHub s') ''/foo'' 0 \<and> sinceIndex (wmem (WatcherHub s') 0) = 1"
proof -
  have k: "render (key_names ''foo'') = ''/foo''" by code_simp
  have "CurrentIndex newStore \<noteq> - 1" by simp
  from watch_scans_then_registers [OF newStore_inv this, of "''foo''" True False 0] show ?thesis
  proof (elim exE)
    fix r s'
    assume a: "store_Watch ''foo'' True False 0 newStore = Some (r, s') \<and> store_inv s' \<and>
      abs_store s' = abs_store newStore \<and> EHistory (WatcherHub s') = EHistory (WatcherHub newStore) \<and>
      (let index = (if 0 = (0 :: u64) then CurrentIndex newStore + 1 else 0); h = EHistory (WatcherHub newStore) in
       case r of
         Inl err \<Rightarrow> index < StartIndex h \<and> ErrorCode err = EcodeEventIndexCleared \<and>
           ErrIndex err = CurrentIndex newStore \<and> s' = newStore
       | Inr w \<Rightarrow> \<not> index < StartIndex h \<and> w = next_wid (WatcherHub newStore) \<and>
           recursive (wmem (WatcherHub s') w) = True \<and> stream (wmem (WatcherHub s') w) = False \<and>
           sinceIndex (wmem (WatcherHub s') w) = index \<and>
           (case find (scan_match (render (key_names ''foo'')) True)
               (drop (unat index - unat (StartIndex h)) (hist_list h)) of
              Some e \<Rightarrow> EventChan (wmem (WatcherHub s') w) = [e] \<and>
                (\<forall>k. \<not> registered_at (WatcherHub s') k w) \<and> remove_fn (wmem (WatcherHub s') w) = None
            | None \<Rightarrow> EventChan (wmem (WatcherHub s') w) = [] \<and>
                (\<forall>k. registered_at (WatcherHub s') k w \<longleftrightarrow> k = render (key_names ''foo''))))"
    then show ?thesis by (cases r) (simp_all add: Let_def k)
  qed
qed

section \<open>The watcher hub and the history\<close>

text \<open>C38. Notifying the hub of an event records it in the history and delivers it to exactly the
  watchers that are registered on the key or a directory above it and are interested (recursive
  or at the key itself, not across a hidden name, from an index not after the event's): a
  watcher with an empty buffer gets the event, one with a full buffer is removed. Exactly the
  one-shot and the full ones among them leave the hub.\<close>

theorem notify_delivers_exactly:
  assumes "hub_inv hub" and "valid_names cs" and "cs \<noteq> []" and "Key (ENode e) = render cs"
    and "next_event (EHistory hub) e"
  shows "\<exists>hub'. hub_notify hub e = Some hub' \<and> hub_inv hub' \<and>
     addEvent (EHistory hub) e = Some (EHistory hub') \<and>
     (\<forall>w. wmem hub' w =
        (if \<exists>ds. prefix ds cs \<and> registered_at hub (render ds) w \<and>
              interested (wmem hub w) e (render ds) False
         then deliver (wmem hub w) e else wmem hub w)) \<and>
     (\<forall>k v. registered_at hub' k v \<longleftrightarrow> registered_at hub k v \<and>
        \<not> ((\<exists>ds. prefix ds cs \<and> k = render ds) \<and> interested (wmem hub v) e k False \<and>
           leaves (wmem hub v)))"
  using hub_notify_spec [OF assms] by blast

lemma newWatchHub_inv: "hub_inv (newWatchHub 1000)"
  using store_invD(2) [OF newStore_inv] by simp

lemma watched_foo:
  "\<exists>hub. hub_inv hub \<and> EHistory hub = newEventHistory 1000 \<and> \<not> stream (wmem hub 0) \<and>
     sinceIndex (wmem hub 0) = 1 \<and> EventChan (wmem hub 0) = [] \<and> (\<forall>k. registered_at hub k 0 \<longleftrightarrow> k = ''/foo'')"
proof -
  have n: "(1 :: 64 word) \<noteq> 0" by simp
  have f: "hist_list (newEventHistory 1000) = []" "StartIndex (newEventHistory 1000) = 0"
    by (simp_all add: newEventHistory_def hist_list_def Let_def)
  have g: "EHistory (newWatchHub 1000) = newEventHistory 1000" "next_wid (newWatchHub 1000) = 0"
    by (simp_all add: newWatchHub_def)
  show ?thesis
    using hub_watch_spec [OF newWatchHub_inv n, of "''/foo''" False False] unfolding g f
    by (elim exE, rename_tac r hub, case_tac r) (auto simp: f)
qed

theorem notify_delivers_exactly_witness:
  "\<exists>hub hub'. registered_at hub ''/foo'' 0 \<and> hub_notify hub (newEvent ''set'' ''/foo'' 1 1) = Some hub' \<and>
     EventChan (wmem hub' 0) = [newEvent ''set'' ''/foo'' 1 1] \<and> \<not> registered_at hub' ''/foo'' 0"
proof -
  let ?e = "newEvent ''set'' ''/foo'' 1 1"
  obtain hub where w: "hub_inv hub" "EHistory hub = newEventHistory 1000"
    and x: "\<not> stream (wmem hub 0)" "sinceIndex (wmem hub 0) = 1" "EventChan (wmem hub 0) = []"
      "\<And>k. registered_at hub k 0 \<longleftrightarrow> k = ''/foo''"
    using watched_foo by auto
  have foo: "valid_names [''foo'']" "render [''foo''] = ''/foo''" by (simp add: valid_name_def, code_simp)
  have int: "interested (wmem hub 0) ?e ''/foo'' False" using x(2) by (simp add: interested_def)
  from notify_delivers_exactly [OF w(1) foo(1), of ?e] foo(2) w(2) obtain hub' where
    hub': "hub_notify hub ?e = Some hub'"
    "\<forall>w. wmem hub' w = (if \<exists>ds. prefix ds [''foo''] \<and> registered_at hub (render ds) w \<and>
              interested (wmem hub w) ?e (render ds) False
         then deliver (wmem hub w) ?e else wmem hub w)"
    "\<forall>k v. registered_at hub' k v \<longleftrightarrow> registered_at hub k v \<and>
        \<not> ((\<exists>ds. prefix ds [''foo''] \<and> k = render ds) \<and> interested (wmem hub v) ?e k False \<and> leaves (wmem hub v))"
    by (auto simp: next_event_def)
  have ex: "\<exists>ds. prefix ds [''foo''] \<and> registered_at hub (render ds) 0 \<and> interested (wmem hub 0) ?e (render ds) False"
    using foo(2) x(4) int by (intro exI [of _ "[''foo'']"]) simp
  have "wmem hub' 0 = deliver (wmem hub 0) ?e" using hub'(2) ex by presburger
  moreover have "\<not> registered_at hub' ''/foo'' 0"
    using hub'(3) int foo(2) x(1) by (metis leaves_def prefix_order.refl)
  ultimately show ?thesis using hub'(1) x(3,4) by (intro exI [of _ hub] exI [of _ hub']) (simp add: deliver_def)
qed

text \<open>The events of a history in the order they were added.\<close>

fun add_events :: "EventHistory \<Rightarrow> event list \<Rightarrow> EventHistory option" where
  "add_events eh [] = Some eh"
| "add_events eh (e # es) = (case addEvent eh e of None \<Rightarrow> None | Some eh1 \<Rightarrow> add_events eh1 es)"

lemma add_events_locale: "add_events eh es = eh.add_all eh es"
  by (induction es arbitrary: eh) (simp_all split: option.splits)

definition consecutive :: "event list \<Rightarrow> bool" where
  "consecutive es \<longleftrightarrow> (\<forall>k < length es. unat (EvIndex (es ! k)) = unat (EvIndex (es ! 0)) + k)"

lemma allowed_consecutive:
  "hist_inv eh \<Longrightarrow> consecutive es \<Longrightarrow>
   hist_list eh = [] \<or> es = [] \<or> unat (EvIndex (es ! 0)) = unat (LastIndex eh) + 1 \<Longrightarrow> eh.allowed_all eh es"
proof (induction es arbitrary: eh)
  case (Cons e es)
  have nx: "next_event eh e" using Cons.prems(3) by (auto simp: next_event_def)
  from addEvent_list [OF Cons.prems(1) nx] obtain eh1 where
    eh1: "addEvent eh e = Some eh1" "hist_inv eh1" "LastIndex eh1 = EvIndex e" by blast
  have c: "consecutive es"
    unfolding consecutive_def
  proof (intro allI impI)
    fix k assume k: "k < length es"
    have "unat (EvIndex ((e # es) ! Suc k)) = unat (EvIndex e) + Suc k"
      using Cons.prems(2) k by (auto simp: consecutive_def)
    moreover have "unat (EvIndex ((e # es) ! 1)) = unat (EvIndex e) + 1"
      using Cons.prems(2) k unfolding consecutive_def by force
    ultimately show "unat (EvIndex (es ! k)) = unat (EvIndex (es ! 0)) + k" by simp
  qed
  have "es = [] \<or> unat (EvIndex (es ! 0)) = unat (LastIndex eh1) + 1"
    using Cons.prems(2) unfolding consecutive_def eh1(3) by (cases es) force+
  then show ?case using nx eh1(1) Cons.IH [OF eh1(2) c] by simp
qed simp

lemma find_append_none: "(\<And>x. x \<in> set xs \<Longrightarrow> \<not> P x) \<Longrightarrow> find P (xs @ ys) = find P ys"
  by (induction xs) auto

lemma find_from_index:
  assumes "\<And>k. k < length es \<Longrightarrow> unat (EvIndex (es ! k)) = n + k"
  shows "find (\<lambda>e. index \<le> EvIndex e \<and> P e) es = find P (drop (unat index - n) es)"
proof -
  let ?k = "unat index - n" and ?Q = "\<lambda>e. index \<le> EvIndex e \<and> P e"
  have "find ?Q es = find ?Q (take ?k es @ drop ?k es)" by simp
  also have "\<dots> = find ?Q (drop ?k es)"
  proof (rule find_append_none)
    fix x assume "x \<in> set (take ?k es)"
    then obtain j where "j < ?k" "j < length es" "x = es ! j" by (auto simp: in_set_conv_nth)
    moreover from this(1) have "n + j < unat index" by simp
    ultimately show "\<not> ?Q x" using assms [of j] by (simp add: word_le_nat_alt)
  qed
  also have "\<dots> = find P (drop ?k es)"
  proof (rule find_cong [OF refl])
    fix x assume "x \<in> set (drop ?k es)"
    then obtain j where "j < length es - ?k" "x = drop ?k es ! j" by (auto simp: in_set_conv_nth)
    then have "?k + j < length es" "x = es ! (?k + j)" by simp_all
    then show "?Q x = P x" using assms [of "?k + j"] by (auto simp: word_le_nat_alt)
  qed
  finally show ?thesis .
qed

text \<open>A history of capacity \<open>c\<close> that has been given any sequence of events with consecutive
  indices holds the last \<open>c\<close> of them, and a scan from an index finds the first of these, from
  that index on, that matches, or fails when the index is older than all of them.\<close>

theorem history_scan_after_adds:
  assumes "0 < c" and "c < 2 ^ 62" and "consecutive es" and "es \<noteq> []" and "index \<noteq> 0"
  shows "\<exists>eh. add_events (newEventHistory c) es = Some eh \<and>
    hist_list eh = drop (length es - c) es \<and>
    (if index < EvIndex (es ! (length es - c))
     then \<exists>err. eh_scan eh key rec index = Some (Inl err) \<and> ErrorCode err = EcodeEventIndexCleared
     else eh_scan eh key rec index =
       Some (Inr (find (\<lambda>e. index \<le> EvIndex e \<and> scan_match key rec e) (drop (length es - c) es))))"
proof -
  have inv: "hist_inv (newEventHistory c)" using assms(1,2) by (rule hist_inv_new)
  have cap: "Capacity (Queue (newEventHistory c)) = c" by (simp add: newEventHistory_def)
  have "eh.allowed_all (newEventHistory c) es" using allowed_consecutive [OF inv assms(3)] by simp
  from eh.add_all_view [OF inv this] obtain eh where
    eh: "add_events (newEventHistory c) es = Some eh" "hist_inv eh" "hist_list eh = drop (length es - c) es"
    by (auto simp: add_events_locale cap)
  let ?d = "length es - c"
  have len: "?d < length es" using assms(1,4) by (cases es) auto
  then have ne: "hist_list eh \<noteq> []" using eh(3) by simp
  have hd: "hist_list eh ! 0 = es ! ?d" using eh(3) len by simp
  have idx: "unat (EvIndex (hist_list eh ! k)) = unat (StartIndex eh) + k" if "k < length (hist_list eh)" for k
    using eh(2) that by (simp add: hist_inv_def)
  have start: "StartIndex eh = EvIndex (es ! ?d)"
    using idx [OF length_greater_0_conv [THEN iffD2, OF ne]] unfolding hd [symmetric]
    by (simp add: word_unat_eq_iff)
  show ?thesis
    using eh(1,3) eh_scan_cases [OF eh(2) assms(5), of key rec] find_from_index [OF idx, of index "scan_match key rec"]
    by (auto simp: start)
qed

theorem history_scan_after_adds_witness:
  "\<exists>eh. add_events (newEventHistory 2) [newEvent ''set'' ''/a'' 1 1, newEvent ''set'' ''/b'' 2 2, newEvent ''set'' ''/a'' 3 3] = Some eh \<and>
     eh_scan eh ''/a'' False 2 = Some (Inr (Some (newEvent ''set'' ''/a'' 3 3)))"
proof -
  let ?es = "[newEvent ''set'' ''/a'' 1 1, newEvent ''set'' ''/b'' 2 2, newEvent ''set'' ''/a'' 3 3]"
  have c: "consecutive ?es" by (auto simp: consecutive_def less_Suc_eq)
  have "scan_match ''/a'' False (newEvent ''set'' ''/b'' 2 2) = False" "scan_match ''/a'' False (newEvent ''set'' ''/a'' 3 3)"
    by (simp_all add: scan_match_def)
  then show ?thesis
    using history_scan_after_adds [of 2 ?es 2 "''/a''" False] c by auto
qed

end
