(* ===== verification/EtcdRun.thy ===== *)
theory EtcdRun
  imports EtcdProps
begin

text \<open>
  Properties of whole runs of the store: no command of a reachable store panics, replicas that
  apply the same log agree, a watcher registered before a change receives it, and the places
  where the code's behaviour differs from what its comments and tests ask for.
\<close>

section \<open>Logs of commands\<close>

text \<open>What a server does with the commands that consensus has committed: it applies them in
  the order of the log, each at its own clock, and answers each.\<close>

fun apply_log :: "(time \<times> command) list \<Rightarrow> store \<Rightarrow> ((etcd_error + event option) list \<times> store) option" where
  "apply_log [] s = Some ([], s)"
| "apply_log ((now, c) # log) s =
     (case Apply now c s of
        None \<Rightarrow> None
      | Some (r, s1) \<Rightarrow> map_option (map_prod (Cons r) id) (apply_log log s1))"

fun kv_apply_log :: "command list \<Rightarrow> kv \<Rightarrow> int option list \<times> kv" where
  "kv_apply_log [] k = ([], k)"
| "kv_apply_log (c # cs) k =
     (let (r, k1) = kv_apply c k; (rs, k2) = kv_apply_log cs k1 in (r # rs, k2))"

fun all_determined :: "command list \<Rightarrow> kv \<Rightarrow> bool" where
  "all_determined [] k \<longleftrightarrow> True"
| "all_determined (c # cs) k \<longleftrightarrow> determined c k \<and> all_determined cs (snd (kv_apply c k))"

lemma abs_store_index [simp]: "kindex (abs_store s) = CurrentIndex s"
  by (simp add: abs_store_def)

lemma abs_store_tree [simp]: "ktree (abs_store s) = view s"
  by (simp add: abs_store_def)

text \<open>Without syncs it is enough that there are as many indices left as there are commands.\<close>

lemma kv_apply_index:
  "\<not> is_sync c \<Longrightarrow> kindex (snd (kv_apply c k)) = kindex k \<or> kindex (snd (kv_apply c k)) = kindex k + 1"
  by (cases c) (simp_all add: kv_create_def kv_cas_def kv_update_def kv_delete_def kv_cad_def Let_def is_sync_def split: option.splits)

lemma all_determined_plain: "list_all (Not \<circ> is_sync) cs \<Longrightarrow> unat (kindex k) + length cs < 2 ^ 64 \<Longrightarrow> all_determined cs k"
proof (induction cs arbitrary: k)
  case (Cons c cs)
  have n: "\<not> is_sync c" "kindex k \<noteq> - 1" using Cons.prems by (auto intro!: not_max)
  have "unat (kindex (snd (kv_apply c k))) \<le> unat (kindex k) + 1" using kv_apply_index [OF n(1), of k] unat_plus_one [OF n(2)] by auto
  then have "all_determined cs (snd (kv_apply c k))" using Cons by simp
  moreover have "determined c k" using Cons.prems(2) n(1) by (cases c) (auto simp: is_sync_def)
  ultimately show ?case by simp
qed simp

lemma apply_log_refines:
  "store_inv s \<Longrightarrow> all_determined (map snd log) (abs_store s) \<Longrightarrow>
   \<exists>rs s'. apply_log log s = Some (rs, s') \<and> store_inv s' \<and>
     (map err_code rs, abs_store s') = kv_apply_log (map snd log) (abs_store s)"
proof (induction log arbitrary: s)
  case (Cons x log)
  obtain now c where x: "x = (now, c)" by (cases x)
  from Apply_refines_determined [OF Cons.prems(1), of c now] Cons.prems(2) x obtain r s1 where
    a: "Apply now c s = Some (r, s1)" "store_inv s1" "(err_code r, abs_store s1) = kv_apply c (abs_store s)" by auto
  have "all_determined (map snd log) (abs_store s1)" using Cons.prems(2) x a(3) by (metis all_determined.simps(2) list.simps(9) snd_conv)
  from Cons.IH [OF a(2) this] obtain rs s' where
    "apply_log log s1 = Some (rs, s')" "store_inv s'"
    "(map err_code rs, abs_store s') = kv_apply_log (map snd log) (abs_store s1)" by auto
  then show ?case using a(1,3) x by (simp add: Let_def split: prod.splits) (metis prod.sel)
qed simp

text \<open>C22. Every store that commands, watches, receives and removals of registered watchers
  reach from a new one satisfies the invariant, and no command panics in it: each returns an
  event or an error and a store that is again reachable.\<close>

theorem reachable_never_panics:
  assumes "reachable s" and "has_room s"
  shows "store_inv s \<and> (\<exists>r s'. Apply now c s = Some (r, s') \<and> reachable s')"
  using Apply_total [OF reachable_inv [OF assms(1)] assms(2), of now c] reachable_inv [OF assms(1)] assms
  by (auto intro: reachable.step apply_command)

lemma newStore_room: "has_room newStore"
  by (simp add: has_room_def newStore_def newTtlKeyHeap_def ttl_Len_def)

theorem reachable_never_panics_witness:
  "\<exists>r s'. Apply 0 (DeleteCommand ''/1'' True True) newStore = Some (r, s') \<and> reachable s'"
  using reachable_never_panics [OF reachable.init newStore_room, of 0 "DeleteCommand ''/1'' True True"] by blast

text \<open>C1. Two replicas (stores that satisfy the invariant) that hold the same tree and index and apply the
  same commands (set,
  create, update, delete, compare-and-swap, compare-and-delete, get and sync) answer each with the same error code, or both without an error, and hold the same tree and index
  after it, whatever their memory layouts, their watchers, their counters and the clocks at which
  they apply the commands; both do what the abstract commands say. The index must have room for the
  commands, and no directory may expire at the same time as something below it when a sync removes
  them: which of the two goes first, and with it the index after it, is up to the heap.\<close>

theorem replicas_agree:
  assumes "store_inv s" and "store_inv u" and "abs_store s = abs_store u"
    and "all_determined cs (abs_store s)" and "length ts = length cs" and "length us = length cs"
  shows "\<exists>rs s' qs u'. apply_log (zip ts cs) s = Some (rs, s') \<and> apply_log (zip us cs) u = Some (qs, u') \<and>
    store_inv s' \<and> store_inv u' \<and> map err_code rs = map err_code qs \<and> abs_store s' = abs_store u' \<and>
    (map err_code rs, abs_store s') = kv_apply_log cs (abs_store s)"
proof -
  from apply_log_refines [OF assms(1), of "zip ts cs"] assms(4,5) obtain rs s' where
    s: "apply_log (zip ts cs) s = Some (rs, s')" "store_inv s'"
    "(map err_code rs, abs_store s') = kv_apply_log cs (abs_store s)" by (auto simp: map_snd_zip)
  from apply_log_refines [OF assms(2), of "zip us cs"] assms(3,4,6) obtain qs u' where
    u: "apply_log (zip us cs) u = Some (qs, u')" "store_inv u'"
    "(map err_code qs, abs_store u') = kv_apply_log cs (abs_store s)" by (auto simp: map_snd_zip)
  have "map err_code rs = map err_code qs \<and> abs_store s' = abs_store u'"
    using s(3) u(3) by (metis prod.inject)
  then show ?thesis using s u by blast
qed

text \<open>A file with a TTL, and a sync that removes it.\<close>

definition demo_commands :: "command list" where
  "demo_commands = [SetCommand ''/foo'' False ''bar'' minExpireTime, SyncCommand minExpireTime]"

lemma demo_tree:
  "kv_apply (SetCommand ''/foo'' False ''bar'' minExpireTime) (abs_store newStore) =
     (None, \<lparr>ktree = [[] \<mapsto> dir_entry 0, [''foo''] \<mapsto> new_entry False ''bar'' 1 minExpireTime], kindex = 1\<rparr>)"
proof -
  have "put_view [''foo''] (new_entry False ''bar'' 1 minExpireTime) 1 (view newStore) =
      [[] \<mapsto> dir_entry 0, [''foo''] \<mapsto> new_entry False ''bar'' 1 minExpireTime]"
    unfolding view_newStore by (auto simp: put_view_def fill_dirs_def strict_prefix_Cons fun_eq_iff)
  then show ?thesis using blocked_newStore [of "''foo''"]
    by (simp add: kv_create_def Let_def view_newStore effective_expire_def key_names_foo)
qed

lemma demo_tops:
  defines "v \<equiv> [[] \<mapsto> dir_entry 0, [''foo''] \<mapsto> new_entry False ''bar'' 1 minExpireTime]"
  shows "expire_tops minExpireTime v = {[''foo'']}" and "untied minExpireTime v" and "expire_view minExpireTime v [''foo''] = None"
proof -
  have t: "minExpireTime \<noteq> 0" by code_simp
  show "expire_tops minExpireTime v = {[''foo'']}" using t
    by (auto simp: expire_tops_def v_def new_entry_def dir_entry_def strict_prefix_Cons split: if_splits)
  show "untied minExpireTime v" by (auto simp: untied_def v_def dir_entry_def new_entry_def split: if_splits)
  show "expire_view minExpireTime v [''foo''] = None" using t
    by (auto simp: expire_view_def expired_def v_def new_entry_def intro: exI [of _ "[''foo'']"])
qed

lemma demo_commands_determined: "all_determined demo_commands (abs_store newStore)"
  using demo_tops by (simp add: demo_commands_def demo_tree del: kv_apply.simps(1))

theorem replicas_agree_witness:
  "\<exists>rs s' qs u'. apply_log (zip [5, 6] demo_commands) newStore = Some (rs, s') \<and>
     apply_log (zip [9, 9] demo_commands) newStore = Some (qs, u') \<and>
     map err_code rs = [None, None] \<and> map err_code qs = [None, None] \<and> abs_store s' = abs_store u' \<and>
     view s' [''foo''] = None \<and> CurrentIndex s' = 2"
proof -
  obtain rs s' qs u' where r: "apply_log (zip [5, 6] demo_commands) newStore = Some (rs, s')"
    "apply_log (zip [9, 9] demo_commands) newStore = Some (qs, u')" "map err_code rs = map err_code qs" "abs_store s' = abs_store u'"
    "(map err_code rs, abs_store s') = kv_apply_log demo_commands (abs_store newStore)"
    using replicas_agree [OF newStore_inv newStore_inv refl demo_commands_determined, of "[5, 6]" "[9, 9]"]
    by (auto simp: demo_commands_def)
  have "fst (kv_apply_log demo_commands (abs_store newStore)) = [None, None]"
    "ktree (snd (kv_apply_log demo_commands (abs_store newStore))) [''foo''] = None"
    "kindex (snd (kv_apply_log demo_commands (abs_store newStore))) = 2"
    using demo_tops by (simp_all add: demo_commands_def demo_tree kv_sync_def Let_def del: kv_apply.simps(1))
  then show ?thesis using r by (metis abs_store_index abs_store_tree fst_conv snd_conv)
qed

section \<open>A watch, then a change\<close>

lemma drop_past_history:
  assumes "hist_inv h" and "unat index = unat (LastIndex h) + 1"
  shows "drop (unat index - unat (StartIndex h)) (hist_list h) = []"
proof (cases "hist_list h = []")
  case False
  then have "unat (LastIndex h) + 1 = unat (StartIndex h) + length (hist_list h)"
    using assms(1) by (simp add: hist_inv_def)
  then show ?thesis using assms(2) by simp
qed simp

text \<open>C18. A watch from "now" on a key misses nothing: the first set that succeeds after it, at
  the key or, for a recursive watch, at a visible key below it, leaves exactly its own event in
  the watcher's channel; a set anywhere else leaves the channel empty and the watcher in place.\<close>

theorem watch_then_set_delivers:
  assumes "store_inv s" and "CurrentIndex s \<noteq> - 1"
    and "store_Watch p rec strm 0 s = Some (Inr w, s1)"
    and "store_Set now q dir value t s1 = Some (Inr e, s2)"
  shows "if prefix (key_names p) (key_names q) \<and> (rec \<or> key_names p = key_names q) \<and>
      (key_names p = key_names q \<or> \<not> isHidden (render (key_names p)) (render (key_names q)))
    then EventChan (wmem (WatcherHub s2) w) = [e]
    else EventChan (wmem (WatcherHub s2) w) = [] \<and> registered_at (WatcherHub s2) (render (key_names p)) w"
proof -
  note i = assms(2)
  let ?h = "EHistory (WatcherHub s)" and ?k = "render (key_names p)"
  have h: "hist_inv ?h" using store_invD(2) [OF assms(1)] by (simp add: hub_inv_def)
  have "drop (unat (CurrentIndex s + 1) - unat (StartIndex ?h)) (hist_list ?h) = []"
    using drop_past_history [OF h, of "CurrentIndex s + 1"] store_invD(3) [OF assms(1)] unat_plus_one [OF i] by simp
  with store_Watch_spec [OF assms(1) i, of p rec strm 0] assms(3) have
    s1: "store_inv s1" "abs_store s1 = abs_store s" "recursive (wmem (WatcherHub s1) w) = rec"
    "sinceIndex (wmem (WatcherHub s1) w) = CurrentIndex s + 1" "EventChan (wmem (WatcherHub s1) w) = []"
    "\<And>k. registered_at (WatcherHub s1) k w \<longleftrightarrow> k = ?k"
    by auto
  have i1: "CurrentIndex s1 = CurrentIndex s" using s1(2) by (metis abs_store_index)
  then have ne: "CurrentIndex s1 \<noteq> - 1" using i by simp
  from store_Set_spec(2) [OF s1(1) ne assms(4)] i1 have
    e: "Key (ENode e) = render (key_names q)" "EvIndex e = CurrentIndex s + 1"
    "hub_notify (WatcherHub s1) e = Some (WatcherHub s2)"
    by (simp_all add: created_event_def)
  from store_Set_spec(1) [OF s1(1) ne, of now q dir "value" t] assms(4) have
    "fst (kv_create True (key_names q) dir value t (abs_store s1)) = None"
    by (auto simp: refines_def) (metis fst_conv err_code_simps(2))
  then have q: "key_names q \<noteq> []" by (auto simp: kv_create_def Let_def)
  have "next_event (EHistory (WatcherHub s1)) e"
    using store_invD(3) [OF s1(1)] e(2) i1 unat_plus_one [OF i] by (simp add: next_event_def)
  from hub_notify_spec [OF store_invD(2) [OF s1(1)] key_names_valid q e(1) this] e(3) have
    w: "wmem (WatcherHub s2) w =
        (if \<exists>ds. prefix ds (key_names q) \<and> registered_at (WatcherHub s1) (render ds) w \<and>
              interested (wmem (WatcherHub s1) w) e (render ds) False
         then deliver (wmem (WatcherHub s1) w) e else wmem (WatcherHub s1) w)"
    and r: "registered_at (WatcherHub s2) ?k w \<longleftrightarrow> registered_at (WatcherHub s1) ?k w \<and>
        \<not> ((\<exists>ds. prefix ds (key_names q) \<and> ?k = render ds) \<and> interested (wmem (WatcherHub s1) w) e ?k False \<and>
           leaves (wmem (WatcherHub s1) w))" by auto
  have inj: "render ds = ?k \<longleftrightarrow> ds = key_names p" if "prefix ds (key_names q)" for ds
    using render_inj [of ds "key_names p"] that by (auto simp: prefix_def) (metis key_names_valid valid_names_simps(3))
  have eq: "render (key_names q) = ?k \<longleftrightarrow> key_names p = key_names q"
    using render_inj [of "key_names q" "key_names p"] by auto
  have int: "interested (wmem (WatcherHub s1) w) e ?k False \<longleftrightarrow>
      (rec \<or> key_names p = key_names q) \<and>
      (key_names p = key_names q \<or> \<not> isHidden ?k (render (key_names q)))"
    using s1(3,4) e(1,2) eq by (auto simp: interested_def)
  have ex: "(\<exists>ds. prefix ds (key_names q) \<and> registered_at (WatcherHub s1) (render ds) w \<and>
              interested (wmem (WatcherHub s1) w) e (render ds) False) \<longleftrightarrow>
      prefix (key_names p) (key_names q) \<and> interested (wmem (WatcherHub s1) w) e ?k False"
    unfolding s1(6) using inj by (metis)
  have ex2: "(\<exists>ds. prefix ds (key_names q) \<and> ?k = render ds) \<longleftrightarrow> prefix (key_names p) (key_names q)"
    using inj by metis
  show ?thesis
    using w r s1(5,6) unfolding ex ex2 int by (auto simp: deliver_def)
qed

theorem watch_then_set_delivers_witness:
  "\<exists>w s1 e s2. store_Watch ''/foo'' False False 0 newStore = Some (Inr w, s1) \<and>
     store_Set 0 ''/foo'' False ''bar'' 0 s1 = Some (Inr e, s2) \<and> EventChan (wmem (WatcherHub s2) w) = [e]"
proof -
  have z: "CurrentIndex newStore = 0" "StartIndex (EHistory (WatcherHub newStore)) = 0"
    by (simp_all add: newStore_def newWatchHub_def newEventHistory_def)
  then have i: "CurrentIndex newStore \<noteq> - 1" by simp
  have "\<exists>w s1. store_Watch ''/foo'' False False 0 newStore = Some (Inr w, s1) \<and> store_inv s1 \<and>
      abs_store s1 = abs_store newStore"
    using store_Watch_spec [OF newStore_inv i, of "''/foo''" False False 0] z
    by (elim exE, rename_tac r s1, case_tac r) auto
  then obtain w s1 where
    w: "store_Watch ''/foo'' False False 0 newStore = Some (Inr w, s1)" "store_inv s1"
    "abs_store s1 = abs_store newStore" by blast
  have ne: "CurrentIndex s1 \<noteq> - 1" using i w(3) by (metis abs_store_index)
  have kv: "fst (kv_create True [''foo''] False ''bar'' 0 (abs_store newStore)) = None"
    using blocked_newStore [of "''foo''"] by (simp add: kv_create_def Let_def abs_store_def view_newStore)
  from store_Set_spec(1) [OF w(2) ne, of 0 "''/foo''" False "''bar''" 0] obtain q s2 where
    "store_Set 0 ''/foo'' False ''bar'' 0 s1 = Some (q, s2)" "err_code q = None"
    using kv unfolding w(3) by (auto simp: refines_def key_names_foo) (metis fst_conv)
  then obtain e where "store_Set 0 ''/foo'' False ''bar'' 0 s1 = Some (Inr e, s2)" by (cases q) auto
  with watch_then_set_delivers [OF newStore_inv i w(1) this] w(1) show ?thesis
    by auto
qed

section \<open>Removing a watcher that the hub has already dropped\<close>

lemma remove_dropped:
  assumes inv: "hub_inv hub" and un: "\<And>k. \<not> registered_at hub k w"
    and x: "remove_fn (wmem hub w) = Some (p, l)" "\<not> removed (wmem hub w)" "\<not> chan_closed (wmem hub w)"
    and own: "watchers hub p = None \<or> watchers hub p = Some l"
  shows "\<exists>hub'. Watcher_Remove hub w = Some hub' \<and> hub_count hub' = hub_count hub - 1 \<and>
    (\<forall>k v. registered_at hub' k v \<longleftrightarrow> registered_at hub k v)"
proof -
  let ?x = "wmem hub w\<lparr>chan_closed := True, removed := True\<rparr>"
  let ?hub1 = "hub\<lparr>wmem := (wmem hub)(w := ?x), wlists := (wlists hub)(l := remove1 w (wlists hub l)), hub_count := hub_count hub - 1\<rparr>"
  let ?hub2 = "if wlists ?hub1 l = [] then ?hub1\<lparr>watchers := (watchers hub)(p := None)\<rparr> else ?hub1"
  have rem: "Watcher_Remove hub w = Some ?hub2"
    using x by (simp add: Watcher_Remove_def call_remove_def upd_watcher_def Let_def)
  have "w \<notin> set (wlists hub l) \<and> wlists hub l \<noteq> []" if "watchers hub p = Some l"
    using un [of p] inv that by (auto simp: registered_at_def hub_inv_def nonempty_except_def)
  then have keep: "watchers ?hub2 = watchers hub"
    using own by (cases "watchers hub p") (auto simp: remove1_idem)
  have "wlists ?hub2 l' = wlists hub l'" if "watchers hub k = Some l'" for k l'
    using that un [of k] by (auto simp: registered_at_def remove1_idem)
  then have "registered_at ?hub2 k v \<longleftrightarrow> registered_at hub k v" for k v
    unfolding registered_at_def keep by (metis (no_types, lifting) option.case_eq_if option.collapse)
  then show ?thesis using rem by (intro exI [of _ ?hub2]) simp
qed

lemma hub_invD: "hub_inv hub \<Longrightarrow> hub_core hub" "hub_inv hub \<Longrightarrow> nonempty_except {} hub"
  by (simp_all add: hub_inv_def)

text \<open>A one-shot watcher that has had its event is already out of the hub, but its \<open>removed\<close>
  flag is still false: the \<open>Remove\<close> the client then calls takes it out again, and the hub's
  counter ends one below the number of watchers that are registered.\<close>

theorem one_shot_removed_twice:
  assumes "hub_inv hub" and "registered_at hub (render cs) w" and "\<not> stream (wmem hub w)"
    and "valid_names cs" and "cs \<noteq> []" and "Key (ENode e) = render cs"
    and "next_event (EHistory hub) e" and "sinceIndex (wmem hub w) \<le> EvIndex e"
  shows "\<exists>hub1 hub2. hub_notify hub e = Some hub1 \<and> hub_count hub1 = int (card (reg_set hub1)) \<and>
    Watcher_Remove hub1 w = Some hub2 \<and> hub_count hub2 = int (card (reg_set hub2)) - 1"
proof -
  note core = hub_invD(1) [OF assms(1)]
  let ?p = "render cs"
  from hub_notify_spec [OF assms(1,4-7)] obtain hub1 where
    n: "hub_notify hub e = Some hub1" "hub_inv hub1"
    "\<And>v. wmem hub1 v = (if \<exists>ds. prefix ds cs \<and> registered_at hub (render ds) v \<and>
              interested (wmem hub v) e (render ds) False
         then deliver (wmem hub v) e else wmem hub v)"
    "\<And>k v. registered_at hub1 k v \<longleftrightarrow> registered_at hub k v \<and>
        \<not> ((\<exists>ds. prefix ds cs \<and> k = render ds) \<and> interested (wmem hub v) e k False \<and> leaves (wmem hub v))"
    by auto
  note core1 = hub_invD(1) [OF n(2)]
  from assms(2) obtain l where l: "watchers hub ?p = Some l" "w \<in> set (wlists hub l)"
    by (auto simp: registered_at_def split: option.splits)
  have lv: "live (wmem hub w)" "remove_fn (wmem hub w) = Some (?p, l)" using hub_coreD [OF core l(1)] l(2) by auto
  have int: "interested (wmem hub w) e ?p False" using assms(6,8) by (simp add: interested_def)
  have w1: "wmem hub1 w = wmem hub w\<lparr>EventChan := [e]\<rparr>"
    using n(3) [of w] assms(2,3) int lv(1) by (auto simp: deliver_def live_def)
  have un: "\<not> registered_at hub1 k w" for k
    using n(4) [of k w] registered_unique [OF core assms(2)] int assms(3) by (auto simp: leaves_def)
  have rf: "remove_fn (wmem hub1 v) = remove_fn (wmem hub v)" for v using n(3) by (simp add: deliver_def)
  have own: "watchers hub1 ?p = None \<or> watchers hub1 ?p = Some l"
  proof (cases "watchers hub1 ?p")
    case (Some l')
    then have "wlists hub1 l' \<noteq> []" using hub_invD(2) [OF n(2)] by (auto simp: nonempty_except_def)
    then obtain v where v: "v \<in> set (wlists hub1 l')" by (cases "wlists hub1 l'") auto
    have "remove_fn (wmem hub1 v) = Some (?p, l')" using hub_coreD(5) [OF core1 Some v] .
    moreover have "registered_at hub1 ?p v" using v Some by (simp add: registered_at_def)
    then have "registered_at hub ?p v" unfolding n(4) ..
    then have "remove_fn (wmem hub v) = Some (?p, l)" using hub_coreD(5) [OF core l(1)] l(1) by (simp add: registered_at_def)
    ultimately show ?thesis using Some by (simp add: rf)
  qed simp
  have c1: "hub_count hub1 = int (card (reg_set hub1))" using core1 by (simp add: hub_core_def)
  from remove_dropped [OF n(2) un _ _ _ own] w1 lv obtain hub2 where
    "Watcher_Remove hub1 w = Some hub2" "hub_count hub2 = hub_count hub1 - 1"
    "\<And>k v. registered_at hub2 k v \<longleftrightarrow> registered_at hub1 k v"
    by (auto simp: live_def)
  then show ?thesis using n(1) c1 by (simp add: reg_set_def)
qed

theorem one_shot_removed_twice_witness:
  "\<exists>hub hub1 hub2. hub_inv hub \<and> hub_notify hub (newEvent ''set'' ''/foo'' 1 1) = Some hub1 \<and>
     Watcher_Remove hub1 0 = Some hub2 \<and> hub_count hub2 < int (card (reg_set hub2))"
proof -
  obtain hub where w: "hub_inv hub" "EHistory hub = newEventHistory 1000"
    and x: "\<not> stream (wmem hub 0)" "sinceIndex (wmem hub 0) = 1" "registered_at hub ''/foo'' 0"
    using watched_foo by auto
  have foo: "valid_names [''foo'']" "render [''foo''] = ''/foo''" by (simp add: valid_name_def, code_simp)
  from one_shot_removed_twice [OF w(1) _ x(1) foo(1), of "newEvent ''set'' ''/foo'' 1 1"] foo(2) w x(2,3)
  show ?thesis by (auto simp: next_event_def)
qed

text \<open>A watch that the history satisfies at once returns a watcher whose \<open>remove\<close> is nil:
  its event is in the channel, it is registered nowhere, and a call of its \<open>Remove\<close> panics.\<close>

theorem satisfied_watch_remove_panics:
  assumes "store_inv s" and "CurrentIndex s \<noteq> - 1" and "store_Watch p rec strm since s = Some (Inr w, s1)"
    and "EventChan (wmem (WatcherHub s1) w) \<noteq> []"
  shows "(\<forall>k. \<not> registered_at (WatcherHub s1) k w) \<and> Watcher_Remove (WatcherHub s1) w = None"
  using store_Watch_spec [OF assms(1,2), of p rec strm since] assms(3,4)
  by (auto simp: Watcher_Remove_def call_remove_def upd_watcher_def split: option.splits)

theorem satisfied_watch_remove_panics_witness:
  "\<exists>e s2 w s3. store_Set 0 ''/foo'' False ''bar'' 0 newStore = Some (Inr e, s2) \<and>
     store_Watch ''/foo'' False False 1 s2 = Some (Inr w, s3) \<and> Watcher_Remove (WatcherHub s3) w = None"
proof -
  have z: "CurrentIndex newStore = 0" "EHistory (WatcherHub newStore) = newEventHistory 1000"
    by (simp_all add: newStore_def newWatchHub_def)
  then have i: "CurrentIndex newStore \<noteq> - 1" by simp
  have kv: "fst (kv_create True [''foo''] False ''bar'' 0 (abs_store newStore)) = None"
    "kindex (snd (kv_create True [''foo''] False ''bar'' 0 (abs_store newStore))) = 1"
    using blocked_newStore [of "''foo''"] by (simp_all add: kv_create_def Let_def abs_store_def view_newStore)
  from store_Set_spec(1) [OF newStore_inv i, of 0 "''/foo''" False "''bar''" 0] obtain q s2 where
    q: "store_Set 0 ''/foo'' False ''bar'' 0 newStore = Some (q, s2)" "store_inv s2"
    "(err_code q, abs_store s2) = kv_create True [''foo''] False ''bar'' 0 (abs_store newStore)"
    by (auto simp: refines_def key_names_foo)
  then have "err_code q = None" and i2: "CurrentIndex s2 = 1"
    using kv by (metis fst_conv, metis abs_store_index snd_conv)
  then obtain e where e: "store_Set 0 ''/foo'' False ''bar'' 0 newStore = Some (Inr e, s2)" using q(1) by (cases q) auto
  have foo: "valid_names [''foo'']" "[''foo''] \<noteq> []" "render [''foo''] = ''/foo''"
    by (simp add: valid_name_def, simp, code_simp)
  from store_Set_spec(2) [OF newStore_inv i e] z foo(3) have
    ev: "Key (ENode e) = ''/foo''" "EvIndex e = 1" "hub_notify (WatcherHub newStore) e = Some (WatcherHub s2)"
    by (auto simp: created_event_def key_names_foo)
  have hn: "hist_list (newEventHistory 1000) = []" by (simp add: newEventHistory_def hist_list_def Let_def)
  have nx: "next_event (EHistory (WatcherHub newStore)) e" by (simp add: next_event_def z hn)
  have hi: "hist_inv (newEventHistory 1000)" by (rule hist_inv_new) simp_all
  have ae: "addEvent (newEventHistory 1000) e = Some (EHistory (WatcherHub s2))"
    using hub_notify_spec [OF store_invD(2) [OF newStore_inv] foo(1,2) _ nx] foo(3) ev z by auto
  have cap: "Capacity (Queue (newEventHistory 1000)) = 1000" by (simp add: newEventHistory_def)
  from addEvent_list [OF hi nx [unfolded z]] ae have
    hl: "hist_list (EHistory (WatcherHub s2)) = [e]" "hist_inv (EHistory (WatcherHub s2))"
    by (auto simp: hn cap)
  then have st: "unat (StartIndex (EHistory (WatcherHub s2))) = 1"
    using ev(2) unfolding hist_inv_def by (metis add_0_right less_numeral_extra(1) length_hist_list list.size(3,4) nth_Cons_0 One_nat_def unsigned_1 add.commute plus_1_eq_Suc)
  have ne2: "CurrentIndex s2 \<noteq> - 1" using i2 by simp
  have "\<exists>w s3. store_Watch ''/foo'' False False 1 s2 = Some (Inr w, s3) \<and> EventChan (wmem (WatcherHub s3) w) \<noteq> []"
    using store_Watch_spec [OF q(2) ne2, of "''/foo''" False False 1] i2 st hl(1) ev(1) foo(3)
    by (elim exE, rename_tac r s3, case_tac r) (auto simp: scan_match_def key_names_foo word_less_nat_alt)
  then obtain w s3 where "store_Watch ''/foo'' False False 1 s2 = Some (Inr w, s3)" "EventChan (wmem (WatcherHub s3) w) \<noteq> []"
    by blast
  with satisfied_watch_remove_panics [OF q(2) ne2 this] e show ?thesis by auto
qed

section \<open>The registry of command factories\<close>

text \<open>The registry keeps every registered version, but its minimum is its maximum: the
  update of the minimum compares with \<open>>\<close>, so \<open>MinVersion\<close> returns the newest version too.\<close>

theorem registry_minimum_is_maximum:
  assumes "register_all vs no_factories = Some r" and "\<forall>v \<in> set vs. 0 < v" and "vs \<noteq> []"
  shows "minVersion r = Max (set vs) \<and> maxVersion r = Max (set vs)"
proof -
  have "foldr max vs 0 = Max (set vs)"
    using assms(2,3)
  proof (induction vs)
    case (Cons v vs)
    then show ?case by (cases "vs = []") auto
  qed simp
  then show ?thesis using register_all_versions [OF assms(1,2)] by (simp add: no_factories_def)
qed

theorem registry_minimum_is_maximum_witness:
  "\<exists>r. register_all [1, 2] no_factories = Some r \<and> minVersion r = 2"
proof -
  have "\<exists>r. register_all [1, 2] no_factories = Some r"
    by (simp add: RegisterCommandFactory_def no_factories_def Let_def)
  then obtain r where "register_all [1, 2] no_factories = Some r" ..
  with registry_minimum_is_maximum [OF this] show ?thesis by simp
qed

end
