(* ===== verification/NatsHash.thy ===== *)
theory NatsHash
  imports Prelude "HOL-Library.Monad_Syntax"
begin

unbundle bit_operations_syntax

text \<open>
  \<open>apcera/gnatsd/hash/hash.go\<close>: the 32-bit hash functions over byte slices, with arithmetic on
  words that wraps. The functions read several bytes at once through \<open>unsafe\<close> pointers, which
  Go does not check: a read that leaves the slice is \<open>None\<close> here, so that a hash which is
  always \<open>Some\<close> stays inside its argument. Multi-byte reads are little-endian.
\<close>

section \<open>Memory reads\<close>

definition read_le :: "nat \<Rightarrow> byte list \<Rightarrow> nat \<Rightarrow> 'w::len word option" where
  "read_le n data i =
     (if i + n \<le> length data
      then Some (foldr (\<lambda>b w. push_bit 8 w OR ucast b) (take n (drop i data)) 0) else None)"

definition read32 :: "byte list \<Rightarrow> nat \<Rightarrow> u32 option" where
  "read32 = read_le 4"

definition read64 :: "byte list \<Rightarrow> nat \<Rightarrow> u64 option" where
  "read64 = read_le 8"

text \<open>An indexing, which Go checks.\<close>

definition byte_at :: "byte list \<Rightarrow> nat \<Rightarrow> byte option" where
  "byte_at data i = (if i < length data then Some (data ! i) else None)"

definition le_value :: "nat \<Rightarrow> byte list \<Rightarrow> nat \<Rightarrow> 'w::len word" where
  "le_value n data i = foldr (\<lambda>b w. push_bit 8 w OR ucast b) (take n (drop i data)) 0"

lemma read_inside [simp]:
  "i + n \<le> length data \<Longrightarrow> read_le n data i = Some (le_value n data i)"
  "i + 4 \<le> length data \<Longrightarrow> read32 data i = Some (le_value 4 data i)"
  "i + 8 \<le> length data \<Longrightarrow> read64 data i = Some (le_value 8 data i)"
  by (simp_all add: read_le_def le_value_def read32_def read64_def)

lemma read_None: "read_le n data i = None \<longleftrightarrow> length data < i + n"
  by (auto simp: read_le_def)

lemma byte_at_Some [simp]: "i < length data \<Longrightarrow> byte_at data i = Some (data ! i)"
  by (simp add: byte_at_def)

section \<open>Bernstein and FNV1A\<close>

definition Bernstein :: "byte list \<Rightarrow> u32" where
  "Bernstein data = foldl (\<lambda>h b. (push_bit 5 h + h) + ucast b) 5381 data"

definition OFF32 :: nat where "OFF32 = 2166136261"
definition P32 :: nat where "P32 = 16777619"
definition YP32 :: nat where "YP32 = 709607"

definition FNV1A :: "byte list \<Rightarrow> u32" where
  "FNV1A data = foldl (\<lambda>h c. (h XOR ucast c) * of_nat P32) (of_nat OFF32) data"

section \<open>Jesteress\<close>

text \<open>\<open>k<<5 | k>>27\<close> on 64 bits, as the code has it: not a rotation.\<close>

definition mix64 :: "u64 \<Rightarrow> u64 \<Rightarrow> u64" where
  "mix64 k1 k2 = (push_bit 5 k1 OR drop_bit 27 k1) XOR k2"

definition step64 :: "u32 \<Rightarrow> u64 \<Rightarrow> u32" where
  "step64 h k = ucast (ucast h XOR k) * of_nat YP32"

definition step32 :: "u32 \<Rightarrow> u32 \<Rightarrow> u32" where
  "step32 h k = (h XOR k) * of_nat YP32"

definition wide64 :: "u32 \<Rightarrow> u64 \<Rightarrow> u32" where
  "wide64 h k = ucast ((ucast h XOR k) * of_nat YP32 :: u64)"

text \<open>The loop over blocks of 16 bytes: position, bytes left, hash.\<close>

function block16_loop :: "byte list \<Rightarrow> nat \<Rightarrow> nat \<Rightarrow> u32 \<Rightarrow> (nat \<times> nat \<times> u32) option" where
  "block16_loop data i dlen h =
     (if dlen \<ge> 16 then
        do { k1 \<leftarrow> read64 data i;
             k2 \<leftarrow> read64 data (i + 4);
             block16_loop data (i + 16) (dlen - 16) (wide64 h (mix64 k1 k2)) }
      else Some (i, dlen, h))"
  by pat_completeness auto
termination by (relation "measure (\<lambda>(_, _, dlen, _). dlen)") auto

declare block16_loop.simps [simp del]

text \<open>One of the tests \<open>(dlen & n) > 0\<close> with its body.\<close>

definition when_bit :: "nat \<Rightarrow> nat \<Rightarrow> ('s \<Rightarrow> 's option) \<Rightarrow> 's \<Rightarrow> 's option" where
  "when_bit dlen n f s = (if dlen AND n > 0 then f s else Some s)"

definition take64 :: "byte list \<Rightarrow> nat \<Rightarrow> nat \<times> u32 \<Rightarrow> (nat \<times> u32) option" where
  "take64 data adv = (\<lambda>(i, h). do { k \<leftarrow> read64 data i; Some (i + adv, step64 h k) })"

definition take32 :: "byte list \<Rightarrow> nat \<times> u32 \<Rightarrow> (nat \<times> u32) option" where
  "take32 data = (\<lambda>(i, h). do { k \<leftarrow> read32 data i; Some (i + 4, step32 h k) })"

definition take8 :: "byte list \<Rightarrow> nat \<times> u32 \<Rightarrow> (nat \<times> u32) option" where
  "take8 data = (\<lambda>(i, h). do { b \<leftarrow> byte_at data i; Some (i, step32 h (ucast b)) })"

definition finish :: "u32 \<Rightarrow> u32" where
  "finish h = h XOR drop_bit 16 h"

definition Jesteress :: "byte list \<Rightarrow> u32 option" where
  "Jesteress data = do {
     (i, dlen, h) \<leftarrow> block16_loop data 0 (length data) (of_nat OFF32);
     s \<leftarrow> when_bit dlen 8 (take64 data 8) (i, h);
     s \<leftarrow> when_bit dlen 4 (take32 data) s;
     s \<leftarrow> when_bit dlen 1 (take8 data) s;
     Some (finish (snd s)) }"

text \<open>Meiyan reads 8 bytes at a time where it moves on by 4.\<close>

definition Meiyan :: "byte list \<Rightarrow> u32 option" where
  "Meiyan data = do {
     (i, dlen, h) \<leftarrow> block16_loop data 0 (length data) (of_nat OFF32);
     s \<leftarrow> when_bit dlen 8 (\<lambda>s. do { s1 \<leftarrow> take64 data 4 s; take64 data 4 s1 }) (i, h);
     s \<leftarrow> when_bit dlen 4 (take32 data) s;
     s \<leftarrow> when_bit dlen 1 (take8 data) s;
     Some (finish (snd s)) }"

section \<open>Yorikke\<close>

function block32_loop :: "byte list \<Rightarrow> nat \<Rightarrow> nat \<Rightarrow> u32 \<Rightarrow> u32 \<Rightarrow> (nat \<times> nat \<times> u32 \<times> u32) option" where
  "block32_loop data i dlen h hb =
     (if dlen \<ge> 32 then
        do { k1 \<leftarrow> read64 data i;
             k2 \<leftarrow> read64 data (i + 4);
             k3 \<leftarrow> read64 data (i + 8);
             k4 \<leftarrow> read64 data (i + 12);
             block32_loop data (i + 32) (dlen - 32) (wide64 h (mix64 k1 k2)) (wide64 hb (mix64 k3 k4)) }
      else Some (i, dlen, h, hb))"
  by pat_completeness auto
termination by (relation "measure (\<lambda>(_, _, dlen, _, _). dlen)") auto

declare block32_loop.simps [simp del]

definition Yorikke :: "byte list \<Rightarrow> u32 option" where
  "Yorikke data = do {
     (i, dlen, h, hb) \<leftarrow> block32_loop data 0 (length data) (of_nat OFF32) (of_nat OFF32);
     (i, h, hb) \<leftarrow> when_bit dlen 16 (\<lambda>(i, h, hb).
       do { k1 \<leftarrow> read64 data i; k2 \<leftarrow> read64 data (i + 4); Some (i + 16, wide64 h k1, wide64 hb k2) }) (i, h, hb);
     (i, h, hb) \<leftarrow> when_bit dlen 8 (\<lambda>(i, h, hb).
       do { k1 \<leftarrow> read32 data i; k2 \<leftarrow> read32 data (i + 2); Some (i + 8, step32 h k1, step32 hb k2) }) (i, h, hb);
     s \<leftarrow> when_bit dlen 4 (take32 data) (i, h);
     s \<leftarrow> when_bit dlen 1 (take8 data) s;
     Some (finish (step32 (snd s) (push_bit 5 hb OR drop_bit 27 hb))) }"

section \<open>Murmur3\<close>

definition C1 :: u32 where "C1 = 0xcc9e2d51"
definition C2 :: u32 where "C2 = 0x1b873593"
definition F1 :: u32 where "F1 = 0x85ebca6b"
definition F2 :: u32 where "F2 = 0xc2b2ae35"

definition M3Seed :: u32 where "M3Seed = 0x9747b28c"

text \<open>The scrambling of a block, in the loop and in the tail.\<close>

definition scramble :: "u32 \<Rightarrow> u32" where
  "scramble k = (let k = k * C1; k = (push_bit 15 k OR drop_bit 17 k) in k * C2)"

function murmur_loop :: "byte list \<Rightarrow> nat \<Rightarrow> nat \<Rightarrow> u32 \<Rightarrow> (nat \<times> u32) option" where
  "murmur_loop data stop i h1 =
     (if i < stop then
        do { k1 \<leftarrow> read32 data i;
             let h1 = h1 XOR scramble k1;
             let h1 = (push_bit 13 h1 OR drop_bit 19 h1);
             murmur_loop data stop (i + 4) (h1 * 5 + 0xe6546b64) }
      else Some (i, h1))"
  by pat_completeness auto
termination by (relation "measure (\<lambda>(_, e, i, _). e - i)") auto

declare murmur_loop.simps [simp del]

text \<open>The switch falls through from 3 to 1; any other value leaves \<open>h1\<close>.\<close>

definition murmur_tail :: "byte list \<Rightarrow> nat \<Rightarrow> u32 \<Rightarrow> u32 option" where
  "murmur_tail data i h1 =
     (let rest = length data - i in
      if rest \<in> {1, 2, 3} then
        do { k1 \<leftarrow> (if rest = 3 then map_option (\<lambda>b. push_bit 16 (ucast b)) (byte_at data (i + 2)) else Some 0);
             k1 \<leftarrow> (if rest \<ge> 2 then map_option (\<lambda>b. k1 OR push_bit 8 (ucast b)) (byte_at data (i + 1)) else Some k1);
             k1 \<leftarrow> map_option (\<lambda>b. k1 OR ucast b) (byte_at data i);
             Some (h1 XOR scramble k1) }
      else Some h1)"

definition Murmur3 :: "byte list \<Rightarrow> u32 \<Rightarrow> u32 option" where
  "Murmur3 data seed = do {
     (i, h1) \<leftarrow> murmur_loop data (length data - length data mod 4) 0 seed;
     h1 \<leftarrow> murmur_tail data i h1;
     let h1 = h1 XOR of_nat (length data);
     let h1 = (h1 XOR drop_bit 16 h1) * F1;
     let h1 = (h1 XOR drop_bit 13 h1) * F2;
     Some (h1 XOR drop_bit 16 h1) }"

section \<open>Which reads stay inside the slice\<close>

lemma block16_loop_Some:
  "i + dlen = length data \<Longrightarrow>
   \<exists>h'. block16_loop data i dlen h = Some (i + dlen div 16 * 16, dlen mod 16, h')"
proof (induction dlen arbitrary: i h rule: less_induct)
  case (less dlen)
  show ?case
  proof (cases "dlen \<ge> 16")
    case True
    have d: "dlen mod 16 = (dlen - 16) mod 16" "dlen div 16 = Suc ((dlen - 16) div 16)"
      using True by (simp_all add: le_mod_geq le_div_geq)
    have "dlen - 16 < dlen" "(i + 16) + (dlen - 16) = length data" using True less.prems by simp_all
    from less.IH [OF this, of "wide64 h (mix64 (le_value 8 data i) (le_value 8 data (i + 4)))"]
    show ?thesis using True less.prems d by (subst block16_loop.simps) (simp add: add.assoc)
  next
    case False
    then show ?thesis by (subst block16_loop.simps) simp
  qed
qed

lemma block32_loop_Some:
  "i + dlen = length data \<Longrightarrow>
   \<exists>h' hb'. block32_loop data i dlen h hb = Some (i + dlen div 32 * 32, dlen mod 32, h', hb')"
proof (induction dlen arbitrary: i h hb rule: less_induct)
  case (less dlen)
  show ?case
  proof (cases "dlen \<ge> 32")
    case True
    have d: "dlen mod 32 = (dlen - 32) mod 32" "dlen div 32 = Suc ((dlen - 32) div 32)"
      using True by (simp_all add: le_mod_geq le_div_geq)
    have "dlen - 32 < dlen" "(i + 32) + (dlen - 32) = length data" using True less.prems by simp_all
    from less.IH [OF this, of "wide64 h (mix64 (le_value 8 data i) (le_value 8 data (i + 4)))"
        "wide64 hb (mix64 (le_value 8 data (i + 8)) (le_value 8 data (i + 12)))"]
    show ?thesis using True less.prems d by (subst block32_loop.simps) (simp add: add.assoc)
  next
    case False
    then show ?thesis by (subst block32_loop.simps) simp
  qed
qed

lemma murmur_loop_Some:
  "i + 4 * k = stop \<Longrightarrow> stop \<le> length data \<Longrightarrow> \<exists>h'. murmur_loop data stop i h = Some (stop, h')"
proof (induction k arbitrary: i h)
  case (Suc k)
  have "i + 4 + 4 * k = stop" using Suc.prems(1) by simp
  from Suc.IH [OF this Suc.prems(2)] show ?case using Suc.prems
    by (subst murmur_loop.simps) (simp add: Let_def)
qed (subst murmur_loop.simps, simp)

text \<open>The bit tests on the number of bytes left.\<close>

lemma and_power: "((d :: nat) AND 2 ^ k > 0) = odd (d div 2 ^ k)"
  using and_exp_eq_0_iff_not_bit [of d k] unfolding bit_iff_odd neq0_conv [symmetric] by simp

lemma bit_tests:
  "((d :: nat) AND 16 > 0) = odd (d div 16)" "(d AND 8 > 0) = odd (d div 8)"
  "(d AND 4 > 0) = odd (d div 4)" "(d AND 1 > 0) = odd d"
  using and_power [of d 4] and_power [of d 3] and_power [of d 2] and_power [of d 0] by simp_all

lemma when_bit_total:
  assumes "odd (dlen div n) \<Longrightarrow> \<exists>s'. f s = Some s' \<and> P s'" and "even (dlen div n) \<Longrightarrow> P s"
    and "(dlen AND n > 0) = odd (dlen div n)"
  shows "\<exists>s'. when_bit dlen n f s = Some s' \<and> P s'"
  using assms by (cases "odd (dlen div n)") (auto simp: when_bit_def)

text \<open>The common tail: what is left after the 8-byte step is below 8.\<close>

lemma mod_double:
  "odd (d div k) \<Longrightarrow> d mod (k * 2) = k + d mod k" "even (d div k) \<Longrightarrow> d mod (k * 2) = d mod k" for d k :: nat
  by (simp_all add: mod_mult2_eq mod_2_eq_odd)

lemma tail_total:
  assumes "i + dlen mod 8 = length data"
  shows "\<exists>s1 s2. when_bit dlen 4 (take32 data) (i, h) = Some s1 \<and> when_bit dlen 1 (take8 data) s1 = Some s2"
proof -
  have a: "\<exists>s. when_bit dlen 4 (take32 data) (i, h) = Some s \<and> fst s + dlen mod 4 = length data"
  proof (rule when_bit_total)
    assume "odd (dlen div 4)"
    then have "dlen mod 8 = 4 + dlen mod 4" using mod_double(1) [of dlen 4] by simp
    then show "\<exists>s. take32 data (i, h) = Some s \<and> fst s + dlen mod 4 = length data"
      using assms by (simp add: take32_def)
  next
    assume "even (dlen div 4)"
    then have "dlen mod 8 = dlen mod 4" using mod_double(2) [of dlen 4] by simp
    then show "fst (i, h) + dlen mod 4 = length data" using assms by simp
  qed (simp add: bit_tests)
  then obtain s where s: "when_bit dlen 4 (take32 data) (i, h) = Some s" "fst s + dlen mod 4 = length data"
    by blast
  have "\<exists>s'. when_bit dlen 1 (take8 data) s = Some s' \<and> True"
  proof (rule when_bit_total)
    assume "odd (dlen div 1)"
    then have "fst s < length data" using s(2) by (cases "dlen mod 4 = 0") presburger+
    then show "\<exists>s'. take8 data s = Some s' \<and> True" by (cases s) (simp add: take8_def)
  next
    show "(dlen AND 1 > 0) = odd (dlen div 1)" unfolding bit_tests by simp
  qed simp
  then show ?thesis using s(1) by blast
qed

text \<open>What the 16-byte loop leaves, as numbers of their own.\<close>

lemma after_block16:
  obtains i d h where "block16_loop data 0 (length data) h0 = Some (i, d, h)" "i + d = length data"
    "d = length data mod 16" "d < 16"
proof -
  from block16_loop_Some [of 0 "length data" data h0] obtain h where
    "block16_loop data 0 (length data) h0 = Some (length data div 16 * 16, length data mod 16, h)" by auto
  moreover have "length data div 16 * 16 + length data mod 16 = length data" by simp
  moreover have "length data mod 16 < 16" by simp
  ultimately show ?thesis using that by blast
qed

lemma low16: "(d :: nat) < 16 \<Longrightarrow> odd (d div 8) \<Longrightarrow> d = 8 + d mod 8"
  "(d :: nat) < 16 \<Longrightarrow> even (d div 8) \<Longrightarrow> d = d mod 8"
  using mod_double [of d 8] by simp_all

lemma Jesteress_total: "\<exists>h. Jesteress data = Some h"
proof -
  obtain i d h where l: "block16_loop data 0 (length data) (of_nat OFF32) = Some (i, d, h)"
    and sum: "i + d = length data" and d: "d < 16" by (rule after_block16 [of data "of_nat OFF32"])
  have "\<exists>s. when_bit d 8 (take64 data 8) (i, h) = Some s \<and> fst s + d mod 8 = length data"
  proof (rule when_bit_total)
    assume "odd (d div 8)"
    then have "i + 8 + d mod 8 = length data" using low16(1) [OF d] sum by linarith
    then show "\<exists>s. take64 data 8 (i, h) = Some s \<and> fst s + d mod 8 = length data"
      by (simp add: take64_def)
  next
    assume "even (d div 8)"
    then show "fst (i, h) + d mod 8 = length data" using low16(2) [OF d] sum by simp
  qed (simp add: bit_tests)
  then obtain j h1 where s: "when_bit d 8 (take64 data 8) (i, h) = Some (j, h1)" "j + d mod 8 = length data"
    by auto
  from tail_total [OF s(2), of h1] show ?thesis using l s(1) by (auto simp: Jesteress_def)
qed

text \<open>Meiyan's second read of 8 bytes starts 4 bytes after its first.\<close>

lemma Meiyan_None: "Meiyan data = None \<longleftrightarrow> 8 \<le> length data mod 16 \<and> length data mod 16 < 12"
proof -
  obtain i d h where l: "block16_loop data 0 (length data) (of_nat OFF32) = Some (i, d, h)"
    and sum: "i + d = length data" and dd: "d = length data mod 16" and d: "d < 16"
    by (rule after_block16 [of data "of_nat OFF32"])
  let ?f = "\<lambda>s. do { s1 \<leftarrow> take64 data 4 s; take64 data 4 s1 }"
  show ?thesis
  proof (cases "8 \<le> d")
    case True
    then have o: "odd (d div 8)" using d by presburger
    then have 8: "d = 8 + d mod 8" by (rule low16(1) [OF d])
    show ?thesis
    proof (cases "d < 12")
      case True
      then have "\<not> i + 4 + 8 \<le> length data" using sum by linarith
      then have "read64 data (i + 4) = None" by (simp add: read64_def read_None)
      then have "when_bit d 8 ?f (i, h) = None"
        using o sum \<open>8 \<le> d\<close> by (simp add: when_bit_def bit_tests take64_def)
      then show ?thesis using l True \<open>8 \<le> d\<close> dd by (simp add: Meiyan_def)
    next
      case False
      then have "i + 4 + 8 \<le> length data" using sum by linarith
      then obtain h1 where s: "when_bit d 8 ?f (i, h) = Some (i + 8, h1)"
        using o by (simp add: when_bit_def bit_tests take64_def)
      have "i + 8 + d mod 8 = length data" using sum 8 by linarith
      from tail_total [OF this, of h1] show ?thesis using l s False dd by (auto simp: Meiyan_def)
    qed
  next
    case False
    then have s: "when_bit d 8 ?f (i, h) = Some (i, h)" by (simp add: when_bit_def bit_tests)
    have "i + d mod 8 = length data" using sum False by simp
    from tail_total [OF this, of h] show ?thesis using l s False dd by (auto simp: Meiyan_def)
  qed
qed

lemma after_block32:
  obtains i d h hb where "block32_loop data 0 (length data) h0 h0 = Some (i, d, h, hb)" "i + d = length data" "d < 32"
proof -
  from block32_loop_Some [of 0 "length data" data h0 h0] obtain h hb where
    "block32_loop data 0 (length data) h0 h0 = Some (length data div 32 * 32, length data mod 32, h, hb)" by auto
  moreover have "length data div 32 * 32 + length data mod 32 = length data" by simp
  moreover have "length data mod 32 < 32" by simp
  ultimately show ?thesis using that by blast
qed

lemma low32: "(d :: nat) < 32 \<Longrightarrow> odd (d div 16) \<Longrightarrow> d = 16 + d mod 16"
  "(d :: nat) < 32 \<Longrightarrow> even (d div 16) \<Longrightarrow> d = d mod 16"
  "odd ((d :: nat) div 8) \<Longrightarrow> d mod 16 = 8 + d mod 8" "even (d div 8) \<Longrightarrow> d mod 16 = d mod 8"
  using mod_double [of d 16] mod_double [of d 8] by simp_all

lemma Yorikke_total: "\<exists>h. Yorikke data = Some h"
proof -
  obtain i d h hb where l: "block32_loop data 0 (length data) (of_nat OFF32) (of_nat OFF32) = Some (i, d, h, hb)"
    and sum: "i + d = length data" and d: "d < 32" by (rule after_block32 [of data "of_nat OFF32"])
  let ?f = "\<lambda>(i, h, hb). do { k1 \<leftarrow> read64 data i; k2 \<leftarrow> read64 data (i + 4); Some (i + 16, wide64 h k1, wide64 hb k2) }"
  let ?g = "\<lambda>(i, h, hb). do { k1 \<leftarrow> read32 data i; k2 \<leftarrow> read32 data (i + 2); Some (i + 8, step32 h k1, step32 hb k2) }"
  have "\<exists>s. when_bit d 16 ?f (i, h, hb) = Some s \<and> fst s + d mod 16 = length data"
  proof (rule when_bit_total)
    assume "odd (d div 16)"
    then have "i + 16 + d mod 16 = length data" using low32(1) [OF d] sum by linarith
    then show "\<exists>s. ?f (i, h, hb) = Some s \<and> fst s + d mod 16 = length data" by simp
  next
    assume "even (d div 16)"
    then show "fst (i, h, hb) + d mod 16 = length data" using low32(2) [OF d] sum by simp
  qed (simp add: bit_tests)
  then obtain j h1 hb1 where f: "when_bit d 16 ?f (i, h, hb) = Some (j, h1, hb1)" "j + d mod 16 = length data"
    by auto
  have "\<exists>s. when_bit d 8 ?g (j, h1, hb1) = Some s \<and> fst s + d mod 8 = length data"
  proof (rule when_bit_total)
    assume "odd (d div 8)"
    then have "j + 8 + d mod 8 = length data" using low32(3) f(2) by simp
    then show "\<exists>s. ?g (j, h1, hb1) = Some s \<and> fst s + d mod 8 = length data" by simp
  next
    assume "even (d div 8)"
    then show "fst (j, h1, hb1) + d mod 8 = length data" using low32(4) f(2) by simp
  qed (simp add: bit_tests)
  then obtain k h2 hb2 where g: "when_bit d 8 ?g (j, h1, hb1) = Some (k, h2, hb2)" "k + d mod 8 = length data"
    by auto
  from tail_total [OF g(2), of h2] show ?thesis using l f(1) g(1) by (auto simp: Yorikke_def)
qed

lemma Murmur3_total: "\<exists>h. Murmur3 data seed = Some h"
proof -
  let ?n = "length data" and ?stop = "length data - length data mod 4"
  have "0 + 4 * (?n div 4) = ?stop" by (simp add: minus_mod_eq_mult_div)
  from murmur_loop_Some [OF this, of data seed] obtain h where
    l: "murmur_loop data ?stop 0 seed = Some (?stop, h)" by auto
  have "?n - ?stop = ?n mod 4" "?n mod 4 \<le> ?n" by simp_all
  then have t: "\<exists>h'. murmur_tail data ?stop h = Some h'"
    by (auto simp: murmur_tail_def Let_def)
  then show ?thesis using l by (auto simp: Murmur3_def Let_def)
qed

text \<open>\<open>Jesteress\<close>, \<open>Yorikke\<close> and \<open>Murmur3\<close> read only bytes of the slice they are given, for every
  slice; \<open>Meiyan\<close> reads past its end exactly when 8 to 11 bytes are left after the blocks of 16.\<close>

theorem hashes_read_inside:
  "(\<exists>h. Jesteress data = Some h) \<and> (\<exists>h. Yorikke data = Some h) \<and> (\<exists>h. Murmur3 data seed = Some h) \<and>
   (Meiyan data = None \<longleftrightarrow> length data mod 16 \<in> {8..<12})"
  using Jesteress_total Yorikke_total Murmur3_total Meiyan_None by simp

section \<open>The bytes that Jesteress leaves out\<close>

lemma le_value_append: "i + n \<le> length xs \<Longrightarrow> le_value n (xs @ ys) i = le_value n xs i"
  by (simp add: le_value_def)

lemma read_append:
  "i + 4 \<le> length xs \<Longrightarrow> read32 (xs @ ys) i = Some (le_value 4 xs i)"
  "i + 8 \<le> length xs \<Longrightarrow> read64 (xs @ ys) i = Some (le_value 8 xs i)"
  by (simp_all add: le_value_append)

lemma block16_loop_append:
  assumes "length xs mod 4 = 0" and "length ys = 2" and "length zs = 2"
  shows "i + dlen = length xs + 2 \<Longrightarrow> i mod 4 = 0 \<Longrightarrow> block16_loop (xs @ ys) i dlen h = block16_loop (xs @ zs) i dlen h"
proof (induction dlen arbitrary: i h rule: less_induct)
  case (less dlen)
  show ?case
  proof (cases "dlen \<ge> 16")
    case True
    then have "i + 12 \<le> length xs" using less.prems assms(1) by presburger
    moreover have "dlen - 16 < dlen" "(i + 16) + (dlen - 16) = length xs + 2"
      using True less.prems by simp_all
    moreover have "(i + 16) mod 4 = 0" using less.prems(2) by presburger
    ultimately show ?thesis
      using True less.IH by (subst (1 2) block16_loop.simps) (simp add: assms le_value_append)
  next
    case False
    then show ?thesis by (subst (1 2) block16_loop.simps) simp
  qed
qed

lemma low_mod:
  "(d :: nat) mod 4 = 2 \<Longrightarrow> 2 \<le> d mod 8" "d mod 4 = 2 \<Longrightarrow> odd (d div 4) \<Longrightarrow> d mod 8 = 6"
  "(n :: nat) mod 4 = 0 \<Longrightarrow> (n + 2) mod 16 mod 4 = 2"
proof -
  have 16: "m mod 16 mod 4 = m mod 4" and 8: "m mod 8 mod 4 = m mod 4" for m :: nat by (simp_all add: mod_mod_cancel)
  show "2 \<le> d mod 8" if "d mod 4 = 2"
    using that mod_less_eq_dividend [of "d mod 8" 4] unfolding 8 by simp
  show "(n + 2) mod 16 mod 4 = 2" if "n mod 4 = 0"
    unfolding 16 using that by presburger
  show "d mod 8 = 6" if "d mod 4 = 2" "odd (d div 4)"
    using that by presburger
qed

text \<open>When a length is two above a multiple of four, \<open>Jesteress\<close>, the default hash of the hash
  map, does not read the last two bytes: keys that differ only there always collide.
\<close>

theorem Jesteress_ignores_tail:
  assumes "length xs mod 4 = 0"
  shows "Jesteress (xs @ [a, b]) = Jesteress (xs @ [a', b'])"
proof -
  let ?n = "length xs + 2"
  have len: "length (xs @ [u, v]) = ?n" for u v by simp
  obtain i d h where l0: "block16_loop (xs @ [a, b]) 0 ?n (of_nat OFF32) = Some (i, d, h)"
    and sum: "i + d = ?n" and dd: "d = ?n mod 16" and d: "d < 16"
    by (rule after_block16 [of "xs @ [a, b]" "of_nat OFF32", unfolded len])
  have l: "block16_loop (xs @ [u, v]) 0 ?n (of_nat OFF32) = Some (i, d, h)" for u v
    unfolding l0 [symmetric] by (rule block16_loop_append [OF assms]) simp_all
  have m: "d mod 4 = 2" using assms unfolding dd by (rule low_mod(3))
  have "\<exists>j h1. (\<forall>u v. when_bit d 8 (take64 (xs @ [u, v]) 8) (i, h) = Some (j, h1)) \<and> j + d mod 8 = ?n"
  proof (cases "odd (d div 8)")
    case True
    have "2 \<le> d mod 8" using m by (rule low_mod(1))
    moreover have "i + 8 + d mod 8 = ?n" using low16(1) [OF d True] sum by linarith
    ultimately show ?thesis using True by (simp add: when_bit_def bit_tests take64_def read_append del: read_inside)
  next
    case False
    then show ?thesis using low16(2) [OF d] sum by (simp add: when_bit_def bit_tests)
  qed
  then obtain j h1 where s: "\<And>u v. when_bit d 8 (take64 (xs @ [u, v]) 8) (i, h) = Some (j, h1)" "j + d mod 8 = ?n"
    by blast
  have "\<exists>s. \<forall>u v. when_bit d 4 (take32 (xs @ [u, v])) (j, h1) = Some s"
  proof (cases "odd (d div 4)")
    case True
    with m have "d mod 8 = 6" by (rule low_mod(2))
    then have "j + 4 \<le> length xs" using s(2) by simp
    then show ?thesis using True by (simp add: when_bit_def bit_tests take32_def read_append del: read_inside)
  next
    case False
    then show ?thesis by (simp add: when_bit_def bit_tests)
  qed
  then obtain q where q: "\<And>u v. when_bit d 4 (take32 (xs @ [u, v])) (j, h1) = Some q" by blast
  have "even d" using m by presburger
  then have e: "when_bit d 1 f q = Some q" for f :: "nat \<times> u32 \<Rightarrow> (nat \<times> u32) option"
    using bit_tests(4) [of d] by (simp only: when_bit_def) simp
  have "Jesteress (xs @ [u, v]) = Some (finish (snd q))" for u v
    unfolding Jesteress_def len l by (simp only: bind.bind_lunit prod.case s(1) q e)
  then show ?thesis by simp
qed

theorem Jesteress_ignores_tail_witness:
  "Jesteress (map of_char ''nats.aaa'' @ [1, 2]) = Jesteress (map of_char ''nats.aaa'' @ [3, 4])"
  by (rule Jesteress_ignores_tail) simp

end
