(* ===== verification/NatsHashMap.thy ===== *)
theory NatsHashMap
  imports NatsHash
begin

text \<open>
  \<open>apcera/gnatsd/hashmap\<close>: a hash map with chained buckets, a mask for the bucket index and
  resizing by powers of two, and its random eviction. A bucket's linked list of entries is a
  list, its head the bucket's pointer. \<open>hm_ok\<close> is the invariant, \<open>view\<close> the finite map that
  the buckets hold; the locale \<open>byte_map\<close> states what a user of the map relies on.

  Keys are byte slices that the map keeps by reference; the model takes them as values, so it
  describes the maps whose keys are not overwritten after they are stored. A nil result of
  \<open>Get\<close> is \<open>None\<close>.
\<close>

section \<open>Data\<close>

datatype 'd Entry = Entry (hk: u32) (key: "byte list") (data: 'd)

datatype 'd HashMap =
  HashMap (Hash: "byte list \<Rightarrow> u32") (bkts: "'d Entry list list") (msk: u32) (used: u32) (rsz: bool)

definition BSZ :: nat where "BSZ = 8"

definition maxBktSize :: nat where "maxBktSize = 2 ^ 31 - 1"

text \<open>\<open>hash.Jesteress\<close>; it always returns (\<open>DefaultHash_eq\<close>).\<close>

definition DefaultHash :: "byte list \<Rightarrow> u32" where
  "DefaultHash k = (case Jesteress k of Some h \<Rightarrow> h | None \<Rightarrow> 0)"

lemma DefaultHash_eq: "Jesteress k = Some (DefaultHash k)"
  using Jesteress_total [of k] by (auto simp: DefaultHash_def)

definition NewWithBkts :: "'d Entry list list \<Rightarrow> string + 'd HashMap" where
  "NewWithBkts b =
     (let l = length b in
      if l = 0 \<or> l AND (l - 1) \<noteq> 0 then Inl ''Size of buckets must be power of 2''
      else Inr (HashMap DefaultHash b (of_nat (l - 1)) 0 True))"

text \<open>\<open>New\<close> drops the error, which does not occur for 8 buckets (\<open>hm_New_eq\<close>).\<close>

definition hm_New :: "'d HashMap" where
  "hm_New = (case NewWithBkts (replicate BSZ []) of Inr h \<Rightarrow> h | Inl _ \<Rightarrow> HashMap DefaultHash [] 0 0 False)"

fun set_Hash :: "(byte list \<Rightarrow> u32) \<Rightarrow> 'd HashMap \<Rightarrow> 'd HashMap" where
  "set_Hash f (HashMap _ b m u r) = HashMap f b m u r"

section \<open>Operations\<close>

text \<open>The index \<open>hk & h.msk\<close>.\<close>

definition slot :: "u32 \<Rightarrow> u32 \<Rightarrow> nat" where
  "slot m h = unat (h AND m)"

text \<open>One step of \<open>resize\<close>: the entry goes to the front of its new bucket.\<close>

definition rehash :: "u32 \<Rightarrow> 'd Entry list list \<Rightarrow> 'd Entry \<Rightarrow> 'd Entry list list" where
  "rehash m b e = b[slot m (hk e) := e # b ! slot m (hk e)]"

definition resize :: "u32 \<Rightarrow> 'd HashMap \<Rightarrow> 'd HashMap" where
  "resize nsz h =
     (let nmsk = nsz - 1 in
      HashMap (Hash h) (foldl (rehash nmsk) (replicate (unat nsz) []) (concat (bkts h))) nmsk (used h) (rsz h))"

definition grow :: "'d HashMap \<Rightarrow> 'd HashMap" where
  "grow h = (if length (bkts h) \<ge> maxBktSize then h else resize (of_nat (2 * length (bkts h))) h)"

definition shrink :: "'d HashMap \<Rightarrow> 'd HashMap" where
  "shrink h = (if length (bkts h) \<le> BSZ then h else resize (of_nat (length (bkts h) div 2)) h)"

text \<open>The loop of \<open>Set\<close> over a chain: the chain with the key's data replaced, if it has the key.\<close>

fun replace_data :: "byte list \<Rightarrow> 'd \<Rightarrow> 'd Entry list \<Rightarrow> 'd Entry list option" where
  "replace_data k d [] = None"
| "replace_data k d (e # es) =
     (if length k = length (key e) \<and> k = key e then Some (Entry (hk e) (key e) d # es)
      else map_option (Cons e) (replace_data k d es))"

definition hm_Set :: "'d HashMap \<Rightarrow> byte list \<Rightarrow> 'd \<Rightarrow> 'd HashMap" where
  "hm_Set h k d =
     (let x = Hash h k; i = slot (msk h) x in
      case replace_data k d (bkts h ! i) of
        Some es \<Rightarrow> HashMap (Hash h) ((bkts h)[i := es]) (msk h) (used h) (rsz h)
      | None \<Rightarrow>
          let h1 = HashMap (Hash h) ((bkts h)[i := Entry x k d # bkts h ! i]) (msk h) (used h + 1) (rsz h)
          in if rsz h1 \<and> used h1 > of_nat (length (bkts h1)) then grow h1 else h1)"

text \<open>
  The comparison of \<open>Get\<close>, unrolled to 8, 4 and 1 bytes; \<open>None\<close> is a read outside a slice,
  \<open>Some None\<close> the jump to \<open>next\<close>.
\<close>

function cmp64_loop :: "byte list \<Rightarrow> byte list \<Rightarrow> nat \<Rightarrow> nat \<Rightarrow> (nat \<times> nat) option option" where
  "cmp64_loop k ek i klen =
     (if klen \<ge> 8 then
        do { k1 \<leftarrow> read64 k i;
             k2 \<leftarrow> read64 ek i;
             if k1 \<noteq> k2 then Some None else cmp64_loop k ek (i + 8) (klen - 8) }
      else Some (Some (i, klen)))"
  by pat_completeness auto
termination by (relation "measure (\<lambda>(_, _, _, n). n)") auto

declare cmp64_loop.simps [simp del]

definition cmp32 :: "byte list \<Rightarrow> byte list \<Rightarrow> nat \<Rightarrow> nat \<Rightarrow> nat option option" where
  "cmp32 k ek i klen =
     (if klen AND 4 > 0 then
        do { k1 \<leftarrow> read32 k i;
             k2 \<leftarrow> read32 ek i;
             if k1 \<noteq> k2 then Some None else Some (Some (i + 4)) }
      else Some (Some i))"

function cmp8_loop :: "byte list \<Rightarrow> byte list \<Rightarrow> nat \<Rightarrow> bool option" where
  "cmp8_loop k ek i =
     (if i < length k then
        do { b1 \<leftarrow> byte_at k i;
             b2 \<leftarrow> byte_at ek i;
             if b1 \<noteq> b2 then Some False else cmp8_loop k ek (i + 1) }
      else Some True)"
  by pat_completeness auto
termination by (relation "measure (\<lambda>(k, _, i). length k - i)") auto

declare cmp8_loop.simps [simp del]

definition keys_equal :: "byte list \<Rightarrow> byte list \<Rightarrow> bool option" where
  "keys_equal k ek =
     (if length k \<noteq> length ek then Some False
      else do { r \<leftarrow> cmp64_loop k ek 0 (length k);
           case r of
             None \<Rightarrow> Some False
           | Some (i, klen) \<Rightarrow>
               do { q \<leftarrow> cmp32 k ek i klen;
                    case q of None \<Rightarrow> Some False | Some j \<Rightarrow> cmp8_loop k ek j } })"

fun chain_get :: "byte list \<Rightarrow> 'd Entry list \<Rightarrow> 'd option" where
  "chain_get k [] = None"
| "chain_get k (e # es) = (if keys_equal k (key e) = Some True then Some (data e) else chain_get k es)"

definition hm_Get :: "'d HashMap \<Rightarrow> byte list \<Rightarrow> 'd option" where
  "hm_Get h k = chain_get k (bkts h ! slot (msk h) (Hash h k))"

fun chain_remove :: "byte list \<Rightarrow> 'd Entry list \<Rightarrow> 'd Entry list option" where
  "chain_remove k [] = None"
| "chain_remove k (e # es) =
     (if length k = length (key e) \<and> k = key e then Some es else map_option (Cons e) (chain_remove k es))"

definition hm_Remove :: "'d HashMap \<Rightarrow> byte list \<Rightarrow> 'd HashMap" where
  "hm_Remove h k =
     (let i = slot (msk h) (Hash h k) in
      case chain_remove k (bkts h ! i) of
        None \<Rightarrow> h
      | Some es \<Rightarrow>
          let h1 = HashMap (Hash h) ((bkts h)[i := es]) (msk h) (used h - 1) (rsz h);
              lbkts = of_nat (length (bkts h1)) :: u32
          in if rsz h1 \<and> lbkts > of_nat BSZ \<and> used h1 < lbkts div 4 then shrink h1 else h1)"

definition hm_Count :: "'d HashMap \<Rightarrow> u32" where
  "hm_Count h = used h"

definition AllKeys :: "'d HashMap \<Rightarrow> byte list list" where
  "AllKeys h = map key (concat (bkts h))"

definition hm_All :: "'d HashMap \<Rightarrow> 'd list" where
  "hm_All h = map data (concat (bkts h))"

text \<open>
  \<open>Stats\<close>: \<open>AvgChain\<close> is a \<open>float32\<close> quotient, given here as its two operands.
\<close>

record hm_stats =
  NumElements :: u32
  NumSlots :: u32
  NumBuckets :: u32
  LongChain :: u32
  AvgChain :: "nat \<times> nat"

fun stats_loop :: "'d Entry list list \<Rightarrow> nat \<times> nat \<times> nat \<Rightarrow> nat \<times> nat \<times> nat" where
  "stats_loop [] s = s"
| "stats_loop (es # bs) (lc, totalc, slots) =
     stats_loop bs (max lc (length es), totalc + length es, (if es \<noteq> [] then slots + 1 else slots))"

definition hm_Stats :: "'d HashMap \<Rightarrow> hm_stats" where
  "hm_Stats h =
     (let (lc, totalc, slots) = stats_loop (bkts h) (0, 0, 0) in
      \<lparr>NumElements = used h, NumSlots = of_nat slots, NumBuckets = of_nat (length (bkts h)),
       LongChain = of_nat lc, AvgChain = (totalc, slots)\<rparr>)"

text \<open>
  \<open>RemoveRandom\<close>, with the number that \<open>rand.Int\<close> returns as an argument; \<open>None\<close> is the
  panic at its end. The two loops take the indices they visit.
\<close>

fun evict_loop :: "nat list \<Rightarrow> 'd HashMap \<Rightarrow> 'd HashMap option" where
  "evict_loop [] h = None"
| "evict_loop (i # is) h =
     (case bkts h ! i of
        [] \<Rightarrow> evict_loop is h
      | e # es \<Rightarrow> Some (HashMap (Hash h) ((bkts h)[i := es]) (msk h) (used h - 1) (rsz h)))"

definition RemoveRandom :: "nat \<Rightarrow> 'd HashMap \<Rightarrow> 'd HashMap option" where
  "RemoveRandom rnd h =
     (if used h = 0 then Some h
      else
        let index = rnd AND unat (msk h) in
        case evict_loop [index ..< length (bkts h)] h of
          Some h1 \<Rightarrow> Some h1
        | None \<Rightarrow> evict_loop (rev [0 ..< index + 1]) h)"

section \<open>The unrolled comparison\<close>

lemma bit_le_value:
  "bit (foldr (\<lambda>b w. push_bit 8 w OR ucast b) bs (0 :: 'w::len word)) n \<longleftrightarrow>
   n < LENGTH('w) \<and> n div 8 < length bs \<and> bit ((bs :: byte list) ! (n div 8)) (n mod 8)"
proof (induction bs arbitrary: n)
  case (Cons b bs)
  show ?case
  proof (cases "n < 8")
    case True
    then show ?thesis by (auto simp: bit_or_iff bit_push_bit_iff bit_unsigned_iff)
  next
    case False
    then have n: "n div 8 = Suc ((n - 8) div 8)" "n mod 8 = (n - 8) mod 8" by (simp_all add: le_div_geq le_mod_geq)
    have "\<not> bit b n" using False bit_imp_le_length [of b n] by auto
    then show ?thesis using False n Cons.IH [of "n - 8"]
      by (auto simp: bit_or_iff bit_push_bit_iff bit_unsigned_iff)
  qed
qed simp

lemma le_value_inj:
  assumes "(le_value n xs i :: 'w::len word) = le_value n ys j" and "8 * n \<le> LENGTH('w)"
    and "i + n \<le> length xs" and "j + n \<le> length ys"
  shows "take n (drop i xs) = take n (drop j ys)"
proof (rule nth_equalityI)
  let ?xs = "take n (drop i xs)" and ?ys = "take n (drop j ys)"
  show "length ?xs = length ?ys" using assms(3,4) by simp
  fix k assume "k < length ?xs"
  then have k: "k < n" by simp
  show "?xs ! k = ?ys ! k"
  proof (rule bit_word_eqI)
    fix m assume "m < LENGTH(8)"
    then have m: "m < 8" by simp
    then have d: "(8 * k + m) div 8 = k" "(8 * k + m) mod 8 = m" by simp_all
    have "8 * k + m < LENGTH('w)" using k m assms(2) by linarith
    then have "bit (le_value n xs i :: 'w word) (8 * k + m) = bit (?xs ! k) m"
      "bit (le_value n ys j :: 'w word) (8 * k + m) = bit (?ys ! k) m"
      using k assms(3,4) unfolding le_value_def bit_le_value d by simp_all
    then show "bit (?xs ! k) m = bit (?ys ! k) m" using assms(1) by simp
  qed
qed

lemma le_value_eq_iff:
  assumes "8 * n \<le> LENGTH('w)" and "i + n \<le> length xs" and "i + n \<le> length ys"
  shows "(le_value n xs i :: 'w::len word) = le_value n ys i \<longleftrightarrow> take n (drop i xs) = take n (drop i ys)"
  using le_value_inj [OF _ assms] by (auto simp: le_value_def)

lemma drop_split: "drop i xs = drop i ys \<longleftrightarrow> take n (drop i xs) = take n (drop i ys) \<and> drop (i + n) xs = drop (i + n) ys"
  by (metis add.commute append_take_drop_id drop_drop)

lemma cmp8_loop_eq:
  "length k = length ek \<Longrightarrow> i \<le> length k \<Longrightarrow> cmp8_loop k ek i = Some (drop i k = drop i ek)"
proof (induction "length k - i" arbitrary: i)
  case 0
  then show ?case by (subst cmp8_loop.simps) simp
next
  case (Suc n)
  then have i: "i < length k" by simp
  have "drop i k = k ! i # drop (Suc i) k" "drop i ek = ek ! i # drop (Suc i) ek"
    using i Suc.prems(1) by (simp_all add: Cons_nth_drop_Suc)
  then show ?case using Suc.hyps(1) [of "Suc i"] Suc.hyps(2) Suc.prems(1) i
    by (subst cmp8_loop.simps) simp
qed

lemma cmp64_loop_eq:
  "length k = length ek \<Longrightarrow> i + n = length k \<Longrightarrow>
   \<exists>r. cmp64_loop k ek i n = Some r \<and>
     (case r of None \<Rightarrow> drop i k \<noteq> drop i ek
      | Some (j, m) \<Rightarrow> j + m = length k \<and> m < 8 \<and> (drop i k = drop i ek \<longleftrightarrow> drop j k = drop j ek))"
proof (induction n arbitrary: i rule: less_induct)
  case (less n)
  show ?case
  proof (cases "n \<ge> 8")
    case True
    then have r: "i + 8 \<le> length k" "i + 8 \<le> length ek" using less.prems by simp_all
    then have e: "(le_value 8 k i :: u64) = le_value 8 ek i \<longleftrightarrow> take 8 (drop i k) = take 8 (drop i ek)"
      by (intro le_value_eq_iff) simp_all
    have "n - 8 < n" "i + 8 + (n - 8) = length k" using True less.prems(2) by simp_all
    from less.IH [OF this(1) less.prems(1) this(2)] drop_split [of i k ek 8] e r True
    show ?thesis by (subst cmp64_loop.simps) (fastforce split: option.splits)
  next
    case False
    then show ?thesis using less.prems by (subst cmp64_loop.simps) simp
  qed
qed

lemma keys_equal_eq: "keys_equal k ek = Some (k = ek)"
proof (cases "length k = length ek")
  case True
  have "0 + length k = length k" by simp
  from cmp64_loop_eq [OF True this] obtain r where
    r: "cmp64_loop k ek 0 (length k) = Some r"
    "case r of None \<Rightarrow> k \<noteq> ek
     | Some (j, m) \<Rightarrow> j + m = length k \<and> m < 8 \<and> (k = ek \<longleftrightarrow> drop j k = drop j ek)" unfolding drop_0 by blast
  show ?thesis
  proof (cases r)
    case None
    then show ?thesis using r True by (simp add: keys_equal_def)
  next
    case (Some p)
    then obtain j m where p: "r = Some (j, m)" by (cases p) simp
    with r(2) have jm: "j + m = length k" "m < 8" "k = ek \<longleftrightarrow> drop j k = drop j ek" by simp_all
    have "\<exists>q. cmp32 k ek j m = Some q \<and>
      (case q of None \<Rightarrow> k \<noteq> ek | Some i \<Rightarrow> i \<le> length k \<and> (k = ek \<longleftrightarrow> drop i k = drop i ek))"
    proof (cases "odd (m div 4)")
      case o: True
      then have "4 \<le> m" using jm(2) by presburger
      then have b: "j + 4 \<le> length k" "j + 4 \<le> length ek" using jm(1) True by simp_all
      then have e: "(le_value 4 k j :: u32) = le_value 4 ek j \<longleftrightarrow> take 4 (drop j k) = take 4 (drop j ek)"
        by (intro le_value_eq_iff) simp_all
      show ?thesis using o b e drop_split [of j k ek 4] jm(3) by (simp add: cmp32_def bit_tests)
    next
      case False
      then show ?thesis using jm by (simp add: cmp32_def bit_tests)
    qed
    then obtain q where q: "cmp32 k ek j m = Some q"
      "case q of None \<Rightarrow> k \<noteq> ek | Some i \<Rightarrow> i \<le> length k \<and> (k = ek \<longleftrightarrow> drop i k = drop i ek)" by blast
    show ?thesis using r(1) p q True cmp8_loop_eq [OF True]
      by (cases q) (simp_all add: keys_equal_def)
  qed
qed (auto simp: keys_equal_def)

section \<open>The invariant and the map\<close>

definition entries :: "'d HashMap \<Rightarrow> 'd Entry list" where
  "entries h = concat (bkts h)"

definition view_of :: "'d Entry list \<Rightarrow> byte list \<Rightarrow> 'd option" where
  "view_of es = map_of (map (\<lambda>e. (key e, data e)) es)"

definition view :: "'d HashMap \<Rightarrow> byte list \<Rightarrow> 'd option" where
  "view h = view_of (entries h)"

definition placed :: "(byte list \<Rightarrow> u32) \<Rightarrow> u32 \<Rightarrow> 'd Entry list list \<Rightarrow> bool" where
  "placed f m b \<longleftrightarrow> (\<forall>i < length b. \<forall>e \<in> set (b ! i). hk e = f (key e) \<and> slot m (hk e) = i)"

definition hm_ok :: "'d HashMap \<Rightarrow> bool" where
  "hm_ok h \<longleftrightarrow>
     (\<exists>p \<le> 31. length (bkts h) = 2 ^ p \<and> msk h = mask p) \<and>
     placed (Hash h) (msk h) (bkts h) \<and> distinct (map key (entries h)) \<and>
     unat (used h) = length (entries h)"

text \<open>Every bucket index stays inside the array.\<close>

lemma slot_less: "slot (mask p) x < 2 ^ p"
proof -
  have "unat (x AND mask p) = take_bit p (unat x)"
    by (simp add: take_bit_eq_mask [symmetric] unsigned_take_bit_eq)
  then show ?thesis by (simp add: slot_def)
qed

lemma hm_ok_slot: "hm_ok h \<Longrightarrow> slot (msk h) x < length (bkts h)"
  using slot_less by (auto simp: hm_ok_def)

lemma view_of_Some:
  "distinct (map key es) \<Longrightarrow> view_of es k = Some d \<longleftrightarrow> (\<exists>e \<in> set es. key e = k \<and> data e = d)"
  unfolding view_of_def by (subst map_of_eq_Some_iff) (auto simp: comp_def)

lemma view_of_None: "view_of es k = None \<longleftrightarrow> k \<notin> key ` set es"
  by (auto simp: view_of_def map_of_eq_None_iff image_image)

lemma view_of_cong:
  assumes "distinct (map key es)" and "mset es = mset fs"
  shows "view_of es = view_of fs"
proof -
  have "distinct (map key fs)" using assms by (metis mset_eq_imp_distinct_iff mset_map)
  moreover have "set es = set fs" using assms(2) by (rule mset_eq_setD)
  ultimately have "view_of es k = Some d \<longleftrightarrow> view_of fs k = Some d" for k d
    using assms(1) by (simp add: view_of_Some)
  then show ?thesis by (metis ext option.exhaust)
qed

lemma mset_concat_update:
  "i < length b \<Longrightarrow> mset (concat (b[i := es])) + mset (b ! i) = mset (concat b) + mset es"
proof (induction b arbitrary: i)
  case (Cons x b)
  show ?case
  proof (cases i)
    case (Suc j)
    then show ?thesis using Cons.IH [of j] Cons.prems by (simp add: ac_simps)
  qed simp
qed simp

lemma placedD:
  assumes "placed f m b" and "i < length b" and "e \<in> set (b ! i)"
  shows "hk e = f (key e)" "slot m (hk e) = i" "slot m (f (key e)) = i"
proof -
  have "hk e = f (key e) \<and> slot m (hk e) = i" using assms unfolding placed_def by blast
  then show "hk e = f (key e)" "slot m (hk e) = i" "slot m (f (key e)) = i" by auto
qed

lemma placed_concatD:
  assumes "placed f m b" and "e \<in> set (concat b)"
  shows "hk e = f (key e)" "e \<in> set (b ! slot m (f (key e)))"
proof -
  from assms(2) obtain es where "es \<in> set b" "e \<in> set es" by auto
  then obtain j where j: "j < length b" "e \<in> set (b ! j)" by (metis in_set_conv_nth)
  show "hk e = f (key e)" "e \<in> set (b ! slot m (f (key e)))" using placedD [OF assms(1) j] j(2) by simp_all
qed

lemma concat_split: "i < length b \<Longrightarrow> concat b = concat (take i b) @ b ! i @ concat (drop (Suc i) b)"
  by (metis concat.simps(2) concat_append id_take_nth_drop)

lemma view_bucket:
  assumes ok: "hm_ok h"
  shows "view h k = view_of (bkts h ! slot (msk h) (Hash h k)) k"
proof -
  let ?b = "bkts h" and ?i = "slot (msk h) (Hash h k)"
  have pl: "placed (Hash h) (msk h) ?b" and d: "distinct (map key (concat ?b))"
    using ok by (simp_all add: hm_ok_def entries_def)
  have i: "?i < length ?b" by (rule hm_ok_slot [OF ok])
  have sub: "set (?b ! ?i) \<subseteq> set (concat ?b)" and di: "distinct (map key (?b ! ?i))"
    using d by (auto simp: concat_split [OF i])
  have "view h k = Some x \<longleftrightarrow> view_of (?b ! ?i) k = Some x" for x
    using placed_concatD(2) [OF pl] sub
    unfolding view_def entries_def view_of_Some [OF d] view_of_Some [OF di] by (metis subsetD)
  then show ?thesis by (metis not_Some_eq)
qed

lemma chain_get_view: "chain_get k es = view_of es k"
  by (induction es) (auto simp: keys_equal_eq view_of_def)

lemma hm_Get_view: "hm_ok h \<Longrightarrow> hm_Get h k = view h k"
  by (simp add: hm_Get_def chain_get_view view_bucket)

section \<open>Resizing\<close>

lemma length_rehash [simp]: "length (foldl (rehash m) b es) = length b"
  by (induction es arbitrary: b) (simp_all add: rehash_def)

lemma foldl_rehash:
  assumes "\<And>x. slot m x < length b" and "\<forall>e \<in> set es. hk e = f (key e)" and "placed f m b"
  shows "placed f m (foldl (rehash m) b es) \<and> mset (concat (foldl (rehash m) b es)) = mset (concat b) + mset es"
  using assms
proof (induction es arbitrary: b)
  case (Cons e es)
  let ?b = "rehash m b e" and ?i = "slot m (hk e)"
  have i: "?i < length b" using Cons.prems(1) .
  have l: "slot m x < length ?b" for x using Cons.prems(1) by (simp add: rehash_def)
  have p: "placed f m ?b"
    unfolding placed_def
  proof (intro allI impI ballI)
    fix j x assume j: "j < length ?b" and x: "x \<in> set (?b ! j)"
    have old: "hk y = f (key y) \<and> slot m (hk y) = j" if "y \<in> set (b ! j)" for y
      using placedD(1,2) [OF Cons.prems(3) _ that] j by (simp add: rehash_def)
    show "hk x = f (key x) \<and> slot m (hk x) = j"
    proof -
      have "x = e \<and> j = ?i \<or> x \<in> set (b ! j)"
        using x i j by (cases "j = ?i") (simp_all add: rehash_def)
      then show ?thesis
      proof
        assume "x = e \<and> j = ?i"
        then show ?thesis using Cons.prems(2) by simp
      qed (rule old)
    qed
  qed
  have "mset (concat ?b) + mset (b ! ?i) = mset (concat b) + mset (e # b ! ?i)"
    unfolding rehash_def by (rule mset_concat_update [OF i])
  then have "mset (concat ?b) = mset (concat b) + {#e#}" by simp
  moreover have "\<forall>e \<in> set es. hk e = f (key e)" using Cons.prems(2) by simp
  note Cons.IH [OF l this p]
  ultimately show ?case by simp
qed simp

lemma hm_okI:
  assumes "p \<le> 31" "length (bkts h) = 2 ^ p" "msk h = mask p" "placed (Hash h) (msk h) (bkts h)"
    "distinct (map key (entries h))" "unat (used h) = length (entries h)"
  shows "hm_ok h"
  using assms unfolding hm_ok_def by blast

lemma resize_spec:
  assumes ok: "placed (Hash h) m0 (bkts h)" "distinct (map key (entries h))" "unat (used h) = length (entries h)"
    and p: "p \<le> 31" "nsz = of_nat (2 ^ p)"
  shows "hm_ok (resize nsz h) \<and> view (resize nsz h) = view h \<and> Hash (resize nsz h) = Hash h \<and>
    used (resize nsz h) = used h \<and> mset (entries (resize nsz h)) = mset (entries h) \<and>
    length (bkts (resize nsz h)) = 2 ^ p"
proof -
  have n: "unat nsz = 2 ^ p"
  proof -
    have "(2 :: nat) ^ p \<le> 2 ^ 31" using p(1) by (intro power_increasing) simp_all
    then have "(2 :: nat) ^ p < 2 ^ LENGTH(32)" by simp
    then show ?thesis by (rule of_nat_inverse [OF p(2) [symmetric]])
  qed
  have m: "nsz - 1 = mask p" by (simp add: p(2) mask_eq_exp_minus_1)
  let ?b = "replicate (2 ^ p) [] :: 'a Entry list list"
  have "\<forall>e \<in> set (concat (bkts h)). hk e = Hash h (key e)"
    using placed_concatD(1) [OF ok(1)] by blast
  then have f: "placed (Hash h) (mask p) (foldl (rehash (mask p)) ?b (concat (bkts h))) \<and>
      mset (concat (foldl (rehash (mask p)) ?b (concat (bkts h)))) = mset (concat ?b) + mset (concat (bkts h))"
    by (intro foldl_rehash) (simp_all add: slot_less placed_def)
  have "concat ?b = []" by simp
  then have e: "mset (entries (resize nsz h)) = mset (entries h)"
    using f by (simp add: entries_def resize_def n m Let_def)
  have d: "distinct (map key (entries (resize nsz h)))" using ok(2) e by (metis mset_eq_imp_distinct_iff mset_map)
  have "length (entries (resize nsz h)) = length (entries h)" using e by (rule mset_eq_length)
  then have "hm_ok (resize nsz h)"
    using f ok(3) d p(1) by (intro hm_okI [of p]) (simp_all add: resize_def n m Let_def)
  moreover have "view (resize nsz h) = view h"
    unfolding view_def by (rule sym, rule view_of_cong [OF ok(2)]) (simp add: e)
  ultimately show ?thesis using e by (simp add: resize_def n Let_def)
qed

lemma pow2_bound: "(2 :: nat) ^ p < 2 ^ 31 - 1 \<Longrightarrow> p \<le> 30"
proof (rule ccontr)
  assume a: "(2 :: nat) ^ p < 2 ^ 31 - 1" and "\<not> p \<le> 30"
  then have "(2 :: nat) ^ 31 \<le> 2 ^ p" by (intro power_increasing) simp_all
  with a show False by simp
qed

lemma grow_spec:
  assumes "hm_ok h"
  shows "hm_ok (grow h) \<and> view (grow h) = view h \<and> Hash (grow h) = Hash h \<and> used (grow h) = used h"
proof (cases "length (bkts h) \<ge> maxBktSize")
  case False
  from assms obtain p where p: "length (bkts h) = 2 ^ p" "placed (Hash h) (msk h) (bkts h)"
    "distinct (map key (entries h))" "unat (used h) = length (entries h)" by (auto simp: hm_ok_def)
  have "p \<le> 30" using False pow2_bound p(1) by (simp add: maxBktSize_def)
  then have "Suc p \<le> 31" by simp
  from resize_spec [OF p(2-4) this refl] show ?thesis using False p(1) by (simp add: grow_def)
qed (use assms in \<open>simp add: grow_def\<close>)

lemma shrink_spec:
  assumes "hm_ok h"
  shows "hm_ok (shrink h) \<and> view (shrink h) = view h \<and> Hash (shrink h) = Hash h \<and> used (shrink h) = used h"
proof (cases "length (bkts h) \<le> BSZ")
  case False
  from assms obtain p where p: "length (bkts h) = 2 ^ p" "placed (Hash h) (msk h) (bkts h)"
    "distinct (map key (entries h))" "unat (used h) = length (entries h)" "p \<le> 31" by (auto simp: hm_ok_def)
  then obtain q where q: "p = Suc q" "q \<le> 31" using False by (cases p) (simp_all add: BSZ_def)
  have "length (bkts h) div 2 = 2 ^ q" using p(1) q(1) by simp
  with resize_spec [OF p(2-4) q(2) refl] show ?thesis using False by (simp add: shrink_def)
qed (use assms in \<open>simp add: shrink_def\<close>)

section \<open>The operations on the map\<close>

lemma replace_data_None: "replace_data k d es = None \<longleftrightarrow> k \<notin> key ` set es"
  by (induction es) auto

lemma replace_data_Some:
  "replace_data k d es = Some fs \<Longrightarrow> \<exists>as e bs. es = as @ e # bs \<and> key e = k \<and> k \<notin> key ` set as \<and>
     fs = as @ Entry (hk e) k d # bs"
proof (induction es arbitrary: fs)
  case (Cons e es)
  show ?case
  proof (cases "k = key e")
    case True
    then show ?thesis using Cons.prems by (intro exI [of _ "[]"] exI [of _ e] exI [of _ es]) auto
  next
    case False
    then obtain gs where "replace_data k d es = Some gs" "fs = e # gs" using Cons.prems by auto
    with Cons.IH [of gs] obtain as x bs where
      "es = as @ x # bs" "key x = k" "k \<notin> key ` set as" "fs = e # as @ Entry (hk x) k d # bs" by auto
    then show ?thesis using False by (intro exI [of _ "e # as"] exI [of _ x] exI [of _ bs]) auto
  qed
qed simp

lemma chain_remove_None: "chain_remove k es = None \<longleftrightarrow> k \<notin> key ` set es"
  by (induction es) auto

lemma chain_remove_Some:
  "chain_remove k es = Some fs \<Longrightarrow> \<exists>as e bs. es = as @ e # bs \<and> key e = k \<and> fs = as @ bs"
proof (induction es arbitrary: fs)
  case (Cons e es)
  show ?case
  proof (cases "k = key e")
    case True
    then show ?thesis using Cons.prems by (intro exI [of _ "[]"] exI [of _ e] exI [of _ es]) auto
  next
    case False
    then obtain gs where "chain_remove k es = Some gs" "fs = e # gs" using Cons.prems by auto
    with Cons.IH [of gs] obtain as x bs where "es = as @ x # bs" "key x = k" "fs = e # as @ bs" by auto
    then show ?thesis by (intro exI [of _ "e # as"] exI [of _ x] exI [of _ bs]) auto
  qed
qed simp

lemma bucket_has_key:
  assumes ok: "hm_ok h" shows "k \<in> key ` set (bkts h ! slot (msk h) (Hash h k)) \<longleftrightarrow> view h k \<noteq> None"
  using view_of_None [of "bkts h ! slot (msk h) (Hash h k)" k] view_bucket [OF ok, of k] by simp

text \<open>Replacing one bucket: what a change of its entries means for the whole map.\<close>

lemma update_bucket:
  assumes ok: "hm_ok h" and i: "i < length (bkts h)"
    and m: "mset es = mset (bkts h ! i) - A + B" "A \<subseteq># mset (bkts h ! i)"
    and p: "\<And>e. e \<in> set es \<Longrightarrow> hk e = Hash h (key e) \<and> slot (msk h) (hk e) = i"
    and h': "h' = HashMap (Hash h) ((bkts h)[i := es]) (msk h) u (rsz h)"
  shows "placed (Hash h') (msk h') (bkts h')" "mset (entries h') = mset (entries h) - A + B"
    "length (bkts h') = length (bkts h)"
proof -
  have pl: "placed (Hash h) (msk h) (bkts h)" using ok by (simp add: hm_ok_def)
  show "placed (Hash h') (msk h') (bkts h')"
    unfolding placed_def
  proof (intro allI impI ballI)
    fix j e assume j: "j < length (bkts h')" and e: "e \<in> set (bkts h' ! j)"
    show "hk e = Hash h' (key e) \<and> slot (msk h') (hk e) = j"
    proof (cases "j = i")
      case True
      then have "e \<in> set es" using e i by (simp add: h')
      from p [OF this] True show ?thesis unfolding h' HashMap.sel by blast
    next
      case False
      then show ?thesis using placedD(1,2) [OF pl, of j e] e j by (simp add: h')
    qed
  qed
  have "mset (entries h') + mset (bkts h ! i) = mset (entries h) + mset es"
    unfolding entries_def h' HashMap.sel by (rule mset_concat_update [OF i])
  moreover have "A \<subseteq># mset (entries h)"
    using m(2) by (simp add: entries_def concat_split [OF i] subset_mset.add_increasing2 subset_mset.add_increasing)
  ultimately show "mset (entries h') = mset (entries h) - A + B"
    using m by (auto simp: multiset_eq_iff subseteq_mset_def) (smt (verit) add_diff_cancel_right' add_diff_assoc2 add.commute add.left_commute)
  show "length (bkts h') = length (bkts h)" by (simp add: h')
qed

lemma view_add:
  assumes "distinct (map key es)" and "mset fs = add_mset e (mset es)" and "key e \<notin> key ` set es"
  shows "distinct (map key fs)" "view_of fs = (view_of es)(key e \<mapsto> data e)"
proof -
  have d: "distinct (map key (e # es))" using assms(1,3) by simp
  have m: "mset (e # es) = mset fs" using assms(2) by simp
  show "distinct (map key fs)" using d m by (metis mset_eq_imp_distinct_iff mset_map)
  show "view_of fs = (view_of es)(key e \<mapsto> data e)"
    using view_of_cong [OF d m] by (simp add: view_of_def fun_upd_def)
qed

lemma view_drop:
  assumes "distinct (map key es)" and "mset fs = mset es - {#e#}" and "e \<in> set es"
  shows "distinct (map key fs)" "view_of fs = (view_of es)(key e := None)" "key e \<notin> key ` set fs"
proof -
  have m: "mset es = mset (e # fs)" using assms(2,3) by simp
  have d: "distinct (map key (e # fs))" using assms(1) m by (metis mset_eq_imp_distinct_iff mset_map)
  then show "distinct (map key fs)" and n: "key e \<notin> key ` set fs" by simp_all
  have "view_of es = (view_of fs)(key e \<mapsto> data e)"
    using view_of_cong [OF assms(1) m] by (simp add: view_of_def fun_upd_def)
  moreover have "view_of fs (key e) = None" using n by (simp add: view_of_None)
  ultimately show "view_of fs = (view_of es)(key e := None)" by auto
qed

definition hm_room :: "'d HashMap \<Rightarrow> bool" where
  "hm_room h \<longleftrightarrow> unat (used h) < 2 ^ 32 - 1"

lemma hm_ok_with:
  assumes "hm_ok h" and "length (bkts h') = length (bkts h)" and "msk h' = msk h"
    and "placed (Hash h') (msk h') (bkts h')" and "distinct (map key (entries h'))"
    and "unat (used h') = length (entries h')"
  shows "hm_ok h'"
  using assms unfolding hm_ok_def by simp

lemma hm_Set_spec:
  assumes ok: "hm_ok h" and room: "hm_room h \<or> view h k \<noteq> None"
  shows "hm_ok (hm_Set h k d) \<and> view (hm_Set h k d) = (view h)(k \<mapsto> d) \<and> Hash (hm_Set h k d) = Hash h \<and>
    used (hm_Set h k d) = (if view h k = None then used h + 1 else used h)"
proof -
  let ?x = "Hash h k" and ?i = "slot (msk h) (Hash h k)"
  have i: "?i < length (bkts h)" by (rule hm_ok_slot [OF ok])
  have pl: "placed (Hash h) (msk h) (bkts h)" and dd: "distinct (map key (entries h))"
    and u: "unat (used h) = length (entries h)" using ok by (simp_all add: hm_ok_def)
  have sub: "set (bkts h ! ?i) \<subseteq> set (entries h)" using i by (auto simp: entries_def concat_split [OF i])
  show ?thesis
  proof (cases "replace_data k d (bkts h ! ?i)")
    case (Some fs)
    then obtain as e bs where s: "bkts h ! ?i = as @ e # bs" "key e = k" "fs = as @ Entry (hk e) k d # bs"
      using replace_data_Some [OF Some] by blast
    let ?e = "Entry (hk e) k d" and ?h = "HashMap (Hash h) ((bkts h)[?i := fs]) (msk h) (used h) (rsz h)"
    have p: "hk x = Hash h (key x) \<and> slot (msk h) (hk x) = ?i" if "x \<in> set fs" for x
    proof -
      have "x = ?e \<or> x \<in> set (bkts h ! ?i)" using that s by auto
      then show ?thesis using placedD(1,2) [OF pl i, of x] placedD(1,2) [OF pl i, of e] s(1,2)
        by (elim disjE) simp_all
    qed
    have m: "mset fs = mset (bkts h ! ?i) - {#e#} + {#?e#}" "{#e#} \<subseteq># mset (bkts h ! ?i)" using s by simp_all
    note U = update_bucket [OF ok i m p refl, of "used h"]
    let ?rest = "as @ bs @ []" 
    have e: "e \<in> set (entries h)" using sub s(1) by auto
    obtain rest where rest: "mset rest = mset (entries h) - {#e#}" by (metis ex_mset)
    note D = view_drop [OF dd rest e]
    have "mset (entries ?h) = add_mset ?e (mset rest)" using U(2) rest by simp
    note V = view_add [OF D(1) this] 
    have kn: "key ?e \<notin> key ` set rest" using D(3) s(2) by simp
    have "size (mset (entries ?h)) = size (mset (entries h))"
      using U(2) e by (simp add: size_Diff_singleton) (metis Suc_pred length_pos_if_in_set)
    then have "hm_ok ?h" using U(1,3) V(1) [OF kn] u by (intro hm_ok_with [OF ok]) simp_all
    moreover have "view ?h = (view h)(k \<mapsto> d)" using V(2) [OF kn] D(2) s(2) by (simp add: view_def)
    moreover have "view h k \<noteq> None" using bucket_has_key [OF ok, of k] s by auto
    ultimately show ?thesis using Some by (simp add: hm_Set_def)
  next
    case None
    then have new: "view h k = None" using bucket_has_key [OF ok, of k] by (simp add: replace_data_None)
    let ?e = "Entry ?x k d"
    let ?h = "HashMap (Hash h) ((bkts h)[?i := ?e # bkts h ! ?i]) (msk h) (used h + 1) (rsz h)"
    have p: "hk x = Hash h (key x) \<and> slot (msk h) (hk x) = ?i" if "x \<in> set (?e # bkts h ! ?i)" for x
      using that placedD(1,2) [OF pl i] by auto
    have m: "mset (?e # bkts h ! ?i) = mset (bkts h ! ?i) - {#} + {#?e#}" "{#} \<subseteq># mset (bkts h ! ?i)" by simp_all
    note U = update_bucket [OF ok i m p refl, of "used h + 1"]
    have "mset (entries ?h) = add_mset ?e (mset (entries h))" using U(2) by simp
    note V = view_add [OF dd this]
    have kn: "key ?e \<notin> key ` set (entries h)" using new by (simp add: view_def view_of_None)
    have "length (entries ?h) = Suc (length (entries h))"
      using U(2) by (metis add_0_right diff_zero mset.simps(2) add_mset_add_single length_Cons size_mset)
    moreover have "used h \<noteq> - 1" using room new by (auto simp: hm_room_def unsigned_minus_1_eq_mask mask_eq_exp_minus_1)
    ultimately have h: "hm_ok ?h" using U(1,3) V(1) [OF kn] u
      by (intro hm_ok_with [OF ok]) (simp_all add: unat_plus_one)
    have "view ?h = (view h)(k \<mapsto> d)" using V(2) [OF kn] by (simp add: view_def)
    moreover have "hm_Set h k d = grow ?h \<or> hm_Set h k d = ?h"
      using None by (simp only: hm_Set_def Let_def option.case split: if_split) simp
    moreover have "Hash ?h = Hash h" "used ?h = used h + 1" by simp_all
    ultimately show ?thesis using grow_spec [OF h] h new by metis
  qed
qed

lemma remove_at_bucket:
  assumes ok: "hm_ok h" and i: "i < length (bkts h)" and s: "bkts h ! i = as @ e # bs"
  shows "hm_ok (HashMap (Hash h) ((bkts h)[i := as @ bs]) (msk h) (used h - 1) (rsz h))" (is "hm_ok ?h")
    and "view (HashMap (Hash h) ((bkts h)[i := as @ bs]) (msk h) (used h - 1) (rsz h)) = (view h)(key e := None)"
    and "view h (key e) \<noteq> None"
proof -
  have pl: "placed (Hash h) (msk h) (bkts h)" and dd: "distinct (map key (entries h))"
    and u: "unat (used h) = length (entries h)" using ok by (simp_all add: hm_ok_def)
  have e: "e \<in> set (entries h)" using s by (auto simp: entries_def concat_split [OF i])
  have p: "hk x = Hash h (key x) \<and> slot (msk h) (hk x) = i" if "x \<in> set (as @ bs)" for x
    using placedD(1,2) [OF pl i, of x] that s by auto
  have m: "mset (as @ bs) = mset (bkts h ! i) - {#e#} + {#}" "{#e#} \<subseteq># mset (bkts h ! i)" using s by simp_all
  note U = update_bucket [OF ok i m p refl, of "used h - 1"]
  have "mset (entries ?h) = mset (entries h) - {#e#}" using U(2) by simp
  note D = view_drop [OF dd this e]
  have l: "length (entries ?h) = length (entries h) - 1"
    using U(2) e by (metis add_0_right set_mset_mset size_Diff_singleton size_mset)
  have "length (entries h) > 0" using e by (rule length_pos_if_in_set)
  then have "used h \<noteq> 0" using u by auto
  then have "unat (used h - 1) = unat (used h) - 1" by (rule unat_minus_one)
  then show "hm_ok ?h" using U(1,3) D(1) u l by (intro hm_ok_with [OF ok]) simp_all
  show "view ?h = (view h)(key e := None)" using D(2) by (simp add: view_def)
  show "view h (key e) \<noteq> None" using e by (auto simp: view_def view_of_None)
qed

lemma hm_Remove_spec:
  assumes ok: "hm_ok h"
  shows "hm_ok (hm_Remove h k) \<and> view (hm_Remove h k) = (view h)(k := None) \<and> Hash (hm_Remove h k) = Hash h \<and>
    used (hm_Remove h k) = (if view h k = None then used h else used h - 1)"
proof -
  let ?i = "slot (msk h) (Hash h k)"
  have i: "?i < length (bkts h)" by (rule hm_ok_slot [OF ok])
  have pl: "placed (Hash h) (msk h) (bkts h)" and dd: "distinct (map key (entries h))"
    and u: "unat (used h) = length (entries h)" using ok by (simp_all add: hm_ok_def)
  show ?thesis
  proof (cases "chain_remove k (bkts h ! ?i)")
    case None
    then have "view h k = None" using bucket_has_key [OF ok, of k] by (simp add: chain_remove_None)
    then show ?thesis using None ok by (simp add: hm_Remove_def) (metis fun_upd_triv)
  next
    case (Some fs)
    then obtain as e bs where s: "bkts h ! ?i = as @ e # bs" "key e = k" "fs = as @ bs"
      using chain_remove_Some [OF Some] by blast
    let ?h = "HashMap (Hash h) ((bkts h)[?i := fs]) (msk h) (used h - 1) (rsz h)"
    from remove_at_bucket [OF ok i s(1)] s(2,3) have
      R: "hm_ok ?h" "view ?h = (view h)(k := None)" by simp_all
    have "hm_Remove h k = shrink ?h \<or> hm_Remove h k = ?h"
      using Some by (simp only: hm_Remove_def Let_def option.case split: if_split) simp
    moreover have "Hash ?h = Hash h" "used ?h = used h - 1" by simp_all
    moreover have "view h k \<noteq> None" using bucket_has_key [OF ok, of k] s by auto
    ultimately show ?thesis using shrink_spec [OF R(1)] R by metis
  qed
qed

section \<open>Random eviction\<close>

lemma evict_loop_Some:
  assumes ok: "hm_ok h" and "set is \<subseteq> {..<length (bkts h)}" and "evict_loop is h = Some h'"
  shows "\<exists>k. view h k \<noteq> None \<and> hm_ok h' \<and> view h' = (view h)(k := None) \<and> used h' = used h - 1 \<and> Hash h' = Hash h"
  using assms(2,3)
proof (induction "is")
  case (Cons i "is")
  show ?case
  proof (cases "bkts h ! i")
    case Nil
    then show ?thesis using Cons by simp
  next
    case (Cons e es)
    have i: "i < length (bkts h)" using Cons.prems(1) by simp
    have "bkts h ! i = [] @ e # es" using Cons by simp
    from remove_at_bucket [OF ok i this] Cons.prems(2) Cons show ?thesis
      by (intro exI [of _ "key e"]) auto
  qed
qed simp

lemma evict_loop_None: "evict_loop is h = None \<longleftrightarrow> (\<forall>i \<in> set is. bkts h ! i = [])"
  by (induction "is") (auto split: list.splits)

lemma pow_le_31: "p \<le> 31 \<Longrightarrow> (2 :: nat) ^ p \<le> 2 ^ 31"
  by (intro power_increasing) simp_all

lemma unat_mask32: "p \<le> 31 \<Longrightarrow> unat (mask p :: u32) = mask p"
proof (rule of_nat_inverse [OF of_nat_mask_eq])
  assume "p \<le> 31"
  from pow_le_31 [OF this] show "(mask p :: nat) < 2 ^ LENGTH(32)" by (simp add: mask_eq_exp_minus_1)
qed

lemma random_index: "p \<le> 31 \<Longrightarrow> rnd AND unat (mask p :: u32) < 2 ^ p"
  by (simp add: unat_mask32 take_bit_eq_mask [symmetric])

lemma RemoveRandom_spec:
  assumes ok: "hm_ok h" and ne: "used h \<noteq> 0"
  shows "\<exists>h' k. RemoveRandom rnd h = Some h' \<and> view h k \<noteq> None \<and> hm_ok h' \<and>
    view h' = (view h)(k := None) \<and> used h' = used h - 1 \<and> Hash h' = Hash h"
proof -
  let ?n = "length (bkts h)" and ?i = "rnd AND unat (msk h)"
  from ok obtain p where p: "p \<le> 31" "?n = 2 ^ p" "msk h = mask p" by (auto simp: hm_ok_def)
  have i: "?i < ?n" using random_index [OF p(1)] p(2,3) by simp
  have "unat (used h) \<noteq> 0" using ne by (simp add: unat_eq_0)
  then have "entries h \<noteq> []" using ok by (auto simp: hm_ok_def)
  then obtain b where "b \<in> set (bkts h)" "b \<noteq> []" by (auto simp: entries_def)
  then obtain j where j: "j < ?n" "bkts h ! j \<noteq> []" by (auto simp: in_set_conv_nth)
  consider r where "evict_loop [?i ..< ?n] h = Some r"
    | r where "evict_loop [?i ..< ?n] h = None" "evict_loop (rev [0 ..< ?i + 1]) h = Some r"
  proof (cases "evict_loop [?i ..< ?n] h")
    case None
    then have "\<not> ?i \<le> j" using j by (auto simp: evict_loop_None)
    then have "evict_loop (rev [0 ..< ?i + 1]) h \<noteq> None" unfolding evict_loop_None using j(2) by auto
    then show ?thesis using that None by blast
  qed (use that in blast)
  then show ?thesis
  proof cases
    case (1 r)
    then have "RemoveRandom rnd h = Some r" using ne by (simp add: RemoveRandom_def)
    moreover have "set [?i ..< ?n] \<subseteq> {..<?n}" by auto
    ultimately show ?thesis using evict_loop_Some [OF ok _ 1] by blast
  next
    case (2 r)
    then have "RemoveRandom rnd h = Some r" using ne by (simp add: RemoveRandom_def Let_def)
    moreover have "set (rev [0 ..< ?i + 1]) \<subseteq> {..<?n}" using i by auto
    ultimately show ?thesis using evict_loop_Some [OF ok _ 2(2)] by blast
  qed
qed

section \<open>New maps\<close>

lemma and_pred_pow2: "(l :: nat) > 0 \<Longrightarrow> l AND (l - 1) = 0 \<longleftrightarrow> (\<exists>p. l = 2 ^ p)"
proof (induction l rule: less_induct)
  case (less l)
  show ?case
  proof (cases "even l")
    case True
    then obtain m where m: "l = 2 * m" "0 < m" "m < l" using less.prems by (auto elim!: evenE)
    then have "l - 1 = 2 * (m - 1) + 1" by simp
    then have "l AND (l - 1) = 2 * (m AND (m - 1))" unfolding m(1) by (simp add: and_nat_unfold [of "2 * m"])
    then have "l AND (l - 1) = 0 \<longleftrightarrow> (\<exists>p. m = 2 ^ p)" using less.IH [OF m(3,2)] by simp
    also have "\<dots> \<longleftrightarrow> (\<exists>p. l = 2 ^ p)"
    proof
      assume "\<exists>p. m = 2 ^ p"
      then show "\<exists>p. l = 2 ^ p" using m(1) by (metis power_Suc)
    next
      assume "\<exists>p. l = 2 ^ p"
      then obtain p where "l = 2 ^ p" ..
      then show "\<exists>p. m = 2 ^ p" using m(1) True by (cases p) auto
    qed
    finally show ?thesis .
  next
    case False
    then have "l - 1 = 2 * (l div 2)" "l = 2 * (l div 2) + 1" by presburger+
    then have e: "l AND (l - 1) = 2 * (l div 2)" by (simp add: and_nat_unfold [of l])
    show ?thesis
    proof
      assume "l AND (l - 1) = 0"
      then have "l = 2 ^ 0" using e \<open>l = 2 * (l div 2) + 1\<close> by simp
      then show "\<exists>p. l = 2 ^ p" ..
    next
      assume "\<exists>p. l = 2 ^ p"
      then obtain p where "l = 2 ^ p" ..
      then have "l = 1" using False by (cases p) auto
      then show "l AND (l - 1) = 0" by simp
    qed
  qed
qed

lemma NewWithBkts_spec:
  assumes "l \<le> 2 ^ 31"
  shows "case NewWithBkts (replicate l []) of
      Inl _ \<Rightarrow> \<not> (\<exists>p. l = 2 ^ p)
    | Inr h \<Rightarrow> (\<exists>p. l = 2 ^ p) \<and> hm_ok h \<and> view h = Map.empty \<and> used h = 0 \<and> Hash h = DefaultHash"
proof (cases "\<exists>p. l = 2 ^ p")
  case True
  then obtain p where p: "l = 2 ^ p" ..
  have le: "p \<le> 31" by (rule power_le_imp_le_exp [of "2 :: nat", OF _ assms [unfolded p]]) simp
  have "l AND (l - 1) = 0" "l > 0" using and_pred_pow2 [of l] True p by simp_all
  then have n: "NewWithBkts (replicate l []) = Inr (HashMap DefaultHash (replicate l []) (of_nat (l - 1)) 0 True)"
    by (simp add: NewWithBkts_def Let_def)
  have m: "(of_nat (l - 1) :: u32) = mask p"
    by (simp add: p of_nat_mask_eq [symmetric, where 'a = u32] mask_eq_exp_minus_1 del: of_nat_mask_eq)
  have "entries (HashMap DefaultHash (replicate l []) (of_nat (l - 1)) 0 True) = []" by (simp add: entries_def)
  moreover have "hm_ok (HashMap DefaultHash (replicate l []) (of_nat (l - 1)) 0 True)"
    using le m calculation by (intro hm_okI [of p]) (simp_all add: p placed_def)
  ultimately show ?thesis using True unfolding n sum.case view_def
    by (simp add: view_of_def)
next
  case False
  then have "l = 0 \<or> l AND (l - 1) \<noteq> 0" using and_pred_pow2 [of l] by (cases "l = 0") simp_all
  then show ?thesis using False by (auto simp: NewWithBkts_def Let_def)
qed

lemma hm_New_spec:
  fixes h0 :: "'d HashMap" defines "h0 \<equiv> hm_New"
  shows "hm_ok h0 \<and> view h0 = Map.empty \<and> used h0 = 0"
proof -
  have p: "\<exists>p. BSZ = 2 ^ p" by (rule exI [of _ 3]) (simp add: BSZ_def)
  have "BSZ \<le> 2 ^ 31" by (simp add: BSZ_def)
  from NewWithBkts_spec [OF this, where 'a = 'd] p obtain h :: "'d HashMap" where "NewWithBkts (replicate BSZ []) = Inr h"
    "hm_ok h \<and> view h = Map.empty \<and> used h = 0" by (auto split: sum.splits)
  moreover from this(1) have "h0 = h" unfolding h0_def hm_New_def by simp
  ultimately show ?thesis by simp
qed

text \<open>Setting the hash function of an empty map.\<close>

lemma set_Hash_empty: "hm_ok h \<Longrightarrow> used h = 0 \<Longrightarrow> hm_ok (set_Hash f h) \<and> view (set_Hash f h) = Map.empty \<and> used (set_Hash f h) = 0"
proof (cases h)
  case (HashMap g b m u r)
  assume ok: "hm_ok h" and u: "used h = 0"
  then have "concat b = []" by (simp add: hm_ok_def entries_def HashMap)
  then have "\<forall>xs \<in> set b. xs = []" by simp
  then have "\<forall>i < length b. b ! i = []" using nth_mem by blast
  then show ?thesis using ok u \<open>concat b = []\<close>
    by (simp add: HashMap hm_ok_def entries_def placed_def view_def view_of_def del: concat_eq_Nil_conv)
qed

section \<open>Keys, data and statistics\<close>

lemma AllKeys_entries: "AllKeys h = map key (entries h)"
  by (simp add: AllKeys_def entries_def)

lemma dom_view: "dom (view h) = key ` set (entries h)"
  by (rule set_eqI) (simp add: domIff view_def view_of_None)

lemma AllKeys_spec: "hm_ok h \<Longrightarrow> distinct (AllKeys h) \<and> set (AllKeys h) = dom (view h)"
  unfolding AllKeys_entries dom_view hm_ok_def by (simp only: set_map)

lemma hm_All_spec: "hm_ok h \<Longrightarrow> mset (hm_All h) = image_mset (\<lambda>k. the (view h k)) (mset (AllKeys h))"
proof -
  assume ok: "hm_ok h"
  then have d: "distinct (map key (entries h))" by (simp add: hm_ok_def)
  have "map (\<lambda>k. the (view h k)) (AllKeys h) = hm_All h"
    unfolding AllKeys_def hm_All_def entries_def [symmetric] map_map
  proof (rule map_cong [OF refl])
    fix e assume "e \<in> set (entries h)"
    then have "view h (key e) = Some (data e)" unfolding view_def view_of_Some [OF d] by blast
    then show "((\<lambda>k. the (view h k)) \<circ> key) e = data e" by simp
  qed
  then show ?thesis by (metis mset_map)
qed

lemma hm_Count_spec: "hm_ok h \<Longrightarrow> unat (hm_Count h) = card (dom (view h))"
  using AllKeys_spec [of h] distinct_card [of "AllKeys h"]
  by (simp add: hm_Count_def hm_ok_def AllKeys_def entries_def)

lemma stats_loop_eq:
  "stats_loop b (lc, t, s) =
   (Max (insert lc (length ` set b)), t + length (concat b), s + length (filter (\<lambda>es. es \<noteq> []) b))"
proof (induction b arbitrary: lc t s)
  case (Cons a b)
  have "Max (insert (max lc (length a)) (length ` set b)) = Max (insert lc (insert (length a) (length ` set b)))"
    by (cases "set b = {}") (simp_all add: max.assoc)
  then show ?case using Cons by simp
qed simp

section \<open>The interface of a map from byte strings\<close>

locale byte_map =
  fixes ok :: "'m \<Rightarrow> bool" and look :: "'m \<Rightarrow> byte list \<Rightarrow> 'd option" and room :: "'m \<Rightarrow> bool"
    and get :: "'m \<Rightarrow> byte list \<Rightarrow> 'd option" and put :: "'m \<Rightarrow> byte list \<Rightarrow> 'd \<Rightarrow> 'm"
    and rem :: "'m \<Rightarrow> byte list \<Rightarrow> 'm" and keys :: "'m \<Rightarrow> byte list list" and size_of :: "'m \<Rightarrow> nat"
  assumes get_look: "ok m \<Longrightarrow> get m k = look m k"
    and put_look: "ok m \<Longrightarrow> room m \<or> look m k \<noteq> None \<Longrightarrow> ok (put m k d) \<and> look (put m k d) = (look m)(k \<mapsto> d)"
    and rem_look: "ok m \<Longrightarrow> ok (rem m k) \<and> look (rem m k) = (look m)(k := None)"
    and keys_look: "ok m \<Longrightarrow> distinct (keys m) \<and> set (keys m) = dom (look m)"
    and room_size: "ok m \<Longrightarrow> room m \<longleftrightarrow> size_of m < 2 ^ 32 - 1"
    and size_look: "ok m \<Longrightarrow> size_of m = card (dom (look m))"
begin

text \<open>Removing a list of keys one after another.\<close>

fun rem_all :: "'m \<Rightarrow> byte list list \<Rightarrow> 'm" where
  "rem_all m [] = m"
| "rem_all m (k # ks) = rem_all (rem m k) ks"

lemma rem_all_look:
  "ok m \<Longrightarrow> ok (rem_all m ks) \<and> look (rem_all m ks) = (\<lambda>k. if k \<in> set ks then None else look m k)"
proof (induction ks arbitrary: m)
  case (Cons k ks)
  from rem_look [OF Cons.prems, of k] have "ok (rem m k)" and l: "look (rem m k) = (look m)(k := None)" by auto
  from Cons.IH [OF this(1)] show ?case by (auto simp: l)
qed simp

text \<open>Changing the data of a list of keys that the map has; the map does not grow.\<close>

fun upd_all :: "'m \<Rightarrow> ('d \<Rightarrow> 'd) \<Rightarrow> byte list list \<Rightarrow> 'm" where
  "upd_all m f [] = m"
| "upd_all m f (k # ks) =
     upd_all (case get m k of None \<Rightarrow> m | Some d \<Rightarrow> put m k (f d)) f ks"

lemma upd_all_look:
  "ok m \<Longrightarrow> distinct ks \<Longrightarrow>
   ok (upd_all m f ks) \<and> look (upd_all m f ks) = (\<lambda>k. if k \<in> set ks then map_option f (look m k) else look m k)"
proof (induction ks arbitrary: m)
  case (Cons k ks)
  show ?case
  proof (cases "look m k")
    case None
    then show ?thesis using Cons.IH [OF Cons.prems(1)] Cons.prems by (auto simp: get_look)
  next
    case (Some d)
    then have P: "ok (put m k (f d))" "look (put m k (f d)) = (look m)(k \<mapsto> f d)"
      using put_look [OF Cons.prems(1), of k "f d"] by auto
    from Cons.IH [OF P(1)] Cons.prems Some P(2) show ?thesis by (auto simp: get_look)
  qed
qed simp

text \<open>A sequence of writes (a value) and removals (none), against the finite map.\<close>

fun run_ops :: "'m \<Rightarrow> (byte list \<times> 'd option) list \<Rightarrow> 'm" where
  "run_ops m [] = m"
| "run_ops m ((k, v) # ops) = run_ops (case v of Some d \<Rightarrow> put m k d | None \<Rightarrow> rem m k) ops"

lemma run_ops_look:
  "ok m \<Longrightarrow> size_of m + length ops < 2 ^ 32 \<Longrightarrow>
   ok (run_ops m ops) \<and> look (run_ops m ops) = foldl (\<lambda>f (k, v). f(k := v)) (look m) ops"
proof (induction ops arbitrary: m)
  case (Cons x ops)
  obtain k v where x: "x = (k, v)" by (cases x)
  let ?m = "case v of Some d \<Rightarrow> put m k d | None \<Rightarrow> rem m k"
  have r: "room m" using Cons.prems by (simp add: room_size)
  have P: "ok ?m" "look ?m = (look m)(k := v)"
    using put_look [OF Cons.prems(1), of k] rem_look [OF Cons.prems(1), of k] r by (cases v; simp)+
  have fin: "finite (dom (look m))" using keys_look [OF Cons.prems(1)] by (metis List.finite_set)
  have "card (dom ((look m)(k := v))) \<le> card (insert k (dom (look m)))"
    using fin by (intro card_mono) auto
  also have "\<dots> \<le> Suc (card (dom (look m)))" by (rule card_insert_le_m1) (simp_all add: card_insert_if fin)
  finally have "size_of ?m \<le> Suc (size_of m)" using size_look [OF P(1)] size_look [OF Cons.prems(1)] P(2) by simp
  then have "size_of ?m + length ops < 2 ^ 32" using Cons.prems(2) by simp
  from Cons.IH [OF P(1) this] P(2) show ?case by (simp add: x)
qed simp

end

interpretation hm: byte_map hm_ok view hm_room hm_Get hm_Set hm_Remove AllKeys "\<lambda>h. unat (hm_Count h)"
proof unfold_locales
  fix h :: "'d HashMap" and k d
  show "hm_ok h \<Longrightarrow> hm_Get h k = view h k" by (rule hm_Get_view)
  show "hm_ok h \<Longrightarrow> hm_room h \<or> view h k \<noteq> None \<Longrightarrow> hm_ok (hm_Set h k d) \<and> view (hm_Set h k d) = (view h)(k \<mapsto> d)"
    by (drule (1) hm_Set_spec [of h k d]) (elim conjE, rule conjI)
  show "hm_ok h \<Longrightarrow> hm_ok (hm_Remove h k) \<and> view (hm_Remove h k) = (view h)(k := None)"
    by (drule hm_Remove_spec [of h k]) (elim conjE, rule conjI)
  show "hm_ok h \<Longrightarrow> distinct (AllKeys h) \<and> set (AllKeys h) = dom (view h)" by (rule AllKeys_spec)
  show "hm_ok h \<Longrightarrow> hm_room h \<longleftrightarrow> unat (hm_Count h) < 2 ^ 32 - 1" by (simp add: hm_room_def hm_Count_def)
  show "hm_ok h \<Longrightarrow> unat (hm_Count h) = card (dom (view h))" by (rule hm_Count_spec)
qed

end
