(* ===== verification/NatsSublist.thy ===== *)
theory NatsSublist
  imports NatsHashMap
begin

text \<open>
  \<open>apcera/gnatsd/sublist/sublist.go\<close>: the subscription trie of the message broker, one level
  per token of a subject with hash maps for literal tokens and special nodes for the wildcards
  \<open>*\<close> (one token) and \<open>>\<close> (all remaining tokens), and the cache of match results in front of it.

  Nodes and levels are a nested datatype: every node of the code is reachable by one path
  only, so a pointer into the trie is the path to it, and the pointer tests of \<open>pruneNode\<close>
  ask which slot of its level a node came from. The operations hold the lock of the sublist
  and are atomic.
\<close>

section \<open>Data\<close>

datatype 'a node = Node (next_level: "'a level option") (subs: "'a list")
and 'a level = Level (nodes: "'a node HashMap") (pwc: "'a node option") (fwc: "'a node option")

record sl_stats =
  inserts :: u64
  removes :: u64
  matches_ctr :: u64
  cacheHits :: u64

record 'a Sublist =
  sl_root :: "'a level"
  sl_count :: u32
  sl_cache :: "'a list HashMap"
  cmax :: int
  sl_stats :: sl_stats

datatype sub_error = ErrInvalidSubject | ErrNotFound

definition newNode :: "'a node" where
  "newNode = Node None []"

definition newLevel :: "'a level" where
  "newLevel = Level (set_Hash FNV1A hm_New) None None"

definition defaultCacheMax :: int where "defaultCacheMax = 1024"

definition zero_stats :: sl_stats where
  "zero_stats = \<lparr>inserts = 0, removes = 0, matches_ctr = 0, cacheHits = 0\<rparr>"

definition sl_New :: "'a Sublist" where
  "sl_New = \<lparr>sl_root = newLevel, sl_count = 0, sl_cache = hm_New, cmax = defaultCacheMax, sl_stats = zero_stats\<rparr>"

text \<open>The bytes \<open>*\<close>, \<open>>\<close> and \<open>.\<close>\<close>

definition PWC :: byte where "PWC = 42"
definition FWC :: byte where "FWC = 62"
definition SEP :: byte where "SEP = 46"

text \<open>The loop of \<open>split\<close> with the token it is in, \<open>subject[start:i]\<close>.\<close>

fun split_loop :: "byte list \<Rightarrow> byte list \<Rightarrow> byte list list" where
  "split_loop cur [] = [cur]"
| "split_loop cur (b # bs) = (if b = SEP then cur # split_loop [] bs else split_loop (cur @ [b]) bs)"

definition split :: "byte list \<Rightarrow> byte list list" where
  "split subject = split_loop [] subject"

section \<open>Insert\<close>

text \<open>The switch on \<open>t[0]\<close>: the node of a token in a level, and its replacement.\<close>

definition slot_get :: "'a level \<Rightarrow> byte list \<Rightarrow> 'a node option" where
  "slot_get l t = (if hd t = PWC then pwc l else if hd t = FWC then fwc l else hm_Get (nodes l) t)"

definition slot_set :: "'a level \<Rightarrow> byte list \<Rightarrow> 'a node \<Rightarrow> 'a level" where
  "slot_set l t n =
     (if hd t = PWC then Level (nodes l) (Some n) (fwc l)
      else if hd t = FWC then Level (nodes l) (pwc l) (Some n)
      else Level (hm_Set (nodes l) t n) (pwc l) (fwc l))"

text \<open>
  The loop of \<open>Insert\<close> over the tokens with the append after it; the first component says
  whether the subject was valid. An invalid subject leaves the nodes made before the error.
\<close>

fun insert_loop :: "'a level \<Rightarrow> bool \<Rightarrow> byte list list \<Rightarrow> 'a \<Rightarrow> bool \<times> 'a level" where
  "insert_loop l sfwc [] sub = (True, l)"
| "insert_loop l sfwc (t # ts) sub =
     (if t = [] \<or> sfwc then (False, l)
      else
        let n = (case slot_get l t of None \<Rightarrow> newNode | Some n \<Rightarrow> n);
            nl = (case next_level n of None \<Rightarrow> newLevel | Some l1 \<Rightarrow> l1)
        in if ts = [] then (True, slot_set l t (Node (Some nl) (subs n @ [sub])))
           else
             (case insert_loop nl (hd t = FWC) ts sub of
                (ok, nl1) \<Rightarrow> (ok, slot_set l t (Node (Some nl1) (subs n)))))"

section \<open>The cache\<close>

text \<open>The inner loop of \<open>matchLiteral\<close> at a \<open>*\<close>: it ends one before the separator or the end.\<close>

function skip_token :: "byte list \<Rightarrow> int \<Rightarrow> int" where
  "skip_token literal li =
     (if li \<ge> int (length literal) \<or> literal ! nat li = SEP then li - 1 else skip_token literal (li + 1))"
  by pat_completeness auto
termination by (relation "measure (\<lambda>(l, li). nat (int (length l) - li))") auto

declare skip_token.simps [simp del]

fun literal_loop :: "byte list \<Rightarrow> byte list \<Rightarrow> int \<Rightarrow> bool" where
  "literal_loop literal [] li = (\<not> li < int (length literal) - 1)"
| "literal_loop literal (b # bs) li =
     (if li \<ge> int (length literal) then False
      else if b = PWC then literal_loop literal bs (skip_token literal li + 1)
      else if b = FWC then True
      else if b \<noteq> literal ! nat li then False
      else literal_loop literal bs (li + 1))"

definition matchLiteral :: "byte list \<Rightarrow> byte list \<Rightarrow> bool" where
  "matchLiteral literal subject = literal_loop literal subject 0"

fun add_loop :: "byte list \<Rightarrow> 'a \<Rightarrow> byte list list \<Rightarrow> 'a list HashMap \<Rightarrow> 'a list HashMap" where
  "add_loop subject sub [] c = c"
| "add_loop subject sub (k # ks) c =
     (if \<not> matchLiteral k subject then add_loop subject sub ks c
      else
        (case hm_Get c k of
           None \<Rightarrow> add_loop subject sub ks c
         | Some res \<Rightarrow> add_loop subject sub ks (hm_Set c k (res @ [sub]))))"

definition addToCache :: "byte list \<Rightarrow> 'a \<Rightarrow> 'a Sublist \<Rightarrow> 'a Sublist" where
  "addToCache subject sub s =
     (if hm_Count (sl_cache s) = 0 then s
      else s\<lparr>sl_cache := add_loop subject sub (AllKeys (sl_cache s)) (sl_cache s)\<rparr>)"

fun remove_keys :: "byte list \<Rightarrow> byte list list \<Rightarrow> 'a list HashMap \<Rightarrow> 'a list HashMap" where
  "remove_keys subject [] c = c"
| "remove_keys subject (k # ks) c =
     (if \<not> matchLiteral k subject then remove_keys subject ks c
      else remove_keys subject ks (hm_Remove c k))"

definition removeFromCache :: "byte list \<Rightarrow> 'a Sublist \<Rightarrow> 'a Sublist" where
  "removeFromCache subject s =
     (if hm_Count (sl_cache s) = 0 then s
      else s\<lparr>sl_cache := remove_keys subject (AllKeys (sl_cache s)) (sl_cache s)\<rparr>)"

definition sl_Insert :: "byte list \<Rightarrow> 'a \<Rightarrow> 'a Sublist \<Rightarrow> sub_error option \<times> 'a Sublist" where
  "sl_Insert subject sub s =
     (case insert_loop (sl_root s) False (split subject) sub of
        (False, r) \<Rightarrow> (Some ErrInvalidSubject, s\<lparr>sl_root := r\<rparr>)
      | (True, r) \<Rightarrow>
          let st = sl_stats s;
              s1 = s\<lparr>sl_root := r, sl_count := sl_count s + 1, sl_stats := st\<lparr>inserts := inserts st + 1\<rparr>\<rparr>
          in (None, addToCache subject sub s1))"

section \<open>Match\<close>

text \<open>\<open>matchLevel\<close>, its loop variables \<open>l\<close>, \<open>pwc\<close> and \<open>n\<close> as arguments.\<close>

definition subs_of :: "'a node option \<Rightarrow> 'a list" where
  "subs_of n = (case n of None \<Rightarrow> [] | Some x \<Rightarrow> subs x)"

fun matchLevel :: "'a level option \<Rightarrow> byte list list \<Rightarrow> 'a node option \<Rightarrow> 'a node option \<Rightarrow> 'a list \<Rightarrow> 'a list" where
  "matchLevel l [] p n results = results @ subs_of n @ subs_of p"
| "matchLevel None (t # ts) p n results = results"
| "matchLevel (Some l) (t # ts) p n results =
     (let r1 = results @ subs_of (fwc l);
          r2 = (case pwc l of None \<Rightarrow> r1 | Some q \<Rightarrow> matchLevel (next_level q) ts None None r1);
          n1 = hm_Get (nodes l) t
      in matchLevel (case n1 of None \<Rightarrow> None | Some x \<Rightarrow> next_level x) ts (pwc l) n1 r2)"

text \<open>\<open>Match\<close>; \<open>rnd\<close> is what \<open>rand.Int\<close> returns if the cache is full.\<close>

definition sl_Match :: "nat \<Rightarrow> byte list \<Rightarrow> 'a Sublist \<Rightarrow> ('a list \<times> 'a Sublist) option" where
  "sl_Match rnd subject s =
     (let st = sl_stats s; s1 = s\<lparr>sl_stats := st\<lparr>matches_ctr := matches_ctr st + 1\<rparr>\<rparr> in
      case hm_Get (sl_cache s1) subject of
        Some r \<Rightarrow>
          let st1 = sl_stats s1 in Some (r, s1\<lparr>sl_stats := st1\<lparr>cacheHits := cacheHits st1 + 1\<rparr>\<rparr>)
      | None \<Rightarrow>
          let results = matchLevel (Some (sl_root s1)) (split subject) None None [] in
          case (if int (unat (hm_Count (sl_cache s1))) \<ge> cmax s1 then RemoveRandom rnd (sl_cache s1)
                else Some (sl_cache s1)) of
            None \<Rightarrow> None
          | Some c \<Rightarrow> Some (results, s1\<lparr>sl_cache := hm_Set c subject results\<rparr>))"

section \<open>Remove\<close>

definition numNodes :: "'a level \<Rightarrow> u32" where
  "numNodes l =
     hm_Count (nodes l) + (if pwc l \<noteq> None then 1 else 0) + (if fwc l \<noteq> None then 1 else 0)"

definition isEmpty :: "'a node \<Rightarrow> bool" where
  "isEmpty n \<longleftrightarrow>
     subs n = [] \<and> (case next_level n of None \<Rightarrow> True | Some l \<Rightarrow> numNodes l = 0)"

definition pruneNode :: "'a level \<Rightarrow> byte list \<Rightarrow> 'a level" where
  "pruneNode l t =
     (if hd t = FWC then Level (nodes l) (pwc l) None
      else if hd t = PWC then Level (nodes l) None (fwc l)
      else Level (hm_Remove (nodes l) t) (pwc l) (fwc l))"

text \<open>\<open>removeFromNode\<close>: the list without the first occurrence, if there is one.\<close>

fun remove_first :: "'a \<Rightarrow> 'a list \<Rightarrow> 'a list option" where
  "remove_first sub [] = None"
| "remove_first sub (v # vs) = (if v = sub then Some vs else map_option (Cons v) (remove_first sub vs))"

definition removeFromNode :: "'a node option \<Rightarrow> 'a \<Rightarrow> 'a node option" where
  "removeFromNode n sub =
     (case n of None \<Rightarrow> None | Some x \<Rightarrow> map_option (Node (next_level x)) (remove_first sub (subs x)))"

text \<open>
  The loops of \<open>Remove\<close>: down along the tokens, then \<open>removeFromNode\<close> at the last node, then
  up again over the levels passed, where each node that has become empty is pruned.
\<close>

definition put_or_prune :: "'a level \<Rightarrow> byte list \<Rightarrow> 'a node \<Rightarrow> 'a level" where
  "put_or_prune l t n = (if isEmpty n then pruneNode l t else slot_set l t n)"

fun remove_loop :: "'a level option \<Rightarrow> bool \<Rightarrow> byte list list \<Rightarrow> 'a \<Rightarrow> sub_error + 'a level" where
  "remove_loop l sfwc [] sub = Inl ErrNotFound"
| "remove_loop None sfwc (t # ts) sub = (if t = [] \<or> sfwc then Inl ErrInvalidSubject else Inl ErrNotFound)"
| "remove_loop (Some l) sfwc (t # ts) sub =
     (if t = [] \<or> sfwc then Inl ErrInvalidSubject
      else if ts = [] then
        (case removeFromNode (slot_get l t) sub of
           None \<Rightarrow> Inl ErrNotFound
         | Some n \<Rightarrow> Inr (put_or_prune l t n))
      else
        (case remove_loop (case slot_get l t of None \<Rightarrow> None | Some n \<Rightarrow> next_level n) (hd t = FWC) ts sub of
           Inl e \<Rightarrow> Inl e
         | Inr l1 \<Rightarrow>
             (case slot_get l t of
                None \<Rightarrow> Inl ErrNotFound
              | Some n \<Rightarrow> Inr (put_or_prune l t (Node (Some l1) (subs n))))))"

definition sl_Remove :: "byte list \<Rightarrow> 'a \<Rightarrow> 'a Sublist \<Rightarrow> sub_error option \<times> 'a Sublist" where
  "sl_Remove subject sub s =
     (case remove_loop (Some (sl_root s)) False (split subject) sub of
        Inl e \<Rightarrow> (Some e, s)
      | Inr r \<Rightarrow>
          let st = sl_stats s;
              s1 = s\<lparr>sl_root := r, sl_count := sl_count s - 1, sl_stats := st\<lparr>removes := removes st + 1\<rparr>\<rparr>
          in (None, removeFromCache subject s1))"

section \<open>Subjects, statistics and depth\<close>

fun valid_literal_toks :: "byte list list \<Rightarrow> bool" where
  "valid_literal_toks [] = True"
| "valid_literal_toks (t # ts) =
     (if length t = 0 then False
      else if length t > 1 then valid_literal_toks ts
      else if hd t = PWC \<or> hd t = FWC then False
      else valid_literal_toks ts)"

definition IsValidLiteralSubject :: "byte list \<Rightarrow> bool" where
  "IsValidLiteralSubject subject = valid_literal_toks (split subject)"

definition sl_Count :: "'a Sublist \<Rightarrow> u32" where
  "sl_Count s = sl_count s"

text \<open>The statistics; the two \<open>float64\<close> quotients are given as their operands.\<close>

record sublist_stats =
  NumSubs :: u32
  NumCache :: u32
  NumInserts :: u64
  NumRemoves :: u64
  NumMatches :: u64
  CacheHitRate :: "u64 \<times> u64"
  MaxFanout :: u32
  AvgFanout :: "nat \<times> nat"

fun fanout_loop :: "'a list list \<Rightarrow> nat \<times> nat \<Rightarrow> nat \<times> nat" where
  "fanout_loop [] s = s"
| "fanout_loop (r # rs) (tot, mx) =
     (let l = length r in fanout_loop rs (tot + l, if l > mx then l else mx))"

definition sl_Stats :: "'a Sublist \<Rightarrow> sublist_stats" where
  "sl_Stats s =
     (let st = sl_stats s; allv = hm_All (sl_cache s); (tot, mx) = fanout_loop allv (0, 0) in
      \<lparr>NumSubs = sl_count s, NumCache = hm_Count (sl_cache s), NumInserts = inserts st,
       NumRemoves = removes st, NumMatches = matches_ctr st,
       CacheHitRate = (if matches_ctr st > 0 then (cacheHits st, matches_ctr st) else (0, 1)),
       MaxFanout = of_nat mx, AvgFanout = (tot, length allv)\<rparr>)"

definition ResetStats :: "'a Sublist \<Rightarrow> 'a Sublist" where
  "ResetStats s = s\<lparr>sl_stats := zero_stats\<rparr>"

text \<open>\<open>visitLevel\<close>; its recursion ends because nodes and levels are finite trees.\<close>

lemma size_hm_All: "n \<in> set (hm_All h) \<Longrightarrow> size n < size_HashMap size h"
proof (cases h)
  case (HashMap f b m u r)
  assume "n \<in> set (hm_All h)"
  then obtain es e where e: "es \<in> set b" "e \<in> set es" "n = data e" by (auto simp: hm_All_def HashMap)
  have "size n < size_Entry size e" by (cases e) (simp add: e(3))
  then have "size n < size_list (size_Entry size) es" by (rule size_list_estimation [OF e(2)])
  then have "size n < size_list (size_list (size_Entry size)) b" by (rule size_list_estimation [OF e(1)])
  then show ?thesis by (simp add: HashMap)
qed

definition bigger :: "int \<Rightarrow> int \<Rightarrow> int" where
  "bigger newDepth maxDepth = (if newDepth > maxDepth then newDepth else maxDepth)"

function visitLevel :: "'a level option \<Rightarrow> int \<Rightarrow> int" where
  "visitLevel None depth = depth"
| "visitLevel (Some l) depth =
     (if numNodes l = 0 then depth
      else
        let d = depth + 1;
            m = foldl (\<lambda>m n. bigger (visitLevel (next_level n) d) m) d (hm_All (nodes l));
            m = (case pwc l of None \<Rightarrow> m | Some q \<Rightarrow> bigger (visitLevel (next_level q) d) m)
        in (case fwc l of None \<Rightarrow> m | Some q \<Rightarrow> bigger (visitLevel (next_level q) d) m))"
  by pat_completeness auto
termination
proof (relation "measure (\<lambda>(l, _). case l of None \<Rightarrow> 0 | Some x \<Rightarrow> size x)", goal_cases)
  case (2 l depth d m n)
  then show ?case using size_hm_All [OF 2(3)] by (cases n; cases l; cases "next_level n") auto
next
  case (3 l depth d m q)
  then show ?case by (cases q; cases l; cases "next_level q") auto
next
  case (4 l depth d m m' q)
  then show ?case by (cases q; cases l; cases "next_level q") auto
qed auto

definition numLevels :: "'a Sublist \<Rightarrow> int" where
  "numLevels s = visitLevel (Some (sl_root s)) 0"

end
