(* ===== verification/NatsTrie.thy ===== *)
theory NatsTrie
  imports NatsSublist
begin

text \<open>
  What the trie of \<open>NatsSublist\<close> holds: \<open>subs_at\<close> gives the subscriptions filed under a
  pattern (a list of slots), \<open>level_ok b\<close> is the invariant of its levels (their hash maps are
  sound, have at most \<open>b\<close> entries and no wildcard as a key). Insert, remove and match are
  proved against \<open>subs_at\<close> and the matching relation \<open>pmatch\<close> of patterns and tokens.
\<close>

section \<open>Patterns\<close>

datatype slot = PW | FW | Lit "byte list"

definition slot_of :: "byte list \<Rightarrow> slot" where
  "slot_of t = (if hd t = PWC then PW else if hd t = FWC then FW else Lit t)"

definition pattern :: "byte list \<Rightarrow> slot list" where
  "pattern subject = map slot_of (split subject)"

text \<open>A subject that \<open>Insert\<close> accepts: no empty token, and nothing after a \<open>>\<close>.\<close>

fun valid_toks :: "bool \<Rightarrow> byte list list \<Rightarrow> bool" where
  "valid_toks sfwc [] = True"
| "valid_toks sfwc (t # ts) \<longleftrightarrow> t \<noteq> [] \<and> \<not> sfwc \<and> valid_toks (hd t = FWC) ts"

definition slot_node :: "'a level \<Rightarrow> slot \<Rightarrow> 'a node option" where
  "slot_node l s = (case s of PW \<Rightarrow> pwc l | FW \<Rightarrow> fwc l | Lit t \<Rightarrow> view (nodes l) t)"

fun subs_at :: "'a level \<Rightarrow> slot list \<Rightarrow> 'a list" where
  "subs_at l [] = []"
| "subs_at l (s # p) =
     (case slot_node l s of
        None \<Rightarrow> []
      | Some n \<Rightarrow> if p = [] then subs n else (case next_level n of None \<Rightarrow> [] | Some l1 \<Rightarrow> subs_at l1 p))"

definition lit_ok :: "slot \<Rightarrow> bool" where
  "lit_ok s \<longleftrightarrow> (case s of Lit t \<Rightarrow> t \<noteq> [] \<and> hd t \<noteq> PWC \<and> hd t \<noteq> FWC | _ \<Rightarrow> True)"

definition here_ok :: "nat \<Rightarrow> 'a level \<Rightarrow> bool" where
  "here_ok b l \<longleftrightarrow> hm_ok (nodes l) \<and> unat (used (nodes l)) \<le> b \<and>
     (\<forall>s. slot_node l s \<noteq> None \<longrightarrow> lit_ok s)"

inductive level_ok :: "nat \<Rightarrow> 'a level \<Rightarrow> bool" for b where
  level_okI: "here_ok b l \<Longrightarrow>
    (\<And>s n l1. slot_node l s = Some n \<Longrightarrow> next_level n = Some l1 \<Longrightarrow> level_ok b l1) \<Longrightarrow> level_ok b l"

inductive_simps level_ok_simps: "level_ok b l"

lemma level_okD:
  assumes "level_ok b l"
  shows "here_ok b l" "slot_node l s = Some n \<Longrightarrow> next_level n = Some l1 \<Longrightarrow> level_ok b l1"
    "hm_ok (nodes l)" "unat (used (nodes l)) \<le> b" "slot_node l s \<noteq> None \<Longrightarrow> lit_ok s"
  using assms level_ok_simps [of b l] by (auto simp: here_ok_def)

lemma level_ok_mono: "level_ok b l \<Longrightarrow> b \<le> c \<Longrightarrow> level_ok c l"
proof (induction rule: level_ok.induct)
  case (level_okI l)
  then show ?case by (rule_tac level_ok.level_okI) (simp_all add: here_ok_def)
qed

lemma FNV1A_map:
  fixes l :: "'a level" defines "l \<equiv> newLevel"
  shows "hm_ok (nodes l) \<and> view (nodes l) = Map.empty \<and> used (nodes l) = 0"
proof -
  have n: "nodes l = set_Hash FNV1A hm_New" by (simp add: l_def newLevel_def)
  show ?thesis unfolding n using set_Hash_empty hm_New_spec by blast
qed

lemma newLevel_slots [simp]: "slot_node newLevel s = None"
proof (cases s)
  case (Lit t)
  then show ?thesis using FNV1A_map [where 'a = 'a] by (simp add: slot_node_def)
qed (simp_all add: slot_node_def newLevel_def)

lemma newLevel_ok: "level_ok b (newLevel :: 'a level)"
proof (rule level_okI)
  show "here_ok b (newLevel :: 'a level)" using FNV1A_map [where 'a = 'a] by (simp add: here_ok_def)
qed simp

lemma subs_at_newLevel [simp]: "subs_at newLevel p = []"
  by (cases p) simp_all

section \<open>Slots\<close>

lemma slot_get_node: "level_ok b l \<Longrightarrow> slot_get l t = slot_node l (slot_of t)"
  using level_okD(3) [of b l] by (auto simp: slot_get_def slot_node_def slot_of_def hm_Get_view)

lemma lit_ok_slot_of: "t \<noteq> [] \<Longrightarrow> lit_ok (slot_of t)"
  by (simp add: lit_ok_def slot_of_def)

lemma slot_node_Level:
  "slot_node (Level h p f) s = (case s of PW \<Rightarrow> p | FW \<Rightarrow> f | Lit t \<Rightarrow> view h t)"
  by (simp add: slot_node_def split: slot.split)

lemma slot_set_node:
  assumes ok: "level_ok b l" and b: "b < 2 ^ 32 - 1" and t: "t \<noteq> []"
  shows "slot_node (slot_set l t n) = (slot_node l)(slot_of t \<mapsto> n)"
    and "here_ok (if slot_node l (slot_of t) = None then Suc b else b) (slot_set l t n)"
proof -
  have h: "hm_ok (nodes l)" and u: "unat (used (nodes l)) \<le> b" using level_okD(3,4) [OF ok] .
  have room: "hm_room (nodes l)" using u b by (simp add: hm_room_def)
  note S = hm_Set_spec [OF h disjI1 [OF room], of t n]
  show node: "slot_node (slot_set l t n) = (slot_node l)(slot_of t \<mapsto> n)"
  proof
    fix s show "slot_node (slot_set l t n) s = ((slot_node l)(slot_of t \<mapsto> n)) s"
      using S by (cases s) (auto simp: slot_set_def slot_of_def slot_node_def)
  qed
  have "used (nodes l) \<noteq> - 1" using u b by (auto simp: unsigned_minus_1_eq_mask mask_eq_exp_minus_1)
  then have "unat (used (nodes (slot_set l t n))) \<le> (if slot_node l (slot_of t) = None then Suc b else b)"
    using S u by (auto simp: slot_set_def slot_of_def slot_node_def unat_plus_one)
  moreover have "hm_ok (nodes (slot_set l t n))" using S h by (simp add: slot_set_def)
  moreover have "\<forall>s. slot_node (slot_set l t n) s \<noteq> None \<longrightarrow> lit_ok s"
    unfolding node using level_okD(5) [OF ok] lit_ok_slot_of [OF t] by simp
  ultimately show "here_ok (if slot_node l (slot_of t) = None then Suc b else b) (slot_set l t n)"
    by (simp add: here_ok_def)
qed

section \<open>Insert\<close>

lemma slot_set_ok:
  assumes ok: "level_ok b l" and b: "b < 2 ^ 32 - 1" and t: "t \<noteq> []"
    and n: "\<And>l1. next_level n = Some l1 \<Longrightarrow> level_ok (Suc b) l1"
  shows "level_ok (Suc b) (slot_set l t n)"
proof (rule level_okI)
  have "here_ok b' l' \<Longrightarrow> b' \<le> Suc b \<Longrightarrow> here_ok (Suc b) l'" for b' and l' :: "'a level" by (auto simp: here_ok_def)
  then show "here_ok (Suc b) (slot_set l t n)" using slot_set_node(2) [OF ok b t, of n] by (auto split: if_splits)
  fix s m l1 assume m: "slot_node (slot_set l t n) s = Some m" "next_level m = Some l1"
  show "level_ok (Suc b) l1"
  proof (cases "s = slot_of t")
    case True
    then show ?thesis using m n slot_set_node(1) [OF ok b t, of n] by simp
  next
    case False
    then have "slot_node l s = Some m" using m(1) slot_set_node(1) [OF ok b t, of n] by simp
    then show ?thesis using level_ok_mono [OF level_okD(2) [OF ok _ m(2)]] by simp
  qed
qed

lemma insert_loop_spec:
  "level_ok b l \<Longrightarrow> b < 2 ^ 32 - 1 \<Longrightarrow> ts \<noteq> [] \<Longrightarrow> insert_loop l sfwc ts sub = (ok, l') \<Longrightarrow>
   level_ok (Suc b) l' \<and> ok = valid_toks sfwc ts \<and>
   (\<forall>p. subs_at l' p = (if ok \<and> p = map slot_of ts then subs_at l p @ [sub] else subs_at l p))"
proof (induction ts arbitrary: l sfwc ok l')
  case (Cons t ts)
  note lo = Cons.prems(1) and b = Cons.prems(2)
  show ?case
  proof (cases "t = [] \<or> sfwc")
    case True
    then show ?thesis using Cons.prems(4) level_ok_mono [OF lo, of "Suc b"] by auto
  next
    case False
    then have t: "t \<noteq> []" and s: "\<not> sfwc" by simp_all
    let ?n = "case slot_get l t of None \<Rightarrow> newNode | Some n \<Rightarrow> n"
    let ?nl = "case next_level ?n of None \<Rightarrow> newLevel | Some l1 \<Rightarrow> l1"
    have n: "?n = (case slot_node l (slot_of t) of None \<Rightarrow> newNode | Some n \<Rightarrow> n)"
      by (simp add: slot_get_node [OF lo])
    have nl: "level_ok b ?nl"
      using level_okD(2) [OF lo, of "slot_of t"] newLevel_ok
      by (auto simp: slot_get_node [OF lo] newNode_def split: option.splits)
    have sub0: "subs_at ?nl q = (case slot_node l (slot_of t) of None \<Rightarrow> []
        | Some n \<Rightarrow> (case next_level n of None \<Rightarrow> [] | Some l1 \<Rightarrow> subs_at l1 q))" for q
      by (auto simp: slot_get_node [OF lo] newNode_def split: option.splits)
    have sn: "subs ?n = (case slot_node l (slot_of t) of None \<Rightarrow> [] | Some n \<Rightarrow> subs n)"
      by (auto simp: slot_get_node [OF lo] newNode_def split: option.splits)
    show ?thesis
    proof (cases "ts = []")
      case True
      then have r: "ok" "l' = slot_set l t (Node (Some ?nl) (subs ?n @ [sub]))"
        using Cons.prems(4) t s by (simp_all add: Let_def)
      have lo': "level_ok (Suc b) l'"
        unfolding r(2) by (rule slot_set_ok [OF lo b t]) (simp add: level_ok_mono [OF nl])
      have "subs_at l' p = (if p = [slot_of t] then subs_at l p @ [sub] else subs_at l p)" for p
        using slot_set_node(1) [OF lo b t] sub0 sn
        by (cases p) (auto simp: r(2) split: option.splits)
      then show ?thesis using lo' r(1) True t s by simp
    next
      case ne: False
      obtain ok1 nl1 where i: "insert_loop ?nl (hd t = FWC) ts sub = (ok1, nl1)" by (rule prod.exhaust)
      then have r: "ok = ok1" "l' = slot_set l t (Node (Some nl1) (subs ?n))"
        using Cons.prems(4) t s ne by (simp_all add: Let_def)
      from Cons.IH [OF nl b ne i] have IH: "level_ok (Suc b) nl1" "ok1 = valid_toks (hd t = FWC) ts"
        "\<And>p. subs_at nl1 p = (if ok1 \<and> p = map slot_of ts then subs_at ?nl p @ [sub] else subs_at ?nl p)" by auto
      have lo': "level_ok (Suc b) l'"
        unfolding r(2) by (rule slot_set_ok [OF lo b t]) (simp add: IH(1))
      have "subs_at l' p = (if ok \<and> p = slot_of t # map slot_of ts then subs_at l p @ [sub] else subs_at l p)" for p
        using slot_set_node(1) [OF lo b t] sub0 sn IH(3) ne
        by (cases p) (auto simp: r split: option.splits)
      then show ?thesis using lo' IH(2) r(1) t s by simp
    qed
  qed
qed simp

section \<open>Match\<close>

text \<open>A pattern matches tokens one by one; a \<open>>\<close> takes one or more and ends the pattern.\<close>

fun pmatch :: "slot list \<Rightarrow> byte list list \<Rightarrow> bool" where
  "pmatch [] ts \<longleftrightarrow> ts = []"
| "pmatch (FW # p) ts \<longleftrightarrow> p = [] \<and> ts \<noteq> []"
| "pmatch (PW # p) ts \<longleftrightarrow> (case ts of [] \<Rightarrow> False | _ # us \<Rightarrow> pmatch p us)"
| "pmatch (Lit t # p) ts \<longleftrightarrow> (case ts of [] \<Rightarrow> False | u # us \<Rightarrow> u = t \<and> pmatch p us)"

text \<open>All patterns that match given tokens.\<close>

fun patterns :: "byte list list \<Rightarrow> slot list list" where
  "patterns [] = []"
| "patterns (t # ts) =
     [FW] # (if ts = [] then [[PW], [Lit t]] else map (Cons PW) (patterns ts) @ map (Cons (Lit t)) (patterns ts))"

lemma patterns_nonempty: "p \<in> set (patterns ts) \<Longrightarrow> p \<noteq> []"
  by (induction ts) (auto split: if_splits)

lemma set_patterns: "ts \<noteq> [] \<Longrightarrow> p \<in> set (patterns ts) \<longleftrightarrow> pmatch p ts"
proof (induction ts arbitrary: p)
  case (Cons t ts)
  show ?case
  proof (cases p)
    case (Cons s q)
    show ?thesis
    proof (cases "ts = []")
      case True
      then show ?thesis using Cons by (cases s) (auto elim: pmatch.elims)
    next
      case False
      then show ?thesis using Cons.IH [OF False, of q] Cons by (cases s) auto
    qed
  qed (use patterns_nonempty in force)
qed simp

lemma distinct_patterns: "distinct (patterns ts)"
  by (induction ts) (auto simp: distinct_map inj_on_def dest: patterns_nonempty)

definition all_subs :: "'a level option \<Rightarrow> byte list list \<Rightarrow> 'a multiset" where
  "all_subs lo ts = (case lo of None \<Rightarrow> {#} | Some l \<Rightarrow> mset (concat (map (subs_at l) (patterns ts))))"

lemma subs_at_step:
  "subs_at l [s] = subs_of (slot_node l s)"
  "q \<noteq> [] \<Longrightarrow> subs_at l (s # q) = (case slot_node l s of None \<Rightarrow> [] | Some n \<Rightarrow>
     (case next_level n of None \<Rightarrow> [] | Some l1 \<Rightarrow> subs_at l1 q))"
  by (simp_all add: subs_of_def split: option.splits)

lemma concat_step:
  assumes "\<And>q. q \<in> set ps \<Longrightarrow> q \<noteq> []"
  shows "concat (map (subs_at l) (map (Cons s) ps)) =
    (case slot_node l s of None \<Rightarrow> [] | Some n \<Rightarrow>
       (case next_level n of None \<Rightarrow> [] | Some l1 \<Rightarrow> concat (map (subs_at l1) ps)))"
  using assms by (induction ps) (auto simp: subs_at_step split: option.splits)

lemma all_subs_Cons:
  "ts \<noteq> [] \<Longrightarrow> all_subs (Some l) (t # ts) = mset (subs_of (fwc l)) +
     (case pwc l of None \<Rightarrow> {#} | Some n \<Rightarrow> all_subs (next_level n) ts) +
     (case view (nodes l) t of None \<Rightarrow> {#} | Some n \<Rightarrow> all_subs (next_level n) ts)"
  using concat_step [of "patterns ts" l PW] concat_step [of "patterns ts" l "Lit t"] patterns_nonempty
  by (auto simp: all_subs_def slot_node_def subs_of_def split: option.splits)

lemma all_subs_single:
  "all_subs (Some l) [t] = mset (subs_of (fwc l)) + mset (subs_of (pwc l)) + mset (subs_of (view (nodes l) t))"
  by (simp add: all_subs_def slot_node_def subs_of_def split: option.split)

lemma matchLevel_spec:
  "(\<And>l. lo = Some l \<Longrightarrow> level_ok b l) \<Longrightarrow>
   mset (matchLevel lo ts p n results) = mset results +
     (if ts = [] then mset (subs_of n) + mset (subs_of p) else all_subs lo ts)"
proof (induction lo ts p n results rule: matchLevel.induct)
  case (3 l t ts p n results)
  have lo: "level_ok b l" using "3.prems" by simp
  let ?r1 = "results @ subs_of (fwc l)" and ?n1 = "hm_Get (nodes l) t"
  let ?r2 = "case pwc l of None \<Rightarrow> ?r1 | Some q \<Rightarrow> matchLevel (next_level q) ts None None ?r1"
  have v: "?n1 = view (nodes l) t" by (rule hm_Get_view [OF level_okD(3) [OF lo]])
  have r2: "mset ?r2 = mset ?r1 + (case pwc l of None \<Rightarrow> {#} | Some q \<Rightarrow> (if ts = [] then {#} else all_subs (next_level q) ts))"
  proof (cases "pwc l")
    case (Some q)
    have "level_ok b l1" if "next_level q = Some l1" for l1
      using level_okD(2) [OF lo, of PW q] that Some by (simp add: slot_node_def)
    from "3.IH"(1) [OF refl Some this] show ?thesis using Some by (simp add: subs_of_def)
  qed simp
  have n1: "level_ok b l1" if "(case ?n1 of None \<Rightarrow> None | Some x \<Rightarrow> next_level x) = Some l1" for l1
    using that level_okD(2) [OF lo, of "Lit t"] v by (auto simp: slot_node_def split: option.splits)
  from "3.IH"(2) [OF refl refl refl n1]
  have e: "mset (matchLevel (case ?n1 of None \<Rightarrow> None | Some x \<Rightarrow> next_level x) ts (pwc l) ?n1 ?r2) =
      mset ?r2 + (if ts = [] then mset (subs_of ?n1) + mset (subs_of (pwc l))
        else all_subs (case ?n1 of None \<Rightarrow> None | Some x \<Rightarrow> next_level x) ts)" by simp
  show ?case
  proof (cases "ts = []")
    case True
    have "mset (matchLevel (Some l) (t # ts) p n results) =
        mset results + (mset (subs_of (fwc l)) + mset (subs_of (pwc l)) + mset (subs_of ?n1))"
      using e r2 True by (simp add: Let_def split: option.splits)
    then show ?thesis using True v by (simp add: all_subs_single)
  next
    case False
    have "mset (matchLevel (Some l) (t # ts) p n results) = mset ?r2 +
        all_subs (case ?n1 of None \<Rightarrow> None | Some x \<Rightarrow> next_level x) ts"
      using e False by (simp add: Let_def)
    also have "all_subs (case ?n1 of None \<Rightarrow> None | Some x \<Rightarrow> next_level x) ts =
        (case ?n1 of None \<Rightarrow> {#} | Some x \<Rightarrow> all_subs (next_level x) ts)"
      by (simp add: all_subs_def split: option.split)
    finally show ?thesis using False r2 v by (simp add: all_subs_Cons split: option.splits)
  qed
qed (auto simp: all_subs_def)

section \<open>Remove\<close>

lemma remove_first_spec:
  "remove_first sub vs = (if sub \<in> set vs then Some (remove1 sub vs) else None)"
  by (induction vs) auto

text \<open>The count of \<open>numNodes\<close> does not wrap as long as the maps are small.\<close>

lemma numNodes_0:
  assumes ok: "level_ok b l" and b: "b < 2 ^ 32 - 3"
  shows "numNodes l = 0 \<longleftrightarrow> (\<forall>s. slot_node l s = None)"
proof -
  let ?c = "unat (used (nodes l))"
  have u: "?c \<le> b" and h: "hm_ok (nodes l)" using level_okD(3,4) [OF ok] by simp_all
  have "finite (dom (view (nodes l)))" using AllKeys_spec [OF h] by (metis List.finite_set)
  then have "?c = 0 \<longleftrightarrow> dom (view (nodes l)) = {}"
    using hm_Count_spec [OF h] unfolding hm_Count_def by (metis card_eq_0_iff)
  then have c0: "?c = 0 \<longleftrightarrow> (\<forall>t. view (nodes l) t = None)" by (simp add: dom_eq_empty_conv fun_eq_iff)
  let ?k = "(if pwc l \<noteq> None then 1 else 0) + (if fwc l \<noteq> None then 1 else 0) :: nat"
  have nn: "numNodes l = of_nat (?c + ?k)" by (simp add: numNodes_def hm_Count_def)
  have "?c + ?k < 2 ^ 32" using u b by (auto split: if_splits)
  then have "?c + ?k < 2 ^ LENGTH(32)" by simp
  with nn have "unat (numNodes l) = ?c + ?k"
    by (intro of_nat_inverse [OF sym])
  then have "numNodes l = 0 \<longleftrightarrow> ?c + ?k = 0" by (metis unat_eq_zero)
  also have "\<dots> \<longleftrightarrow> (\<forall>s. slot_node l s = None)"
  proof
    assume "?c + ?k = 0"
    then have "?c = 0" "pwc l = None" "fwc l = None" by (auto split: if_splits)
    then show "\<forall>s. slot_node l s = None" using c0 by (simp add: slot_node_def split: slot.split)
  next
    assume a: "\<forall>s. slot_node l s = None"
    have "view (nodes l) t = None" for t using a [rule_format, of "Lit t"] by (simp add: slot_node_def)
    then have "?c = 0" using c0 by blast
    moreover have "pwc l = None" "fwc l = None" using a [rule_format, of PW] a [rule_format, of FW]
      by (simp_all add: slot_node_def)
    ultimately show "?c + ?k = 0" by simp
  qed
  finally show ?thesis .
qed

lemma put_or_prune_node:
  assumes ok: "level_ok b l" and b: "b < 2 ^ 32 - 3" and t: "t \<noteq> []"
  shows "slot_node (put_or_prune l t n) = (slot_node l)(slot_of t := (if isEmpty n then None else Some n))"
proof (cases "isEmpty n")
  case True
  have h: "hm_ok (nodes l)" by (rule level_okD(3) [OF ok])
  have "slot_node (pruneNode l t) s = ((slot_node l)(slot_of t := None)) s" for s
    using hm_Remove_spec [OF h, of t] by (cases s) (auto simp: pruneNode_def slot_of_def slot_node_def PWC_def FWC_def)
  then show ?thesis using True by (auto simp: put_or_prune_def)
next
  case False
  then show ?thesis using slot_set_node(1) [OF ok _ t] b by (simp add: put_or_prune_def)
qed

lemma subs_at_empty: "(\<And>s. slot_node l s = None) \<Longrightarrow> subs_at l p = []"
  by (cases p) simp_all

lemma put_or_prune_subs:
  assumes ok: "level_ok b l" and b: "b < 2 ^ 32 - 3" and t: "t \<noteq> []"
    and n: "\<And>l1. next_level n = Some l1 \<Longrightarrow> level_ok b l1"
  shows "subs_at (put_or_prune l t n) (s # q) =
    (if s = slot_of t then (if q = [] then subs n else (case next_level n of None \<Rightarrow> [] | Some l1 \<Rightarrow> subs_at l1 q))
     else subs_at l (s # q))"
proof (cases "isEmpty n")
  case True
  have "subs n = []" and "(case next_level n of None \<Rightarrow> [] | Some l1 \<Rightarrow> subs_at l1 q) = []"
    using True subs_at_empty numNodes_0 [OF n b] by (auto simp: isEmpty_def split: option.splits)
  then show ?thesis using put_or_prune_node [OF ok b t, of n] True by simp
next
  case False
  then show ?thesis using put_or_prune_node [OF ok b t, of n] by simp
qed

lemma put_or_prune_ok:
  assumes ok: "level_ok b l" and b: "b < 2 ^ 32 - 3" and t: "t \<noteq> []" and old: "slot_node l (slot_of t) \<noteq> None"
    and n: "\<And>l1. next_level n = Some l1 \<Longrightarrow> level_ok b l1"
  shows "level_ok b (put_or_prune l t n)"
proof (rule level_okI)
  note N = put_or_prune_node [OF ok b t, of n]
  have h: "hm_ok (nodes l)" and u: "unat (used (nodes l)) \<le> b" using level_okD(3,4) [OF ok] .
  note R = hm_Remove_spec [OF h, of t]
  show "here_ok b (put_or_prune l t n)"
  proof (cases "isEmpty n")
    case True
    have "unat (used (nodes (pruneNode l t))) \<le> b"
    proof (cases "slot_of t = Lit t")
      case lit: True
      then have "view (nodes l) t \<noteq> None" using old by (simp add: slot_node_def)
      then have "unat (used (nodes l)) > 0"
        using hm_Count_spec [OF h] AllKeys_spec [OF h] by (auto simp: hm_Count_def card_gt_0_iff dom_def) (metis List.finite_set dom_def)
      then have "unat (used (nodes l) - 1) = unat (used (nodes l)) - 1" by (intro unat_minus_one) auto
      then show ?thesis using R u by (auto simp: pruneNode_def)
    qed (use u in \<open>auto simp: pruneNode_def slot_of_def split: if_splits\<close>)
    moreover have "hm_ok (nodes (pruneNode l t))" using h R by (simp add: pruneNode_def)
    moreover have "\<forall>s. slot_node (pruneNode l t) s \<noteq> None \<longrightarrow> lit_ok s"
      using N level_okD(5) [OF ok] True by (auto simp: put_or_prune_def)
    ultimately show ?thesis using True by (simp add: here_ok_def put_or_prune_def)
  next
    case False
    have "b < 2 ^ 32 - 1" using b by simp
    from slot_set_node(2) [OF ok this t, of n] old False show ?thesis by (simp add: put_or_prune_def)
  qed
  fix s m l1 assume m: "slot_node (put_or_prune l t n) s = Some m" "next_level m = Some l1"
  show "level_ok b l1"
    using m n N level_okD(2) [OF ok _ m(2)] by (cases "s = slot_of t") (auto split: if_splits)
qed

definition subs_in :: "'a level option \<Rightarrow> slot list \<Rightarrow> 'a list" where
  "subs_in lo p = (case lo of None \<Rightarrow> [] | Some l \<Rightarrow> subs_at l p)"

lemma remove_loop_invalid: "\<not> valid_toks sfwc ts \<Longrightarrow> \<exists>e. remove_loop lo sfwc ts sub = Inl e"
proof (induction lo sfwc ts sub rule: remove_loop.induct)
  case (3 l sfwc t ts sub)
  show ?case
  proof (cases "t = [] \<or> sfwc")
    case False
    then have "ts \<noteq> []" "\<not> valid_toks (hd t = FWC) ts" using "3.prems" by (auto split: if_splits)
    from "3.IH" [OF False this] this False show ?thesis by (auto split: option.splits)
  qed simp
qed simp_all

lemma remove_loop_spec:
  "(\<And>l. lo = Some l \<Longrightarrow> level_ok b l) \<Longrightarrow> b < 2 ^ 32 - 3 \<Longrightarrow> ts \<noteq> [] \<Longrightarrow> valid_toks sfwc ts \<Longrightarrow>
   (if sub \<in> set (subs_in lo (map slot_of ts)) then
      \<exists>l'. remove_loop lo sfwc ts sub = Inr l' \<and> level_ok b l' \<and>
        (\<forall>p. subs_at l' p = (if p = map slot_of ts then remove1 sub (subs_in lo p) else subs_in lo p))
    else remove_loop lo sfwc ts sub = Inl ErrNotFound)"
proof (induction lo sfwc ts sub rule: remove_loop.induct)
  case (3 l sfwc t ts sub)
  have lo: "level_ok b l" and b: "b < 2 ^ 32 - 3" using "3.prems" by simp_all
  have t: "t \<noteq> []" and s: "\<not> sfwc" and v: "valid_toks (hd t = FWC) ts" using "3.prems"(4) by simp_all
  have g: "slot_get l t = slot_node l (slot_of t)" by (rule slot_get_node [OF lo])
  show ?case
  proof (cases "ts = []")
    case True
    show ?thesis
    proof (cases "slot_node l (slot_of t)")
      case None
      then show ?thesis using True t s g by (simp add: subs_in_def removeFromNode_def)
    next
      case (Some n)
      let ?n = "Node (next_level n) (remove1 sub (subs n))"
      have nx: "level_ok b l1" if "next_level ?n = Some l1" for l1
        using level_okD(2) [OF lo Some] that by simp
      show ?thesis
      proof (cases "sub \<in> set (subs n)")
        case in_n: True
        have r: "remove_loop (Some l) sfwc (t # ts) sub = Inr (put_or_prune l t ?n)"
          using True t s g Some in_n by (simp add: removeFromNode_def remove_first_spec)
        have old: "slot_node l (slot_of t) \<noteq> None" using Some by simp
        have P: "subs_at (put_or_prune l t ?n) (x # q) =
            (if x = slot_of t then (if q = [] then subs ?n else (case next_level ?n of None \<Rightarrow> [] | Some l1 \<Rightarrow> subs_at l1 q))
             else subs_at l (x # q))" for x q
          by (rule put_or_prune_subs [OF lo b t]) (rule nx)
        have ok1: "level_ok b (put_or_prune l t ?n)"
          by (rule put_or_prune_ok [OF lo b t old]) (rule nx)
        have "subs_at (put_or_prune l t ?n) p = (if p = [slot_of t] then remove1 sub (subs_at l p) else subs_at l p)" for p
        proof (cases p)
          case (Cons x q)
          show ?thesis unfolding Cons P using Some by auto
        qed simp
        then show ?thesis using ok1 r in_n Some True by (simp add: subs_in_def)
      next
        case False
        then show ?thesis using True t s g Some by (simp add: removeFromNode_def remove_first_spec subs_in_def)
      qed
    qed
  next
    case ne: False
    let ?lo = "case slot_get l t of None \<Rightarrow> None | Some n \<Rightarrow> next_level n"
    have nx: "level_ok b l1" if "?lo = Some l1" for l1
      using that level_okD(2) [OF lo] g by (auto split: option.splits)
    have c: "\<not> (t = [] \<or> sfwc)" using t s by simp
    note IH = "3.IH" [OF c ne nx b ne v]
    have si: "subs_in (Some l) (slot_of t # q) = subs_in ?lo q" if "q \<noteq> []" for q
      using that g by (auto simp: subs_in_def split: option.splits)
    show ?thesis
    proof (cases "sub \<in> set (subs_in ?lo (map slot_of ts))")
      case True
      with IH obtain l1 where l1: "remove_loop ?lo (hd t = FWC) ts sub = Inr l1" "level_ok b l1"
        "\<And>p. subs_at l1 p = (if p = map slot_of ts then remove1 sub (subs_in ?lo p) else subs_in ?lo p)" by auto
      obtain n where n: "slot_node l (slot_of t) = Some n"
        using True g by (cases "slot_node l (slot_of t)") (auto simp: subs_in_def)
      let ?n = "Node (Some l1) (subs n)"
      have old: "slot_node l (slot_of t) \<noteq> None" using n by simp
      have nl: "level_ok b l2" if "next_level ?n = Some l2" for l2 using that l1(2) by simp
      have P: "subs_at (put_or_prune l t ?n) (x # q) =
          (if x = slot_of t then (if q = [] then subs ?n else (case next_level ?n of None \<Rightarrow> [] | Some l1 \<Rightarrow> subs_at l1 q))
           else subs_at l (x # q))" for x q
        by (rule put_or_prune_subs [OF lo b t]) (rule nl)
      have ok1: "level_ok b (put_or_prune l t ?n)"
        by (rule put_or_prune_ok [OF lo b t old]) (rule nl)
      have r: "remove_loop (Some l) sfwc (t # ts) sub = Inr (put_or_prune l t ?n)"
        using t s ne l1(1) g n by simp
      have "subs_at (put_or_prune l t ?n) p =
          (if p = slot_of t # map slot_of ts then remove1 sub (subs_in (Some l) p) else subs_in (Some l) p)" for p
      proof (cases p)
        case (Cons x q)
        show ?thesis
        proof (cases "q = []")
          case True
          have "subs_at (put_or_prune l t ?n) p = (if x = slot_of t then subs n else subs_at l p)"
            unfolding Cons P using True by simp
          then show ?thesis using n Cons ne True by (auto simp: subs_in_def)
        next
          case False
          have "subs_at (put_or_prune l t ?n) p = (if x = slot_of t then subs_at l1 q else subs_at l p)"
            unfolding Cons P using False by simp
          then show ?thesis using l1(3) [of q] si [OF False] Cons by (auto simp: subs_in_def)
        qed
      qed (simp add: subs_in_def)
      then show ?thesis using r ok1 True si [of "map slot_of ts"] ne by simp
    next
      case False
      then show ?thesis using IH t s ne si [of "map slot_of ts"] by simp
    qed
  qed
qed (auto simp: subs_in_def)

end
