(* ===== verification/NatsLiteral.thy ===== *)
theory NatsLiteral
  imports NatsTrie
begin

text \<open>
  \<open>matchLiteral\<close>, which decides the cache entries that a change touches, against the matching
  of the trie. For subjects whose tokens are either a wildcard or free of wildcard bytes, and
  literals without empty tokens, it says yes exactly when the literal matches, or when the
  literal without its last byte does: its last test is off by one.
\<close>

section \<open>Splitting and joining\<close>

fun join :: "byte list list \<Rightarrow> byte list" where
  "join [] = []"
| "join [t] = t"
| "join (t # u # ts) = t @ SEP # join (u # ts)"

lemma split_loop_free: "SEP \<notin> set t \<Longrightarrow> split_loop cur (t @ rest) = split_loop (cur @ t) rest"
  by (induction t arbitrary: cur) auto

lemma split_free [simp]: "SEP \<notin> set t \<Longrightarrow> split t = [t]"
  using split_loop_free [of t "[]" "[]"] by (simp add: split_def)

lemma split_SEP [simp]: "SEP \<notin> set t \<Longrightarrow> split (t @ SEP # rest) = t # split rest"
  using split_loop_free [of t "[]" "SEP # rest"] by (simp add: split_def)

lemma split_cases:
  obtains "SEP \<notin> set L" "split L = [L]"
    | v R where "L = v @ SEP # R" "SEP \<notin> set v" "split L = v # split R"
proof (cases "SEP \<in> set L")
  case True
  then obtain v R where "L = v @ SEP # R" "SEP \<notin> set v" by (meson split_list_first)
  then show ?thesis using that(2) by simp
qed (use that(1) in simp)

lemma split_nonempty [simp]: "split L \<noteq> []"
  by (rule split_cases [of L]) simp_all

lemma join_Cons: "ts \<noteq> [] \<Longrightarrow> join (t # ts) = t @ SEP # join ts"
  by (cases ts) simp_all

lemma join_split [simp]: "join (split L) = L"
proof (induction "length L" arbitrary: L rule: less_induct)
  case less
  show ?case
  proof (rule split_cases [of L])
    fix v R assume "L = v @ SEP # R" "SEP \<notin> set v" "split L = v # split R"
    then show ?thesis using less [of R] by (simp add: join_Cons)
  qed simp
qed

lemma split_no_SEP: "t \<in> set (split L) \<Longrightarrow> SEP \<notin> set t"
proof (induction "length L" arbitrary: L rule: less_induct)
  case less
  show ?case
  proof (rule split_cases [of L])
    fix v R assume "L = v @ SEP # R" "SEP \<notin> set v" "split L = v # split R"
    then show ?thesis using less(1) [of R] less(2) by auto
  qed (use less(2) in simp)
qed

section \<open>The loop on the rest of the literal\<close>

fun lit_match :: "byte list \<Rightarrow> byte list \<Rightarrow> bool" where
  "lit_match R [] = (length R \<le> 1)"
| "lit_match R (b # bs) =
     (if R = [] then False
      else if b = PWC then lit_match (dropWhile (\<lambda>c. c \<noteq> SEP) R) bs
      else if b = FWC then True
      else b = hd R \<and> lit_match (tl R) bs)"

lemma skip_token_rest:
  "i \<le> length L \<Longrightarrow> \<exists>j. skip_token L (int i) + 1 = int j \<and> i \<le> j \<and> j \<le> length L \<and>
     drop j L = dropWhile (\<lambda>c. c \<noteq> SEP) (drop i L)"
proof (induction "length L - i" arbitrary: i)
  case 0
  then show ?case by (intro exI [of _ i]) (subst skip_token.simps, simp)
next
  case (Suc n)
  then have i: "i < length L" by simp
  then have d: "drop i L = L ! i # drop (Suc i) L" by (simp add: Cons_nth_drop_Suc)
  show ?case
  proof (cases "L ! i = SEP")
    case True
    then show ?thesis using i d by (intro exI [of _ i]) (subst skip_token.simps, simp)
  next
    case False
    have "n = length L - Suc i" "Suc i \<le> length L" using Suc.hyps(2) i by simp_all
    from Suc.hyps(1) [OF this] obtain j where
      j: "skip_token L (int (Suc i)) + 1 = int j" "Suc i \<le> j" "j \<le> length L"
      "drop j L = dropWhile (\<lambda>c. c \<noteq> SEP) (drop (Suc i) L)" by blast
    have "skip_token L (int i) = skip_token L (int (Suc i))"
      using False i by (subst skip_token.simps) (simp add: add.commute)
    then show ?thesis using j d False by (intro exI [of _ j]) simp
  qed
qed

lemma literal_loop_rest: "i \<le> length L \<Longrightarrow> literal_loop L S (int i) = lit_match (drop i L) S"
proof (induction S arbitrary: i)
  case Nil
  then show ?case by auto
next
  case (Cons b bs)
  show ?case
  proof (cases "i < length L")
    case True
    then have d: "drop i L = L ! i # drop (Suc i) L" by (simp add: Cons_nth_drop_Suc)
    from skip_token_rest [OF Cons.prems] obtain j where
      j: "skip_token L (int i) + 1 = int j" "j \<le> length L"
      "drop j L = dropWhile (\<lambda>c. c \<noteq> SEP) (drop i L)" by blast
    have "literal_loop L bs (int i + 1) = lit_match (drop (Suc i) L) bs"
      using Cons.IH [of "Suc i"] True by (simp add: add.commute)
    then show ?thesis using Cons.IH [OF j(2)] j(1,3) True d by (simp del: of_nat_Suc)
  qed (use Cons.prems in simp)
qed

lemma matchLiteral_rest: "matchLiteral L S = lit_match L S"
  using literal_loop_rest [of 0 L S] by (simp add: matchLiteral_def)

section \<open>Against the patterns\<close>

definition clean_tok :: "byte list \<Rightarrow> bool" where
  "clean_tok t \<longleftrightarrow> t \<noteq> [] \<and> (t = [PWC] \<or> t = [FWC] \<or> PWC \<notin> set t \<and> FWC \<notin> set t)"

text \<open>The subjects of well-behaved subscribers: clean tokens and a \<open>>\<close> only at the end.\<close>

definition clean :: "byte list \<Rightarrow> bool" where
  "clean S \<longleftrightarrow> valid_toks False (split S) \<and> list_all clean_tok (split S)"

definition no_empty :: "byte list \<Rightarrow> bool" where
  "no_empty L \<longleftrightarrow> [] \<notin> set (split L)"

lemma bytes_distinct [simp]: "PWC \<noteq> FWC" "FWC \<noteq> PWC" "SEP \<noteq> PWC" "SEP \<noteq> FWC" "PWC \<noteq> SEP" "FWC \<noteq> SEP"
  by (simp_all add: PWC_def FWC_def SEP_def)

lemma lit_match_literal:
  "PWC \<notin> set t \<Longrightarrow> FWC \<notin> set t \<Longrightarrow> lit_match R (t @ S) \<longleftrightarrow> (\<exists>R'. R = t @ R' \<and> lit_match R' S)"
proof (induction t arbitrary: R)
  case (Cons b t)
  then show ?case by (cases R) auto
qed simp

lemma pmatch_Nil: "pmatch p [] \<longleftrightarrow> p = []"
proof (cases p)
  case (Cons s q)
  then show ?thesis by (cases s) auto
qed simp

lemma split_eq_single: "SEP \<notin> set t \<Longrightarrow> split L = [t] \<longleftrightarrow> L = t"
  by (rule split_cases [of L]) auto

lemma no_empty_SEP: "SEP \<notin> set v \<Longrightarrow> no_empty (v @ SEP # R) \<Longrightarrow> v \<noteq> [] \<and> no_empty R \<and> R \<noteq> []"
  by (auto simp: no_empty_def)

lemma no_empty_last: "no_empty L \<Longrightarrow> L \<noteq> [] \<and> last L \<noteq> SEP"
proof (induction "length L" arbitrary: L rule: less_induct)
  case less
  show ?case
  proof (rule split_cases [of L])
    assume "SEP \<notin> set L" "split L = [L]"
    then show ?thesis using less.prems by (metis last_in_set list.set_intros(1) no_empty_def)
  next
    fix v R assume "L = v @ SEP # R" "SEP \<notin> set v" "split L = v # split R"
    then show ?thesis using less.hyps [of R] no_empty_SEP less.prems by auto
  qed
qed

definition near :: "slot list \<Rightarrow> byte list \<Rightarrow> bool" where
  "near p L \<longleftrightarrow> pmatch p (split L) \<or> pmatch p (split (butlast L))"

lemma near_step:
  assumes v: "SEP \<notin> set v" and R: "R \<noteq> []"
  shows "near (s # p) (v @ SEP # R) \<longleftrightarrow> (case s of Lit t \<Rightarrow> v = t \<and> near p R | PW \<Rightarrow> near p R | FW \<Rightarrow> p = [])"
proof -
  have "butlast (v @ SEP # R) = v @ SEP # butlast R" using R by (simp add: butlast_append)
  then show ?thesis using v by (cases s) (auto simp: near_def)
qed

lemma near_no_SEP:
  assumes "SEP \<notin> set L" and "p \<noteq> []" and "s \<noteq> FW"
  shows "\<not> near (s # p) L"
proof -
  have "SEP \<notin> set (butlast L)" using assms(1) by (meson in_set_butlastD)
  then show ?thesis using assms by (cases s) (auto simp: near_def pmatch_Nil)
qed

lemma dropWhile_SEP: "SEP \<notin> set L \<Longrightarrow> dropWhile (\<lambda>c. c \<noteq> SEP) L = []"
  by (auto simp: dropWhile_eq_Nil_conv)

lemma lit_match_near:
  "ss \<noteq> [] \<Longrightarrow> valid_toks False ss \<Longrightarrow> list_all clean_tok ss \<Longrightarrow> (\<forall>t \<in> set ss. SEP \<notin> set t) \<Longrightarrow> no_empty L \<Longrightarrow>
   lit_match L (join ss) \<longleftrightarrow> near (map slot_of ss) L"
proof (induction ss arbitrary: L)
  case (Cons t ss)
  have ct: "clean_tok t" and t: "t \<noteq> []" and ts: "SEP \<notin> set t" using Cons.prems by (simp_all add: clean_tok_def)
  have L: "L \<noteq> []" "last L \<noteq> SEP" using no_empty_last [OF Cons.prems(5)] by simp_all
  consider (PW) "t = [PWC]" "slot_of t = PW" | (FW) "t = [FWC]" "slot_of t = FW"
    | (Lit) "PWC \<notin> set t" "FWC \<notin> set t" "slot_of t = Lit t"
    using ct t by (cases t) (auto simp: clean_tok_def slot_of_def)
  then show ?case
  proof cases
    case FW
    then have "ss = []" using Cons.prems(2) by (cases ss) auto
    then show ?thesis using FW L by (simp add: near_def)
  next
    case PW
    show ?thesis
    proof (cases "ss = []")
      case True
      have "near [PW] L \<longleftrightarrow> SEP \<notin> set L"
      proof (rule split_cases [of L])
        fix v R assume "L = v @ SEP # R" "SEP \<notin> set v" "split L = v # split R"
        moreover from this no_empty_SEP Cons.prems(5) have "R \<noteq> []" by auto
        ultimately show ?thesis using near_step [of v R PW "[]"] by (simp add: near_def pmatch.simps(1))
      qed (simp add: near_def)
      moreover have "length (dropWhile (\<lambda>c. c \<noteq> SEP) L) \<le> 1 \<longleftrightarrow> SEP \<notin> set L"
      proof (rule split_cases [of L])
        fix v R assume "L = v @ SEP # R" "SEP \<notin> set v" "split L = v # split R"
        moreover from this no_empty_SEP Cons.prems(5) have "R \<noteq> []" by auto
        ultimately show ?thesis by (cases R) (auto simp: dropWhile_append)
      next
        assume "SEP \<notin> set L"
        then show ?thesis by (simp add: dropWhile_SEP)
      qed
      ultimately show ?thesis using True PW L by simp
    next
      case ne: False
      show ?thesis
      proof (rule split_cases [of L])
        assume s: "SEP \<notin> set L" "split L = [L]"
        have "dropWhile (\<lambda>c. c \<noteq> SEP) L = []" using s(1) by (auto simp: dropWhile_eq_Nil_conv)
        then show ?thesis using near_no_SEP [OF s(1), of "map slot_of ss" PW] PW ne L by (simp add: join_Cons)
      next
        fix v R assume s: "L = v @ SEP # R" "SEP \<notin> set v" "split L = v # split R"
        have R: "no_empty R" "R \<noteq> []" using no_empty_SEP [OF s(2)] Cons.prems(5) s(1) by auto
        have "dropWhile (\<lambda>c. c \<noteq> SEP) L = SEP # R" using s(1,2) by (auto simp: dropWhile_append)
        then have "lit_match L (join (t # ss)) = lit_match R (join ss)" using PW ne L by (simp add: join_Cons)
        also have "\<dots> = near (map slot_of ss) R" using Cons ne R(1) PW by simp
        also have "\<dots> = near (map slot_of (t # ss)) L" using near_step [OF s(2) R(2)] s(1) PW by simp
        finally show ?thesis .
      qed
    qed
  next
    case Lit
    show ?thesis
    proof (cases "ss = []")
      case True
      have "lit_match L t \<longleftrightarrow> (\<exists>R'. L = t @ R' \<and> length R' \<le> 1)"
        using lit_match_literal [OF Lit(1,2), of L "[]"] by simp
      also have "\<dots> \<longleftrightarrow> L = t \<or> butlast L = t"
      proof
        assume "\<exists>R'. L = t @ R' \<and> length R' \<le> 1"
        then obtain R' where "L = t @ R'" "length R' \<le> 1" by blast
        then show "L = t \<or> butlast L = t" by (cases R') auto
      next
        assume "L = t \<or> butlast L = t"
        then show "\<exists>R'. L = t @ R' \<and> length R' \<le> 1"
        proof
          assume "L = t"
          then show ?thesis by (intro exI [of _ "[]"]) simp
        next
          assume "butlast L = t"
          then have "L = t @ [last L]" using append_butlast_last_id [OF L(1)] by simp
          then show ?thesis by (intro exI [of _ "[last L]"]) simp
        qed
      qed
      also have "\<dots> \<longleftrightarrow> near [Lit t] L"
      proof -
        have "pmatch [Lit t] us \<longleftrightarrow> us = [t]" for us by (cases us) auto
        then show ?thesis by (simp add: near_def split_eq_single [OF ts])
      qed
      finally show ?thesis using True Lit by simp
    next
      case ne: False
      have m: "lit_match L (join (t # ss)) \<longleftrightarrow> (\<exists>R. L = t @ SEP # R \<and> lit_match R (join ss))"
        using lit_match_literal [of "t @ [SEP]" L "join ss"] Lit(1,2) ne by (simp add: join_Cons)
      show ?thesis
      proof (rule split_cases [of L])
        assume s: "SEP \<notin> set L" "split L = [L]"
        then show ?thesis using m near_no_SEP [OF s(1), of "map slot_of ss" "Lit t"] Lit ne by auto
      next
        fix v R assume s: "L = v @ SEP # R" "SEP \<notin> set v" "split L = v # split R"
        have R: "no_empty R" "R \<noteq> []" using no_empty_SEP [OF s(2)] Cons.prems(5) s(1) by auto
        have "(L = t @ SEP # R') \<longleftrightarrow> v = t \<and> R = R'" for R'
        proof
          assume e: "L = t @ SEP # R'"
          then have "v = t" using s(3) split_SEP [OF ts, of R'] by simp
          then show "v = t \<and> R = R'" using e s(1) by simp
        qed (use s(1) in simp)
        then have "lit_match L (join (t # ss)) \<longleftrightarrow> v = t \<and> lit_match R (join ss)" using m by auto
        also have "\<dots> \<longleftrightarrow> v = t \<and> near (map slot_of ss) R"
          using Cons ne R(1) Lit by (cases t) (auto split: if_splits)
        also have "\<dots> = near (map slot_of (t # ss)) L" using near_step [OF s(2) R(2)] s(1) Lit by simp
        finally show ?thesis .
      qed
    qed
  qed
qed simp

lemma matchLiteral_near:
  assumes "clean S" and "no_empty L"
  shows "matchLiteral L S \<longleftrightarrow> pmatch (pattern S) (split L) \<or> pmatch (pattern S) (split (butlast L))"
proof -
  have "valid_toks False (split S)" "list_all clean_tok (split S)" using assms(1) by (simp_all only: clean_def)
  moreover have "\<forall>t \<in> set (split S). SEP \<notin> set t" using split_no_SEP by blast
  ultimately have "lit_match L (join (split S)) \<longleftrightarrow> near (map slot_of (split S)) L"
    using split_nonempty assms(2) by (intro lit_match_near)
  then show ?thesis unfolding matchLiteral_rest near_def pattern_def join_split .
qed

section \<open>The invariant of a sublist\<close>

definition sl_ok :: "nat \<Rightarrow> 'a Sublist \<Rightarrow> bool" where
  "sl_ok b s \<longleftrightarrow> level_ok b (sl_root s) \<and> hm_ok (sl_cache s)"

text \<open>The subscriptions a literal subject should reach, and a cache that agrees with them.\<close>

definition reached :: "'a Sublist \<Rightarrow> byte list \<Rightarrow> 'a multiset" where
  "reached s L = all_subs (Some (sl_root s)) (split L)"

definition coherent_at :: "'a Sublist \<Rightarrow> byte list \<Rightarrow> bool" where
  "coherent_at s L \<longleftrightarrow> (\<forall>r. view (sl_cache s) L = Some r \<longrightarrow> mset r = reached s L)"

lemma sl_New_ok: "sl_ok b (sl_New :: 'a Sublist)"
  using newLevel_ok [of b, where 'a = 'a] hm_New_spec [where 'd = "'a list"] by (simp add: sl_ok_def sl_New_def)

lemma add_loop_upd:
  "add_loop subject sub ks c = hm.upd_all c (\<lambda>res. res @ [sub]) (filter (\<lambda>k. matchLiteral k subject) ks)"
  by (induction ks arbitrary: c) (auto split: option.splits)

lemma remove_keys_rem:
  "remove_keys subject ks c = hm.rem_all c (filter (\<lambda>k. matchLiteral k subject) ks)"
  by (induction ks arbitrary: c) auto

lemma count_0_view: "hm_ok h \<Longrightarrow> hm_Count h = 0 \<Longrightarrow> view h k = None"
  using hm_Count_spec [of h] AllKeys_spec [of h] by (auto simp: card_eq_0_iff) (metis List.finite_set domIff empty_iff)

lemma addToCache_spec:
  assumes ok: "hm_ok (sl_cache s)"
  shows "hm_ok (sl_cache (addToCache subject sub s)) \<and> sl_root (addToCache subject sub s) = sl_root s \<and>
    view (sl_cache (addToCache subject sub s)) =
      (\<lambda>k. if matchLiteral k subject then map_option (\<lambda>r. r @ [sub]) (view (sl_cache s) k) else view (sl_cache s) k)"
proof (cases "hm_Count (sl_cache s) = 0")
  case True
  then show ?thesis using ok count_0_view [OF ok True] by (auto simp: addToCache_def)
next
  case False
  let ?ks = "filter (\<lambda>k. matchLiteral k subject) (AllKeys (sl_cache s))"
  have "distinct ?ks" "set (AllKeys (sl_cache s)) = dom (view (sl_cache s))" using AllKeys_spec [OF ok] by simp_all
  from hm.upd_all_look [OF ok this(1), of "\<lambda>r. r @ [sub]"] this(2) False show ?thesis
    by (auto simp: addToCache_def add_loop_upd fun_eq_iff dom_def)
qed

lemma removeFromCache_spec:
  assumes ok: "hm_ok (sl_cache s)"
  shows "hm_ok (sl_cache (removeFromCache subject s)) \<and> sl_root (removeFromCache subject s) = sl_root s \<and>
    view (sl_cache (removeFromCache subject s)) =
      (\<lambda>k. if matchLiteral k subject then None else view (sl_cache s) k)"
proof (cases "hm_Count (sl_cache s) = 0")
  case True
  then show ?thesis using ok count_0_view [OF ok True] by (auto simp: removeFromCache_def)
next
  case False
  let ?ks = "filter (\<lambda>k. matchLiteral k subject) (AllKeys (sl_cache s))"
  have "set (AllKeys (sl_cache s)) = dom (view (sl_cache s))" using AllKeys_spec [OF ok] by simp
  with hm.rem_all_look [OF ok, of ?ks] False show ?thesis
    by (auto simp: removeFromCache_def remove_keys_rem fun_eq_iff dom_def)
qed

end
