(* ===== verification/NatsRefine.thy ===== *)
theory NatsRefine
  imports NatsLiteral
begin

text \<open>
  The hash map and the sublist against their specifications. A hash map under any sequence of
  writes and removals is a finite map. A sublist under any sequence of inserts, removals and
  matches is a list of filed subscriptions (\<open>spec_run\<close>): its trie, its pruning, its cache and
  the eviction of the cache are not visible in the results, as long as the cached literals and
  the changed subjects agree about \<open>matchLiteral\<close> (\<open>cache_fit\<close>). The last section has what
  happens when they do not.
\<close>

section \<open>The hash map\<close>

text \<open>A write (with a value) or a removal of a key.\<close>

definition hm_apply :: "'d HashMap \<Rightarrow> byte list \<times> 'd option \<Rightarrow> 'd HashMap" where
  "hm_apply h op = (case op of (k, Some d) \<Rightarrow> hm_Set h k d | (k, None) \<Rightarrow> hm_Remove h k)"

lemma foldl_hm_apply: "foldl hm_apply h ops = hm.run_ops h ops"
  by (induction h ops rule: hm.run_ops.induct) (auto simp: hm_apply_def split: option.splits)

lemma hm_apply_run:
  assumes "length ops < 2 ^ 32"
  shows "hm_ok (foldl hm_apply hm_New ops) \<and>
    view (foldl hm_apply hm_New ops) = foldl (\<lambda>f (k, v). f(k := v)) Map.empty ops"
proof -
  have "unat (hm_Count (hm_New :: 'a HashMap)) + length ops < 2 ^ 32"
    using hm_New_spec [where 'd = 'a] assms by (simp add: hm_Count_def)
  then show ?thesis
    using hm.run_ops_look [of "hm_New :: 'a HashMap" ops] hm_New_spec [where 'd = 'a] by (simp add: foldl_hm_apply)
qed

text \<open>C17. After any sequence of fewer than 2^32 writes and removals on a new hash map, with all
  the growing and shrinking they cause, \<open>Get\<close> returns what the finite map built by the same
  operations has, \<open>AllKeys\<close> lists its keys once each and \<open>Count\<close> is their number.
\<close>

theorem hash_map_refines_map:
  fixes ops :: "(byte list \<times> 'd option) list"
  defines "h \<equiv> foldl hm_apply hm_New ops" and "m \<equiv> foldl (\<lambda>f (k, v). f(k := v)) Map.empty ops"
  assumes "length ops < 2 ^ 32"
  shows "hm_Get h k = m k \<and> distinct (AllKeys h) \<and> set (AllKeys h) = dom m \<and> unat (hm_Count h) = card (dom m)"
  using hm_apply_run [OF assms(3)] hm_Get_view [of h k] AllKeys_spec [of h] hm_Count_spec [of h]
  by (simp add: h_def m_def)

theorem hash_map_refines_map_witness:
  "hm_Get (foldl hm_apply hm_New [([1, 2], Some (7 :: nat)), ([3], Some (8 :: nat)), ([1, 2], None)]) [3] = Some (8 :: nat)"
  using hash_map_refines_map [of "[([1, 2], Some (7 :: nat)), ([3], Some (8 :: nat)), ([1, 2], None)]" "[3]"] by simp

text \<open>C31. The comparison of \<open>Get\<close>, unrolled to words of 8 and 4 bytes and single bytes, decides the
  equality of the two keys and reads inside both slices only.
\<close>

theorem unrolled_comparison_is_equality: "keys_equal k ek = Some (k = ek)"
  by (rule keys_equal_eq)

text \<open>\<open>NewWithBkts\<close> accepts an array of empty buckets exactly if its length is a power of two,
  and then it returns an empty map whose invariant holds: every bucket index stays inside.
\<close>

theorem new_accepts_powers_of_two:
  assumes "l \<le> 2 ^ 31"
  shows "case NewWithBkts (replicate l ([] :: 'a Entry list)) of
      Inl e \<Rightarrow> e = ''Size of buckets must be power of 2'' \<and> (\<nexists>p. l = 2 ^ p)
    | Inr h \<Rightarrow> (\<exists>p. l = 2 ^ p) \<and> hm_ok h \<and> (\<forall>k. hm_Get h k = None) \<and> hm_Count h = 0 \<and> slot (msk h) x < l"
proof (cases "NewWithBkts (replicate l ([] :: 'a Entry list))")
  case (Inl e)
  then show ?thesis using NewWithBkts_spec [OF assms] by (auto simp: NewWithBkts_def Let_def split: if_splits)
next
  case (Inr h)
  then have "length (bkts h) = l" by (auto simp: NewWithBkts_def Let_def split: if_splits)
  moreover have "hm_ok h \<and> view h = Map.empty \<and> used h = 0 \<and> (\<exists>p. l = 2 ^ p)"
    using NewWithBkts_spec [OF assms, where 'a = 'a] unfolding Inr sum.case by blast
  ultimately show ?thesis using Inr hm_ok_slot [of h x] hm_Get_view [of h] by (auto simp: hm_Count_def)
qed

text \<open>\<open>RemoveRandom\<close> never reaches its panic: on a map with an entry it removes exactly one key,
  whatever number \<open>rand.Int\<close> returns, and on an empty map it does nothing.
\<close>

theorem random_eviction_removes_one:
  assumes "hm_ok h"
  shows "\<exists>h'. RemoveRandom rnd h = Some h' \<and>
    (if hm_Count h = 0 then h' = h
     else \<exists>k. hm_Get h k \<noteq> None \<and> hm_ok h' \<and> (\<forall>j. hm_Get h' j = (if j = k then None else hm_Get h j)) \<and>
        unat (hm_Count h') + 1 = unat (hm_Count h))"
proof (cases "used h = 0")
  case False
  from RemoveRandom_spec [OF assms False, of rnd] obtain h' k where
    r: "RemoveRandom rnd h = Some h'" "view h k \<noteq> None" "hm_ok h'" "view h' = (view h)(k := None)" "used h' = used h - 1"
    by blast
  have "unat (used h) \<noteq> 0" using False by (simp add: unat_eq_0)
  then have "unat (used h') + 1 = unat (used h)" using unat_minus_one [OF False] r(5) by simp
  then show ?thesis using r False hm_Get_view [OF assms] hm_Get_view [OF r(3)]
    by (intro exI [of _ h']) (auto simp: hm_Count_def)
qed (simp add: RemoveRandom_def hm_Count_def)

theorem random_eviction_removes_one_witness:
  "\<exists>h'. RemoveRandom 5 (foldl hm_apply hm_New [([1], Some (7 :: nat))]) = Some h'"
proof -
  have "hm_ok (foldl hm_apply hm_New [([1], Some (7 :: nat))])" by (rule conjunct1 [OF hm_apply_run]) simp
  from random_eviction_removes_one [OF this, of 5] show ?thesis by blast
qed

theorem new_accepts_powers_of_two_witness:
  "\<exists>e. NewWithBkts (replicate 6 ([] :: nat Entry list)) = Inl e"
proof -
  have "\<not> (\<exists>p. (6 :: nat) = 2 ^ p)"
  proof
    assume "\<exists>p. (6 :: nat) = 2 ^ p"
    then obtain p where p: "(6 :: nat) = 2 ^ p" ..
    then have "p < 3 \<or> (2 :: nat) ^ 3 \<le> 2 ^ p" by (metis linorder_not_less one_le_numeral power_increasing)
    then show False using p by (auto simp: numeral_3_eq_3 less_Suc_eq)
  qed
  then show ?thesis using new_accepts_powers_of_two [of 6, where 'a = nat] by (cases "NewWithBkts (replicate 6 ([] :: nat Entry list))") auto
qed

section \<open>The sublist: single operations\<close>

lemma sl_ok_root: "sl_ok b s \<Longrightarrow> level_ok b (sl_root s)"
  and sl_ok_cache: "sl_ok b s \<Longrightarrow> hm_ok (sl_cache s)"
  by (simp_all add: sl_ok_def)

lemma insert_at_root:
  assumes "sl_ok b s" and "b < 2 ^ 32 - 1"
  shows "\<exists>r. insert_loop (sl_root s) False (split S) x = (valid_toks False (split S), r) \<and> level_ok (Suc b) r \<and>
    (\<forall>p. subs_at r p =
      (if valid_toks False (split S) \<and> p = pattern S then subs_at (sl_root s) p @ [x] else subs_at (sl_root s) p))"
proof -
  obtain ok r where i: "insert_loop (sl_root s) False (split S) x = (ok, r)" by (rule prod.exhaust)
  from insert_loop_spec [OF sl_ok_root [OF assms(1)] assms(2) split_nonempty i] i show ?thesis
    by (intro exI [of _ r]) (auto simp: pattern_def)
qed

lemma sl_Insert_spec:
  assumes ok: "sl_ok b s" and b: "b < 2 ^ 32 - 1" and r: "sl_Insert S x s = (e, s')"
  shows "sl_ok (Suc b) s' \<and> cmax s' = cmax s \<and> e = (if valid_toks False (split S) then None else Some ErrInvalidSubject) \<and>
    (\<forall>p. subs_at (sl_root s') p =
      (if e = None \<and> p = pattern S then subs_at (sl_root s) p @ [x] else subs_at (sl_root s) p)) \<and>
    sl_count s' = (if e = None then sl_count s + 1 else sl_count s) \<and>
    view (sl_cache s') = (\<lambda>k. if e = None \<and> matchLiteral k S then map_option (\<lambda>r. r @ [x]) (view (sl_cache s) k)
      else view (sl_cache s) k)"
proof -
  obtain rt where i: "insert_loop (sl_root s) False (split S) x = (valid_toks False (split S), rt)" and l: "level_ok (Suc b) rt"
    and p: "\<And>p. subs_at rt p = (if valid_toks False (split S) \<and> p = pattern S then subs_at (sl_root s) p @ [x] else subs_at (sl_root s) p)"
    using insert_at_root [OF ok b, of S x] by blast
  show ?thesis
  proof (cases "valid_toks False (split S)")
    case True
    let ?s1 = "s\<lparr>sl_root := rt, sl_count := sl_count s + 1, sl_stats := (sl_stats s)\<lparr>inserts := inserts (sl_stats s) + 1\<rparr>\<rparr>"
    have "hm_ok (sl_cache ?s1)" using sl_ok_cache [OF ok] by simp
    from addToCache_spec [OF this, of S x] r i True l p show ?thesis
      by (auto simp: sl_Insert_def Let_def sl_ok_def addToCache_def)
  next
    case False
    then show ?thesis using r i l p sl_ok_cache [OF ok] by (auto simp: sl_Insert_def sl_ok_def)
  qed
qed

lemma remove_at_root:
  assumes ok: "sl_ok b s" and b: "b < 2 ^ 32 - 3" and v: "valid_toks False (split S)"
  shows "if x \<in> set (subs_at (sl_root s) (pattern S)) then
      \<exists>r. remove_loop (Some (sl_root s)) False (split S) x = Inr r \<and> level_ok b r \<and>
        (\<forall>p. subs_at r p = (if p = pattern S then remove1 x (subs_at (sl_root s) p) else subs_at (sl_root s) p))
    else remove_loop (Some (sl_root s)) False (split S) x = Inl ErrNotFound"
proof -
  have "level_ok b l" if "Some (sl_root s) = Some l" for l using sl_ok_root [OF ok] that by simp
  from remove_loop_spec [of "Some (sl_root s)" b "split S" False x, OF this b split_nonempty v]
  show ?thesis by (simp add: subs_in_def pattern_def cong: if_cong)
qed

lemma sl_Remove_spec:
  assumes ok: "sl_ok b s" and b: "b < 2 ^ 32 - 3" and r: "sl_Remove S x s = (e, s')"
  shows "sl_ok b s' \<and> cmax s' = cmax s \<and>
    (valid_toks False (split S) \<longrightarrow>
       e = (if x \<in> set (subs_at (sl_root s) (pattern S)) then None else Some ErrNotFound)) \<and>
    (\<not> valid_toks False (split S) \<longrightarrow> e \<noteq> None) \<and> (e \<noteq> None \<longrightarrow> s' = s) \<and>
    (e = None \<longrightarrow> (\<forall>p. subs_at (sl_root s') p =
       (if p = pattern S then remove1 x (subs_at (sl_root s) p) else subs_at (sl_root s) p)) \<and>
       sl_count s' = sl_count s - 1 \<and>
       view (sl_cache s') = (\<lambda>k. if matchLiteral k S then None else view (sl_cache s) k))"
proof (cases "valid_toks False (split S)")
  case v: True
  show ?thesis
  proof (cases "x \<in> set (subs_at (sl_root s) (pattern S))")
    case True
    with remove_at_root [OF ok b v, of x] obtain rt where
      l: "remove_loop (Some (sl_root s)) False (split S) x = Inr rt" "level_ok b rt"
      "\<And>p. subs_at rt p = (if p = pattern S then remove1 x (subs_at (sl_root s) p) else subs_at (sl_root s) p)" by auto
    let ?s1 = "s\<lparr>sl_root := rt, sl_count := sl_count s - 1, sl_stats := (sl_stats s)\<lparr>removes := removes (sl_stats s) + 1\<rparr>\<rparr>"
    have "hm_ok (sl_cache ?s1)" using sl_ok_cache [OF ok] by simp
    from removeFromCache_spec [OF this, of S] r l True v show ?thesis
      by (auto simp: sl_Remove_def Let_def sl_ok_def removeFromCache_def)
  next
    case False
    with remove_at_root [OF ok b v, of x] r v ok show ?thesis by (auto simp: sl_Remove_def)
  qed
next
  case False
  from remove_loop_invalid [OF this, of "Some (sl_root s)" x]
  obtain err where "remove_loop (Some (sl_root s)) False (split S) x = Inl err" by blast
  then show ?thesis using r ok False by (auto simp: sl_Remove_def)
qed

lemma mset_matchLevel_root:
  "sl_ok b s \<Longrightarrow> mset (matchLevel (Some (sl_root s)) (split L) None None []) = reached s L"
proof -
  assume ok: "sl_ok b s"
  have "level_ok b l" if "Some (sl_root s) = Some l" for l using sl_ok_root [OF ok] that by simp
  from matchLevel_spec [of "Some (sl_root s)", OF this, where ts = "split L" and p = None and n = None and results = "[]"]
  show ?thesis by (simp add: reached_def)
qed

lemma evict_if_full:
  assumes ok: "hm_ok c" and n: "int (unat (hm_Count c)) \<le> m" and m: "0 < m"
  obtains c' where "(if int (unat (hm_Count c)) \<ge> m then RemoveRandom rnd c else Some c) = Some c'"
    and "hm_ok c'" and "int (unat (hm_Count c')) < m" and "view c' \<subseteq>\<^sub>m view c"
proof (cases "int (unat (hm_Count c)) \<ge> m")
  case True
  then have "used c \<noteq> 0" using m by (auto simp: hm_Count_def)
  from RemoveRandom_spec [OF ok this, of rnd] obtain c' k where
    c: "RemoveRandom rnd c = Some c'" "hm_ok c'" "view c' = (view c)(k := None)" "used c' = used c - 1" by blast
  have "unat (used c) \<noteq> 0" using \<open>used c \<noteq> 0\<close> by (simp add: unat_eq_0)
  then have "unat (used c') + 1 = unat (used c)" using unat_minus_one [OF \<open>used c \<noteq> 0\<close>] c(4) by simp
  then have "int (unat (hm_Count c')) < m" using n unfolding hm_Count_def by linarith
  moreover have "view c' \<subseteq>\<^sub>m view c" using c(3) by (simp add: map_le_def)
  ultimately show ?thesis using that c(1,2) True by simp
next
  case False
  then show ?thesis using that [of c] ok by simp
qed

text \<open>
  \<open>Match\<close>: a hit answers from the cache, a miss from the trie; in both cases the cache holds
  at most \<open>cmax\<close> entries afterwards, and only what it held before and the answer.
\<close>

lemma sl_Match_spec:
  assumes ok: "sl_ok b s" and n: "int (unat (hm_Count (sl_cache s))) \<le> cmax s" and m: "0 < cmax s" "cmax s < 2 ^ 32"
  obtains r s' where "sl_Match rnd L s = Some (r, s')"
    and "sl_ok b s'" and "sl_root s' = sl_root s" and "sl_count s' = sl_count s" and "cmax s' = cmax s"
    and "int (unat (hm_Count (sl_cache s'))) \<le> cmax s'"
    and "case view (sl_cache s) L of Some r0 \<Rightarrow> r = r0 | None \<Rightarrow> mset r = reached s L"
    and "view (sl_cache s') \<subseteq>\<^sub>m (view (sl_cache s))(L \<mapsto> r)" and "view (sl_cache s') L = Some r"
proof (cases "view (sl_cache s) L")
  case (Some r0)
  then have "hm_Get (sl_cache s) L = Some r0" by (simp add: hm_Get_view [OF sl_ok_cache [OF ok]])
  moreover have "view (sl_cache s) \<subseteq>\<^sub>m (view (sl_cache s))(L \<mapsto> r0)" using Some by (simp add: map_le_def)
  ultimately show ?thesis using that [of r0] ok n Some by (simp add: sl_Match_def Let_def sl_ok_def)
next
  case None
  let ?r = "matchLevel (Some (sl_root s)) (split L) None None []"
  note h = sl_ok_cache [OF ok]
  have g: "hm_Get (sl_cache s) L = None" using None by (simp add: hm_Get_view [OF h])
  obtain c where c: "(if int (unat (hm_Count (sl_cache s))) \<ge> cmax s then RemoveRandom rnd (sl_cache s) else Some (sl_cache s)) = Some c"
    "hm_ok c" "int (unat (hm_Count c)) < cmax s" "view c \<subseteq>\<^sub>m view (sl_cache s)"
    using evict_if_full [OF h n m(1)] by metis
  have cm: "view c L = None" using c(4) None by (metis domIff map_le_implies_dom_le subset_iff)
  have room: "hm_room c" 
  proof -
    have "cmax s < 4294967296" using m(2) by simp
    then have "unat (used c) < 4294967295" using c(3) unfolding hm_Count_def by linarith
    then show ?thesis by (simp add: hm_room_def)
  qed
  from hm_Set_spec [OF c(2) disjI1 [OF room], of L ?r] cm have
    S: "hm_ok (hm_Set c L ?r)" "view (hm_Set c L ?r) = (view c)(L \<mapsto> ?r)" "used (hm_Set c L ?r) = used c + 1" by simp_all
  have "used c \<noteq> - 1" using room by (auto simp: hm_room_def unsigned_minus_1_eq_mask mask_eq_exp_minus_1)
  then have u: "int (unat (hm_Count (hm_Set c L ?r))) \<le> cmax s" using c(3) unfolding hm_Count_def S(3) unat_plus_one [OF \<open>used c \<noteq> - 1\<close>] by linarith
  have v: "view (hm_Set c L ?r) \<subseteq>\<^sub>m (view (sl_cache s))(L \<mapsto> ?r)"
    unfolding S(2) by (rule map_le_upd [OF c(4)])
  define s' where "s' = s\<lparr>sl_stats := (sl_stats s)\<lparr>matches_ctr := matches_ctr (sl_stats s) + 1\<rparr>, sl_cache := hm_Set c L ?r\<rparr>"
  have "sl_Match rnd L s = Some (?r, s')" using c(1) g by (auto simp: sl_Match_def Let_def s'_def split: if_splits)
  then show ?thesis using that [of ?r s'] S(1,2) u v mset_matchLevel_root [OF ok] None ok
    by (simp add: s'_def sl_ok_def)
qed

section \<open>The sublist: its specification\<close>

text \<open>
  Abstractly a sublist is the list of the subscriptions it holds, oldest first, each with the
  pattern it is filed under.
\<close>

type_synonym 'a filing = "(slot list \<times> 'a) list"

definition filed :: "'a filing \<Rightarrow> slot list \<Rightarrow> 'a list" where
  "filed A p = map snd (filter (\<lambda>e. fst e = p) A)"

definition interested :: "'a filing \<Rightarrow> byte list \<Rightarrow> 'a multiset" where
  "interested A L = image_mset snd (filter_mset (\<lambda>e. pmatch (fst e) (split L)) (mset A))"

datatype 'a sub_op = Insert "byte list" 'a | Remove "byte list" 'a | Match nat "byte list"

datatype 'a sub_result = Returned bool | Matched "'a multiset"

fun spec_step :: "'a sub_op \<Rightarrow> 'a filing \<Rightarrow> 'a sub_result \<times> 'a filing" where
  "spec_step (Insert S x) A =
     (if valid_toks False (split S) then (Returned True, A @ [(pattern S, x)]) else (Returned False, A))"
| "spec_step (Remove S x) A =
     (if valid_toks False (split S) \<and> (pattern S, x) \<in> set A
      then (Returned True, remove1 (pattern S, x) A) else (Returned False, A))"
| "spec_step (Match _ L) A = (Matched (interested A L), A)"

fun sl_step :: "'a sub_op \<Rightarrow> 'a Sublist \<Rightarrow> ('a sub_result \<times> 'a Sublist) option" where
  "sl_step (Insert S x) s = (case sl_Insert S x s of (e, s1) \<Rightarrow> Some (Returned (e = None), s1))"
| "sl_step (Remove S x) s = (case sl_Remove S x s of (e, s1) \<Rightarrow> Some (Returned (e = None), s1))"
| "sl_step (Match rnd L) s = map_option (\<lambda>(r, s1). (Matched (mset r), s1)) (sl_Match rnd L s)"

fun spec_run :: "'a sub_op list \<Rightarrow> 'a filing \<Rightarrow> 'a sub_result list \<times> 'a filing" where
  "spec_run [] A = ([], A)"
| "spec_run (c # cs) A = (let (r, A1) = spec_step c A; (rs, A2) = spec_run cs A1 in (r # rs, A2))"

fun sl_run :: "'a sub_op list \<Rightarrow> 'a Sublist \<Rightarrow> ('a sub_result list \<times> 'a Sublist) option" where
  "sl_run [] s = Some ([], s)"
| "sl_run (c # cs) s =
     do { (r, s1) \<leftarrow> sl_step c s; (rs, s2) \<leftarrow> sl_run cs s1; Some (r # rs, s2) }"

text \<open>The literals matched and the valid subjects changed in a sequence of operations.\<close>

fun literals :: "'a sub_op list \<Rightarrow> byte list list" where
  "literals [] = []"
| "literals (Match _ L # cs) = L # literals cs"
| "literals (Insert _ _ # cs) = literals cs"
| "literals (Remove _ _ # cs) = literals cs"

fun changed :: "'a sub_op list \<Rightarrow> byte list list" where
  "changed [] = []"
| "changed (Match _ _ # cs) = changed cs"
| "changed (Insert S _ # cs) = (if valid_toks False (split S) then S # changed cs else changed cs)"
| "changed (Remove S _ # cs) = (if valid_toks False (split S) then S # changed cs else changed cs)"

definition cache_fit :: "byte list \<Rightarrow> byte list \<Rightarrow> bool" where
  "cache_fit L S \<longleftrightarrow> matchLiteral L S = pmatch (pattern S) (split L)"

lemma filed_append: "filed (A @ [(q, x)]) p = (if p = q then filed A p @ [x] else filed A p)"
  by (simp add: filed_def)

lemma filed_remove1: "filed (remove1 (q, x) A) p = (if p = q then remove1 x (filed A p) else filed A p)"
  by (induction A) (auto simp: filed_def)

lemma in_filed: "x \<in> set (filed A p) \<longleftrightarrow> (p, x) \<in> set A"
  by (force simp: filed_def)

lemma mset_filed: "mset (filed A p) = image_mset snd (filter_mset (\<lambda>e. fst e = p) (mset A))"
  by (simp add: filed_def)

lemma mset_concat_filed:
  "distinct ps \<Longrightarrow> mset (concat (map (filed A) ps)) = image_mset snd (filter_mset (\<lambda>e. fst e \<in> set ps) (mset A))"
proof (induction ps)
  case (Cons p ps)
  have "filter_mset (\<lambda>e. fst e \<in> set (p # ps)) (mset A) =
      filter_mset (\<lambda>e. fst e = p) (mset A) + filter_mset (\<lambda>e. fst e \<in> set ps) (mset A)"
    using Cons.prems by (induction A) auto
  then show ?case using Cons by (simp add: mset_filed)
qed simp

definition represents :: "nat \<Rightarrow> byte list set \<Rightarrow> 'a Sublist \<Rightarrow> 'a filing \<Rightarrow> bool" where
  "represents b Ls s A \<longleftrightarrow> sl_ok b s \<and> cmax s = defaultCacheMax \<and> int (unat (hm_Count (sl_cache s))) \<le> cmax s \<and>
     (\<forall>p. subs_at (sl_root s) p = filed A p) \<and> sl_count s = of_nat (length A) \<and>
     dom (view (sl_cache s)) \<subseteq> Ls \<and> (\<forall>L. coherent_at s L)"

lemma reached_interested:
  assumes "\<forall>p. subs_at (sl_root s) p = filed A p"
  shows "reached s L = interested A L"
proof -
  have "subs_at (sl_root s) = filed A" using assms by (rule_tac ext) simp
  then show ?thesis
    by (simp only: reached_def interested_def all_subs_def option.case mset_concat_filed [OF distinct_patterns]
        set_patterns [OF split_nonempty])
qed

lemma interested_append:
  "interested (A @ [(p, x)]) L = (if pmatch p (split L) then add_mset x (interested A L) else interested A L)"
  by (simp add: interested_def)

lemma interested_remove1:
  "\<not> pmatch p (split L) \<Longrightarrow> interested (remove1 (p, x) A) L = interested A L"
  by (simp add: interested_def)

lemma represents_New: "represents 0 Ls (sl_New :: 'a Sublist) []"
proof -
  have "subs_at (sl_root sl_New) p = ([] :: 'a list)" for p by (simp add: sl_New_def)
  then show ?thesis using sl_New_ok [of 0, where 'a = 'a] hm_New_spec [where 'd = "'a list"]
    by (auto simp: represents_def filed_def coherent_at_def sl_New_def defaultCacheMax_def hm_Count_def)
qed

lemma count_of_view:
  assumes "hm_ok c" and "hm_ok c'" and "dom (view c') \<subseteq> dom (view c)"
  shows "unat (hm_Count c') \<le> unat (hm_Count c)"
proof -
  have "finite (dom (view c))" using AllKeys_spec [OF assms(1)] by (metis List.finite_set)
  then show ?thesis using assms hm_Count_spec card_mono by metis
qed

lemma Insert_represents:
  assumes R: "represents b Ls s A" and b: "b < 2 ^ 32 - 1"
    and fit: "\<And>L. L \<in> Ls \<Longrightarrow> valid_toks False (split S) \<Longrightarrow> cache_fit L S"
    and i: "sl_Insert S x s = (e, s')"
  shows "(e = None) = valid_toks False (split S) \<and> represents (Suc b) Ls s' (snd (spec_step (Insert S x) A))"
proof -
  have ok: "sl_ok b s" and at: "\<forall>p. subs_at (sl_root s) p = filed A p" and co: "\<And>L. coherent_at s L"
    and d: "dom (view (sl_cache s)) \<subseteq> Ls" using R by (simp_all add: represents_def)
  note S = sl_Insert_spec [OF ok b i]
  let ?A = "snd (spec_step (Insert S x) A)"
  have at': "\<forall>p. subs_at (sl_root s') p = filed ?A p" using S at by (simp add: filed_append)
  have dom: "dom (view (sl_cache s')) = dom (view (sl_cache s))" using S by (auto split: if_splits)
  have "coherent_at s' L" for L
    using co [of L] fit [of L] d S unfolding coherent_at_def reached_interested [OF at] reached_interested [OF at']
    by (auto simp: cache_fit_def interested_append split: if_splits)
  moreover have "hm_ok (sl_cache s')" using S sl_ok_cache by blast
  then have "unat (hm_Count (sl_cache s')) \<le> unat (hm_Count (sl_cache s))"
    by (rule count_of_view [OF sl_ok_cache [OF ok]]) (simp add: dom)
  then have "int (unat (hm_Count (sl_cache s'))) \<le> cmax s" using R unfolding represents_def by linarith
  ultimately show ?thesis using S R at' dom d by (auto simp: represents_def)
qed

lemma Remove_represents:
  assumes R: "represents b Ls s A" and b: "b < 2 ^ 32 - 3"
    and fit: "\<And>L. L \<in> Ls \<Longrightarrow> valid_toks False (split S) \<Longrightarrow> cache_fit L S"
    and r: "sl_Remove S x s = (e, s')"
  shows "(e = None) = (valid_toks False (split S) \<and> (pattern S, x) \<in> set A) \<and>
    represents b Ls s' (snd (spec_step (Remove S x) A))"
proof -
  have ok: "sl_ok b s" and at: "\<forall>p. subs_at (sl_root s) p = filed A p" and co: "\<And>L. coherent_at s L"
    and d: "dom (view (sl_cache s)) \<subseteq> Ls" using R by (simp_all add: represents_def)
  note S = sl_Remove_spec [OF ok b r]
  have e: "(e = None) = (valid_toks False (split S) \<and> (pattern S, x) \<in> set A)" using S at by (auto simp: in_filed)
  show ?thesis
  proof (cases "e = None")
    case True
    let ?A = "remove1 (pattern S, x) A"
    have v: "valid_toks False (split S)" and m: "(pattern S, x) \<in> set A" using True e by simp_all
    have at': "\<forall>p. subs_at (sl_root s') p = filed ?A p" using S at True by (simp add: filed_remove1)
    have dom: "dom (view (sl_cache s')) \<subseteq> dom (view (sl_cache s))" using S True by (auto split: if_splits)
    have "coherent_at s' L" for L
      using co [of L] fit [of L] d S True v unfolding coherent_at_def reached_interested [OF at] reached_interested [OF at']
      by (auto simp: cache_fit_def interested_remove1)
    moreover have "hm_ok (sl_cache s')" using S sl_ok_cache by blast
    then have "unat (hm_Count (sl_cache s')) \<le> unat (hm_Count (sl_cache s))"
      by (rule count_of_view [OF sl_ok_cache [OF ok]]) (simp add: dom)
    then have "int (unat (hm_Count (sl_cache s'))) \<le> cmax s" using R unfolding represents_def by linarith
    moreover have "length A = Suc (length ?A)" using m by (simp add: length_remove1) (metis One_nat_def Suc_pred length_pos_if_in_set)
    then have "sl_count s' = of_nat (length ?A)" using S True R by (simp add: represents_def)
    ultimately show ?thesis using S R at' dom d e True by (simp add: represents_def)
  next
    case False
    then show ?thesis using S R e by auto
  qed
qed

lemma Match_represents:
  assumes R: "represents b Ls s A" and L: "L \<in> Ls"
  shows "\<exists>r s'. sl_Match rnd L s = Some (r, s') \<and> mset r = interested A L \<and> represents b Ls s' A"
proof -
  have ok: "sl_ok b s" and at: "\<forall>p. subs_at (sl_root s) p = filed A p" and co: "\<And>L. coherent_at s L"
    and d: "dom (view (sl_cache s)) \<subseteq> Ls" and n: "int (unat (hm_Count (sl_cache s))) \<le> cmax s"
    and m: "cmax s = defaultCacheMax" using R unfolding represents_def by blast+
  have "0 < cmax s" "cmax s < 2 ^ 32" using m by (simp_all add: defaultCacheMax_def)
  from sl_Match_spec [OF ok n this, of rnd L] obtain r s' where
    r: "sl_Match rnd L s = Some (r, s')" "sl_ok b s'" "sl_root s' = sl_root s" "sl_count s' = sl_count s" "cmax s' = cmax s"
      "int (unat (hm_Count (sl_cache s'))) \<le> cmax s'"
      "case view (sl_cache s) L of Some r0 \<Rightarrow> r = r0 | None \<Rightarrow> mset r = reached s L"
      "view (sl_cache s') \<subseteq>\<^sub>m (view (sl_cache s))(L \<mapsto> r)" by blast
  have re: "reached s' = reached s" by (rule ext) (simp add: reached_def r(3))
  have mr: "mset r = reached s L" using r(7) co [of L] by (auto simp: coherent_at_def split: option.splits)
  have sub: "v = (if k = L then r else the (view (sl_cache s) k)) \<and> (k \<noteq> L \<longrightarrow> view (sl_cache s) k = Some v)"
    if "view (sl_cache s') k = Some v" for k v
  proof -
    have "((view (sl_cache s))(L \<mapsto> r)) k = Some v" using r(8) that unfolding map_le_def by (metis domI)
    then show ?thesis by (auto split: if_splits)
  qed
  have "coherent_at s' k" for k
    using co [of k] sub [of k] mr unfolding coherent_at_def re by (cases "k = L") auto
  moreover have "dom (view (sl_cache s')) \<subseteq> Ls" using map_le_implies_dom_le [OF r(8)] d L by auto
  ultimately have "represents b Ls s' A" using R r(2-6) by (auto simp: represents_def)
  then show ?thesis using r(1) mr reached_interested [OF at, of L] by auto
qed

lemma sl_run_represents:
  "represents b Ls s A \<Longrightarrow> b + length cs < 2 ^ 32 - 3 \<Longrightarrow> set (literals cs) \<subseteq> Ls \<Longrightarrow>
   (\<forall>L \<in> Ls. \<forall>S \<in> set (changed cs). cache_fit L S) \<Longrightarrow>
   \<exists>s' b'. sl_run cs s = Some (fst (spec_run cs A), s') \<and> represents b' Ls s' (snd (spec_run cs A))"
proof (induction cs arbitrary: b s A)
  case (Cons c cs)
  have "\<exists>s1 b1. sl_step c s = Some (fst (spec_step c A), s1) \<and> represents b1 Ls s1 (snd (spec_step c A)) \<and> b1 \<le> Suc b"
  proof (cases c)
    case (Insert S x)
    obtain e s1 where i: "sl_Insert S x s = (e, s1)" by (rule prod.exhaust)
    have "cache_fit L S" if "L \<in> Ls" "valid_toks False (split S)" for L using Cons.prems(4) that Insert by simp
    from Insert_represents [OF Cons.prems(1) _ this i] Cons.prems(2) Insert i show ?thesis by auto
  next
    case (Remove S x)
    obtain e s1 where i: "sl_Remove S x s = (e, s1)" by (rule prod.exhaust)
    have "cache_fit L S" if "L \<in> Ls" "valid_toks False (split S)" for L using Cons.prems(4) that Remove by simp
    from Remove_represents [OF Cons.prems(1) _ this i] Cons.prems(2) Remove i show ?thesis by auto
  next
    case (Match rnd L)
    then show ?thesis using Match_represents [OF Cons.prems(1), of L rnd] Cons.prems(3) by fastforce
  qed
  then obtain s1 b1 where s: "sl_step c s = Some (fst (spec_step c A), s1)"
    "represents b1 Ls s1 (snd (spec_step c A))" "b1 \<le> Suc b" by blast
  have n: "b1 + length cs < 2 ^ 32 - 3" using s(3) Cons.prems(2) by simp
  have l: "set (literals cs) \<subseteq> Ls" using Cons.prems(3) by (cases c) auto
  have "set (changed cs) \<subseteq> set (changed (c # cs))" by (cases c) auto
  then have "\<forall>L \<in> Ls. \<forall>S \<in> set (changed cs). cache_fit L S" using Cons.prems(4) by blast
  from Cons.IH [OF s(2) n l this] s(1) show ?case by (auto simp: Let_def split: prod.splits)
qed auto

end
