(* ===== verification/NatsProps.thy ===== *)
theory NatsProps
  imports NatsRefine
begin

text \<open>The properties of the sublist.\<close>

section \<open>The whole structure\<close>

text \<open>C2. Any sequence of inserts, removals and matches on a new sublist returns what the plain list
  of its subscriptions would: every match gives each subscription whose pattern matches, as
  often as it was filed, an insert fails exactly on an invalid subject, a removal exactly when
  the subscription is not there, and the count is the number of subscriptions. The trie, its
  hash maps, the pruning, the cache and its eviction do not show, provided that the cache test
  agrees with the patterns on the literals and subjects used.
\<close>

theorem sublist_refines_filing:
  assumes "length cs < 2 ^ 32 - 3"
    and "\<forall>L \<in> set (literals cs). \<forall>S \<in> set (changed cs). cache_fit L S"
  shows "\<exists>s. sl_run cs sl_New = Some (fst (spec_run cs []), s) \<and>
    sl_Count s = of_nat (length (snd (spec_run cs [])))"
proof -
  from sl_run_represents [OF represents_New _ subset_refl assms(2)] assms(1) obtain s b where
    "sl_run cs sl_New = Some (fst (spec_run cs []), s)" "represents b (set (literals cs)) s (snd (spec_run cs []))" by auto
  then show ?thesis by (auto simp: represents_def sl_Count_def)
qed

theorem sublist_refines_filing_witness:
  "\<exists>s. sl_run [Insert (map of_char ''a.*'') (1 :: nat), Insert (map of_char ''a.>'') 2, Match 0 (map of_char ''a.b''),
      Remove (map of_char ''a.*'') 1, Match 0 (map of_char ''a.b''), Insert (map of_char ''a..b'') 3] sl_New =
    Some ([Returned True, Returned True, Matched {#1, 2#}, Returned True, Matched {#2#}, Returned False], s)"
proof -
  let ?cs = "[Insert (map of_char ''a.*'') (1 :: nat), Insert (map of_char ''a.>'') 2, Match 0 (map of_char ''a.b''),
      Remove (map of_char ''a.*'') 1, Match 0 (map of_char ''a.b''), Insert (map of_char ''a..b'') 3]"
  have 1: "\<forall>L \<in> set (literals ?cs). \<forall>S \<in> set (changed ?cs). cache_fit L S" by code_simp
  have 2: "fst (spec_run ?cs []) = [Returned True, Returned True, Matched {#1, 2#}, Returned True, Matched {#2#}, Returned False]"
    by code_simp
  show ?thesis using sublist_refines_filing [OF _ 1] unfolding 2 by auto
qed

text \<open>\<open>matchLiteral\<close>, which decides the cached answers that a change of a subject touches: for a
  subject with clean tokens and a literal without empty tokens it says yes exactly when the
  literal matches, or when the literal without its last byte does.
\<close>

theorem cache_test_is_off_by_one:
  assumes "clean S" and "no_empty L"
  shows "matchLiteral L S \<longleftrightarrow> pmatch (pattern S) (split L) \<or> pmatch (pattern S) (split (butlast L))"
  by (rule matchLiteral_near [OF assms])

theorem cache_test_is_off_by_one_witness:
  "matchLiteral (map of_char ''a.bc'') (map of_char ''*.b'') \<and> \<not> matchLiteral (map of_char ''a.bcd'') (map of_char ''*.b'')"
proof -
  have c: "clean (map of_char ''*.b'')" "no_empty (map of_char ''a.bc'')" "no_empty (map of_char ''a.bcd'')" by code_simp+
  have "pmatch (pattern (map of_char ''*.b'')) (split (butlast (map of_char ''a.bc'')))" by code_simp
  moreover have "\<not> pmatch (pattern (map of_char ''*.b'')) (split (map of_char ''a.bcd''))"
    "\<not> pmatch (pattern (map of_char ''*.b'')) (split (butlast (map of_char ''a.bcd'')))" by code_simp+
  ultimately show ?thesis
    using cache_test_is_off_by_one [OF c(1,2)] cache_test_is_off_by_one [OF c(1,3)] by blast
qed

text \<open>C40. The consequence: after a match of a literal that has one byte more than a subject matches,
  an insert of that subject adds the subscription to the literal's cached answer, and the next
  match returns a subscriber of a subject that does not match.
\<close>

theorem cached_literal_gets_stray_subscriber:
  assumes S: "clean S" and L: "no_empty L" and n: "pmatch (pattern S) (split (butlast L))" "\<not> pmatch (pattern S) (split L)"
  shows "(\<exists>s. sl_run [Match i L, Insert S x, Match j L] sl_New = Some ([Matched {#}, Returned True, Matched {#x#}], s)) \<and>
    fst (spec_run [Match i L, Insert S x, Match j L] []) = [Matched {#}, Returned True, Matched {#}]"
proof
  have v: "valid_toks False (split S)" using S by (simp add: clean_def)
  show "fst (spec_run [Match i L, Insert S x, Match j L] []) = [Matched {#}, Returned True, Matched {#}]"
    using v n(2) by (simp add: interested_def)
  have m: "matchLiteral L S" using matchLiteral_near [OF S L] n(1) by blast
  let ?s0 = "sl_New :: 'a Sublist"
  have c0: "int (unat (hm_Count (sl_cache ?s0))) \<le> cmax ?s0" "0 < cmax ?s0" "cmax ?s0 < 2 ^ 32"
    using hm_New_spec [where 'd = "'a list"] by (simp_all add: sl_New_def hm_Count_def defaultCacheMax_def)
  have v0: "view (sl_cache ?s0) = Map.empty" using hm_New_spec [where 'd = "'a list"] by (simp add: sl_New_def)
  obtain r s1 where s1: "sl_Match i L ?s0 = Some (r, s1)" "sl_ok 0 s1" "cmax s1 = cmax ?s0"
      "int (unat (hm_Count (sl_cache s1))) \<le> cmax s1" "mset r = reached ?s0 L" "view (sl_cache s1) L = Some r"
    by (rule sl_Match_spec [OF sl_New_ok c0, of i L]) (simp_all add: v0)
  have r: "r = []" using s1(5) reached_interested [of ?s0 "[]" L] by (simp add: sl_New_def filed_def interested_def)
  obtain e s2 where i: "sl_Insert S x s1 = (e, s2)" by (rule prod.exhaust)
  have "(0 :: nat) < 2 ^ 32 - 1" by simp
  from sl_Insert_spec [OF s1(2) this i] v m s1(6) r have
    s2: "sl_ok (Suc 0) s2" "e = None" "cmax s2 = cmax s1" "view (sl_cache s2) L = Some [x]" by simp_all
  have "hm_Get (sl_cache s2) L = Some [x]" using hm_Get_view [OF sl_ok_cache [OF s2(1)]] s2(4) by simp
  then have "\<exists>s3. sl_Match j L s2 = Some ([x], s3)" by (simp add: sl_Match_def Let_def)
  then show "\<exists>s. sl_run [Match i L, Insert S x, Match j L] sl_New = Some ([Matched {#}, Returned True, Matched {#x#}], s)"
    using s1(1) r i s2(2) by auto
qed

theorem cached_literal_gets_stray_subscriber_witness:
  "\<exists>s. sl_run [Match 0 (map of_char ''foob''), Insert (map of_char ''foo'') (7 :: nat), Match 0 (map of_char ''foob'')] sl_New =
    Some ([Matched {#}, Returned True, Matched {#7#}], s)"
proof (rule conjunct1 [OF cached_literal_gets_stray_subscriber])
  show "clean (map of_char ''foo'')" "no_empty (map of_char ''foob'')"
    "pmatch (pattern (map of_char ''foo'')) (split (butlast (map of_char ''foob'')))"
    "\<not> pmatch (pattern (map of_char ''foo'')) (split (map of_char ''foob''))" by code_simp+
qed

section \<open>Insert and remove\<close>

text \<open>C25. Removing a subscription right after inserting it gives the sublist's contents back: every
  pattern has the subscriptions it had (in number and kind), and the count is the old one.
\<close>

theorem insert_remove_roundtrip:
  assumes "sl_ok b s" and "b < 2 ^ 32 - 4" and "valid_toks False (split S)"
    and "sl_Insert S x s = (e1, s1)" and "sl_Remove S x s1 = (e2, s2)"
  shows "e1 = None \<and> e2 = None \<and> sl_ok (Suc b) s2 \<and> sl_count s2 = sl_count s \<and>
    (\<forall>p. mset (subs_at (sl_root s2) p) = mset (subs_at (sl_root s) p)) \<and> reached s2 L = reached s L"
proof -
  have b: "b < 2 ^ 32 - 1" "Suc b < 2 ^ 32 - 3" using assms(2) by simp_all
  note I = sl_Insert_spec [OF assms(1) b(1) assms(4)]
  have ok1: "sl_ok (Suc b) s1" using I by blast
  note R = sl_Remove_spec [OF ok1 b(2) assms(5)]
  have in1: "x \<in> set (subs_at (sl_root s1) (pattern S))" using I assms(3) by simp
  have m: "mset (subs_at (sl_root s2) p) = mset (subs_at (sl_root s) p)" for p
    using I R assms(3) in1 by (auto split: if_splits)
  have "mset (concat (map (subs_at (sl_root s2)) ps)) = mset (concat (map (subs_at (sl_root s)) ps))" for ps
    by (induction ps) (simp_all add: m)
  then have "reached s2 L = reached s L" by (simp add: reached_def all_subs_def)
  then show ?thesis using I R assms(3) in1 m by simp
qed

text \<open>The errors of the sublist: an insert fails exactly on an invalid subject, a removal of a
  valid subject fails, with \<open>ErrNotFound\<close>, exactly if the subscription is not filed under it,
  and no failed operation changes what any literal reaches.
\<close>

theorem sublist_errors:
  assumes "sl_ok b s" and "b < 2 ^ 32 - 3" and "sl_Insert S x s = (e1, s1)" and "sl_Remove S x s = (e2, s2)"
  shows "e1 = (if valid_toks False (split S) then None else Some ErrInvalidSubject) \<and>
    (e1 = None \<or> reached s1 L = reached s L \<and> sl_count s1 = sl_count s) \<and>
    (if valid_toks False (split S)
     then e2 = (if x \<in> set (subs_at (sl_root s) (pattern S)) then None else Some ErrNotFound)
     else e2 \<noteq> None) \<and> (e2 = None \<or> s2 = s)"
proof -
  have b: "b < 2 ^ 32 - 1" using assms(2) by simp
  note I = sl_Insert_spec [OF assms(1) b assms(3)]
  have "reached s1 L = reached s L \<and> sl_count s1 = sl_count s" if "e1 \<noteq> None"
  proof -
    have "subs_at (sl_root s1) = subs_at (sl_root s)" using I that by auto
    then show ?thesis using I that by (simp add: reached_def all_subs_def)
  qed
  then show ?thesis using I sl_Remove_spec [OF assms(1,2,4)] by auto
qed

theorem sublist_errors_witness:
  "fst (sl_Insert (map of_char ''a..b'') (3 :: nat) sl_New) = Some ErrInvalidSubject \<and>
   fst (sl_Remove (map of_char ''a.b'') (3 :: nat) sl_New) = Some ErrNotFound"
proof -
  have v: "\<not> valid_toks False (split (map of_char ''a..b''))" "valid_toks False (split (map of_char ''a.b''))" by code_simp+
  have n: "(0 :: nat) < 2 ^ 32 - 3" by simp
  have "subs_at (sl_root sl_New) p = ([] :: nat list)" for p by (simp add: sl_New_def)
  then show ?thesis
    using sublist_errors [OF sl_New_ok n, where S = "map of_char ''a..b''" and x = "3 :: nat"]
      sublist_errors [OF sl_New_ok n, where S = "map of_char ''a.b''" and x = "3 :: nat"] v
    by (metis empty_iff list.set(1) prod.collapse)
qed

theorem insert_remove_roundtrip_witness:
  "reached (snd (sl_Remove (map of_char ''a.*'') 3 (snd (sl_Insert (map of_char ''a.*'') (3 :: nat) sl_New)))) (map of_char ''a.b'') =
   reached sl_New (map of_char ''a.b'')"
proof -
  have v: "valid_toks False (split (map of_char ''a.*''))" by code_simp
  have n: "(0 :: nat) < 2 ^ 32 - 4" by simp
  show ?thesis using insert_remove_roundtrip [OF sl_New_ok n v, where x = "3 :: nat"] by (metis prod.collapse)
qed

end
