(* ===== verification/NatsParser.thy ===== *)
theory NatsParser
  imports Prelude
begin

text \<open>
  \<open>apcera/gnatsd/server/parser.go\<close>: the protocol parser of a connection, a state machine over
  the bytes of the buffers that the connection reads. It works on slices of the current buffer
  and falls back to copies (\<open>argBuf\<close>, \<open>msgBuf\<close>) when a line or a payload crosses the end of a
  buffer. The methods of the client that it calls are the fields of \<open>callbacks\<close>, instantiated
  by the client's operations in \<open>NatsClient\<close>; \<open>'w\<close> is the state they change.

  Slices are values with the bounds checks of Go: an expression that panics is \<open>None\<close>. Both
  copies live in the array \<open>scratch\<close> of 1024 bytes as long as they fit; they do not overlap
  there, and the one check that the array imposes, on \<open>scratch[n:n]\<close>, is in \<open>finish_msg\<close>.
  \<open>pa.sid\<close> may go on pointing into the read buffer when the next read overwrites it:
  \<open>sid_at\<close> is its place there, and \<open>reread_sid\<close> in \<open>NatsClient\<close> the overwriting.
\<close>

section \<open>State\<close>

record pubArg =
  pa_subject :: "byte list"
  pa_reply :: "byte list option"
  pa_sid :: "byte list"
  pa_szb :: "byte list"
  pa_size :: int
  sid_at :: "nat option"

datatype pstate =
    OP_START | OP_PLUS | OP_PLUS_O | OP_PLUS_OK
  | OP_MINUS | OP_MINUS_E | OP_MINUS_ER | OP_MINUS_ERR | OP_MINUS_ERR_SPC | MINUS_ERR_ARG
  | OP_C | OP_CO | OP_CON | OP_CONN | OP_CONNE | OP_CONNEC | OP_CONNECT | CONNECT_ARG
  | OP_P | OP_PU | OP_PUB | OP_PUB_SPC | PUB_ARG
  | OP_PI | OP_PIN | OP_PING | OP_PO | OP_PON | OP_PONG
  | MSG_PAYLOAD | MSG_END
  | OP_S | OP_SU | OP_SUB | OP_SUB_SPC | SUB_ARG
  | OP_U | OP_UN | OP_UNS | OP_UNSU | OP_UNSUB | UNSUB_ARG
  | OP_M | OP_MS | OP_MSG | OP_MSG_SPC | MSG_ARG
  | OP_I | OP_IN | OP_INF | OP_INFO | INFO_ARG

record parseState =
  state :: pstate
  as_at :: nat
  drop_n :: nat
  pa :: pubArg
  argBuf :: "byte list option"
  msgBuf :: "byte list option"

definition MAX_CONTROL_LINE_SIZE :: nat where "MAX_CONTROL_LINE_SIZE = 1024"
definition PROTO_SNIPPET_SIZE :: nat where "PROTO_SNIPPET_SIZE = 32"
definition LEN_CR_LF :: int where "LEN_CR_LF = 2"

text \<open>Go's \<open>int\<close>, 64 bits with wrap-around.\<close>

definition wrap64 :: "int \<Rightarrow> int" where
  "wrap64 i = (i + 2 ^ 63) mod 2 ^ 64 - 2 ^ 63"

datatype perror = ErrAuthorization | ErrArgs string "byte list" | ErrJSON

text \<open>\<open>None\<close> as the whole result of a callback is a panic inside it.\<close>

record 'w callbacks =
  cb_isAuthTimerSet :: "'w \<Rightarrow> bool"
  cb_authViolation :: "'w \<Rightarrow> 'w"
  cb_sendErr :: "string \<Rightarrow> 'w \<Rightarrow> 'w"
  cb_processPub :: "byte list \<Rightarrow> pubArg \<Rightarrow> 'w \<Rightarrow> (perror option \<times> pubArg \<times> 'w) option"
  cb_processMsgArgs :: "byte list \<Rightarrow> pubArg \<Rightarrow> 'w \<Rightarrow> (perror option \<times> pubArg \<times> 'w) option"
  cb_processMsg :: "pubArg \<Rightarrow> byte list \<Rightarrow> 'w \<Rightarrow> 'w option"
  cb_processSub :: "byte list \<Rightarrow> 'w \<Rightarrow> (perror option \<times> 'w) option"
  cb_processUnsub :: "byte list \<Rightarrow> 'w \<Rightarrow> (perror option \<times> 'w) option"
  cb_processConnect :: "byte list \<Rightarrow> 'w \<Rightarrow> (perror option \<times> 'w) option"
  cb_processInfo :: "byte list \<Rightarrow> 'w \<Rightarrow> (perror option \<times> 'w) option"
  cb_processErr :: "byte list \<Rightarrow> 'w \<Rightarrow> 'w"
  cb_processPing :: "'w \<Rightarrow> 'w"
  cb_processPong :: "'w \<Rightarrow> 'w"

text \<open>
  What one byte does: go on, return an error of a callback, or jump to one of the two error
  labels. \<open>authSet\<close> is the local variable of that name.
\<close>

datatype 'w outcome =
    Next parseState bool 'w
  | Return perror parseState 'w
  | AuthErr parseState 'w
  | ParseErr parseState 'w

text \<open>Slices of the buffer, \<open>None\<close> for bounds out of range.\<close>

definition buf_slice :: "byte list \<Rightarrow> nat \<Rightarrow> int \<Rightarrow> byte list option" where
  "buf_slice buf lo hi = (if int lo \<le> hi \<and> hi \<le> int (length buf) then Some (take (nat hi - lo) (drop lo buf)) else None)"

section \<open>Keywords\<close>

definition ch :: "char \<Rightarrow> char \<Rightarrow> byte \<Rightarrow> bool" where
  "ch C c b \<longleftrightarrow> b = of_char C \<or> b = of_char c"

definition CR :: byte where "CR = 13"
definition LF :: byte where "LF = 10"
definition SPC :: byte where "SPC = 32"
definition TAB :: byte where "TAB = 9"

definition blank :: "byte \<Rightarrow> bool" where
  "blank b \<longleftrightarrow> b = SPC \<or> b = TAB"

text \<open>
  Most states only look at the byte: they go to another state, stay, start an argument at this
  byte, or fail.
\<close>

datatype move = Goto pstate | Stay | Start pstate | Bad

definition start_word :: "byte \<Rightarrow> move" where
  "start_word b =
     (if ch CHR ''P'' CHR ''p'' b then Goto OP_P
      else if ch CHR ''S'' CHR ''s'' b then Goto OP_S
      else if ch CHR ''U'' CHR ''u'' b then Goto OP_U
      else if ch CHR ''M'' CHR ''m'' b then Goto OP_M
      else if ch CHR ''C'' CHR ''c'' b then Goto OP_C
      else if ch CHR ''I'' CHR ''i'' b then Goto OP_I
      else if b = of_char CHR ''+'' then Goto OP_PLUS
      else if b = of_char CHR ''-'' then Goto OP_MINUS
      else Bad)"

text \<open>\<open>PUB\<close>\<close>

definition pub_word :: "pstate \<Rightarrow> byte \<Rightarrow> move" where
  "pub_word s b =
     (if s = OP_P then
        (if ch CHR ''U'' CHR ''u'' b then Goto OP_PU
         else if ch CHR ''I'' CHR ''i'' b then Goto OP_PI
         else if ch CHR ''O'' CHR ''o'' b then Goto OP_PO
         else Bad)
      else if s = OP_PU then (if ch CHR ''B'' CHR ''b'' b then Goto OP_PUB else Bad)
      else if s = OP_PUB then (if blank b then Goto OP_PUB_SPC else Bad)
      else if blank b then Stay else Start PUB_ARG)"

text \<open>\<open>SUB\<close>\<close>

definition sub_word :: "pstate \<Rightarrow> byte \<Rightarrow> move" where
  "sub_word s b =
     (if s = OP_S then (if ch CHR ''U'' CHR ''u'' b then Goto OP_SU else Bad)
      else if s = OP_SU then (if ch CHR ''B'' CHR ''b'' b then Goto OP_SUB else Bad)
      else if s = OP_SUB then (if blank b then Goto OP_SUB_SPC else Bad)
      else if blank b then Stay else Start SUB_ARG)"

text \<open>\<open>UNSUB\<close>\<close>

definition unsub_word :: "pstate \<Rightarrow> byte \<Rightarrow> move" where
  "unsub_word s b =
     (if s = OP_U then (if ch CHR ''N'' CHR ''n'' b then Goto OP_UN else Bad)
      else if s = OP_UN then (if ch CHR ''S'' CHR ''s'' b then Goto OP_UNS else Bad)
      else if s = OP_UNS then (if ch CHR ''U'' CHR ''u'' b then Goto OP_UNSU else Bad)
      else if s = OP_UNSU then (if ch CHR ''B'' CHR ''b'' b then Goto OP_UNSUB else Bad)
      else if blank b then Stay else Start UNSUB_ARG)"

text \<open>\<open>PING\<close> and \<open>PONG\<close> up to their last letters\<close>

definition ping_word :: "pstate \<Rightarrow> byte \<Rightarrow> move" where
  "ping_word s b =
     (if s = OP_PI then (if ch CHR ''N'' CHR ''n'' b then Goto OP_PIN else Bad)
      else if s = OP_PIN then (if ch CHR ''G'' CHR ''g'' b then Goto OP_PING else Bad)
      else if s = OP_PO then (if ch CHR ''N'' CHR ''n'' b then Goto OP_PON else Bad)
      else if ch CHR ''G'' CHR ''g'' b then Goto OP_PONG else Bad)"

text \<open>\<open>CONNECT\<close>\<close>

definition connect_word :: "pstate \<Rightarrow> byte \<Rightarrow> move" where
  "connect_word s b =
     (if s = OP_C then (if ch CHR ''O'' CHR ''o'' b then Goto OP_CO else Bad)
      else if s = OP_CO then (if ch CHR ''N'' CHR ''n'' b then Goto OP_CON else Bad)
      else if s = OP_CON then (if ch CHR ''N'' CHR ''n'' b then Goto OP_CONN else Bad)
      else if s = OP_CONN then (if ch CHR ''E'' CHR ''e'' b then Goto OP_CONNE else Bad)
      else if s = OP_CONNE then (if ch CHR ''C'' CHR ''c'' b then Goto OP_CONNEC else Bad)
      else if s = OP_CONNEC then (if ch CHR ''T'' CHR ''t'' b then Goto OP_CONNECT else Bad)
      else if blank b then Stay else Start CONNECT_ARG)"

text \<open>\<open>MSG\<close>\<close>

definition msg_word :: "pstate \<Rightarrow> byte \<Rightarrow> move" where
  "msg_word s b =
     (if s = OP_M then (if ch CHR ''S'' CHR ''s'' b then Goto OP_MS else Bad)
      else if s = OP_MS then (if ch CHR ''G'' CHR ''g'' b then Goto OP_MSG else Bad)
      else if s = OP_MSG then (if blank b then Goto OP_MSG_SPC else Bad)
      else if blank b then Stay else Start MSG_ARG)"

text \<open>\<open>INFO\<close>\<close>

definition info_word :: "pstate \<Rightarrow> byte \<Rightarrow> move" where
  "info_word s b =
     (if s = OP_I then (if ch CHR ''N'' CHR ''n'' b then Goto OP_IN else Bad)
      else if s = OP_IN then (if ch CHR ''F'' CHR ''f'' b then Goto OP_INF else Bad)
      else if s = OP_INF then (if ch CHR ''O'' CHR ''o'' b then Goto OP_INFO else Bad)
      else if blank b then Stay else Start INFO_ARG)"

text \<open>\<open>+OK\<close> and \<open>-ERR\<close> up to its argument\<close>

definition sign_word :: "pstate \<Rightarrow> byte \<Rightarrow> move" where
  "sign_word s b =
     (if s = OP_PLUS then (if ch CHR ''O'' CHR ''o'' b then Goto OP_PLUS_O else Bad)
      else if s = OP_PLUS_O then (if ch CHR ''K'' CHR ''k'' b then Goto OP_PLUS_OK else Bad)
      else if s = OP_MINUS then (if ch CHR ''E'' CHR ''e'' b then Goto OP_MINUS_E else Bad)
      else if s = OP_MINUS_E then (if ch CHR ''R'' CHR ''r'' b then Goto OP_MINUS_ER else Bad)
      else if s = OP_MINUS_ER then (if ch CHR ''R'' CHR ''r'' b then Goto OP_MINUS_ERR else Bad)
      else if s = OP_MINUS_ERR then (if blank b then Goto OP_MINUS_ERR_SPC else Bad)
      else if blank b then Stay else Start MINUS_ERR_ARG)"

definition moved :: "move \<Rightarrow> nat \<Rightarrow> parseState \<Rightarrow> bool \<Rightarrow> 'w \<Rightarrow> 'w outcome" where
  "moved m i ps au w =
     (case m of
        Goto s \<Rightarrow> Next (ps\<lparr>state := s\<rparr>) au w
      | Stay \<Rightarrow> Next ps au w
      | Start s \<Rightarrow> Next (ps\<lparr>state := s, as_at := i\<rparr>) au w
      | Bad \<Rightarrow> ParseErr ps w)"

section \<open>Arguments\<close>

text \<open>
  All argument states treat bytes other than the line feed alike: a carriage return asks for one
  byte to be dropped, any other byte goes to the copy, if there is one.
\<close>

definition arg_byte :: "byte \<Rightarrow> parseState \<Rightarrow> parseState" where
  "arg_byte b ps =
     (if b = CR then ps\<lparr>drop_n := 1\<rparr> else ps\<lparr>argBuf := map_option (\<lambda>a. a @ [b]) (argBuf ps)\<rparr>)"

definition the_arg :: "byte list \<Rightarrow> nat \<Rightarrow> parseState \<Rightarrow> byte list option" where
  "the_arg buf i ps =
     (case argBuf ps of Some a \<Rightarrow> Some a | None \<Rightarrow> buf_slice buf (as_at ps) (int i - int (drop_n ps)))"

definition pub_arg :: "'w callbacks \<Rightarrow> byte list \<Rightarrow> nat \<Rightarrow> byte \<Rightarrow> parseState \<Rightarrow> bool \<Rightarrow> 'w \<Rightarrow> 'w outcome option" where
  "pub_arg cb buf i b ps au w =
     (if b \<noteq> LF then Some (Next (arg_byte b ps) au w)
      else do {
        arg \<leftarrow> the_arg buf i ps;
        (e, pa1, w1) \<leftarrow> cb_processPub cb arg (pa ps) w;
        Some (case e of
            Some err \<Rightarrow> Return err (ps\<lparr>pa := pa1\<rparr>) w1
          | None \<Rightarrow> Next (ps\<lparr>pa := pa1, drop_n := 0, as_at := i + 1, state := MSG_PAYLOAD\<rparr>) au w1) })"

text \<open>The offset that \<open>processMsgArgs\<close> reports for the sid is relative to the argument.\<close>

definition msg_arg :: "'w callbacks \<Rightarrow> byte list \<Rightarrow> nat \<Rightarrow> byte \<Rightarrow> parseState \<Rightarrow> bool \<Rightarrow> 'w \<Rightarrow> 'w outcome option" where
  "msg_arg cb buf i b ps au w =
     (if b \<noteq> LF then Some (Next (arg_byte b ps) au w)
      else do {
        arg \<leftarrow> the_arg buf i ps;
        (e, pa0, w1) \<leftarrow> cb_processMsgArgs cb arg (pa ps) w;
        let pa1 = pa0\<lparr>sid_at := (if argBuf ps = None then map_option (\<lambda>k. as_at ps + k) (sid_at pa0) else None)\<rparr>;
        Some (case e of
            Some err \<Rightarrow> Return err (ps\<lparr>pa := pa1\<rparr>) w1
          | None \<Rightarrow> Next (ps\<lparr>pa := pa1, drop_n := 0, as_at := i + 1, state := MSG_PAYLOAD\<rparr>) au w1) })"

text \<open>\<open>SUB_ARG\<close>, \<open>UNSUB_ARG\<close>: the copy is given up before the call.\<close>

definition sub_arg ::
  "(byte list \<Rightarrow> 'w \<Rightarrow> (perror option \<times> 'w) option) \<Rightarrow> byte list \<Rightarrow> nat \<Rightarrow> byte \<Rightarrow> parseState \<Rightarrow> bool \<Rightarrow> 'w \<Rightarrow> 'w outcome option" where
  "sub_arg process buf i b ps au w =
     (if b \<noteq> LF then Some (Next (arg_byte b ps) au w)
      else do {
        arg \<leftarrow> the_arg buf i ps;
        (e, w1) \<leftarrow> process arg w;
        Some (case e of
            Some err \<Rightarrow> Return err (ps\<lparr>argBuf := None\<rparr>) w1
          | None \<Rightarrow> Next (ps\<lparr>argBuf := None, drop_n := 0, as_at := i + 1, state := OP_START\<rparr>) au w1) })"

definition err_arg :: "'w callbacks \<Rightarrow> byte list \<Rightarrow> nat \<Rightarrow> byte \<Rightarrow> parseState \<Rightarrow> bool \<Rightarrow> 'w \<Rightarrow> 'w outcome option" where
  "err_arg cb buf i b ps au w =
     (if b \<noteq> LF then Some (Next (arg_byte b ps) au w)
      else do {
        arg \<leftarrow> the_arg buf i ps;
        Some (Next (ps\<lparr>argBuf := None, drop_n := 0, as_at := i + 1, state := OP_START\<rparr>) au (cb_processErr cb arg w)) })"

text \<open>\<open>CONNECT_ARG\<close> and \<open>INFO_ARG\<close> have no copy: they always slice the current buffer.\<close>

definition connect_arg :: "'w callbacks \<Rightarrow> byte list \<Rightarrow> nat \<Rightarrow> byte \<Rightarrow> parseState \<Rightarrow> bool \<Rightarrow> 'w \<Rightarrow> 'w outcome option" where
  "connect_arg cb buf i b ps au w =
     (if b = CR then Some (Next (ps\<lparr>drop_n := 1\<rparr>) au w)
      else if b = LF then do {
        arg \<leftarrow> buf_slice buf (as_at ps) (int i - int (drop_n ps));
        (e, w1) \<leftarrow> cb_processConnect cb arg w;
        Some (case e of
            Some err \<Rightarrow> Return err ps w1
          | None \<Rightarrow> Next (ps\<lparr>drop_n := 0, state := OP_START\<rparr>) (cb_isAuthTimerSet cb w1) w1) }
      else Some (Next ps au w))"

definition info_arg :: "'w callbacks \<Rightarrow> byte list \<Rightarrow> nat \<Rightarrow> byte \<Rightarrow> parseState \<Rightarrow> bool \<Rightarrow> 'w \<Rightarrow> 'w outcome option" where
  "info_arg cb buf i b ps au w =
     (if b = CR then Some (Next (ps\<lparr>drop_n := 1\<rparr>) au w)
      else if b = LF then do {
        arg \<leftarrow> buf_slice buf (as_at ps) (int i - int (drop_n ps));
        (e, w1) \<leftarrow> cb_processInfo cb arg w;
        Some (case e of
            Some err \<Rightarrow> Return err ps w1
          | None \<Rightarrow> Next (ps\<lparr>drop_n := 0, state := OP_START\<rparr>) au w1) }
      else Some (Next ps au w))"

section \<open>Payloads\<close>

definition payload :: "nat \<Rightarrow> byte \<Rightarrow> parseState \<Rightarrow> parseState" where
  "payload i b ps =
     (case msgBuf ps of
        Some m \<Rightarrow>
          let ps1 = ps\<lparr>msgBuf := Some (m @ [b])\<rparr> in
          if int (length (m @ [b])) \<ge> pa_size (pa ps) then ps1\<lparr>state := MSG_END\<rparr> else ps1
      | None \<Rightarrow> if int i - int (as_at ps) \<ge> pa_size (pa ps) then ps\<lparr>state := MSG_END\<rparr> else ps)"

definition msg_end :: "'w callbacks \<Rightarrow> byte list \<Rightarrow> nat \<Rightarrow> byte \<Rightarrow> parseState \<Rightarrow> bool \<Rightarrow> 'w \<Rightarrow> 'w outcome option" where
  "msg_end cb buf i b ps au w =
     (if b = LF then do {
        m \<leftarrow> (case msgBuf ps of Some m \<Rightarrow> Some (m @ [b]) | None \<Rightarrow> buf_slice buf (as_at ps) (int i + 1));
        let ps1 = ps\<lparr>msgBuf := Some m\<rparr>;
        if int (length m) \<noteq> wrap64 (pa_size (pa ps) + LEN_CR_LF) then Some (ParseErr ps1 w)
        else do {
          w1 \<leftarrow> cb_processMsg cb (pa ps) m w;
          Some (Next (ps\<lparr>argBuf := None, msgBuf := None, drop_n := 0, as_at := i + 1, state := OP_START\<rparr>) au w1) } }
      else Some (Next (ps\<lparr>msgBuf := map_option (\<lambda>m. m @ [b]) (msgBuf ps)\<rparr>) au w))"

section \<open>The switch\<close>

text \<open>\<open>OP_PING\<close>, \<open>OP_PONG\<close> and \<open>OP_PLUS_OK\<close> wait for the line feed.\<close>

definition line_end :: "('w \<Rightarrow> 'w) \<Rightarrow> byte \<Rightarrow> parseState \<Rightarrow> bool \<Rightarrow> 'w \<Rightarrow> 'w outcome" where
  "line_end process b ps au w =
     (if b = LF then Next (ps\<lparr>drop_n := 0, state := OP_START\<rparr>) au (process w) else Next ps au w)"

definition step :: "'w callbacks \<Rightarrow> byte list \<Rightarrow> nat \<Rightarrow> byte \<Rightarrow> parseState \<Rightarrow> bool \<Rightarrow> 'w \<Rightarrow> 'w outcome option" where
  "step cb buf i b ps au w =
     (let s = state ps; word = (\<lambda>f. Some (moved (f s b) i ps au w)) in
      case s of
        OP_START \<Rightarrow>
          if \<not> ch CHR ''C'' CHR ''c'' b \<and> au then Some (AuthErr ps w) else word (\<lambda>_. start_word)
      | OP_P \<Rightarrow> word pub_word | OP_PU \<Rightarrow> word pub_word | OP_PUB \<Rightarrow> word pub_word | OP_PUB_SPC \<Rightarrow> word pub_word
      | PUB_ARG \<Rightarrow> pub_arg cb buf i b ps au w
      | MSG_PAYLOAD \<Rightarrow> Some (Next (payload i b ps) au w)
      | MSG_END \<Rightarrow> msg_end cb buf i b ps au w
      | OP_S \<Rightarrow> word sub_word | OP_SU \<Rightarrow> word sub_word | OP_SUB \<Rightarrow> word sub_word | OP_SUB_SPC \<Rightarrow> word sub_word
      | SUB_ARG \<Rightarrow> sub_arg (cb_processSub cb) buf i b ps au w
      | OP_U \<Rightarrow> word unsub_word | OP_UN \<Rightarrow> word unsub_word | OP_UNS \<Rightarrow> word unsub_word
      | OP_UNSU \<Rightarrow> word unsub_word | OP_UNSUB \<Rightarrow> word unsub_word
      | UNSUB_ARG \<Rightarrow> sub_arg (cb_processUnsub cb) buf i b ps au w
      | OP_PI \<Rightarrow> word ping_word | OP_PIN \<Rightarrow> word ping_word
      | OP_PING \<Rightarrow> Some (line_end (cb_processPing cb) b ps au w)
      | OP_PO \<Rightarrow> word ping_word | OP_PON \<Rightarrow> word ping_word
      | OP_PONG \<Rightarrow> Some (line_end (cb_processPong cb) b ps au w)
      | OP_C \<Rightarrow> word connect_word | OP_CO \<Rightarrow> word connect_word | OP_CON \<Rightarrow> word connect_word
      | OP_CONN \<Rightarrow> word connect_word | OP_CONNE \<Rightarrow> word connect_word | OP_CONNEC \<Rightarrow> word connect_word
      | OP_CONNECT \<Rightarrow> word connect_word
      | CONNECT_ARG \<Rightarrow> connect_arg cb buf i b ps au w
      | OP_M \<Rightarrow> word msg_word | OP_MS \<Rightarrow> word msg_word | OP_MSG \<Rightarrow> word msg_word | OP_MSG_SPC \<Rightarrow> word msg_word
      | MSG_ARG \<Rightarrow> msg_arg cb buf i b ps au w
      | OP_I \<Rightarrow> word info_word | OP_IN \<Rightarrow> word info_word | OP_INF \<Rightarrow> word info_word | OP_INFO \<Rightarrow> word info_word
      | INFO_ARG \<Rightarrow> info_arg cb buf i b ps au w
      | OP_PLUS \<Rightarrow> word sign_word | OP_PLUS_O \<Rightarrow> word sign_word
      | OP_PLUS_OK \<Rightarrow> Some (line_end (\<lambda>w. w) b ps au w)
      | OP_MINUS \<Rightarrow> word sign_word | OP_MINUS_E \<Rightarrow> word sign_word | OP_MINUS_ER \<Rightarrow> word sign_word
      | OP_MINUS_ERR \<Rightarrow> word sign_word | OP_MINUS_ERR_SPC \<Rightarrow> word sign_word
      | MINUS_ERR_ARG \<Rightarrow> err_arg cb buf i b ps au w)"

section \<open>The end of a buffer\<close>

definition clonePubArg :: "parseState \<Rightarrow> parseState" where
  "clonePubArg ps =
     (let p = pa ps;
          a = pa_subject p @ (case pa_reply p of None \<Rightarrow> [] | Some r \<Rightarrow> r) @ pa_szb p;
          n = length (pa_subject p);
          k = (case pa_reply p of None \<Rightarrow> 0 | Some r \<Rightarrow> length r)
      in ps\<lparr>argBuf := Some a,
            pa := p\<lparr>pa_subject := take n a,
                     pa_reply := map_option (\<lambda>_. take k (drop n a)) (pa_reply p),
                     pa_szb := drop (n + k) a\<rparr>\<rparr>)"

definition split_arg_state :: "pstate \<Rightarrow> bool" where
  "split_arg_state s \<longleftrightarrow> s = SUB_ARG \<or> s = UNSUB_ARG \<or> s = PUB_ARG \<or> s = MSG_ARG \<or> s = MINUS_ERR_ARG"

text \<open>\<open>i\<close> is the last index of the buffer, 0 if it is empty.\<close>

definition finish_arg :: "byte list \<Rightarrow> parseState \<Rightarrow> parseState option" where
  "finish_arg buf ps =
     (if split_arg_state (state ps) \<and> argBuf ps = None then
        do { a \<leftarrow> buf_slice buf (as_at ps) (int (length buf - 1) + 1 - int (drop_n ps));
             Some (ps\<lparr>argBuf := Some a\<rparr>) }
      else Some ps)"

definition finish_msg :: "byte list \<Rightarrow> parseState \<Rightarrow> parseState option" where
  "finish_msg buf ps =
     (if (state ps = MSG_PAYLOAD \<or> state ps = MSG_END) \<and> msgBuf ps = None then
        let ps1 = (if argBuf ps = None then clonePubArg ps else ps) in
        if length (the (argBuf ps1)) > MAX_CONTROL_LINE_SIZE then None
        else do { m \<leftarrow> buf_slice buf (as_at ps1) (int (length buf)); Some (ps1\<lparr>msgBuf := Some m\<rparr>) }
      else Some ps)"

text \<open>The part of the buffer that an error message quotes.\<close>

definition protoSnippet :: "nat \<Rightarrow> byte list \<Rightarrow> byte list option" where
  "protoSnippet start buf =
     (let stop = start + PROTO_SNIPPET_SIZE;
          stop = (if stop > length buf then int (length buf) - 1 else int stop)
      in buf_slice buf start stop)"

datatype 'w parsed =
    Parsed parseState 'w
  | Failed perror parseState 'w
  | Protocol_error pstate nat "byte list" parseState 'w

fun parse_loop :: "'w callbacks \<Rightarrow> byte list \<Rightarrow> nat \<Rightarrow> byte list \<Rightarrow> parseState \<Rightarrow> bool \<Rightarrow> 'w \<Rightarrow> 'w parsed option" where
  "parse_loop cb buf i [] ps au w =
     do { ps1 \<leftarrow> finish_arg buf ps; ps2 \<leftarrow> finish_msg buf ps1; Some (Parsed ps2 w) }"
| "parse_loop cb buf i (b # bs) ps au w =
     do { r \<leftarrow> step cb buf i b ps au w;
          case r of
            Next ps1 au1 w1 \<Rightarrow> parse_loop cb buf (i + 1) bs ps1 au1 w1
          | Return e ps1 w1 \<Rightarrow> Some (Failed e ps1 w1)
          | AuthErr ps1 w1 \<Rightarrow> Some (Failed ErrAuthorization ps1 (cb_authViolation cb w1))
          | ParseErr ps1 w1 \<Rightarrow>
              do { snip \<leftarrow> protoSnippet i buf;
                   Some (Protocol_error (state ps1) i snip ps1 (cb_sendErr cb ''Unknown Protocol Operation'' w1)) } }"

definition parse :: "'w callbacks \<Rightarrow> byte list \<Rightarrow> parseState \<Rightarrow> 'w \<Rightarrow> 'w parsed option" where
  "parse cb buf ps w = parse_loop cb buf 0 buf ps (cb_isAuthTimerSet cb w) w"

definition newParse :: parseState where
  "newParse = \<lparr>state = OP_START, as_at = 0, drop_n = 0,
     pa = \<lparr>pa_subject = [], pa_reply = None, pa_sid = [], pa_szb = [], pa_size = 0, sid_at = None\<rparr>,
     argBuf = None, msgBuf = None\<rparr>"

end
