(* ===== verification/NatsStream.thy ===== *)
theory NatsStream
  imports NatsParser
begin

text \<open>
  The parser against a reference that reads a byte stream and knows nothing of buffers:
  \<open>ref_step\<close> collects the bytes of an argument or a payload one by one. However the stream is
  cut into buffers, the parser makes the same calls (\<open>parse_chunks_ref\<close>), as long as the
  reference accepts the stream; it refuses what the code treats differently at a cut: carriage
  returns inside a line, publish lines of more than 1024 bytes, \<open>CONNECT\<close>, \<open>INFO\<close> and \<open>MSG\<close> lines.
  On the other commands, written out by \<open>render\<close>, the reference does what \<open>exec\<close> says.
\<close>

section \<open>The reference\<close>

datatype pos = Word pstate | Arg pstate "byte list" bool | Payload "byte list"

type_synonym 'w ref_state = "pos \<times> pubArg \<times> 'w"

definition word_move :: "pstate \<Rightarrow> byte \<Rightarrow> move option" where
  "word_move s b =
     (if s = OP_START then Some (start_word b)
      else if s \<in> {OP_P, OP_PU, OP_PUB, OP_PUB_SPC} then Some (pub_word s b)
      else if s \<in> {OP_S, OP_SU, OP_SUB, OP_SUB_SPC} then Some (sub_word s b)
      else if s \<in> {OP_U, OP_UN, OP_UNS, OP_UNSU, OP_UNSUB} then Some (unsub_word s b)
      else if s \<in> {OP_PI, OP_PIN, OP_PO, OP_PON} then Some (ping_word s b)
      else if s \<in> {OP_PLUS, OP_PLUS_O, OP_MINUS, OP_MINUS_E, OP_MINUS_ER, OP_MINUS_ERR, OP_MINUS_ERR_SPC}
      then Some (sign_word s b)
      else None)"

definition ref_word :: "'w callbacks \<Rightarrow> byte \<Rightarrow> pstate \<Rightarrow> pubArg \<Rightarrow> 'w \<Rightarrow> 'w ref_state option" where
  "ref_word cb b s p w =
     (if s = OP_PING then Some (if b = LF then (Word OP_START, p, cb_processPing cb w) else (Word s, p, w))
      else if s = OP_PONG then Some (if b = LF then (Word OP_START, p, cb_processPong cb w) else (Word s, p, w))
      else if s = OP_PLUS_OK then Some (if b = LF then (Word OP_START, p, w) else (Word s, p, w))
      else
        do { m \<leftarrow> word_move s b;
             case m of
               Goto s1 \<Rightarrow> Some (Word s1, p, w)
             | Stay \<Rightarrow> Some (Word s, p, w)
             | Start s1 \<Rightarrow> Some (Arg s1 [b] False, p, w)
             | Bad \<Rightarrow> None })"

definition fits :: "byte list \<Rightarrow> bool" where
  "fits a \<longleftrightarrow> length a \<le> MAX_CONTROL_LINE_SIZE"

definition ref_line :: "'w callbacks \<Rightarrow> pstate \<Rightarrow> byte list \<Rightarrow> pubArg \<Rightarrow> 'w \<Rightarrow> 'w ref_state option" where
  "ref_line cb s a p w =
     (if s = PUB_ARG then
        do { (e, p1, w1) \<leftarrow> cb_processPub cb a p w;
             if e = None \<and> fits a \<and> pa_size p1 + LEN_CR_LF < 2 ^ 63 then Some (Payload [], p1, w1) else None }
      else if s = SUB_ARG then
        do { (e, w1) \<leftarrow> cb_processSub cb a w; if e = None then Some (Word OP_START, p, w1) else None }
      else if s = UNSUB_ARG then
        do { (e, w1) \<leftarrow> cb_processUnsub cb a w; if e = None then Some (Word OP_START, p, w1) else None }
      else if s = MINUS_ERR_ARG then Some (Word OP_START, p, cb_processErr cb a w)
      else None)"

fun ref_step :: "'w callbacks \<Rightarrow> byte \<Rightarrow> 'w ref_state \<Rightarrow> 'w ref_state option" where
  "ref_step cb b (Word s, p, w) = (if cb_isAuthTimerSet cb w then None else ref_word cb b s p w)"
| "ref_step cb b (Arg s a cr, p, w) =
     (if cb_isAuthTimerSet cb w then None
      else if b = LF then ref_line cb s a p w
      else if cr then None
      else if b = CR then Some (Arg s a True, p, w)
      else Some (Arg s (a @ [b]) False, p, w))"
| "ref_step cb b (Payload m, p, w) =
     (if cb_isAuthTimerSet cb w then None
      else if int (length m) < pa_size p then Some (Payload (m @ [b]), p, w)
      else if int (length m) = pa_size p then (if b = LF then None else Some (Payload (m @ [b]), p, w))
      else if b = LF then do { w1 \<leftarrow> cb_processMsg cb p (m @ [b]) w; Some (Word OP_START, p, w1) }
      else None)"

fun ref_run :: "'w callbacks \<Rightarrow> byte list \<Rightarrow> 'w ref_state \<Rightarrow> 'w ref_state option" where
  "ref_run cb [] st = Some st"
| "ref_run cb (b # bs) st = do { st1 \<leftarrow> ref_step cb b st; ref_run cb bs st1 }"

lemma ref_run_append: "ref_run cb (xs @ ys) st = Option.bind (ref_run cb xs st) (ref_run cb ys)"
  by (induction xs arbitrary: st) (auto split: bind_splits)

text \<open>Parsing the buffers of a connection one after another.\<close>

fun parse_chunks :: "'w callbacks \<Rightarrow> byte list list \<Rightarrow> parseState \<Rightarrow> 'w \<Rightarrow> 'w parsed option" where
  "parse_chunks cb [] ps w = Some (Parsed ps w)"
| "parse_chunks cb (c # cs) ps w =
     do { r \<leftarrow> parse cb c ps w;
          case r of Parsed ps1 w1 \<Rightarrow> parse_chunks cb cs ps1 w1 | _ \<Rightarrow> Some r }"

section \<open>What a client's operations promise the parser\<close>

definition clone_len :: "pubArg \<Rightarrow> nat" where
  "clone_len p = length (pa_subject p) + (case pa_reply p of None \<Rightarrow> 0 | Some r \<Rightarrow> length r) + length (pa_szb p)"

text \<open>
  The parts of a publish line are no longer than the line, so they fit where it fits, and its
  size is not negative.
\<close>

locale line_parser =
  fixes cb :: "'w callbacks"
  assumes pub_parts: "cb_processPub cb a p w = Some (None, p1, w1) \<Longrightarrow> clone_len p1 \<le> length a"
    and pub_size: "cb_processPub cb a p w = Some (None, p1, w1) \<Longrightarrow> 0 \<le> pa_size p1"
begin

lemma pub_line: "ref_line cb s a p w = Some (Payload m, p1, w1) \<Longrightarrow>
    s = PUB_ARG \<and> m = [] \<and> cb_processPub cb a p w = Some (None, p1, w1) \<and> fits a \<and> clone_len p1 \<le> MAX_CONTROL_LINE_SIZE \<and>
    0 \<le> pa_size p1 \<and> pa_size p1 + LEN_CR_LF < 2 ^ 63"
  using pub_parts [of a p w p1 w1] pub_size [of a p w p1 w1]
  by (auto simp: ref_line_def fits_def split: if_splits bind_splits)

end

section \<open>Slices\<close>

lemma slice_empty [simp]: "i \<le> length buf \<Longrightarrow> buf_slice buf i (int i) = Some []"
  by (simp add: buf_slice_def)

lemma slice_snoc:
  assumes "buf_slice buf lo (int i) = Some a" and "i < length buf"
  shows "buf_slice buf lo (int i + 1) = Some (a @ [buf ! i])"
proof -
  have lo: "lo \<le> i" and a: "a = take (i - lo) (drop lo buf)" using assms(1) by (auto simp: buf_slice_def split: if_splits)
  have "Suc i - lo = Suc (i - lo)" "i - lo < length (drop lo buf)" using lo assms(2) by simp_all
  then have "take (Suc i - lo) (drop lo buf) = a @ [buf ! i]" using lo by (simp add: take_Suc_conv_app_nth a)
  then show ?thesis using lo assms(2) by (simp add: buf_slice_def nat_add_distrib)
qed

section \<open>The simulation\<close>

definition arg_state :: "pstate \<Rightarrow> bool" where
  "arg_state s \<longleftrightarrow> s = PUB_ARG \<or> s = SUB_ARG \<or> s = UNSUB_ARG \<or> s = MINUS_ERR_ARG"

definition word_state :: "pstate \<Rightarrow> bool" where
  "word_state s \<longleftrightarrow> \<not> split_arg_state s \<and> s \<noteq> MSG_PAYLOAD \<and> s \<noteq> MSG_END"

text \<open>
  Before byte \<open>i\<close> of a buffer: what the reference has collected is in the copy, or it is the part
  of the buffer from \<open>as\<close> on.
\<close>

fun holds :: "byte list \<Rightarrow> nat \<Rightarrow> pos \<Rightarrow> parseState \<Rightarrow> bool" where
  "holds buf i (Word s) ps \<longleftrightarrow> state ps = s \<and> word_state s \<and> drop_n ps = 0 \<and> argBuf ps = None \<and> msgBuf ps = None"
| "holds buf i (Arg s a cr) ps \<longleftrightarrow> state ps = s \<and> arg_state s \<and> drop_n ps = (if cr then 1 else 0) \<and> msgBuf ps = None \<and>
     (argBuf ps = Some a \<or> argBuf ps = None \<and> buf_slice buf (as_at ps) (int i - int (drop_n ps)) = Some a)"
| "holds buf i (Payload m) ps \<longleftrightarrow> drop_n ps = 0 \<and>
     (state ps = MSG_PAYLOAD \<and> int (length m) \<le> pa_size (pa ps) \<or>
      state ps = MSG_END \<and> pa_size (pa ps) \<le> int (length m) \<and> int (length m) \<le> pa_size (pa ps) + 1) \<and>
     0 \<le> pa_size (pa ps) \<and> pa_size (pa ps) + LEN_CR_LF < 2 ^ 63 \<and> clone_len (pa ps) \<le> MAX_CONTROL_LINE_SIZE \<and>
     (case argBuf ps of None \<Rightarrow> True | Some x \<Rightarrow> fits x) \<and>
     (msgBuf ps = Some m \<and> argBuf ps \<noteq> None \<or> msgBuf ps = None \<and> buf_slice buf (as_at ps) (int i) = Some m)"

lemma step_word:
  assumes "word_move (state ps) b = Some m"
  shows "step cb buf i b ps False w = Some (moved m i ps False w)"
  using assms unfolding word_move_def step_def Let_def by (cases "state ps") simp_all

lemma Start_arg: "word_move s b = Some (Start s1) \<Longrightarrow> arg_state s1"
  unfolding word_move_def
  by (auto simp: start_word_def pub_word_def sub_word_def unsub_word_def ping_word_def sign_word_def arg_state_def
      split: if_splits)

lemma Goto_word: "word_move s b = Some (Goto s1) \<Longrightarrow> word_state s1"
  unfolding word_move_def
  by (auto simp: start_word_def pub_word_def sub_word_def unsub_word_def ping_word_def sign_word_def word_state_def
      split_arg_state_def split: if_splits)

lemma word_state_START [simp]: "word_state OP_START"
  by (simp add: word_state_def split_arg_state_def)

lemma line_states: "word_move OP_PING b = None" "word_move OP_PONG b = None" "word_move OP_PLUS_OK b = None"
  by (simp_all add: word_move_def)

lemma sim_word:
  assumes h: "holds buf i (Word s) ps" and i: "i < length buf"
    and r: "ref_word cb (buf ! i) s (pa ps) w = Some (q', p', w')"
  shows "\<exists>ps'. step cb buf i (buf ! i) ps False w = Some (Next ps' False w') \<and> pa ps' = p' \<and> holds buf (Suc i) q' ps'"
proof -
  consider (line) "s = OP_PING \<or> s = OP_PONG \<or> s = OP_PLUS_OK"
    | (word) m where "word_move s (buf ! i) = Some m" "s \<noteq> OP_PING" "s \<noteq> OP_PONG" "s \<noteq> OP_PLUS_OK"
    using r by (auto simp: ref_word_def split: if_splits bind_splits)
  then show ?thesis
  proof cases
    case line
    then show ?thesis using h r by (auto simp: ref_word_def step_def line_end_def Let_def split: if_splits)
  next
    case (word m)
    have st: "step cb buf i (buf ! i) ps False w = Some (moved m i ps False w)"
      by (rule step_word) (use h word(1) in simp)
    have sl: "buf_slice buf i (int (Suc i)) = Some [buf ! i]"
      using slice_snoc [OF slice_empty i] i by (simp add: add.commute)
    show ?thesis
    proof (cases m)
      case (Start s1)
      then have "arg_state s1" using Start_arg word(1) by simp
      then show ?thesis using st Start h r word sl by (simp add: ref_word_def moved_def) force
    qed (use st h r word Goto_word in \<open>auto simp: ref_word_def moved_def\<close>)
  qed
qed

lemma the_arg_holds: "holds buf i (Arg s a cr) ps \<Longrightarrow> the_arg buf i ps = Some a"
  by (auto simp: the_arg_def)

lemma sim_arg_byte:
  assumes "holds buf i (Arg s a cr) ps" and "i < length buf" and "buf ! i \<noteq> LF" and "\<not> cr"
  shows "holds buf (Suc i) (if buf ! i = CR then Arg s a True else Arg s (a @ [buf ! i]) False) (arg_byte (buf ! i) ps) \<and>
    pa (arg_byte (buf ! i) ps) = pa ps"
proof (cases "argBuf ps")
  case None
  then have "buf_slice buf (as_at ps) (int i) = Some a" using assms(1,4) by auto
  from slice_snoc [OF this assms(2)] this show ?thesis using assms None by (auto simp: arg_byte_def add.commute)
next
  case (Some x)
  then show ?thesis using assms by (auto simp: arg_byte_def)
qed

lemma sim_line:
  assumes h: "holds buf i (Arg s a cr) ps" and i: "i < length buf" and b: "buf ! i = LF"
    and r: "ref_line cb s a (pa ps) w = Some (q', p', w')" and cb: "line_parser cb"
  shows "\<exists>ps'. step cb buf i (buf ! i) ps False w = Some (Next ps' False w') \<and> pa ps' = p' \<and> holds buf (Suc i) q' ps'"
proof -
  note arg = the_arg_holds [OF h]
  have s: "state ps = s" "arg_state s" "msgBuf ps = None" using h by simp_all
  show ?thesis
  proof (cases "s = PUB_ARG")
    case True
    then obtain p1 w1 where p: "cb_processPub cb a (pa ps) w = Some (None, p1, w1)" "q' = Payload []" "p' = p1" "w' = w1"
      "fits a" using r by (auto simp: ref_line_def split: bind_splits if_splits)
    have "ref_line cb s a (pa ps) w = Some (Payload [], p1, w1)" using r p by simp
    from line_parser.pub_line [OF cb this] have q: "clone_len p1 \<le> MAX_CONTROL_LINE_SIZE" "0 \<le> pa_size p1"
      "pa_size p1 + LEN_CR_LF < 2 ^ 63" by simp_all
    have "argBuf ps = None \<or> argBuf ps = Some a" using h by auto
    moreover have "buf_slice buf (Suc i) (int (Suc i)) = Some []" by (rule slice_empty) (use i in simp)
    moreover have "step cb buf i (buf ! i) ps False w =
        Some (Next (ps\<lparr>pa := p1, drop_n := 0, as_at := i + 1, state := MSG_PAYLOAD\<rparr>) False w1)"
      using s True b arg p(1) by (simp add: step_def pub_arg_def)
    ultimately show ?thesis using q p(2-5) s(3) by (auto simp: fits_def)
  next
    case False
    then consider "s = SUB_ARG" | "s = UNSUB_ARG" | "s = MINUS_ERR_ARG" using s(2) by (auto simp: arg_state_def)
    then show ?thesis
      by cases (use r s b arg in \<open>auto simp: ref_line_def step_def sub_arg_def err_arg_def split: bind_splits if_splits\<close>)
  qed
qed

lemma wrap64_small: "0 \<le> n \<Longrightarrow> n < 2 ^ 63 \<Longrightarrow> wrap64 n = n"
  by (simp add: wrap64_def)

lemma slice_length: "buf_slice buf lo (int i) = Some m \<Longrightarrow> int (length m) = int i - int lo"
  by (auto simp: buf_slice_def split: if_splits)

lemma sim_payload:
  assumes h: "holds buf i (Payload m) ps" and i: "i < length buf"
    and r: "ref_step cb (buf ! i) (Payload m, pa ps, w) = Some (q', p', w')"
  shows "\<exists>ps'. step cb buf i (buf ! i) ps False w = Some (Next ps' False w') \<and> pa ps' = p' \<and> holds buf (Suc i) q' ps'"
proof -
  let ?b = "buf ! i" and ?n = "pa_size (pa ps)"
  have sl: "buf_slice buf (as_at ps) (int i + 1) = Some (m @ [?b])" if "msgBuf ps = None"
    using slice_snoc [of buf "as_at ps" i m] h i that by auto
  have ln: "int (length m) = int i - int (as_at ps)" if "msgBuf ps = None"
    using slice_length [of buf "as_at ps" i m] h that by auto
  show ?thesis
  proof (cases "state ps = MSG_PAYLOAD")
    case True
    then have le: "int (length m) \<le> ?n" using h by auto
    then have q: "q' = Payload (m @ [?b])" "p' = pa ps" "w' = w" using r by (auto split: if_splits)
    have "step cb buf i ?b ps False w = Some (Next (payload i ?b ps) False w)" using True by (simp add: step_def)
    moreover have "holds buf (Suc i) (Payload (m @ [?b])) (payload i ?b ps) \<and> pa (payload i ?b ps) = pa ps"
    proof (cases "msgBuf ps")
      case None
      then show ?thesis using h True le sl ln by (auto simp: payload_def Let_def add.commute)
    next
      case (Some m')
      then show ?thesis using h True le by (auto simp: payload_def Let_def)
    qed
    ultimately show ?thesis using q by blast
  next
    case False
    then have st: "state ps = MSG_END" and ge: "?n \<le> int (length m)" using h by auto
    show ?thesis
    proof (cases "?b = LF")
      case True
      then obtain w1 where q: "cb_processMsg cb (pa ps) (m @ [?b]) w = Some w1" "q' = Word OP_START" "p' = pa ps" "w' = w1"
        and ne: "int (length m) \<noteq> ?n"
        using r ge by (auto split: if_splits bind_splits)
      have n: "int (length m) = ?n + 1" using h st ge ne by auto
      have "wrap64 (?n + LEN_CR_LF) = ?n + 2" using h wrap64_small [of "?n + LEN_CR_LF"] by (simp add: LEN_CR_LF_def)
      then have l: "int (length (m @ [?b])) = wrap64 (?n + LEN_CR_LF)" using n by simp
      have "(case msgBuf ps of Some m \<Rightarrow> Some (m @ [LF]) | None \<Rightarrow> buf_slice buf (as_at ps) (int i + 1)) = Some (m @ [LF])"
        using h sl True by (auto split: option.splits)
      then have "step cb buf i ?b ps False w =
          Some (Next (ps\<lparr>argBuf := None, msgBuf := None, drop_n := 0, as_at := i + 1, state := OP_START\<rparr>) False w1)"
        using st True q(1) l by (simp add: step_def msg_end_def Let_def)
      then show ?thesis using q by auto
    next
      case b: False
      then have q: "int (length m) = ?n" "q' = Payload (m @ [?b])" "p' = pa ps" "w' = w" using r ge by (auto split: if_splits)
      have "step cb buf i ?b ps False w =
          Some (Next (ps\<lparr>msgBuf := map_option (\<lambda>m. m @ [?b]) (msgBuf ps)\<rparr>) False w)"
        using st b by (simp add: step_def msg_end_def)
      then show ?thesis using q h st sl by (auto simp: add.commute split: option.splits)
    qed
  qed
qed

lemma sim_step:
  assumes h: "holds buf i q ps" and i: "i < length buf" and cb: "line_parser cb"
    and r: "ref_step cb (buf ! i) (q, pa ps, w) = Some (q', p', w')"
  shows "\<exists>ps'. step cb buf i (buf ! i) ps False w = Some (Next ps' False w') \<and> pa ps' = p' \<and> holds buf (Suc i) q' ps'"
proof (cases q)
  case (Word s)
  then show ?thesis using sim_word [of buf i s ps cb w q' p' w'] h i r by (auto split: if_splits)
next
  case (Arg s a cr)
  show ?thesis
  proof (cases "buf ! i = LF")
    case True
    then show ?thesis using sim_line [of buf i s a cr ps cb w q' p' w'] h i r cb Arg by (auto split: if_splits)
  next
    case False
    then have cr: "\<not> cr" using r Arg by (auto split: if_splits)
    have "arg_state s" "state ps = s" using h Arg by simp_all
    then have "step cb buf i (buf ! i) ps False w = Some (Next (arg_byte (buf ! i) ps) False w)"
      using False by (auto simp: arg_state_def step_def pub_arg_def sub_arg_def err_arg_def)
    then show ?thesis using sim_arg_byte [OF h [unfolded Arg] i False cr] r Arg False cr by (auto split: if_splits)
  qed
next
  case (Payload m)
  show ?thesis using sim_payload [OF h [unfolded Payload] i r [unfolded Payload]] .
qed

text \<open>At the end of a buffer everything that was collected is copied, for any next buffer.\<close>

lemma clonePubArg_pa: "pa (clonePubArg ps) = pa ps"
  by (cases "pa_reply (pa ps)") (auto simp: clonePubArg_def Let_def)

lemma clonePubArg_len: "length (the (argBuf (clonePubArg ps))) = clone_len (pa ps)"
  by (auto simp: clonePubArg_def Let_def clone_len_def split: option.splits)

lemma clonePubArg_buf: "argBuf (clonePubArg ps) = Some x \<Longrightarrow> length x = clone_len (pa ps)"
  using clonePubArg_len [of ps] by simp

lemma clonePubArg_frame:
  "state (clonePubArg ps) = state ps" "drop_n (clonePubArg ps) = drop_n ps" "as_at (clonePubArg ps) = as_at ps"
  "msgBuf (clonePubArg ps) = msgBuf ps" "argBuf (clonePubArg ps) \<noteq> None"
  by (simp_all add: clonePubArg_def Let_def)

definition held :: "pos \<Rightarrow> parseState \<Rightarrow> bool" where
  "held q ps \<longleftrightarrow> (\<forall>buf. holds buf 0 q ps)"

lemma sim_finish:
  assumes h: "holds buf (length buf) q ps" and ne: "buf \<noteq> []"
  shows "\<exists>ps1 ps2. finish_arg buf ps = Some ps1 \<and> finish_msg buf ps1 = Some ps2 \<and> pa ps2 = pa ps \<and> held q ps2"
proof (cases q)
  case (Word st)
  then show ?thesis using h by (auto simp: finish_arg_def finish_msg_def word_state_def held_def)
next
  case (Arg st a cr)
  have e: "int (length buf - 1) + 1 - int (drop_n ps) = int (length buf) - int (drop_n ps)"
    using ne by (cases buf) simp_all
  have st: "split_arg_state st" "st \<noteq> MSG_PAYLOAD" "st \<noteq> MSG_END" using h Arg by (auto simp: arg_state_def split_arg_state_def)
  have "\<exists>ps1. finish_arg buf ps = Some ps1 \<and> pa ps1 = pa ps \<and> held q ps1 \<and> state ps1 = st"
    using h Arg st e by (cases "argBuf ps") (auto simp: finish_arg_def held_def)
  then obtain ps1 where p: "finish_arg buf ps = Some ps1" "pa ps1 = pa ps" "held q ps1" "state ps1 = st" by blast
  then have "finish_msg buf ps1 = Some ps1" using st by (simp add: finish_msg_def)
  then show ?thesis using p by blast
next
  case (Payload m)
  have st: "state ps = MSG_PAYLOAD \<or> state ps = MSG_END" using h Payload by auto
  then have f: "finish_arg buf ps = Some ps" by (auto simp: finish_arg_def split_arg_state_def)
  show ?thesis
  proof (cases "msgBuf ps")
    case None
    let ?ps1 = "if argBuf ps = None then clonePubArg ps else ps"
    have sl: "buf_slice buf (as_at ?ps1) (int (length buf)) = Some m" using h Payload None by (auto simp: clonePubArg_frame)
    have fit: "\<not> length (the (argBuf ?ps1)) > MAX_CONTROL_LINE_SIZE"
      using h Payload by (auto simp: clonePubArg_len fits_def)
    have "finish_msg buf ps = Some (?ps1\<lparr>msgBuf := Some m\<rparr>)"
      using st None sl fit by (simp add: finish_msg_def Let_def)
    moreover have "held q (?ps1\<lparr>msgBuf := Some m\<rparr>) \<and> pa (?ps1\<lparr>msgBuf := Some m\<rparr>) = pa ps"
      using h Payload None fit
      by (auto simp: held_def clonePubArg_frame clonePubArg_pa fits_def clonePubArg_len dest: clonePubArg_buf split: option.splits)
    ultimately show ?thesis using f by blast
  next
    case (Some m')
    then have "finish_msg buf ps = Some ps" by (simp add: finish_msg_def)
    then show ?thesis using f h Payload Some by (auto simp: held_def)
  qed
qed

section \<open>Any cut of the stream\<close>

text \<open>Inside a buffer no copy is begun.\<close>

lemma step_argBuf:
  assumes "step cb buf i b ps au w = Some (Next ps' au' w')" and "argBuf ps = None"
  shows "argBuf ps' = None"
  using assms unfolding step_def Let_def
  by (cases "state ps")
    (auto simp: moved_def arg_byte_def pub_arg_def msg_arg_def sub_arg_def err_arg_def connect_arg_def info_arg_def
      payload_def msg_end_def line_end_def Let_def split: if_splits bind_splits option.splits move.splits)

lemma parse_loop_prefix:
  assumes cb: "line_parser cb"
  shows "holds buf i q ps \<Longrightarrow> bs @ ys = drop i buf \<Longrightarrow>
    ref_run cb bs (q, pa ps, w) = Some (q', p', w') \<Longrightarrow>
    \<exists>ps'. parse_loop cb buf i (bs @ ys) ps False w = parse_loop cb buf (i + length bs) ys ps' False w' \<and>
      pa ps' = p' \<and> holds buf (i + length bs) q' ps' \<and> (argBuf ps = None \<longrightarrow> argBuf ps' = None)"
proof (induction bs arbitrary: i q ps w)
  case (Cons b bs)
  have i: "i < length buf" using Cons.prems(2) by (metis append_Cons drop_eq_Nil linorder_not_less list.simps(3))
  then have d: "b = buf ! i" "bs @ ys = drop (Suc i) buf" using Cons.prems(2) by (simp_all add: Cons_nth_drop_Suc [symmetric])
  obtain q1 p1 w1 where s: "ref_step cb b (q, pa ps, w) = Some (q1, p1, w1)" "ref_run cb bs (q1, p1, w1) = Some (q', p', w')"
    using Cons.prems(3) by (auto split: bind_splits)
  from sim_step [OF Cons.prems(1) i cb, of w q1 p1 w1] s(1) d(1) obtain ps1 where
    p: "step cb buf i b ps False w = Some (Next ps1 False w1)" "pa ps1 = p1" "holds buf (Suc i) q1 ps1" by auto
  from Cons.IH [OF p(3) d(2), of w1] s(2) p(2) obtain ps' where
    "parse_loop cb buf (Suc i) (bs @ ys) ps1 False w1 = parse_loop cb buf (Suc i + length bs) ys ps' False w'"
    "pa ps' = p'" "holds buf (Suc i + length bs) q' ps'" "argBuf ps1 = None \<longrightarrow> argBuf ps' = None" by auto
  then show ?case using p(1) step_argBuf [OF p(1)] by auto
qed auto

lemma parse_loop_sim:
  assumes cb: "line_parser cb" and "holds buf 0 q ps" and "buf \<noteq> []"
    and "ref_run cb buf (q, pa ps, w) = Some (q', p', w')"
  shows "\<exists>ps'. parse_loop cb buf 0 buf ps False w = Some (Parsed ps' w') \<and> pa ps' = p' \<and> held q' ps'"
proof -
  from parse_loop_prefix [OF cb assms(2), of buf "[]", OF _ assms(4)] obtain ps1 where
    p: "parse_loop cb buf 0 buf ps False w = parse_loop cb buf (length buf) [] ps1 False w'" "pa ps1 = p'"
      "holds buf (length buf) q' ps1" by auto
  from sim_finish [OF p(3) assms(3)] p(1,2) show ?thesis by auto
qed

lemma ref_run_auth: "bs \<noteq> [] \<Longrightarrow> ref_run cb bs (q, p, w) = Some st \<Longrightarrow> \<not> cb_isAuthTimerSet cb w"
  by (cases bs; cases q) (auto split: if_splits)

lemma parse_chunks_held:
  assumes cb: "line_parser cb"
  shows "[] \<notin> set cs \<Longrightarrow> held q ps \<Longrightarrow> ref_run cb (concat cs) (q, pa ps, w) = Some (q', p', w') \<Longrightarrow>
    \<exists>ps'. parse_chunks cb cs ps w = Some (Parsed ps' w') \<and> pa ps' = p' \<and> held q' ps'"
proof (induction cs arbitrary: q ps w)
  case (Cons c cs)
  have ne: "c \<noteq> []" using Cons.prems(1) by auto
  obtain q1 p1 w1 where s: "ref_run cb c (q, pa ps, w) = Some (q1, p1, w1)" "ref_run cb (concat cs) (q1, p1, w1) = Some (q', p', w')"
    using Cons.prems(3) by (auto simp: ref_run_append split: bind_splits)
  have "\<not> cb_isAuthTimerSet cb w" by (rule ref_run_auth [OF ne s(1)])
  moreover have "holds c 0 q ps" using Cons.prems(2) by (simp add: held_def)
  then obtain ps1 where p: "parse_loop cb c 0 c ps False w = Some (Parsed ps1 w1)" "pa ps1 = p1" "held q1 ps1"
    using parse_loop_sim [OF cb, of c q ps w q1 p1 w1] ne s(1) by auto
  moreover have "[] \<notin> set cs" using Cons.prems(1) by simp
  ultimately show ?case using Cons.IH [OF _ p(3), of w1] s(2) by (auto simp: parse_def)
qed simp

lemma held_new: "held (Word OP_START) newParse"
  by (simp add: held_def newParse_def)

section \<open>Commands\<close>

datatype cmd = Csub "byte list" | Cunsub "byte list" | Cpub "byte list" "byte list" | Cping | Cpong | Cok | Cerr "byte list"

definition bytes :: "string \<Rightarrow> byte list" where
  "bytes s = map of_char s"

definition CRLF :: "byte list" where
  "CRLF = [CR, LF]"

fun render :: "cmd \<Rightarrow> byte list" where
  "render (Csub a) = bytes ''SUB '' @ a @ CRLF"
| "render (Cunsub a) = bytes ''UNSUB '' @ a @ CRLF"
| "render (Cpub a m) = bytes ''PUB '' @ a @ CRLF @ m @ CRLF"
| "render Cping = bytes ''PING'' @ CRLF"
| "render Cpong = bytes ''PONG'' @ CRLF"
| "render Cok = bytes ''+OK'' @ CRLF"
| "render (Cerr a) = bytes ''-ERR '' @ a @ CRLF"

text \<open>A line's argument: not empty, no blank first, no carriage return or line feed.\<close>

definition line_arg :: "byte list \<Rightarrow> bool" where
  "line_arg a \<longleftrightarrow> a \<noteq> [] \<and> \<not> blank (hd a) \<and> CR \<notin> set a \<and> LF \<notin> set a"

text \<open>
  The calls that a command makes; none if the argument or the payload is malformed, a call
  reports an error, or authorization is pending.
\<close>

definition called :: "(perror option \<times> 'w) option \<Rightarrow> pubArg \<Rightarrow> (pubArg \<times> 'w) option" where
  "called r p = do { (e, w1) \<leftarrow> r; if e = None then Some (p, w1) else None }"

fun exec :: "'w callbacks \<Rightarrow> cmd \<Rightarrow> pubArg \<times> 'w \<Rightarrow> (pubArg \<times> 'w) option" where
  "exec cb (Csub a) (p, w) = (if line_arg a \<and> \<not> cb_isAuthTimerSet cb w then called (cb_processSub cb a w) p else None)"
| "exec cb (Cunsub a) (p, w) = (if line_arg a \<and> \<not> cb_isAuthTimerSet cb w then called (cb_processUnsub cb a w) p else None)"
| "exec cb (Cpub a m) (p, w) =
     (if line_arg a \<and> fits a \<and> \<not> cb_isAuthTimerSet cb w then
        do { (e, p1, w1) \<leftarrow> cb_processPub cb a p w;
             if e = None \<and> pa_size p1 = int (length m) \<and> pa_size p1 + LEN_CR_LF < 2 ^ 63 \<and> \<not> cb_isAuthTimerSet cb w1
             then map_option (\<lambda>w2. (p1, w2)) (cb_processMsg cb p1 (m @ CRLF) w1) else None }
      else None)"
| "exec cb Cping (p, w) = (if cb_isAuthTimerSet cb w then None else Some (p, cb_processPing cb w))"
| "exec cb Cpong (p, w) = (if cb_isAuthTimerSet cb w then None else Some (p, cb_processPong cb w))"
| "exec cb Cok (p, w) = (if cb_isAuthTimerSet cb w then None else Some (p, w))"
| "exec cb (Cerr a) (p, w) =
     (if line_arg a \<and> \<not> cb_isAuthTimerSet cb w then Some (p, cb_processErr cb a w) else None)"

fun exec_all :: "'w callbacks \<Rightarrow> cmd list \<Rightarrow> pubArg \<times> 'w \<Rightarrow> (pubArg \<times> 'w) option" where
  "exec_all cb [] st = Some st"
| "exec_all cb (c # cs) st = do { st1 \<leftarrow> exec cb c st; exec_all cb cs st1 }"

lemmas char_bytes = bytes_def ch_def CR_def LF_def SPC_def TAB_def blank_def

lemma ref_run_arg:
  "CR \<notin> set a \<Longrightarrow> LF \<notin> set a \<Longrightarrow> \<not> cb_isAuthTimerSet cb w \<Longrightarrow>
   ref_run cb (a @ CRLF @ zs) (Arg s x False, p, w) = Option.bind (ref_line cb s (x @ a) p w) (ref_run cb zs)"
proof (induction a arbitrary: x)
  case Nil
  have "CR \<noteq> LF" by (simp add: CR_def LF_def)
  then show ?case using Nil by (simp add: CRLF_def)
qed (auto simp: CRLF_def)

lemma ref_run_payload:
  "int (length m + length x) = pa_size p \<Longrightarrow> \<not> cb_isAuthTimerSet cb w \<Longrightarrow>
   ref_run cb (m @ CRLF @ zs) (Payload x, p, w) =
     Option.bind (cb_processMsg cb p (x @ m @ CRLF) w) (\<lambda>w1. ref_run cb zs (Word OP_START, p, w1))"
proof (induction m arbitrary: x)
  case Nil
  have "CR \<noteq> LF" by (simp add: CR_def LF_def)
  then show ?case using Nil by (simp add: CRLF_def)
next
  case (Cons b m)
  then have "int (length x) < pa_size p" "int (length m + length (x @ [b])) = pa_size p" by simp_all
  then show ?case using Cons.IH [of "x @ [b]"] Cons.prems(2) by simp
qed

lemma ref_run_keyword:
  assumes "\<not> cb_isAuthTimerSet cb w" and "line_arg a"
  shows "ref_run cb (bytes ''SUB '' @ a @ zs) (Word OP_START, p, w) = ref_run cb (tl a @ zs) (Arg SUB_ARG [hd a] False, p, w)"
    and "ref_run cb (bytes ''UNSUB '' @ a @ zs) (Word OP_START, p, w) = ref_run cb (tl a @ zs) (Arg UNSUB_ARG [hd a] False, p, w)"
    and "ref_run cb (bytes ''PUB '' @ a @ zs) (Word OP_START, p, w) = ref_run cb (tl a @ zs) (Arg PUB_ARG [hd a] False, p, w)"
    and "ref_run cb (bytes ''-ERR '' @ a @ zs) (Word OP_START, p, w) = ref_run cb (tl a @ zs) (Arg MINUS_ERR_ARG [hd a] False, p, w)"
proof -
  obtain b a' where a: "a = b # a'" "\<not> blank b" using assms(2) by (cases a) (auto simp: line_arg_def)
  then have b: "b \<noteq> 32" "b \<noteq> 9" by (simp_all add: blank_def SPC_def TAB_def)
  note ev = ref_word_def word_move_def start_word_def char_bytes
  show "ref_run cb (bytes ''SUB '' @ a @ zs) (Word OP_START, p, w) = ref_run cb (tl a @ zs) (Arg SUB_ARG [hd a] False, p, w)"
    using assms(1) b by (simp add: a(1) ev sub_word_def)
  show "ref_run cb (bytes ''UNSUB '' @ a @ zs) (Word OP_START, p, w) = ref_run cb (tl a @ zs) (Arg UNSUB_ARG [hd a] False, p, w)"
    using assms(1) b by (simp add: a(1) ev unsub_word_def)
  show "ref_run cb (bytes ''PUB '' @ a @ zs) (Word OP_START, p, w) = ref_run cb (tl a @ zs) (Arg PUB_ARG [hd a] False, p, w)"
    using assms(1) b by (simp add: a(1) ev pub_word_def)
  show "ref_run cb (bytes ''-ERR '' @ a @ zs) (Word OP_START, p, w) = ref_run cb (tl a @ zs) (Arg MINUS_ERR_ARG [hd a] False, p, w)"
    using assms(1) b by (simp add: a(1) ev sign_word_def)
qed

lemma ref_run_line:
  assumes "\<not> cb_isAuthTimerSet cb w" and "line_arg a"
  shows "ref_run cb (bytes ''SUB '' @ a @ CRLF @ zs) (Word OP_START, p, w) = Option.bind (ref_line cb SUB_ARG a p w) (ref_run cb zs)"
    and "ref_run cb (bytes ''UNSUB '' @ a @ CRLF @ zs) (Word OP_START, p, w) = Option.bind (ref_line cb UNSUB_ARG a p w) (ref_run cb zs)"
    and "ref_run cb (bytes ''PUB '' @ a @ CRLF @ zs) (Word OP_START, p, w) = Option.bind (ref_line cb PUB_ARG a p w) (ref_run cb zs)"
    and "ref_run cb (bytes ''-ERR '' @ a @ CRLF @ zs) (Word OP_START, p, w) = Option.bind (ref_line cb MINUS_ERR_ARG a p w) (ref_run cb zs)"
proof -
  have a: "CR \<notin> set (tl a)" "LF \<notin> set (tl a)" "[hd a] @ tl a = a"
    using assms(2) by (cases a; auto simp: line_arg_def)+
  note run = ref_run_arg [OF a(1,2) assms(1), where x = "[hd a]", unfolded a(3)]
  show "ref_run cb (bytes ''SUB '' @ a @ CRLF @ zs) (Word OP_START, p, w) = Option.bind (ref_line cb SUB_ARG a p w) (ref_run cb zs)"
    "ref_run cb (bytes ''UNSUB '' @ a @ CRLF @ zs) (Word OP_START, p, w) = Option.bind (ref_line cb UNSUB_ARG a p w) (ref_run cb zs)"
    "ref_run cb (bytes ''PUB '' @ a @ CRLF @ zs) (Word OP_START, p, w) = Option.bind (ref_line cb PUB_ARG a p w) (ref_run cb zs)"
    "ref_run cb (bytes ''-ERR '' @ a @ CRLF @ zs) (Word OP_START, p, w) = Option.bind (ref_line cb MINUS_ERR_ARG a p w) (ref_run cb zs)"
    by (simp_all only: ref_run_keyword [OF assms] run)
qed

lemma exec_pub:
  assumes "exec cb (Cpub a m) (p, w) = Some (p', w')"
  shows "\<exists>w1. line_arg a \<and> fits a \<and> \<not> cb_isAuthTimerSet cb w \<and> cb_processPub cb a p w = Some (None, p', w1) \<and>
    pa_size p' = int (length m) \<and> pa_size p' + LEN_CR_LF < 2 ^ 63 \<and> \<not> cb_isAuthTimerSet cb w1 \<and>
    cb_processMsg cb p' (m @ CRLF) w1 = Some w'"
proof (cases "cb_processPub cb a p w")
  case None
  then show ?thesis using assms by (simp split: if_split_asm)
next
  case (Some r)
  obtain e p1 w1 where r: "r = (e, p1, w1)" by (cases r)
  show ?thesis using assms unfolding exec.simps Some r by (simp split: if_split_asm) blast
qed

lemma ref_run_render:
  assumes "exec cb c (p, w) = Some (p', w')"
  shows "ref_run cb (render c @ zs) (Word OP_START, p, w) = ref_run cb zs (Word OP_START, p', w')"
proof (cases c)
  case (Csub a)
  then show ?thesis using assms by (auto simp: ref_run_line ref_line_def called_def split: if_splits bind_splits)
next
  case (Cunsub a)
  then show ?thesis using assms by (auto simp: ref_run_line ref_line_def called_def split: if_splits bind_splits)
next
  case (Cpub a m)
  with assms exec_pub obtain w1 where p: "line_arg a" "fits a" "\<not> cb_isAuthTimerSet cb w"
    "cb_processPub cb a p w = Some (None, p', w1)" "pa_size p' = int (length m)" "pa_size p' + LEN_CR_LF < 2 ^ 63"
    "\<not> cb_isAuthTimerSet cb w1" "cb_processMsg cb p' (m @ CRLF) w1 = Some w'" by metis
  have "ref_line cb PUB_ARG a p w = Some (Payload [], p', w1)" using p(2,4,6) by (simp add: ref_line_def)
  then have "ref_run cb (render c @ zs) (Word OP_START, p, w) = ref_run cb (m @ CRLF @ zs) (Payload [], p', w1)"
    by (simp add: Cpub ref_run_line [OF p(3,1)])
  also have "\<dots> = Option.bind (cb_processMsg cb p' ([] @ m @ CRLF) w1) (\<lambda>w1. ref_run cb zs (Word OP_START, p', w1))"
    by (rule ref_run_payload) (simp_all add: p(5,7))
  finally show ?thesis by (simp add: p(8))
next
  case Cping
  then show ?thesis using assms
    by (auto simp: CRLF_def ref_word_def word_move_def start_word_def pub_word_def ping_word_def char_bytes split: if_splits)
next
  case Cpong
  then show ?thesis using assms
    by (auto simp: CRLF_def ref_word_def word_move_def start_word_def pub_word_def ping_word_def char_bytes split: if_splits)
next
  case Cok
  then show ?thesis using assms
    by (auto simp: CRLF_def ref_word_def word_move_def start_word_def sign_word_def char_bytes split: if_splits)
next
  case (Cerr a)
  then show ?thesis using assms by (auto simp: ref_run_line ref_line_def split: if_splits)
qed

lemma ref_run_commands:
  "exec_all cb cs (p, w) = Some (p', w') \<Longrightarrow>
   ref_run cb (concat (map render cs)) (Word OP_START, p, w) = Some (Word OP_START, p', w')"
proof (induction cs arbitrary: p w)
  case (Cons c cs)
  then obtain p1 w1 where "exec cb c (p, w) = Some (p1, w1)" "exec_all cb cs (p1, w1) = Some (p', w')"
    by (auto split: bind_splits)
  then show ?case using Cons.IH by (simp add: ref_run_render)
qed simp

lemma parse_commands:
  assumes "line_parser cb" and "[] \<notin> set chunks" and "concat chunks = concat (map render cs)"
    and "exec_all cb cs (pa newParse, w) = Some (p', w')"
  shows "\<exists>ps. parse_chunks cb chunks newParse w = Some (Parsed ps w') \<and>
    pa ps = p' \<and> state ps = OP_START \<and> argBuf ps = None \<and> msgBuf ps = None"
proof -
  have "ref_run cb (concat chunks) (Word OP_START, pa newParse, w) = Some (Word OP_START, p', w')"
    unfolding assms(3) by (rule ref_run_commands [OF assms(4)])
  from parse_chunks_held [OF assms(1,2) held_new this] show ?thesis by (auto simp: held_def)
qed

end
