(* ===== verification/NatsServer.thy ===== *)
theory NatsServer
  imports NatsProps NatsStream
begin

text \<open>
  \<open>apcera/gnatsd/server/client.go\<close>, \<open>route.go\<close> and the parts of \<open>server.go\<close> they call: the state
  of the broker and the operations of a connection. A client or route is its \<open>cid\<close> (unique, from
  \<open>gcid\<close>), a subscription its number; both live in stores of the server, so that every pointer
  the code shares is a key. The operations hold the locks of what they change and are atomic.

  A connection is its output, the bytes written in order, and \<open>outcomes\<close>, the results of the
  writes and flushes to come (an empty list: they succeed). Logging, deadlines and the buffer
  boundaries of \<open>bufio\<close> are left out. JSON decoding is an argument (\<open>json\<close>), random numbers are a
  stream (\<open>rnd\<close>) that is read along. A subscription's client is never nil, since the only place
  that makes one sets it; a client's \<open>bw\<close> and hash map are never nil, since it is only used after \<open>initClient\<close>.
\<close>

section \<open>State\<close>

datatype ctype = CLIENT | ROUTER

datatype io_error = Timeout | Other_error

record subscription =
  s_client :: u64
  s_subject :: "byte list"
  s_queue :: "byte list option"
  s_sid :: "byte list"
  s_nm :: int
  s_max :: int

record clientOpts =
  Verbose :: bool
  Pedantic :: bool
  SslRequired :: bool
  Authorization :: "byte list"
  Username :: "byte list"
  Password :: "byte list"
  Name :: "byte list"

record stats =
  inMsgs :: u64
  outMsgs :: u64
  inBytes :: u64
  outBytes :: u64

record route =
  remoteID :: "byte list"
  didSolicit :: bool

record client =
  c_typ :: ctype
  c_opts :: clientOpts
  nc :: bool
  out :: "byte list"
  outcomes :: "io_error option list"
  has_srv :: bool
  c_subs :: "nat HashMap"
  pcd :: "u64 list"
  atmr :: bool
  ptmr :: bool
  pout :: int
  c_stats :: stats
  c_route :: "route option"

record options =
  o_Username :: "byte list"
  o_Password :: "byte list"
  o_Authorization :: "byte list"
  ClusterUsername :: "byte list"
  ClusterPassword :: "byte list"
  MaxPingsOut :: int

record server =
  server_id :: "byte list"
  authRequired :: bool
  routeAuthRequired :: bool
  infoJSON :: "byte list"
  routeInfoJSON :: "byte list"
  sl :: "nat Sublist"
  gcid :: u64
  opts :: options
  clients :: "u64 list"
  routes :: "u64 list"
  remotes :: "(byte list \<times> u64) list"
  srv_stats :: stats
  cl :: "u64 \<Rightarrow> client"
  sb :: "nat \<Rightarrow> subscription"
  next_sub :: nat
  rnd :: "nat \<Rightarrow> nat"
  draws :: nat
  reconnects :: "u64 list"

text \<open>
  \<open>encoding/json\<close>: decoding into the options a client has (with whether it succeeded), the server
  id of an info message, and the connect message of a route from user, password and name.
\<close>

record json =
  j_opts :: "byte list \<Rightarrow> clientOpts \<Rightarrow> bool \<times> clientOpts"
  j_info :: "byte list \<Rightarrow> byte list option"
  j_connect :: "byte list \<Rightarrow> byte list \<Rightarrow> byte list \<Rightarrow> byte list"

definition defaultOpts :: clientOpts where
  "defaultOpts = \<lparr>Verbose = True, Pedantic = True, SslRequired = False, Authorization = [], Username = [],
     Password = [], Name = []\<rparr>"

definition noOpts :: clientOpts where
  "noOpts = defaultOpts\<lparr>Verbose := False, Pedantic := False\<rparr>"

definition no_stats :: stats where
  "no_stats = \<lparr>inMsgs = 0, outMsgs = 0, inBytes = 0, outBytes = 0\<rparr>"

text \<open>
  A server as \<open>New\<close> and \<open>StartRouting\<close> set it up; the marshalled info messages are arguments. The
  record of a \<open>cid\<close> that is not yet in use is never read.
\<close>

definition unused_client :: client where
  "unused_client = \<lparr>c_typ = CLIENT, c_opts = noOpts, nc = False, out = [], outcomes = [], has_srv = False,
     c_subs = hm_New, pcd = [], atmr = False, ptmr = False, pout = 0, c_stats = no_stats, c_route = None\<rparr>"

definition newServer :: "byte list \<Rightarrow> options \<Rightarrow> byte list \<Rightarrow> (nat \<Rightarrow> nat) \<Rightarrow> server" where
  "newServer genID os json r =
     \<lparr>server_id = genID, authRequired = (o_Username os \<noteq> [] \<or> o_Authorization os \<noteq> []), routeAuthRequired = False,
      infoJSON = bytes ''INFO '' @ json @ bytes '' '' @ CRLF, routeInfoJSON = [], sl = sl_New, gcid = 0, opts = os,
      clients = [], routes = [], remotes = [], srv_stats = no_stats, cl = (\<lambda>_. unused_client),
      sb = (\<lambda>_. \<lparr>s_client = 0, s_subject = [], s_queue = None, s_sid = [], s_nm = 0, s_max = 0\<rparr>), next_sub = 0,
      rnd = r, draws = 0, reconnects = []\<rparr>"

definition StartRouting :: "byte list \<Rightarrow> server \<Rightarrow> server" where
  "StartRouting json w =
     w\<lparr>routeAuthRequired := ClusterUsername (opts w) \<noteq> [],
       routeInfoJSON := bytes ''INFO '' @ json @ bytes '' '' @ CRLF\<rparr>"

definition upd_cl :: "u64 \<Rightarrow> (client \<Rightarrow> client) \<Rightarrow> server \<Rightarrow> server" where
  "upd_cl c f w = w\<lparr>cl := (cl w)(c := f (cl w c))\<rparr>"

definition upd_sb :: "nat \<Rightarrow> (subscription \<Rightarrow> subscription) \<Rightarrow> server \<Rightarrow> server" where
  "upd_sb n f w = w\<lparr>sb := (sb w)(n := f (sb w n))\<rparr>"

section \<open>Writing to a connection\<close>

definition next_outcome :: "u64 \<Rightarrow> server \<Rightarrow> io_error option" where
  "next_outcome c w = (case outcomes (cl w c) of [] \<Rightarrow> None | r # _ \<Rightarrow> r)"

definition used_outcome :: "u64 \<Rightarrow> server \<Rightarrow> server" where
  "used_outcome c = upd_cl c (\<lambda>k. k\<lparr>outcomes := tl (outcomes k)\<rparr>)"

definition bw_Write :: "u64 \<Rightarrow> byte list \<Rightarrow> server \<Rightarrow> io_error option \<times> server" where
  "bw_Write c bs w =
     (case next_outcome c w of
        None \<Rightarrow> (None, upd_cl c (\<lambda>k. k\<lparr>out := out k @ bs\<rparr>) (used_outcome c w))
      | Some e \<Rightarrow> (Some e, used_outcome c w))"

definition bw_Flush :: "u64 \<Rightarrow> server \<Rightarrow> io_error option \<times> server" where
  "bw_Flush c w = (next_outcome c w, used_outcome c w)"

definition need_flush :: "u64 \<Rightarrow> u64 \<Rightarrow> server \<Rightarrow> server" where
  "need_flush c target = upd_cl c (\<lambda>k. k\<lparr>pcd := List.insert target (pcd k)\<rparr>)"

definition sendErr :: "u64 \<Rightarrow> string \<Rightarrow> server \<Rightarrow> server" where
  "sendErr c err w = need_flush c c (snd (bw_Write c (bytes ''-ERR '' @ [39] @ bytes err @ [39] @ CRLF) w))"

definition sendOK :: "u64 \<Rightarrow> server \<Rightarrow> server" where
  "sendOK c w = need_flush c c (snd (bw_Write c (bytes ''+OK'' @ CRLF) w))"

definition clearConnection :: "u64 \<Rightarrow> server \<Rightarrow> server" where
  "clearConnection c w =
     (if \<not> nc (cl w c) then w else upd_cl c (\<lambda>k. k\<lparr>nc := False\<rparr>) (snd (bw_Flush c w)))"

definition clearAuthTimer :: "u64 \<Rightarrow> server \<Rightarrow> server" where
  "clearAuthTimer c w = (if \<not> atmr (cl w c) then w else upd_cl c (\<lambda>k. k\<lparr>atmr := False\<rparr>) w)"

definition clearPingTimer :: "u64 \<Rightarrow> server \<Rightarrow> server" where
  "clearPingTimer c w = (if \<not> ptmr (cl w c) then w else upd_cl c (\<lambda>k. k\<lparr>ptmr := False\<rparr>) w)"

definition isAuthTimerSet :: "u64 \<Rightarrow> server \<Rightarrow> bool" where
  "isAuthTimerSet c w = atmr (cl w c)"

section \<open>Routes\<close>

text \<open>\<open>fmt\<close>'s \<open>%d\<close> of a number that is not negative.\<close>

function decimal :: "nat \<Rightarrow> byte list" where
  "decimal n = (if n < 10 then [of_nat (48 + n)] else decimal (n div 10) @ [of_nat (48 + n mod 10)])"
  by pat_completeness auto
termination by (relation "measure id") auto

declare decimal.simps [simp del]

definition routeSid :: "subscription \<Rightarrow> byte list" where
  "routeSid s =
     (if (case s_queue s of None \<Rightarrow> False | Some q \<Rightarrow> length q > 0) then bytes ''Q'' else []) @ bytes ''RSID:'' @
     decimal (unat (s_client s)) @ bytes '':'' @ s_sid s"

fun broadcast_loop :: "u64 list \<Rightarrow> byte list \<Rightarrow> server \<Rightarrow> server" where
  "broadcast_loop [] proto w = w"
| "broadcast_loop (r # rs) proto w =
     broadcast_loop rs proto (snd (bw_Flush r (snd (bw_Write r proto w))))"

definition broadcastToRoutes :: "byte list \<Rightarrow> server \<Rightarrow> server" where
  "broadcastToRoutes proto w = broadcast_loop (routes w) proto w"

definition subProto :: "subscription \<Rightarrow> byte list" where
  "subProto s = bytes ''SUB '' @ s_subject s @ bytes '' '' @ (case s_queue s of None \<Rightarrow> [] | Some q \<Rightarrow> q) @
     bytes '' '' @ routeSid s @ CRLF"

definition broadcastSubscribe :: "nat \<Rightarrow> server \<Rightarrow> server" where
  "broadcastSubscribe n w = broadcastToRoutes (subProto (sb w n)) w"

definition broadcastUnSubscribe :: "nat \<Rightarrow> server \<Rightarrow> server" where
  "broadcastUnSubscribe n w =
     (let s = sb w n;
          maxStr = (if s_max s > 0 \<and> s_nm s < s_max s then bytes '' '' @ decimal (nat (s_max s)) else [])
      in broadcastToRoutes (bytes ''UNSUB '' @ routeSid s @ maxStr @ CRLF) w)"

definition isDuplicateRemote :: "byte list \<Rightarrow> server \<Rightarrow> bool" where
  "isDuplicateRemote rid w = (map_of (remotes w) rid \<noteq> None)"

definition sendLocalSubsToRoute :: "u64 \<Rightarrow> server \<Rightarrow> server" where
  "sendLocalSubsToRoute r w =
     (let b = concat (map (\<lambda>c. concat (map (\<lambda>n. subProto (sb w n)) (hm_All (c_subs (cl w c))))) (clients w))
      in snd (bw_Flush r (snd (bw_Write r b w))))"

definition isSolicitedRoute :: "u64 \<Rightarrow> server \<Rightarrow> bool" where
  "isSolicitedRoute c w \<longleftrightarrow>
     c_typ (cl w c) = ROUTER \<and> (case c_route (cl w c) of None \<Rightarrow> False | Some r \<Rightarrow> didSolicit r)"

section \<open>Closing\<close>

text \<open>\<open>Sublist.Insert\<close> and \<open>Sublist.Remove\<close> on the server's sublist.\<close>

definition sl_insert :: "byte list \<Rightarrow> nat \<Rightarrow> server \<Rightarrow> bool \<times> server" where
  "sl_insert subject n w = (case sl_Insert subject n (sl w) of (e, s) \<Rightarrow> (e = None, w\<lparr>sl := s\<rparr>))"

definition sl_remove :: "nat \<Rightarrow> server \<Rightarrow> server" where
  "sl_remove n w = w\<lparr>sl := snd (sl_Remove (s_subject (sb w n)) n (sl w))\<rparr>"

definition removeClient :: "u64 \<Rightarrow> server \<Rightarrow> server" where
  "removeClient c w =
     (case c_typ (cl w c) of
        CLIENT \<Rightarrow> w\<lparr>clients := removeAll c (clients w)\<rparr>
      | ROUTER \<Rightarrow>
          let w1 = w\<lparr>routes := removeAll c (routes w)\<rparr> in
          (case c_route (cl w c) of
             None \<Rightarrow> w1
           | Some r \<Rightarrow>
               if map_of (remotes w1) (remoteID r) = Some c
               then w1\<lparr>remotes := AList.delete (remoteID r) (remotes w1)\<rparr> else w1))"

fun close_subs :: "u64 \<Rightarrow> nat list \<Rightarrow> server \<Rightarrow> server" where
  "close_subs c [] w = w"
| "close_subs c (n # ns) w =
     (let w1 = sl_remove n w;
          w2 = (if c_typ (cl w1 c) \<noteq> ROUTER then broadcastUnSubscribe n w1 else w1)
      in close_subs c ns w2)"

text \<open>A reconnect that \<open>closeConnection\<close> starts is added to \<open>reconnects\<close>.\<close>

definition closeConnection :: "u64 \<Rightarrow> server \<Rightarrow> server" where
  "closeConnection c w =
     (if \<not> nc (cl w c) then w
      else
        let w1 = clearConnection c (clearPingTimer c (clearAuthTimer c w));
            subs = hm_All (c_subs (cl w1 c));
            w2 = (if has_srv (cl w1 c) then close_subs c subs (removeClient c w1) else w1)
        in if isSolicitedRoute c w2 then
             (let rid = (case c_route (cl w2 c) of None \<Rightarrow> [] | Some r \<Rightarrow> remoteID r) in
              if rid \<noteq> [] \<and> map_of (remotes w2) rid \<noteq> None then w2
              else w2\<lparr>reconnects := c # reconnects w2\<rparr>)
           else w2)"

definition authViolation :: "u64 \<Rightarrow> server \<Rightarrow> server" where
  "authViolation c w = closeConnection c (sendErr c ''Authorization Violation'' w)"

definition processErr :: "u64 \<Rightarrow> byte list \<Rightarrow> server \<Rightarrow> server" where
  "processErr c errStr w = closeConnection c w"

section \<open>New connections\<close>

definition initClient :: "u64 \<Rightarrow> server \<Rightarrow> server" where
  "initClient c = upd_cl c (\<lambda>k. k\<lparr>out := [], c_subs := hm_New, pcd := [], ptmr := has_srv k\<rparr>)"

definition new_client :: "clientOpts \<Rightarrow> ctype \<Rightarrow> route option \<Rightarrow> io_error option list \<Rightarrow> client" where
  "new_client os t r io =
     \<lparr>c_typ = t, c_opts = os, nc = True, out = [], outcomes = io, has_srv = True, c_subs = hm_New, pcd = [],
      atmr = False, ptmr = False, pout = 0, c_stats = no_stats, c_route = r\<rparr>"

text \<open>\<open>sendInfo\<close> writes to the connection itself; nothing is buffered then.\<close>

definition sendInfo :: "u64 \<Rightarrow> server \<Rightarrow> server" where
  "sendInfo c w =
     (case c_typ (cl w c) of
        CLIENT \<Rightarrow> snd (bw_Write c (infoJSON w) w)
      | ROUTER \<Rightarrow> snd (bw_Write c (routeInfoJSON w) w))"

text \<open>
  \<open>createClient\<close> and \<open>createRoute\<close>; \<open>io\<close> is how the writes on the connection will turn out, the
  user and password are those of the URL of a route that the server solicited.
\<close>

definition createClient :: "io_error option list \<Rightarrow> server \<Rightarrow> u64 \<times> server" where
  "createClient io w =
     (let c = gcid w + 1;
          w1 = initClient c (w\<lparr>gcid := c, cl := (cl w)(c := new_client defaultOpts CLIENT None io)\<rparr>);
          w2 = sendInfo c w1;
          w3 = (if authRequired w2 then upd_cl c (\<lambda>k. k\<lparr>atmr := True\<rparr>) w2 else w2)
      in (c, w3\<lparr>clients := List.insert c (clients w3)\<rparr>))"

definition sendConnect :: "json \<Rightarrow> byte list \<Rightarrow> byte list \<Rightarrow> u64 \<Rightarrow> server \<Rightarrow> server" where
  "sendConnect j user pass c w =
     snd (bw_Flush c (snd (bw_Write c (bytes ''CONNECT '' @ j_connect j user pass (server_id w) @ CRLF) w)))"

definition createRoute :: "json \<Rightarrow> (byte list \<times> byte list) option \<Rightarrow> io_error option list \<Rightarrow> server \<Rightarrow> u64 \<times> server" where
  "createRoute j rURL io w =
     (let c = gcid w + 1;
          r = \<lparr>remoteID = [], didSolicit = rURL \<noteq> None\<rparr>;
          w1 = initClient c (w\<lparr>gcid := c, cl := (cl w)(c := new_client noOpts ROUTER (Some r) io)\<rparr>);
          w2 = (case rURL of None \<Rightarrow> w1 | Some (user, pass) \<Rightarrow> sendConnect j user pass c w1);
          w3 = sendInfo c w2;
          w4 = (if routeAuthRequired w3 \<and> rURL = None then upd_cl c (\<lambda>k. k\<lparr>atmr := True\<rparr>) w3 else w3)
      in (c, w4\<lparr>routes := List.insert c (routes w4)\<rparr>))"

section \<open>Connect, info, ping and pong\<close>

definition checkClientAuth :: "u64 \<Rightarrow> server \<Rightarrow> bool" where
  "checkClientAuth c w =
     (if \<not> authRequired w then True
      else if o_Authorization (opts w) \<noteq> [] then o_Authorization (opts w) = Authorization (c_opts (cl w c))
      else if o_Username (opts w) \<noteq> Username (c_opts (cl w c)) \<or> o_Password (opts w) \<noteq> Password (c_opts (cl w c))
      then False
      else True)"

definition checkRouterAuth :: "u64 \<Rightarrow> server \<Rightarrow> bool" where
  "checkRouterAuth c w =
     (if \<not> routeAuthRequired w then True
      else if ClusterUsername (opts w) \<noteq> Username (c_opts (cl w c)) \<or> ClusterPassword (opts w) \<noteq> Password (c_opts (cl w c))
      then False
      else True)"

definition checkAuth :: "u64 \<Rightarrow> server \<Rightarrow> bool" where
  "checkAuth c w = (case c_typ (cl w c) of CLIENT \<Rightarrow> checkClientAuth c w | ROUTER \<Rightarrow> checkRouterAuth c w)"

definition processConnect :: "json \<Rightarrow> u64 \<Rightarrow> byte list \<Rightarrow> server \<Rightarrow> perror option \<times> server" where
  "processConnect j c arg w =
     (let w1 = clearAuthTimer c w;
          (ok, os) = j_opts j arg (c_opts (cl w1 c));
          w2 = upd_cl c (\<lambda>k. k\<lparr>c_opts := os\<rparr>) w1
      in if \<not> ok then (Some ErrJSON, w2)
         else if has_srv (cl w2 c) \<and> \<not> checkAuth c w2 then (Some ErrAuthorization, authViolation c w2)
         else
           let w3 = (if c_typ (cl w2 c) = ROUTER \<and> c_route (cl w2 c) \<noteq> None
                     then upd_cl c (\<lambda>k. k\<lparr>c_route := map_option (\<lambda>r. r\<lparr>remoteID := Name os\<rparr>) (c_route k)\<rparr>) w2 else w2)
           in (None, if Verbose os then sendOK c w3 else w3))"

definition processRouteInfo :: "u64 \<Rightarrow> byte list \<Rightarrow> server \<Rightarrow> server" where
  "processRouteInfo c rid w =
     (if c_route (cl w c) = None then w
      else
        let w1 = upd_cl c (\<lambda>k. k\<lparr>c_route := map_option (\<lambda>r. r\<lparr>remoteID := rid\<rparr>) (c_route k)\<rparr>) w in
        if isDuplicateRemote rid w1 then closeConnection c w1
        else sendLocalSubsToRoute c (w1\<lparr>remotes := AList.update rid c (remotes w1)\<rparr>))"

definition processInfo :: "json \<Rightarrow> u64 \<Rightarrow> byte list \<Rightarrow> server \<Rightarrow> perror option \<times> server" where
  "processInfo j c arg w =
     (case j_info j arg of
        None \<Rightarrow> (Some ErrJSON, w)
      | Some rid \<Rightarrow> (None, if c_typ (cl w c) = ROUTER then processRouteInfo c rid w else w))"

definition processPing :: "u64 \<Rightarrow> server \<Rightarrow> server" where
  "processPing c w =
     (if \<not> nc (cl w c) then w
      else
        let w1 = snd (bw_Write c (bytes ''PONG'' @ CRLF) w);
            (err, w2) = bw_Flush c w1
        in if err \<noteq> None then clearConnection c w2 else w2)"

definition processPong :: "u64 \<Rightarrow> server \<Rightarrow> server" where
  "processPong c = upd_cl c (\<lambda>k. k\<lparr>pout := pout k - 1\<rparr>)"

text \<open>The ping timer, for a connection over TCP.\<close>

definition processPingTimer :: "u64 \<Rightarrow> server \<Rightarrow> server" where
  "processPingTimer c w =
     (let w1 = upd_cl c (\<lambda>k. k\<lparr>ptmr := False\<rparr>) w in
      if \<not> nc (cl w1 c) then w1
      else
        let w2 = upd_cl c (\<lambda>k. k\<lparr>pout := pout k + 1\<rparr>) w1 in
        if pout (cl w2 c) > MaxPingsOut (opts w2) then
          clearConnection c (snd (bw_Flush c (snd (bw_Write c (bytes ''-ERR '' @ [39] @ bytes ''Stale Connection'' @ [39] @ CRLF) w2))))
        else
          let w3 = snd (bw_Write c (bytes ''PING'' @ CRLF) w2);
              (err, w4) = bw_Flush c w3
          in if err \<noteq> None then clearConnection c w4
             else upd_cl c (\<lambda>k. k\<lparr>ptmr := has_srv k\<rparr>) w4)"

end
