(* ===== verification/NatsClient.thy ===== *)
theory NatsClient
  imports NatsServer
begin

text \<open>
  The commands of a client (\<open>client.go\<close>): the arguments of the protocol lines, subscribing,
  unsubscribing, publishing with queue groups and routes, and the read loop. \<open>client_callbacks\<close>
  plugs them into the parser.
\<close>

section \<open>Arguments\<close>

definition space :: "byte \<Rightarrow> bool" where
  "space b \<longleftrightarrow> b = SPC \<or> b = TAB \<or> b = CR \<or> b = LF"

text \<open>The loop of \<open>splitArg\<close>, with the argument it is in and where that starts.\<close>

fun arg_loop :: "nat \<Rightarrow> (nat \<times> byte list) option \<Rightarrow> byte list \<Rightarrow> (nat \<times> byte list) list" where
  "arg_loop i cur [] = (case cur of None \<Rightarrow> [] | Some a \<Rightarrow> [a])"
| "arg_loop i cur (b # bs) =
     (if space b then
        (case cur of None \<Rightarrow> arg_loop (i + 1) None bs | Some a \<Rightarrow> a # arg_loop (i + 1) None bs)
      else arg_loop (i + 1) (Some (case cur of None \<Rightarrow> (i, [b]) | Some (s, t) \<Rightarrow> (s, t @ [b]))) bs)"

definition splitArg :: "byte list \<Rightarrow> byte list list" where
  "splitArg arg = map snd (arg_loop 0 None arg)"

text \<open>The loop of \<open>parseSize\<close>, and of \<open>parseInt64\<close>, which is the same; \<open>int\<close> wraps around at 64 bits.\<close>

fun size_loop :: "int \<Rightarrow> byte list \<Rightarrow> int" where
  "size_loop n [] = n"
| "size_loop n (d # ds) =
     (if d < 48 \<or> d > 57 then - 1 else size_loop (wrap64 (wrap64 (n * 10) + (uint d - 48))) ds)"

definition parseSize :: "byte list \<Rightarrow> int" where
  "parseSize d = (if d = [] then - 1 else size_loop 0 d)"

text \<open>\<open>processMsgArgs\<close> indexes \<open>args\<close> before it checks the number of arguments.\<close>

definition processMsgArgs :: "byte list \<Rightarrow> pubArg \<Rightarrow> (perror option \<times> pubArg) option" where
  "processMsgArgs arg p =
     (let args = arg_loop 0 None arg in
      if length args < 2 then None
      else
        let p1 = p\<lparr>pa_subject := snd (args ! 0), pa_sid := snd (args ! 1), sid_at := Some (fst (args ! 1))\<rparr>;
            bad = (\<lambda>e q. Some (Some (ErrArgs e arg), q));
            checked = (\<lambda>q. if pa_size q < 0 then bad ''processMsgArgs Bad or Missing Size'' q else Some (None, q))
        in if length args = 3 then
             checked (p1\<lparr>pa_reply := None, pa_szb := snd (args ! 2), pa_size := parseSize (snd (args ! 2))\<rparr>)
           else if length args = 4 then
             checked (p1\<lparr>pa_reply := Some (snd (args ! 2)), pa_szb := snd (args ! 3), pa_size := parseSize (snd (args ! 3))\<rparr>)
           else bad ''processMsgArgs Parse Error'' p1)"

definition processPub :: "u64 \<Rightarrow> byte list \<Rightarrow> pubArg \<Rightarrow> server \<Rightarrow> perror option \<times> pubArg \<times> server" where
  "processPub c arg p w =
     (let args = splitArg arg;
          checked = (\<lambda>q. if pa_size q < 0 then (Some (ErrArgs ''processPub Bad or Missing Size'' arg), q, w)
            else (None, q, if Pedantic (c_opts (cl w c)) \<and> \<not> IsValidLiteralSubject (pa_subject q)
                           then sendErr c ''Invalid Subject'' w else w))
      in if length args = 2 then
           checked (p\<lparr>pa_subject := args ! 0, pa_reply := None, pa_size := parseSize (args ! 1), pa_szb := args ! 1\<rparr>)
         else if length args = 3 then
           checked (p\<lparr>pa_subject := args ! 0, pa_reply := Some (args ! 1), pa_size := parseSize (args ! 2), pa_szb := args ! 2\<rparr>)
         else (Some (ErrArgs ''processPub Parse Error'' arg), p, w))"

section \<open>Subscriptions\<close>

definition processSub :: "u64 \<Rightarrow> byte list \<Rightarrow> server \<Rightarrow> perror option \<times> server" where
  "processSub c argo w =
     (let args = splitArg argo;
          go = (\<lambda>subject queue sid.
            let n = next_sub w;
                sub = \<lparr>s_client = c, s_subject = subject, s_queue = queue, s_sid = sid, s_nm = 0, s_max = 0\<rparr>;
                w1 = upd_cl c (\<lambda>k. k\<lparr>c_subs := hm_Set (c_subs k) sid n\<rparr>) (w\<lparr>sb := (sb w)(n := sub), next_sub := n + 1\<rparr>);
                (ok, w2) = (if has_srv (cl w1 c) then sl_insert subject n w1 else (True, w1));
                shouldForward = (c_typ (cl w2 c) \<noteq> ROUTER \<and> has_srv (cl w2 c));
                w3 = (if \<not> ok then sendErr c ''Invalid Subject'' w2
                      else if Verbose (c_opts (cl w2 c)) then sendOK c w2 else w2)
            in (None, if shouldForward then broadcastSubscribe n w3 else w3))
      in if length args = 2 then go (args ! 0) None (args ! 1)
         else if length args = 3 then go (args ! 0) (Some (args ! 1)) (args ! 2)
         else (Some (ErrArgs ''processSub Parse Error'' argo), w))"

definition unsubscribe :: "u64 \<Rightarrow> nat \<Rightarrow> server \<Rightarrow> server" where
  "unsubscribe c n w =
     (if s_max (sb w n) > 0 \<and> s_nm (sb w n) < s_max (sb w n) then w
      else
        let w1 = upd_cl c (\<lambda>k. k\<lparr>c_subs := hm_Remove (c_subs k) (s_sid (sb w n))\<rparr>) w
        in if has_srv (cl w1 c) then sl_remove n w1 else w1)"

definition processUnsub :: "u64 \<Rightarrow> byte list \<Rightarrow> server \<Rightarrow> perror option \<times> server" where
  "processUnsub c arg w =
     (let args = splitArg arg;
          go = (\<lambda>sid mx.
            let w1 =
              (case hm_Get (c_subs (cl w c)) sid of
                 None \<Rightarrow> w
               | Some n \<Rightarrow>
                   let w1 = unsubscribe c n (upd_sb n (\<lambda>s. s\<lparr>s_max := (if mx > 0 then mx else 0)\<rparr>) w)
                   in if c_typ (cl w1 c) \<noteq> ROUTER \<and> has_srv (cl w1 c) then broadcastUnSubscribe n w1 else w1)
            in (None, if Verbose (c_opts (cl w1 c)) then sendOK c w1 else w1))
      in if length args = 1 then go (args ! 0) (- 1)
         else if length args = 2 then go (args ! 0) (parseSize (args ! 1))
         else (Some (ErrArgs ''processUnsub Parse Error'' arg), w))"

section \<open>Messages\<close>

text \<open>The header line for a subscription; \<open>mh\<close> starts with \<open>MSG\<close> and the subject.\<close>

definition msgHeader :: "pubArg \<Rightarrow> byte list \<Rightarrow> subscription \<Rightarrow> byte list" where
  "msgHeader p mh s =
     mh @ s_sid s @ [SPC] @ (case pa_reply p of None \<Rightarrow> [] | Some r \<Rightarrow> r @ [SPC]) @ pa_szb p @ CRLF"

definition count_out :: "nat \<Rightarrow> stats \<Rightarrow> stats" where
  "count_out n s = s\<lparr>outMsgs := outMsgs s + 1, outBytes := outBytes s + (of_nat n - 2)\<rparr>"

definition count_in :: "nat \<Rightarrow> stats \<Rightarrow> stats" where
  "count_in n s = s\<lparr>inMsgs := inMsgs s + 1, inBytes := inBytes s + (of_nat n - 2)\<rparr>"

text \<open>
  The writes of \<open>deliverMsg\<close>: a timeout closes the receiver's connection, another error is
  ignored; only a complete write marks the receiver for a flush.
\<close>

definition deliver_write :: "u64 \<Rightarrow> u64 \<Rightarrow> byte list \<Rightarrow> byte list \<Rightarrow> server \<Rightarrow> server" where
  "deliver_write c k mh msg w =
     (if \<not> nc (cl w k) then w
      else
        let w1 = upd_cl k (\<lambda>x. x\<lparr>c_stats := count_out (length msg) (c_stats x)\<rparr>) w;
            w2 = w1\<lparr>srv_stats := count_out (length msg) (srv_stats w1)\<rparr>;
            write_err = (\<lambda>e w. if e = Timeout then closeConnection k w else w)
        in case bw_Write k mh w2 of
             (Some e, w3) \<Rightarrow> write_err e w3
           | (None, w3) \<Rightarrow>
               (case bw_Write k msg w3 of
                  (Some e, w4) \<Rightarrow> write_err e w4
                | (None, w4) \<Rightarrow> need_flush c k w4))"

text \<open>
  \<open>deliverMsg\<close>; at the exact maximum the two deferred calls run after the delivery, the broadcast
  first.
\<close>

definition deliverMsg :: "u64 \<Rightarrow> nat \<Rightarrow> byte list \<Rightarrow> byte list \<Rightarrow> server \<Rightarrow> server" where
  "deliverMsg c n mh msg w =
     (let w1 = upd_sb n (\<lambda>s. s\<lparr>s_nm := s_nm s + 1\<rparr>) w;
          s = sb w1 n;
          k = s_client s;
          shouldForward = (c_typ (cl w1 k) \<noteq> ROUTER \<and> has_srv (cl w1 k));
          forward = (\<lambda>w. if shouldForward then broadcastUnSubscribe n w else w)
      in if s_max s > 0 \<and> s_nm s = s_max s then
           unsubscribe k n (forward (deliver_write c k mh msg w1))
         else if s_max s > 0 \<and> s_nm s > s_max s then
           forward (unsubscribe k n w1)
         else deliver_write c k mh msg w1)"

section \<open>Routed queue subscriptions\<close>

definition digit :: "byte \<Rightarrow> bool" where
  "digit b \<longleftrightarrow> 48 \<le> b \<and> b \<le> 57"

text \<open>The regular expression's \<open>\s\<close>: tab, line feed, form feed, carriage return and space.\<close>

definition re_space :: "byte \<Rightarrow> bool" where
  "re_space b \<longleftrightarrow> b = TAB \<or> b = LF \<or> b = 12 \<or> b = CR \<or> b = SPC"

text \<open>\<open>QRSID:(\d+):([^\s]+)\<close> at the start of a text, and its first match in it.\<close>

definition qrsid_here :: "byte list \<Rightarrow> (byte list \<times> byte list) option" where
  "qrsid_here t =
     (if take 6 t \<noteq> bytes ''QRSID:'' then None
      else
        let d = takeWhile digit (drop 6 t); r = dropWhile digit (drop 6 t);
            sid = takeWhile (\<lambda>b. \<not> re_space b) (tl r)
        in if d = [] \<or> r = [] \<or> hd r \<noteq> of_char CHR '':'' \<or> sid = [] then None else Some (d, sid))"

fun qrsid_match :: "byte list \<Rightarrow> (byte list \<times> byte list) option" where
  "qrsid_match [] = None"
| "qrsid_match (b # t) = (case qrsid_here (b # t) of Some m \<Rightarrow> Some m | None \<Rightarrow> qrsid_match t)"

text \<open>\<open>None\<close>: not a routed queue subscription; \<open>Some None\<close>: it is, but is not known here.\<close>

definition routeSidQueueSubscriber :: "byte list \<Rightarrow> server \<Rightarrow> nat option option" where
  "routeSidQueueSubscriber rsid w =
     (if take 5 rsid \<noteq> bytes ''QRSID'' then None
      else
        case qrsid_match rsid of
          None \<Rightarrow> None
        | Some (d, sid) \<Rightarrow>
            let cid = word_of_int (parseSize d) in
            if cid \<notin> set (clients w) then Some None
            else Some (hm_Get (c_subs (cl w cid)) sid))"

section \<open>Publishing\<close>

text \<open>
  The subscriptions of a queue group are gathered under the group's name. Go ranges over the
  groups in an arbitrary order: a new group takes a random place among the others.
\<close>

definition draw :: "server \<Rightarrow> nat \<times> server" where
  "draw w = (rnd w (draws w), w\<lparr>draws := draws w + 1\<rparr>)"

definition add_group :: "nat \<Rightarrow> byte list \<Rightarrow> nat \<Rightarrow> (byte list \<times> nat list) list \<Rightarrow> (byte list \<times> nat list) list" where
  "add_group r q n m =
     (case map_of m q of
        Some ns \<Rightarrow> AList.update q (ns @ [n]) m
      | None \<Rightarrow> (let i = r mod (length m + 1) in take i m @ (q, [n]) # drop i m))"

text \<open>
  The loop over the matching subscriptions, with the groups (\<open>qmap\<close>) and the routes already
  served (\<open>rmap\<close>).
\<close>

fun msg_loop ::
  "u64 \<Rightarrow> pubArg \<Rightarrow> byte list \<Rightarrow> byte list \<Rightarrow> nat list \<Rightarrow> (byte list \<times> nat list) list \<Rightarrow> byte list list \<Rightarrow>
   server \<Rightarrow> (byte list \<times> nat list) list \<times> server" where
  "msg_loop c p mh msg [] qmap rmap w = (qmap, w)"
| "msg_loop c p mh msg (n # ns) qmap rmap w =
     (let s = sb w n; k = cl w (s_client s); isRoute = (c_typ (cl w c) = ROUTER) in
      case s_queue s of
        Some q \<Rightarrow>
          if isRoute then msg_loop c p mh msg ns qmap rmap w
          else (let (r, w1) = draw w in msg_loop c p mh msg ns (add_group r q n qmap) rmap w1)
      | None \<Rightarrow>
          if c_typ k = ROUTER then
            if isRoute then msg_loop c p mh msg ns qmap rmap w
            else
              (case c_route k of
                 None \<Rightarrow> msg_loop c p mh msg ns qmap rmap w
               | Some r \<Rightarrow>
                   if remoteID r = [] \<or> remoteID r \<in> set rmap then msg_loop c p mh msg ns qmap rmap w
                   else msg_loop c p mh msg ns qmap (remoteID r # rmap)
                          (deliverMsg c n (msgHeader p mh s) msg w))
          else msg_loop c p mh msg ns qmap rmap (deliverMsg c n (msgHeader p mh s) msg w))"

fun queue_loop :: "u64 \<Rightarrow> pubArg \<Rightarrow> byte list \<Rightarrow> byte list \<Rightarrow> (byte list \<times> nat list) list \<Rightarrow> server \<Rightarrow> server" where
  "queue_loop c p mh msg [] w = w"
| "queue_loop c p mh msg ((q, ns) # m) w =
     (let (r, w1) = draw w; n = ns ! (r mod length ns)
      in queue_loop c p mh msg m (deliverMsg c n (msgHeader p mh (sb w1 n)) msg w1))"

definition msg_head :: "pubArg \<Rightarrow> byte list" where
  "msg_head p = bytes ''MSG '' @ pa_subject p @ [SPC]"

definition publish :: "u64 \<Rightarrow> pubArg \<Rightarrow> byte list \<Rightarrow> nat list \<Rightarrow> server \<Rightarrow> server" where
  "publish c p msg r w =
     (let mh = msg_head p in
      case (if c_typ (cl w c) = ROUTER then routeSidQueueSubscriber (pa_sid p) w else None) of
        Some (Some n) \<Rightarrow> deliverMsg c n (msgHeader p mh (sb w n)) msg w
      | Some None \<Rightarrow> w
      | None \<Rightarrow> (case msg_loop c p mh msg r [] [] w of (qmap, w1) \<Rightarrow> queue_loop c p mh msg qmap w1))"

definition processMsg :: "u64 \<Rightarrow> pubArg \<Rightarrow> byte list \<Rightarrow> server \<Rightarrow> server option" where
  "processMsg c p msg w =
     (let w1 = upd_cl c (\<lambda>k. k\<lparr>c_stats := count_in (length msg) (c_stats k)\<rparr>) w in
      if \<not> has_srv (cl w1 c) then Some w1
      else
        let w2 = w1\<lparr>srv_stats := count_in (length msg) (srv_stats w1)\<rparr>;
            w3 = (if Verbose (c_opts (cl w2 c)) then sendOK c w2 else w2);
            (x, w4) = draw w3
        in case sl_Match x (pa_subject p) (sl w4) of
             None \<Rightarrow> None
           | Some (r, s) \<Rightarrow>
               let w5 = w4\<lparr>sl := s\<rparr> in Some (if r = [] then w5 else publish c p msg r w5))"

section \<open>The read loop\<close>

definition client_callbacks :: "json \<Rightarrow> u64 \<Rightarrow> server callbacks" where
  "client_callbacks j c =
     \<lparr>cb_isAuthTimerSet = isAuthTimerSet c,
      cb_authViolation = authViolation c,
      cb_sendErr = sendErr c,
      cb_processPub = (\<lambda>arg p w. Some (processPub c arg p w)),
      cb_processMsgArgs = (\<lambda>arg p w. map_option (\<lambda>(e, q). (e, q, w)) (processMsgArgs arg p)),
      cb_processMsg = processMsg c,
      cb_processSub = (\<lambda>arg w. Some (processSub c arg w)),
      cb_processUnsub = (\<lambda>arg w. Some (processUnsub c arg w)),
      cb_processConnect = (\<lambda>arg w. Some (processConnect j c arg w)),
      cb_processInfo = (\<lambda>arg w. Some (processInfo j c arg w)),
      cb_processErr = processErr c,
      cb_processPing = processPing c,
      cb_processPong = processPong c\<rparr>"

text \<open>
  A read overwrites the start of the connection's buffer, and with it the sid of a pending
  message that still points there.
\<close>

definition overwrite :: "byte list \<Rightarrow> byte list \<Rightarrow> byte list" where
  "overwrite new mem = new @ drop (length new) mem"

definition reread_sid :: "byte list \<Rightarrow> pubArg \<Rightarrow> pubArg" where
  "reread_sid mem p =
     (case sid_at p of None \<Rightarrow> p | Some i \<Rightarrow> p\<lparr>pa_sid := take (length (pa_sid p)) (drop i mem)\<rparr>)"

text \<open>After a buffer the pending receivers are flushed; a flush that fails closes the receiver.\<close>

fun flush_loop :: "u64 \<Rightarrow> u64 list \<Rightarrow> server \<Rightarrow> server" where
  "flush_loop c [] w = w"
| "flush_loop c (k # ks) w =
     (let w1 = (if nc (cl w k) then
                  (case bw_Flush k w of (None, w1) \<Rightarrow> w1 | (Some _, w1) \<Rightarrow> closeConnection k w1)
                else w)
      in flush_loop c ks (upd_cl c (\<lambda>x. x\<lparr>pcd := removeAll k (pcd x)\<rparr>) w1))"

text \<open>
  One turn of \<open>readLoop\<close> on what \<open>Read\<close> returned (\<open>None\<close> is an error); the flag says whether the
  loop goes on.
\<close>

definition readLoop_turn ::
  "json \<Rightarrow> u64 \<Rightarrow> byte list option \<Rightarrow> byte list \<times> parseState \<times> server \<Rightarrow> (bool \<times> byte list \<times> parseState \<times> server) option" where
  "readLoop_turn j c r st =
     (case st of (mem, ps, w) \<Rightarrow>
      case r of
        None \<Rightarrow> Some (False, mem, ps, closeConnection c w)
      | Some new \<Rightarrow>
          let mem1 = overwrite new mem; ps0 = ps\<lparr>pa := reread_sid mem1 (pa ps)\<rparr>;
              stop = (\<lambda>ps1 w1. Some (False, mem1, ps1, closeConnection c (sendErr c ''Parser Error'' w1)))
          in case parse (client_callbacks j c) new ps0 w of
               None \<Rightarrow> None
             | Some (Failed e ps1 w1) \<Rightarrow> if e \<noteq> ErrAuthorization then stop ps1 w1 else Some (False, mem1, ps1, w1)
             | Some (Protocol_error _ _ _ ps1 w1) \<Rightarrow> stop ps1 w1
             | Some (Parsed ps1 w1) \<Rightarrow>
                 let w2 = flush_loop c (pcd (cl w1 c)) w1 in Some (nc (cl w2 c), mem1, ps1, w2))"

end
