(* ===== verification/NatsLines.thy ===== *)
theory NatsLines
  imports NatsClient
begin

text \<open>
  The lines of the protocol: the arguments of a line and sizes as they are written and read
  back, the client's operations as a \<open>line_parser\<close>, and what the parser does with them however
  the lines are cut, including the cuts it does not survive.
\<close>

section \<open>Arguments\<close>

fun join_args :: "byte list list \<Rightarrow> byte list" where
  "join_args [] = []"
| "join_args [t] = t"
| "join_args (t # u # ts) = t @ SPC # join_args (u # ts)"

definition plain_arg :: "byte list \<Rightarrow> bool" where
  "plain_arg t \<longleftrightarrow> t \<noteq> [] \<and> (\<forall>b \<in> set t. \<not> space b)"

lemma space_SPC [simp]: "space SPC"
  by (simp add: space_def)

lemma arg_loop_word:
  "\<forall>b \<in> set t. \<not> space b \<Longrightarrow> arg_loop i (Some (s, u)) (t @ rest) = arg_loop (i + length t) (Some (s, u @ t)) rest"
  by (induction t arbitrary: i u) simp_all

lemma arg_loop_arg:
  "plain_arg t \<Longrightarrow> arg_loop i None (t @ rest) = arg_loop (i + length t) (Some (i, t)) rest"
  using arg_loop_word [of "tl t" "Suc i" i "[hd t]" rest] by (cases t) (auto simp: plain_arg_def)

lemma arg_loop_join:
  "list_all plain_arg ts \<Longrightarrow> map snd (arg_loop i None (join_args ts)) = ts"
proof (induction ts arbitrary: i rule: join_args.induct)
  case (2 t)
  then show ?case using arg_loop_arg [of t i "[]"] by simp
next
  case (3 t u ts)
  then show ?case using arg_loop_arg [of t i "SPC # join_args (u # ts)"] by simp
qed simp

lemma splitArg_join: "list_all plain_arg ts \<Longrightarrow> splitArg (join_args ts) = ts"
  by (simp add: splitArg_def arg_loop_join)

lemma length_arg_loop:
  "sum_list (map (length \<circ> snd) (arg_loop i cur bs)) \<le> length bs + (case cur of None \<Rightarrow> 0 | Some a \<Rightarrow> length (snd a))"
proof (induction bs arbitrary: i cur)
  case (Cons b bs)
  show ?case
    using Cons.IH [of "i + 1" None] Cons.IH [of "i + 1" "Some (case cur of None \<Rightarrow> (i, [b]) | Some (s, t) \<Rightarrow> (s, t @ [b]))"]
    by (auto split: option.splits)
qed (simp split: option.split)

lemma length_splitArg: "sum_list (map length (splitArg a)) \<le> length a"
  using length_arg_loop [of 0 None a] by (simp add: splitArg_def)

section \<open>Sizes\<close>

lemma wrap64_range: "- (2 ^ 63) \<le> wrap64 i \<and> wrap64 i < 2 ^ 63"
proof -
  have "0 \<le> (i + 2 ^ 63) mod 2 ^ 64" "(i + 2 ^ 63) mod 2 ^ 64 < 2 ^ 64" by simp_all
  then show ?thesis unfolding wrap64_def by simp
qed

lemma wrap64_mod: "wrap64 a mod 2 ^ 64 = a mod 2 ^ 64"
  unfolding wrap64_def by (simp only: mod_diff_left_eq) simp

lemma wrap64_eqI: "a mod 2 ^ 64 = b mod 2 ^ 64 \<Longrightarrow> wrap64 a = wrap64 b"
  unfolding wrap64_def by (metis mod_add_left_eq)

lemma wrap64_step: "wrap64 (wrap64 (wrap64 n * 10) + d) = wrap64 (n * 10 + d)"
proof (rule wrap64_eqI)
  have "wrap64 (wrap64 n * 10) mod 2 ^ 64 = n * 10 mod 2 ^ 64"
    unfolding wrap64_mod by (rule mod_mult_cong [OF wrap64_mod refl])
  then show "(wrap64 (wrap64 n * 10) + d) mod 2 ^ 64 = (n * 10 + d) mod 2 ^ 64" by (rule mod_add_cong [OF _ refl])
qed

text \<open>The number that decimal digits write.\<close>

definition dec_value :: "byte list \<Rightarrow> int" where
  "dec_value ds = foldl (\<lambda>n d. n * 10 + (uint d - 48)) 0 ds"

lemma size_loop_digits:
  "\<forall>d \<in> set ds. digit d \<Longrightarrow> size_loop (wrap64 n) ds = wrap64 (foldl (\<lambda>n d. n * 10 + (uint d - 48)) n ds)"
proof (induction ds arbitrary: n)
  case (Cons d ds)
  have "\<not> (d < 48 \<or> d > 57)" using Cons.prems by (auto simp: digit_def)
  then show ?case using Cons by (simp add: wrap64_step)
qed simp

lemma size_loop_bad: "\<exists>d \<in> set ds. \<not> digit d \<Longrightarrow> size_loop n ds = - 1"
  by (induction ds arbitrary: n) (auto simp: digit_def)

lemma parseSize_eq:
  "parseSize ds = (if ds \<noteq> [] \<and> (\<forall>d \<in> set ds. digit d) then wrap64 (dec_value ds) else - 1)"
proof -
  have "wrap64 0 = 0" by (simp add: wrap64_def)
  then show ?thesis using size_loop_digits [of ds 0] size_loop_bad [of ds 0] by (auto simp: parseSize_def dec_value_def)
qed

lemma uint_digit: "m < 10 \<Longrightarrow> uint (of_nat (48 + m) :: byte) = 48 + int m \<and> digit (of_nat (48 + m))"
proof -
  assume m: "m < 10"
  then have "unat (of_nat (48 + m) :: byte) = 48 + m" by (intro of_nat_inverse [OF refl]) simp
  then have "uint (of_nat (48 + m) :: byte) = 48 + int m" by (simp add: uint_nat)
  then show ?thesis using m by (simp add: digit_def word_le_def)
qed

lemma decimal_digits: "dec_value (decimal n) = int n \<and> decimal n \<noteq> [] \<and> (\<forall>d \<in> set (decimal n). digit d)"
proof (induction n rule: less_induct)
  case (less n)
  show ?case
  proof (cases "n < 10")
    case True
    then show ?thesis using uint_digit [of n] by (subst (1 2 3) decimal.simps) (simp add: dec_value_def)
  next
    case False
    then have "n div 10 < n" by simp
    note IH = less.IH [OF this]
    have "n mod 10 < 10" by simp
    note u = uint_digit [OF this]
    have "int n = int (n div 10) * 10 + int (n mod 10)" by presburger
    then show ?thesis using False IH u by (subst (1 2 3) decimal.simps) (auto simp: dec_value_def)
  qed
qed

lemma parseSize_decimal: "int n < 2 ^ 63 \<Longrightarrow> parseSize (decimal n) = int n"
  using decimal_digits [of n] wrap64_small [of "int n"] by (simp add: parseSize_eq)

lemma plain_decimal: "plain_arg (decimal n)"
proof -
  have "\<not> space d" if "digit d" for d
    using that by (auto simp: digit_def space_def SPC_def TAB_def CR_def LF_def)
  then show ?thesis using decimal_digits [of n] by (auto simp: plain_arg_def)
qed

section \<open>The client's operations\<close>

interpretation client: line_parser "client_callbacks j c" for j c
proof
  fix a p w p1 w1
  assume pub: "cb_processPub (client_callbacks j c) a p w = Some (None, p1, w1)"
  then have r: "processPub c a p w = (None, p1, w1)" by (simp add: client_callbacks_def)
  let ?args = "splitArg a"
  consider "length ?args = 2" | "length ?args = 3"
    using r by (auto simp: processPub_def Let_def split: if_splits)
  then have "clone_len p1 \<le> sum_list (map length ?args) \<and> 0 \<le> pa_size p1"
  proof cases
    case 1
    then obtain x y where "?args = [x, y]" by (auto simp: numeral_2_eq_2 length_Suc_conv)
    then show ?thesis using r by (auto simp: processPub_def Let_def clone_len_def split: if_splits)
  next
    case 2
    then obtain x y z where "?args = [x, y, z]" by (auto simp: numeral_3_eq_3 length_Suc_conv)
    then show ?thesis using r by (auto simp: processPub_def Let_def clone_len_def split: if_splits)
  qed
  then show "clone_len p1 \<le> length a" "0 \<le> pa_size p1" using length_splitArg [of a] by simp_all
qed

text \<open>A server with one client, for examples.\<close>

definition demo_json :: json where
  "demo_json = \<lparr>j_opts = (\<lambda>_ os. (True, os)), j_info = (\<lambda>_. None), j_connect = (\<lambda>_ _ _. [])\<rparr>"

definition demo_options :: options where
  "demo_options = \<lparr>o_Username = [], o_Password = [], o_Authorization = [], ClusterUsername = [], ClusterPassword = [],
     MaxPingsOut = 2\<rparr>"

definition demo :: server where
  "demo = snd (createClient [] (newServer [] demo_options [] (\<lambda>_. 0)))"

lemmas demo_defs = demo_def createClient_def newServer_def initClient_def sendInfo_def bw_Write_def next_outcome_def
  used_outcome_def upd_cl_def new_client_def demo_options_def

lemma demo_fields [simp]: "sl demo = sl_New" "has_srv (cl demo 1)" "\<not> atmr (cl demo 1)" "nc (cl demo 1)"
  "outcomes (cl demo 1) = []" "c_typ (cl demo 1) = CLIENT" "c_opts (cl demo 1) = defaultOpts" "clients demo = [1]" "routes demo = []"
  by (simp_all add: demo_defs Let_def)

section \<open>Streams and their cuts\<close>

text \<open>C9. However a stream that the reference reads to its end is cut into non-empty buffers, the parser
  of a connection makes the same calls with the same arguments, in the same order, as the reference,
  which reads single bytes: it ends with the reference's server state and publish arguments. What
  the reference reads is a stream of \<open>PUB\<close>, \<open>SUB\<close>, \<open>UNSUB\<close>, \<open>PING\<close>, \<open>PONG\<close>, \<open>+OK\<close> and \<open>-ERR\<close> lines,
  the last one possibly incomplete, without a carriage return inside an argument, with publish lines
  of at most 1024 bytes and payloads of the announced size, for which no operation returns an error
  and no authorization timer is pending. It refuses \<open>CONNECT\<close>, \<open>INFO\<close> and \<open>MSG\<close> lines and longer publish
  lines, which the code does not put together when they are cut (see \<open>split_connect_loses_argument\<close>
  and \<open>long_publish_line_panics\<close>).
\<close>

theorem cut_streams_follow_reference:
  assumes "[] \<notin> set bufs"
    and "ref_run (client_callbacks j c) (concat bufs) (Word OP_START, pa newParse, w) = Some (q, p, w1)"
  shows "\<exists>ps. parse_chunks (client_callbacks j c) bufs newParse w = Some (Parsed ps w1) \<and> pa ps = p"
  using parse_chunks_held [OF client.line_parser_axioms assms(1) held_new assms(2)] by blast

lemma client_fields [simp]:
  "cb_isAuthTimerSet (client_callbacks j c) = isAuthTimerSet c"
  "cb_processPub (client_callbacks j c) = (\<lambda>arg p w. Some (processPub c arg p w))"
  "cb_processMsg (client_callbacks j c) = processMsg c"
  "cb_processSub (client_callbacks j c) = (\<lambda>arg w. Some (processSub c arg w))"
  "cb_processUnsub (client_callbacks j c) = (\<lambda>arg w. Some (processUnsub c arg w))"
  "cb_processConnect (client_callbacks j c) = (\<lambda>arg w. Some (processConnect j c arg w))"
  "cb_processPing (client_callbacks j c) = processPing c"
  "cb_processPong (client_callbacks j c) = processPong c"
  "cb_processErr (client_callbacks j c) = processErr c"
  by (simp_all add: client_callbacks_def)

theorem cut_streams_follow_reference_witness:
  "\<exists>ps. parse_chunks (client_callbacks demo_json 1) [bytes ''pi'', bytes ''NG'', [CR], [LF] @ bytes ''+o'', bytes ''k''] newParse demo =
    Some (Parsed ps (processPing 1 demo))"
proof -
  have "\<not> atmr (cl (processPing 1 demo) 1)"
    by (simp add: processPing_def Let_def bw_Write_def bw_Flush_def next_outcome_def used_outcome_def upd_cl_def)
  then have r: "ref_run (client_callbacks demo_json 1) (concat [bytes ''pi'', bytes ''NG'', [CR], [LF] @ bytes ''+o'', bytes ''k''])
      (Word OP_START, pa newParse, demo) = Some (Word OP_PLUS_OK, pa newParse, processPing 1 demo)"
    by (simp add: ref_word_def word_move_def start_word_def pub_word_def ping_word_def sign_word_def char_bytes isAuthTimerSet_def)
  have "[] \<notin> set [bytes ''pi'', bytes ''NG'', [CR], [LF] @ bytes ''+o'', bytes ''k'']" by (simp add: bytes_def)
  from cut_streams_follow_reference [OF this r] show ?thesis by blast
qed

text \<open>C12. Written out as protocol lines and cut into non-empty buffers anywhere, a list of \<open>SUB\<close>, \<open>UNSUB\<close>,
  \<open>PUB\<close>, \<open>PING\<close>, \<open>PONG\<close>, \<open>+OK\<close> and \<open>-ERR\<close> commands is executed one by one: the parser calls
  \<open>processSub\<close>, \<open>processUnsub\<close>, \<open>processPub\<close> with \<open>processMsg\<close>, \<open>processPing\<close>, \<open>processPong\<close> and
  \<open>processErr\<close> with the argument and payload that were written, and is then back at its start state
  without copies. This is for commands that can be executed in turn: no authorization timer is pending,
  no operation returns an error, every argument is non-empty, does not begin with a blank and has no
  line break, and a publish line has at most 1024 bytes and announces the size of its payload.
  \<open>CONNECT\<close>, \<open>INFO\<close> and \<open>MSG\<close> lines are not among the commands: the parser loses a cut argument of theirs.
\<close>

theorem written_commands_are_executed:
  assumes "[] \<notin> set bufs" and "concat bufs = concat (map render cs)"
    and "exec_all (client_callbacks j c) cs (pa newParse, w) = Some (p, w1)"
  shows "\<exists>ps. parse_chunks (client_callbacks j c) bufs newParse w = Some (Parsed ps w1) \<and>
    pa ps = p \<and> state ps = OP_START \<and> argBuf ps = None \<and> msgBuf ps = None"
  by (rule parse_commands [OF client.line_parser_axioms assms])

theorem written_commands_are_executed_witness:
  "\<exists>ps. parse_chunks (client_callbacks demo_json 1)
      [bytes ''SUB a'', bytes '' 1'' @ [CR], [LF] @ bytes ''PING'' @ CRLF] newParse demo =
    Some (Parsed ps (processPing 1 (snd (processSub 1 (bytes ''a 1'') demo))))"
proof -
  let ?bufs = "[bytes ''SUB a'', bytes '' 1'' @ [CR], [LF] @ bytes ''PING'' @ CRLF]" and ?cs = "[Csub (bytes ''a 1''), Cping]"
  have a: "line_arg (bytes ''a 1'')" by (simp add: line_arg_def char_bytes)
  have s: "splitArg (bytes ''a 1'') = [bytes ''a'', bytes ''1'']"
    by (simp add: splitArg_def char_bytes space_def)
  have "fst (processSub 1 (bytes ''a 1'') demo) = None" "\<not> atmr (cl (snd (processSub 1 (bytes ''a 1'') demo)) 1)"
    by (auto simp: processSub_def Let_def s sl_insert_def upd_cl_def sendErr_def sendOK_def need_flush_def bw_Write_def
        next_outcome_def used_outcome_def broadcastSubscribe_def broadcastToRoutes_def split: prod.splits option.splits)
  then have e: "exec_all (client_callbacks demo_json 1) ?cs (pa newParse, demo) =
      Some (pa newParse, processPing 1 (snd (processSub 1 (bytes ''a 1'') demo)))"
    by (cases "processSub 1 (bytes ''a 1'') demo") (simp add: a called_def isAuthTimerSet_def)
  have "[] \<notin> set ?bufs" "concat ?bufs = concat (map render ?cs)" by (simp_all add: bytes_def CRLF_def)
  from written_commands_are_executed [OF this e] show ?thesis by blast
qed

section \<open>Publish lines\<close>

lemma publish_line:
  assumes "plain_arg subject" and "\<forall>r. reply = Some r \<longrightarrow> plain_arg r" and "int n < 2 ^ 63"
  shows "processPub c (join_args (subject # (case reply of None \<Rightarrow> [] | Some r \<Rightarrow> [r]) @ [decimal n])) p w =
    (None, p\<lparr>pa_subject := subject, pa_reply := reply, pa_size := int n, pa_szb := decimal n\<rparr>,
     if Pedantic (c_opts (cl w c)) \<and> \<not> IsValidLiteralSubject subject then sendErr c ''Invalid Subject'' w else w)"
proof -
  have "list_all plain_arg (subject # (case reply of None \<Rightarrow> [] | Some r \<Rightarrow> [r]) @ [decimal n])"
    using assms(1,2) plain_decimal by (cases reply) simp_all
  from splitArg_join [OF this] show ?thesis
    by (cases reply) (simp_all add: processPub_def Let_def parseSize_decimal [OF assms(3)])
qed

text \<open>A publish line written from a subject, an optional reply subject and a size is read back
  with the same parts; the only other effect is the complaint of a pedantic connection about an
  invalid subject.
\<close>

theorem publish_line_roundtrip:
  assumes "plain_arg subject" and "\<forall>r. reply = Some r \<longrightarrow> plain_arg r" and "int n < 2 ^ 63"
  shows "processPub c (join_args (subject # (case reply of None \<Rightarrow> [] | Some r \<Rightarrow> [r]) @ [decimal n])) p w =
    (None, p\<lparr>pa_subject := subject, pa_reply := reply, pa_size := int n, pa_szb := decimal n\<rparr>,
     if Pedantic (c_opts (cl w c)) \<and> \<not> IsValidLiteralSubject subject then sendErr c ''Invalid Subject'' w else w)"
  by (rule publish_line [OF assms])

theorem publish_line_roundtrip_witness:
  "processPub 1 (join_args (bytes ''foo.bar'' # (case Some (bytes ''INBOX.22'') of None \<Rightarrow> [] | Some r \<Rightarrow> [r]) @ [decimal 11])) (pa newParse) demo =
    (None, (pa newParse)\<lparr>pa_subject := bytes ''foo.bar'', pa_reply := Some (bytes ''INBOX.22''), pa_size := int 11, pa_szb := decimal 11\<rparr>, demo)"
proof -
  have a: "plain_arg (bytes ''foo.bar'')" "\<forall>r. Some (bytes ''INBOX.22'') = Some r \<longrightarrow> plain_arg r" "int 11 < 2 ^ 63"
    by (simp_all add: plain_arg_def char_bytes space_def)
  have "IsValidLiteralSubject (bytes ''foo.bar'')"
    by (simp add: IsValidLiteralSubject_def NatsSublist.split_def bytes_def SEP_def)
  then show ?thesis unfolding publish_line_roundtrip [OF a] by simp
qed

text \<open>\<open>parseSize\<close> returns the number that its digits write reduced to a signed 64-bit integer, so
  numbers from 2^63 on come out as other sizes, and -1 for anything else; its result always is
  a 64-bit integer.
\<close>

theorem parse_size_wraps:
  "parseSize ds = (if ds \<noteq> [] \<and> list_all digit ds then wrap64 (dec_value ds) else - 1) \<and>
   parseSize ds \<in> {- (2 ^ 63)..<2 ^ 63}"
  using parseSize_eq [of ds] wrap64_range [of "dec_value ds"] by (simp add: list_all_iff)

section \<open>A publish line at the end of a buffer\<close>

lemma finish_payload:
  assumes "state ps = MSG_PAYLOAD" and "msgBuf ps = None" and "as_at ps = length buf"
  shows "\<exists>ps2. Option.bind (finish_arg buf ps) (finish_msg buf) =
    (if length (case argBuf ps of None \<Rightarrow> the (argBuf (clonePubArg ps)) | Some a \<Rightarrow> a) > MAX_CONTROL_LINE_SIZE then None
     else Some ps2) \<and> pa ps2 = pa ps"
proof -
  have "\<exists>ps2. finish_msg buf ps =
      (if length (case argBuf ps of None \<Rightarrow> the (argBuf (clonePubArg ps)) | Some a \<Rightarrow> a) > MAX_CONTROL_LINE_SIZE then None
       else Some ps2) \<and> pa ps2 = pa ps"
  proof (cases "argBuf ps")
    case None
    then show ?thesis using assms
      by (auto simp: finish_msg_def clonePubArg_frame clonePubArg_pa intro!: exI [of _ "(clonePubArg ps)\<lparr>msgBuf := Some []\<rparr>"])
  next
    case (Some a)
    then show ?thesis using assms
      by (auto simp: finish_msg_def intro!: exI [of _ "ps\<lparr>msgBuf := Some []\<rparr>"])
  qed
  then show ?thesis using assms(1) by (simp add: finish_arg_def split_arg_state_def)
qed

text \<open>When the buffer ends after a publish line, the parser panics exactly if the parts it has to
  keep are longer than the 1024 bytes of \<open>scratch\<close>: nothing limits the length of the line before.
\<close>

theorem long_publish_line_panics:
  assumes a: "line_arg a" and pub: "processPub c a (pa newParse) w = (None, p, w1)" and auth: "\<not> isAuthTimerSet c w"
  shows "(parse (client_callbacks j c) (bytes ''PUB '' @ a @ CRLF) newParse w = None) = (clone_len p > MAX_CONTROL_LINE_SIZE)"
proof -
  let ?cb = "client_callbacks j c" and ?buf = "bytes ''PUB '' @ a @ CRLF" and ?n = "4 + length a + 1"
  obtain b a' where ab: "a = b # a'" using a by (cases a) (auto simp: line_arg_def)
  have cr: "CR \<noteq> LF" by (simp add: CR_def LF_def)
  have body: "ref_run ?cb (tl a @ [CR]) (Arg PUB_ARG [hd a] False, pa newParse, w) = Some (Arg PUB_ARG a True, pa newParse, w)"
  proof -
    have "ref_run ?cb (t @ [CR]) (Arg PUB_ARG x False, pa newParse, w) = Some (Arg PUB_ARG (x @ t) True, pa newParse, w)"
      if "CR \<notin> set t" "LF \<notin> set t" for t x
      using that auth cr by (induction t arbitrary: x) auto
    moreover have "CR \<notin> set (tl a)" "LF \<notin> set (tl a)" "[hd a] @ tl a = a" using a ab by (auto simp: line_arg_def)
    ultimately show ?thesis by metis
  qed
  have auth': "\<not> cb_isAuthTimerSet ?cb w" using auth by simp
  have r: "ref_run ?cb (bytes ''PUB '' @ a @ [CR]) (Word OP_START, pa newParse, w) = Some (Arg PUB_ARG a True, pa newParse, w)"
    unfolding ref_run_keyword(3) [OF auth' a] by (rule body)
  have l: "length (bytes ''PUB '') = 4" by (simp add: bytes_def)
  from parse_loop_prefix [OF client.line_parser_axioms, of ?buf 0 "Word OP_START" newParse "bytes ''PUB '' @ a @ [CR]" "[LF]", OF _ _ r] held_new
  obtain ps where p: "parse_loop ?cb ?buf 0 ?buf newParse False w = parse_loop ?cb ?buf ?n [LF] ps False w" "pa ps = pa newParse"
    "holds ?buf ?n (Arg PUB_ARG a True) ps" "argBuf ps = None" by (auto simp: held_def CRLF_def l newParse_def)
  have n: "?n < length ?buf" by (simp add: CRLF_def l)
  have "step ?cb ?buf ?n LF ps False w =
      Some (Next (ps\<lparr>pa := p, drop_n := 0, as_at := ?n + 1, state := MSG_PAYLOAD\<rparr>) False w1)" (is "_ = Some (Next ?ps False w1)")
    using p(2,3) the_arg_holds [OF p(3)] pub by (simp add: step_def pub_arg_def)
  then have "parse ?cb ?buf newParse w =
      do { ps1 \<leftarrow> finish_arg ?buf ?ps; ps2 \<leftarrow> finish_msg ?buf ps1; Some (Parsed ps2 w1) }"
    using p(1) auth by (simp add: parse_def)
  also have "\<dots> = Option.bind (Option.bind (finish_arg ?buf ?ps) (finish_msg ?buf)) (\<lambda>ps2. Some (Parsed ps2 w1))"
    by (cases "finish_arg ?buf ?ps") simp_all
  finally have e: "parse ?cb ?buf newParse w = \<dots>" .
  have "state ?ps = MSG_PAYLOAD" "msgBuf ?ps = None" "as_at ?ps = length ?buf"
    using p(3) by (simp_all add: CRLF_def l)
  from finish_payload [OF this] obtain ps2 where f: "Option.bind (finish_arg ?buf ?ps) (finish_msg ?buf) =
      (if length (case argBuf ?ps of None \<Rightarrow> the (argBuf (clonePubArg ?ps)) | Some a \<Rightarrow> a) > MAX_CONTROL_LINE_SIZE then None
       else Some ps2)" by blast
  have "argBuf ?ps = None" using p(4) by simp
  then show ?thesis unfolding e f using clonePubArg_len [of ?ps] by simp
qed

theorem long_publish_line_panics_witness:
  "parse (client_callbacks demo_json 1) (bytes ''PUB '' @ join_args [replicate 1100 120, decimal 2] @ CRLF) newParse demo = None"
proof -
  let ?s = "replicate 1100 120 :: byte list"
  have s: "plain_arg ?s" by (simp add: plain_arg_def space_def SPC_def TAB_def CR_def LF_def)
  have "CR \<notin> set (decimal 2)" "LF \<notin> set (decimal 2)" "\<not> blank (hd ?s)"
    using plain_decimal [of 2] by (auto simp: plain_arg_def space_def blank_def SPC_def TAB_def)
  then have a: "line_arg (join_args [?s, decimal 2])"
    by (simp add: line_arg_def SPC_def CR_def LF_def)
  have "int 2 < 2 ^ 63" by simp
  from publish_line [OF s _ this, of None 1 "pa newParse" demo] obtain w1 where
    p: "processPub 1 (join_args [?s, decimal 2]) (pa newParse) demo =
      (None, (pa newParse)\<lparr>pa_subject := ?s, pa_reply := None, pa_size := int 2, pa_szb := decimal 2\<rparr>, w1)" by simp
  have "MAX_CONTROL_LINE_SIZE < clone_len ((pa newParse)\<lparr>pa_subject := ?s, pa_reply := None, pa_size := int 2, pa_szb := decimal 2\<rparr>)"
    by (simp add: clone_len_def MAX_CONTROL_LINE_SIZE_def)
  moreover have "\<not> isAuthTimerSet 1 demo" by (simp add: isAuthTimerSet_def)
  ultimately show ?thesis using long_publish_line_panics [OF a p] by blast
qed

section \<open>A connect line across two buffers\<close>

lemma connect_bytes:
  "CR \<notin> set xs \<Longrightarrow> LF \<notin> set xs \<Longrightarrow> state ps = CONNECT_ARG \<Longrightarrow>
   parse_loop cb buf i (xs @ ys) ps au w = parse_loop cb buf (i + length xs) ys ps au w"
proof (induction xs arbitrary: i)
  case (Cons x xs)
  then have "step cb buf i x ps au w = Some (Next ps au w)" by (auto simp: step_def connect_arg_def)
  then show ?case using Cons by simp
qed simp

lemma connect_line:
  assumes "\<not> blank b"
  shows "parse_loop cb buf 0 (bytes ''CONNECT '' @ b # zs) newParse au w =
    parse_loop cb buf 9 zs (newParse\<lparr>state := CONNECT_ARG, as_at := 8\<rparr>) au w"
  using assms by (simp add: step_def moved_def start_word_def connect_word_def char_bytes newParse_def) (simp add: eval_nat_numeral)

text \<open>A connect line that is cut into two buffers inside its argument is not put together: what
  \<open>processConnect\<close> gets is the rest of the argument without its first eight bytes, and if the
  rest is shorter than that the parser panics.
\<close>

theorem split_connect_loses_argument:
  assumes xs: "line_arg xs" and ys: "CR \<notin> set ys" "LF \<notin> set ys"
  shows "\<exists>ps. parse_chunks (client_callbacks j c) [bytes ''CONNECT '' @ xs, ys @ CRLF] newParse w =
    (if length ys < 8 then None
     else Some (case processConnect j c (drop 8 ys) w of
        (None, w1) \<Rightarrow> Parsed ps w1 | (Some e, w1) \<Rightarrow> Failed e ps w1))"
proof -
  let ?cb = "client_callbacks j c" and ?ps = "newParse\<lparr>state := CONNECT_ARG, as_at := 8\<rparr>" and ?buf = "ys @ CRLF"
  have cr: "CR \<noteq> LF" by (simp add: CR_def LF_def)
  obtain b xs' where x: "xs = b # xs'" "\<not> blank b" "CR \<notin> set xs'" "LF \<notin> set xs'"
    using xs by (cases xs) (auto simp: line_arg_def)
  have f: "finish_arg buf ?ps = Some ?ps" "finish_msg buf ?ps = Some ?ps" for buf
    by (simp_all add: finish_arg_def finish_msg_def split_arg_state_def)
  have "parse ?cb (bytes ''CONNECT '' @ xs) newParse w = Some (Parsed ?ps w)"
    unfolding parse_def x(1) connect_line [OF x(2)]
    using connect_bytes [OF x(3,4), of ?ps ?cb _ 9 "[]"] f by simp
  then have "parse_chunks ?cb [bytes ''CONNECT '' @ xs, ?buf] newParse w = parse ?cb ?buf ?ps w"
    by (auto split: bind_splits parsed.splits)
  also have "\<dots> = parse_loop ?cb ?buf (length ys) CRLF ?ps (isAuthTimerSet c w) w"
    unfolding parse_def using connect_bytes [OF ys, of ?ps ?cb ?buf 0 CRLF] by simp
  also have "\<dots> = parse_loop ?cb ?buf (length ys + 1) [LF] (?ps\<lparr>drop_n := 1\<rparr>) (isAuthTimerSet c w) w"
    by (simp add: CRLF_def step_def connect_arg_def)
  finally have e: "parse_chunks ?cb [bytes ''CONNECT '' @ xs, ?buf] newParse w = \<dots>" .
  have sl: "buf_slice ?buf 8 (int (length ys)) = (if length ys < 8 then None else Some (drop 8 ys))"
    by (simp add: buf_slice_def CRLF_def)
  show ?thesis
  proof (cases "length ys < 8")
    case True
    then show ?thesis unfolding e using sl cr by (simp add: step_def connect_arg_def)
  next
    case False
    obtain err w1 where r: "processConnect j c (drop 8 ys) w = (err, w1)" by (rule prod.exhaust)
    show ?thesis unfolding e using sl cr False r
      by (cases err) (auto simp: step_def connect_arg_def finish_arg_def finish_msg_def split_arg_state_def)
  qed
qed

theorem split_connect_loses_argument_witness:
  "parse_chunks (client_callbacks demo_json 1) [bytes ''CONNECT {'', bytes ''}'' @ CRLF] newParse demo = None"
proof -
  have "line_arg (bytes ''{'')" "CR \<notin> set (bytes ''}'')" "LF \<notin> set (bytes ''}'')"
    by (simp_all add: line_arg_def char_bytes)
  from split_connect_loses_argument [OF this, of demo_json 1 demo] show ?thesis by (simp add: bytes_def)
qed

end
