(* ===== verification/NatsBroker.thy ===== *)
theory NatsBroker
  imports NatsLines
begin

text \<open>
  The broker's promises: who receives a published message, what a limit on a subscription does,
  and two ways in which subscriptions outlive their owner.
\<close>

section \<open>Frames\<close>

text \<open>
  What a delivery to an open connection whose writes succeed, on a subscription that does not come to
  its limit, leaves alone: everything that later deliveries look at but its count of messages.
\<close>

definition same_sub :: "subscription \<Rightarrow> subscription \<Rightarrow> bool" where
  "same_sub s t \<longleftrightarrow> s_client t = s_client s \<and> s_queue t = s_queue s \<and> s_sid t = s_sid s \<and> s_max t = s_max s"

definition same_client :: "client \<Rightarrow> client \<Rightarrow> bool" where
  "same_client k l \<longleftrightarrow> nc l = nc k \<and> outcomes l = outcomes k \<and> c_typ l = c_typ k \<and> c_route l = c_route k"

definition undisturbed :: "server \<Rightarrow> server \<Rightarrow> bool" where
  "undisturbed w v \<longleftrightarrow> (\<forall>n. same_sub (sb w n) (sb v n)) \<and> (\<forall>k. same_client (cl w k) (cl v k))"

lemma undisturbed_refl [simp]: "undisturbed w w"
  by (simp add: undisturbed_def same_sub_def same_client_def)

lemma undisturbed_trans: "undisturbed w v \<Longrightarrow> undisturbed v u \<Longrightarrow> undisturbed w u"
  by (simp add: undisturbed_def same_sub_def same_client_def)

lemma undisturbed_draw [simp]: "undisturbed w (snd (draw w))" "cl (snd (draw w)) = cl w" "sb (snd (draw w)) = sb w"
  by (simp_all add: draw_def undisturbed_def same_sub_def same_client_def)

text \<open>A subscription that \<open>j\<close> deliveries reach without further ado.\<close>

definition ready :: "server \<Rightarrow> nat \<Rightarrow> nat \<Rightarrow> bool" where
  "ready w j n \<longleftrightarrow> (s_max (sb w n) = 0 \<or> s_nm (sb w n) + int j < s_max (sb w n)) \<and>
     nc (cl w (s_client (sb w n))) \<and> outcomes (cl w (s_client (sb w n))) = []"

lemma ready_undisturbed:
  "undisturbed w v \<Longrightarrow> ready w j n \<Longrightarrow> s_nm (sb v n) + int i \<le> s_nm (sb w n) + int j \<Longrightarrow> ready v i n"
  by (auto simp: undisturbed_def ready_def same_sub_def same_client_def)

lemma header_undisturbed: "undisturbed w v \<Longrightarrow> msgHeader p mh (sb v n) = msgHeader p mh (sb w n)"
  by (simp add: undisturbed_def msgHeader_def same_sub_def)

lemma deliver_ready:
  assumes "ready w j n" and "0 < j"
  shows "undisturbed w (deliverMsg c n mh msg w)" and
    "out (cl (deliverMsg c n mh msg w) k) = out (cl w k) @ (if k = s_client (sb w n) then mh @ msg else [])" and
    "s_nm (sb (deliverMsg c n mh msg w) m) = s_nm (sb w m) + (if m = n then 1 else 0)"
proof -
  have "s_max (sb w n) = 0 \<or> s_nm (sb w n) + 1 < s_max (sb w n)" using assms by (auto simp: ready_def)
  then have e: "deliverMsg c n mh msg w = deliver_write c (s_client (sb w n)) mh msg (upd_sb n (\<lambda>s. s\<lparr>s_nm := s_nm s + 1\<rparr>) w)"
    by (auto simp: deliverMsg_def Let_def upd_sb_def)
  have o: "nc (cl w (s_client (sb w n)))" "outcomes (cl w (s_client (sb w n))) = []" using assms(1) by (simp_all add: ready_def)
  show "undisturbed w (deliverMsg c n mh msg w)"
    "out (cl (deliverMsg c n mh msg w) k) = out (cl w k) @ (if k = s_client (sb w n) then mh @ msg else [])"
    "s_nm (sb (deliverMsg c n mh msg w) m) = s_nm (sb w m) + (if m = n then 1 else 0)"
    unfolding e using o
    by (auto simp: Let_def upd_sb_def deliver_write_def upd_cl_def bw_Write_def next_outcome_def used_outcome_def need_flush_def
        undisturbed_def same_sub_def same_client_def)
qed

section \<open>The loop over the subscriptions\<close>

text \<open>The subscriptions served directly: those without a queue, but each remote server once.\<close>

fun direct :: "server \<Rightarrow> nat list \<Rightarrow> byte list list \<Rightarrow> nat list" where
  "direct w [] seen = []"
| "direct w (n # ns) seen =
     (if s_queue (sb w n) \<noteq> None then direct w ns seen
      else if c_typ (cl w (s_client (sb w n))) \<noteq> ROUTER then n # direct w ns seen
      else
        (case c_route (cl w (s_client (sb w n))) of
           None \<Rightarrow> direct w ns seen
         | Some r \<Rightarrow> if remoteID r = [] \<or> remoteID r \<in> set seen then direct w ns seen
                     else n # direct w ns (remoteID r # seen)))"

lemma queue_undisturbed: "undisturbed w v \<Longrightarrow> s_queue (sb v n) = s_queue (sb w n)"
  by (simp add: undisturbed_def same_sub_def)

lemma direct_undisturbed: "undisturbed w v \<Longrightarrow> direct v ns seen = direct w ns seen"
  by (induction ns arbitrary: seen) (auto simp: undisturbed_def same_sub_def same_client_def split: option.splits)

definition on_client :: "server \<Rightarrow> nat \<Rightarrow> bool" where
  "on_client w n \<longleftrightarrow> c_typ (cl w (s_client (sb w n))) \<noteq> ROUTER"

definition remote_of :: "server \<Rightarrow> nat \<Rightarrow> byte list" where
  "remote_of w n = (case c_route (cl w (s_client (sb w n))) of None \<Rightarrow> [] | Some r \<Rightarrow> remoteID r)"

lemma direct_clients: "filter (on_client w) (direct w ns seen) = filter (\<lambda>n. s_queue (sb w n) = None \<and> on_client w n) ns"
  by (induction ns arbitrary: seen) (auto simp: on_client_def split: option.splits)

lemma direct_remotes:
  "distinct (map (remote_of w) (filter (\<lambda>n. \<not> on_client w n) (direct w ns seen))) \<and>
   remote_of w ` {n \<in> set (direct w ns seen). \<not> on_client w n} =
     remote_of w ` {n \<in> set ns. s_queue (sb w n) = None \<and> \<not> on_client w n} - {[]} - set seen"
proof (induction ns arbitrary: seen)
  case (Cons n ns)
  show ?case
  proof (cases "s_queue (sb w n) = None \<and> \<not> on_client w n")
    case False
    then have d: "filter (\<lambda>n. \<not> on_client w n) (direct w (n # ns) seen) = filter (\<lambda>n. \<not> on_client w n) (direct w ns seen)"
      "{m \<in> set (direct w (n # ns) seen). \<not> on_client w m} = {m \<in> set (direct w ns seen). \<not> on_client w m}"
      "{m \<in> set (n # ns). s_queue (sb w m) = None \<and> \<not> on_client w m} = {m \<in> set ns. s_queue (sb w m) = None \<and> \<not> on_client w m}"
      by (auto simp: on_client_def)
    show ?thesis unfolding d by (rule Cons.IH)
  next
    case True
    then have t: "c_typ (cl w (s_client (sb w n))) = ROUTER" "s_queue (sb w n) = None" by (simp_all add: on_client_def)
    have ins: "{m \<in> set (n # ns). s_queue (sb w m) = None \<and> \<not> on_client w m} =
        insert n {m \<in> set ns. s_queue (sb w m) = None \<and> \<not> on_client w m}" using True by auto
    show ?thesis
    proof (cases "remote_of w n = [] \<or> remote_of w n \<in> set seen")
      case skip: True
      then have "direct w (n # ns) seen = direct w ns seen"
        using t by (auto simp: remote_of_def split: option.splits)
      then show ?thesis using Cons.IH [of seen] skip unfolding ins by auto
    next
      case False
      then have d: "direct w (n # ns) seen = n # direct w ns (remote_of w n # seen)"
        using t by (auto simp: remote_of_def split: option.splits)
      have "{m \<in> set (direct w (n # ns) seen). \<not> on_client w m} =
          insert n {m \<in> set (direct w ns (remote_of w n # seen)). \<not> on_client w m}" unfolding d using True by auto
      moreover have "remote_of w n \<notin> remote_of w ` {m \<in> set (direct w ns (remote_of w n # seen)). \<not> on_client w m}"
        using Cons.IH [of "remote_of w n # seen"] by auto
      ultimately show ?thesis using Cons.IH [of "remote_of w n # seen"] False True unfolding ins d by auto
    qed
  qed
qed simp

text \<open>The groups gathered: every queue of the list once, with members of the list.\<close>

definition groups_ok :: "server \<Rightarrow> nat list \<Rightarrow> (byte list \<times> nat list) list \<Rightarrow> bool" where
  "groups_ok w ns m \<longleftrightarrow> distinct (map fst m) \<and>
     (\<forall>q. map_of m q \<noteq> None \<longleftrightarrow> (\<exists>n \<in> set ns. s_queue (sb w n) = Some q)) \<and>
     (\<forall>q xs. map_of m q = Some xs \<longrightarrow> xs \<noteq> [] \<and> (\<forall>n \<in> set xs. n \<in> set ns \<and> s_queue (sb w n) = Some q))"

lemma map_of_insert_at: "q \<notin> fst ` set xs \<Longrightarrow> map_of (xs @ (q, v) # ys) = (map_of (xs @ ys))(q \<mapsto> v)"
  by (induction xs) (auto simp: fun_eq_iff)

lemma add_group_map:
  "distinct (map fst m) \<Longrightarrow>
   map_of (add_group r q n m) = (map_of m)(q \<mapsto> (case map_of m q of None \<Rightarrow> [] | Some ns \<Rightarrow> ns) @ [n]) \<and>
   distinct (map fst (add_group r q n m))"
proof (cases "map_of m q")
  case None
  assume d: "distinct (map fst m)"
  let ?i = "r mod (length m + 1)"
  have q: "q \<notin> fst ` set m" using None by (simp add: map_of_eq_None_iff)
  then have qt: "q \<notin> fst ` set (take ?i m)" "q \<notin> fst ` set (drop ?i m)"
    by (auto dest: in_set_takeD in_set_dropD intro: rev_image_eqI)
  have "distinct (map fst (take ?i m) @ map fst (drop ?i m))" using d by (metis append_take_drop_id map_append)
  then have "distinct (map fst (take ?i m @ (q, [n]) # drop ?i m))" using qt by simp
  then show ?thesis using None map_of_insert_at [OF qt(1), of "[n]" "drop ?i m"] by (simp add: add_group_def Let_def)
next
  case (Some xs)
  assume "distinct (map fst m)"
  then show ?thesis using Some by (simp add: add_group_def map_of_update_eq distinct_fst_update)
qed

lemma add_group_ok:
  assumes m: "groups_ok w ns m" and q: "s_queue (sb w n) = Some q"
  shows "groups_ok w (ns @ [n]) (add_group r q n m)"
proof -
  have d: "distinct (map fst m)" using m by (simp add: groups_ok_def)
  from add_group_map [OF d, of r q n] show ?thesis using m q by (auto simp: groups_ok_def split: option.splits)
qed

lemma groups_undisturbed: "undisturbed w v \<Longrightarrow> groups_ok v ns m = groups_ok w ns m"
proof -
  assume "undisturbed w v"
  then have "s_queue (sb v n) = s_queue (sb w n)" for n by (simp add: undisturbed_def same_sub_def)
  then show ?thesis by (simp only: groups_ok_def)
qed

lemma skip_group_ok: "groups_ok w ns m \<Longrightarrow> s_queue (sb w n) = None \<Longrightarrow> groups_ok w (ns @ [n]) m"
  by (auto simp: groups_ok_def)

text \<open>What the deliveries of a list of subscriptions write to a connection.\<close>

definition written :: "server \<Rightarrow> pubArg \<Rightarrow> byte list \<Rightarrow> nat list \<Rightarrow> u64 \<Rightarrow> byte list" where
  "written w p msg ns k =
     concat (map (\<lambda>n. msgHeader p (msg_head p) (sb w n) @ msg) (filter (\<lambda>n. s_client (sb w n) = k) ns))"

lemma written_simps [simp]:
  "written w p msg [] k = []"
  "written w p msg (n # ns) k =
     (if s_client (sb w n) = k then msgHeader p (msg_head p) (sb w n) @ msg else []) @ written w p msg ns k"
  "written w p msg (ns @ ms) k = written w p msg ns k @ written w p msg ms k"
  by (simp_all add: written_def)

lemma written_undisturbed: "undisturbed w v \<Longrightarrow> written v p msg ns k = written w p msg ns k"
proof (induction ns)
  case (Cons n ns)
  then have "s_client (sb v n) = s_client (sb w n)" by (simp add: undisturbed_def same_sub_def)
  then show ?case using Cons by (simp add: header_undisturbed)
qed simp

lemma msg_loop_spec:
  assumes "c_typ (cl w c) \<noteq> ROUTER"
  shows "\<forall>n \<in> set ns. ready w (count (mset ns) n) n \<Longrightarrow> groups_ok w past qmap \<Longrightarrow>
    case msg_loop c p (msg_head p) msg ns qmap seen w of (m, v) \<Rightarrow>
      undisturbed w v \<and> groups_ok w (past @ ns) m \<and> (\<forall>n. s_queue (sb w n) \<noteq> None \<longrightarrow> s_nm (sb v n) = s_nm (sb w n)) \<and>
      (\<forall>k. out (cl v k) = out (cl w k) @ written w p msg (direct w ns seen) k)"
  using assms
proof (induction ns arbitrary: past qmap seen w)
  case (Cons n ns)
  have r: "ready w (Suc (count (mset ns) n)) n" using Cons.prems(1) by simp
  let ?d = "deliverMsg c n (msgHeader p (msg_head p) (sb w n)) msg w"
  note D = deliver_ready [OF r, of c "msgHeader p (msg_head p) (sb w n)" msg, OF zero_less_Suc]
  have step: "case msg_loop c p (msg_head p) msg ns qmap' seen' v of (m, u) \<Rightarrow>
      undisturbed w u \<and> groups_ok w (past @ n # ns) m \<and> (\<forall>n. s_queue (sb w n) \<noteq> None \<longrightarrow> s_nm (sb u n) = s_nm (sb w n)) \<and>
      (\<forall>k. out (cl u k) = out (cl v k) @ written w p msg (direct w ns seen') k)"
    if v: "undisturbed w v" and g: "groups_ok w (past @ [n]) qmap'"
      and nm: "\<And>m. s_nm (sb v m) \<le> s_nm (sb w m) + (if m = n then 1 else 0)"
      and nq: "\<And>m. s_queue (sb w m) \<noteq> None \<Longrightarrow> s_nm (sb v m) = s_nm (sb w m)"
    for v qmap' seen'
  proof -
    have "c_typ (cl v c) \<noteq> ROUTER" using v Cons.prems(3) by (simp add: undisturbed_def same_client_def)
    moreover have "\<forall>m \<in> set ns. ready v (count (mset ns) m) m"
    proof
      fix m
      assume "m \<in> set ns"
      then have "ready w (count (mset (n # ns)) m) m" using Cons.prems(1) by simp
      moreover have "s_nm (sb v m) + int (count (mset ns) m) \<le> s_nm (sb w m) + int (count (mset (n # ns)) m)"
        using nm [of m] by (auto split: if_splits)
      ultimately show "ready v (count (mset ns) m) m" by (rule ready_undisturbed [OF v])
    qed
    moreover have "groups_ok v (past @ [n]) qmap'" using g groups_undisturbed [OF v] by simp
    ultimately have IH: "case msg_loop c p (msg_head p) msg ns qmap' seen' v of (m, u) \<Rightarrow>
      undisturbed v u \<and> groups_ok v ((past @ [n]) @ ns) m \<and> (\<forall>n. s_queue (sb v n) \<noteq> None \<longrightarrow> s_nm (sb u n) = s_nm (sb v n)) \<and>
      (\<forall>k. out (cl u k) = out (cl v k) @ written v p msg (direct v ns seen') k)" by (intro Cons.IH)
    obtain m u where l: "msg_loop c p (msg_head p) msg ns qmap' seen' v = (m, u)" by (rule prod.exhaust)
    have "s_nm (sb u n) = s_nm (sb w n)" if "s_queue (sb w n) \<noteq> None" for n
      using IH l nq [OF that] queue_undisturbed [OF v] that by simp
    then show ?thesis using IH undisturbed_trans [OF v]
      by (simp add: l written_undisturbed [OF v] direct_undisturbed [OF v] groups_undisturbed [OF v])
  qed
  show ?case
  proof (cases "s_queue (sb w n)")
    case (Some q)
    have g: "groups_ok w (past @ [n]) (add_group (fst (draw w)) q n qmap)" by (rule add_group_ok [OF Cons.prems(2) Some])
    have "s_nm (sb (snd (draw w)) m) \<le> s_nm (sb w m) + (if m = n then 1 else 0)" for m by simp
    from step [OF undisturbed_draw(1) g this, of seen] show ?thesis using Some Cons.prems(3)
      by (simp add: Let_def case_prod_beta)
  next
    case None
    have g: "groups_ok w (past @ [n]) qmap" by (rule skip_group_ok [OF Cons.prems(2) None])
    let ?loop = "msg_loop c p (msg_head p) msg"
    let ?k = "cl w (s_client (sb w n))"
    have "(\<exists>seen'. ?loop (n # ns) qmap seen w = ?loop ns qmap seen' ?d \<and> direct w (n # ns) seen = n # direct w ns seen') \<or>
        ?loop (n # ns) qmap seen w = ?loop ns qmap seen w \<and> direct w (n # ns) seen = direct w ns seen"
    proof (cases "c_typ ?k = ROUTER")
      case True
      then show ?thesis using None Cons.prems(3)
        by (cases "c_route ?k"; cases "remoteID (the (c_route ?k)) = [] \<or> remoteID (the (c_route ?k)) \<in> set seen")
          (simp_all add: Let_def, blast+)
    next
      case False
      then show ?thesis using None by (simp add: Let_def) blast
    qed
    then consider seen' where "?loop (n # ns) qmap seen w = ?loop ns qmap seen' ?d" "direct w (n # ns) seen = n # direct w ns seen'"
      | "?loop (n # ns) qmap seen w = ?loop ns qmap seen w" "direct w (n # ns) seen = direct w ns seen" by blast
    then show ?thesis
    proof cases
      case (1 seen')
      have "out (cl ?d k) = out (cl w k) @ (if s_client (sb w n) = k then msgHeader p (msg_head p) (sb w n) @ msg else [])" for k
        using D(2) by simp
      moreover have "s_nm (sb ?d m) = s_nm (sb w m)" if "s_queue (sb w m) \<noteq> None" for m
        using D(3) [of m] None that by auto
      ultimately show ?thesis unfolding 1 using step [OF D(1) g eq_refl [OF D(3)], of seen'] by (simp add: case_prod_beta)
    next
      case 2
      show ?thesis unfolding 2 by (rule step [OF undisturbed_refl g]) simp_all
    qed
  qed
qed simp

text \<open>One member of every group.\<close>

lemma queue_loop_spec:
  "distinct (map fst m) \<Longrightarrow> \<forall>(q, xs) \<in> set m. xs \<noteq> [] \<and> (\<forall>n \<in> set xs. ready w 1 n \<and> s_queue (sb w n) = Some q) \<Longrightarrow>
   \<exists>ws. undisturbed w (queue_loop c p (msg_head p) msg m w) \<and> list_all2 (\<lambda>n (q, xs). n \<in> set xs) ws m \<and>
     (\<forall>k. out (cl (queue_loop c p (msg_head p) msg m w) k) = out (cl w k) @ written w p msg ws k)"
proof (induction m arbitrary: w)
  case (Cons g m)
  obtain q xs where g: "g = (q, xs)" by (cases g)
  let ?n = "xs ! (fst (draw w) mod length xs)" and ?w1 = "snd (draw w)"
  have "xs \<noteq> []" using Cons.prems(2) g by simp
  then have n: "?n \<in> set xs" by (intro nth_mem) simp
  have q: "ready w 1 ?n" "s_queue (sb w ?n) = Some q" using Cons.prems(2) g n by auto
  have r: "ready ?w1 1 ?n" by (rule ready_undisturbed [OF undisturbed_draw(1) q(1)]) simp
  let ?d = "deliverMsg c ?n (msgHeader p (msg_head p) (sb w ?n)) msg ?w1"
  note D = deliver_ready [OF r zero_less_one, of c "msgHeader p (msg_head p) (sb w ?n)" msg]
  have v: "undisturbed w ?d" using undisturbed_trans [OF undisturbed_draw(1) D(1)] .
  have "xs' \<noteq> [] \<and> (\<forall>k \<in> set xs'. ready ?d 1 k \<and> s_queue (sb ?d k) = Some q')" if m: "(q', xs') \<in> set m" for q' xs'
  proof -
    have "q' \<noteq> q" using Cons.prems(1) g m by force
    have x: "xs' \<noteq> []" "\<And>k. k \<in> set xs' \<Longrightarrow> ready w 1 k \<and> s_queue (sb w k) = Some q'" using Cons.prems(2) m by auto
    then have "s_nm (sb ?d k) = s_nm (sb w k)" if "k \<in> set xs'" for k using D(3) q(2) \<open>q' \<noteq> q\<close> that by fastforce
    then show ?thesis using x ready_undisturbed [OF v, of 1 _ 1] queue_undisturbed [OF v] by auto
  qed
  then have "\<forall>(q, xs) \<in> set m. xs \<noteq> [] \<and> (\<forall>n \<in> set xs. ready ?d 1 n \<and> s_queue (sb ?d n) = Some q)" by blast
  moreover have "distinct (map fst m)" using Cons.prems(1) by simp
  ultimately obtain ws where
    ws: "undisturbed ?d (queue_loop c p (msg_head p) msg m ?d)" "list_all2 (\<lambda>n (q, xs). n \<in> set xs) ws m"
    "\<And>k. out (cl (queue_loop c p (msg_head p) msg m ?d) k) = out (cl ?d k) @ written ?d p msg ws k" using Cons.IH [of ?d] by blast
  have "queue_loop c p (msg_head p) msg (g # m) w = queue_loop c p (msg_head p) msg m ?d"
    by (simp add: g Let_def case_prod_beta)
  then show ?case using ws undisturbed_trans [OF v] D(2) n
    by (intro exI [of _ "?n # ws"]) (auto simp: g written_undisturbed [OF v])
qed auto

text \<open>
  The receivers of a message: the direct ones and one per queue group.
\<close>

definition receivers :: "server \<Rightarrow> nat list \<Rightarrow> nat list \<Rightarrow> bool" where
  "receivers w r ns \<longleftrightarrow>
     (\<exists>ws. ns = direct w r [] @ ws \<and> set ws \<subseteq> set r \<and> distinct (map (s_queue \<circ> sb w) ws) \<and>
       (s_queue \<circ> sb w) ` set ws = {Some q |q. \<exists>n \<in> set r. s_queue (sb w n) = Some q})"

lemma publish_spec:
  assumes "c_typ (cl w c) \<noteq> ROUTER" and r: "\<forall>n \<in> set r. ready w (count (mset r) n) n"
  shows "\<exists>ns. receivers w r ns \<and> undisturbed w (publish c p msg r w) \<and>
    (\<forall>k. out (cl (publish c p msg r w) k) = out (cl w k) @ written w p msg ns k)"
proof -
  obtain m v where l: "msg_loop c p (msg_head p) msg r [] [] w = (m, v)" by (rule prod.exhaust)
  have "groups_ok w [] []" by (simp add: groups_ok_def)
  from msg_loop_spec [OF assms(1) r this, of p msg "[]"] l have
    v: "undisturbed w v" and g: "groups_ok w r m" and nm: "\<And>n. s_queue (sb w n) \<noteq> None \<Longrightarrow> s_nm (sb v n) = s_nm (sb w n)" and o: "\<And>k. out (cl v k) = out (cl w k) @ written w p msg (direct w r []) k"
    by auto
  have mem: "map_of m q = Some xs" if "(q, xs) \<in> set m" for q xs using that g by (simp add: groups_ok_def)
  have "xs \<noteq> [] \<and> (\<forall>n \<in> set xs. ready v 1 n \<and> s_queue (sb v n) = Some q)" if m: "(q, xs) \<in> set m" for q xs
  proof -
    have x: "xs \<noteq> []" "\<And>n. n \<in> set xs \<Longrightarrow> n \<in> set r \<and> s_queue (sb w n) = Some q" using g mem [OF m] by (auto simp: groups_ok_def)
    have "ready v 1 n" if "n \<in> set xs" for n
    proof (rule ready_undisturbed [OF v])
      have n: "n \<in> set r" "s_queue (sb w n) = Some q" using x(2) that by auto
      show "ready w (count (mset r) n) n" using r n(1) by blast
      have "1 \<le> count (mset r) n" using n(1) by (simp add: Suc_le_eq)
      then show "s_nm (sb v n) + int 1 \<le> s_nm (sb w n) + int (count (mset r) n)" using nm n(2) by simp
    qed
    then show ?thesis using x queue_undisturbed [OF v] by auto
  qed
  then have "\<forall>(q, xs) \<in> set m. xs \<noteq> [] \<and> (\<forall>n \<in> set xs. ready v 1 n \<and> s_queue (sb v n) = Some q)" by blast
  from queue_loop_spec [OF _ this, of c p msg] g [unfolded groups_ok_def, THEN conjunct1] obtain ws where
    ws: "undisturbed v (queue_loop c p (msg_head p) msg m v)" "list_all2 (\<lambda>n (q, xs). n \<in> set xs) ws m"
    "\<And>k. out (cl (queue_loop c p (msg_head p) msg m v) k) = out (cl v k) @ written v p msg ws k" by blast
  have names: "map (s_queue \<circ> sb w) ws = map (Some \<circ> fst) m"
  proof (rule nth_equalityI)
    show "length (map (s_queue \<circ> sb w) ws) = length (map (Some \<circ> fst) m)" using list_all2_lengthD [OF ws(2)] by simp
    fix i assume "i < length (map (s_queue \<circ> sb w) ws)"
    then have i: "i < length ws" "i < length m" using list_all2_lengthD [OF ws(2)] by simp_all
    obtain q xs where q: "m ! i = (q, xs)" by (cases "m ! i")
    then have "ws ! i \<in> set xs" "map_of m q = Some xs"
      using list_all2_nthD [OF ws(2) i(1)] mem nth_mem [OF i(2)] by auto
    then have "s_queue (sb w (ws ! i)) = Some q" using g by (auto simp: groups_ok_def)
    then show "map (s_queue \<circ> sb w) ws ! i = map (Some \<circ> fst) m ! i" using i q by simp
  qed
  then have images: "(s_queue \<circ> sb w) ` set ws = (Some \<circ> fst) ` set m" by (metis list.set_map)
  have sub: "set ws \<subseteq> set r"
  proof
    fix n assume "n \<in> set ws"
    then obtain i where i: "i < length ws" "n = ws ! i" by (auto simp: in_set_conv_nth)
    obtain q xs where q: "m ! i = (q, xs)" by (cases "m ! i")
    have "i < length m" using i(1) list_all2_lengthD [OF ws(2)] by simp
    then have "(q, xs) \<in> set m" using nth_mem q by metis
    then have "n \<in> set xs" "map_of m q = Some xs" using list_all2_nthD [OF ws(2) i(1)] mem q i(2) by auto
    then show "n \<in> set r" using g by (auto simp: groups_ok_def)
  qed
  have dist: "distinct (map (Some \<circ> fst) m)" using g by (simp add: groups_ok_def distinct_map inj_on_def)
  have all: "(Some \<circ> fst) ` set m = {Some q |q. \<exists>n \<in> set r. s_queue (sb w n) = Some q}"
  proof -
    have "(q \<in> fst ` set m) = (\<exists>n \<in> set r. s_queue (sb w n) = Some q)" for q
      using g map_of_eq_None_iff [of m q] unfolding groups_ok_def by blast
    then have "fst ` set m = {q. \<exists>n \<in> set r. s_queue (sb w n) = Some q}" by blast
    then show ?thesis unfolding image_comp [symmetric] by blast
  qed
  have "receivers w r (direct w r [] @ ws)"
    unfolding receivers_def using sub dist names images all by (intro exI [of _ ws]) (simp only: simp_thms)
  moreover have "publish c p msg r w = queue_loop c p (msg_head p) msg m v"
    using assms(1) l by (simp add: publish_def Let_def)
  ultimately show ?thesis using o ws(1,3) undisturbed_trans [OF v]
    by (intro exI [of _ "direct w r [] @ ws"]) (auto simp: written_undisturbed [OF v])
qed

section \<open>Who receives a message\<close>

text \<open>The bookkeeping before the match: the statistics, \<open>+OK\<close> and a random number.\<close>

lemma publish_preamble:
  fixes l :: nat
  assumes "outcomes (cl w c) = []"
  defines "w1 \<equiv> upd_cl c (\<lambda>k. k\<lparr>c_stats := count_in l (c_stats k)\<rparr>) w"
  defines "w2 \<equiv> w1\<lparr>srv_stats := count_in l (srv_stats w1)\<rparr>"
  defines "w3 \<equiv> (if Verbose (c_opts (cl w2 c)) then sendOK c w2 else w2)"
  shows "undisturbed w w3 \<and> sl w3 = sl w \<and> sb w3 = sb w \<and>
    (\<forall>k. out (cl w3 k) = out (cl w k) @ (if k = c \<and> Verbose (c_opts (cl w c)) then bytes ''+OK'' @ CRLF else []))"
  using assms(1) unfolding w3_def w2_def w1_def
  by (auto simp: upd_cl_def sendOK_def need_flush_def bw_Write_def next_outcome_def used_outcome_def
      undisturbed_def same_sub_def same_client_def)

lemma processMsg_match:
  assumes A: "represents b Ls (sl w) A" and L: "pa_subject p \<in> Ls"
    and c: "has_srv (cl w c)" "outcomes (cl w c) = []"
  shows "\<exists>v r. processMsg c p msg w = Some (if r = [] then v else publish c p msg r v) \<and>
    mset r = interested A (pa_subject p) \<and> undisturbed w v \<and> sb v = sb w \<and>
    (\<forall>k. out (cl v k) = out (cl w k) @ (if k = c \<and> Verbose (c_opts (cl w c)) then bytes ''+OK'' @ CRLF else []))"
proof -
  let ?l = "length msg"
  let ?w1 = "upd_cl c (\<lambda>k. k\<lparr>c_stats := count_in ?l (c_stats k)\<rparr>) w"
  let ?w2 = "?w1\<lparr>srv_stats := count_in ?l (srv_stats ?w1)\<rparr>"
  let ?w3 = "if Verbose (c_opts (cl ?w2 c)) then sendOK c ?w2 else ?w2"
  let ?w4 = "snd (draw ?w3)" and ?x = "fst (draw ?w3)"
  note P = publish_preamble [OF c(2), of ?l]
  have sl: "sl ?w4 = sl w" using P by (simp add: draw_def)
  have u: "undisturbed w ?w4" using undisturbed_trans [OF _ undisturbed_draw(1)] P by blast
  obtain r s where m: "sl_Match ?x (pa_subject p) (sl ?w4) = Some (r, s)" "mset r = interested A (pa_subject p)"
    using Match_represents [OF A L, of ?x] sl by metis
  have h: "has_srv (cl ?w1 c)" using c(1) by (simp add: upd_cl_def)
  have "processMsg c p msg w = Some (if r = [] then ?w4\<lparr>sl := s\<rparr> else publish c p msg r (?w4\<lparr>sl := s\<rparr>))"
    using m(1) h by (simp add: processMsg_def Let_def case_prod_beta)
  moreover have "undisturbed w (?w4\<lparr>sl := s\<rparr>)" using u by (simp add: undisturbed_def)
  moreover have "sb (?w4\<lparr>sl := s\<rparr>) = sb w" using P by simp
  moreover have "out (cl (?w4\<lparr>sl := s\<rparr>) k) =
      out (cl w k) @ (if k = c \<and> Verbose (c_opts (cl w c)) then bytes ''+OK'' @ CRLF else [])" for k
    using P by simp
  ultimately show ?thesis using m(2) by blast
qed

lemma receivers_undisturbed: "undisturbed w v \<Longrightarrow> receivers v r ns = receivers w r ns"
proof -
  assume u: "undisturbed w v"
  then have "s_queue (sb v n) = s_queue (sb w n)" for n by (simp add: undisturbed_def same_sub_def)
  then have "s_queue \<circ> sb v = s_queue \<circ> sb w" "\<And>n. s_queue (sb v n) = s_queue (sb w n)" by auto
  then show ?thesis unfolding receivers_def direct_undisturbed [OF u] by simp
qed

text \<open>C6. A message that a client publishes goes to exactly the right connections: the sublist holds
  the subscriptions \<open>A\<close>, and what each connection gets is one \<open>MSG\<close> line with the payload for
  every direct receiver and for one member of each queue group, in the order of the match; every
  matching subscription without a queue of a client receives, every remote server with an id once. The publisher's \<open>+OK\<close>
  comes first, and nobody else gets anything. This is for a publisher that is a client whose writes
  succeed, a subject of the set \<open>Ls\<close> on which the sublist, cache included, stands for \<open>A\<close>
  (\<open>represents\<close>), and matching subscriptions whose connections are open, whose writes
  succeed and which have no limit or do not come to it with this message (what happens at the limit is
  \<open>limit_is_kept\<close>).
\<close>

theorem message_reaches_its_subscribers:
  assumes A: "represents b Ls (sl w) A" and L: "pa_subject p \<in> Ls"
    and c: "c_typ (cl w c) = CLIENT" "has_srv (cl w c)" "outcomes (cl w c) = []"
    and ready: "\<forall>n \<in># interested A (pa_subject p). ready w (count (interested A (pa_subject p)) n) n"
  shows "\<exists>w' r ns. processMsg c p msg w = Some w' \<and> mset r = interested A (pa_subject p) \<and> receivers w r ns \<and>
    filter (on_client w) (direct w r []) = filter (\<lambda>n. s_queue (sb w n) = None \<and> on_client w n) r \<and>
    distinct (map (remote_of w) (filter (\<lambda>n. \<not> on_client w n) (direct w r []))) \<and>
    remote_of w ` {n \<in> set (direct w r []). \<not> on_client w n} =
      remote_of w ` {n \<in> set r. s_queue (sb w n) = None \<and> \<not> on_client w n} - {[]} \<and>
    (\<forall>k. out (cl w' k) = out (cl w k) @ (if k = c \<and> Verbose (c_opts (cl w c)) then bytes ''+OK'' @ CRLF else []) @
       written w p msg ns k)"
proof -
  from processMsg_match [OF A L c(2,3), of msg] obtain v r where
    pm: "processMsg c p msg w = Some (if r = [] then v else publish c p msg r v)"
    and m: "mset r = interested A (pa_subject p)" and u: "undisturbed w v" and nm: "sb v = sb w"
    and o: "\<And>k. out (cl v k) = out (cl w k) @ (if k = c \<and> Verbose (c_opts (cl w c)) then bytes ''+OK'' @ CRLF else [])"
    by blast
  have "set r = set_mset (interested A (pa_subject p))" using m by (metis set_mset_mset)
  moreover have "ready v j n" if "ready w j n" for j n by (rule ready_undisturbed [OF u that]) (simp add: nm)
  ultimately have rd: "\<forall>n \<in> set r. ready v (count (mset r) n) n" using ready m by simp
  have t: "c_typ (cl v c) \<noteq> ROUTER" using u c(1) by (simp add: undisturbed_def same_client_def)
  have "\<exists>ns. receivers w r ns \<and> (\<forall>k. out (cl (if r = [] then v else publish c p msg r v) k) = out (cl v k) @ written w p msg ns k)"
  proof (cases "r = []")
    case True
    have "receivers w r []" by (simp add: receivers_def True)
    then show ?thesis using True by (intro exI [of _ "[]"]) simp
  next
    case False
    from publish_spec [OF t rd, of p msg] obtain ns where "receivers v r ns"
      "\<And>k. out (cl (publish c p msg r v) k) = out (cl v k) @ written v p msg ns k" by blast
    then show ?thesis using False receivers_undisturbed [OF u] by (intro exI [of _ ns]) (simp add: written_undisturbed [OF u])
  qed
  then obtain ns where ns: "receivers w r ns"
    "\<And>k. out (cl (if r = [] then v else publish c p msg r v) k) = out (cl v k) @ written w p msg ns k" by blast
  have "remote_of w ` {n \<in> set (direct w r []). \<not> on_client w n} =
      remote_of w ` {n \<in> set r. s_queue (sb w n) = None \<and> \<not> on_client w n} - {[]}" using direct_remotes [of w r "[]"] by simp
  then show ?thesis using pm m ns(1) direct_clients [of w r "[]"] conjunct1 [OF direct_remotes [of w r "[]"]]
    by (intro exI [of _ "if r = [] then v else publish c p msg r v"] exI [of _ r] exI [of _ ns]) (simp add: ns(2) o del: direct.simps)
qed

section \<open>Subscribing and unsubscribing\<close>

text \<open>What writing to connections leaves alone: everything but their outputs.\<close>

definition core :: "client \<Rightarrow> client" where
  "core k = k\<lparr>out := [], outcomes := [], pcd := []\<rparr>"

definition only_output :: "server \<Rightarrow> server \<Rightarrow> bool" where
  "only_output w v \<longleftrightarrow> v\<lparr>cl := cl w\<rparr> = w \<and> (\<forall>k. core (cl v k) = core (cl w k))"

lemma only_output_refl [simp]: "only_output w w"
  by (simp add: only_output_def)

lemma only_output_trans: "only_output w v \<Longrightarrow> only_output v u \<Longrightarrow> only_output w u"
  by (cases w; cases v; cases u) (simp add: only_output_def)

lemma only_output_write [simp]: "only_output w (snd (bw_Write c bs w))"
  by (cases w) (auto simp: bw_Write_def used_outcome_def upd_cl_def only_output_def core_def split: option.split)

lemma only_output_flush [simp]: "only_output w (snd (bw_Flush c w))"
  by (cases w) (auto simp: bw_Flush_def used_outcome_def upd_cl_def only_output_def core_def)

lemma only_output_need [simp]: "only_output w (need_flush c k w)"
  by (cases w) (auto simp: need_flush_def upd_cl_def only_output_def core_def)

lemma only_output_sends [simp]: "only_output w (sendOK c w)" "only_output w (sendErr c e w)"
  unfolding sendOK_def sendErr_def by (meson only_output_need only_output_trans only_output_write)+

lemma only_output_broadcast [simp]: "only_output w (broadcastToRoutes proto w)"
proof -
  have "only_output w (broadcast_loop rs proto w)" for rs
  proof (induction rs arbitrary: w)
    case (Cons r rs)
    show ?case using only_output_trans [OF only_output_trans [OF only_output_write only_output_flush] Cons.IH] by simp
  qed simp
  then show ?thesis by (simp add: broadcastToRoutes_def)
qed

lemma only_output_subs [simp]: "only_output w (broadcastSubscribe n w)" "only_output w (broadcastUnSubscribe n w)"
  by (simp_all add: broadcastSubscribe_def broadcastUnSubscribe_def Let_def)

lemma only_outputD:
  assumes "only_output w v"
  shows "sl v = sl w" "sb v = sb w" "next_sub v = next_sub w" "clients v = clients w" "routes v = routes w"
    "c_subs (cl v k) = c_subs (cl w k)" "has_srv (cl v k) = has_srv (cl w k)" "c_typ (cl v k) = c_typ (cl w k)"
    "nc (cl v k) = nc (cl w k)" "c_opts (cl v k) = c_opts (cl w k)" "c_route (cl v k) = c_route (cl w k)"
proof -
  have e: "v\<lparr>cl := cl w\<rparr> = w" and k: "core (cl v k) = core (cl w k)" using assms by (simp_all add: only_output_def)
  show "sl v = sl w" "sb v = sb w" "next_sub v = next_sub w" "clients v = clients w" "routes v = routes w"
    using arg_cong [OF e, of sl] arg_cong [OF e, of sb] arg_cong [OF e, of next_sub] arg_cong [OF e, of clients]
      arg_cong [OF e, of routes] by simp_all
  show "c_subs (cl v k) = c_subs (cl w k)" "has_srv (cl v k) = has_srv (cl w k)" "c_typ (cl v k) = c_typ (cl w k)"
    "nc (cl v k) = nc (cl w k)" "c_opts (cl v k) = c_opts (cl w k)" "c_route (cl v k) = c_route (cl w k)"
    using arg_cong [OF k, of c_subs] arg_cong [OF k, of has_srv] arg_cong [OF k, of c_typ] arg_cong [OF k, of nc]
      arg_cong [OF k, of c_opts] arg_cong [OF k, of c_route] by (simp_all add: core_def)
qed

text \<open>Subscribing: a new subscription in the client's map under its sid and in the sublist.\<close>

lemma processSub_spec:
  assumes args: "splitArg arg = [subject, sid]" and srv: "has_srv (cl w c)"
  defines "n \<equiv> next_sub w" and "v \<equiv> snd (processSub c arg w)"
  shows "fst (processSub c arg w) = None"
    "sb v = (sb w)(n := \<lparr>s_client = c, s_subject = subject, s_queue = None, s_sid = sid, s_nm = 0, s_max = 0\<rparr>)"
    "next_sub v = n + 1" "sl v = snd (sl_Insert subject n (sl w))" "c_subs (cl v c) = hm_Set (c_subs (cl w c)) sid n"
    "has_srv (cl v k) = has_srv (cl w k)" "nc (cl v k) = nc (cl w k)" "c_typ (cl v k) = c_typ (cl w k)"
    "c_opts (cl v k) = c_opts (cl w k)"
proof -
  let ?sub = "\<lparr>s_client = c, s_subject = subject, s_queue = None, s_sid = sid, s_nm = 0, s_max = 0\<rparr>"
  let ?w1 = "upd_cl c (\<lambda>k. k\<lparr>c_subs := hm_Set (c_subs k) sid n\<rparr>) (w\<lparr>sb := (sb w)(n := ?sub), next_sub := n + 1\<rparr>)"
  let ?w2 = "?w1\<lparr>sl := snd (sl_Insert subject n (sl w))\<rparr>"
  obtain e s where i: "sl_Insert subject n (sl w) = (e, s)" by (rule prod.exhaust)
  have "fst (processSub c arg w) = None \<and> only_output ?w2 v"
  proof -
    let ?w3 = "if e \<noteq> None then sendErr c ''Invalid Subject'' ?w2
        else if Verbose (c_opts (cl ?w2 c)) then sendOK c ?w2 else ?w2"
    have "processSub c arg w = (None, if c_typ (cl ?w2 c) \<noteq> ROUTER then broadcastSubscribe n ?w3 else ?w3)"
      using args srv i by (simp add: processSub_def Let_def n_def sl_insert_def upd_cl_def)
    moreover have "only_output ?w2 ?w3" by simp
    ultimately show ?thesis unfolding v_def using only_output_trans [OF _ only_output_subs(1)] by (simp split: if_split)
  qed
  then have f: "fst (processSub c arg w) = None" and v: "only_output ?w2 v" by simp_all
  show "fst (processSub c arg w) = None" by (rule f)
  show "sb v = (sb w)(n := ?sub)" "next_sub v = n + 1" "sl v = snd (sl_Insert subject n (sl w))"
    using only_outputD(1-3) [OF v] by (simp_all add: upd_cl_def)
  show "c_subs (cl v c) = hm_Set (c_subs (cl w c)) sid n" using only_outputD(6) [OF v, of c] by (simp add: upd_cl_def)
  show "has_srv (cl v k) = has_srv (cl w k)" "nc (cl v k) = nc (cl w k)" "c_typ (cl v k) = c_typ (cl w k)"
    "c_opts (cl v k) = c_opts (cl w k)"
    using only_outputD(7-10) [OF v, of k] by (simp_all add: upd_cl_def)
qed

text \<open>Unsubscribing a sid that has no limit: it leaves the map, its subscription the sublist.\<close>

lemma processUnsub_spec:
  assumes args: "splitArg arg = [sid]" and srv: "has_srv (cl w c)" and n: "hm_Get (c_subs (cl w c)) sid = Some n"
  defines "v \<equiv> snd (processUnsub c arg w)"
  shows "sl v = snd (sl_Remove (s_subject (sb w n)) n (sl w))"
    "c_subs (cl v c) = hm_Remove (c_subs (cl w c)) (s_sid (sb w n))"
proof -
  let ?w1 = "upd_sb n (\<lambda>s. s\<lparr>s_max := 0\<rparr>) w"
  let ?w2 = "upd_cl c (\<lambda>k. k\<lparr>c_subs := hm_Remove (c_subs k) (s_sid (sb w n))\<rparr>) ?w1"
  let ?w3 = "sl_remove n ?w2"
  have u: "unsubscribe c n ?w1 = ?w3" using srv by (simp add: unsubscribe_def Let_def upd_sb_def upd_cl_def)
  let ?w4 = "if c_typ (cl ?w3 c) \<noteq> ROUTER \<and> has_srv (cl ?w3 c) then broadcastUnSubscribe n ?w3 else ?w3"
  have "processUnsub c arg w = (None, if Verbose (c_opts (cl ?w4 c)) then sendOK c ?w4 else ?w4)"
    using args n u by (simp add: processUnsub_def Let_def)
  moreover have "only_output ?w3 ?w4" by simp
  ultimately have v: "only_output ?w3 v" unfolding v_def using only_output_trans [OF _ only_output_sends(1)] by (simp split: if_split)
  show "sl v = snd (sl_Remove (s_subject (sb w n)) n (sl w))" "c_subs (cl v c) = hm_Remove (c_subs (cl w c)) (s_sid (sb w n))"
    using only_outputD(1,6) [OF v] by (simp_all add: sl_remove_def upd_cl_def upd_sb_def)
qed

section \<open>Limits\<close>

lemma only_output_out: "k \<notin> set (routes w) \<Longrightarrow> cl (broadcastToRoutes proto w) k = cl w k"
proof -
  have "k \<notin> set rs \<Longrightarrow> cl (broadcast_loop rs proto w) k = cl w k" for rs
    by (induction rs arbitrary: w)
      (simp_all add: bw_Write_def bw_Flush_def used_outcome_def upd_cl_def split: option.split)
  then show "k \<notin> set (routes w) \<Longrightarrow> ?thesis" by (simp add: broadcastToRoutes_def)
qed

lemma broadcast_out: "k \<notin> set (routes w) \<Longrightarrow> cl (broadcastUnSubscribe n w) k = cl w k"
  by (simp add: broadcastUnSubscribe_def Let_def only_output_out)

text \<open>The state of a limited subscription of a client after \<open>j\<close> messages.\<close>

definition limited :: "server \<Rightarrow> nat \<Rightarrow> u64 \<Rightarrow> int \<Rightarrow> nat \<Rightarrow> bool" where
  "limited w n k m j \<longleftrightarrow> s_client (sb w n) = k \<and> s_max (sb w n) = m \<and> s_nm (sb w n) = int j \<and>
     nc (cl w k) \<and> outcomes (cl w k) = [] \<and> k \<notin> set (routes w)"

lemma deliver_write_open:
  fixes c :: u64 and mh msg :: "byte list"
  assumes "nc (cl w k)" and "outcomes (cl w k) = []"
  defines "v \<equiv> deliver_write c k mh msg w"
  shows "out (cl v k) = out (cl w k) @ mh @ msg" "nc (cl v k)" "outcomes (cl v k) = []" "sb v = sb w" "routes v = routes w"
    "sl v = sl w" "c_subs (cl v x) = c_subs (cl w x)" "has_srv (cl v x) = has_srv (cl w x)"
  using assms(1,2) unfolding v_def
  by (auto simp: deliver_write_def Let_def upd_cl_def bw_Write_def next_outcome_def used_outcome_def need_flush_def)

lemma unsubscribe_frame:
  "sb (unsubscribe k n w) = sb w" "routes (unsubscribe k n w) = routes w" "out (cl (unsubscribe k n w) x) = out (cl w x)"
  "nc (cl (unsubscribe k n w) x) = nc (cl w x)" "outcomes (cl (unsubscribe k n w) x) = outcomes (cl w x)"
  by (simp_all add: unsubscribe_def Let_def sl_remove_def upd_cl_def)

lemma deliver_limited:
  assumes L: "limited w n k m j" and m: "0 < m"
  shows "limited (deliverMsg c n mh msg w) n k m (Suc j) \<and>
    out (cl (deliverMsg c n mh msg w) k) = out (cl w k) @ (if int j < m then mh @ msg else [])"
proof -
  let ?w1 = "upd_sb n (\<lambda>s. s\<lparr>s_nm := s_nm s + 1\<rparr>) w"
  let ?fwd = "\<lambda>v. if c_typ (cl ?w1 k) \<noteq> ROUTER \<and> has_srv (cl ?w1 k) then broadcastUnSubscribe n v else v"
  have w1: "s_client (sb ?w1 n) = k" "s_max (sb ?w1 n) = m" "s_nm (sb ?w1 n) = int (Suc j)"
    "nc (cl ?w1 k)" "outcomes (cl ?w1 k) = []" "k \<notin> set (routes ?w1)" "out (cl ?w1 k) = out (cl w k)"
    using L by (simp_all add: limited_def upd_sb_def)
  note dw = deliver_write_open [OF w1(4,5), of c mh msg]
  have fwd: "sb (?fwd v) = sb v" "routes (?fwd v) = routes v" for v
    using only_outputD [OF only_output_subs(2), of n v] by simp_all
  have fwd_k: "cl (?fwd v) k = cl v k" if "k \<notin> set (routes v)" for v
    using that by (simp add: broadcast_out)
  have d: "deliverMsg c n mh msg w =
      (if s_nm (sb ?w1 n) = m then unsubscribe k n (?fwd (deliver_write c k mh msg ?w1))
       else if s_nm (sb ?w1 n) > m then ?fwd (unsubscribe k n ?w1)
       else deliver_write c k mh msg ?w1)"
    using w1(1,2) m unfolding deliverMsg_def Let_def by simp
  consider "int (Suc j) = m" | "int (Suc j) > m" | "int (Suc j) < m" by linarith
  then show ?thesis
  proof cases
    case 1
    then have e: "deliverMsg c n mh msg w = unsubscribe k n (?fwd (deliver_write c k mh msg ?w1))" unfolding d w1(3) by simp
    have k: "k \<notin> set (routes (deliver_write c k mh msg ?w1))" using dw(5) w1(6) by simp
    show ?thesis unfolding e limited_def unsubscribe_frame fwd fwd_k [OF k] using dw w1 1 by simp
  next
    case 2
    then have e: "deliverMsg c n mh msg w = ?fwd (unsubscribe k n ?w1)" unfolding d w1(3) by simp
    have k: "k \<notin> set (routes (unsubscribe k n ?w1))" unfolding unsubscribe_frame by (rule w1(6))
    show ?thesis unfolding e limited_def fwd fwd_k [OF k] unsubscribe_frame using w1 2 by simp
  next
    case 3
    then have e: "deliverMsg c n mh msg w = deliver_write c k mh msg ?w1" unfolding d w1(3) by simp
    show ?thesis unfolding e limited_def using dw w1 3 by simp
  qed
qed

lemma deliveries_limited:
  "limited w n k m j \<Longrightarrow> 0 < m \<Longrightarrow>
   out (cl (fold (\<lambda>(c, mh, msg). deliverMsg c n mh msg) ms w) k) =
     out (cl w k) @ concat (map (\<lambda>(c, mh, msg). mh @ msg) (take (nat m - j) ms))"
proof (induction ms arbitrary: w j)
  case (Cons x ms)
  obtain c mh msg where x: "x = (c, mh, msg)" by (cases x)
  note D = deliver_limited [OF Cons.prems, of c mh msg]
  from Cons.IH [OF conjunct1 [OF D] Cons.prems(2)] show ?case
  proof (cases "int j < m")
    case True
    then have "nat m - j = Suc (nat m - Suc j)" by linarith
    then show ?thesis using Cons.IH [OF conjunct1 [OF D] Cons.prems(2)] D True by (simp add: x)
  next
    case False
    then have "nat m - j = 0" "nat m - Suc j = 0" by linarith+
    then show ?thesis using Cons.IH [OF conjunct1 [OF D] Cons.prems(2)] D False by (simp add: x)
  qed
qed simp

text \<open>C21. A subscription with a limit of \<open>m\<close> messages (an unsubscribe with a maximum) receives the
  first \<open>m\<close> of the messages delivered to it, complete and in order, and none after them, as long as its
  connection is open, is not a route, and its writes succeed.
\<close>

theorem limit_is_kept:
  assumes "limited w n k m 0" and "0 < m"
  shows "out (cl (fold (\<lambda>(c, mh, msg). deliverMsg c n mh msg) ms w) k) =
    out (cl w k) @ concat (map (\<lambda>(c, mh, msg). mh @ msg) (take (nat m) ms))"
  using deliveries_limited [OF assms, of ms] by simp

theorem limit_is_kept_witness:
  "out (cl (fold (\<lambda>(c, mh, msg). deliverMsg c 0 mh msg) [(1, [1], [2]), (1, [3], [4]), (1, [5], [6])]
      (upd_sb 0 (\<lambda>s. s\<lparr>s_client := 1, s_max := 2\<rparr>) demo)) 1) = out (cl demo 1) @ [1, 2, 3, 4]"
proof -
  let ?w = "upd_sb 0 (\<lambda>s. s\<lparr>s_client := 1, s_max := 2\<rparr>) demo"
  have "s_nm (sb demo 0) = 0" by (simp add: demo_defs Let_def)
  then have "limited ?w 0 1 2 0" by (simp add: limited_def upd_sb_def)
  from limit_is_kept [OF this, of "[(1, [1], [2]), (1, [3], [4]), (1, [5], [6])]"] show ?thesis by (simp add: upd_sb_def)
qed

section \<open>Subscriptions that outlive their owner\<close>

lemma hm_All_values: "hm_ok h \<Longrightarrow> set (hm_All h) = {d. \<exists>k. view h k = Some d}"
proof -
  assume h: "hm_ok h"
  have "set (hm_All h) = (\<lambda>k. the (view h k)) ` dom (view h)"
    using hm_All_spec [OF h] AllKeys_spec [OF h] by (metis set_image_mset set_mset_mset)
  then show ?thesis by (force simp: dom_def)
qed

text \<open>A client that subscribes twice under the same sid loses its first subscription from its
  own map but not from the sublist: after an unsubscribe of the sid the first one still matches,
  and neither another unsubscribe nor closing the connection can find it.
\<close>

theorem replaced_subscription_stays:
  assumes ok: "sl_ok b (sl w)" "b < 2 ^ 32 - 5" and h: "hm_ok (c_subs (cl w c))" "unat (hm_Count (c_subs (cl w c))) < 2 ^ 32 - 1"
    and srv: "has_srv (cl w c)" and args: "splitArg a1 = [S1, sid]" "splitArg a2 = [S2, sid]" "splitArg a3 = [sid]"
    and v: "valid_toks False (split S1)" and new: "next_sub w \<notin> set (hm_All (c_subs (cl w c)))"
  defines "w3 \<equiv> snd (processUnsub c a3 (snd (processSub c a2 (snd (processSub c a1 w)))))"
  shows "next_sub w \<in> set (subs_at (sl_root (sl w3)) (pattern S1)) \<and> hm_Get (c_subs (cl w3 c)) sid = None \<and>
    next_sub w \<notin> set (hm_All (c_subs (cl w3 c)))"
proof -
  let ?n = "next_sub w" and ?w1 = "snd (processSub c a1 w)"
  let ?w2 = "snd (processSub c a2 ?w1)"
  note P1 = processSub_spec [OF args(1) srv]
  have srv1: "has_srv (cl ?w1 c)" using P1(6) [of c] srv by simp
  note P2 = processSub_spec [OF args(2) srv1]
  have srv2: "has_srv (cl ?w2 c)" using P2(6) [of c] srv1 by simp
  have room: "hm_room (c_subs (cl w c))" using h(2) by (simp add: hm_room_def hm_Count_def)
  have h1: "hm_ok (c_subs (cl ?w1 c))" "view (c_subs (cl ?w1 c)) = (view (c_subs (cl w c)))(sid \<mapsto> ?n)"
    using hm_Set_spec [OF h(1) disjI1 [OF room], of sid ?n] P1(5) by simp_all
  have h2: "hm_ok (c_subs (cl ?w2 c))" "view (c_subs (cl ?w2 c)) = (view (c_subs (cl w c)))(sid \<mapsto> ?n + 1)"
    using hm_Set_spec [OF h1(1), of sid "?n + 1"] h1(2) P2(5) P1(3) by simp_all
  have g: "hm_Get (c_subs (cl ?w2 c)) sid = Some (?n + 1)" using hm_Get_view [OF h2(1)] h2(2) by simp
  have s2: "s_sid (sb ?w2 (?n + 1)) = sid" using P2(2) P1(3) by simp
  note U = processUnsub_spec [OF args(3) srv2 g]
  obtain e1 s1 where i1: "sl_Insert S1 ?n (sl w) = (e1, s1)" by (rule prod.exhaust)
  have b: "b < 2 ^ 32 - 1" "Suc b < 2 ^ 32 - 1" "Suc (Suc b) < 2 ^ 32 - 3" using ok(2) by simp_all
  note I1 = sl_Insert_spec [OF ok(1) b(1) i1]
  have in1: "?n \<in> set (subs_at (sl_root s1) (pattern S1))" using I1 v by simp
  obtain e2 s2 where i2: "sl_Insert S2 (?n + 1) s1 = (e2, s2)" by (rule prod.exhaust)
  have ok1: "sl_ok (Suc b) s1" using I1 by blast
  note I2 = sl_Insert_spec [OF ok1 b(2) i2]
  have in2: "?n \<in> set (subs_at (sl_root s2) (pattern S1))" using I2 in1 by (auto split: if_splits)
  have ok2: "sl_ok (Suc (Suc b)) s2" using I2 by blast
  obtain e3 s3 where r: "sl_Remove (s_subject (sb ?w2 (?n + 1))) (?n + 1) s2 = (e3, s3)" by (rule prod.exhaust)
  note R = sl_Remove_spec [OF ok2 b(3) r]
  have in3: "?n \<in> set (subs_at (sl_root s3) (pattern S1))"
    using R in2 by (cases "e3 = None") (auto simp: in_set_remove1)
  have "sl w3 = s3" using U(1) P2(4) P1(3,4) i1 i2 r by (simp add: w3_def)
  moreover have m: "hm_ok (c_subs (cl w3 c))" "view (c_subs (cl w3 c)) = (view (c_subs (cl w c)))(sid := None)"
    using hm_Remove_spec [OF h2(1), of sid] U(2) h2(2) s2 by (simp_all add: w3_def)
  then have "hm_Get (c_subs (cl w3 c)) sid = None" using hm_Get_view [OF m(1)] by simp
  moreover have "set (hm_All (c_subs (cl w3 c))) \<subseteq> set (hm_All (c_subs (cl w c)))"
    unfolding hm_All_values [OF m(1)] hm_All_values [OF h(1)] m(2) by auto
  ultimately show ?thesis using in3 new by blast
qed

lemma split_demo: "splitArg (bytes ''foo 1'') = [bytes ''foo'', bytes ''1'']" "splitArg (bytes ''bar 1'') = [bytes ''bar'', bytes ''1'']"
  "splitArg (bytes ''1'') = [bytes ''1'']"
  by (simp_all add: splitArg_def char_bytes space_def)

lemma demo_map [simp]: "c_subs (cl demo 1) = hm_New" "next_sub demo = 0" "out (cl demo 1) = bytes ''INFO '' @ bytes '' '' @ CRLF"
  by (simp_all add: demo_defs Let_def)

theorem replaced_subscription_stays_witness:
  "0 \<in> set (subs_at (sl_root (sl (snd (processUnsub 1 (bytes ''1'') (snd (processSub 1 (bytes ''bar 1'')
      (snd (processSub 1 (bytes ''foo 1'') demo)))))))) (pattern (bytes ''foo'')))"
proof -
  have b: "(0 :: nat) < 2 ^ 32 - 5" by simp
  have h: "hm_ok (c_subs (cl demo 1))" "unat (hm_Count (c_subs (cl demo 1))) < 2 ^ 32 - 1"
    using hm_New_spec [where 'd = nat] by (simp_all add: hm_Count_def)
  have "set (hm_All (hm_New :: nat HashMap)) = {}" using hm_New_spec [where 'd = nat] hm_All_values by fastforce
  then have new: "next_sub demo \<notin> set (hm_All (c_subs (cl demo 1)))" by simp
  have v: "valid_toks False (split (bytes ''foo''))" by (simp add: bytes_def SEP_def FWC_def NatsSublist.split_def)
  have s: "sl_ok 0 (sl demo)" using sl_New_ok by simp
  from replaced_subscription_stays [OF s b h _ split_demo v new] show ?thesis by simp
qed

text \<open>A connection that the ping timer finds stale is cleared but never closed: \<open>closeConnection\<close>,
  which the read loop calls next, returns at once, so the client stays registered, and its
  subscriptions stay in its map and in the sublist.
\<close>

theorem stale_connection_is_never_cleaned_up:
  assumes "nc (cl w c)" and "pout (cl w c) + 1 > MaxPingsOut (opts w)"
  defines "v \<equiv> processPingTimer c w"
  shows "\<not> nc (cl v c) \<and> closeConnection c v = v \<and> clients v = clients w \<and> sl v = sl w \<and> c_subs (cl v c) = c_subs (cl w c)"
proof -
  have *: "\<not> nc (cl v c) \<and> clients v = clients w \<and> sl v = sl w \<and> c_subs (cl v c) = c_subs (cl w c)"
    using assms(1,2) unfolding v_def processPingTimer_def Let_def
    by (auto simp: clearConnection_def upd_cl_def bw_Write_def bw_Flush_def used_outcome_def split: option.splits)
  then show ?thesis by (simp add: closeConnection_def)
qed

theorem stale_connection_is_never_cleaned_up_witness:
  "clients (processPingTimer 1 (processPingTimer 1 (processPingTimer 1 demo))) = [1] \<and>
   \<not> nc (cl (processPingTimer 1 (processPingTimer 1 (processPingTimer 1 demo))) 1)"
proof -
  let ?w = "processPingTimer 1 (processPingTimer 1 demo)"
  have "pout (cl demo 1) = 0" "MaxPingsOut (opts demo) = 2" by (simp_all add: demo_defs Let_def)
  then have "nc (cl ?w 1)" "pout (cl ?w 1) + 1 > MaxPingsOut (opts ?w)" "clients ?w = [1]"
    by (simp_all add: processPingTimer_def Let_def upd_cl_def bw_Write_def bw_Flush_def next_outcome_def used_outcome_def)
  from stale_connection_is_never_cleaned_up [OF this(1,2)] this(3) show ?thesis by simp
qed

text \<open>A message with one subscriber, as an example: it gets one \<open>MSG\<close> line.\<close>

theorem message_reaches_its_subscribers_witness:
  "\<exists>w'. processMsg 1 ((pa newParse)\<lparr>pa_subject := bytes ''foo'', pa_szb := bytes ''2'', pa_size := 2\<rparr>) (bytes ''hi'' @ CRLF)
      (snd (processSub 1 (bytes ''foo 1'') demo)) = Some w' \<and>
    out (cl w' 1) = out (cl (snd (processSub 1 (bytes ''foo 1'') demo)) 1) @
      (if Verbose (c_opts (cl (snd (processSub 1 (bytes ''foo 1'') demo)) 1)) then bytes ''+OK'' @ CRLF else []) @
      bytes ''MSG foo 1 2'' @ CRLF @ bytes ''hi'' @ CRLF"
proof -
  let ?w = "snd (processSub 1 (bytes ''foo 1'') demo)" and ?A = "[(pattern (bytes ''foo''), 0 :: nat)]"
    and ?p = "(pa newParse)\<lparr>pa_subject := bytes ''foo'', pa_szb := bytes ''2'', pa_size := 2\<rparr>"
  note P = processSub_spec [OF split_demo(1), of demo 1, OF demo_fields(2)]
  have v: "valid_toks False (split (bytes ''foo''))" by (simp add: bytes_def SEP_def FWC_def NatsSublist.split_def)
  have fit: "cache_fit L (bytes ''foo'')" if "L \<in> {bytes ''foo''}" for L
  proof -
    have "cache_fit (bytes ''foo'') (bytes ''foo'')" unfolding bytes_def by code_simp
    then show ?thesis using that by simp
  qed
  obtain e s where i: "sl_Insert (bytes ''foo'') (0 :: nat) sl_New = (e, s)" by (rule prod.exhaust)
  have n: "(0 :: nat) < 2 ^ 32 - 1" by simp
  from Insert_represents [OF represents_New [where Ls = "{bytes ''foo''}"] n fit i] v have R: "represents (Suc 0) {bytes ''foo''} (sl ?w) ?A"
    using P(4) i by simp
  have sub: "sb ?w 0 = \<lparr>s_client = 1, s_subject = bytes ''foo'', s_queue = None, s_sid = bytes ''1'', s_nm = 0, s_max = 0\<rparr>"
    using P(2) by simp
  have o: "outcomes (cl ?w 1) = []"
    by (auto simp: processSub_def Let_def split_demo sl_insert_def upd_cl_def sendErr_def sendOK_def need_flush_def bw_Write_def
        next_outcome_def used_outcome_def broadcastSubscribe_def broadcastToRoutes_def split: prod.splits option.splits)
  have "ready ?w j n" if "n \<in># interested ?A (pa_subject ?p)" for j n
    using that sub o P(7) [of 1] by (auto simp: interested_def ready_def split: if_splits)
  then have r: "\<forall>n \<in># interested ?A (pa_subject ?p). ready ?w (count (interested ?A (pa_subject ?p)) n) n" by blast
  have L: "pa_subject ?p \<in> {bytes ''foo''}" by simp
  have c: "c_typ (cl ?w 1) = CLIENT" "has_srv (cl ?w 1)" using P(6,8) [of 1] by simp_all
  have one: "interested ?A (pa_subject ?p) = {#0#}"
  proof -
    have "pmatch (pattern (bytes ''foo'')) (split (bytes ''foo''))" unfolding bytes_def by code_simp
    then show ?thesis by (simp add: interested_def)
  qed
  have head: "msgHeader ?p (msg_head ?p) (sb ?w 0) = bytes ''MSG foo 1 2'' @ CRLF"
    unfolding sub by (simp add: msgHeader_def msg_head_def char_bytes CRLF_def newParse_def)
  have "\<exists>w' l ns. processMsg 1 ?p (bytes ''hi'' @ CRLF) ?w = Some w' \<and> mset l = {#0#} \<and> receivers ?w l ns \<and>
    (\<forall>k. out (cl w' k) = out (cl ?w k) @ (if k = 1 \<and> Verbose (c_opts (cl ?w 1)) then bytes ''+OK'' @ CRLF else []) @
       written ?w ?p (bytes ''hi'' @ CRLF) ns k)"
    by (insert message_reaches_its_subscribers [OF R L c o r, of "bytes ''hi'' @ CRLF"], unfold one, elim exE conjE, intro exI conjI)
  then obtain w' l ns where
    w': "processMsg 1 ?p (bytes ''hi'' @ CRLF) ?w = Some w'" "mset l = {#0#}" "receivers ?w l ns"
    "\<And>k. out (cl w' k) = out (cl ?w k) @ (if k = 1 \<and> Verbose (c_opts (cl ?w 1)) then bytes ''+OK'' @ CRLF else []) @
       written ?w ?p (bytes ''hi'' @ CRLF) ns k" by blast
  have l: "l = [0]" using w'(2) by (metis mset_single_iff_right)
  have "direct ?w [0] [] = [0]" using sub c(1) by simp
  moreover have "ws = []" if "(s_queue \<circ> sb ?w) ` set ws = {Some q |q. \<exists>n \<in> set [0]. s_queue (sb ?w n) = Some q}" for ws
    using that sub by simp
  ultimately have "ns = [0]" using w'(3) unfolding receivers_def l by force
  then have "written ?w ?p (bytes ''hi'' @ CRLF) ns 1 = bytes ''MSG foo 1 2'' @ CRLF @ bytes ''hi'' @ CRLF"
    using sub head by simp
  then show ?thesis using w'(1,4) by (intro exI [of _ w']) simp
qed

end
