(* ===== verification/RaftFile.thy ===== *)
theory RaftFile
  imports Prelude
begin

text \<open>
  \<open>benbjohnson/go-raft/log_entry.go\<close> and what the log uses of \<open>os.File\<close>, \<open>bufio.Writer\<close> and
  \<open>fmt\<close>: a file is its bytes and an offset, a write past its end fills the gap with zeros, and
  \<open>Truncate\<close> leaves the offset alone. Reading and writing a file does not fail. Protocol
  buffers (\<open>Marshal\<close>, \<open>Unmarshal\<close>) are third-party code and an argument (\<open>codec\<close>).
\<close>

section \<open>Files\<close>

record os_file =
  content :: "byte list"
  offset :: nat
  append_mode :: bool

definition pad_to :: "nat \<Rightarrow> byte list \<Rightarrow> byte list" where
  "pad_to n bs = bs @ replicate (n - length bs) 0"

definition file_write :: "byte list \<Rightarrow> os_file \<Rightarrow> os_file" where
  "file_write bs f =
     (if bs = [] then f
      else
        let p = (if append_mode f then length (content f) else offset f)
        in f\<lparr>content := take p (pad_to p (content f)) @ bs @ drop (p + length bs) (content f),
             offset := p + length bs\<rparr>)"

definition file_Truncate :: "nat \<Rightarrow> os_file \<Rightarrow> os_file" where
  "file_Truncate n f = f\<lparr>content := take n (pad_to n (content f))\<rparr>"

definition Seek_set :: "nat \<Rightarrow> os_file \<Rightarrow> os_file" where
  "Seek_set p f = f\<lparr>offset := p\<rparr>"

definition opened :: "byte list \<Rightarrow> os_file" where
  "opened bs = \<lparr>content = bs, offset = 0, append_mode = False\<rparr>"

text \<open>A \<open>bufio.Writer\<close> of 4096 bytes: what it holds and the file below.\<close>

definition bufio_size :: nat where "bufio_size = 4096"

function bufio_Write :: "byte list \<Rightarrow> byte list \<times> os_file \<Rightarrow> byte list \<times> os_file" where
  "bufio_Write p (buf, f) =
     (if length p \<le> bufio_size - length buf then (buf @ p, f)
      else if buf = [] then ([], file_write p f)
      else
        let n = bufio_size - length buf
        in bufio_Write (drop n p) ([], file_write (buf @ take n p) f))"
  by pat_completeness auto
termination
  by (relation "measure (\<lambda>(p, buf, f). 2 * length p + (if buf = [] then 0 else 1))") auto

declare bufio_Write.simps [simp del]

definition bufio_Flush :: "byte list \<times> os_file \<Rightarrow> os_file" where
  "bufio_Flush w = file_write (fst w) (snd w)"

section \<open>Entries\<close>

record entry_pb =
  pb_Index :: u64
  pb_Term :: u64
  pb_CommandName :: string
  pb_Command :: "byte list"

record codec =
  Marshal :: "entry_pb \<Rightarrow> byte list option"
  Unmarshal :: "byte list \<Rightarrow> entry_pb option"

text \<open>An event is the number of the request that waits for the entry.\<close>

record LogEntry =
  pb :: entry_pb
  Position :: nat
  event :: "nat option"

definition Index :: "LogEntry \<Rightarrow> u64" where "Index e = pb_Index (pb e)"
definition Term :: "LogEntry \<Rightarrow> u64" where "Term e = pb_Term (pb e)"
definition CommandName :: "LogEntry \<Rightarrow> string" where "CommandName e = pb_CommandName (pb e)"
definition Command :: "LogEntry \<Rightarrow> byte list" where "Command e = pb_Command (pb e)"

lemmas entry_defs = Index_def Term_def CommandName_def Command_def

section \<open>The length of an entry\<close>

text \<open>\<open>fmt\<close>'s \<open>%8x\<close>: hexadecimal digits, padded on the left with spaces to 8 bytes.\<close>

definition hex_digit :: "nat \<Rightarrow> byte" where
  "hex_digit d = (if d < 10 then of_nat (48 + d) else of_nat (87 + d))"

function hex :: "nat \<Rightarrow> byte list" where
  "hex n = (if n < 16 then [hex_digit n] else hex (n div 16) @ [hex_digit (n mod 16)])"
  by pat_completeness auto
termination by (relation "measure (\<lambda>n. n)") auto

declare hex.simps [simp del]

definition hex8 :: "nat \<Rightarrow> byte list" where
  "hex8 n = replicate (8 - length (hex n)) 32 @ hex n"

definition hex_value :: "byte \<Rightarrow> nat option" where
  "hex_value b =
     (if 48 \<le> b \<and> b \<le> 57 then Some (unat b - 48)
      else if 97 \<le> b \<and> b \<le> 102 then Some (unat b - 87)
      else if 65 \<le> b \<and> b \<le> 70 then Some (unat b - 55)
      else None)"

definition is_hex :: "byte \<Rightarrow> bool" where
  "is_hex b \<longleftrightarrow> hex_value b \<noteq> None"

definition hex_nat :: "byte list \<Rightarrow> nat" where
  "hex_nat ds = foldl (\<lambda>n b. 16 * n + the (hex_value b)) 0 ds"

definition scan_space :: "byte \<Rightarrow> bool" where
  "scan_space b \<longleftrightarrow> b = 32 \<or> b = 9 \<or> b = 11 \<or> b = 12 \<or> b = 13"

text \<open>
  \<open>Fscanf\<close> with \<open>%8x\<close> and a line feed: spaces, a sign, at most 8 bytes of digits, and then a line
  feed or the end of the file. The result is the number, if there is one, and how many bytes were read.
\<close>

definition scan_length :: "byte list \<Rightarrow> int option \<times> nat" where
  "scan_length bs =
     (let s = length (takeWhile scan_space bs);
          w = take 8 (drop s bs);
          sign = (if w \<noteq> [] \<and> (hd w = 43 \<or> hd w = 45) then 1 else 0);
          ds = takeWhile is_hex (drop sign w);
          m = s + sign + length ds;
          r = drop m bs
      in if ds = [] then (None, min (m + 1) (length bs))
         else
           let v = (if sign = 1 \<and> hd w = 45 then - int (hex_nat ds) else int (hex_nat ds))
           in if r = [] then (Some v, m)
              else if hd r = 10 then (Some v, m + 1)
              else (None, m + 1))"

section \<open>Encode and Decode\<close>

text \<open>
  \<open>Encode\<close> returns what the last \<open>Write\<close> returned, the length of the payload without the line that
  holds it. \<open>write\<close> is the \<open>Write\<close> method of the writer; \<open>None\<close> is an error of \<open>Marshal\<close>.
\<close>

definition Encode :: "codec \<Rightarrow> (byte list \<Rightarrow> 'w \<Rightarrow> 'w) \<Rightarrow> LogEntry \<Rightarrow> 'w \<Rightarrow> (nat \<times> 'w) option" where
  "Encode cd write e w =
     do { b \<leftarrow> Marshal cd (pb e);
          Some (length b, write b (write (hex8 (length b) @ [10]) w)) }"

text \<open>
  \<open>Decode\<close>: the end of the file, another error, or the entry and the number that \<open>Decode\<close> returns,
  with the file after it. \<open>None\<close> is the panic of \<open>make\<close> for a negative length.
\<close>

datatype decoded = EOF | Bad | Got entry_pb nat

definition Decode :: "codec \<Rightarrow> os_file \<Rightarrow> (decoded \<times> os_file) option" where
  "Decode cd f =
     (let rest = drop (offset f) (content f) in
      if rest = [] then Some (EOF, f)
      else
        case scan_length rest of
          (None, k) \<Rightarrow> Some (Bad, f\<lparr>offset := offset f + k\<rparr>)
        | (Some len, k) \<Rightarrow>
            if len < 0 then None
            else
              let n = nat len; r = drop k rest in
              if n > 0 \<and> r = [] then Some (EOF, f\<lparr>offset := offset f + k\<rparr>)
              else if length r < n then Some (Bad, f\<lparr>offset := length (content f)\<rparr>)
              else
                let f1 = f\<lparr>offset := offset f + k + n\<rparr> in
                case Unmarshal cd (take n r) of
                  None \<Rightarrow> Some (Bad, f1)
                | Some p \<Rightarrow> Some (Got p (n + 8 + 1), f1))"

section \<open>Lemmas\<close>

lemma file_write_end:
  "offset f = length (content f) \<Longrightarrow>
   file_write bs f = f\<lparr>content := content f @ bs, offset := length (content f) + length bs\<rparr>"
  by (cases f) (simp add: file_write_def pad_to_def Let_def)

lemma file_write_append_mode:
  "append_mode f \<Longrightarrow> content (file_write bs f) = content f @ bs"
  by (simp add: file_write_def pad_to_def Let_def)

lemma hex_digit_value: "d < 16 \<Longrightarrow> hex_value (hex_digit d) = Some d"
proof -
  assume "d < 16"
  then have "d \<in> {0..<16}" by simp
  then show ?thesis
    by (simp add: hex_digit_def hex_value_def atLeastLessThan_nat_numeral word_le_nat_alt) (elim disjE; simp)
qed

end
