(* ===== verification/RaftLog.thy ===== *)
theory RaftLog
  imports RaftFile
begin

text \<open>
  \<open>benbjohnson/go-raft/log.go\<close>: the log of a server, its entries in memory and its file. What a
  committed entry does is an argument (\<open>machine\<close>): the registry of commands, whether a command
  joins a server, and \<open>ApplyFunc\<close>, which reads the log and changes the state \<open>'x\<close> of its owner.
  What the code sends to the clients that wait for an entry is the list \<open>notices\<close>. Locks are not
  modelled; \<open>None\<close> as the whole result is a panic, \<open>Some\<close> error a returned error.
\<close>

section \<open>State\<close>

datatype 'r notice = Committed 'r | Aborted | Refused string

record 'r log =
  log_file :: "os_file option"
  entries :: "LogEntry list"
  commitIndex :: u64
  startIndex :: u64
  startTerm :: u64
  initialized :: bool
  notices :: "(nat \<times> 'r notice) list"

record ('c, 'r, 'x) machine =
  the_codec :: codec
  newCommand :: "string \<Rightarrow> byte list \<Rightarrow> 'c option"
  isJoin :: "'c \<Rightarrow> bool"
  ApplyFunc :: "LogEntry \<Rightarrow> 'c \<Rightarrow> 'r log \<Rightarrow> 'x \<Rightarrow> 'r \<times> 'x"

datatype log_error =
    Not_open | Earlier_term | Earlier_index | Encode_error | Unknown_command
  | Already_committed | No_such_entry | Term_mismatch

definition newLog :: "'r log" where
  "newLog = \<lparr>log_file = None, entries = [], commitIndex = 0, startIndex = 0, startTerm = 0, initialized = False, notices = []\<rparr>"

definition notify :: "LogEntry \<Rightarrow> 'r notice \<Rightarrow> 'r log \<Rightarrow> 'r log" where
  "notify e r l = (case event e of None \<Rightarrow> l | Some v \<Rightarrow> l\<lparr>notices := notices l @ [(v, r)]\<rparr>)"

section \<open>Indices and terms\<close>

definition internalCurrentIndex :: "'r log \<Rightarrow> u64" where
  "internalCurrentIndex l = (if entries l = [] then startIndex l else Index (last (entries l)))"

definition currentIndex :: "'r log \<Rightarrow> u64" where
  "currentIndex l = internalCurrentIndex l"

definition nextIndex :: "'r log \<Rightarrow> u64" where
  "nextIndex l = currentIndex l + 1"

definition isEmpty :: "'r log \<Rightarrow> bool" where
  "isEmpty l \<longleftrightarrow> entries l = [] \<and> startIndex l = 0"

definition lastCommandName :: "'r log \<Rightarrow> string" where
  "lastCommandName l = (if entries l \<noteq> [] then CommandName (last (entries l)) else [])"

definition log_currentTerm :: "'r log \<Rightarrow> u64" where
  "log_currentTerm l = (if entries l = [] then startTerm l else Term (last (entries l)))"

text \<open>The first index past the log, as the code computes it.\<close>

definition end_index :: "'r log \<Rightarrow> u64" where
  "end_index l = startIndex l + of_nat (length (entries l))"

text \<open>\<open>l.entries[i]\<close>, and the slices \<open>[i:]\<close> and \<open>[:i]\<close>\<close>

definition entry_at :: "'r log \<Rightarrow> u64 \<Rightarrow> LogEntry option" where
  "entry_at l i = (if unat i < length (entries l) then Some (entries l ! unat i) else None)"

definition entries_from :: "'r log \<Rightarrow> u64 \<Rightarrow> LogEntry list option" where
  "entries_from l i = (if unat i \<le> length (entries l) then Some (drop (unat i) (entries l)) else None)"

definition entries_to :: "'r log \<Rightarrow> u64 \<Rightarrow> LogEntry list option" where
  "entries_to l i = (if unat i \<le> length (entries l) then Some (take (unat i) (entries l)) else None)"

section \<open>Reading\<close>

definition getEntry :: "'r log \<Rightarrow> u64 \<Rightarrow> LogEntry option option" where
  "getEntry l i =
     (if i \<le> startIndex l \<or> i > end_index l then Some None
      else map_option Some (entry_at l (i - startIndex l - 1)))"

definition containsEntry :: "'r log \<Rightarrow> u64 \<Rightarrow> u64 \<Rightarrow> bool option" where
  "containsEntry l i t =
     map_option (\<lambda>e. case e of None \<Rightarrow> False | Some e \<Rightarrow> Term e = t) (getEntry l i)"

text \<open>The inner option is a nil list: the index is before the start of the log.\<close>

definition getEntriesAfter :: "'r log \<Rightarrow> u64 \<Rightarrow> u64 \<Rightarrow> (LogEntry list option \<times> u64) option" where
  "getEntriesAfter l i mx =
     (if i < startIndex l then Some (None, 0)
      else if i > of_nat (length (entries l)) + startIndex l then None
      else if i = startIndex l then Some (Some (entries l), startTerm l)
      else do {
        es \<leftarrow> entries_from l (i - startIndex l);
        e \<leftarrow> entry_at l (i - 1 - startIndex l);
        Some (Some (if of_nat (length es) < mx then es else take (unat mx) es), Term e) })"

definition commitInfo :: "'r log \<Rightarrow> (u64 \<times> u64) option" where
  "commitInfo l =
     (if commitIndex l = 0 then Some (0, 0)
      else if commitIndex l = startIndex l then Some (startIndex l, startTerm l)
      else map_option (\<lambda>e. (Index e, Term e)) (entry_at l (commitIndex l - 1 - startIndex l)))"

definition lastInfo :: "'r log \<Rightarrow> u64 \<times> u64" where
  "lastInfo l =
     (if entries l = [] then (startIndex l, startTerm l)
      else (Index (last (entries l)), Term (last (entries l))))"

section \<open>Committing\<close>

definition updateCommitIndex :: "u64 \<Rightarrow> 'r log \<Rightarrow> 'r log" where
  "updateCommitIndex i l = (if i > commitIndex l then l\<lparr>commitIndex := i\<rparr> else l)"

fun commit_loop ::
  "('c, 'r, 'x) machine \<Rightarrow> nat list \<Rightarrow> 'r log \<times> 'x \<Rightarrow> (log_error option \<times> 'r log \<times> 'x) option" where
  "commit_loop m [] (l, x) = Some (None, l, x)"
| "commit_loop m (i # is) (l, x) =
     do { e \<leftarrow> entry_at l (of_nat i - 1 - startIndex l);
          let l1 = l\<lparr>commitIndex := Index e\<rparr>;
          case newCommand m (CommandName e) (Command e) of
            None \<Rightarrow> Some (Some Unknown_command, l1, x)
          | Some c \<Rightarrow>
              let (r, x1) = ApplyFunc m e c l1 x; l2 = notify e (Committed r) l1 in
              if isJoin m c then Some (None, l2, x1) else commit_loop m is (l2, x1) }"

definition setCommitIndex ::
  "('c, 'r, 'x) machine \<Rightarrow> u64 \<Rightarrow> 'r log \<times> 'x \<Rightarrow> (log_error option \<times> 'r log \<times> 'x) option" where
  "setCommitIndex m i lx =
     (case lx of (l, x) \<Rightarrow>
        let i = (if i > end_index l then end_index l else i) in
        if i < commitIndex l then Some (None, l, x)
        else commit_loop m [unat (commitIndex l) + 1..<unat i + 1] (l, x))"

text \<open>\<open>flushCommitIndex\<close> writes \<open>%8x\<close> of the index over the head of the file; the calls on a nil
file fail, and it ignores that.\<close>

definition flushCommitIndex :: "'r log \<Rightarrow> 'r log" where
  "flushCommitIndex l =
     l\<lparr>log_file := map_option (\<lambda>f.
        let f1 = file_write (hex8 (unat (commitIndex l)) @ [10]) (Seek_set 0 f)
        in f1\<lparr>offset := length (content f1)\<rparr>) (log_file l)\<rparr>"

section \<open>Truncating\<close>

definition abort :: "LogEntry list \<Rightarrow> 'r log \<Rightarrow> 'r log" where
  "abort es l = fold (\<lambda>e. notify e Aborted) es l"

definition log_truncate :: "u64 \<Rightarrow> u64 \<Rightarrow> 'r log \<Rightarrow> (log_error option \<times> 'r log) option" where
  "log_truncate i t l =
     (if i < commitIndex l then Some (Some Already_committed, l)
      else if i > end_index l then Some (Some No_such_entry, l)
      else if i = startIndex l then
        Some (None, (abort (entries l) l)\<lparr>log_file := map_option (\<lambda>f. Seek_set 0 (file_Truncate 0 f)) (log_file l), entries := []\<rparr>)
      else do {
        e \<leftarrow> entry_at l (i - startIndex l - 1);
        if entries l \<noteq> [] \<and> Term e \<noteq> t then Some (Some Term_mismatch, l)
        else if i < end_index l then do {
          d \<leftarrow> entry_at l (i - startIndex l);
          gone \<leftarrow> entries_from l (i - startIndex l);
          kept \<leftarrow> entries_to l (i - startIndex l);
          Some (None, (abort gone l)\<lparr>
            log_file := map_option (\<lambda>f. Seek_set (Position d) (file_Truncate (Position d) f)) (log_file l),
            entries := kept\<rparr>) }
        else Some (None, l) })"

section \<open>Appending\<close>

text \<open>The check of \<open>appendEntry\<close> and \<open>writeEntry\<close> against the last entry.\<close>

definition append_error :: "LogEntry \<Rightarrow> 'r log \<Rightarrow> log_error option" where
  "append_error e l =
     (if entries l = [] then None
      else if Term e < Term (last (entries l)) then Some Earlier_term
      else if Term e = Term (last (entries l)) \<and> Index e \<le> Index (last (entries l)) then Some Earlier_index
      else None)"

definition writeEntry ::
  "codec \<Rightarrow> LogEntry \<Rightarrow> byte list \<times> os_file \<Rightarrow> 'r log \<Rightarrow> log_error + nat \<times> (byte list \<times> os_file) \<times> 'r log" where
  "writeEntry cd e w l =
     (if log_file l = None then Inl Not_open
      else
        case append_error e l of
          Some err \<Rightarrow> Inl err
        | None \<Rightarrow>
            (case Encode cd bufio_Write e w of
               None \<Rightarrow> Inl Encode_error
             | Some (sz, w1) \<Rightarrow> Inr (sz, w1, l\<lparr>entries := entries l @ [e]\<rparr>)))"

text \<open>
  The loop of \<open>appendEntries\<close>; an error leaves it before the writer is flushed, so what the writer
  holds then is lost. A log without a file cannot be synced, which is a panic.
\<close>

fun append_loop ::
  "codec \<Rightarrow> entry_pb list \<Rightarrow> nat \<Rightarrow> byte list \<times> os_file \<Rightarrow> 'r log \<Rightarrow> log_error option \<times> (byte list \<times> os_file) \<times> 'r log" where
  "append_loop cd [] p w l = (None, w, l)"
| "append_loop cd (b # bs) p w l =
     (case writeEntry cd \<lparr>pb = b, Position = p, event = None\<rparr> w l of
        Inl err \<Rightarrow> (Some err, w, l)
      | Inr (sz, w1, l1) \<Rightarrow> append_loop cd bs (p + sz) w1 l1)"

definition appendEntries :: "codec \<Rightarrow> entry_pb list \<Rightarrow> 'r log \<Rightarrow> (log_error option \<times> 'r log) option" where
  "appendEntries cd bs l =
     (case log_file l of
        None \<Rightarrow> if bs = [] then None else Some (Some Not_open, l)
      | Some f \<Rightarrow>
          (case append_loop cd bs (offset f) ([], f) l of
             (Some err, (_, f1), l1) \<Rightarrow> Some (Some err, l1\<lparr>log_file := Some f1\<rparr>)
           | (None, w, l1) \<Rightarrow> Some (None, l1\<lparr>log_file := Some (bufio_Flush w)\<rparr>)))"

definition appendEntry :: "codec \<Rightarrow> LogEntry \<Rightarrow> 'r log \<Rightarrow> log_error option \<times> 'r log" where
  "appendEntry cd e l =
     (case log_file l of
        None \<Rightarrow> (Some Not_open, l)
      | Some f \<Rightarrow>
          (case append_error e l of
             Some err \<Rightarrow> (Some err, l)
           | None \<Rightarrow>
               let e1 = e\<lparr>Position := offset f\<rparr> in
               (case Encode cd file_write e1 f of
                  None \<Rightarrow> (Some Encode_error, l)
                | Some (_, f1) \<Rightarrow> (None, l\<lparr>log_file := Some f1, entries := entries l @ [e1]\<rparr>))))"

text \<open>\<open>encode\<close> is the encoding of the command; its failure is \<open>None\<close>.\<close>

definition newLogEntry :: "nat option \<Rightarrow> u64 \<Rightarrow> u64 \<Rightarrow> string \<times> byte list option \<Rightarrow> LogEntry option" where
  "newLogEntry v i t command =
     (case command of (name, enc) \<Rightarrow>
        map_option (\<lambda>b. \<lparr>pb = \<lparr>pb_Index = i, pb_Term = t, pb_CommandName = name, pb_Command = b\<rparr>, Position = 0, event = v\<rparr>) enc)"

definition createEntry :: "u64 \<Rightarrow> string \<times> byte list option \<Rightarrow> nat option \<Rightarrow> 'r log \<Rightarrow> LogEntry option" where
  "createEntry t command v l = newLogEntry v (nextIndex l) t command"

section \<open>Opening, closing and compaction\<close>

lemma scan_end:
  assumes "takeWhile is_hex (drop g (take 8 (drop s bs))) \<noteq> []"
  shows "0 < s + g + length (takeWhile is_hex (drop g (take 8 (drop s bs)))) \<and>
    s + g + length (takeWhile is_hex (drop g (take 8 (drop s bs)))) \<le> length bs"
proof -
  let ?ds = "takeWhile is_hex (drop g (take 8 (drop s bs)))"
  have "length ?ds \<le> length (drop g (take 8 (drop s bs)))" by (rule length_takeWhile_le)
  also have "\<dots> \<le> length bs - s - g" by simp
  finally have "length ?ds \<le> length bs - s - g" .
  moreover have "0 < length ?ds" using assms by simp
  ultimately show ?thesis by linarith
qed

lemma after_newline:
  "0 < m \<Longrightarrow> m \<le> length bs \<Longrightarrow> k = (if drop m bs = [] then m else m + 1) \<Longrightarrow> 0 < k \<and> k \<le> length bs"
  by (auto split: if_splits)

lemma scan_length_pos:
  assumes "scan_length bs = (Some v, k)"
  shows "0 < k \<and> k \<le> length bs"
proof -
  let ?s = "length (takeWhile scan_space bs)"
  let ?w = "take 8 (drop ?s bs)"
  let ?g = "if ?w \<noteq> [] \<and> (hd ?w = 43 \<or> hd ?w = 45) then 1 else 0 :: nat"
  let ?ds = "takeWhile is_hex (drop ?g ?w)"
  let ?m = "?s + ?g + length ?ds"
  have ds: "?ds \<noteq> []" and k: "k = (if drop ?m bs = [] then ?m else ?m + 1)"
    using assms unfolding scan_length_def Let_def by (auto split: if_split_asm)
  show ?thesis by (rule after_newline [OF conjunct1 [OF scan_end [OF ds]] conjunct2 [OF scan_end [OF ds]] k])
qed

lemma Decode_offset:
  assumes "Decode cd f = Some (Got p n, f1)"
  shows "content f1 = content f \<and> offset f < offset f1 \<and> offset f1 \<le> length (content f)"
proof -
  let ?rest = "drop (offset f) (content f)"
  obtain v k where s: "scan_length ?rest = (v, k)" by (rule prod.exhaust)
  from assms have r: "?rest \<noteq> []" by (auto simp: Decode_def)
  from assms s r obtain len where v: "v = Some len" by (cases v) (auto simp: Decode_def Let_def)
  have k: "0 < k" "k \<le> length ?rest" using scan_length_pos [OF s [unfolded v]] by auto
  have "\<not> length (drop k ?rest) < nat len" "f1 = f\<lparr>offset := offset f + k + nat len\<rparr>"
    using assms r unfolding Decode_def Let_def s v by (auto split: if_split_asm option.split_asm)
  then show ?thesis using k by auto
qed

lemma Decode_less:
  "Decode cd f = Some (Got p n, f1) \<Longrightarrow> length (content f1) - offset f1 < length (content f) - offset f"
  by (drule Decode_offset) auto

text \<open>
  The loop of \<open>open\<close>: the entries read so far, what has been applied, and \<open>readBytes\<close>, which an
  entry whose command is not registered does not add to.
\<close>

function open_loop ::
  "('c, 'r, 'x) machine \<Rightarrow> os_file \<Rightarrow> nat \<Rightarrow> 'r log \<times> 'x \<Rightarrow> (os_file \<times> 'r log \<times> 'x) option" where
  "open_loop m f readBytes (l, x) =
     (case Decode (the_codec m) f of
        None \<Rightarrow> None
      | Some (EOF, f1) \<Rightarrow> Some (f1, l, x)
      | Some (Bad, f1) \<Rightarrow> Some (file_Truncate readBytes f1, l, x)
      | Some (Got p n, f1) \<Rightarrow>
          let e = \<lparr>pb = p, Position = offset f, event = None\<rparr> in
          if Index e > startIndex l then
            let l1 = l\<lparr>entries := entries l @ [e]\<rparr> in
            if Index e \<le> commitIndex l then
              (case newCommand m (CommandName e) (Command e) of
                 None \<Rightarrow> open_loop m f1 readBytes (l1, x)
               | Some c \<Rightarrow> open_loop m f1 (readBytes + n) (l1, snd (ApplyFunc m e c l1 x)))
            else open_loop m f1 (readBytes + n) (l1, x)
          else open_loop m f1 (readBytes + n) (l, x))"
  by pat_completeness auto
termination
  by (relation "measure (\<lambda>(m, f, r, lx). length (content f) - offset f)") (auto dest: Decode_less)

declare open_loop.simps [simp del]

text \<open>\<open>disk\<close> is the file that the path names, if there is one.\<close>

definition log_open ::
  "('c, 'r, 'x) machine \<Rightarrow> byte list option \<Rightarrow> 'r log \<times> 'x \<Rightarrow> ('r log \<times> 'x) option" where
  "log_open m disk lx =
     (case disk of
        None \<Rightarrow> Some ((fst lx)\<lparr>log_file := Some (opened []), initialized := True\<rparr>, snd lx)
      | Some bs \<Rightarrow>
          map_option (\<lambda>(f, l, x). (l\<lparr>log_file := Some f, initialized := True\<rparr>, x)) (open_loop m (opened bs) 0 lx))"

definition log_close :: "'r log \<Rightarrow> 'r log" where
  "log_close l = l\<lparr>log_file := None, entries := []\<rparr>"

text \<open>
  \<open>compact\<close> takes the positions of the kept entries from the old file, whose offset it does not
  move; an error of \<open>Marshal\<close> leaves the positions changed so far.
\<close>

fun compact_loop :: "codec \<Rightarrow> nat \<Rightarrow> LogEntry list \<Rightarrow> os_file \<Rightarrow> bool \<times> LogEntry list \<times> os_file" where
  "compact_loop cd p [] f = (True, [], f)"
| "compact_loop cd p (e # es) f =
     (let e1 = e\<lparr>Position := p\<rparr> in
      case Encode cd file_write e1 f of
        None \<Rightarrow> (False, e1 # es, f)
      | Some (_, f1) \<Rightarrow> (case compact_loop cd p es f1 of (ok, ds, f2) \<Rightarrow> (ok, e1 # ds, f2)))"

definition compact :: "codec \<Rightarrow> u64 \<Rightarrow> u64 \<Rightarrow> 'r log \<Rightarrow> (log_error option \<times> 'r log) option" where
  "compact cd i t l =
     (if i = 0 then Some (None, l)
      else do {
        es \<leftarrow> (if i \<ge> internalCurrentIndex l then Some [] else entries_from l (i - startIndex l));
        let p = (case log_file l of None \<Rightarrow> 0 | Some f \<Rightarrow> offset f);
        Some (case compact_loop cd p es \<lparr>content = [], offset = 0, append_mode = True\<rparr> of
            (False, ds, _) \<Rightarrow> (Some Encode_error, l\<lparr>entries := take (length (entries l) - length es) (entries l) @ ds\<rparr>)
          | (True, ds, f1) \<Rightarrow> (None, l\<lparr>log_file := Some f1, entries := ds, startIndex := i, startTerm := t\<rparr>)) })"

end
