(* ===== verification/RaftServer.thy ===== *)
theory RaftServer
  imports RaftLog
begin

text \<open>
  \<open>benbjohnson/go-raft/server.go\<close>, \<open>peer.go\<close>, \<open>append_entries.go\<close>, \<open>request_vote.go\<close> and \<open>commands.go\<close>:
  a server of the consensus protocol and what it does with requests, responses and commands.
  A command of a client, its encoding and what it does to the application are arguments
  (\<open>env\<close>). Timers, heartbeat goroutines, event listeners and locks are not modelled: each
  function is one step of the server's event loop or of a goroutine. \<open>None\<close> is a panic.
\<close>

section \<open>State\<close>

datatype role = Stopped | Initialized | Follower | Candidate | Leader | Snapshotting

datatype 'c command = DefaultJoin string string | DefaultLeave string | NOPCommand | Client 'c

datatype 'r applied = Join_reply | Leave_reply bool | Nop_reply | Client_reply 'r

record peer =
  prevLogIndex :: u64
  ConnectionString :: string

type_synonym peer_map = "(string \<times> peer) list"

record snapshot =
  LastIndex :: u64
  LastTerm :: u64
  Peers :: peer_map
  State :: "byte list"
  Path :: string

text \<open>
  The last fields are what the disk holds: the files of the snapshot directory by their names, which
  \<open>Path\<close> is too, and the configuration file.
\<close>

record ('r, 'm) server =
  sname :: string
  state :: role
  currentTerm :: u64
  votedFor :: string
  log :: "'r applied log"
  leader :: string
  peers :: peer_map
  syncedPeer :: "string list option"
  snap :: "snapshot option"
  pendingSnapshot :: "snapshot option"
  has_stateMachine :: bool
  app :: 'm
  connectionString :: string
  snapshot_files :: "(string \<times> byte list) list"
  conf_file :: "(u64 \<times> peer_map) option"

text \<open>
  The environment: protocol buffers, the registry (\<open>newCommand\<close>), the encoding of commands (name
  and bytes, \<open>None\<close> for an error), \<open>Apply\<close> of a client's command with the three numbers of its
  context, and \<open>Save\<close> and \<open>Recovery\<close> of the state machine.
\<close>

record ('c, 'r, 'm) env =
  env_codec :: codec
  env_newCommand :: "string \<Rightarrow> byte list \<Rightarrow> 'c command option"
  env_encode :: "'c command \<Rightarrow> string \<times> byte list option"
  env_apply :: "'c \<Rightarrow> u64 \<times> u64 \<times> u64 \<Rightarrow> 'm \<Rightarrow> 'r \<times> 'm"
  env_Save :: "'m \<Rightarrow> byte list option"
  env_Recovery :: "byte list \<Rightarrow> 'm \<Rightarrow> 'm option"

definition MaxLogEntriesPerRequest :: u64 where "MaxLogEntriesPerRequest = 2000"
definition NumberOfLogEntriesAfterSnapshot :: u64 where "NumberOfLogEntriesAfterSnapshot = 200"

section \<open>Messages\<close>

record AppendEntriesRequest =
  ae_Term :: u64
  ae_PrevLogIndex :: u64
  ae_PrevLogTerm :: u64
  ae_CommitIndex :: u64
  ae_LeaderName :: string
  ae_Entries :: "entry_pb list"

record AppendEntriesResponse =
  aer_Term :: u64
  aer_Index :: u64
  aer_Success :: bool
  aer_CommitIndex :: u64
  aer_peer :: string
  aer_append :: bool

record RequestVoteRequest =
  rv_Term :: u64
  rv_LastLogIndex :: u64
  rv_LastLogTerm :: u64
  rv_CandidateName :: string

record RequestVoteResponse =
  rvr_Term :: u64
  rvr_VoteGranted :: bool

definition newAppendEntriesRequest :: "u64 \<Rightarrow> u64 \<Rightarrow> u64 \<Rightarrow> u64 \<Rightarrow> string \<Rightarrow> LogEntry list \<Rightarrow> AppendEntriesRequest" where
  "newAppendEntriesRequest t pi pt ci n es =
     \<lparr>ae_Term = t, ae_PrevLogIndex = pi, ae_PrevLogTerm = pt, ae_CommitIndex = ci, ae_LeaderName = n, ae_Entries = map pb es\<rparr>"

definition newAppendEntriesResponse :: "u64 \<Rightarrow> bool \<Rightarrow> u64 \<Rightarrow> u64 \<Rightarrow> AppendEntriesResponse" where
  "newAppendEntriesResponse t ok i ci =
     \<lparr>aer_Term = t, aer_Index = i, aer_Success = ok, aer_CommitIndex = ci, aer_peer = [], aer_append = False\<rparr>"

definition newRequestVoteRequest :: "u64 \<Rightarrow> string \<Rightarrow> u64 \<Rightarrow> u64 \<Rightarrow> RequestVoteRequest" where
  "newRequestVoteRequest t n li lt = \<lparr>rv_Term = t, rv_LastLogIndex = li, rv_LastLogTerm = lt, rv_CandidateName = n\<rparr>"

definition newRequestVoteResponse :: "u64 \<Rightarrow> bool \<Rightarrow> RequestVoteResponse" where
  "newRequestVoteResponse t ok = \<lparr>rvr_Term = t, rvr_VoteGranted = ok\<rparr>"

section \<open>Small operations\<close>

definition promotable :: "('r, 'm) server \<Rightarrow> bool" where
  "promotable s \<longleftrightarrow> currentIndex (log s) > 0"

definition MemberCount :: "('r, 'm) server \<Rightarrow> nat" where
  "MemberCount s = length (peers s) + 1"

definition QuorumSize :: "('r, 'm) server \<Rightarrow> nat" where
  "QuorumSize s = MemberCount s div 2 + 1"

definition Running :: "('r, 'm) server \<Rightarrow> bool" where
  "Running s \<longleftrightarrow> state s \<noteq> Stopped \<and> state s \<noteq> Initialized"

definition setState :: "role \<Rightarrow> ('r, 'm) server \<Rightarrow> ('r, 'm) server" where
  "setState st s =
     (let s1 = s\<lparr>state := st\<rparr>
      in if st = Leader then s1\<lparr>leader := sname s1, syncedPeer := Some []\<rparr> else s1)"

definition updateCurrentTerm :: "u64 \<Rightarrow> string \<Rightarrow> ('r, 'm) server \<Rightarrow> ('r, 'm) server option" where
  "updateCurrentTerm t leaderName s =
     (if \<not> t > currentTerm s then None
      else
        let s1 = (if state s \<noteq> Follower then setState Follower s else s)
        in Some (s1\<lparr>currentTerm := t, leader := leaderName, votedFor := []\<rparr>))"

section \<open>Membership and the configuration file\<close>

definition writeConf :: "('r, 'm) server \<Rightarrow> ('r, 'm) server" where
  "writeConf s = s\<lparr>conf_file := Some (commitIndex (log s), peers s)\<rparr>"

definition readConf :: "('r, 'm) server \<Rightarrow> ('r, 'm) server" where
  "readConf s =
     (case conf_file s of None \<Rightarrow> s | Some (ci, _) \<Rightarrow> s\<lparr>log := updateCommitIndex ci (log s)\<rparr>)"

definition AddPeer :: "string \<Rightarrow> string \<Rightarrow> ('r, 'm) server \<Rightarrow> ('r, 'm) server" where
  "AddPeer n conn s =
     (if map_of (peers s) n \<noteq> None then s
      else
        let s1 = (if sname s \<noteq> n then s\<lparr>peers := peers s @ [(n, \<lparr>prevLogIndex = 0, ConnectionString = conn\<rparr>)]\<rparr> else s)
        in writeConf s1)"

text \<open>The flag is false for the error that there is no such peer.\<close>

definition RemovePeer :: "string \<Rightarrow> ('r, 'm) server \<Rightarrow> bool \<times> ('r, 'm) server" where
  "RemovePeer n s =
     (if n \<noteq> sname s then
        (if map_of (peers s) n = None then (False, s)
         else (True, writeConf (s\<lparr>peers := AList.delete n (peers s)\<rparr>)))
      else (True, writeConf s))"

text \<open>\<open>ApplyFunc\<close>, set up by \<open>NewServer\<close>, with \<open>Apply\<close> of the commands of the library.\<close>

definition server_apply ::
  "('c, 'r, 'm) env \<Rightarrow> LogEntry \<Rightarrow> 'c command \<Rightarrow> 'r applied log \<Rightarrow> ('r, 'm) server \<Rightarrow> 'r applied \<times> ('r, 'm) server" where
  "server_apply ev e c l s =
     (let s = s\<lparr>log := l\<rparr> in
      case c of
        DefaultJoin n conn \<Rightarrow> (Join_reply, AddPeer n conn s)
      | DefaultLeave n \<Rightarrow> (case RemovePeer n s of (ok, s1) \<Rightarrow> (Leave_reply ok, s1))
      | NOPCommand \<Rightarrow> (Nop_reply, s)
      | Client c \<Rightarrow>
          (case env_apply ev c (currentTerm s, internalCurrentIndex l, commitIndex l) (app s) of
             (r, a) \<Rightarrow> (Client_reply r, s\<lparr>app := a\<rparr>)))"

definition server_machine :: "('c, 'r, 'm) env \<Rightarrow> ('c command, 'r applied, ('r, 'm) server) machine" where
  "server_machine ev =
     \<lparr>the_codec = env_codec ev, newCommand = env_newCommand ev,
      isJoin = (\<lambda>c. case c of DefaultJoin _ _ \<Rightarrow> True | _ \<Rightarrow> False), ApplyFunc = server_apply ev\<rparr>"

text \<open>\<open>setCommitIndex\<close> on the log of a server.\<close>

definition server_commit :: "('c, 'r, 'm) env \<Rightarrow> u64 \<Rightarrow> ('r, 'm) server \<Rightarrow> (log_error option \<times> ('r, 'm) server) option" where
  "server_commit ev i s =
     map_option (\<lambda>(e, l, s1). (e, s1\<lparr>log := l\<rparr>)) (setCommitIndex (server_machine ev) i (log s, s))"

section \<open>Starting and stopping\<close>

definition NewServer :: "string \<Rightarrow> bool \<Rightarrow> 'm \<Rightarrow> string \<Rightarrow> ('r, 'm) server option" where
  "NewServer n machine a conn =
     (if n = [] then None
      else Some \<lparr>sname = n, state = Stopped, currentTerm = 0, votedFor = [], log = newLog, leader = [], peers = [],
        syncedPeer = None, snap = None, pendingSnapshot = None, has_stateMachine = machine, app = a,
        connectionString = conn, snapshot_files = [], conf_file = None\<rparr>)"

text \<open>\<open>disk\<close> is the log file.\<close>

definition Init :: "('c, 'r, 'm) env \<Rightarrow> byte list option \<Rightarrow> ('r, 'm) server \<Rightarrow> ('r, 'm) server option" where
  "Init ev disk s =
     (if Running s then Some s
      else if state s = Initialized \<or> initialized (log s) then Some (s\<lparr>state := Initialized\<rparr>)
      else
        let s1 = readConf s in
        case log_open (server_machine ev) disk (log s1, s1) of
          None \<Rightarrow> None
        | Some (l, s2) \<Rightarrow> Some (s2\<lparr>log := l, currentTerm := snd (lastInfo l), state := Initialized\<rparr>))"

definition Start :: "('c, 'r, 'm) env \<Rightarrow> byte list option \<Rightarrow> ('r, 'm) server \<Rightarrow> ('r, 'm) server option" where
  "Start ev disk s = (if Running s then Some s else map_option (setState Follower) (Init ev disk s))"

definition Stop :: "('r, 'm) server \<Rightarrow> ('r, 'm) server" where
  "Stop s = (if state s = Stopped then s else setState Stopped (s\<lparr>log := log_close (log s)\<rparr>))"

section \<open>Commands\<close>

definition refuse :: "nat \<Rightarrow> string \<Rightarrow> ('r, 'm) server \<Rightarrow> ('r, 'm) server" where
  "refuse v err s = s\<lparr>log := (log s)\<lparr>notices := notices (log s) @ [(v, Refused err)]\<rparr>\<rparr>"

text \<open>A map assignment to the nil map \<open>syncedPeer\<close> panics.\<close>

definition mark_synced :: "string \<Rightarrow> ('r, 'm) server \<Rightarrow> ('r, 'm) server option" where
  "mark_synced n s = map_option (\<lambda>ns. s\<lparr>syncedPeer := Some (List.insert n ns)\<rparr>) (syncedPeer s)"

definition processCommand :: "('c, 'r, 'm) env \<Rightarrow> 'c command \<Rightarrow> nat \<Rightarrow> ('r, 'm) server \<Rightarrow> ('r, 'm) server option" where
  "processCommand ev c v s =
     (case createEntry (currentTerm s) (env_encode ev c) (Some v) (log s) of
        None \<Rightarrow> Some (refuse v ''encode'' s)
      | Some e \<Rightarrow>
          (case appendEntry (env_codec ev) e (log s) of
             (Some err, l) \<Rightarrow> Some (refuse v ''append'' (s\<lparr>log := l\<rparr>))
           | (None, l) \<Rightarrow> do {
               s1 \<leftarrow> mark_synced (sname s) (s\<lparr>log := l\<rparr>);
               if peers s1 = [] then map_option snd (server_commit ev (currentIndex (log s1)) s1) else Some s1 }))"

section \<open>Append entries\<close>

definition ae_response :: "bool \<Rightarrow> ('r, 'm) server \<Rightarrow> AppendEntriesResponse" where
  "ae_response ok s = newAppendEntriesResponse (currentTerm s) ok (currentIndex (log s)) (commitIndex (log s))"

text \<open>The first part: stepping down and the new leader.\<close>

definition ae_accept_leader :: "AppendEntriesRequest \<Rightarrow> ('r, 'm) server \<Rightarrow> ('r, 'm) server option" where
  "ae_accept_leader req s =
     (if ae_Term req = currentTerm s then
        (if state s = Leader then None
         else
           let s1 = (if state s = Candidate then setState Follower s else s)
           in Some (s1\<lparr>leader := ae_LeaderName req\<rparr>))
      else updateCurrentTerm (ae_Term req) (ae_LeaderName req) s)"

definition processAppendEntriesRequest ::
  "('c, 'r, 'm) env \<Rightarrow> AppendEntriesRequest \<Rightarrow> ('r, 'm) server \<Rightarrow> ((AppendEntriesResponse \<times> bool) \<times> ('r, 'm) server) option" where
  "processAppendEntriesRequest ev req s =
     (if ae_Term req < currentTerm s then Some ((ae_response False s, False), s)
      else do {
        s1 \<leftarrow> ae_accept_leader req s;
        (e, l) \<leftarrow> log_truncate (ae_PrevLogIndex req) (ae_PrevLogTerm req) (log s1);
        let s2 = s1\<lparr>log := l\<rparr>;
        if e \<noteq> None then Some ((ae_response False s2, True), s2)
        else do {
          (e, l) \<leftarrow> appendEntries (env_codec ev) (ae_Entries req) (log s2);
          let s3 = s2\<lparr>log := l\<rparr>;
          if e \<noteq> None then Some ((ae_response False s3, True), s3)
          else do {
            (e, s4) \<leftarrow> server_commit ev (ae_CommitIndex req) s3;
            Some ((ae_response (e = None) s4, True), s4) } } })"

text \<open>The choice of the index to commit: the largest that a quorum has, by sorting.\<close>

definition quorum_index :: "('r, 'm) server \<Rightarrow> u64" where
  "quorum_index s = rev (sort (currentIndex (log s) # map (\<lambda>p. prevLogIndex (snd p)) (peers s))) ! (QuorumSize s - 1)"

definition processAppendEntriesResponse ::
  "('c, 'r, 'm) env \<Rightarrow> AppendEntriesResponse \<Rightarrow> ('r, 'm) server \<Rightarrow> ('r, 'm) server option" where
  "processAppendEntriesResponse ev resp s =
     (if aer_Term resp > currentTerm s then updateCurrentTerm (aer_Term resp) [] s
      else if \<not> aer_Success resp then Some s
      else do {
        s1 \<leftarrow> (if aer_append resp then mark_synced (aer_peer resp) s else Some s);
        if (case syncedPeer s1 of None \<Rightarrow> 0 | Some ns \<Rightarrow> length ns) < QuorumSize s1 then Some s1
        else if quorum_index s1 > commitIndex (log s1) then map_option snd (server_commit ev (quorum_index s1) s1)
        else Some s1 })"

section \<open>Votes\<close>

text \<open>Whether the vote counts, and the server after it.\<close>

definition processVoteResponse :: "RequestVoteResponse \<Rightarrow> ('r, 'm) server \<Rightarrow> (bool \<times> ('r, 'm) server) option" where
  "processVoteResponse resp s =
     (if rvr_VoteGranted resp \<and> rvr_Term resp = currentTerm s then Some (True, s)
      else if rvr_Term resp > currentTerm s then map_option (Pair False) (updateCurrentTerm (rvr_Term resp) [] s)
      else Some (False, s))"

definition processRequestVoteRequest ::
  "RequestVoteRequest \<Rightarrow> ('r, 'm) server \<Rightarrow> ((RequestVoteResponse \<times> bool) \<times> ('r, 'm) server) option" where
  "processRequestVoteRequest req s =
     (if rv_Term req < currentTerm s then Some ((newRequestVoteResponse (currentTerm s) False, False), s)
      else if \<not> rv_Term req > currentTerm s \<and> votedFor s \<noteq> [] \<and> votedFor s \<noteq> rv_CandidateName req then
        Some ((newRequestVoteResponse (currentTerm s) False, False), s)
      else do {
        s1 \<leftarrow> (if rv_Term req > currentTerm s then updateCurrentTerm (rv_Term req) [] s else Some s);
        let (lastIndex, lastTerm) = lastInfo (log s1);
        if lastIndex > rv_LastLogIndex req \<or> lastTerm > rv_LastLogTerm req then
          Some ((newRequestVoteResponse (currentTerm s1) False, False), s1)
        else
          let s2 = s1\<lparr>votedFor := rv_CandidateName req\<rparr>
          in Some ((newRequestVoteResponse (currentTerm s2) True, True), s2) })"

section \<open>The loops of the roles\<close>

text \<open>
  \<open>candidateLoop\<close>: what it does first, a round of voting, and the test that ends it. The
  requests of a round are built by goroutines that read the term when they run.
\<close>

definition candidate_enter :: "('r, 'm) server \<Rightarrow> ('r, 'm) server" where
  "candidate_enter s = s\<lparr>leader := []\<rparr>"

definition vote_round :: "('r, 'm) server \<Rightarrow> ('r, 'm) server" where
  "vote_round s = s\<lparr>currentTerm := currentTerm s + 1, votedFor := sname s\<rparr>"

definition enough_votes :: "nat \<Rightarrow> ('r, 'm) server \<Rightarrow> bool" where
  "enough_votes votesGranted s \<longleftrightarrow> votesGranted = QuorumSize s"

text \<open>\<open>leaderLoop\<close>: every peer is taken to have the whole log.\<close>

definition leader_enter :: "('r, 'm) server \<Rightarrow> ('r, 'm) server" where
  "leader_enter s =
     (let i = fst (lastInfo (log s))
      in s\<lparr>peers := map (\<lambda>(n, p). (n, p\<lparr>prevLogIndex := i\<rparr>)) (peers s)\<rparr>)"

definition become_leader :: "('r, 'm) server \<Rightarrow> ('r, 'm) server" where
  "become_leader s = leader_enter (setState Leader s)"

text \<open>The loop of a leader resets \<open>syncedPeer\<close> when it ends.\<close>

definition leader_exit :: "('r, 'm) server \<Rightarrow> ('r, 'm) server" where
  "leader_exit s = (if state s = Leader then s else s\<lparr>syncedPeer := None\<rparr>)"

section \<open>Peers\<close>

record SnapshotRequest =
  sr_LeaderName :: string
  sr_LastIndex :: u64
  sr_LastTerm :: u64

definition newSnapshotRequest :: "string \<Rightarrow> snapshot option \<Rightarrow> SnapshotRequest option" where
  "newSnapshotRequest n ss =
     map_option (\<lambda>ss. \<lparr>sr_LeaderName = n, sr_LastIndex = LastIndex ss, sr_LastTerm = LastTerm ss\<rparr>) ss"

datatype outgoing = Send_entries AppendEntriesRequest | Send_snapshot SnapshotRequest

definition flush :: "('r, 'm) server \<Rightarrow> string \<Rightarrow> outgoing option" where
  "flush s n =
     do { p \<leftarrow> map_of (peers s) n;
          (es, prevLogTerm) \<leftarrow> getEntriesAfter (log s) (prevLogIndex p) MaxLogEntriesPerRequest;
          case es of
            Some es \<Rightarrow> Some (Send_entries (newAppendEntriesRequest (currentTerm s) (prevLogIndex p) prevLogTerm (commitIndex (log s)) (sname s) es))
          | None \<Rightarrow> map_option Send_snapshot (newSnapshotRequest (sname s) (snap s)) }"

text \<open>
  What \<open>sendAppendEntriesRequest\<close> does with a response: the new \<open>prevLogIndex\<close> of the peer and the
  response that goes to the leader's loop.
\<close>

definition next_prevLogIndex :: "('r, 'm) server \<Rightarrow> AppendEntriesRequest \<Rightarrow> AppendEntriesResponse \<Rightarrow> u64 \<Rightarrow> u64" where
  "next_prevLogIndex s req resp prev =
     (if aer_Success resp then (if ae_Entries req \<noteq> [] then pb_Index (last (ae_Entries req)) else prev)
      else if aer_Term resp > currentTerm s then prev
      else if aer_Term resp = ae_Term req \<and> aer_CommitIndex resp \<ge> prev then aer_CommitIndex resp
      else if prev > 0 then (if prev - 1 > aer_Index resp then aer_Index resp else prev - 1)
      else prev)"

definition answered_by :: "string \<Rightarrow> ('r, 'm) server \<Rightarrow> AppendEntriesRequest \<Rightarrow> AppendEntriesResponse \<Rightarrow> AppendEntriesResponse" where
  "answered_by n s req resp =
     (let app = (aer_Success resp \<and> ae_Entries req \<noteq> [] \<and> pb_Term (last (ae_Entries req)) = currentTerm s)
      in resp\<lparr>aer_peer := n, aer_append := aer_append resp \<or> app\<rparr>)"

definition peer_response :: "string \<Rightarrow> AppendEntriesRequest \<Rightarrow> AppendEntriesResponse \<Rightarrow> ('r, 'm) server \<Rightarrow> AppendEntriesResponse \<times> ('r, 'm) server" where
  "peer_response n req resp s =
     (answered_by n s req resp,
      s\<lparr>peers := map (\<lambda>(k, p). (k, if k = n then p\<lparr>prevLogIndex := next_prevLogIndex s req resp (prevLogIndex p)\<rparr> else p)) (peers s)\<rparr>)"

end
