(* ===== verification/RaftFacts.thy ===== *)
theory RaftFacts
  imports RaftServer
begin

text \<open>
  The log of a server as the list of its entries: \<open>log_ok\<close> is the invariant that its
  indices follow each other, and the operations of the log are operations on lists under it.
\<close>

section \<open>The invariant\<close>

definition indexed :: "nat \<Rightarrow> entry_pb list \<Rightarrow> bool" where
  "indexed n ps \<longleftrightarrow> (\<forall>k < length ps. pb_Index (ps ! k) = of_nat (n + k + 1))"

definition pbs :: "'r log \<Rightarrow> entry_pb list" where
  "pbs l = map pb (entries l)"

definition log_ok :: "'r log \<Rightarrow> bool" where
  "log_ok l \<longleftrightarrow> indexed (unat (startIndex l)) (pbs l) \<and> unat (startIndex l) + length (entries l) < 2 ^ 64 - 1 \<and>
     startIndex l \<le> commitIndex l \<and> unat (commitIndex l) \<le> unat (startIndex l) + length (entries l)"

lemma length_pbs [simp]: "length (pbs l) = length (entries l)"
  by (simp add: pbs_def)

lemma pbs_update [simp]:
  "pbs (l\<lparr>log_file := a\<rparr>) = pbs l" "pbs (l\<lparr>commitIndex := b\<rparr>) = pbs l" "pbs (l\<lparr>notices := c\<rparr>) = pbs l"
  "pbs (l\<lparr>startIndex := d\<rparr>) = pbs l" "pbs (l\<lparr>startTerm := d\<rparr>) = pbs l" "pbs (l\<lparr>entries := es\<rparr>) = map pb es"
  by (simp_all add: pbs_def)

lemma indexed_append: "indexed n (xs @ ys) \<longleftrightarrow> indexed n xs \<and> indexed (n + length xs) ys"
proof
  assume i: "indexed n (xs @ ys)"
  have "pb_Index (ys ! k) = of_nat (n + length xs + k + 1)" if "k < length ys" for k
    using i [unfolded indexed_def, rule_format, of "length xs + k"] that by (simp add: add.assoc)
  moreover have "pb_Index (xs ! k) = of_nat (n + k + 1)" if "k < length xs" for k
    using i [unfolded indexed_def, rule_format, of k] that by (simp add: nth_append)
  ultimately show "indexed n xs \<and> indexed (n + length xs) ys" by (simp add: indexed_def)
next
  assume i: "indexed n xs \<and> indexed (n + length xs) ys"
  show "indexed n (xs @ ys)" unfolding indexed_def
  proof (intro allI impI)
    fix k assume "k < length (xs @ ys)"
    then show "pb_Index ((xs @ ys) ! k) = of_nat (n + k + 1)"
      using i by (cases "k < length xs") (auto simp: indexed_def nth_append)
  qed
qed

lemma indexed_take: "indexed n xs \<Longrightarrow> indexed n (take k xs)"
  by (simp add: indexed_def)

lemma unat_end_index:
  "unat (startIndex l) + length (entries l) < 2 ^ 64 - 1 \<Longrightarrow> unat (end_index l) = unat (startIndex l) + length (entries l)"
  by (simp add: end_index_def unat_word_ariths unat_of_nat)

lemma log_ok_end: "log_ok l \<Longrightarrow> unat (end_index l) = unat (startIndex l) + length (entries l)"
  by (rule unat_end_index) (simp add: log_ok_def)

lemma unat_of_nat64: "n < 2 ^ 64 \<Longrightarrow> unat (of_nat n :: u64) = n"
  by (simp add: unat_of_nat)

lemma unat_sub_1:
  fixes i j :: u64
  assumes "j < i"
  shows "unat (i - j) = unat i - unat j" "unat (i - j - 1) = unat i - unat j - 1"
proof -
  show d: "unat (i - j) = unat i - unat j" by (rule unat_sub) (use assms in simp)
  have "unat (1 :: u64) \<le> unat (i - j)" using assms unfolding d by (simp add: word_less_nat_alt)
  then have "1 \<le> i - j" by (simp only: word_le_nat_alt)
  then have "unat (i - j - 1) = unat (i - j) - unat (1 :: u64)" by (rule unat_sub)
  then show "unat (i - j - 1) = unat i - unat j - 1" unfolding d by simp
qed

section \<open>Reading\<close>

lemma entry_index:
  assumes "log_ok l" and "k < length (entries l)"
  shows "Index (entries l ! k) = of_nat (unat (startIndex l) + k + 1)"
  using assms by (simp add: log_ok_def indexed_def pbs_def Index_def)

lemma currentIndex_ok: "log_ok l \<Longrightarrow> currentIndex l = end_index l"
proof (cases "entries l = []")
  case False
  assume ok: "log_ok l"
  obtain n where n: "length (entries l) = Suc n" using False by (cases "entries l") auto
  then have "Index (last (entries l)) = of_nat (unat (startIndex l) + n + 1)"
    using entry_index [OF ok, of n] False by (simp add: last_conv_nth)
  then have "Index (last (entries l)) = startIndex l + of_nat (length (entries l))" unfolding n by simp
  then show ?thesis using False by (simp add: currentIndex_def internalCurrentIndex_def end_index_def)
qed (simp add: currentIndex_def internalCurrentIndex_def end_index_def)

lemma lastInfo_index: "fst (lastInfo l) = currentIndex l"
  by (simp add: lastInfo_def currentIndex_def internalCurrentIndex_def)

lemma getEntry_ok:
  assumes "log_ok l"
  shows "getEntry l i = Some (if startIndex l < i \<and> i \<le> end_index l
           then Some (entries l ! (unat i - unat (startIndex l) - 1)) else None)"
proof (cases "startIndex l < i \<and> i \<le> end_index l")
  case True
  then have "unat (startIndex l) < unat i" "unat i \<le> unat (startIndex l) + length (entries l)"
    using log_ok_end [OF assms] by (simp_all add: word_less_nat_alt word_le_nat_alt)
  then show ?thesis using True unat_sub_1 [of "startIndex l" i]
    by (auto simp: getEntry_def entry_at_def not_le)
qed (auto simp: getEntry_def not_le not_less)

lemma getEntriesAfter_spec:
  assumes ok: "log_ok l" and z: "startIndex l = 0" and g: "getEntriesAfter l i mx = Some (Some es, t)"
  shows "\<exists>n. map pb es = take n (drop (unat i) (pbs l)) \<and> unat i \<le> length (pbs l) \<and> (unat i \<noteq> 0 \<longrightarrow> t = pb_Term (pbs l ! (unat i - 1)))"
proof (cases "i = 0")
  case True
  then show ?thesis using g z by (auto simp: getEntriesAfter_def pbs_def intro: exI [of _ "length (entries l)"])
next
  case False
  then have "0 < unat i" by (simp add: unat_gt_0)
  then have le: "1 \<le> i" by (simp add: word_le_nat_alt)
  have u: "unat (i - 1) = unat i - 1" using unat_sub [OF le] by simp
  obtain as e where g': "entries_from l i = Some as" "entry_at l (i - 1) = Some e" "t = Term e"
    "es = (if of_nat (length as) < mx then as else take (unat mx) as)"
    using g z False by (cases "entries_from l i"; cases "entry_at l (i - 1)") (auto simp: getEntriesAfter_def split: if_splits)
  have a: "as = drop (unat i) (entries l)" "unat i \<le> length (entries l)" using g'(1) by (auto simp: entries_from_def split: if_splits)
  have e: "e = entries l ! (unat i - 1)" "unat i - 1 < length (entries l)" using g'(2) u by (auto simp: entry_at_def split: if_splits)
  have "map pb es = take (if of_nat (length as) < mx then length as else unat mx) (drop (unat i) (pbs l))"
    using g'(4) a(1) by (simp add: pbs_def take_map drop_map)
  then show ?thesis using a(2) e g'(3) by (auto simp: pbs_def Term_def)
qed

lemma getEntriesAfter_Some:
  assumes ok: "log_ok l" and z: "startIndex l = 0" and le: "unat i \<le> length (entries l)"
  shows "\<exists>es t. getEntriesAfter l i mx = Some (Some es, t)"
proof (cases "i = 0")
  case False
  then have "0 < unat i" by (simp add: unat_gt_0)
  then have "unat (i - 1) = unat i - 1" "unat i - 1 < length (entries l)"
    using le unat_sub [of "1 :: u64" i] by (simp_all add: word_le_nat_alt)
  moreover have "\<not> i > of_nat (length (entries l))"
    using le ok unat_of_nat64 [of "length (entries l)"] by (simp add: log_ok_def word_less_nat_alt)
  ultimately show ?thesis using le z False by (auto simp: getEntriesAfter_def entries_from_def entry_at_def)
qed (use z in \<open>simp add: getEntriesAfter_def\<close>)

section \<open>Truncating\<close>

lemma notify_fields [simp]:
  "entries (notify e r l) = entries l" "commitIndex (notify e r l) = commitIndex l" "startIndex (notify e r l) = startIndex l"
  "startTerm (notify e r l) = startTerm l" "log_file (notify e r l) = log_file l" "initialized (notify e r l) = initialized l"
  by (simp_all add: notify_def split: option.split)

lemma abort_fields [simp]:
  "entries (abort es l) = entries l" "commitIndex (abort es l) = commitIndex l" "startIndex (abort es l) = startIndex l"
  "startTerm (abort es l) = startTerm l" "log_file (abort es l) = log_file l" "initialized (abort es l) = initialized l"
  by (induction es arbitrary: l) (simp_all add: abort_def)

lemma notices_notify: "notices (notify e r l) = notices l @ (case event e of None \<Rightarrow> [] | Some v \<Rightarrow> [(v, r)])"
  by (simp add: notify_def split: option.split)

lemma notices_abort: "notices (abort es l) = notices l @ map (\<lambda>v. (v, Aborted)) (List.map_filter event es)"
  by (induction es arbitrary: l) (auto simp: abort_def notices_notify List.map_filter_simps split: option.split)

text \<open>When \<open>truncate\<close> fails, and what it leaves of the entries when it does not.\<close>

definition truncate_error :: "u64 \<Rightarrow> u64 \<Rightarrow> 'r log \<Rightarrow> log_error option" where
  "truncate_error i t l =
     (if i < commitIndex l then Some Already_committed
      else if i > end_index l then Some No_such_entry
      else if i \<noteq> startIndex l \<and> Term (entries l ! (unat i - unat (startIndex l) - 1)) \<noteq> t then Some Term_mismatch
      else None)"

definition same_but_entries :: "'r log \<Rightarrow> 'r log \<Rightarrow> bool" where
  "same_but_entries l l' \<longleftrightarrow> commitIndex l' = commitIndex l \<and> startIndex l' = startIndex l \<and> startTerm l' = startTerm l \<and>
     initialized l' = initialized l \<and> (log_file l' = None \<longleftrightarrow> log_file l = None)"

lemma truncate_spec:
  assumes ok: "log_ok l"
  shows "\<exists>l'. log_truncate i t l = Some (truncate_error i t l, l') \<and> same_but_entries l l' \<and>
    (truncate_error i t l \<noteq> None \<longrightarrow> l' = l) \<and>
    (truncate_error i t l = None \<longrightarrow> entries l' = take (unat i - unat (startIndex l)) (entries l) \<and>
       notices l' = notices l @ map (\<lambda>v. (v, Aborted)) (List.map_filter event (drop (unat i - unat (startIndex l)) (entries l))))"
proof -
  let ?s = "unat (startIndex l)" and ?n = "length (entries l)"
  have e: "unat (end_index l) = ?s + ?n" by (rule log_ok_end [OF ok])
  consider "i < commitIndex l" | "\<not> i < commitIndex l" "i > end_index l" | "\<not> i < commitIndex l" "\<not> i > end_index l" "i = startIndex l"
    | "\<not> i < commitIndex l" "\<not> i > end_index l" "i \<noteq> startIndex l" by blast
  then show ?thesis
  proof cases
    case 3
    then show ?thesis
      by (simp add: log_truncate_def truncate_error_def same_but_entries_def notices_abort)
  next
    case 4
    have "startIndex l \<le> i" using ok 4(1) by (auto simp: log_ok_def not_less intro: order_trans)
    with 4(3) have lt: "startIndex l < i" by simp
    then have u: "unat (i - startIndex l - 1) = unat i - ?s - 1" "unat (i - startIndex l) = unat i - ?s" "?s < unat i"
      using unat_sub_1 [OF lt] lt by (simp_all add: word_less_nat_alt)
    have le: "unat i \<le> ?s + ?n" using 4(2) e by (simp add: word_less_nat_alt)
    have at: "entry_at l (i - startIndex l - 1) = Some (entries l ! (unat i - ?s - 1))"
      using u le by (simp add: entry_at_def)
    have ne: "entries l \<noteq> []" using u le by auto
    show ?thesis
    proof (cases "Term (entries l ! (unat i - ?s - 1)) = t")
      case False
      then show ?thesis using 4 at ne by (simp add: log_truncate_def truncate_error_def same_but_entries_def)
    next
      case True
      show ?thesis
      proof (cases "i < end_index l")
        case True
        then have "unat i < ?s + ?n" using e by (simp add: word_less_nat_alt)
        then have "entry_at l (i - startIndex l) = Some (entries l ! (unat i - ?s))"
          "entries_from l (i - startIndex l) = Some (drop (unat i - ?s) (entries l))"
          "entries_to l (i - startIndex l) = Some (take (unat i - ?s) (entries l))"
          using u by (auto simp: entry_at_def entries_from_def entries_to_def)
        then show ?thesis using 4 at ne True \<open>Term _ = t\<close>
          by (simp add: log_truncate_def truncate_error_def same_but_entries_def notices_abort)
      next
        case False
        then have "unat i = ?s + ?n" using le e by (simp add: word_less_nat_alt)
        then show ?thesis using 4 at ne False \<open>Term _ = t\<close>
          by (simp add: log_truncate_def truncate_error_def same_but_entries_def List.map_filter_simps)
      qed
    qed
  qed (simp_all add: log_truncate_def truncate_error_def same_but_entries_def)
qed

lemma log_ok_cut:
  assumes ok: "log_ok l" and s: "same_but_entries l l'" and "entries l' = take k (entries l)"
    and "unat (commitIndex l) \<le> unat (startIndex l) + k"
  shows "log_ok l'"
  using assms by (auto simp: log_ok_def same_but_entries_def pbs_def take_map [symmetric] intro: indexed_take)

lemma truncate_ok:
  assumes ok: "log_ok l" and t: "log_truncate i t l = Some (e, l')"
  shows "log_ok l'"
proof (cases "truncate_error i t l")
  case None
  obtain l1 where l1: "log_truncate i t l = Some (None, l1)" "same_but_entries l l1"
    "entries l1 = take (unat i - unat (startIndex l)) (entries l)"
    using truncate_spec [OF ok, of i t] None by auto
  have "\<not> i < commitIndex l" using None by (auto simp: truncate_error_def split: if_splits)
  then have "unat (commitIndex l) \<le> unat i" by (simp add: word_less_nat_alt)
  then have "unat (commitIndex l) \<le> unat (startIndex l) + (unat i - unat (startIndex l))" by simp
  from log_ok_cut [OF ok l1(2,3) this] show ?thesis using l1(1) t by simp
next
  case (Some x)
  then show ?thesis using truncate_spec [OF ok, of i t] t ok by auto
qed

section \<open>Appending\<close>

lemma writeEntry_Inr:
  "writeEntry cd e w l = Inr (sz, w1, l1) \<Longrightarrow> l1 = l\<lparr>entries := entries l @ [e]\<rparr>"
  by (auto simp: writeEntry_def split: if_splits option.splits)

lemma append_loop_prefix:
  "append_loop cd bs p w l = (e, w', l') \<Longrightarrow>
   \<exists>es. l' = l\<lparr>entries := entries l @ es\<rparr> \<and> map pb es = take (length es) bs \<and> (e = None \<longrightarrow> length es = length bs)"
proof (induction bs arbitrary: p w l)
  case (Cons b bs)
  show ?case
  proof (cases "writeEntry cd \<lparr>pb = b, Position = p, event = None\<rparr> w l")
    case (Inr r)
    obtain sz w1 l1 where r: "r = (sz, w1, l1)" by (cases r)
    have l1: "l1 = l\<lparr>entries := entries l @ [\<lparr>pb = b, Position = p, event = None\<rparr>]\<rparr>"
      using writeEntry_Inr Inr r by blast
    from Cons.IH [of "p + sz" w1 l1] Cons.prems Inr r obtain es where
      "l' = l1\<lparr>entries := entries l1 @ es\<rparr>" "map pb es = take (length es) bs" "e = None \<longrightarrow> length es = length bs" by auto
    then show ?thesis using l1
      by (intro exI [of _ "\<lparr>pb = b, Position = p, event = None\<rparr> # es"]) simp
  qed (use Cons.prems in \<open>auto intro: exI [of _ "[]"]\<close>)
qed (auto intro: exI [of _ "[]"])

lemma appendEntries_prefix:
  assumes "appendEntries cd bs l = Some (e, l')"
  shows "\<exists>k \<le> length bs. pbs l' = pbs l @ take k bs \<and> same_but_entries l l' \<and> notices l' = notices l \<and> (e = None \<longrightarrow> k = length bs)"
proof (cases "log_file l")
  case None
  then show ?thesis using assms by (auto simp: appendEntries_def same_but_entries_def split: if_splits)
next
  case (Some f)
  obtain er w l1 where a: "append_loop cd bs (offset f) ([], f) l = (er, w, l1)" by (metis prod_cases3)
  from append_loop_prefix [OF this] obtain es where es: "l1 = l\<lparr>entries := entries l @ es\<rparr>"
    "map pb es = take (length es) bs" "er = None \<longrightarrow> length es = length bs" by blast
  have "length (map pb es) \<le> length bs" unfolding es(2) by simp
  then have k: "length es \<le> length bs" by simp
  have l': "e = er \<and> (\<exists>f1. l' = l1\<lparr>log_file := Some f1\<rparr>)"
    using assms a Some by (auto simp: appendEntries_def split: option.splits prod.splits)
  then show ?thesis using es k Some
    by (intro exI [of _ "length es"]) (auto simp: pbs_def same_but_entries_def)
qed

lemma appendEntries_Some: "log_file l \<noteq> None \<Longrightarrow> \<exists>e l'. appendEntries cd bs l = Some (e, l')"
  by (auto simp: appendEntries_def split: option.splits prod.splits)

text \<open>Entries that continue the log, with terms that do not fall, are all appended.\<close>

definition continues :: "'r log \<Rightarrow> entry_pb list \<Rightarrow> bool" where
  "continues l ps \<longleftrightarrow> indexed (unat (startIndex l) + length (entries l)) ps \<and> sorted (map pb_Term (pbs l @ ps)) \<and>
     unat (startIndex l) + length (entries l) + length ps < 2 ^ 64 - 1"

lemma log_ok_append:
  assumes "log_ok l" and "continues l (take k ps)" and "pbs l' = pbs l @ take k ps" and "same_but_entries l l'"
  shows "log_ok l'"
proof -
  have "length (entries l') = length (entries l) + length (take k ps)"
    using assms(3) by (metis length_append length_pbs)
  then show ?thesis using assms by (auto simp: log_ok_def same_but_entries_def continues_def indexed_append)
qed

lemma append_error_None:
  assumes ok: "log_ok l" and c: "continues l (pb e # ps)"
  shows "append_error e l = None"
proof (cases "entries l = []")
  case False
  let ?n = "length (entries l)" and ?s = "unat (startIndex l)"
  obtain n where n: "?n = Suc n" using False by (cases "entries l") auto
  have last: "last (entries l) = entries l ! n" using n False by (simp add: last_conv_nth)
  have "Index (last (entries l)) = of_nat (?s + n + 1)" using entry_index [OF ok, of n] n last by simp
  moreover have "Index e = of_nat (?s + n + 2)"
    using c n by (auto simp: continues_def indexed_def Index_def algebra_simps dest: spec [of _ 0])
  moreover have "?s + n + 2 < 2 ^ 64" using c n by (simp add: continues_def)
  then have "unat (of_nat (?s + n + 1) :: u64) < unat (of_nat (?s + n + 2) :: u64)"
    by (simp only: unat_of_nat64)
  ultimately have i: "Index (last (entries l)) < Index e" by (simp only: word_less_nat_alt)
  have "pb_Term (last (pbs l)) \<le> pb_Term (pb e)"
    using c False last_in_set [OF False] by (auto simp: continues_def sorted_append pbs_def last_map)
  then have "Term (last (entries l)) \<le> Term e" using False by (simp add: Term_def pbs_def last_map)
  with i False show ?thesis by (simp add: append_error_def not_less not_le)
qed (simp add: append_error_def)

lemma append_loop_all:
  assumes "\<forall>p \<in> set bs. Marshal cd p \<noteq> None" and "log_file l \<noteq> None" and "log_ok l" and "continues l bs"
  shows "fst (append_loop cd bs p w l) = None"
  using assms
proof (induction bs arbitrary: p w l)
  case (Cons b bs)
  let ?e = "\<lparr>pb = b, Position = p, event = None\<rparr>"
  have "append_error ?e l = None" using append_error_None [of l ?e bs] Cons.prems by simp
  moreover obtain sz w1 where "Encode cd bufio_Write ?e w = Some (sz, w1)"
    using Cons.prems(1) by (cases "Encode cd bufio_Write ?e w") (auto simp: Encode_def)
  ultimately have w: "writeEntry cd ?e w l = Inr (sz, w1, l\<lparr>entries := entries l @ [?e]\<rparr>)"
    using Cons.prems(2) by (simp add: writeEntry_def)
  let ?l = "l\<lparr>entries := entries l @ [?e]\<rparr>"
  have "continues l [b]" using Cons.prems(4) indexed_append [of _ "[b]" bs]
    by (auto simp: continues_def sorted_append)
  then have "log_ok ?l" using log_ok_append [OF Cons.prems(3), of 1 "[b]" ?l]
    by (simp add: pbs_def same_but_entries_def)
  moreover have "continues ?l bs" using Cons.prems(4) indexed_append [of _ "[b]" bs]
    by (simp add: continues_def pbs_def add.assoc)
  ultimately show ?case using Cons.IH [of ?l "p + sz" w1] Cons.prems(1,2) w by simp
qed simp

lemma appendEntries_all:
  assumes "\<forall>p \<in> set bs. Marshal cd p \<noteq> None" and "log_file l \<noteq> None" and "log_ok l" and "continues l bs"
  shows "\<exists>l'. appendEntries cd bs l = Some (None, l') \<and> pbs l' = pbs l @ bs \<and> same_but_entries l l' \<and> notices l' = notices l \<and> log_ok l'"
proof -
  obtain f where f: "log_file l = Some f" using assms(2) by blast
  obtain w l1 where "append_loop cd bs (offset f) ([], f) l = (None, w, l1)"
    using append_loop_all [OF assms, of "offset f" "([], f)"] by (metis prod.collapse)
  then obtain l' where l': "appendEntries cd bs l = Some (None, l')"
    using f by (auto simp: appendEntries_def)
  from appendEntries_prefix [OF this] have p: "pbs l' = pbs l @ bs" "same_but_entries l l'" "notices l' = notices l" by auto
  with l' show ?thesis using log_ok_append [OF assms(3), of "length bs" bs l'] assms(4) by simp
qed

section \<open>Committing\<close>

definition same_entries :: "'r log \<Rightarrow> 'r log \<Rightarrow> bool" where
  "same_entries l l' \<longleftrightarrow> entries l' = entries l \<and> startIndex l' = startIndex l \<and> startTerm l' = startTerm l \<and>
     initialized l' = initialized l \<and> log_file l' = log_file l"

lemma same_entries_refl [simp]: "same_entries l l"
  by (simp add: same_entries_def)

lemma commit_loop_spec:
  assumes "log_ok l" and "unat (startIndex l) + length (entries l) \<ge> b - 1" and "unat (commitIndex l) < b"
  shows "\<exists>e l' x'. commit_loop m [unat (commitIndex l) + 1..<b] (l, x) = Some (e, l', x') \<and> same_entries l l' \<and> log_ok l' \<and>
    commitIndex l \<le> commitIndex l' \<and> unat (commitIndex l') < b"
  using assms
proof (induction "b - unat (commitIndex l) - 1" arbitrary: l x)
  case 0
  then show ?case by simp
next
  case (Suc d)
  let ?c = "unat (commitIndex l)" and ?s = "unat (startIndex l)"
  have lt: "?c + 1 < b" using Suc.hyps(2) by simp
  then have list: "[?c + 1..<b] = (?c + 1) # [?c + 2..<b]" by (simp add: upt_conv_Cons)
  have ok: "?s \<le> ?c" "?s + length (entries l) < 2 ^ 64 - 1" using Suc.prems(1) by (simp_all add: log_ok_def word_le_nat_alt)
  have at: "of_nat (?c + 1) - 1 - startIndex l = commitIndex l - startIndex l" by simp
  have k: "?c - ?s < length (entries l)" using lt Suc.prems(2) ok by simp
  have "unat (commitIndex l - startIndex l) = ?c - ?s" by (rule unat_sub) (use ok in \<open>simp add: word_le_nat_alt\<close>)
  then have e: "entry_at l (of_nat (?c + 1) - 1 - startIndex l) = Some (entries l ! (?c - ?s))"
    using k at by (simp add: entry_at_def)
  let ?e = "entries l ! (?c - ?s)"
  have ix: "Index ?e = of_nat (?c + 1)" using entry_index [OF Suc.prems(1) k] ok by simp
  have "?c + 1 < 2 ^ 64" using lt Suc.prems(2) ok by simp
  then have u: "unat (Index ?e) = ?c + 1" unfolding ix by (rule unat_of_nat64)
  let ?l1 = "l\<lparr>commitIndex := Index ?e\<rparr>"
  have ok1: "log_ok ?l1" using Suc.prems(1) u k ok by (auto simp: log_ok_def word_le_nat_alt)
  have c1: "commitIndex l \<le> Index ?e" using u by (simp add: word_le_nat_alt)
  show ?case
  proof (cases "newCommand m (CommandName ?e) (Command ?e)")
    case None
    then show ?thesis using e u c1 ok1 lt unfolding list by (simp add: same_entries_def)
  next
    case (Some c)
    obtain r x1 where a: "ApplyFunc m ?e c ?l1 x = (r, x1)" by (rule prod.exhaust)
    let ?l2 = "notify ?e (Committed r) ?l1"
    have ok2: "log_ok ?l2" using ok1 by (simp add: log_ok_def pbs_def)
    show ?thesis
    proof (cases "isJoin m c")
      case True
      then show ?thesis using e u c1 ok2 lt Some a unfolding list by (simp add: same_entries_def)
    next
      case False
      have "commit_loop m [?c + 2..<b] (?l2, x1) = commit_loop m [unat (commitIndex ?l2) + 1..<b] (?l2, x1)"
        using u by simp
      moreover have "d = b - unat (commitIndex ?l2) - 1" "b - 1 \<le> unat (startIndex ?l2) + length (entries ?l2)" "unat (commitIndex ?l2) < b"
        using u Suc.hyps(2) Suc.prems(2) lt by simp_all
      ultimately obtain e' l' x' where "commit_loop m [?c + 2..<b] (?l2, x1) = Some (e', l', x')" "same_entries ?l2 l'" "log_ok l'"
        "commitIndex ?l2 \<le> commitIndex l'" "unat (commitIndex l') < b"
        using Suc.hyps(1) [of ?l2 x1] ok2 by auto
      then show ?thesis using e c1 Some a False unfolding list by (auto simp: same_entries_def)
    qed
  qed
qed

lemma commit_loop_inv:
  assumes "\<And>e c l x. newCommand m (CommandName e) (Command e) = Some c \<Longrightarrow> Q x \<Longrightarrow> Q (snd (ApplyFunc m e c l x))"
    and "commit_loop m is (l, x) = Some (e, l', x')" and "Q x"
  shows "Q x'"
  using assms(2,3)
proof (induction "is" arbitrary: l x)
  case (Cons i "is")
  from Cons.prems(1) obtain e0 where e0: "entry_at l (of_nat i - 1 - startIndex l) = Some e0"
    by (cases "entry_at l (of_nat i - 1 - startIndex l)") auto
  show ?case
  proof (cases "newCommand m (CommandName e0) (Command e0)")
    case None
    then show ?thesis using Cons.prems e0 by (auto simp: Let_def)
  next
    case (Some c)
    obtain r x1 where a: "ApplyFunc m e0 c (l\<lparr>commitIndex := Index e0\<rparr>) x = (r, x1)" by (rule prod.exhaust)
    have "Q x1" using assms(1) [OF Some Cons.prems(2), of "l\<lparr>commitIndex := Index e0\<rparr>"] a by simp
    then show ?thesis using Cons.prems(1) Cons.IH e0 Some a by (auto simp: Let_def split: if_splits)
  qed
qed simp

lemma setCommitIndex_spec:
  assumes ok: "log_ok l"
  shows "\<exists>e l' x'. setCommitIndex m i (l, x) = Some (e, l', x') \<and> same_entries l l' \<and> log_ok l' \<and>
    commitIndex l \<le> commitIndex l' \<and> (commitIndex l' = commitIndex l \<or> commitIndex l' \<le> i \<and> commitIndex l' \<le> end_index l)"
proof -
  define j where "j = (if i > end_index l then end_index l else i)"
  show ?thesis
  proof (cases "j < commitIndex l")
    case True
    then show ?thesis using ok by (simp add: setCommitIndex_def Let_def j_def)
  next
    case False
    have "unat (commitIndex l) < unat j + 1" using False by (simp add: not_less word_le_nat_alt)
    moreover have "unat j \<le> unat (end_index l)" by (simp add: j_def not_less flip: word_le_nat_alt)
    then have "unat j + 1 - 1 \<le> unat (startIndex l) + length (entries l)" using log_ok_end [OF ok] by simp
    ultimately obtain e l' x' where "commit_loop m [unat (commitIndex l) + 1..<unat j + 1] (l, x) = Some (e, l', x')"
      "same_entries l l'" "log_ok l'" "commitIndex l \<le> commitIndex l'" "unat (commitIndex l') < unat j + 1"
      using commit_loop_spec [OF ok, of "unat j + 1" m x] by blast
    moreover have "j \<le> i" "j \<le> end_index l" by (auto simp: j_def not_less)
    ultimately show ?thesis using False
      by (auto simp: setCommitIndex_def j_def [symmetric] Let_def word_le_nat_alt)
  qed
qed

end
