(* ===== verification/RaftNet.thy ===== *)
theory RaftNet
  imports RaftFacts
begin

text \<open>
  A cluster of servers of \<open>benbjohnson/go-raft\<close> and the messages between them: every action is
  an iteration of a server's event loop (\<open>candidateLoop\<close>, \<open>leaderLoop\<close>, \<open>followerLoop\<close>) or of one of
  its goroutines. Messages may be lost, delayed and reordered; a vote request is answered once, an
  append request and its response may also be delivered twice. The members of the
  cluster do not change, no server restarts and none is so far behind that it needs a snapshot.

  A round of voting starts a goroutine for each peer, which builds its request and chooses its
  channel when it runs, from variables of the loop: the channel of an invocation of
  \<open>candidateLoop\<close> is the number of its latest round.
\<close>

section \<open>The state of the cluster\<close>

text \<open>A goroutine of a round: not yet run; its request and channel; the answer; received.\<close>

datatype stage =
    Spawned
  | Sent RequestVoteRequest nat
  | Answered RequestVoteResponse nat
  | Received nat bool

record vote_call =
  vc_from :: string
  vc_to :: string
  vc_inv :: nat
  vc_stage :: stage

text \<open>
  \<open>inv\<close>, \<open>rounds\<close>, \<open>captured\<close> and \<open>votes\<close>: the invocations of \<open>candidateLoop\<close> of a server, the channel
  and the last index and term that each of them holds, and \<open>votesGranted\<close>. \<open>elected\<close> is a history:
  who became the leader of which term.
\<close>

record ('r, 'm) net =
  srv :: "string \<Rightarrow> ('r, 'm) server"
  calls :: "vote_call list"
  inv :: "string \<Rightarrow> nat"
  rounds :: "string \<Rightarrow> nat \<Rightarrow> nat"
  captured :: "string \<Rightarrow> nat \<Rightarrow> u64 \<times> u64"
  votes :: "string \<Rightarrow> nat"
  appends :: "(string \<times> string \<times> AppendEntriesRequest) list"
  answers :: "(string \<times> string \<times> AppendEntriesRequest \<times> AppendEntriesResponse) list"
  inbox :: "(string \<times> AppendEntriesResponse) list"
  elected :: "(string \<times> u64) list"

datatype 'c action =
    Election_timeout string
  | Run_call nat
  | Answer_vote nat
  | Receive_vote nat
  | Client_command string "'c command" nat
  | Heartbeat string string
  | Deliver_append nat
  | Receive_append nat
  | Process_append nat

section \<open>Actions\<close>

definition put :: "string \<Rightarrow> ('r, 'm) server \<Rightarrow> ('r, 'm) net \<Rightarrow> ('r, 'm) net" where
  "put i s w = w\<lparr>srv := (srv w)(i := s)\<rparr>"

text \<open>The test at the head of the loop of a candidate.\<close>

definition check_votes :: "string \<Rightarrow> ('r, 'm) net \<Rightarrow> ('r, 'm) net" where
  "check_votes i w =
     (if state (srv w i) = Candidate \<and> enough_votes (votes w i) (srv w i) then
        (put i (become_leader (srv w i)) w)\<lparr>elected := elected w @ [(i, currentTerm (srv w i))]\<rparr>
      else w)"

definition spawn :: "string \<Rightarrow> ('r, 'm) net \<Rightarrow> vote_call list" where
  "spawn i w = map (\<lambda>p. \<lparr>vc_from = i, vc_to = fst p, vc_inv = inv w i, vc_stage = Spawned\<rparr>) (peers (srv w i))"

definition start_round :: "string \<Rightarrow> ('r, 'm) net \<Rightarrow> ('r, 'm) net" where
  "start_round i w =
     (let w1 = (put i (vote_round (srv w i)) w)\<lparr>votes := (votes w)(i := 1)\<rparr>
      in check_votes i (w1\<lparr>calls := calls w1 @ spawn i w1\<rparr>))"

text \<open>
  The timeout of a follower, which enters \<open>candidateLoop\<close> if it is promotable, and of a candidate,
  which starts another round with a new channel.
\<close>

definition election_timeout :: "string \<Rightarrow> ('r, 'm) net \<Rightarrow> ('r, 'm) net" where
  "election_timeout i w =
     (let s = srv w i in
      if state s = Follower then
        (if promotable s then
           let s1 = candidate_enter (setState Candidate s); k = inv w i + 1
           in start_round i ((put i s1 w)\<lparr>inv := (inv w)(i := k), rounds := (rounds w)(i := (rounds w i)(k := 0)),
                captured := (captured w)(i := (captured w i)(k := lastInfo (log s1)))\<rparr>)
         else w)
      else if state s = Candidate then
        start_round i (w\<lparr>rounds := (rounds w)(i := (rounds w i)(inv w i := rounds w i (inv w i) + 1))\<rparr>)
      else w)"

definition set_stage :: "nat \<Rightarrow> stage \<Rightarrow> ('r, 'm) net \<Rightarrow> ('r, 'm) net" where
  "set_stage g st w = w\<lparr>calls := (calls w)[g := (calls w ! g)\<lparr>vc_stage := st\<rparr>]\<rparr>"

definition run_call :: "nat \<Rightarrow> ('r, 'm) net \<Rightarrow> ('r, 'm) net" where
  "run_call g w =
     (let c = calls w ! g; i = vc_from c; (li, lt) = captured w i (vc_inv c)
      in set_stage g (Sent (newRequestVoteRequest (currentTerm (srv w i)) (sname (srv w i)) li lt) (rounds w i (vc_inv c))) w)"

text \<open>A leader that steps down leaves its loop.\<close>

definition put_exit :: "string \<Rightarrow> ('r, 'm) server \<Rightarrow> ('r, 'm) net \<Rightarrow> ('r, 'm) net" where
  "put_exit i s w = put i (if state (srv w i) = Leader then leader_exit s else s) w"

definition answer_vote :: "nat \<Rightarrow> RequestVoteRequest \<Rightarrow> nat \<Rightarrow> ('r, 'm) net \<Rightarrow> ('r, 'm) net option" where
  "answer_vote g req r w =
     (let j = vc_to (calls w ! g) in
      map_option (\<lambda>((resp, _), s). set_stage g (Answered resp r) (put_exit j s w)) (processRequestVoteRequest req (srv w j)))"

text \<open>A candidate receives from the channel of its current round only.\<close>

definition receive_vote :: "nat \<Rightarrow> RequestVoteResponse \<Rightarrow> nat \<Rightarrow> ('r, 'm) net \<Rightarrow> ('r, 'm) net option" where
  "receive_vote g resp r w =
     (let i = vc_from (calls w ! g) in
      map_option (\<lambda>(ok, s).
          let w1 = set_stage g (Received r ok) (put i s w)
          in check_votes i (w1\<lparr>votes := (votes w1)(i := (if ok then votes w1 i + 1 else votes w1 i))\<rparr>))
        (processVoteResponse resp (srv w i)))"

definition enabled :: "'c action \<Rightarrow> ('r, 'm) net \<Rightarrow> bool" where
  "enabled a w =
     (case a of
        Election_timeout i \<Rightarrow> state (srv w i) = Follower \<or> state (srv w i) = Candidate
      | Run_call g \<Rightarrow> g < length (calls w) \<and> vc_stage (calls w ! g) = Spawned
      | Answer_vote g \<Rightarrow> g < length (calls w) \<and> (case vc_stage (calls w ! g) of Sent _ _ \<Rightarrow> True | _ \<Rightarrow> False)
      | Receive_vote g \<Rightarrow> g < length (calls w) \<and>
          (let c = calls w ! g; i = vc_from c in
           case vc_stage c of
             Answered _ r \<Rightarrow> state (srv w i) = Candidate \<and> vc_inv c = inv w i \<and> r = rounds w i (vc_inv c)
           | _ \<Rightarrow> False)
      | Client_command i _ _ \<Rightarrow> state (srv w i) = Leader
      | Heartbeat i j \<Rightarrow> state (srv w i) = Leader \<and> map_of (peers (srv w i)) j \<noteq> None
      | Deliver_append k \<Rightarrow> k < length (appends w)
      | Receive_append k \<Rightarrow> k < length (answers w)
      | Process_append k \<Rightarrow> k < length (inbox w) \<and> state (srv w (fst (inbox w ! k))) = Leader)"

text \<open>What an enabled action does; \<open>None\<close> is a panic.\<close>

definition act :: "('c, 'r, 'm) env \<Rightarrow> 'c action \<Rightarrow> ('r, 'm) net \<Rightarrow> ('r, 'm) net option" where
  "act ev a w =
     (case a of
        Election_timeout i \<Rightarrow> Some (election_timeout i w)
      | Run_call g \<Rightarrow> Some (run_call g w)
      | Answer_vote g \<Rightarrow> (case vc_stage (calls w ! g) of Sent req r \<Rightarrow> answer_vote g req r w | _ \<Rightarrow> Some w)
      | Receive_vote g \<Rightarrow> (case vc_stage (calls w ! g) of Answered resp r \<Rightarrow> receive_vote g resp r w | _ \<Rightarrow> Some w)
      | Client_command i c v \<Rightarrow> map_option (\<lambda>s. put i s w) (processCommand ev c v (srv w i))
      | Heartbeat i j \<Rightarrow>
          map_option (\<lambda>m. case m of
              Send_entries req \<Rightarrow> w\<lparr>appends := appends w @ [(i, j, req)]\<rparr>
            | Send_snapshot _ \<Rightarrow> w) (flush (srv w i) j)
      | Deliver_append k \<Rightarrow>
          (case appends w ! k of (i, j, req) \<Rightarrow>
             map_option (\<lambda>((resp, _), s). (put_exit j s w)\<lparr>answers := answers w @ [(i, j, req, resp)]\<rparr>)
               (processAppendEntriesRequest ev req (srv w j)))
      | Receive_append k \<Rightarrow>
          (case answers w ! k of (i, j, req, resp) \<Rightarrow>
             (case peer_response j req resp (srv w i) of
                (resp1, s) \<Rightarrow> Some ((put i s w)\<lparr>inbox := inbox w @ [(i, resp1)]\<rparr>)))
      | Process_append k \<Rightarrow>
          (case inbox w ! k of (i, resp) \<Rightarrow>
             map_option (\<lambda>s. put_exit i s w) (processAppendEntriesResponse ev resp (srv w i))))"

section \<open>Runs\<close>

text \<open>
  \<open>calm\<close>: the goroutines of a round run before anything else happens to their server. Nothing in
  the code makes them; \<open>roomy\<close>: the terms and the logs stay below the range of \<open>uint64\<close>.
\<close>

definition acts_on :: "'c action \<Rightarrow> ('r, 'm) net \<Rightarrow> string \<Rightarrow> bool" where
  "acts_on a w i \<longleftrightarrow>
     (case a of
        Election_timeout j \<Rightarrow> j = i
      | Run_call g \<Rightarrow> False
      | Answer_vote g \<Rightarrow> vc_to (calls w ! g) = i
      | Receive_vote g \<Rightarrow> vc_from (calls w ! g) = i
      | Client_command j _ _ \<Rightarrow> j = i
      | Heartbeat j _ \<Rightarrow> j = i
      | Deliver_append k \<Rightarrow> fst (snd (appends w ! k)) = i
      | Receive_append k \<Rightarrow> fst (answers w ! k) = i
      | Process_append k \<Rightarrow> fst (inbox w ! k) = i)"

definition calm :: "'c action \<Rightarrow> ('r, 'm) net \<Rightarrow> bool" where
  "calm a w \<longleftrightarrow> list_all (\<lambda>c. vc_stage c = Spawned \<longrightarrow> \<not> acts_on a w (vc_from c)) (calls w)"

definition roomy :: "string list \<Rightarrow> ('r, 'm) net \<Rightarrow> bool" where
  "roomy C w \<longleftrightarrow> list_all (\<lambda>i. currentTerm (srv w i) < - 1 \<and> int (length (entries (log (srv w i)))) < 2 ^ 64 - 2) C"

definition action_in :: "string list \<Rightarrow> 'c action \<Rightarrow> bool" where
  "action_in C a \<longleftrightarrow> (case a of Election_timeout i \<Rightarrow> i \<in> set C | Client_command i _ _ \<Rightarrow> i \<in> set C | Heartbeat i _ \<Rightarrow> i \<in> set C | _ \<Rightarrow> True)"

definition step :: "('c, 'r, 'm) env \<Rightarrow> string list \<Rightarrow> 'c action \<Rightarrow> ('r, 'm) net \<Rightarrow> ('r, 'm) net option" where
  "step ev C a w =
     (if enabled a w \<and> action_in C a then
        (case act ev a w of None \<Rightarrow> None | Some w1 \<Rightarrow> if roomy C w1 then Some w1 else None)
      else None)"

fun run :: "('c, 'r, 'm) env \<Rightarrow> string list \<Rightarrow> 'c action list \<Rightarrow> ('r, 'm) net \<Rightarrow> ('r, 'm) net option" where
  "run ev C [] w = Some w"
| "run ev C (a # as) w = Option.bind (step ev C a w) (run ev C as)"

fun calm_run :: "('c, 'r, 'm) env \<Rightarrow> string list \<Rightarrow> 'c action list \<Rightarrow> ('r, 'm) net \<Rightarrow> ('r, 'm) net option" where
  "calm_run ev C [] w = Some w"
| "calm_run ev C (a # as) w = (if calm a w then Option.bind (step ev C a w) (calm_run ev C as) else None)"

text \<open>
  A cluster at its start: all servers are followers with the same log, which has entries and whose
  last term is their term, and each has the others as its peers.
\<close>

definition server_start :: "string list \<Rightarrow> entry_pb list \<Rightarrow> string \<Rightarrow> ('r, 'm) server \<Rightarrow> bool" where
  "server_start C ps i s \<longleftrightarrow> sname s = i \<and> state s = Follower \<and> votedFor s = [] \<and>
     distinct (map fst (peers s)) \<and> set (map fst (peers s)) = set C - {i} \<and>
     pbs (log s) = ps \<and> startIndex (log s) = 0 \<and> log_file (log s) \<noteq> None \<and> log_ok (log s) \<and>
     currentTerm s = (if ps = [] then 0 else pb_Term (last ps))"

definition net_start :: "string list \<Rightarrow> entry_pb list \<Rightarrow> ('r, 'm) net \<Rightarrow> bool" where
  "net_start C ps w \<longleftrightarrow> distinct C \<and> [] \<notin> set C \<and> list_all (\<lambda>i. server_start C ps i (srv w i)) C \<and>
     sorted (map pb_Term ps) \<and> calls w = [] \<and> appends w = [] \<and> answers w = [] \<and> inbox w = [] \<and> elected w = [] \<and> roomy C w"

text \<open>Commands that do not change the members.\<close>

definition static :: "('c, 'r, 'm) env \<Rightarrow> bool" where
  "static ev \<longleftrightarrow> (\<forall>n b c. env_newCommand ev n b = Some c \<longrightarrow> (case c of Client _ \<Rightarrow> True | NOPCommand \<Rightarrow> True | _ \<Rightarrow> False))"

end
