(* ===== verification/RaftSteps.thy ===== *)
theory RaftSteps
  imports RaftNet
begin

text \<open>
  What a step of a server does to its term, its vote and its role (\<open>vote_move\<close>) and to its log
  (\<open>log_ok\<close> is kept, no handler panics under it).
\<close>

section \<open>Frames\<close>

definition same_core :: "('r, 'm) server \<Rightarrow> ('r, 'm) server \<Rightarrow> bool" where
  "same_core s s' \<longleftrightarrow> sname s' = sname s \<and> state s' = state s \<and> currentTerm s' = currentTerm s \<and> votedFor s' = votedFor s \<and>
     peers s' = peers s \<and> syncedPeer s' = syncedPeer s"

text \<open>Either the term stays, and a vote is given at most once, or it grows and the server follows.\<close>

definition vote_move :: "('r, 'm) server \<Rightarrow> ('r, 'm) server \<Rightarrow> bool" where
  "vote_move s s' \<longleftrightarrow> sname s' = sname s \<and> map fst (peers s') = map fst (peers s) \<and>
     (currentTerm s' = currentTerm s \<and> (votedFor s' = votedFor s \<or> votedFor s = []) \<and>
        (state s' = state s \<or> state s = Candidate \<and> state s' = Follower) \<or>
      currentTerm s < currentTerm s' \<and> state s' = Follower)"

lemma same_core_refl [simp]: "same_core s s"
  by (simp add: same_core_def)

lemma same_core_trans: "same_core a b \<Longrightarrow> same_core b c \<Longrightarrow> same_core a c"
  by (simp add: same_core_def)

lemma vote_move_core: "same_core s s' \<Longrightarrow> vote_move s s'"
  by (simp add: same_core_def vote_move_def)

lemma vote_move_refl [simp]: "vote_move s s"
  by (simp add: vote_move_def)

lemma vote_move_core_trans: "vote_move a b \<Longrightarrow> same_core b c \<Longrightarrow> vote_move a c"
  by (simp add: same_core_def vote_move_def)

lemma same_core_log [simp]: "same_core s (s\<lparr>log := l\<rparr>)"
  by (simp add: same_core_def)

lemma leader_exit_fields [simp]:
  "log (leader_exit s) = log s" "currentTerm (leader_exit s) = currentTerm s" "state (leader_exit s) = state s"
  "votedFor (leader_exit s) = votedFor s" "peers (leader_exit s) = peers s" "sname (leader_exit s) = sname s"
  by (simp_all add: leader_exit_def)

lemma vote_move_leader_exit: "vote_move s s' \<Longrightarrow> vote_move s (leader_exit s')"
  by (simp add: vote_move_def)

lemma updateCurrentTerm_spec:
  "currentTerm s < t \<Longrightarrow>
   \<exists>s'. updateCurrentTerm t n s = Some s' \<and> sname s' = sname s \<and> peers s' = peers s \<and> log s' = log s \<and>
     currentTerm s' = t \<and> votedFor s' = [] \<and> state s' = Follower \<and> syncedPeer s' = syncedPeer s"
  by (simp add: updateCurrentTerm_def setState_def Let_def)

section \<open>Committing\<close>

lemma static_apply:
  assumes "static ev" and "newCommand (server_machine ev) n b = Some c"
  shows "same_core s (snd (server_apply ev e c l s))"
proof -
  have "env_newCommand ev n b = Some c" using assms(2) by (simp add: server_machine_def)
  then have "case c of Client _ \<Rightarrow> True | NOPCommand \<Rightarrow> True | _ \<Rightarrow> False" using assms(1) unfolding static_def by blast
  then show ?thesis by (cases c) (simp_all add: server_apply_def same_core_def Let_def split: prod.splits)
qed

lemma server_commit_spec:
  assumes st: "static ev" and ok: "log_ok (log s)"
  shows "\<exists>e s'. server_commit ev i s = Some (e, s') \<and> same_core s s' \<and> same_entries (log s) (log s') \<and> log_ok (log s') \<and>
    commitIndex (log s) \<le> commitIndex (log s')"
proof -
  obtain e l' x' where c: "setCommitIndex (server_machine ev) i (log s, s) = Some (e, l', x')"
    "same_entries (log s) l'" "log_ok l'" "commitIndex (log s) \<le> commitIndex l'"
    using setCommitIndex_spec [OF ok, of "server_machine ev" i s] by blast
  have "same_core s x'"
  proof (cases "(if i > end_index (log s) then end_index (log s) else i) < commitIndex (log s)")
    case True
    then show ?thesis using c(1) by (simp add: setCommitIndex_def Let_def)
  next
    case False
    then have l: "commit_loop (server_machine ev) [unat (commitIndex (log s)) + 1..<unat (if i > end_index (log s) then end_index (log s) else i) + 1] (log s, s) = Some (e, l', x')"
      using c(1) by (simp add: setCommitIndex_def Let_def)
    have "ApplyFunc (server_machine ev) = server_apply ev" by (simp add: server_machine_def)
    then show ?thesis
      using commit_loop_inv [OF _ l, where Q = "same_core s"] static_apply [OF st] same_core_trans same_core_refl by metis
  qed
  then show ?thesis using c same_core_trans [OF _ same_core_log]
    by (intro exI [of _ e] exI [of _ "x'\<lparr>log := l'\<rparr>"]) (simp add: server_commit_def)
qed

section \<open>Append entries\<close>

lemma ae_accept_spec:
  assumes "\<not> ae_Term req < currentTerm s" and "ae_Term req = currentTerm s \<Longrightarrow> state s \<noteq> Leader"
  shows "\<exists>s'. ae_accept_leader req s = Some s' \<and> vote_move s s' \<and> log s' = log s \<and> currentTerm s' = ae_Term req \<and>
    (state s \<in> {Follower, Candidate} \<longrightarrow> state s' = Follower) \<and> (state s = Leader \<longrightarrow> state s' = Follower) \<and> peers s' = peers s"
proof (cases "ae_Term req = currentTerm s")
  case True
  then show ?thesis using assms by (auto simp: ae_accept_leader_def setState_def vote_move_def)
next
  case False
  then have "currentTerm s < ae_Term req" using assms(1) by simp
  from updateCurrentTerm_spec [OF this, of "ae_LeaderName req"] this False show ?thesis
    by (auto simp: ae_accept_leader_def vote_move_def)
qed

text \<open>
  An append request: the term, vote and role, and the log, of which a prefix up to the requested
  index is kept that has the requested term, followed by some of the entries of the request.
\<close>

definition log_move :: "AppendEntriesRequest \<Rightarrow> 'r log \<Rightarrow> 'r log \<Rightarrow> bool" where
  "log_move req l l' \<longleftrightarrow> pbs l' = pbs l \<or>
     (truncate_error (ae_PrevLogIndex req) (ae_PrevLogTerm req) l = None \<and>
      (\<exists>k. pbs l' = take (unat (ae_PrevLogIndex req) - unat (startIndex l)) (pbs l) @ take k (ae_Entries req)))"

lemma appended_ok:
  assumes ok: "log_ok l" and t: "log_truncate i t l = Some (None, l1)"
    and a: "appendEntries cd bs l1 = Some (e, l2)"
    and ix: "indexed (unat i) bs" and room: "unat i + length bs < 2 ^ 64 - 1"
  shows "log_ok l2" and "\<exists>k \<le> length bs. pbs l2 = take (unat i - unat (startIndex l)) (pbs l) @ take k bs"
    and "same_but_entries l l2" and "truncate_error i t l = None"
proof -
  obtain l1' where l1': "log_truncate i t l = Some (truncate_error i t l, l1')" by (metis truncate_spec [OF ok, of i t])
  then show te: "truncate_error i t l = None" using t by simp
  from truncate_spec [OF ok, of i t] t te have s1: "same_but_entries l l1"
    and e1: "entries l1 = take (unat i - unat (startIndex l)) (entries l)" by auto
  have ok1: "log_ok l1" by (rule truncate_ok [OF ok t])
  obtain k where k: "k \<le> length bs" "pbs l2 = pbs l1 @ take k bs" "same_but_entries l1 l2"
    using appendEntries_prefix [OF a] by blast
  show s2: "same_but_entries l l2" using s1 k(3) by (simp add: same_but_entries_def)
  show "\<exists>k \<le> length bs. pbs l2 = take (unat i - unat (startIndex l)) (pbs l) @ take k bs"
    using k e1 by (auto simp: pbs_def take_map)
  have "\<not> i < commitIndex l" "\<not> end_index l < i" using te by (auto simp: truncate_error_def split: if_splits)
  then have "startIndex l \<le> i" "unat i \<le> unat (startIndex l) + length (entries l)"
    using ok log_ok_end [OF ok] by (auto simp: log_ok_def not_less word_le_nat_alt)
  then have i: "unat (startIndex l1) + length (entries l1) = unat i"
    using e1 s1 by (simp add: same_but_entries_def word_le_nat_alt)
  have "length (entries l2) = length (entries l1) + k"
    using k(1,2) by (metis length_append length_pbs length_take min.absorb2)
  then show "log_ok l2" using ok1 k i ix room indexed_take [OF ix, of k]
    by (auto simp: log_ok_def same_but_entries_def indexed_append)
qed

lemma processAppend_spec:
  assumes st: "static ev" and ok: "log_ok (log s)" and f: "log_file (log s) \<noteq> None"
    and lead: "ae_Term req = currentTerm s \<Longrightarrow> state s \<noteq> Leader" and role: "state s \<in> {Follower, Candidate, Leader}"
    and ix: "indexed (unat (ae_PrevLogIndex req)) (ae_Entries req)"
    and room: "unat (ae_PrevLogIndex req) + length (ae_Entries req) < 2 ^ 64 - 1"
  shows "\<exists>r s'. processAppendEntriesRequest ev req s = Some (r, s') \<and> vote_move s s' \<and> log_ok (log s') \<and>
    log_file (log s') \<noteq> None \<and> startIndex (log s') = startIndex (log s) \<and> commitIndex (log s) \<le> commitIndex (log s') \<and>
    (ae_Term req < currentTerm s \<and> s' = s \<or> currentTerm s' = ae_Term req \<and> state s' = Follower) \<and> log_move req (log s) (log s')"
proof (cases "ae_Term req < currentTerm s")
  case True
  then have "processAppendEntriesRequest ev req s = Some ((ae_response False s, False), s)"
    by (simp add: processAppendEntriesRequest_def)
  then show ?thesis using True ok f by (intro exI [of _ "(ae_response False s, False)"] exI [of _ s]) (simp add: log_move_def)
next
  case False
  obtain s1 where s1: "ae_accept_leader req s = Some s1" "vote_move s s1" "log s1 = log s" "currentTerm s1 = ae_Term req"
    "state s1 = Follower" using ae_accept_spec [OF False lead] role by auto
  obtain l where t: "log_truncate (ae_PrevLogIndex req) (ae_PrevLogTerm req) (log s) =
      Some (truncate_error (ae_PrevLogIndex req) (ae_PrevLogTerm req) (log s), l)"
    and same: "same_but_entries (log s) l" and err: "truncate_error (ae_PrevLogIndex req) (ae_PrevLogTerm req) (log s) \<noteq> None \<longrightarrow> l = log s"
    using truncate_spec [OF ok] by metis
  show ?thesis
  proof (cases "truncate_error (ae_PrevLogIndex req) (ae_PrevLogTerm req) (log s)")
    case (Some e)
    then show ?thesis using s1 t err ok f False same_core_log [of s1 "log s"] vote_move_core_trans [of s s1]
      by (auto simp: processAppendEntriesRequest_def log_move_def Let_def same_core_def)
  next
    case None
    have fl: "log_file l \<noteq> None" using same f by (simp add: same_but_entries_def)
    obtain e l2 where a: "appendEntries (env_codec ev) (ae_Entries req) l = Some (e, l2)"
      using appendEntries_Some [OF fl] by blast
    note A = appended_ok [OF ok t [unfolded None] a ix room]
    let ?s3 = "s1\<lparr>log := l2\<rparr>"
    have lm: "log_move req (log s) l2" using A(2,4) by (auto simp: log_move_def)
    have v3: "vote_move s ?s3" by (rule vote_move_core_trans [OF s1(2) same_core_log])
    show ?thesis
    proof (cases e)
      case (Some x)
      then show ?thesis using s1 t a None False A(1,3) lm v3 f
        by (auto simp: processAppendEntriesRequest_def Let_def same_but_entries_def)
    next
      case E: None
      obtain e4 s4 where c: "server_commit ev (ae_CommitIndex req) ?s3 = Some (e4, s4)" "same_core ?s3 s4"
        "same_entries l2 (log s4)" "log_ok (log s4)" "commitIndex l2 \<le> commitIndex (log s4)"
        using server_commit_spec [OF st, of ?s3 "ae_CommitIndex req"] A(1) by auto
      have "pbs (log s4) = pbs l2" using c(3) by (simp add: same_entries_def pbs_def)
      then have "log_move req (log s) (log s4)" using lm by (simp add: log_move_def)
      moreover have "vote_move s s4" by (rule vote_move_core_trans [OF v3 c(2)])
      ultimately show ?thesis using s1 t a None E False A(3) c f
        by (auto simp: processAppendEntriesRequest_def Let_def same_but_entries_def same_entries_def same_core_def)
    qed
  qed
qed

section \<open>Votes\<close>

lemma processVote_spec:
  "\<exists>resp b s'. processRequestVoteRequest req s = Some ((resp, b), s') \<and> vote_move s s' \<and> log s' = log s \<and>
     syncedPeer s' = syncedPeer s \<and> (rvr_VoteGranted resp \<longrightarrow> votedFor s' = rv_CandidateName req \<and> rvr_Term resp = currentTerm s')"
proof (cases "rv_Term req < currentTerm s \<or> (\<not> rv_Term req > currentTerm s \<and> votedFor s \<noteq> [] \<and> votedFor s \<noteq> rv_CandidateName req)")
  case True
  then show ?thesis by (auto simp: processRequestVoteRequest_def newRequestVoteResponse_def)
next
  case False
  obtain s1 where s1: "(if rv_Term req > currentTerm s then updateCurrentTerm (rv_Term req) [] s else Some s) = Some s1"
    "log s1 = log s" "sname s1 = sname s" "peers s1 = peers s" "syncedPeer s1 = syncedPeer s"
    "rv_Term req > currentTerm s \<longrightarrow> currentTerm s1 = rv_Term req \<and> state s1 = Follower" "\<not> rv_Term req > currentTerm s \<longrightarrow> s1 = s"
    using updateCurrentTerm_spec [of s "rv_Term req" "[]"] by (cases "rv_Term req > currentTerm s") auto
  then have "processRequestVoteRequest req s =
      (let (li, lt) = lastInfo (log s1) in
       if li > rv_LastLogIndex req \<or> lt > rv_LastLogTerm req then Some ((newRequestVoteResponse (currentTerm s1) False, False), s1)
       else Some ((newRequestVoteResponse (currentTerm s1) True, True), s1\<lparr>votedFor := rv_CandidateName req\<rparr>))"
    using False by (auto simp: processRequestVoteRequest_def Let_def split: prod.splits)
  moreover have "vote_move s s1" "vote_move s (s1\<lparr>votedFor := rv_CandidateName req\<rparr>)"
    using s1 False by (cases "rv_Term req > currentTerm s"; auto simp: vote_move_def)+
  ultimately show ?thesis using s1(2,5) by (auto simp: newRequestVoteResponse_def Let_def split: prod.splits)
qed

lemma processVoteResponse_spec:
  "\<exists>ok s'. processVoteResponse resp s = Some (ok, s') \<and> vote_move s s' \<and> log s' = log s \<and>
     syncedPeer s' = syncedPeer s \<and> (ok \<longrightarrow> rvr_VoteGranted resp \<and> rvr_Term resp = currentTerm s \<and> s' = s)"
  using updateCurrentTerm_spec [of s "rvr_Term resp" "[]"]
  by (cases "rvr_Term resp > currentTerm s") (auto simp: processVoteResponse_def vote_move_def)

section \<open>The leader\<close>

lemma mark_synced_core: "mark_synced n s = Some s' \<Longrightarrow> sname s' = sname s \<and> state s' = state s \<and> currentTerm s' = currentTerm s \<and>
    votedFor s' = votedFor s \<and> peers s' = peers s \<and> log s' = log s \<and> syncedPeer s' \<noteq> None"
  by (auto simp: mark_synced_def)

lemma processResponse_spec:
  assumes st: "static ev" and ok: "log_ok (log s)" and sy: "syncedPeer s \<noteq> None"
  shows "\<exists>s'. processAppendEntriesResponse ev resp s = Some s' \<and> vote_move s s' \<and> same_entries (log s) (log s') \<and> log_ok (log s') \<and>
    commitIndex (log s) \<le> commitIndex (log s') \<and> syncedPeer s' \<noteq> None"
proof (cases "aer_Term resp > currentTerm s \<or> \<not> aer_Success resp")
  case True
  then show ?thesis using updateCurrentTerm_spec [of s "aer_Term resp" "[]"] ok sy
    by (auto simp: processAppendEntriesResponse_def vote_move_def)
next
  case False
  define s1 where "s1 = (if aer_append resp then the (mark_synced (aer_peer resp) s) else s)"
  have m: "(if aer_append resp then mark_synced (aer_peer resp) s else Some s) = Some s1"
    using sy by (auto simp: s1_def mark_synced_def)
  then have c1: "sname s1 = sname s \<and> state s1 = state s \<and> currentTerm s1 = currentTerm s \<and> votedFor s1 = votedFor s \<and>
      peers s1 = peers s \<and> log s1 = log s \<and> syncedPeer s1 \<noteq> None"
    using mark_synced_core sy by (cases "aer_append resp") auto
  obtain e s' where c: "server_commit ev (quorum_index s1) s1 = Some (e, s')" "same_core s1 s'" "same_entries (log s1) (log s')"
    "log_ok (log s')" "commitIndex (log s1) \<le> commitIndex (log s')"
    using server_commit_spec [OF st, of s1] ok c1 by metis
  have "\<exists>s''. processAppendEntriesResponse ev resp s = Some s'' \<and> (s'' = s1 \<or> s'' = s')"
    using False m c(1) by (auto simp: processAppendEntriesResponse_def)
  moreover have "vote_move s s1" using c1 by (simp add: vote_move_def)
  moreover have "vote_move s s'" using c1 c(2) by (simp add: vote_move_def same_core_def)
  ultimately show ?thesis using c c1 ok by (auto simp: same_core_def)
qed

lemma processCommand_spec:
  assumes st: "static ev" and ok: "log_ok (log s)" and sy: "syncedPeer s \<noteq> None"
    and room: "unat (startIndex (log s)) + length (entries (log s)) < 2 ^ 64 - 2"
  shows "\<exists>s'. processCommand ev c v s = Some s' \<and> vote_move s s' \<and> log_ok (log s') \<and> state s' = state s \<and> currentTerm s' = currentTerm s \<and>
    commitIndex (log s) \<le> commitIndex (log s') \<and> startIndex (log s') = startIndex (log s) \<and> syncedPeer s' \<noteq> None \<and>
    (log_file (log s) \<noteq> None \<longrightarrow> log_file (log s') \<noteq> None) \<and>
    (pbs (log s') = pbs (log s) \<or> (\<exists>p. pbs (log s') = pbs (log s) @ [p] \<and> pb_Term p = currentTerm s \<and>
       pb_Index p = of_nat (unat (startIndex (log s)) + length (entries (log s)) + 1)))"
proof (cases "createEntry (currentTerm s) (env_encode ev c) (Some v) (log s)")
  case None
  then show ?thesis using ok sy by (simp add: processCommand_def refuse_def vote_move_def log_ok_def pbs_def)
next
  case (Some e)
  then have p: "pb_Term (pb e) = currentTerm s" "pb_Index (pb e) = nextIndex (log s)"
    by (auto simp: createEntry_def newLogEntry_def split: prod.splits)
  have nx: "nextIndex (log s) = of_nat (unat (startIndex (log s)) + length (entries (log s)) + 1)"
    by (simp add: nextIndex_def currentIndex_ok [OF ok] end_index_def)
  obtain er l where a: "appendEntry (env_codec ev) e (log s) = (er, l)" by (rule prod.exhaust)
  show ?thesis
  proof (cases er)
    case (Some x)
    then have "l = log s" using a by (auto simp: appendEntry_def Let_def split: option.splits prod.splits)
    then show ?thesis using a \<open>createEntry _ _ _ _ = Some e\<close> Some ok sy
      by (simp add: processCommand_def refuse_def vote_move_def log_ok_def pbs_def)
  next
    case None
    obtain f d f1 where l: "l = (log s)\<lparr>log_file := Some f1, entries := entries (log s) @ [e\<lparr>Position := d\<rparr>]\<rparr>"
      using a None by (auto simp: appendEntry_def Let_def split: option.splits prod.splits)
    have pl: "pbs l = pbs (log s) @ [pb e]" by (simp add: l pbs_def)
    have okl: "log_ok l" using ok room p(2) nx
      by (auto simp: log_ok_def pl indexed_append) (auto simp: l indexed_def)
    obtain s1 where s1: "mark_synced (sname s) (s\<lparr>log := l\<rparr>) = Some s1" using sy by (auto simp: mark_synced_def)
    have c1: "sname s1 = sname s \<and> state s1 = state s \<and> currentTerm s1 = currentTerm s \<and> votedFor s1 = votedFor s \<and>
        peers s1 = peers s \<and> log s1 = l \<and> syncedPeer s1 \<noteq> None" using mark_synced_core [OF s1] by simp
    obtain e2 s2 where c: "server_commit ev (currentIndex (log s1)) s1 = Some (e2, s2)" "same_core s1 s2" "same_entries l (log s2)"
      "log_ok (log s2)" "commitIndex l \<le> commitIndex (log s2)"
      using server_commit_spec [OF st, of s1] okl c1 by metis
    have r: "\<exists>s'. processCommand ev c v s = Some s' \<and> (s' = s1 \<or> s' = s2)"
      using a None Some s1 c(1) by (auto simp: processCommand_def)
    have m: "vote_move s s1" "vote_move s s2" using c1 c(2) by (simp_all add: vote_move_def same_core_def)
    have "pbs (log s2) = pbs l" using c(3) by (simp add: same_entries_def pbs_def)
    then show ?thesis using r m c c1 okl p nx pl by (auto simp: same_core_def same_entries_def l)
  qed
qed

end
