(* ===== verification/RaftElection.thy ===== *)
theory RaftElection
  imports RaftSteps
begin

text \<open>
  Elections: the votes that the servers of a cluster give, as a set of triples (voter, term,
  candidate) that a run builds up, and the invariant that ties them to the servers, to the calls in
  flight and to \<open>votesGranted\<close>. A quorum is a majority of the members; two of them share a voter.
\<close>

section \<open>Quorums\<close>

locale quorum_system =
  fixes quorum :: "'v set \<Rightarrow> bool"
  assumes quorums_meet: "quorum P \<Longrightarrow> quorum Q \<Longrightarrow> \<exists>v. v \<in> P \<and> v \<in> Q"
begin

definition chosen :: "('v \<times> 't \<times> 'a) set \<Rightarrow> 't \<Rightarrow> 'a \<Rightarrow> bool" where
  "chosen V t c \<longleftrightarrow> (\<exists>Q. quorum Q \<and> (\<forall>v \<in> Q. (v, t, c) \<in> V))"

lemma chosen_mono: "chosen V t c \<Longrightarrow> V \<subseteq> V' \<Longrightarrow> chosen V' t c"
  unfolding chosen_def by blast

lemma chosen_unique:
  assumes "\<And>v t a b. (v, t, a) \<in> V \<Longrightarrow> (v, t, b) \<in> V \<Longrightarrow> a = b" and "chosen V t a" and "chosen V t b"
  shows "a = b"
proof -
  obtain P Q where p: "quorum P" "\<forall>v \<in> P. (v, t, a) \<in> V" and q: "quorum Q" "\<forall>v \<in> Q. (v, t, b) \<in> V"
    using assms(2,3) unfolding chosen_def by blast
  obtain v where "v \<in> P" "v \<in> Q" using quorums_meet [OF p(1) q(1)] by blast
  then show ?thesis using p(2) q(2) assms(1) by blast
qed

end

definition majority :: "string list \<Rightarrow> string set \<Rightarrow> bool" where
  "majority C Q \<longleftrightarrow> Q \<subseteq> set C \<and> card (set C) < 2 * card Q"

interpretation mj: quorum_system "majority C" for C
proof
  fix P Q assume p: "majority C P" and q: "majority C Q"
  show "\<exists>v. v \<in> P \<and> v \<in> Q"
  proof (rule ccontr)
    assume "\<not> ?thesis"
    then have d: "P \<inter> Q = {}" by blast
    have s: "P \<union> Q \<subseteq> set C" using p q by (auto simp: majority_def)
    have "card P + card Q = card (P \<union> Q)"
      by (rule card_Un_disjoint [symmetric]) (use s d in \<open>auto intro: finite_subset\<close>)
    also have "\<dots> \<le> card (set C)" by (rule card_mono) (use s in auto)
    finally show False using p q by (simp add: majority_def)
  qed
qed

lemma QuorumSize_majority:
  assumes "distinct (map fst (peers s))" and "set (map fst (peers s)) = set C - {i}" and "i \<in> set C"
    and "Q \<subseteq> set C" and "card Q = QuorumSize s"
  shows "majority C Q"
proof -
  have "length (peers s) = card (set C - {i})" using assms(1,2) by (metis distinct_card length_map)
  also have "\<dots> = card (set C) - 1" using assms(3) by simp
  moreover have "card (set C) > 0" using assms(3) by (auto simp: card_gt_0_iff)
  ultimately have "MemberCount s = card (set C)" by (simp add: MemberCount_def)
  then show ?thesis using assms(4,5) by (simp add: majority_def QuorumSize_def)
qed

section \<open>The invariant\<close>

type_synonym ballots = "(string \<times> u64 \<times> string) set"

definition member_ok :: "string list \<Rightarrow> string \<Rightarrow> ('r, 'm) server \<Rightarrow> bool" where
  "member_ok C i s \<longleftrightarrow> sname s = i \<and> state s \<in> {Follower, Candidate, Leader} \<and>
     distinct (map fst (peers s)) \<and> set (map fst (peers s)) = set C - {i}"

definition servers_ok :: "string list \<Rightarrow> ('r, 'm) net \<Rightarrow> bool" where
  "servers_ok C w \<longleftrightarrow> [] \<notin> set C \<and> (\<forall>i \<in> set C. member_ok C i (srv w i))"

text \<open>A vote of the past is in an earlier term, or is the server's \<open>votedFor\<close>.\<close>

definition votes_ok :: "string list \<Rightarrow> ballots \<Rightarrow> ('r, 'm) net \<Rightarrow> bool" where
  "votes_ok C V w \<longleftrightarrow>
     (\<forall>v T c. (v, T, c) \<in> V \<longrightarrow> v \<in> set C \<and> c \<noteq> [] \<and>
        (T < currentTerm (srv w v) \<or> T = currentTerm (srv w v) \<and> votedFor (srv w v) = c)) \<and>
     (\<forall>v T a b. (v, T, a) \<in> V \<longrightarrow> (v, T, b) \<in> V \<longrightarrow> a = b)"

definition call_round :: "('r, 'm) net \<Rightarrow> vote_call \<Rightarrow> nat" where
  "call_round w c = (case vc_stage c of Spawned \<Rightarrow> rounds w (vc_from c) (vc_inv c) | Sent _ r \<Rightarrow> r | Answered _ r \<Rightarrow> r | Received r _ \<Rightarrow> r)"

definition call_key :: "('r, 'm) net \<Rightarrow> vote_call \<Rightarrow> string \<times> nat \<times> nat \<times> string" where
  "call_key w c = (vc_from c, vc_inv c, call_round w c, vc_to c)"

definition call_ok :: "string list \<Rightarrow> ballots \<Rightarrow> ('r, 'm) net \<Rightarrow> vote_call \<Rightarrow> bool" where
  "call_ok C V w c \<longleftrightarrow> vc_from c \<in> set C \<and> vc_to c \<in> set C - {vc_from c} \<and> vc_inv c \<le> inv w (vc_from c) \<and>
     call_round w c \<le> rounds w (vc_from c) (vc_inv c) \<and>
     (case vc_stage c of
        Sent req _ \<Rightarrow> rv_CandidateName req = vc_from c
      | Answered resp _ \<Rightarrow> rvr_VoteGranted resp \<longrightarrow> (vc_to c, rvr_Term resp, vc_from c) \<in> V
      | _ \<Rightarrow> True)"

definition calls_ok :: "string list \<Rightarrow> ballots \<Rightarrow> ('r, 'm) net \<Rightarrow> bool" where
  "calls_ok C V w \<longleftrightarrow> (\<forall>c \<in> set (calls w). call_ok C V w c) \<and> distinct (map (call_key w) (calls w))"

text \<open>The peers whose votes a candidate has counted in its round.\<close>

definition granted :: "('r, 'm) net \<Rightarrow> string \<Rightarrow> string set" where
  "granted w i = {vc_to c | c. c \<in> set (calls w) \<and> vc_from c = i \<and> vc_inv c = inv w i \<and> vc_stage c = Received (rounds w i (inv w i)) True}"

definition ballot_ok :: "ballots \<Rightarrow> ('r, 'm) net \<Rightarrow> string \<Rightarrow> bool" where
  "ballot_ok V w i \<longleftrightarrow> (state (srv w i) = Candidate \<longrightarrow> votes w i = 1 + card (granted w i) \<and>
     (\<forall>v \<in> insert i (granted w i). (v, currentTerm (srv w i), i) \<in> V))"

definition elected_ok :: "string list \<Rightarrow> ballots \<Rightarrow> ('r, 'm) net \<Rightarrow> bool" where
  "elected_ok C V w \<longleftrightarrow> (\<forall>i T. (i, T) \<in> set (elected w) \<longrightarrow> i \<in> set C \<and> mj.chosen C V T i)"

definition election_inv :: "string list \<Rightarrow> ballots \<Rightarrow> ('r, 'm) net \<Rightarrow> bool" where
  "election_inv C V w \<longleftrightarrow> servers_ok C w \<and> votes_ok C V w \<and> calls_ok C V w \<and> (\<forall>i \<in> set C. ballot_ok V w i) \<and> elected_ok C V w"

lemma votes_okI [intro?]:
  assumes "\<And>v T c. (v, T, c) \<in> V \<Longrightarrow> v \<in> set C \<and> c \<noteq> [] \<and>
        (T < currentTerm (srv w v) \<or> T = currentTerm (srv w v) \<and> votedFor (srv w v) = c)"
    and "\<And>v T a b. (v, T, a) \<in> V \<Longrightarrow> (v, T, b) \<in> V \<Longrightarrow> a = b"
  shows "votes_ok C V w"
  using assms unfolding votes_ok_def by blast

text \<open>One leader for a term.\<close>

lemma election_inv_safe: "election_inv C V w \<Longrightarrow> (i, T) \<in> set (elected w) \<Longrightarrow> (j, T) \<in> set (elected w) \<Longrightarrow> i = j"
  by (rule mj.chosen_unique [where V = V and t = T and C = C]) (auto simp: election_inv_def votes_ok_def elected_ok_def)

section \<open>Steps of a server\<close>

text \<open>The parts of the cluster that elections are about.\<close>

definition same_votes :: "('r, 'm) net \<Rightarrow> ('r, 'm) net \<Rightarrow> bool" where
  "same_votes w w' \<longleftrightarrow> calls w' = calls w \<and> inv w' = inv w \<and> rounds w' = rounds w \<and> votes w' = votes w \<and> elected w' = elected w"

lemma calls_ok_eq:
  assumes "calls w' = calls w" and "inv w' = inv w" and "rounds w' = rounds w"
  shows "calls_ok C V w' = calls_ok C V w"
proof -
  have "call_key w' = call_key w" by (rule ext) (simp add: assms call_key_def call_round_def split: stage.split)
  moreover have "call_ok C V w' = call_ok C V w" by (rule ext) (simp add: assms call_ok_def call_round_def split: stage.split)
  ultimately show ?thesis by (simp add: assms calls_ok_def)
qed

lemma calls_ok_frame:
  assumes "calls w' = calls w" and "\<And>c. c \<in> set (calls w) \<Longrightarrow> call_round w' c = call_round w c \<and> call_ok C V w' c" and "calls_ok C V w"
  shows "calls_ok C V w'"
proof -
  have "map (call_key w') (calls w) = map (call_key w) (calls w)" using assms(2) by (simp add: call_key_def)
  then show ?thesis using assms unfolding calls_ok_def by metis
qed

lemma granted_same: "same_votes w w' \<Longrightarrow> granted w' = granted w"
  by (rule ext) (simp add: same_votes_def granted_def)

lemma vote_move_votes:
  assumes "votes_ok C V w" and "vote_move (srv w j) s'" and "srv w' = (srv w)(j := s')"
  shows "votes_ok C V w'"
proof
  fix v T c assume v: "(v, T, c) \<in> V"
  then have "v \<in> set C \<and> c \<noteq> [] \<and> (T < currentTerm (srv w v) \<or> T = currentTerm (srv w v) \<and> votedFor (srv w v) = c)"
    using assms(1) unfolding votes_ok_def by blast
  then show "v \<in> set C \<and> c \<noteq> [] \<and> (T < currentTerm (srv w' v) \<or> T = currentTerm (srv w' v) \<and> votedFor (srv w' v) = c)"
    using assms(2,3) by (auto simp: vote_move_def)
qed (use assms(1) in \<open>unfold votes_ok_def, blast\<close>)

lemma vote_move_member:
  assumes "member_ok C i s" and "vote_move s s'"
  shows "member_ok C i s'"
proof -
  have "state s' = state s \<or> state s' = Follower" "sname s' = sname s" "map fst (peers s') = map fst (peers s)"
    using assms(2) unfolding vote_move_def by blast+
  then show ?thesis using assms(1) unfolding member_ok_def by auto
qed

lemma vote_move_servers:
  assumes "servers_ok C w" and "vote_move (srv w j) s'" and "srv w' = (srv w)(j := s')"
  shows "servers_ok C w'"
  using assms vote_move_member [of C j "srv w j" s'] by (auto simp: servers_ok_def)

lemma vote_move_ballot:
  assumes "ballot_ok V w i" and "vote_move (srv w j) s'" and "srv w' = (srv w)(j := s')"
    and "votes w' i = votes w i" and "granted w' i = granted w i"
  shows "ballot_ok V w' i"
  using assms by (auto simp: ballot_ok_def vote_move_def)

lemma election_inv_move:
  assumes inv: "election_inv C V w" and m: "vote_move (srv w j) s'" and s: "srv w' = (srv w)(j := s')" and same: "same_votes w w'"
  shows "election_inv C V w'"
proof -
  have "ballot_ok V w' i" if "i \<in> set C" for i
    using vote_move_ballot [OF _ m s] inv that same granted_same [OF same] by (simp add: election_inv_def same_votes_def)
  then show ?thesis using inv vote_move_votes [OF _ m s] vote_move_servers [OF _ m s] calls_ok_eq [of w' w] same
    by (simp add: election_inv_def elected_ok_def same_votes_def)
qed

section \<open>Steps of a call\<close>

lemma set_list_update:
  assumes "g < length xs"
  shows "x \<in> set (xs[g := y]) \<longleftrightarrow> x = y \<or> (\<exists>h < length xs. h \<noteq> g \<and> xs ! h = x)"
proof -
  have "x \<in> set (xs[g := y]) \<longleftrightarrow> (\<exists>h < length xs. xs[g := y] ! h = x)" by (auto simp: in_set_conv_nth)
  also have "\<dots> \<longleftrightarrow> (\<exists>h < length xs. if h = g then y = x else xs ! h = x)" by (auto simp: nth_list_update)
  finally show ?thesis using assms by auto
qed

lemma image_update:
  assumes "g < length xs" and "\<not> P (xs ! g)"
  shows "{f x | x. x \<in> set (xs[g := y]) \<and> P x} = {f x | x. x \<in> set xs \<and> P x} \<union> (if P y then {f y} else {})"
proof -
  have m: "x \<in> set xs \<longleftrightarrow> x = xs ! g \<or> (\<exists>h < length xs. h \<noteq> g \<and> xs ! h = x)" for x
    using set_list_update [OF assms(1), of x "xs ! g"] by simp
  have "x \<in> set xs \<and> P x \<longleftrightarrow> (\<exists>h < length xs. h \<noteq> g \<and> xs ! h = x) \<and> P x" for x
    using m [of x] assms(2) by auto
  then show ?thesis by (auto simp: set_list_update [OF assms(1)])
qed

lemma call_ok_mono: "call_ok C V w c \<Longrightarrow> V \<subseteq> V' \<Longrightarrow> call_ok C V' w c"
  by (auto simp: call_ok_def split: stage.splits)

lemma ballot_ok_mono: "ballot_ok V w i \<Longrightarrow> V \<subseteq> V' \<Longrightarrow> ballot_ok V' w i"
  by (auto simp: ballot_ok_def)

lemma elected_ok_mono: "elected_ok C V w \<Longrightarrow> V \<subseteq> V' \<Longrightarrow> elected_ok C V' w"
  using mj.chosen_mono by (fastforce simp: elected_ok_def)

lemma set_stage_fields [simp]:
  "srv (set_stage g st w) = srv w" "inv (set_stage g st w) = inv w" "rounds (set_stage g st w) = rounds w"
  "votes (set_stage g st w) = votes w" "elected (set_stage g st w) = elected w"
  "calls (set_stage g st w) = (calls w)[g := (calls w ! g)\<lparr>vc_stage := st\<rparr>]"
  by (simp_all add: set_stage_def)

lemma set_stage_ok [simp]:
  "servers_ok C (set_stage g st w) = servers_ok C w" "votes_ok C V (set_stage g st w) = votes_ok C V w"
  "elected_ok C V (set_stage g st w) = elected_ok C V w"
  by (simp_all add: servers_ok_def votes_ok_def elected_ok_def)

lemma ballot_ok_granted: "granted (set_stage g st w) i = granted w i \<Longrightarrow> ballot_ok V (set_stage g st w) i = ballot_ok V w i"
  by (simp add: ballot_ok_def)

lemma calls_ok_stage:
  assumes ok: "call_ok C V' w ((calls w ! g)\<lparr>vc_stage := st\<rparr>)" and "calls_ok C V w" and "g < length (calls w)" and "V \<subseteq> V'"
    and key: "call_round w ((calls w ! g)\<lparr>vc_stage := st\<rparr>) = call_round w (calls w ! g)"
  shows "calls_ok C V' (set_stage g st w)"
proof -
  define c where c: "c = (calls w ! g)\<lparr>vc_stage := st\<rparr>"
  have k: "call_key (set_stage g st w) = call_key w" by (rule ext) (simp add: call_key_def call_round_def split: stage.split)
  have o: "call_ok C V' (set_stage g st w) = call_ok C V' w"
    by (rule ext) (simp add: call_ok_def call_round_def split: stage.split)
  have "map (call_key w) ((calls w)[g := c]) = map (call_key w) (calls w)"
    using key assms(3) c by (simp add: map_update call_key_def list_update_same_conv)
  moreover have "\<forall>x \<in> set ((calls w)[g := c]). call_ok C V' w x"
  proof
    fix x assume "x \<in> set ((calls w)[g := c])"
    then have "x = c \<or> x \<in> set (calls w)" using set_update_subset_insert [of "calls w" g c] by blast
    then show "call_ok C V' w x" using assms(2,4) ok c call_ok_mono unfolding calls_ok_def by blast
  qed
  ultimately show ?thesis using assms(2) by (simp add: calls_ok_def k o c)
qed

lemma granted_stage:
  assumes "g < length (calls w)" and "\<forall>r b. vc_stage (calls w ! g) \<noteq> Received r b"
  shows "granted (set_stage g st w) i =
    (if vc_from (calls w ! g) = i \<and> vc_inv (calls w ! g) = inv w i \<and> st = Received (rounds w i (inv w i)) True
     then insert (vc_to (calls w ! g)) (granted w i) else granted w i)"
  using assms(2) unfolding granted_def set_stage_fields
  by (subst image_update [OF assms(1)]) auto

lemma votes_ok_cast:
  assumes "votes_ok C V w" and "v \<in> set C" and "votedFor (srv w v) = c" and "c \<noteq> []"
  shows "votes_ok C (insert (v, currentTerm (srv w v), c) V) w"
proof
  fix u T a b
  assume "(u, T, a) \<in> insert (v, currentTerm (srv w v), c) V" "(u, T, b) \<in> insert (v, currentTerm (srv w v), c) V"
  then show "a = b" using assms unfolding votes_ok_def by blast
qed (use assms in \<open>unfold votes_ok_def, blast\<close>)

lemma election_inv_run_call:
  assumes inv: "election_inv C V w" and g: "g < length (calls w)" and sp: "vc_stage (calls w ! g) = Spawned"
  shows "election_inv C V (run_call g w)"
proof -
  let ?c = "calls w ! g" and ?r = "rounds w (vc_from (calls w ! g)) (vc_inv (calls w ! g))"
  obtain li lt where cap: "captured w (vc_from ?c) (vc_inv ?c) = (li, lt)" by fastforce
  obtain req where st: "run_call g w = set_stage g (Sent req ?r) w" "rv_CandidateName req = sname (srv w (vc_from ?c))"
    by (rule that [of "newRequestVoteRequest (currentTerm (srv w (vc_from ?c))) (sname (srv w (vc_from ?c))) li lt"])
      (simp_all add: run_call_def newRequestVoteRequest_def cap Let_def)
  have c: "call_ok C V w ?c" using inv g by (simp add: election_inv_def calls_ok_def)
  then have "sname (srv w (vc_from ?c)) = vc_from ?c"
    using inv by (simp add: election_inv_def servers_ok_def member_ok_def call_ok_def)
  then have "call_ok C V w (?c\<lparr>vc_stage := Sent req ?r\<rparr>)" using c st(2) by (simp add: call_ok_def call_round_def)
  then have "calls_ok C V (set_stage g (Sent req ?r) w)"
    by (rule calls_ok_stage [where V = V]) (use inv g sp in \<open>simp_all add: election_inv_def call_round_def\<close>)
  moreover have "granted (set_stage g (Sent req ?r) w) i = granted w i" for i using granted_stage [OF g] sp by simp
  ultimately show ?thesis using inv unfolding st(1) by (simp add: election_inv_def ballot_ok_granted)
qed

lemma put_fields [simp]:
  "srv (put i s w) = (srv w)(i := s)" "calls (put i s w) = calls w" "inv (put i s w) = inv w" "rounds (put i s w) = rounds w"
  "votes (put i s w) = votes w" "elected (put i s w) = elected w" "captured (put i s w) = captured w"
  "appends (put i s w) = appends w" "answers (put i s w) = answers w" "inbox (put i s w) = inbox w"
  by (simp_all add: put_def)

lemma put_exit_put: "\<exists>s'. put_exit i s w = put i s' w \<and> (vote_move s0 s \<longrightarrow> vote_move s0 s') \<and> log s' = log s \<and> votedFor s' = votedFor s \<and>
    currentTerm s' = currentTerm s \<and> state s' = state s \<and> (state s = Leader \<longrightarrow> s' = s)"
  using vote_move_leader_exit [of s0 s]
  by (intro exI [of _ "if state (srv w i) = Leader then leader_exit s else s"]) (auto simp: put_exit_def leader_exit_def)

lemma granted_put [simp]: "granted (put i s w) = granted w"
  by (rule ext) (simp add: granted_def)

lemma election_inv_put: "election_inv C V w \<Longrightarrow> vote_move (srv w j) s' \<Longrightarrow> election_inv C V (put j s' w)"
  by (rule election_inv_move) (simp_all add: same_votes_def)

lemma election_inv_answer:
  assumes inv: "election_inv C V w" and g: "g < length (calls w)" and sent: "vc_stage (calls w ! g) = Sent req r"
  shows "\<exists>w' V'. answer_vote g req r w = Some w' \<and> V \<subseteq> V' \<and> election_inv C V' w'"
proof -
  let ?c = "calls w ! g"
  define j where "j = vc_to ?c"
  obtain resp b s where p: "processRequestVoteRequest req (srv w j) = Some ((resp, b), s)" "vote_move (srv w j) s"
    "rvr_VoteGranted resp \<longrightarrow> votedFor s = rv_CandidateName req \<and> rvr_Term resp = currentTerm s"
    using processVote_spec [of req "srv w j"] by blast
  obtain s' where s': "put_exit j s w = put j s' w" "vote_move (srv w j) s'" "votedFor s' = votedFor s" "currentTerm s' = currentTerm s"
    using put_exit_put [of j s w "srv w j"] p(2) by blast
  define w1 where "w1 = put j s' w"
  have i1: "election_inv C V w1" unfolding w1_def by (rule election_inv_put [OF inv s'(2)])
  have c: "call_ok C V w1 ?c" using i1 g by (simp add: election_inv_def calls_ok_def w1_def)
  have fc: "rv_CandidateName req = vc_from ?c" "vc_from ?c \<in> set C" "j \<in> set C" using c sent by (auto simp: call_ok_def j_def)
  have ne: "vc_from ?c \<noteq> []" using inv fc by (auto simp: election_inv_def servers_ok_def)
  define V' where "V' = (if rvr_VoteGranted resp then insert (j, rvr_Term resp, vc_from ?c) V else V)"
  have sub: "V \<subseteq> V'" by (auto simp: V'_def)
  have v': "votes_ok C V' w1"
    using i1 votes_ok_cast [of C V w1 j "vc_from ?c"] fc ne p(3) s'(3,4) by (simp add: V'_def election_inv_def w1_def)
  have cw: "calls w1 = calls w" by (simp add: w1_def)
  have "call_ok C V' w1 ((calls w1 ! g)\<lparr>vc_stage := Answered resp r\<rparr>)" unfolding cw
    using call_ok_mono [OF c sub] sent by (simp add: call_ok_def call_round_def V'_def j_def)
  then have "calls_ok C V' (set_stage g (Answered resp r) w1)"
    by (rule calls_ok_stage [where V = V]) (use i1 g sent sub in \<open>simp_all add: election_inv_def call_round_def cw\<close>)
  moreover have "granted (set_stage g (Answered resp r) w1) i = granted w1 i" for i
    using granted_stage [of g w1] g sent by (simp add: w1_def)
  moreover have "\<forall>i \<in> set C. ballot_ok V' w1 i" "elected_ok C V' w1"
    using i1 ballot_ok_mono [of V w1, OF _ sub] elected_ok_mono [of C V w1, OF _ sub] by (auto simp: election_inv_def)
  ultimately have "election_inv C V' (set_stage g (Answered resp r) w1)"
    using i1 v' by (simp add: election_inv_def ballot_ok_granted)
  moreover have "answer_vote g req r w = Some (set_stage g (Answered resp r) w1)"
    using p(1) s'(1) by (simp add: answer_vote_def j_def w1_def)
  ultimately show ?thesis using sub by blast
qed

section \<open>Steps of a candidate\<close>

lemma become_leader_fields [simp]:
  "sname (become_leader s) = sname s" "currentTerm (become_leader s) = currentTerm s" "votedFor (become_leader s) = votedFor s"
  "state (become_leader s) = Leader" "log (become_leader s) = log s" "map fst (peers (become_leader s)) = map fst (peers s)"
  "syncedPeer (become_leader s) = Some []"
  by (simp_all add: become_leader_def leader_enter_def setState_def Let_def case_prod_beta o_def)

lemma granted_members:
  assumes "calls_ok C V w"
  shows "granted w i \<subseteq> set C - {i}" and "finite (granted w i)"
proof -
  show "granted w i \<subseteq> set C - {i}" using assms by (auto simp: granted_def calls_ok_def call_ok_def)
  then show "finite (granted w i)" by (rule finite_subset) simp
qed

lemma election_inv_check:
  assumes inv: "election_inv C V w" and i: "i \<in> set C"
  shows "election_inv C V (check_votes i w)"
proof (cases "state (srv w i) = Candidate \<and> enough_votes (votes w i) (srv w i)")
  case True
  let ?s = "become_leader (srv w i)" and ?Q = "insert i (granted w i)"
  let ?w = "(put i ?s w)\<lparr>elected := elected w @ [(i, currentTerm (srv w i))]\<rparr>"
  have m: "member_ok C i (srv w i)" and b: "ballot_ok V w i" and c: "calls_ok C V w" and e: "elected_ok C V w"
    using inv i by (simp_all add: election_inv_def servers_ok_def)
  have "i \<notin> granted w i" using granted_members(1) [OF c, of i] by blast
  then have "card ?Q = QuorumSize (srv w i)"
    using granted_members(2) [OF c, of i] b True by (simp add: ballot_ok_def enough_votes_def)
  then have "majority C ?Q"
    using QuorumSize_majority [of "srv w i" C i ?Q] m i granted_members(1) [OF c, of i] by (auto simp: member_ok_def)
  then have "mj.chosen C V (currentTerm (srv w i)) i" using b True unfolding mj.chosen_def ballot_ok_def by blast
  then have "elected_ok C V ?w" using e i by (auto simp: elected_ok_def)
  moreover have "servers_ok C ?w" using inv m by (auto simp: election_inv_def servers_ok_def member_ok_def simp del: set_map)
  moreover have "votes_ok C V ?w" using inv by (auto simp: election_inv_def votes_ok_def)
  moreover have "calls_ok C V ?w" using c calls_ok_eq [of ?w w] by simp
  moreover have "granted ?w = granted w" by (rule ext) (simp add: granted_def)
  then have "\<forall>j \<in> set C. ballot_ok V ?w j" using inv by (simp add: election_inv_def ballot_ok_def)
  ultimately have "election_inv C V ?w" by (simp add: election_inv_def)
  then show ?thesis using True by (simp add: check_votes_def)
next
  case False
  then have "check_votes i w = w" by (auto simp: check_votes_def)
  then show ?thesis using inv by simp
qed

lemma election_inv_receive:
  assumes inv: "election_inv C V w" and g: "g < length (calls w)" and ans: "vc_stage (calls w ! g) = Answered resp r"
    and cur: "vc_inv (calls w ! g) = inv w (vc_from (calls w ! g))" "r = rounds w (vc_from (calls w ! g)) (vc_inv (calls w ! g))"
  shows "\<exists>w'. receive_vote g resp r w = Some w' \<and> election_inv C V w'"
proof -
  let ?c = "calls w ! g"
  define i where "i = vc_from ?c"
  have c: "call_ok C V w ?c" and d: "distinct (map (call_key w) (calls w))" using inv g by (simp_all add: election_inv_def calls_ok_def)
  obtain ok s where p: "processVoteResponse resp (srv w i) = Some (ok, s)" "vote_move (srv w i) s"
    "ok \<longrightarrow> rvr_VoteGranted resp \<and> rvr_Term resp = currentTerm (srv w i) \<and> s = srv w i"
    using processVoteResponse_spec [of resp "srv w i"] by blast
  define w1 where "w1 = put i s w"
  define w2 where "w2 = (set_stage g (Received r ok) w1)\<lparr>votes := (votes w)(i := (if ok then votes w i + 1 else votes w i))\<rparr>"
  have i1: "election_inv C V w1" unfolding w1_def by (rule election_inv_put [OF inv p(2)])
  have new: "vc_to ?c \<notin> granted w i"
  proof
    assume "vc_to ?c \<in> granted w i"
    then obtain h where h: "h < length (calls w)" "vc_to (calls w ! h) = vc_to ?c" "vc_from (calls w ! h) = i"
      "vc_inv (calls w ! h) = inv w i" "vc_stage (calls w ! h) = Received (rounds w i (inv w i)) True"
      by (auto simp: granted_def in_set_conv_nth)
    then have "call_key w (calls w ! h) = call_key w ?c"
      using ans cur by (simp add: call_key_def call_round_def i_def)
    then have "h = g" using d h(1) g by (simp add: distinct_conv_nth) metis
    then show False using h(5) ans by simp
  qed
  have cw: "calls w1 = calls w" by (simp add: w1_def)
  have st: "granted (set_stage g (Received r ok) w1) j = (if j = i \<and> ok then insert (vc_to ?c) (granted w j) else granted w j)" for j
    using granted_stage [of g w1 "Received r ok" j] g ans cur by (simp add: w1_def i_def)
  have gr: "granted w2 = granted (set_stage g (Received r ok) w1)" by (rule ext) (simp add: granted_def w2_def)
  have "call_ok C V w1 ((calls w1 ! g)\<lparr>vc_stage := Received r ok\<rparr>)"
    using c cur by (simp add: cw call_ok_def call_round_def w1_def)
  then have "calls_ok C V (set_stage g (Received r ok) w1)"
    by (rule calls_ok_stage [where V = V]) (use i1 g ans in \<open>simp_all add: election_inv_def call_round_def cw\<close>)
  then have "calls_ok C V w2"
    using calls_ok_eq [of w2 "set_stage g (Received r ok) w1"] by (simp add: w2_def)
  moreover have "servers_ok C w2" "votes_ok C V w2" "elected_ok C V w2"
    using i1 by (simp_all add: election_inv_def w2_def servers_ok_def votes_ok_def elected_ok_def)
  moreover have "ballot_ok V w2 j" if "j \<in> set C" for j
  proof (cases "j = i \<and> ok")
    case False
    then have "granted w2 j = granted w j" unfolding gr st by auto
    moreover have "votes w2 j = votes w j" "srv w2 = srv w1" using False by (auto simp: w2_def w1_def)
    ultimately show ?thesis using i1 that by (simp add: election_inv_def ballot_ok_def w1_def)
  next
    case True
    then have b: "ballot_ok V w i" and s: "s = srv w i" using inv that p(3) by (simp_all add: election_inv_def)
    have gi: "granted w2 i = insert (vc_to ?c) (granted w i)" using True st [of i] by (simp add: gr)
    have v: "(vc_to ?c, currentTerm (srv w i), i) \<in> V" using c ans p(3) True by (simp add: call_ok_def i_def)
    have "finite (granted w i)" using inv granted_members(2) unfolding election_inv_def by blast
    then have "card (granted w2 i) = card (granted w i) + 1" using new by (simp add: gi)
    moreover have "votes w2 i = votes w i + 1" "srv w2 i = srv w i" using True s by (simp_all add: w2_def w1_def)
    ultimately show ?thesis using b v True by (auto simp: ballot_ok_def gi)
  qed
  ultimately have "election_inv C V w2" by (simp add: election_inv_def)
  moreover have "i \<in> set C" using c by (simp add: call_ok_def i_def)
  ultimately have "election_inv C V (check_votes i w2)" by (rule election_inv_check)
  moreover have "receive_vote g resp r w = Some (check_votes i w2)"
    using p(1) by (simp add: receive_vote_def i_def w2_def w1_def Let_def)
  ultimately show ?thesis by blast
qed

text \<open>A new round, on a channel that no call has.\<close>

definition fresh_round :: "('r, 'm) net \<Rightarrow> string \<Rightarrow> bool" where
  "fresh_round w i \<longleftrightarrow> (\<forall>c \<in> set (calls w). vc_from c = i \<longrightarrow> vc_inv c = inv w i \<longrightarrow> call_round w c < rounds w i (inv w i))"

lemma election_inv_round:
  assumes so: "servers_ok C w" and vo: "votes_ok C V w" and co: "calls_ok C V w" and eo: "elected_ok C V w"
    and bo: "\<forall>j \<in> set C - {i}. ballot_ok V w j" and i: "i \<in> set C" and f: "fresh_round w i"
    and room: "unat (currentTerm (srv w i)) < 2 ^ 64 - 1"
  shows "\<exists>V'. V \<subseteq> V' \<and> election_inv C V' (start_round i w)"
proof -
  define s where "s = vote_round (srv w i)"
  define w1 where "w1 = (put i s w)\<lparr>votes := (votes w)(i := 1)\<rparr>"
  define w2 where "w2 = w1\<lparr>calls := calls w @ spawn i w1\<rparr>"
  define V' where "V' = insert (i, currentTerm s, i) V"
  have m: "member_ok C i (srv w i)" and ne: "i \<noteq> []" using so i by (auto simp: servers_ok_def)
  have t: "currentTerm (srv w i) < currentTerm s"
    using room by (simp add: s_def vote_round_def word_less_nat_alt unat_word_ariths)
  have sf: "sname s = i" "votedFor s = i" "peers s = peers (srv w i)" "state s = state (srv w i)"
    using m by (simp_all add: s_def vote_round_def member_ok_def)
  have sub: "V \<subseteq> V'" by (auto simp: V'_def)
  have "servers_ok C w2" using so sf by (auto simp: servers_ok_def w2_def w1_def member_ok_def simp del: set_map)
  moreover have "votes_ok C V w2" using vo t by (fastforce simp: votes_ok_def w2_def w1_def)
  then have "votes_ok C V' w2" using votes_ok_cast [of C V w2 i i] i sf(2) ne by (simp add: w2_def w1_def V'_def)
  moreover have "elected_ok C V' w2" using elected_ok_mono [OF eo sub] by (simp add: elected_ok_def w2_def w1_def)
  moreover have "calls_ok C V' w2"
  proof -
    have r: "inv w2 = inv w" "rounds w2 = rounds w" "calls w2 = calls w @ spawn i w1" by (simp_all add: w2_def w1_def)
    have k: "call_key w2 = call_key w" by (rule ext) (simp add: r call_key_def call_round_def split: stage.split)
    have o: "call_ok C V' w2 = call_ok C V' w" by (rule ext) (simp add: r call_ok_def call_round_def split: stage.split)
    have sp: "map (call_key w) (spawn i w1) = map (\<lambda>j. (i, inv w i, rounds w i (inv w i), j)) (map fst (peers s))"
      by (simp add: spawn_def call_key_def call_round_def w1_def)
    have "distinct (map (call_key w) (spawn i w1))"
      unfolding sp using m sf(3) by (simp add: member_ok_def distinct_map inj_on_def del: map_map)
    moreover have "set (map (call_key w) (calls w)) \<inter> set (map (call_key w) (spawn i w1)) = {}"
      unfolding sp using f by (auto simp: fresh_round_def call_key_def)
    moreover have "\<forall>c \<in> set (spawn i w1). call_ok C V' w c"
      using m sf(3) i by (auto simp: spawn_def call_ok_def call_round_def w1_def member_ok_def)
    ultimately show ?thesis using co call_ok_mono [of C V w, OF _ sub] by (auto simp: calls_ok_def k o r(3) simp del: set_map)
  qed
  moreover have "ballot_ok V' w2 j" if "j \<in> set C" for j
  proof (cases "j = i")
    case True
    have nr: "call_round w c \<noteq> rounds w i (inv w i)" if "c \<in> set (calls w)" "vc_from c = i" "vc_inv c = inv w i" for c
      using f [unfolded fresh_round_def, rule_format, OF that] by simp
    have sps: "c \<in> set (spawn i w1) \<Longrightarrow> vc_stage c = Spawned" for c by (auto simp: spawn_def)
    have "vc_stage c \<noteq> Received (rounds w i (inv w i)) True"
      if "c \<in> set (calls w) \<or> c \<in> set (spawn i w1)" "vc_from c = i" "vc_inv c = inv w i" for c
    proof (cases "c \<in> set (calls w)")
      case True
      show ?thesis using nr [OF True that(2,3)] by (auto simp: call_round_def)
    next
      case False
      then have "vc_stage c = Spawned" using that(1) sps by blast
      then show ?thesis by simp
    qed
    then have "granted w2 i = {}" unfolding granted_def w2_def w1_def by auto
    then show ?thesis using True by (simp add: ballot_ok_def w2_def w1_def V'_def)
  next
    case False
    have "granted w2 j = granted w j" using False by (auto simp: granted_def w2_def w1_def spawn_def)
    then show ?thesis using False bo that ballot_ok_mono [of V w2 j, OF _ sub] by (simp add: ballot_ok_def w2_def w1_def)
  qed
  ultimately have "election_inv C V' w2" by (simp add: election_inv_def)
  then have "election_inv C V' (check_votes i w2)" using i by (rule election_inv_check)
  then show ?thesis using sub by (auto simp: start_round_def Let_def w2_def w1_def s_def)
qed

lemma roomyD: "roomy C w \<Longrightarrow> i \<in> set C \<Longrightarrow> unat (currentTerm (srv w i)) < 2 ^ 64 - 1 \<and> length (entries (log (srv w i))) < 2 ^ 64 - 2"
  by (auto simp: roomy_def list_all_iff word_less_nat_alt unsigned_minus_1_eq_mask mask_eq_exp_minus_1)

lemma timeout_idle: "\<not> (state (srv w i) = Follower \<and> promotable (srv w i)) \<Longrightarrow> state (srv w i) \<noteq> Candidate \<Longrightarrow> election_timeout i w = w"
  by (auto simp: election_timeout_def Let_def)

lemma election_inv_timeout:
  assumes inv: "election_inv C V w" and i: "i \<in> set C" and calm: "calm (Election_timeout i) w" and room: "roomy C w"
  shows "\<exists>V'. V \<subseteq> V' \<and> election_inv C V' (election_timeout i w)"
proof -
  let ?s = "srv w i"
  have sp: "vc_stage c \<noteq> Spawned" if "c \<in> set (calls w)" "vc_from c = i" for c
    using calm that by (auto simp: calm_def acts_on_def list_all_iff)
  have co: "call_ok C V w c" if "c \<in> set (calls w)" for c using inv that by (simp add: election_inv_def calls_ok_def)
  consider "state ?s = Follower" "promotable ?s" | "state ?s = Candidate" | "election_timeout i w = w"
    using timeout_idle by blast
  then show ?thesis
  proof cases
    case 1
    define s1 where "s1 = candidate_enter (setState Candidate ?s)"
    define w1 where "w1 = (put i s1 w)\<lparr>inv := (inv w)(i := inv w i + 1), rounds := (rounds w)(i := (rounds w i)(inv w i + 1 := 0)),
       captured := (captured w)(i := (captured w i)(inv w i + 1 := lastInfo (log s1)))\<rparr>"
    have e: "election_timeout i w = start_round i w1" using 1 by (simp add: election_timeout_def w1_def s1_def Let_def)
    have s1: "sname s1 = sname ?s" "peers s1 = peers ?s" "currentTerm s1 = currentTerm ?s" "votedFor s1 = votedFor ?s" "state s1 = Candidate"
      by (simp_all add: s1_def candidate_enter_def setState_def Let_def)
    have so: "servers_ok C w1" using inv s1 by (auto simp: election_inv_def servers_ok_def member_ok_def w1_def simp del: set_map)
    have vo: "votes_ok C V w1" using inv s1 by (fastforce simp: election_inv_def votes_ok_def w1_def)
    have eo: "elected_ok C V w1" using inv by (simp add: election_inv_def elected_ok_def w1_def)
    have k: "call_round w1 c = call_round w c" "call_ok C V w1 c" if "c \<in> set (calls w)" for c
    proof -
      have ne: "vc_from c = i \<Longrightarrow> vc_inv c \<noteq> inv w i + 1" using co [OF that] by (auto simp: call_ok_def)
      then show r: "call_round w1 c = call_round w c" by (auto simp: call_round_def w1_def split: stage.split)
      show "call_ok C V w1 c" using co [OF that] ne unfolding call_ok_def r by (auto simp: w1_def split: stage.split)
    qed
    have cw: "calls w1 = calls w" by (simp add: w1_def)
    have c1: "calls_ok C V w1" using calls_ok_frame [OF cw] k inv by (simp add: election_inv_def)
    have "fresh_round w1 i" using co by (force simp: fresh_round_def call_ok_def w1_def)
    moreover have "ballot_ok V w1 j" if "j \<in> set C - {i}" for j
      using inv that by (auto simp: election_inv_def ballot_ok_def granted_def w1_def)
    ultimately show ?thesis using election_inv_round [OF so vo c1 eo _ i] roomyD [OF room i] s1(3) unfolding e by (auto simp: w1_def)
  next
    case 2
    define w1 where "w1 = w\<lparr>rounds := (rounds w)(i := (rounds w i)(inv w i := rounds w i (inv w i) + 1))\<rparr>"
    have e: "election_timeout i w = start_round i w1" using 2 by (simp add: election_timeout_def w1_def)
    have k: "call_round w1 c = call_round w c" "call_ok C V w1 c" if "c \<in> set (calls w)" for c
    proof -
      show r: "call_round w1 c = call_round w c" using sp [OF that] by (auto simp: call_round_def w1_def split: stage.split)
      show "call_ok C V w1 c" using co [OF that] unfolding call_ok_def r by (auto simp: w1_def split: stage.split)
    qed
    have cw: "calls w1 = calls w" by (simp add: w1_def)
    have c1: "calls_ok C V w1" using calls_ok_frame [OF cw] k inv by (simp add: election_inv_def)
    have "fresh_round w1 i" unfolding fresh_round_def
    proof (intro ballI impI)
      fix c assume c: "c \<in> set (calls w1)" "vc_from c = i" "vc_inv c = inv w1 i"
      then show "call_round w1 c < rounds w1 i (inv w1 i)" using k(1) [of c] co [of c] by (simp add: cw call_ok_def w1_def)
    qed
    moreover have "ballot_ok V w1 j" if "j \<in> set C - {i}" for j
      using inv that by (auto simp: election_inv_def ballot_ok_def granted_def w1_def)
    moreover have "servers_ok C w1" "votes_ok C V w1" "elected_ok C V w1"
      using inv by (simp_all add: election_inv_def servers_ok_def votes_ok_def elected_ok_def w1_def)
    ultimately show ?thesis using election_inv_round [of C w1 V i] c1 i roomyD [OF room i] unfolding e by (auto simp: w1_def)
  next
    case 3
    then show ?thesis using inv by auto
  qed
qed

end
