(* ===== verification/RaftMatching.thy ===== *)
theory RaftMatching
  imports RaftElection
begin

text \<open>
  Logs: each term that had a leader has a chain, the log of that leader, which only grows; each log
  agrees with the chain of the term of any of its entries up to that entry, and the entries of an
  append request are a piece of the chain of its term.
\<close>

section \<open>Chains\<close>

type_synonym chains = "u64 \<Rightarrow> entry_pb list"

definition known :: "u64 \<Rightarrow> ('r, 'm) net \<Rightarrow> u64 \<Rightarrow> bool" where
  "known t0 w T \<longleftrightarrow> T \<le> t0 \<or> T \<in> snd ` set (elected w)"

definition on_chains :: "(u64 \<Rightarrow> bool) \<Rightarrow> chains \<Rightarrow> entry_pb list \<Rightarrow> bool" where
  "on_chains K Cn L \<longleftrightarrow> indexed 0 L \<and> length L < 2 ^ 64 - 1 \<and>
     (\<forall>k < length L. K (pb_Term (L ! k)) \<and> take (k + 1) L = take (k + 1) (Cn (pb_Term (L ! k))))"

definition extends :: "(u64 \<Rightarrow> bool) \<Rightarrow> chains \<Rightarrow> (u64 \<Rightarrow> bool) \<Rightarrow> chains \<Rightarrow> bool" where
  "extends K Cn K' Cn' \<longleftrightarrow> (\<forall>T. K T \<longrightarrow> K' T \<and> (\<exists>x. Cn' T = Cn T @ x))"

lemma extends_refl [simp]: "extends K Cn K Cn"
  by (simp add: extends_def)

lemma on_chains_extends:
  assumes "on_chains K Cn L" and "extends K Cn K' Cn'"
  shows "on_chains K' Cn' L"
proof -
  have "K' (pb_Term (L ! k)) \<and> take (k + 1) L = take (k + 1) (Cn' (pb_Term (L ! k)))" if k: "k < length L" for k
  proof -
    have a: "K (pb_Term (L ! k))" "take (k + 1) L = take (k + 1) (Cn (pb_Term (L ! k)))"
      using assms(1) k unfolding on_chains_def by blast+
    then obtain x where x: "K' (pb_Term (L ! k))" "Cn' (pb_Term (L ! k)) = Cn (pb_Term (L ! k)) @ x"
      using assms(2) unfolding extends_def by blast
    have "length (take (k + 1) (Cn (pb_Term (L ! k)))) = k + 1" using k unfolding a(2) [symmetric] by simp
    then show ?thesis using a(2) x by simp
  qed
  then show ?thesis using assms(1) by (simp add: on_chains_def)
qed

lemma on_chains_take: "on_chains K Cn L \<Longrightarrow> on_chains K Cn (take n L)"
proof -
  assume g: "on_chains K Cn L"
  have "K (pb_Term (take n L ! k)) \<and> take (k + 1) (take n L) = take (k + 1) (Cn (pb_Term (take n L ! k)))" if k: "k < length (take n L)" for k
  proof -
    have "k < n" "k < length L" using k by simp_all
    then have "take (k + 1) (take n L) = take (k + 1) L" "take n L ! k = L ! k" "k < length L" by (simp_all add: min_def)
    then show ?thesis using g by (simp add: on_chains_def)
  qed
  then show ?thesis using g by (auto simp: on_chains_def indexed_take)
qed

text \<open>Two logs that have the same term at an index are the same up to it.\<close>

lemma on_chains_agree:
  assumes "on_chains K Cn L" and "on_chains K Cn M" and "k < length L" and "k < length M" and "pb_Term (L ! k) = pb_Term (M ! k)"
  shows "take (k + 1) L = take (k + 1) M"
  using assms unfolding on_chains_def by metis

lemma on_chains_snoc:
  assumes g: "on_chains K Cn (Cn T)" and "K T" and p: "pb_Term p = T" "pb_Index p = of_nat (length (Cn T) + 1)"
    and room: "length (Cn T) < 2 ^ 64 - 2"
  shows "on_chains K (Cn(T := Cn T @ [p])) (Cn T @ [p])" and "extends K Cn K (Cn(T := Cn T @ [p]))"
proof -
  show e: "extends K Cn K (Cn(T := Cn T @ [p]))" by (simp add: extends_def)
  have "on_chains K (Cn(T := Cn T @ [p])) (Cn T)" by (rule on_chains_extends [OF g e])
  then have a: "K (pb_Term (Cn T ! k)) \<and> take (k + 1) (Cn T) = take (k + 1) ((Cn(T := Cn T @ [p])) (pb_Term (Cn T ! k)))"
    if "k < length (Cn T)" for k using that unfolding on_chains_def by blast
  have "K (pb_Term ((Cn T @ [p]) ! k)) \<and>
      take (k + 1) (Cn T @ [p]) = take (k + 1) ((Cn(T := Cn T @ [p])) (pb_Term ((Cn T @ [p]) ! k)))" if k: "k < length (Cn T @ [p])" for k
  proof (cases "k < length (Cn T)")
    case True
    then have "(Cn T @ [p]) ! k = Cn T ! k" "take (k + 1) (Cn T @ [p]) = take (k + 1) (Cn T)" by (simp_all add: nth_append)
    then show ?thesis using a [OF True] by metis
  next
    case False
    then have "k = length (Cn T)" using k by simp
    then show ?thesis using p(1) \<open>K T\<close> by simp
  qed
  moreover have "indexed 0 (Cn T @ [p])"
    using g p(2) by (simp add: on_chains_def indexed_append) (simp add: indexed_def)
  ultimately show "on_chains K (Cn(T := Cn T @ [p])) (Cn T @ [p])" using room by (simp add: on_chains_def)
qed

section \<open>The invariant\<close>

text \<open>An append request from \<open>i\<close> to \<open>j\<close>.\<close>

definition request_ok :: "string list \<Rightarrow> chains \<Rightarrow> ('r, 'm) net \<Rightarrow> string \<Rightarrow> string \<Rightarrow> AppendEntriesRequest \<Rightarrow> bool" where
  "request_ok C Cn w i j req \<longleftrightarrow> i \<in> set C \<and> j \<in> set C \<and> i \<noteq> j \<and> (i, ae_Term req) \<in> set (elected w) \<and>
     (\<exists>a b. Cn (ae_Term req) = a @ ae_Entries req @ b \<and> length a = unat (ae_PrevLogIndex req) \<and>
        (a \<noteq> [] \<longrightarrow> pb_Term (last a) = ae_PrevLogTerm req))"

definition messages_ok :: "string list \<Rightarrow> chains \<Rightarrow> ('r, 'm) net \<Rightarrow> bool" where
  "messages_ok C Cn w \<longleftrightarrow> (\<forall>i j req. (i, j, req) \<in> set (appends w) \<longrightarrow> request_ok C Cn w i j req) \<and>
     fst ` set (answers w) \<subseteq> set C \<and> fst ` set (inbox w) \<subseteq> set C"

definition log_of_ok :: "u64 \<Rightarrow> chains \<Rightarrow> ('r, 'm) net \<Rightarrow> string \<Rightarrow> ('r, 'm) server \<Rightarrow> bool" where
  "log_of_ok t0 Cn w i s \<longleftrightarrow> log_ok (log s) \<and> startIndex (log s) = 0 \<and> log_file (log s) \<noteq> None \<and>
     on_chains (known t0 w) Cn (pbs (log s)) \<and> t0 \<le> currentTerm s \<and> (state s = Candidate \<longrightarrow> t0 < currentTerm s) \<and>
     (state s = Leader \<longrightarrow> (i, currentTerm s) \<in> set (elected w) \<and> syncedPeer s \<noteq> None \<and> pbs (log s) = Cn (currentTerm s))"

definition reign_ok :: "u64 \<Rightarrow> ('r, 'm) net \<Rightarrow> bool" where
  "reign_ok t0 w \<longleftrightarrow> (\<forall>i T. (i, T) \<in> set (elected w) \<longrightarrow>
     t0 < T \<and> T \<le> currentTerm (srv w i) \<and> (T = currentTerm (srv w i) \<longrightarrow> state (srv w i) \<noteq> Candidate))"

definition log_inv :: "string list \<Rightarrow> u64 \<Rightarrow> chains \<Rightarrow> ('r, 'm) net \<Rightarrow> bool" where
  "log_inv C t0 Cn w \<longleftrightarrow> (\<forall>i \<in> set C. log_of_ok t0 Cn w i (srv w i)) \<and> (\<forall>T. known t0 w T \<longrightarrow> on_chains (known t0 w) Cn (Cn T)) \<and>
     reign_ok t0 w \<and> messages_ok C Cn w"

definition raft_inv :: "string list \<Rightarrow> u64 \<Rightarrow> ('r, 'm) net \<Rightarrow> bool" where
  "raft_inv C t0 w \<longleftrightarrow> (\<exists>V Cn. election_inv C V w \<and> log_inv C t0 Cn w)"

lemma request_ok_extends:
  assumes "request_ok C Cn w i j req" and "extends (known t0 w) Cn K' Cn'" and "set (elected w) \<subseteq> set (elected w')"
  shows "request_ok C Cn' w' i j req"
proof -
  obtain a b where ab: "Cn (ae_Term req) = a @ ae_Entries req @ b" "length a = unat (ae_PrevLogIndex req)"
    "a \<noteq> [] \<longrightarrow> pb_Term (last a) = ae_PrevLogTerm req" using assms(1) unfolding request_ok_def by blast
  have e: "(i, ae_Term req) \<in> set (elected w)" using assms(1) by (simp add: request_ok_def)
  then have "known t0 w (ae_Term req)" by (force simp: known_def)
  then obtain x where "Cn' (ae_Term req) = Cn (ae_Term req) @ x" using assms(2) unfolding extends_def by blast
  then have "Cn' (ae_Term req) = a @ ae_Entries req @ b @ x" using ab(1) by simp
  then show ?thesis using assms(1,3) ab(2,3) unfolding request_ok_def by blast
qed

lemma messages_ok_extends:
  assumes "messages_ok C Cn w" and "extends (known t0 w) Cn K' Cn'" and "set (elected w) \<subseteq> set (elected w')"
    and "appends w' = appends w" and "answers w' = answers w" and "inbox w' = inbox w"
  shows "messages_ok C Cn' w'"
  using assms request_ok_extends [of C Cn w _ _ _ t0 K' Cn' w'] by (simp add: messages_ok_def)

text \<open>What a server's log becomes by an append request.\<close>

lemma log_move_on_chains:
  assumes g: "on_chains K Cn (pbs l)" and c: "on_chains K Cn (Cn (ae_Term req))" and m: "log_move req l l'" and z: "startIndex l = 0"
    and ok: "log_ok l" and ab: "Cn (ae_Term req) = a @ ae_Entries req @ b" "length a = unat (ae_PrevLogIndex req)"
      "a \<noteq> [] \<longrightarrow> pb_Term (last a) = ae_PrevLogTerm req"
  shows "on_chains K Cn (pbs l')"
proof (cases "pbs l' = pbs l")
  case False
  let ?p = "unat (ae_PrevLogIndex req)"
  obtain k where k: "truncate_error (ae_PrevLogIndex req) (ae_PrevLogTerm req) l = None"
    "pbs l' = take ?p (pbs l) @ take k (ae_Entries req)" using m False z by (auto simp: log_move_def)
  have "take ?p (pbs l) = a"
  proof (cases "?p = 0")
    case False
    have le: "?p \<le> length (pbs l)" using k(1) log_ok_end [OF ok] z
      by (auto simp: truncate_error_def word_less_nat_alt split: if_splits)
    have ne: "ae_PrevLogIndex req \<noteq> 0" using False by auto
    have "Term (entries l ! (?p - 1)) = ae_PrevLogTerm req"
      using k(1) z ne by (auto simp: truncate_error_def split: if_splits)
    then have t: "pb_Term (pbs l ! (?p - 1)) = ae_PrevLogTerm req" using le False by (simp add: pbs_def Term_def)
    have "a \<noteq> []" using ab(2) False by auto
    then have "pb_Term (Cn (ae_Term req) ! (?p - 1)) = ae_PrevLogTerm req"
      using ab False by (simp add: nth_append last_conv_nth)
    moreover have "?p - 1 < length (Cn (ae_Term req))" "?p - 1 < length (pbs l)" using ab(1,2) le False by simp_all
    ultimately have "take (?p - 1 + 1) (pbs l) = take (?p - 1 + 1) (Cn (ae_Term req))"
      using on_chains_agree [OF g c] t by simp
    then show ?thesis using ab(1,2) False by simp
  qed (use ab(2) in simp)
  then have "pbs l' = take (?p + min k (length (ae_Entries req))) (Cn (ae_Term req))"
    using k(2) ab(1,2) by (simp add: take_add min_def)
  then show ?thesis using on_chains_take [OF c] by simp
qed (use g in simp)

section \<open>Steps\<close>

text \<open>A server moves, its log among the chains; the leaders keep theirs.\<close>

lemma log_inv_move:
  assumes inv: "log_inv C t0 Cn w" and j: "j \<in> set C" and m: "vote_move (srv w j) s'" and s: "srv w' = (srv w)(j := s')" "elected w' = elected w"
    and l: "log_ok (log s')" "startIndex (log s') = 0" "log_file (log s') \<noteq> None" "on_chains (known t0 w) Cn (pbs (log s'))"
    and lead: "state s' = Leader \<Longrightarrow> syncedPeer s' \<noteq> None \<and> pbs (log s') = pbs (log (srv w j))"
    and msg: "messages_ok C Cn w'"
  shows "log_inv C t0 Cn w'"
proof -
  have k: "known t0 w' = known t0 w" by (rule ext) (simp add: known_def s)
  have o: "log_of_ok t0 Cn w j (srv w j)" using inv j by (simp add: log_inv_def)
  have "log_of_ok t0 Cn w' j s'"
    using o m l lead unfolding log_of_ok_def k s(2) vote_move_def by (auto intro: order_trans less_imp_le)
  moreover have "log_of_ok t0 Cn w' i (srv w i)" if "i \<in> set C" for i
    using inv that by (simp add: log_inv_def log_of_ok_def k s(2))
  moreover have "reign_ok t0 w'" unfolding reign_ok_def s
  proof (intro allI impI)
    fix i T assume "(i, T) \<in> set (elected w)"
    then have "t0 < T \<and> T \<le> currentTerm (srv w i) \<and> (T = currentTerm (srv w i) \<longrightarrow> state (srv w i) \<noteq> Candidate)"
      using inv unfolding log_inv_def reign_ok_def by blast
    moreover have "currentTerm s' = currentTerm (srv w j) \<and> (state s' = Candidate \<longrightarrow> state (srv w j) = Candidate) \<or>
        currentTerm (srv w j) < currentTerm s' \<and> state s' = Follower" using m unfolding vote_move_def by auto
    ultimately show "t0 < T \<and> T \<le> currentTerm (((srv w)(j := s')) i) \<and>
        (T = currentTerm (((srv w)(j := s')) i) \<longrightarrow> state (((srv w)(j := s')) i) \<noteq> Candidate)" by auto
  qed
  ultimately show ?thesis using inv msg s(1) by (simp add: log_inv_def k)
qed

lemma messages_ok_eq:
  assumes "messages_ok C Cn w" and "elected w' = elected w" and "appends w' = appends w" and "answers w' = answers w" and "inbox w' = inbox w"
  shows "messages_ok C Cn w'"
  using assms by (simp add: messages_ok_def request_ok_def)

text \<open>What \<open>log_inv\<close> does not read.\<close>

lemma log_inv_eq:
  assumes "log_inv C t0 Cn w" and "srv w' = srv w" and "elected w' = elected w" and "messages_ok C Cn w'"
  shows "log_inv C t0 Cn w'"
proof -
  have "known t0 w' = known t0 w" by (rule ext) (simp add: known_def assms)
  then show ?thesis using assms by (simp add: log_inv_def log_of_ok_def reign_ok_def)
qed

text \<open>A vote request, a vote, an answer of a peer: the log stays.\<close>

lemma log_inv_quiet:
  assumes inv: "log_inv C t0 Cn w" and j: "j \<in> set C" and m: "vote_move (srv w j) s'" and l: "log s' = log (srv w j)"
    and sy: "state s' = Leader \<Longrightarrow> syncedPeer s' = syncedPeer (srv w j)"
    and s: "srv w' = (srv w)(j := s')" "elected w' = elected w" and msg: "messages_ok C Cn w'"
  shows "log_inv C t0 Cn w'"
proof -
  have o: "log_of_ok t0 Cn w j (srv w j)" using inv j by (simp add: log_inv_def)
  have "state s' = Leader \<Longrightarrow> state (srv w j) = Leader" using m by (auto simp: vote_move_def)
  then show ?thesis using o sy l
    by (intro log_inv_move [OF inv j m s _ _ _ _ _ msg]) (auto simp: log_of_ok_def)
qed

text \<open>The chain of a new term is the log of its leader.\<close>

lemma log_inv_check:
  assumes inv: "log_inv C t0 Cn w" and el: "election_inv C V (check_votes i w)" and i: "i \<in> set C"
  shows "\<exists>Cn'. log_inv C t0 Cn' (check_votes i w)"
proof (cases "state (srv w i) = Candidate \<and> enough_votes (votes w i) (srv w i)")
  case False
  then have "check_votes i w = w" by (auto simp: check_votes_def)
  then show ?thesis using inv by auto
next
  case True
  let ?T = "currentTerm (srv w i)" and ?L = "pbs (log (srv w i))"
  define w' where "w' = (put i (become_leader (srv w i)) w)\<lparr>elected := elected w @ [(i, ?T)]\<rparr>"
  have w': "check_votes i w = w'" using True by (simp add: check_votes_def w'_def)
  have el': "election_inv C V w'" using el w' by simp
  have new: "(j, ?T) \<notin> set (elected w)" for j
  proof
    assume e: "(j, ?T) \<in> set (elected w)"
    then have "j = i" by (intro election_inv_safe [OF el', of j ?T i]) (auto simp: w'_def)
    then show False using e inv True by (auto simp: log_inv_def reign_ok_def)
  qed
  have o: "log_of_ok t0 Cn w i (srv w i)" using inv i by (simp add: log_inv_def)
  then have t: "t0 < ?T" using True by (simp add: log_of_ok_def)
  have nk: "\<not> known t0 w ?T" using new t by (auto simp: known_def)
  define Cn' where "Cn' = Cn(?T := ?L)"
  have e: "extends (known t0 w) Cn (known t0 w') Cn'"
    using nk by (auto simp: extends_def Cn'_def known_def w'_def)
  have same: "Cn' T = Cn T" if "known t0 w T" for T using that nk by (auto simp: Cn'_def)
  have g: "on_chains (known t0 w') Cn' L" if "on_chains (known t0 w) Cn L" for L by (rule on_chains_extends [OF that e])
  have "on_chains (known t0 w') Cn' (Cn' T)" if "known t0 w' T" for T
  proof (cases "T = ?T")
    case False
    then have "known t0 w T" using that by (auto simp: known_def w'_def)
    then show ?thesis using g inv same by (simp add: log_inv_def)
  qed (use g o in \<open>simp add: Cn'_def log_of_ok_def\<close>)
  moreover have "log_of_ok t0 Cn' w' j (srv w' j)" if "j \<in> set C" for j
  proof (cases "j = i")
    case True
    then show ?thesis using o g by (simp add: log_of_ok_def w'_def Cn'_def)
  next
    case False
    then have oj: "log_of_ok t0 Cn w j (srv w j)" "srv w' j = srv w j" using inv that by (simp_all add: log_inv_def w'_def)
    have "state (srv w j) = Leader \<Longrightarrow> Cn' (currentTerm (srv w j)) = Cn (currentTerm (srv w j))"
      using oj(1) by (intro same) (force simp: log_of_ok_def known_def)
    then show ?thesis using oj g by (auto simp: log_of_ok_def w'_def)
  qed
  moreover have "reign_ok t0 w'" using inv t by (auto simp: log_inv_def reign_ok_def w'_def)
  moreover have "set (elected w) \<subseteq> set (elected w')" by (auto simp: w'_def)
  then have "messages_ok C Cn' w'"
    using inv by (intro messages_ok_extends [OF _ e]) (simp_all add: log_inv_def w'_def)
  ultimately show ?thesis unfolding w' by (auto simp: log_inv_def)
qed

lemma log_inv_start:
  assumes inv: "log_inv C t0 Cn w" and i: "i \<in> set C" and room: "unat (currentTerm (srv w i)) < 2 ^ 64 - 1"
    and w1: "srv w1 = (srv w)(i := s)" "elected w1 = elected w" "appends w1 = appends w" "answers w1 = answers w" "inbox w1 = inbox w"
    and s: "log s = log (srv w i)" "currentTerm s = currentTerm (srv w i)" "state s = Candidate"
    and el: "election_inv C V (start_round i w1)"
  shows "\<exists>Cn'. log_inv C t0 Cn' (start_round i w1)"
proof -
  define w2 where "w2 = (put i (vote_round s) w1)\<lparr>votes := (votes w1)(i := 1)\<rparr>"
  define w3 where "w3 = w2\<lparr>calls := calls w2 @ spawn i w2\<rparr>"
  have st: "start_round i w1 = check_votes i w3" by (simp add: start_round_def w3_def w2_def w1(1) Let_def)
  have sv: "srv w3 = (srv w)(i := vote_round s)" "elected w3 = elected w" by (simp_all add: w3_def w2_def w1)
  have lt: "currentTerm (srv w i) < currentTerm (vote_round s)"
    using room s(2) by (simp add: vote_round_def word_less_nat_alt unat_word_ariths)
  have k: "known t0 w3 = known t0 w" by (rule ext) (simp add: known_def sv)
  have "log_of_ok t0 Cn w3 j (srv w3 j)" if "j \<in> set C" for j
  proof (cases "j = i")
    case True
    have o: "log_of_ok t0 Cn w i (srv w i)" using inv i by (simp add: log_inv_def)
    then have "t0 \<le> currentTerm (srv w i)" by (simp add: log_of_ok_def)
    then have "t0 < currentTerm (vote_round s)" using lt by (rule le_less_trans)
    moreover have "log (vote_round s) = log (srv w i)" "state (vote_round s) = Candidate" using s by (simp_all add: vote_round_def)
    ultimately show ?thesis using o True by (simp add: log_of_ok_def k sv)
  next
    case False
    then show ?thesis using inv that by (simp add: log_inv_def log_of_ok_def k sv)
  qed
  moreover have "reign_ok t0 w3" unfolding reign_ok_def sv
  proof (intro allI impI)
    fix j T assume "(j, T) \<in> set (elected w)"
    then have "t0 < T \<and> T \<le> currentTerm (srv w j) \<and> (T = currentTerm (srv w j) \<longrightarrow> state (srv w j) \<noteq> Candidate)"
      using inv unfolding log_inv_def reign_ok_def by blast
    then show "t0 < T \<and> T \<le> currentTerm (((srv w)(i := vote_round s)) j) \<and>
        (T = currentTerm (((srv w)(i := vote_round s)) j) \<longrightarrow> state (((srv w)(i := vote_round s)) j) \<noteq> Candidate)"
      using lt by auto
  qed
  moreover have "messages_ok C Cn w3"
  proof (rule messages_ok_eq)
    show "messages_ok C Cn w" using inv by (simp add: log_inv_def)
  qed (simp_all add: w3_def w2_def w1)
  ultimately have "log_inv C t0 Cn w3" using inv by (simp add: log_inv_def k)
  then show ?thesis using log_inv_check [of C t0 Cn w3 V i] el i unfolding st by simp
qed

lemma timeout_start:
  assumes "state (srv w i) = Follower \<and> promotable (srv w i) \<or> state (srv w i) = Candidate"
  shows "\<exists>s w1. election_timeout i w = start_round i w1 \<and> srv w1 = (srv w)(i := s) \<and> elected w1 = elected w \<and>
    appends w1 = appends w \<and> answers w1 = answers w \<and> inbox w1 = inbox w \<and>
    log s = log (srv w i) \<and> currentTerm s = currentTerm (srv w i) \<and> state s = Candidate"
proof (cases "state (srv w i) = Candidate")
  case True
  then show ?thesis
    by (intro exI [of _ "srv w i"] exI [of _ "w\<lparr>rounds := (rounds w)(i := (rounds w i)(inv w i := rounds w i (inv w i) + 1))\<rparr>"])
      (simp add: election_timeout_def)
next
  case False
  let ?s = "candidate_enter (setState Candidate (srv w i))" and ?k = "inv w i + 1"
  show ?thesis using False assms
    by (intro exI [of _ ?s] exI [of _ "(put i ?s w)\<lparr>inv := (inv w)(i := ?k), rounds := (rounds w)(i := (rounds w i)(?k := 0)),
        captured := (captured w)(i := (captured w i)(?k := lastInfo (log ?s)))\<rparr>"])
      (simp add: election_timeout_def candidate_enter_def setState_def Let_def)
qed

lemma log_inv_timeout:
  assumes inv: "log_inv C t0 Cn w" and i: "i \<in> set C" and room: "roomy C w" and el: "election_inv C V (election_timeout i w)"
  shows "\<exists>Cn'. log_inv C t0 Cn' (election_timeout i w)"
proof -
  let ?s = "srv w i"
  note rm = conjunct1 [OF roomyD [OF room i]]
  show ?thesis
  proof (cases "state ?s = Follower \<and> promotable ?s \<or> state ?s = Candidate")
    case True
    obtain s w1 where "election_timeout i w = start_round i w1" "srv w1 = (srv w)(i := s)" "elected w1 = elected w"
      "appends w1 = appends w" "answers w1 = answers w" "inbox w1 = inbox w"
      "log s = log ?s" "currentTerm s = currentTerm ?s" "state s = Candidate"
      using timeout_start [OF True] by blast
    then show ?thesis using log_inv_start [OF inv i rm, of w1 s V] el by simp
  next
    case False
    then show ?thesis using timeout_idle inv by metis
  qed
qed

section \<open>The leader's log\<close>

lemma log_inv_client:
  assumes inv: "log_inv C t0 Cn w" and el: "election_inv C V w" and i: "i \<in> set C" and st: "static ev" and room: "roomy C w"
    and ld: "state (srv w i) = Leader"
  shows "\<exists>s' Cn'. processCommand ev c v (srv w i) = Some s' \<and> vote_move (srv w i) s' \<and> log_inv C t0 Cn' (put i s' w)"
proof -
  let ?s = "srv w i" and ?T = "currentTerm (srv w i)"
  have o: "log_of_ok t0 Cn w i ?s" using inv i by (simp add: log_inv_def)
  then have f: "log_ok (log ?s)" "startIndex (log ?s) = 0" "log_file (log ?s) \<noteq> None" "syncedPeer ?s \<noteq> None" "(i, ?T) \<in> set (elected w)"
    "pbs (log ?s) = Cn ?T" using ld by (simp_all add: log_of_ok_def)
  have room': "unat (startIndex (log ?s)) + length (entries (log ?s)) < 2 ^ 64 - 2" using roomyD [OF room i] f(2) by simp
  obtain s' where s': "processCommand ev c v ?s = Some s'" "vote_move ?s s'" "log_ok (log s')" "state s' = state ?s"
    "currentTerm s' = ?T" "startIndex (log s') = 0" "syncedPeer s' \<noteq> None" "log_file (log s') \<noteq> None"
    "pbs (log s') = pbs (log ?s) \<or> (\<exists>p. pbs (log s') = pbs (log ?s) @ [p] \<and> pb_Term p = ?T \<and>
       pb_Index p = of_nat (length (entries (log ?s)) + 1))"
    using processCommand_spec [OF st f(1) f(4) room', of c v] f(2,3) by auto
  show ?thesis using s'(9)
  proof
    assume "pbs (log s') = pbs (log ?s)"
    then have "log_inv C t0 Cn (put i s' w)"
      using inv o s' ld by (intro log_inv_move [OF inv i s'(2)]) (auto simp: log_of_ok_def log_inv_def messages_ok_def request_ok_def)
    then show ?thesis using s'(1,2) by blast
  next
    assume "\<exists>p. pbs (log s') = pbs (log ?s) @ [p] \<and> pb_Term p = ?T \<and> pb_Index p = of_nat (length (entries (log ?s)) + 1)"
    then obtain p where p: "pbs (log s') = Cn ?T @ [p]" "pb_Term p = ?T" "pb_Index p = of_nat (length (Cn ?T) + 1)"
      using f(6) by (metis length_pbs)
    define Cn' where "Cn' = Cn(?T := Cn ?T @ [p])"
    define w' where "w' = put i s' w"
    have kn: "known t0 w ?T" using f(5) by (force simp: known_def)
    have "length (Cn ?T) < 2 ^ 64 - 2" using room' f(6) by (metis add.left_neutral f(2) length_pbs unat_0)
    then have g: "on_chains (known t0 w) Cn' (Cn ?T @ [p])" and e: "extends (known t0 w) Cn (known t0 w) Cn'"
      unfolding Cn'_def using on_chains_snoc [of "known t0 w" Cn ?T p] inv kn p(2,3) by (simp_all add: log_inv_def)
    have k: "known t0 w' = known t0 w" by (rule ext) (simp add: known_def w'_def)
    have gm: "on_chains (known t0 w) Cn' L" if "on_chains (known t0 w) Cn L" for L by (rule on_chains_extends [OF that e])
    have "log_of_ok t0 Cn' w' j (srv w' j)" if j: "j \<in> set C" for j
    proof (cases "j = i")
      case True
      then show ?thesis using o s' g p ld f(5) by (simp add: log_of_ok_def k) (simp add: w'_def Cn'_def)
    next
      case False
      then have oj: "log_of_ok t0 Cn w j (srv w j)" "srv w' j = srv w j" using inv j by (simp_all add: log_inv_def w'_def)
      have "currentTerm (srv w j) \<noteq> ?T" if "state (srv w j) = Leader"
        using oj(1) that f(5) False election_inv_safe [OF el] by (auto simp: log_of_ok_def)
      then show ?thesis using oj gm by (auto simp: log_of_ok_def k) (auto simp: w'_def Cn'_def)
    qed
    moreover have "on_chains (known t0 w) Cn' (Cn' T)" if "known t0 w T" for T
      using inv that g gm by (auto simp: Cn'_def log_inv_def)
    moreover have "reign_ok t0 w'" using inv s'(4,5) by (auto simp: log_inv_def reign_ok_def w'_def)
    moreover have "messages_ok C Cn' w'"
      using inv by (intro messages_ok_extends [OF _ e]) (simp_all add: log_inv_def w'_def)
    ultimately have "log_inv C t0 Cn' w'" by (simp add: log_inv_def k)
    then show ?thesis using s'(1,2) unfolding w'_def by blast
  qed
qed

section \<open>The messages\<close>

lemma log_inv_heartbeat:
  assumes inv: "log_inv C t0 Cn w" and so: "servers_ok C w" and i: "i \<in> set C" and ld: "state (srv w i) = Leader"
    and j: "map_of (peers (srv w i)) j \<noteq> None" and f: "flush (srv w i) j = Some (Send_entries req)"
  shows "request_ok C Cn w i j req"
proof -
  let ?s = "srv w i"
  have o: "log_of_ok t0 Cn w i ?s" using inv i by (simp add: log_inv_def)
  then have l: "log_ok (log ?s)" "startIndex (log ?s) = 0" "(i, currentTerm ?s) \<in> set (elected w)" "pbs (log ?s) = Cn (currentTerm ?s)"
    using ld by (simp_all add: log_of_ok_def)
  have "set (map fst (peers ?s)) = set C - {i}" using so i by (simp add: servers_ok_def member_ok_def)
  moreover have "j \<in> set (map fst (peers ?s))" using j by (simp add: map_of_eq_None_iff)
  ultimately have jc: "j \<in> set C" "i \<noteq> j" by auto
  obtain p where pj: "map_of (peers ?s) j = Some p" using j by blast
  obtain es t where p: "getEntriesAfter (log ?s) (prevLogIndex p) MaxLogEntriesPerRequest = Some (Some es, t)"
    "req = newAppendEntriesRequest (currentTerm ?s) (prevLogIndex p) t (commitIndex (log ?s)) (sname ?s) es"
    using f pj by (cases "getEntriesAfter (log ?s) (prevLogIndex p) MaxLogEntriesPerRequest")
      (auto simp: flush_def split: option.splits prod.splits)
  obtain n where n: "map pb es = take n (drop (unat (prevLogIndex p)) (Cn (currentTerm ?s)))"
    "unat (prevLogIndex p) \<le> length (Cn (currentTerm ?s))"
    "unat (prevLogIndex p) \<noteq> 0 \<longrightarrow> t = pb_Term (Cn (currentTerm ?s) ! (unat (prevLogIndex p) - 1))"
    using getEntriesAfter_spec [OF l(1,2) p(1)] l(4) by auto
  let ?c = "Cn (currentTerm ?s)" and ?p = "unat (prevLogIndex p)"
  have "?c = take ?p ?c @ take n (drop ?p ?c) @ drop n (drop ?p ?c)" by (simp only: append_take_drop_id)
  then have "?c = take ?p ?c @ map pb es @ drop n (drop ?p ?c)" using n(1) by simp
  moreover have "length (take ?p ?c) = ?p" using n(2) by simp
  moreover have "take ?p ?c \<noteq> [] \<longrightarrow> pb_Term (last (take ?p ?c)) = t" using n(2,3) by (auto simp: last_conv_nth min_def)
  ultimately have "\<exists>a b. ?c = a @ map pb es @ b \<and> length a = ?p \<and> (a \<noteq> [] \<longrightarrow> pb_Term (last a) = t)" by blast
  then show ?thesis using i jc l(3) unfolding p(2) request_ok_def newAppendEntriesRequest_def by simp
qed

lemma log_inv_deliver:
  assumes inv: "log_inv C t0 Cn w" and el: "election_inv C V w" and st: "static ev" and k: "k < length (appends w)"
  shows "\<exists>w' s'. act ev (Deliver_append k) w = Some w' \<and> same_votes w w' \<and> log_inv C t0 Cn w' \<and>
    srv w' = (srv w)(fst (snd (appends w ! k)) := s') \<and> vote_move (srv w (fst (snd (appends w ! k)))) s'"
proof -
  obtain i j req where q: "appends w ! k = (i, j, req)" by (metis prod_cases3)
  have rq: "request_ok C Cn w i j req" using inv k nth_mem [OF k] unfolding q log_inv_def messages_ok_def by blast
  let ?s = "srv w j"
  obtain a b where ab: "Cn (ae_Term req) = a @ ae_Entries req @ b" "length a = unat (ae_PrevLogIndex req)"
    "a \<noteq> [] \<longrightarrow> pb_Term (last a) = ae_PrevLogTerm req" using rq unfolding request_ok_def by blast
  have j: "j \<in> set C" "i \<in> set C" "i \<noteq> j" "(i, ae_Term req) \<in> set (elected w)" using rq by (simp_all add: request_ok_def)
  then have "known t0 w (ae_Term req)" by (force simp: known_def)
  then have ch: "on_chains (known t0 w) Cn (Cn (ae_Term req))" using inv by (simp add: log_inv_def)
  have o: "log_of_ok t0 Cn w j ?s" using inv j by (simp add: log_inv_def)
  have mem: "member_ok C j ?s" using el j by (simp add: election_inv_def servers_ok_def)
  have lead: "state ?s \<noteq> Leader" if "ae_Term req = currentTerm ?s"
    using o that j election_inv_safe [OF el, of i "ae_Term req" j] by (auto simp: log_of_ok_def)
  have ix: "indexed (unat (ae_PrevLogIndex req)) (ae_Entries req)" "unat (ae_PrevLogIndex req) + length (ae_Entries req) < 2 ^ 64 - 1"
    using ch unfolding on_chains_def ab(1) by (simp_all add: indexed_append ab(2))
  obtain r s' where p: "processAppendEntriesRequest ev req ?s = Some (r, s')" "vote_move ?s s'" "log_ok (log s')" "log_file (log s') \<noteq> None"
    "startIndex (log s') = 0" "ae_Term req < currentTerm ?s \<and> s' = ?s \<or> currentTerm s' = ae_Term req \<and> state s' = Follower"
    "log_move req (log ?s) (log s')"
    using processAppend_spec [OF st _ _ lead _ ix] o mem by (auto simp: log_of_ok_def member_ok_def)
  have on: "on_chains (known t0 w) Cn (pbs (log s'))"
    using log_move_on_chains [OF _ ch p(7) _ _ ab] o by (auto simp: log_of_ok_def)
  obtain s2 where s2: "put_exit j s' w = put j s2 w" "vote_move ?s s2" "log s2 = log s'" "state s2 = state s'" "state s' = Leader \<longrightarrow> s2 = s'"
    using put_exit_put [of j s' w ?s] p(2) by blast
  obtain resp b where r: "r = (resp, b)" by (rule prod.exhaust)
  define w' where "w' = (put j s2 w)\<lparr>answers := answers w @ [(i, j, req, resp)]\<rparr>"
  have "messages_ok C Cn w'" using inv j(2) by (auto simp: log_inv_def messages_ok_def request_ok_def w'_def)
  moreover have "syncedPeer s2 \<noteq> None \<and> pbs (log s2) = pbs (log ?s)" if "state s2 = Leader"
  proof -
    have "s2 = ?s" using that s2(4,5) p(6) by auto
    then show ?thesis using o that by (simp add: log_of_ok_def)
  qed
  ultimately have "log_inv C t0 Cn w'"
    using p(3-5) on s2(3) by (intro log_inv_move [OF inv j(1) s2(2)]) (simp_all add: w'_def)
  moreover have "act ev (Deliver_append k) w = Some w'" by (simp add: act_def q p(1) r s2(1) w'_def)
  moreover have "same_votes w w'" by (simp add: same_votes_def w'_def)
  ultimately show ?thesis using s2(2) by (auto simp: q w'_def)
qed

lemma log_inv_members:
  assumes "log_inv C t0 Cn w"
  shows "k < length (answers w) \<Longrightarrow> fst (answers w ! k) \<in> set C" and "k < length (inbox w) \<Longrightarrow> fst (inbox w ! k) \<in> set C"
proof -
  have m: "fst ` set (answers w) \<subseteq> set C" "fst ` set (inbox w) \<subseteq> set C" using assms unfolding log_inv_def messages_ok_def by blast+
  show "fst (answers w ! k) \<in> set C" if "k < length (answers w)" using m(1) nth_mem [OF that] by blast
  show "fst (inbox w ! k) \<in> set C" if "k < length (inbox w)" using m(2) nth_mem [OF that] by blast
qed

lemma log_inv_receive_append:
  assumes inv: "log_inv C t0 Cn w" and k: "k < length (answers w)"
  shows "\<exists>w' s'. act ev (Receive_append k) w = Some w' \<and> same_votes w w' \<and> log_inv C t0 Cn w' \<and>
    srv w' = (srv w)(fst (answers w ! k) := s') \<and> vote_move (srv w (fst (answers w ! k))) s'"
proof -
  obtain i j req resp where q: "answers w ! k = (i, j, req, resp)" by (metis prod_cases4)
  have "i \<in> set C" using log_inv_members(1) [OF inv k] by (simp add: q)
  obtain resp1 s' where s': "peer_response j req resp (srv w i) = (resp1, s')" by (rule prod.exhaust)
  then have f: "sname s' = sname (srv w i)" "state s' = state (srv w i)" "currentTerm s' = currentTerm (srv w i)" "log s' = log (srv w i)"
    "votedFor s' = votedFor (srv w i)" "syncedPeer s' = syncedPeer (srv w i)" "map fst (peers s') = map fst (peers (srv w i))"
    by (auto simp: peer_response_def)
  define w' where "w' = (put i s' w)\<lparr>inbox := inbox w @ [(i, resp1)]\<rparr>"
  have m: "vote_move (srv w i) s'" using f by (simp add: vote_move_def)
  have "messages_ok C Cn w'" using inv \<open>i \<in> set C\<close> by (auto simp: log_inv_def messages_ok_def request_ok_def w'_def)
  then have "log_inv C t0 Cn w'" using f by (intro log_inv_quiet [OF inv \<open>i \<in> set C\<close> m]) (simp_all add: w'_def)
  moreover have "act ev (Receive_append k) w = Some w'" by (simp add: act_def q s' w'_def)
  moreover have "same_votes w w'" by (simp add: same_votes_def w'_def)
  ultimately show ?thesis using m by (auto simp: q w'_def)
qed

lemma log_inv_process:
  assumes inv: "log_inv C t0 Cn w" and st: "static ev" and k: "k < length (inbox w)" and ld: "state (srv w (fst (inbox w ! k))) = Leader"
  shows "\<exists>w' s'. act ev (Process_append k) w = Some w' \<and> same_votes w w' \<and> log_inv C t0 Cn w' \<and>
    srv w' = (srv w)(fst (inbox w ! k) := s') \<and> vote_move (srv w (fst (inbox w ! k))) s'"
proof -
  obtain i resp where q: "inbox w ! k = (i, resp)" by (rule prod.exhaust)
  have i: "i \<in> set C" using log_inv_members(2) [OF inv k] by (simp add: q)
  have o: "log_of_ok t0 Cn w i (srv w i)" using inv i by (simp add: log_inv_def)
  then have l: "log_ok (log (srv w i))" "syncedPeer (srv w i) \<noteq> None" using ld by (simp_all add: log_of_ok_def q)
  obtain s' where p: "processAppendEntriesResponse ev resp (srv w i) = Some s'" "vote_move (srv w i) s'"
    "same_entries (log (srv w i)) (log s')" "log_ok (log s')" "syncedPeer s' \<noteq> None"
    using processResponse_spec [OF st l] by blast
  obtain s2 where s2: "put_exit i s' w = put i s2 w" "vote_move (srv w i) s2" "log s2 = log s'" "state s2 = state s'" "state s' = Leader \<longrightarrow> s2 = s'"
    using put_exit_put [of i s' w "srv w i"] p(2) by blast
  define w' where "w' = put i s2 w"
  have pb: "pbs (log s2) = pbs (log (srv w i))" using p(3) s2(3) by (simp add: same_entries_def pbs_def)
  have msg: "messages_ok C Cn w'" by (rule messages_ok_eq [of C Cn w]) (use inv in \<open>simp_all add: log_inv_def w'_def\<close>)
  have "log_inv C t0 Cn w'"
  proof (rule log_inv_move [OF inv i s2(2)])
    show "on_chains (known t0 w) Cn (pbs (log s2))" unfolding pb using o by (simp add: log_of_ok_def)
    show "startIndex (log s2) = 0" "log_file (log s2) \<noteq> None"
      using o p(3) unfolding s2(3) same_entries_def log_of_ok_def by simp_all
    show "syncedPeer s2 \<noteq> None \<and> pbs (log s2) = pbs (log (srv w i))" if "state s2 = Leader"
      using that s2(4,5) p(5) pb by simp
  qed (use p(4) s2(3) msg in \<open>simp_all add: w'_def\<close>)
  moreover have "act ev (Process_append k) w = Some w'" by (simp add: act_def q p(1) s2(1) w'_def)
  moreover have "same_votes w w'" by (simp add: same_votes_def w'_def)
  ultimately show ?thesis using s2(2) by (auto simp: q w'_def)
qed

lemma log_inv_answer_vote:
  assumes inv: "log_inv C t0 Cn w" and el: "election_inv C V w" and g: "g < length (calls w)" and a: "answer_vote g req r w = Some w'"
  shows "log_inv C t0 Cn w'"
proof -
  let ?j = "vc_to (calls w ! g)"
  have "call_ok C V w (calls w ! g)" using el g by (simp add: election_inv_def calls_ok_def)
  then have j: "?j \<in> set C" by (simp add: call_ok_def)
  obtain resp b s where p: "processRequestVoteRequest req (srv w ?j) = Some ((resp, b), s)" "vote_move (srv w ?j) s" "log s = log (srv w ?j)"
    "syncedPeer s = syncedPeer (srv w ?j)"
    using processVote_spec [of req "srv w ?j"] by blast
  obtain s2 where s2: "put_exit ?j s w = put ?j s2 w" "vote_move (srv w ?j) s2" "log s2 = log s" "state s2 = state s" "state s = Leader \<longrightarrow> s2 = s"
    using put_exit_put [of ?j s w "srv w ?j"] p(2) by blast
  have w': "w' = set_stage g (Answered resp r) (put ?j s2 w)" using a p(1) s2(1) by (simp add: answer_vote_def)
  have msg: "messages_ok C Cn w'"
    by (rule messages_ok_eq [of C Cn w]) (use inv in \<open>simp_all add: log_inv_def w' set_stage_def put_def\<close>)
  show ?thesis
    by (rule log_inv_quiet [OF inv j s2(2)]) (use p s2 msg in \<open>auto simp: w'\<close>)
qed

lemma log_inv_receive_vote:
  assumes inv: "log_inv C t0 Cn w" and el: "election_inv C V w" "election_inv C V w'" and g: "g < length (calls w)"
    and a: "receive_vote g resp r w = Some w'"
  shows "\<exists>Cn'. log_inv C t0 Cn' w'"
proof -
  let ?i = "vc_from (calls w ! g)"
  have "call_ok C V w (calls w ! g)" using el(1) g by (simp add: election_inv_def calls_ok_def)
  then have i: "?i \<in> set C" by (simp add: call_ok_def)
  obtain ok s where p: "processVoteResponse resp (srv w ?i) = Some (ok, s)" "vote_move (srv w ?i) s" "log s = log (srv w ?i)"
    "syncedPeer s = syncedPeer (srv w ?i)"
    using processVoteResponse_spec [of resp "srv w ?i"] by blast
  define w1 where "w1 = (set_stage g (Received r ok) (put ?i s w))\<lparr>votes := (votes w)(?i := (if ok then votes w ?i + 1 else votes w ?i))\<rparr>"
  have w': "w' = check_votes ?i w1" using a p(1) by (cases ok) (auto simp: receive_vote_def w1_def Let_def)
  have "messages_ok C Cn w1"
    by (rule messages_ok_eq [of C Cn w]) (use inv in \<open>simp_all add: log_inv_def w1_def set_stage_def put_def\<close>)
  then have "log_inv C t0 Cn w1"
    by (intro log_inv_quiet [OF inv i p(2,3)]) (use p(4) in \<open>simp_all add: w1_def\<close>)
  then show ?thesis using log_inv_check [of C t0 Cn w1 V ?i] el(2) i unfolding w' by blast
qed

section \<open>Runs\<close>

lemma raft_inv_step:
  assumes st: "static ev" and inv: "raft_inv C t0 w" and calm: "calm a w" and room: "roomy C w" and step: "step ev C a w = Some w'"
  shows "raft_inv C t0 w' \<and> roomy C w'"
proof -
  obtain V Cn where el: "election_inv C V w" and lg: "log_inv C t0 Cn w" using inv by (auto simp: raft_inv_def)
  have en: "enabled a w" "action_in C a" and ac: "act ev a w = Some w'" and room': "roomy C w'"
    using step by (auto simp: step_def split: if_splits option.splits)
  have so: "servers_ok C w" using el by (simp add: election_inv_def)
  have "raft_inv C t0 w'"
  proof (cases a)
    case (Election_timeout i)
    have i: "i \<in> set C" and w': "w' = election_timeout i w" using en ac Election_timeout by (simp_all add: action_in_def act_def)
    obtain V' where V': "election_inv C V' w'"
      using election_inv_timeout [OF el i _ room] calm unfolding Election_timeout w' by blast
    then show ?thesis using log_inv_timeout [OF lg i room] unfolding w' raft_inv_def by blast
  next
    case (Run_call g)
    have g: "g < length (calls w)" "vc_stage (calls w ! g) = Spawned" and w': "w' = run_call g w"
      using en ac Run_call by (simp_all add: enabled_def act_def)
    have f: "srv w' = srv w" "elected w' = elected w" "appends w' = appends w" "answers w' = answers w" "inbox w' = inbox w"
      by (simp_all add: w' run_call_def set_stage_def Let_def split: prod.splits)
    have "messages_ok C Cn w'" by (rule messages_ok_eq [of C Cn w]) (use lg f in \<open>simp_all add: log_inv_def\<close>)
    then have "log_inv C t0 Cn w'" using log_inv_eq [OF lg f(1,2)] by simp
    then show ?thesis using election_inv_run_call [OF el g] unfolding w' raft_inv_def by blast
  next
    case (Answer_vote g)
    obtain req r where g: "g < length (calls w)" "vc_stage (calls w ! g) = Sent req r" and a: "answer_vote g req r w = Some w'"
      using en ac Answer_vote by (auto simp: enabled_def act_def split: stage.splits)
    show ?thesis using election_inv_answer [OF el g] log_inv_answer_vote [OF lg el g(1) a] a unfolding raft_inv_def by auto
  next
    case (Receive_vote g)
    obtain resp r where g: "g < length (calls w)" "vc_stage (calls w ! g) = Answered resp r" "vc_inv (calls w ! g) = inv w (vc_from (calls w ! g))"
      "r = rounds w (vc_from (calls w ! g)) (vc_inv (calls w ! g))" and a: "receive_vote g resp r w = Some w'"
      using en ac Receive_vote by (auto simp: enabled_def act_def Let_def split: stage.splits)
    have "election_inv C V w'" using election_inv_receive [OF el g] a by simp
    then show ?thesis using log_inv_receive_vote [OF lg el _ g(1) a] unfolding raft_inv_def by blast
  next
    case (Client_command i c v)
    have i: "i \<in> set C" "state (srv w i) = Leader" using en Client_command by (simp_all add: action_in_def enabled_def)
    obtain s' Cn' where s': "processCommand ev c v (srv w i) = Some s'" "vote_move (srv w i) s'" "log_inv C t0 Cn' (put i s' w)"
      using log_inv_client [OF lg el i(1) st room i(2)] by blast
    then show ?thesis using ac election_inv_put [OF el s'(2)] by (auto simp: Client_command act_def raft_inv_def)
  next
    case (Heartbeat i j)
    have i: "i \<in> set C" "state (srv w i) = Leader" "map_of (peers (srv w i)) j \<noteq> None"
      using en Heartbeat by (simp_all add: action_in_def enabled_def)
    obtain m where m: "flush (srv w i) j = Some m" using ac by (cases "flush (srv w i) j") (auto simp: Heartbeat act_def)
    show ?thesis
    proof (cases m)
      case (Send_entries req)
      have w': "w' = w\<lparr>appends := appends w @ [(i, j, req)]\<rparr>" using ac m Send_entries by (simp add: Heartbeat act_def)
      have "request_ok C Cn w i j req" using log_inv_heartbeat [OF lg so i] m Send_entries by simp
      then have "messages_ok C Cn w'" using lg by (auto simp: w' log_inv_def messages_ok_def request_ok_def)
      then have "log_inv C t0 Cn w'" by (intro log_inv_eq [OF lg]) (simp_all add: w')
      moreover have "election_inv C V w'"
        by (rule election_inv_move [OF el vote_move_refl, of _ i]) (simp_all add: w' same_votes_def)
      ultimately show ?thesis unfolding raft_inv_def by blast
    next
      case (Send_snapshot x)
      then have "w' = w" using ac m by (simp add: Heartbeat act_def)
      then show ?thesis using inv by simp
    qed
  next
    case (Deliver_append k)
    then have "k < length (appends w)" using en by (simp add: enabled_def)
    from log_inv_deliver [OF lg el st this] show ?thesis
      using ac election_inv_move [OF el] unfolding Deliver_append raft_inv_def by auto
  next
    case (Receive_append k)
    then have "k < length (answers w)" using en by (simp add: enabled_def)
    from log_inv_receive_append [OF lg this, of ev] show ?thesis
      using ac election_inv_move [OF el] unfolding Receive_append raft_inv_def by auto
  next
    case (Process_append k)
    then have k: "k < length (inbox w)" "state (srv w (fst (inbox w ! k))) = Leader" using en by (simp_all add: enabled_def)
    from log_inv_process [OF lg st k] show ?thesis
      using ac election_inv_move [OF el] unfolding Process_append raft_inv_def by auto
  qed
  then show ?thesis using room' by simp
qed

lemma raft_inv_run:
  assumes "static ev"
  shows "raft_inv C t0 w \<Longrightarrow> roomy C w \<Longrightarrow> calm_run ev C as w = Some w' \<Longrightarrow> raft_inv C t0 w' \<and> roomy C w'"
proof (induction as arbitrary: w)
  case (Cons a as)
  then obtain w1 where w1: "calm a w" "step ev C a w = Some w1" "calm_run ev C as w1 = Some w'"
    by (cases "step ev C a w") (auto split: if_splits)
  have "raft_inv C t0 w1 \<and> roomy C w1" using raft_inv_step [OF assms Cons.prems(1) w1(1) Cons.prems(2) w1(2)] .
  then show ?case using Cons.IH w1(3) by blast
qed simp

lemma raft_inv_start:
  assumes s: "net_start C ps w"
  shows "\<exists>t0. raft_inv C t0 w"
proof -
  define t0 where "t0 = (if ps = [] then 0 else pb_Term (last ps))"
  define Cn where "Cn = (\<lambda>T :: u64. if C = [] then [] else ps)"
  have sv: "server_start C ps i (srv w i)" if "i \<in> set C" for i using s that by (simp add: net_start_def list_all_iff)
  have e: "calls w = []" "appends w = []" "answers w = []" "inbox w = []" "elected w = []" using s by (simp_all add: net_start_def)
  have "election_inv C {} w"
    using s sv by (auto simp: election_inv_def servers_ok_def member_ok_def server_start_def votes_ok_def calls_ok_def ballot_ok_def
      elected_ok_def e net_start_def)
  moreover have "log_inv C t0 Cn w"
  proof -
    have "on_chains (known t0 w) Cn (Cn T)" for T
    proof (cases "C = []")
      case False
      then obtain i where i: "i \<in> set C" by (cases C) auto
      have ix: "indexed 0 ps" using sv [OF i] by (auto simp: server_start_def log_ok_def)
      have "length ps < 2 ^ 64 - 1" using sv [OF i] roomyD [of C w i] i s by (auto simp: server_start_def net_start_def)
      moreover have "pb_Term (ps ! k) \<le> t0" if k: "k < length ps" for k
      proof -
        have "sorted (map pb_Term ps)" using s by (simp add: net_start_def)
        then have "map pb_Term ps ! k \<le> map pb_Term ps ! (length ps - 1)" using k by (intro sorted_nth_mono) auto
        then show ?thesis using k by (auto simp: t0_def last_conv_nth)
      qed
      ultimately show ?thesis using ix False by (simp add: on_chains_def Cn_def known_def)
    qed (simp add: Cn_def on_chains_def indexed_def)
    moreover have "log_of_ok t0 Cn w i (srv w i)" if "i \<in> set C" for i
    proof -
      have "Cn 0 = ps" using that by (auto simp: Cn_def)
      then have "on_chains (known t0 w) Cn ps" using calculation [of 0] by simp
      then show ?thesis using sv [OF that] by (auto simp: log_of_ok_def server_start_def t0_def)
    qed
    ultimately show ?thesis by (simp add: log_inv_def reign_ok_def messages_ok_def e)
  qed
  ultimately show ?thesis by (auto simp: raft_inv_def)
qed

end
