(* ===== verification/RaftDisk.thy ===== *)
theory RaftDisk
  imports RaftSteps
begin

text \<open>
  The log and its file: what a log writes is read back by \<open>open\<close>, entry by entry and at the same
  positions, as long as \<open>appendEntry\<close> writes the entries, or \<open>appendEntries\<close> one at a time; of
  several entries \<open>appendEntries\<close> writes the same bytes and records other positions. What a server remembers of its file when it starts again.
\<close>

section \<open>The bytes of an entry\<close>

definition entry_bytes :: "codec \<Rightarrow> entry_pb \<Rightarrow> byte list" where
  "entry_bytes cd p = (case Marshal cd p of None \<Rightarrow> [] | Some b \<Rightarrow> hex8 (length b) @ [10] @ b)"

definition file_bytes :: "codec \<Rightarrow> entry_pb list \<Rightarrow> byte list" where
  "file_bytes cd ps = concat (map (entry_bytes cd) ps)"

lemma file_bytes_simps [simp]:
  "file_bytes cd [] = []" "file_bytes cd (p # ps) = entry_bytes cd p @ file_bytes cd ps"
  "file_bytes cd (ps @ qs) = file_bytes cd ps @ file_bytes cd qs"
  by (simp_all add: file_bytes_def)

text \<open>What protocol buffers promise, and that an entry is shorter than 4 gigabytes.\<close>

definition good_codec :: "codec \<Rightarrow> bool" where
  "good_codec cd \<longleftrightarrow> (\<forall>p b. Marshal cd p = Some b \<longrightarrow> Unmarshal cd b = Some p \<and> length b < 2 ^ 32)"

lemma hex_not_empty [simp]: "hex n \<noteq> []"
  by (subst hex.simps) simp

lemma hex_digits: "b \<in> set (hex n) \<Longrightarrow> \<exists>d < 16. b = hex_digit d"
proof (induction n rule: hex.induct)
  case (1 n)
  show ?case
  proof (cases "n < 16")
    case True
    then show ?thesis using 1(2) by (auto simp: hex.simps [of n])
  next
    case False
    then have "b \<in> set (hex (n div 16)) \<or> b = hex_digit (n mod 16)" using 1(2) by (subst (asm) hex.simps) auto
    then show ?thesis using 1(1) False by (auto intro: exI [of _ "n mod 16"])
  qed
qed

lemma hex_is_hex: "b \<in> set (hex n) \<Longrightarrow> is_hex b"
  using hex_digits [of b n] hex_digit_value by (auto simp: is_hex_def)

lemma hex_nat_append: "hex_nat (ds @ [b]) = 16 * hex_nat ds + the (hex_value b)"
  by (simp add: hex_nat_def)

lemma hex_nat_hex: "hex_nat (hex n) = n"
proof (induction n rule: hex.induct)
  case (1 n)
  show ?case
  proof (cases "n < 16")
    case True
    then show ?thesis by (simp add: hex.simps [of n] hex_nat_def hex_digit_value)
  next
    case False
    then show ?thesis using 1 by (subst hex.simps) (simp add: hex_nat_append hex_digit_value)
  qed
qed

lemma length_hex: "n < 16 ^ k \<Longrightarrow> 0 < k \<Longrightarrow> length (hex n) \<le> k"
proof (induction n arbitrary: k rule: hex.induct)
  case (1 n)
  show ?case
  proof (cases "n < 16")
    case True
    then show ?thesis using 1(3) by (simp add: hex.simps [of n])
  next
    case False
    then obtain k' where k: "k = Suc k'" "0 < k'" using 1(2,3) by (cases k; cases "k - 1") auto
    have "n div 16 < 16 ^ k'" using 1(2) k by (simp add: less_mult_imp_div_less mult.commute)
    then show ?thesis using 1(1) [OF False _ k(2)] False k by (subst hex.simps) simp
  qed
qed

lemma hex_plain: "is_hex b \<Longrightarrow> \<not> scan_space b \<and> b \<noteq> 43 \<and> b \<noteq> 45"
proof -
  assume h: "is_hex b"
  then have "48 \<le> b" by (auto simp: is_hex_def hex_value_def word_le_nat_alt split: if_splits)
  then show ?thesis by (auto simp: scan_space_def)
qed

lemma length_hex8: "n < 2 ^ 32 \<Longrightarrow> length (hex8 n) = 8"
  using length_hex [of n 8] by (simp add: hex8_def)

lemma scan_length_hex8:
  assumes n: "n < 2 ^ 32"
  shows "scan_length (hex8 n @ 10 # r) = (Some (int n), 9)"
proof -
  let ?k = "8 - length (hex n)" and ?bs = "hex8 n @ 10 # r"
  obtain d ds where h: "hex n = d # ds" by (cases "hex n") auto
  have le: "length (hex n) \<le> 8" using length_hex [of n 8] n by simp
  have d: "\<not> scan_space d" "d \<noteq> 43" "d \<noteq> 45" using hex_plain hex_is_hex [of d n] h by auto
  have bs: "?bs = replicate ?k 32 @ hex n @ 10 # r" by (simp add: hex8_def)
  have s: "takeWhile scan_space ?bs = replicate ?k 32"
    unfolding bs h using d(1) by (subst takeWhile_append2) (auto simp: scan_space_def)
  have dr: "drop ?k ?bs = hex n @ 10 # r" unfolding bs by simp
  have w: "take 8 (hex n @ 10 # r) = hex n @ take (8 - length (hex n)) (10 # r)" using le by simp
  have ten: "\<not> is_hex 10" by (simp add: is_hex_def hex_value_def)
  have t: "takeWhile is_hex (hex n @ take (8 - length (hex n)) (10 # r)) = hex n"
    using hex_is_hex ten by (cases "8 - length (hex n)") (auto simp: takeWhile_append2)
  have hd: "hd (hex n @ take (8 - length (hex n)) (10 # r)) = d" by (simp add: h)
  have e: "drop 8 ?bs = 10 # r" using length_hex8 [OF n] by simp
  have m: "?k + length (hex n) = 8" using le by simp
  show ?thesis unfolding scan_length_def Let_def s length_replicate dr w hd
    using d t e m hex_nat_hex by simp
qed

section \<open>Reading an entry\<close>

lemma Decode_entry:
  assumes cd: "good_codec cd" and b: "Marshal cd p = Some b" and c: "content f = pre @ entry_bytes cd p @ post" and o: "offset f = length pre"
  shows "Decode cd f = Some (Got p (length b + 9), f\<lparr>offset := length pre + length (entry_bytes cd p)\<rparr>)"
proof -
  have n: "length b < 2 ^ 32" and u: "Unmarshal cd b = Some p" using cd b by (auto simp: good_codec_def)
  have eb: "entry_bytes cd p = hex8 (length b) @ 10 # b" using b by (simp add: entry_bytes_def)
  have rest: "drop (offset f) (content f) = hex8 (length b) @ 10 # (b @ post)" using c o eb by simp
  have "drop 9 (hex8 (length b) @ 10 # (b @ post)) = b @ post" using length_hex8 [OF n] by simp
  then show ?thesis unfolding Decode_def Let_def rest scan_length_hex8 [OF n]
    using length_hex8 [OF n] u o eb by (auto simp: add.assoc)
qed

text \<open>The entries of a file, in their places.\<close>

fun placed :: "codec \<Rightarrow> nat \<Rightarrow> entry_pb list \<Rightarrow> LogEntry list" where
  "placed cd n [] = []"
| "placed cd n (p # ps) = \<lparr>pb = p, Position = n, event = None\<rparr> # placed cd (n + length (entry_bytes cd p)) ps"

lemma placed_append: "placed cd n (ps @ qs) = placed cd n ps @ placed cd (n + length (file_bytes cd ps)) qs"
  by (induction ps arbitrary: n) (simp_all add: add.assoc)

lemma placed_take: "take k (placed cd n ps) = placed cd n (take k ps)"
  by (induction ps arbitrary: n k) (simp_all add: take_Cons split: nat.split)

lemma pb_placed [simp]: "map pb (placed cd n ps) = ps"
  by (induction ps arbitrary: n) simp_all

lemma length_placed [simp]: "length (placed cd n ps) = length ps"
  by (induction ps arbitrary: n) simp_all

lemma Position_placed: "k < length ps \<Longrightarrow> Position (placed cd n ps ! k) = n + length (file_bytes cd (take k ps))"
  by (induction ps arbitrary: n k) (simp_all add: nth_Cons split: nat.split)

lemma open_loop_file:
  assumes cd: "good_codec (the_codec m)"
  shows "content f = pre @ file_bytes (the_codec m) ps \<Longrightarrow> offset f = length pre \<Longrightarrow> \<forall>p \<in> set ps. Marshal (the_codec m) p \<noteq> None \<and> pb_Index p \<noteq> 0 \<Longrightarrow>
    startIndex l = 0 \<Longrightarrow> commitIndex l = 0 \<Longrightarrow>
    open_loop m f r (l, x) = Some (f\<lparr>offset := length (content f)\<rparr>, l\<lparr>entries := entries l @ placed (the_codec m) (length pre) ps\<rparr>, x)"
proof (induction ps arbitrary: pre f r l)
  case Nil
  then have "Decode (the_codec m) f = Some (EOF, f)" by (simp add: Decode_def)
  then show ?case using Nil by (subst open_loop.simps) simp
next
  case (Cons p ps)
  let ?cd = "the_codec m" and ?e = "\<lparr>pb = p, Position = offset f, event = None\<rparr>"
  obtain b where b: "Marshal ?cd p = Some b" and ix: "pb_Index p \<noteq> 0" using Cons.prems(3) by auto
  let ?f1 = "f\<lparr>offset := length pre + length (entry_bytes ?cd p)\<rparr>" and ?l1 = "l\<lparr>entries := entries l @ [?e]\<rparr>"
  have d: "Decode ?cd f = Some (Got p (length b + 9), ?f1)"
    using Decode_entry [OF cd b _ Cons.prems(2), of "file_bytes ?cd ps"] Cons.prems(1) by simp
  have g: "Index ?e > startIndex l" "\<not> Index ?e \<le> commitIndex l" using ix Cons.prems(4,5) by (simp_all add: Index_def word_neq_0_conv)
  have "open_loop m f r (l, x) = open_loop m ?f1 (r + (length b + 9)) (?l1, x)"
    using d g by (subst open_loop.simps) (simp add: Let_def)
  also have "\<dots> = Some (?f1\<lparr>offset := length (content ?f1)\<rparr>, ?l1\<lparr>entries := entries ?l1 @ placed ?cd (length (pre @ entry_bytes ?cd p)) ps\<rparr>, x)"
    by (rule Cons.IH) (use Cons.prems in simp_all)
  finally show ?case using Cons.prems(2) by simp
qed

section \<open>Writing\<close>

text \<open>A log whose file holds its entries, and one that also knows where each of them begins.\<close>

definition in_file :: "codec \<Rightarrow> 'r log \<Rightarrow> bool" where
  "in_file cd l \<longleftrightarrow> (\<exists>f. log_file l = Some f \<and> content f = file_bytes cd (pbs l) \<and> offset f = length (content f)) \<and>
     (\<forall>p \<in> set (pbs l). Marshal cd p \<noteq> None)"

definition on_disk :: "codec \<Rightarrow> 'r log \<Rightarrow> bool" where
  "on_disk cd l \<longleftrightarrow> (\<exists>f. log_file l = Some f \<and> content f = file_bytes cd (pbs l) \<and> offset f = length (content f)) \<and>
     map (\<lambda>e. e\<lparr>event := None\<rparr>) (entries l) = placed cd 0 (pbs l) \<and> (\<forall>p \<in> set (pbs l). Marshal cd p \<noteq> None)"

lemma on_disk_iff: "on_disk cd l \<longleftrightarrow> in_file cd l \<and> map (\<lambda>e. e\<lparr>event := None\<rparr>) (entries l) = placed cd 0 (pbs l)"
  by (auto simp: on_disk_def in_file_def)

lemma appendEntry_in_file:
  assumes d: "in_file cd l" and a: "appendEntry cd e l = (None, l')"
  shows "in_file cd l'" and "pbs l' = pbs l @ [pb e]" and "same_but_entries l l'" and "entries l' = entries l @ [e\<lparr>Position := length (file_bytes cd (pbs l))\<rparr>]"
proof -
  obtain f where f: "log_file l = Some f" "content f = file_bytes cd (pbs l)" "offset f = length (content f)" using d by (auto simp: in_file_def)
  obtain b where b: "Marshal cd (pb e) = Some b" and l': "l' = l\<lparr>log_file := Some (file_write b (file_write (hex8 (length b) @ [10]) f)),
      entries := entries l @ [e\<lparr>Position := offset f\<rparr>]\<rparr>"
    using a f(1) by (cases "Marshal cd (pb e)") (auto simp: appendEntry_def Encode_def Let_def split: option.splits)
  have w: "content (file_write b (file_write (hex8 (length b) @ [10]) f)) = content f @ entry_bytes cd (pb e)"
    "offset (file_write b (file_write (hex8 (length b) @ [10]) f)) = length (content f @ entry_bytes cd (pb e))"
    using f(3) b by (simp_all add: file_write_end entry_bytes_def)
  show p: "pbs l' = pbs l @ [pb e]" by (simp add: l' pbs_def)
  show "same_but_entries l l'" by (simp add: l' f same_but_entries_def)
  show "entries l' = entries l @ [e\<lparr>Position := length (file_bytes cd (pbs l))\<rparr>]" using f by (simp add: l')
  show "in_file cd l'" using d w f b unfolding in_file_def p by (auto simp: l')
qed

lemma on_disk_snoc:
  assumes "on_disk cd l" and "in_file cd l'" and "entries l' = entries l @ [e\<lparr>Position := length (file_bytes cd (pbs l))\<rparr>]"
  shows "on_disk cd l'"
  using assms by (cases e) (auto simp: on_disk_iff pbs_def placed_append)

lemma appendEntry_on_disk:
  assumes d: "on_disk cd l" and a: "appendEntry cd e l = (None, l')"
  shows "on_disk cd l'" and "pbs l' = pbs l @ [pb e]" and "same_but_entries l l'"
proof -
  have f: "in_file cd l" using d by (simp add: on_disk_iff)
  show "on_disk cd l'" using on_disk_snoc [OF d] appendEntry_in_file [OF f a] by blast
  show "pbs l' = pbs l @ [pb e]" "same_but_entries l l'" by (rule appendEntry_in_file [OF f a])+
qed

lemma in_file_take:
  assumes d: "in_file cd l" and e: "entries l' = take k (entries l)"
    and f: "log_file l' = Some f'" "content f' = file_bytes cd (take k (pbs l))" "offset f' = length (content f')"
  shows "in_file cd l'"
  using d f unfolding in_file_def pbs_def e by (auto simp: take_map dest: in_set_takeD)

lemma on_disk_take:
  assumes "on_disk cd l" and "in_file cd l'" and e: "entries l' = take k (entries l)"
  shows "on_disk cd l'"
proof -
  have "map (\<lambda>e. e\<lparr>event := None\<rparr>) (entries l') = take k (placed cd 0 (pbs l))"
    using assms(1) unfolding on_disk_def e by (metis take_map)
  then show ?thesis using assms(2) by (simp add: on_disk_iff placed_take pbs_def e take_map)
qed

lemma on_disk_position:
  assumes d: "on_disk cd l" and k: "k < length (entries l)"
  shows "Position (entries l ! k) = length (file_bytes cd (take k (pbs l)))"
proof -
  have "Position (entries l ! k) = Position (map (\<lambda>e. e\<lparr>event := None\<rparr>) (entries l) ! k)" using k by simp
  also have "\<dots> = Position (placed cd 0 (pbs l) ! k)" using d by (simp only: on_disk_def)
  finally show ?thesis using k by (simp add: Position_placed)
qed

lemma file_bytes_cut: "take (length (file_bytes cd (take k ps))) (file_bytes cd ps) = file_bytes cd (take k ps)"
proof -
  have "file_bytes cd ps = file_bytes cd (take k ps) @ file_bytes cd (drop k ps)" by (simp flip: file_bytes_simps(3))
  then show ?thesis by (metis append_eq_conv_conj)
qed

text \<open>The entry at which a truncation to an index cuts, if it cuts, is where the log thinks it is.\<close>

definition cuts_between :: "codec \<Rightarrow> u64 \<Rightarrow> 'r log \<Rightarrow> bool" where
  "cuts_between cd i l \<longleftrightarrow> (case entry_at l (i - startIndex l) of
     None \<Rightarrow> True | Some e \<Rightarrow> Position e = length (file_bytes cd (take (unat (i - startIndex l)) (pbs l))))"

lemma on_disk_cuts: "on_disk cd l \<Longrightarrow> cuts_between cd i l"
  by (auto simp: cuts_between_def entry_at_def on_disk_position split: if_splits option.split)

lemma truncate_in_file:
  assumes d: "in_file cd l" and ok: "log_ok l" and t: "log_truncate i t l = Some (None, l')" and at: "cuts_between cd i l"
  shows "in_file cd l'" and "entries l' = take (unat i - unat (startIndex l)) (entries l)"
proof -
  let ?k = "unat i - unat (startIndex l)"
  obtain l1 where l1: "log_truncate i t l = Some (truncate_error i t l, l1)"
    "truncate_error i t l = None \<longrightarrow> entries l1 = take ?k (entries l)" using truncate_spec [OF ok, of i t] by metis
  have te: "truncate_error i t l = None" and "l1 = l'" using l1(1) t by simp_all
  then show e: "entries l' = take ?k (entries l)" using l1(2) by simp
  obtain f where f: "log_file l = Some f" "content f = file_bytes cd (pbs l)" "offset f = length (content f)" using d by (auto simp: in_file_def)
  consider "i = startIndex l" | "i \<noteq> startIndex l" "i < end_index l" | "i \<noteq> startIndex l" "\<not> i < end_index l" by blast
  then show "in_file cd l'"
  proof cases
    case 1
    then have "log_file l' = Some (Seek_set 0 (file_Truncate 0 f))" using t f te by (auto simp: log_truncate_def truncate_error_def split: if_splits)
    then show ?thesis by (rule in_file_take [OF d e]) (simp_all add: Seek_set_def file_Truncate_def 1)
  next
    case 2
    obtain x where x: "entry_at l (i - startIndex l) = Some x" and fl: "log_file l' = Some (Seek_set (Position x) (file_Truncate (Position x) f))"
      using t f te 2 by (auto simp: log_truncate_def truncate_error_def split: if_splits bind_splits)
    have "\<not> i < commitIndex l" using te by (auto simp: truncate_error_def split: if_splits)
    then have "startIndex l < i" using ok 2(1) by (auto simp: log_ok_def not_less)
    then have u: "unat (i - startIndex l) = ?k" using unat_sub_1 by blast
    have pos: "Position x = length (file_bytes cd (take ?k (pbs l)))" using at x u by (simp add: cuts_between_def)
    have "Position x \<le> length (file_bytes cd (pbs l))" unfolding pos by (metis file_bytes_cut length_take min.cobounded1)
    then have "content (file_Truncate (Position x) f) = file_bytes cd (take ?k (pbs l))"
      unfolding file_Truncate_def pad_to_def using f(2) pos file_bytes_cut [of cd ?k "pbs l"] by simp
    then show ?thesis using fl pos by (intro in_file_take [OF d e fl]) (simp_all add: Seek_set_def)
  next
    case 3
    then have "l' = l" using t te by (auto simp: log_truncate_def truncate_error_def split: if_splits bind_splits)
    then show ?thesis using d by simp
  qed
qed

lemma truncate_on_disk:
  assumes d: "on_disk cd l" and ok: "log_ok l" and t: "log_truncate i t l = Some (None, l')"
  shows "on_disk cd l'"
proof -
  have f: "in_file cd l" using d by (simp add: on_disk_iff)
  show ?thesis using on_disk_take [OF d] truncate_in_file [OF f ok t on_disk_cuts [OF d]] by blast
qed

lemma bufio_Write_bytes:
  "offset (snd w) = length (content (snd w)) \<Longrightarrow> bufio_Write p w = (buf', f') \<Longrightarrow>
   content f' @ buf' = content (snd w) @ fst w @ p \<and> offset f' = length (content f')"
proof (induction p w arbitrary: buf' f' rule: bufio_Write.induct)
  case (1 p buf f)
  let ?n = "bufio_size - length buf"
  consider "length p \<le> ?n" | "\<not> length p \<le> ?n" "buf = []" | "\<not> length p \<le> ?n" "buf \<noteq> []" by blast
  then show ?case
  proof cases
    case 1
    then show ?thesis using "1.prems" by (subst (asm) bufio_Write.simps) auto
  next
    case 2
    then show ?thesis using "1.prems" by (subst (asm) bufio_Write.simps) (auto simp: file_write_end)
  next
    case 3
    then have "bufio_Write p (buf, f) = bufio_Write (drop ?n p) ([], file_write (buf @ take ?n p) f)"
      by (subst bufio_Write.simps) (simp add: Let_def)
    then have e: "bufio_Write (drop ?n p) ([], file_write (buf @ take ?n p) f) = (buf', f')" using "1.prems"(2) by simp
    have w: "file_write (buf @ take ?n p) f = f\<lparr>content := content f @ buf @ take ?n p, offset := length (content f) + length (buf @ take ?n p)\<rparr>"
      using "1.prems"(1) by (simp add: file_write_end)
    have "content f' @ buf' = (content f @ buf @ take ?n p) @ drop ?n p \<and> offset f' = length (content f')"
      using "1.IH" [OF 3 refl _ e] by (simp add: w)
    then show ?thesis by simp
  qed
qed

lemma append_loop_positions:
  "append_loop cd bs p w l = (None, w', l') \<Longrightarrow> offset (snd w) = length (content (snd w)) \<Longrightarrow>
   content (snd w') @ fst w' = content (snd w) @ fst w @ file_bytes cd bs \<and> offset (snd w') = length (content (snd w')) \<and>
   (\<forall>b \<in> set bs. Marshal cd b \<noteq> None) \<and>
   (\<exists>es. l' = l\<lparr>entries := entries l @ es\<rparr> \<and> map pb es = bs \<and>
      (\<forall>k < length bs. Position (es ! k) = p + (\<Sum>b\<leftarrow>take k bs. length (the (Marshal cd b)))))"
proof (induction bs arbitrary: p w l)
  case (Cons b bs)
  let ?e = "\<lparr>pb = b, Position = p, event = None\<rparr>"
  obtain sz w1 l1 where wr: "writeEntry cd ?e w l = Inr (sz, w1, l1)" and rec: "append_loop cd bs (p + sz) w1 l1 = (None, w', l')"
    using Cons.prems(1) by (auto split: sum.splits prod.splits)
  obtain c where c: "Marshal cd b = Some c" "sz = length c" "w1 = bufio_Write c (bufio_Write (hex8 (length c) @ [10]) w)"
    using wr by (cases "Marshal cd b") (auto simp: writeEntry_def Encode_def split: if_splits option.splits)
  have l1: "l1 = l\<lparr>entries := entries l @ [?e]\<rparr>" using wr by (rule writeEntry_Inr)
  obtain b1 f1 where h: "bufio_Write (hex8 (length c) @ [10]) w = (b1, f1)" by (rule prod.exhaust)
  obtain b2 f2 where k: "bufio_Write c (b1, f1) = (b2, f2)" by (rule prod.exhaust)
  have w1: "w1 = (b2, f2)" using c(3) h k by simp
  have "content f2 @ b2 = content (snd w) @ fst w @ entry_bytes cd b" "offset f2 = length (content f2)"
    using bufio_Write_bytes [OF Cons.prems(2) h] bufio_Write_bytes [OF _ k] c(1) by (auto simp: entry_bytes_def)
  then have o: "content (snd w1) @ fst w1 = content (snd w) @ fst w @ entry_bytes cd b" "offset (snd w1) = length (content (snd w1))"
    by (simp_all add: w1)
  from Cons.IH [OF rec o(2)] obtain es where es: "l' = l1\<lparr>entries := entries l1 @ es\<rparr>" "map pb es = bs"
    "\<forall>k < length bs. Position (es ! k) = p + sz + (\<Sum>b\<leftarrow>take k bs. length (the (Marshal cd b)))"
    "content (snd w') @ fst w' = content (snd w1) @ fst w1 @ file_bytes cd bs" "offset (snd w') = length (content (snd w'))"
    "\<forall>b \<in> set bs. Marshal cd b \<noteq> None" by blast
  have "content (snd w') @ fst w' = content (snd w) @ fst w @ file_bytes cd (b # bs)" using es(4) o(1) by (metis append.assoc file_bytes_simps(2))
  moreover have "Position ((?e # es) ! k) = p + (\<Sum>b\<leftarrow>take k (b # bs). length (the (Marshal cd b)))" if "k < length (b # bs)" for k
    using that es(3) c by (cases k) auto
  ultimately show ?case using es c(1) l1 by (intro conjI exI [of _ "?e # es"]) auto
qed simp

lemma length_entry_bytes: "good_codec cd \<Longrightarrow> Marshal cd b \<noteq> None \<Longrightarrow> length (entry_bytes cd b) = length (the (Marshal cd b)) + 9"
  using length_hex8 by (auto simp: entry_bytes_def good_codec_def)

lemma length_file_bytes:
  "good_codec cd \<Longrightarrow> \<forall>b \<in> set bs. Marshal cd b \<noteq> None \<Longrightarrow>
   length (file_bytes cd bs) = (\<Sum>b\<leftarrow>bs. length (the (Marshal cd b))) + 9 * length bs"
  by (induction bs) (simp_all add: length_entry_bytes)

text \<open>What \<open>appendEntries\<close> has written is in the file, and it knows where the first of its entries begins.\<close>

lemma appendEntries_in_file:
  assumes d: "in_file cd l" and a: "appendEntries cd bs l = Some (None, l')"
  shows "in_file cd l'" and "pbs l' = pbs l @ bs" and "same_but_entries l l'"
    and "\<exists>es. entries l' = entries l @ es \<and> map pb es = bs \<and> (\<forall>k < length bs. Position (es ! k) =
      length (file_bytes cd (pbs l)) + (\<Sum>b\<leftarrow>take k bs. length (the (Marshal cd b))))"
proof -
  obtain f where f: "log_file l = Some f" "content f = file_bytes cd (pbs l)" "offset f = length (content f)"
    using d by (auto simp: in_file_def)
  obtain w l1 where lp: "append_loop cd bs (offset f) ([], f) l = (None, w, l1)" and l': "l' = l1\<lparr>log_file := Some (bufio_Flush w)\<rparr>"
    using a f(1) by (auto simp: appendEntries_def split: prod.splits option.splits)
  obtain es where es: "l1 = l\<lparr>entries := entries l @ es\<rparr>" "map pb es = bs"
    "\<forall>k < length bs. Position (es ! k) = offset f + (\<Sum>b\<leftarrow>take k bs. length (the (Marshal cd b)))"
    and w: "content (snd w) @ fst w = content f @ file_bytes cd bs" "offset (snd w) = length (content (snd w))" "\<forall>b \<in> set bs. Marshal cd b \<noteq> None"
    using append_loop_positions [OF lp] f(3) by auto
  show p: "pbs l' = pbs l @ bs" using es by (simp add: l' pbs_def)
  show "same_but_entries l l'" using f by (simp add: l' es same_but_entries_def)
  have c: "content (bufio_Flush w) = file_bytes cd (pbs l')" using w(1,2) f(2) by (simp add: bufio_Flush_def file_write_end p)
  have "offset (bufio_Flush w) = length (content (snd w) @ fst w)" using w(2) by (simp add: bufio_Flush_def file_write_end)
  then have "offset (bufio_Flush w) = length (content (bufio_Flush w))" using w(1) f(2) by (simp add: c p)
  then show "in_file cd l'" using d w(3) c unfolding in_file_def p by (auto simp: l')
  show "\<exists>es. entries l' = entries l @ es \<and> map pb es = bs \<and> (\<forall>k < length bs. Position (es ! k) =
      length (file_bytes cd (pbs l)) + (\<Sum>b\<leftarrow>take k bs. length (the (Marshal cd b))))"
    using es f(2,3) by (intro exI [of _ es]) (simp add: l')
qed

lemma appendEntries_on_disk:
  assumes d: "on_disk cd l" and a: "appendEntries cd bs l = Some (None, l')" and one: "length bs \<le> 1"
  shows "on_disk cd l'"
proof -
  have f: "in_file cd l" using d by (simp add: on_disk_iff)
  obtain es where es: "entries l' = entries l @ es" "map pb es = bs" "\<forall>k < length bs. Position (es ! k) =
      length (file_bytes cd (pbs l)) + (\<Sum>b\<leftarrow>take k bs. length (the (Marshal cd b)))" using appendEntries_in_file(4) [OF f a] by blast
  consider "es = []" | e where "es = [e]" using one es(2) by (cases es; cases "tl es") auto
  then show ?thesis
  proof cases
    case 1
    then show ?thesis using d appendEntries_in_file(1) [OF f a] es(1) by (simp add: on_disk_iff pbs_def)
  next
    case 2
    then have "e = e\<lparr>Position := length (file_bytes cd (pbs l))\<rparr>" using es(2,3) by auto
    then show ?thesis using on_disk_snoc [OF d appendEntries_in_file(1) [OF f a]] es(1) 2 by metis
  qed
qed

section \<open>Reopening\<close>

text \<open>What a log goes through: entries that it creates and appends, as a leader does, entries that it is
  given, as the ones of an append request, truncations and commits.\<close>

datatype log_op = Append u64 "string \<times> byte list option" "nat option" | Receive "entry_pb list" | Truncate u64 u64 | Commit u64

fun exec :: "('c, 'r, 'x) machine \<Rightarrow> log_op \<Rightarrow> 'r log \<times> 'x \<Rightarrow> ('r log \<times> 'x) option" where
  "exec m (Append t c v) (l, x) =
     Some (case createEntry t c v l of None \<Rightarrow> l | Some e \<Rightarrow> snd (appendEntry (the_codec m) e l), x)"
| "exec m (Receive ps) (l, x) = map_option (\<lambda>(_, l). (l, x)) (appendEntries (the_codec m) ps l)"
| "exec m (Truncate i t) (l, x) = map_option (\<lambda>(_, l). (l, x)) (log_truncate i t l)"
| "exec m (Commit i) (l, x) = map_option snd (setCommitIndex m i (l, x))"

fun execs :: "('c, 'r, 'x) machine \<Rightarrow> log_op list \<Rightarrow> 'r log \<times> 'x \<Rightarrow> ('r log \<times> 'x) option" where
  "execs m [] lx = Some lx"
| "execs m (a # as) lx = Option.bind (exec m a lx) (execs m as)"

text \<open>How many entries an operation may add, and whether it is a request of at most one entry, if it is one.\<close>

fun adds :: "log_op \<Rightarrow> nat" where
  "adds (Append t c v) = 1"
| "adds (Receive ps) = length ps"
| "adds _ = 0"

fun at_most_one :: "log_op \<Rightarrow> bool" where
  "at_most_one (Receive ps) = (length ps \<le> 1)"
| "at_most_one _ = True"

text \<open>The operations in a run: the entries of a request have the indices behind the log's, and the log takes
  them all; unless no request of the run has several entries, a truncation that cuts the log does it
  at an entry whose position is recorded right.\<close>

fun proper :: "('c, 'r, 'x) machine \<Rightarrow> bool \<Rightarrow> log_op \<Rightarrow> 'r log \<Rightarrow> bool" where
  "proper m one (Receive ps) l \<longleftrightarrow> indexed (length (entries l)) ps \<and> map_option fst (appendEntries (the_codec m) ps l) = Some None"
| "proper m one (Truncate i t) l \<longleftrightarrow> one \<or> truncate_error i t l \<noteq> None \<or> cuts_between (the_codec m) i l"
| "proper m one _ l \<longleftrightarrow> True"

fun all_proper :: "('c, 'r, 'x) machine \<Rightarrow> bool \<Rightarrow> log_op list \<Rightarrow> 'r log \<times> 'x \<Rightarrow> bool" where
  "all_proper m one [] lx \<longleftrightarrow> True"
| "all_proper m one (a # as) lx \<longleftrightarrow> proper m one a (fst lx) \<and> (case exec m a lx of None \<Rightarrow> True | Some lx \<Rightarrow> all_proper m one as lx)"

definition written_log :: "codec \<Rightarrow> bool \<Rightarrow> nat \<Rightarrow> 'r log \<Rightarrow> bool" where
  "written_log cd one n l \<longleftrightarrow> in_file cd l \<and> (one \<longrightarrow> on_disk cd l) \<and> log_ok l \<and> startIndex l = 0 \<and> length (entries l) \<le> n"

lemma written_log_append:
  assumes w: "written_log cd one n l" and n: "n < 2 ^ 64 - 2" and c: "createEntry t c v l = Some e"
  shows "written_log cd one (Suc n) (snd (appendEntry cd e l))"
proof (cases "appendEntry cd e l")
  case (Pair er l')
  show ?thesis
  proof (cases er)
    case (Some x)
    then have "l' = l" using Pair by (auto simp: appendEntry_def Let_def split: option.splits prod.splits)
    then show ?thesis using w Pair by (simp add: written_log_def)
  next
    case None
    then have a: "appendEntry cd e l = (None, l')" using Pair by simp
    have d: "in_file cd l" "one \<Longrightarrow> on_disk cd l" and ok: "log_ok l" and z: "startIndex l = 0" and le: "length (entries l) \<le> n"
      using w by (simp_all add: written_log_def)
    have p: "pbs l' = pbs l @ [pb e]" and same: "same_but_entries l l'" using appendEntry_in_file [OF d(1) a] by simp_all
    have len: "length (entries l') = length (entries l) + 1" using arg_cong [OF p, of length] by simp
    have "pb_Index (pb e) = of_nat (length (entries l) + 1)"
      using c z by (auto simp: createEntry_def newLogEntry_def nextIndex_def currentIndex_ok [OF ok] end_index_def split: prod.splits)
    then have "indexed (length (entries l)) [pb e]" by (simp add: indexed_def)
    then have "log_ok l'" using ok same z le n len by (auto simp: log_ok_def p indexed_append same_but_entries_def)
    then show ?thesis using appendEntry_in_file(1) [OF d(1) a] appendEntry_on_disk(1) [OF d(2) a] same z le len Pair
      by (simp add: written_log_def same_but_entries_def)
  qed
qed

lemma written_log_receive:
  assumes w: "written_log cd one n l" and n: "n + length ps < 2 ^ 64 - 1" and i: "indexed (length (entries l)) ps"
    and a: "appendEntries cd ps l = Some (None, l')" and o: "one \<Longrightarrow> length ps \<le> 1"
  shows "written_log cd one (n + length ps) l'"
proof -
  have d: "in_file cd l" "one \<Longrightarrow> on_disk cd l" and ok: "log_ok l" and z: "startIndex l = 0" and le: "length (entries l) \<le> n"
    using w by (simp_all add: written_log_def)
  have p: "pbs l' = pbs l @ ps" and same: "same_but_entries l l'" using appendEntries_in_file [OF d(1) a] by simp_all
  have len: "length (entries l') = length (entries l) + length ps" using arg_cong [OF p, of length] by simp
  have "log_ok l'" using ok same z le n i len by (auto simp: log_ok_def p indexed_append same_but_entries_def)
  then show ?thesis using appendEntries_in_file(1) [OF d(1) a] appendEntries_on_disk [OF d(2) a o] same z le len
    by (simp add: written_log_def same_but_entries_def)
qed

lemma written_log_truncate:
  assumes w: "written_log cd one n l" and t: "log_truncate i t l = Some (e, l')" and c: "one \<or> truncate_error i t l \<noteq> None \<or> cuts_between cd i l"
  shows "written_log cd one n l'"
proof -
  have d: "in_file cd l" "one \<Longrightarrow> on_disk cd l" and ok: "log_ok l" using w by (simp_all add: written_log_def)
  have e: "e = truncate_error i t l" "same_but_entries l l'" "e \<noteq> None \<Longrightarrow> l' = l" using truncate_spec [OF ok, of i t] t by auto
  show ?thesis
  proof (cases e)
    case None
    then have "cuts_between cd i l" using c e(1) on_disk_cuts [OF d(2)] by metis
    from truncate_in_file [OF d(1) ok _ this] show ?thesis using truncate_on_disk [OF d(2) ok] truncate_ok [OF ok] t None e(2) w
      by (auto simp: written_log_def same_but_entries_def)
  qed (use e(3) w in simp)
qed

lemma written_log_exec:
  assumes w: "written_log (the_codec m) one n l" and n: "n + adds a < 2 ^ 64 - 1" and p: "proper m one a l" and o: "one \<Longrightarrow> at_most_one a"
  shows "\<exists>l' x'. exec m a (l, x) = Some (l', x') \<and> written_log (the_codec m) one (n + adds a) l'"
proof -
  have ok: "log_ok l" using w by (simp add: written_log_def)
  show ?thesis
  proof (cases a)
    case (Append t c v)
    then show ?thesis using w n written_log_append [OF w, of t c v] by (auto simp: written_log_def split: option.split)
  next
    case (Receive ps)
    then obtain l' where a: "appendEntries (the_codec m) ps l = Some (None, l')" using p by auto
    show ?thesis using written_log_receive [OF w _ _ a] a n p o Receive by simp
  next
    case (Truncate i t)
    obtain l' where t: "log_truncate i t l = Some (truncate_error i t l, l')" using truncate_spec [OF ok, of i t] by metis
    show ?thesis using written_log_truncate [OF w t] t p Truncate by simp
  next
    case (Commit i)
    obtain e l' x' where c: "setCommitIndex m i (l, x) = Some (e, l', x')" "same_entries l l'" "log_ok l'"
      using setCommitIndex_spec [OF ok, of m i x] by blast
    then have "written_log (the_codec m) one n l'" using w by (simp add: written_log_def on_disk_def in_file_def pbs_def same_entries_def)
    then show ?thesis using c(1) Commit by simp
  qed
qed

lemma written_log_execs:
  "written_log (the_codec m) one n l \<Longrightarrow> n + sum_list (map adds as) < 2 ^ 64 - 1 \<Longrightarrow> all_proper m one as (l, x) \<Longrightarrow> (one \<Longrightarrow> list_all at_most_one as) \<Longrightarrow>
   \<exists>l' x'. execs m as (l, x) = Some (l', x') \<and> written_log (the_codec m) one (n + sum_list (map adds as)) l'"
proof (induction as arbitrary: n l x)
  case (Cons a as)
  then obtain l1 x1 where s: "exec m a (l, x) = Some (l1, x1)" "written_log (the_codec m) one (n + adds a) l1"
    using written_log_exec [of m one n l a x] by auto
  then have "all_proper m one as (l1, x1)" using Cons.prems(3) by simp
  then show ?case using Cons.IH [OF s(2)] Cons.prems(2,4) s(1) by (simp add: add.assoc)
qed auto

definition fresh_log :: "'r log" where
  "fresh_log = newLog\<lparr>log_file := Some (opened []), initialized := True\<rparr>"

lemma written_log_fresh: "written_log cd one 0 fresh_log"
  by (simp add: written_log_def in_file_def on_disk_def log_ok_def fresh_log_def newLog_def opened_def pbs_def indexed_def)

lemma same_placed:
  assumes "on_disk cd l"
  shows "map (\<lambda>e. (pb e, Position e)) (placed cd 0 (pbs l)) = map (\<lambda>e. (pb e, Position e)) (entries l)"
proof -
  have "map (\<lambda>e. (pb e, Position e)) (placed cd 0 (pbs l)) = map (\<lambda>e. (pb e, Position e)) (map (\<lambda>e. e\<lparr>event := None\<rparr>) (entries l))"
    using assms by (simp only: on_disk_def)
  then show ?thesis by (simp add: o_def)
qed

lemma log_open_in_file:
  assumes cd: "good_codec (the_codec m)" and d: "in_file (the_codec m) l" and ok: "log_ok l" "startIndex l = 0" and f: "log_file l = Some f"
  shows "\<exists>l'. log_open m (Some (content f)) (newLog, y) = Some (l', y) \<and> entries l' = placed (the_codec m) 0 (pbs l) \<and>
    startIndex l' = 0 \<and> startTerm l' = 0"
proof -
  let ?cd = "the_codec m"
  have c: "content f = file_bytes ?cd (pbs l)" using d f by (simp add: in_file_def)
  have "pb_Index (pbs l ! k) \<noteq> 0" if "k < length (pbs l)" for k
  proof -
    have "pb_Index (pbs l ! k) = of_nat (k + 1)" "k + 1 < 2 ^ 64" using ok that by (auto simp: log_ok_def indexed_def)
    then have "unat (pb_Index (pbs l ! k)) = k + 1" using unat_of_nat64 by metis
    then show ?thesis by auto
  qed
  then have "\<forall>p \<in> set (pbs l). Marshal ?cd p \<noteq> None \<and> pb_Index p \<noteq> 0" using d by (auto simp: in_file_def in_set_conv_nth)
  then have "open_loop m (opened (content f)) 0 (newLog, y) =
      Some (opened (content f)\<lparr>offset := length (content f)\<rparr>, newLog\<lparr>entries := placed ?cd 0 (pbs l)\<rparr>, y)"
    using open_loop_file [OF cd, of "opened (content f)" "[]" "pbs l" newLog 0 y] c by (simp add: opened_def newLog_def)
  then show ?thesis by (auto simp: log_open_def newLog_def)
qed

lemmas log_open_on_disk = log_open_in_file [OF _ conjunct1 [OF on_disk_iff [THEN iffD1]]]

text \<open>C19. What a log has written is read back: after any sequence of entries appended by \<open>appendEntry\<close>,
  append requests given to \<open>appendEntries\<close>, truncations and commits on a new log, none of which
  panics, \<open>open\<close> on the bytes of its file returns a log with the same entries, and at the same
  positions when no request has more than one entry. The sequence is such that it adds fewer than
  \<open>2^64 - 1\<close> entries, that a request continues the indices of the log and is taken without an error and,
  where there are requests of several entries, that a truncation that cuts does it at an entry whose
  position \<open>appendEntries\<close> has recorded right (it does for the first of a request only, log.go:497);
  entries come back from their encoding and are shorter than 4 gigabytes.\<close>

theorem raft_log_reopens:
  assumes "good_codec (the_codec m)" and "sum_list (map adds as) < 2 ^ 64 - 1" and "all_proper m (list_all at_most_one as) as (fresh_log, x)"
  shows "\<exists>l x1 f l'. execs m as (fresh_log, x) = Some (l, x1) \<and> log_file l = Some f \<and>
    log_open m (Some (content f)) (newLog, y) = Some (l', y) \<and> map pb (entries l') = map pb (entries l) \<and>
    (list_all at_most_one as \<longrightarrow> map Position (entries l') = map Position (entries l))"
proof -
  let ?cd = "the_codec m" and ?one = "list_all at_most_one as"
  obtain l x1 where e: "execs m as (fresh_log, x) = Some (l, x1)" and w: "written_log ?cd ?one (sum_list (map adds as)) l"
    using written_log_execs [OF written_log_fresh, of as m ?one x] assms(2,3) by auto
  then have d: "in_file ?cd l" "?one \<Longrightarrow> on_disk ?cd l" and ok: "log_ok l" "startIndex l = 0" by (simp_all add: written_log_def)
  then obtain f where f: "log_file l = Some f" by (auto simp: in_file_def)
  have p: "map Position (placed ?cd 0 (pbs l)) = map Position (entries l)" if "?one"
    using arg_cong [OF same_placed [OF d(2) [OF that]], of "map snd"] by (simp add: o_def)
  show ?thesis using e f log_open_in_file [OF assms(1) d(1) ok f, of y] p by (auto simp: pbs_def)
qed

text \<open>A codec for concrete runs, of small entries.\<close>

definition demo_codec :: codec where
  "demo_codec = \<lparr>Marshal = (\<lambda>p. if pb_Index p < 256 \<and> pb_Term p < 256 \<and> pb_CommandName p = ''set'' \<and> length (pb_Command p) < 200
       then Some (ucast (pb_Index p) # ucast (pb_Term p) # pb_Command p) else None),
     Unmarshal = (\<lambda>bs. case bs of i # t # c \<Rightarrow> Some \<lparr>pb_Index = ucast i, pb_Term = ucast t, pb_CommandName = ''set'', pb_Command = c\<rparr> | _ \<Rightarrow> None)\<rparr>"

lemma demo_codec_good: "good_codec demo_codec"
proof -
  have "ucast (ucast x :: byte) = x" if "x < 256" for x :: u64
    using that by (simp add: word_unat_eq_iff unsigned_ucast_eq unsigned_take_bit_eq word_less_nat_alt take_bit_nat_eq_self)
  then show ?thesis by (auto simp: good_codec_def demo_codec_def split: if_splits)
qed

definition demo_machine :: "(byte list, byte list, byte list) machine" where
  "demo_machine = \<lparr>the_codec = demo_codec, newCommand = (\<lambda>n b. Some b), isJoin = (\<lambda>_. False), ApplyFunc = (\<lambda>e c l x. (x, c))\<rparr>"

definition demo_ops :: "log_op list" where
  "demo_ops = [Append 1 (''set'', Some [7]) None, Append 1 (''set'', Some [8, 9]) None, Commit 1, Append 2 (''set'', Some []) None, Truncate 2 1,
     Append 3 (''set'', Some [5]) None]"

text \<open>A follower: three requests, of which the last one, of two entries, replaces the entry of the second.\<close>

definition demo_received :: "log_op list" where
  "demo_received = (let pb = \<lambda>i t c. \<lparr>pb_Index = i, pb_Term = t, pb_CommandName = ''set'', pb_Command = c\<rparr> in
     [Receive [pb 1 1 [7], pb 2 1 [8]], Receive [pb 3 1 [9]], Truncate 2 1, Receive [pb 3 2 [1], pb 4 2 [2, 3]], Commit 3,
      Append 2 (''set'', Some [4]) None])"

theorem raft_log_reopens_witness:
  "\<exists>l x1 f l' k x2 g k'. execs demo_machine demo_ops (fresh_log, []) = Some (l, x1) \<and> log_file l = Some f \<and>
     log_open demo_machine (Some (content f)) (newLog, []) = Some (l', []) \<and> map pb_Command (pbs l') = [[7], [8, 9], [5]] \<and>
     map Position (entries l') = map Position (entries l) \<and>
     execs demo_machine demo_received (fresh_log, []) = Some (k, x2) \<and> log_file k = Some g \<and>
     log_open demo_machine (Some (content g)) (newLog, []) = Some (k', []) \<and> map pb_Command (pbs k') = [[7], [8], [1], [2, 3], [4]]"
proof -
  have cd: "good_codec (the_codec demo_machine)" using demo_codec_good by (simp add: demo_machine_def)
  have n: "sum_list (map adds demo_ops) < 2 ^ 64 - 1" "sum_list (map adds demo_received) < 2 ^ 64 - 1"
    by (simp_all add: demo_ops_def demo_received_def Let_def)
  have one: "list_all at_most_one demo_ops" by (simp add: demo_ops_def)
  have p: "all_proper demo_machine True demo_ops (fresh_log, [])" by code_simp
  have q: "all_proper demo_machine (list_all at_most_one demo_received) demo_received (fresh_log, [])" by code_simp
  obtain l x1 f l' where l: "execs demo_machine demo_ops (fresh_log, []) = Some (l, x1)" "log_file l = Some f"
    "log_open demo_machine (Some (content f)) (newLog, []) = Some (l', [])" "map pb (entries l') = map pb (entries l)"
    "map Position (entries l') = map Position (entries l)"
    using raft_log_reopens [OF cd n(1), of "[]" "[]"] one p by auto
  obtain k x2 g k' where k: "execs demo_machine demo_received (fresh_log, []) = Some (k, x2)" "log_file k = Some g"
    "log_open demo_machine (Some (content g)) (newLog, []) = Some (k', [])" "map pb (entries k') = map pb (entries k)"
    using raft_log_reopens [OF cd n(2) q, of "[]"] by auto
  have "map_option (\<lambda>(l, x). map pb_Command (pbs l)) (execs demo_machine demo_ops (fresh_log, [])) = Some [[7], [8, 9], [5]]"
    "map_option (\<lambda>(l, x). map pb_Command (pbs l)) (execs demo_machine demo_received (fresh_log, [])) = Some [[7], [8], [1], [2, 3], [4]]"
    by code_simp+
  then have "map pb_Command (pbs l) = [[7], [8, 9], [5]]" "map pb_Command (pbs k) = [[7], [8], [1], [2, 3], [4]]" using l(1) k(1) by simp_all
  then have "map pb_Command (pbs l') = [[7], [8, 9], [5]]" "map pb_Command (pbs k') = [[7], [8], [1], [2, 3], [4]]" using l(4) k(4) by (simp_all add: pbs_def)
  then show ?thesis using l(1-3,5) k(1-3)
    by (intro exI [of _ l] exI [of _ x1] exI [of _ f] exI [of _ l'] exI [of _ k] exI [of _ x2] exI [of _ g] exI [of _ k'] conjI)
qed

section \<open>Positions\<close>

text \<open>\<open>appendEntries\<close> writes the entries that it is given behind those that the file holds, but the
  positions that it records count the payloads alone: the one of its k-th entry is 9 bytes short for
  each entry before it, the line with the length that \<open>Encode\<close> does not count. A truncation at
  such an entry cuts into the entry before it.\<close>

theorem raft_append_entries_positions:
  assumes "good_codec cd" and "on_disk cd l" and "appendEntries cd bs l = Some (None, l')"
  shows "\<exists>f'. log_file l' = Some f' \<and> pbs l' = pbs l @ bs \<and> content f' = file_bytes cd (pbs l') \<and>
    (\<forall>k < length bs. Position (entries l' ! (length (entries l) + k)) + 9 * k = length (file_bytes cd (pbs l @ take k bs)))"
proof -
  have d: "in_file cd l" using assms(2) by (simp add: on_disk_iff)
  note a = appendEntries_in_file [OF d assms(3)]
  obtain es where es: "entries l' = entries l @ es" "\<forall>k < length bs. Position (es ! k) =
      length (file_bytes cd (pbs l)) + (\<Sum>b\<leftarrow>take k bs. length (the (Marshal cd b)))" using a(4) by blast
  have m: "\<forall>b \<in> set bs. Marshal cd b \<noteq> None" using a(1,2) by (auto simp: in_file_def)
  have "Position (entries l' ! (length (entries l) + k)) + 9 * k = length (file_bytes cd (pbs l @ take k bs))" if k: "k < length bs" for k
  proof -
    have "\<forall>b \<in> set (take k bs). Marshal cd b \<noteq> None" using m by (blast dest: in_set_takeD)
    then show ?thesis using length_file_bytes [OF assms(1), of "take k bs"] k es by (simp add: nth_append)
  qed
  then show ?thesis using a(1,2) by (auto simp: in_file_def)
qed

definition demo_pb :: "u64 \<Rightarrow> byte list \<Rightarrow> entry_pb" where
  "demo_pb i c = \<lparr>pb_Index = i, pb_Term = 1, pb_CommandName = ''set'', pb_Command = c\<rparr>"

definition demo_log :: "byte list applied log" where
  "demo_log = snd (appendEntry demo_codec \<lparr>pb = demo_pb 1 [7], Position = 0, event = None\<rparr> fresh_log)"

lemma demo_log_on_disk: "on_disk demo_codec demo_log"
proof -
  have "on_disk demo_codec (fresh_log :: byte list applied log)" using written_log_fresh [of demo_codec True] unfolding written_log_def by blast
  moreover have "appendEntry demo_codec \<lparr>pb = demo_pb 1 [7], Position = 0, event = None\<rparr> fresh_log = (None, demo_log)"
    unfolding demo_log_def by (rule prod_eqI) (code_simp, simp)
  ultimately show ?thesis by (rule appendEntry_on_disk(1))
qed

lemma demo_log_facts:
  "pbs demo_log = [demo_pb 1 [7]]" "startIndex demo_log = 0" "startTerm demo_log = 0" "commitIndex demo_log = 0"
  "length (entries demo_log) = 1" "log_file demo_log \<noteq> None"
  unfolding pbs_def by code_simp+

lemma demo_log_ok: "log_ok demo_log"
  unfolding log_ok_def demo_log_facts by (simp add: indexed_def demo_pb_def)

text \<open>The file of a follower that has appended two entries and truncated the second of them has lost the first too.\<close>

definition demo_appended :: "byte list applied log" where
  "demo_appended = snd (the (appendEntries demo_codec [demo_pb 2 [8], demo_pb 3 [9]] demo_log))"

theorem raft_append_entries_positions_witness:
  "Position (entries demo_appended ! 2) + 9 = length (file_bytes demo_codec [demo_pb 1 [7], demo_pb 2 [8]]) \<and>
   map_option (\<lambda>(e, l). (map pb_Command (pbs l), map_option (\<lambda>(l, x). map pb_Command (pbs l)) (log_open demo_machine (map_option content (log_file l)) (newLog, []))))
     (log_truncate 2 1 demo_appended) = Some ([[7], [8]], Some [[7]])"
proof -
  have a: "appendEntries demo_codec [demo_pb 2 [8], demo_pb 3 [9]] demo_log = Some (None, demo_appended)"
  proof -
    have "map_option fst (appendEntries demo_codec [demo_pb 2 [8], demo_pb 3 [9]] demo_log) = Some None" by code_simp
    then show ?thesis by (auto simp: demo_appended_def)
  qed
  have "Position (entries demo_appended ! 2) + 9 = length (file_bytes demo_codec [demo_pb 1 [7], demo_pb 2 [8]])"
    using raft_append_entries_positions [OF demo_codec_good demo_log_on_disk a] demo_log_facts by (auto dest!: spec [of _ 1] simp: numeral_2_eq_2)
  moreover have "map_option (\<lambda>(e, l). (map pb_Command (pbs l), map_option (\<lambda>(l, x). map pb_Command (pbs l))
      (log_open demo_machine (map_option content (log_file l)) (newLog, [])))) (log_truncate 2 1 demo_appended) = Some ([[7], [8]], Some [[7]])"
    by code_simp
  ultimately show ?thesis by blast
qed

section \<open>Starting again\<close>

text \<open>A server that starts again votes again: neither term nor vote is on the disk, so a server that
  granted its vote, and starts from the file of its log, grants it to any other candidate that asks
  in the same term with the same log.\<close>

theorem raft_restart_votes_twice:
  assumes "good_codec (env_codec ev)" and "on_disk (env_codec ev) (log s)" and "log_ok (log s)" and "startIndex (log s) = 0" and "startTerm (log s) = 0"
    and "log_file (log s) = Some f" and "snd (lastInfo (log s)) < rv_Term req"
    and "processRequestVoteRequest req s = Some ((resp, b), s1)" and "rvr_VoteGranted resp"
    and "NewServer n has a conn = Some s0"
  shows "votedFor s1 = rv_CandidateName req \<and> (\<exists>s2 s3. Start ev (Some (content f)) s0 = Some s2 \<and>
    processRequestVoteRequest (req\<lparr>rv_CandidateName := c\<rparr>) s2 = Some ((newRequestVoteResponse (rv_Term req) True, True), s3) \<and>
    votedFor s3 = c)"
proof -
  obtain l' where l': "log_open (server_machine ev) (Some (content f)) (newLog, s0) = Some (l', s0)"
    "entries l' = placed (env_codec ev) 0 (pbs (log s))" "startIndex l' = 0" "startTerm l' = 0"
    using log_open_on_disk [of "server_machine ev" "log s" f s0] assms(1-6) by (auto simp: server_machine_def)
  have pl: "map pb (entries l') = map pb (entries (log s))" using l'(2) by (simp add: pbs_def)
  have last: "lastInfo l' = lastInfo (log s)"
  proof (cases "entries (log s) = []")
    case True
    then show ?thesis using pl l' assms(4,5) by (simp add: lastInfo_def)
  next
    case False
    then have "pb (last (entries l')) = pb (last (entries (log s)))" "entries l' \<noteq> []" using pl by (metis last_map map_is_Nil_conv)+
    then show ?thesis using False by (simp add: lastInfo_def Index_def Term_def)
  qed
  have s0: "state s0 = Stopped" "log s0 = newLog" "conf_file s0 = None" using assms(10) by (auto simp: NewServer_def split: if_splits)
  define s2 where "s2 = setState Follower (s0\<lparr>log := l', currentTerm := snd (lastInfo l'), state := Initialized\<rparr>)"
  have start: "Start ev (Some (content f)) s0 = Some s2"
    using s0 l'(1) by (simp add: Start_def Init_def Running_def readConf_def newLog_def Let_def s2_def)
  have g: "\<not> fst (lastInfo (log s)) > rv_LastLogIndex req \<and> \<not> snd (lastInfo (log s)) > rv_LastLogTerm req \<and> votedFor s1 = rv_CandidateName req"
    using assms(8,9) updateCurrentTerm_spec [of s "rv_Term req" "[]"]
    by (auto simp: processRequestVoteRequest_def newRequestVoteResponse_def Let_def split: if_splits prod.splits)
  have f2: "log s2 = l'" "currentTerm s2 = snd (lastInfo l')" by (simp_all add: s2_def setState_def Let_def)
  obtain s3 where s3: "updateCurrentTerm (rv_Term req) [] s2 = Some s3" "log s3 = l'" "currentTerm s3 = rv_Term req"
    using updateCurrentTerm_spec [of s2 "rv_Term req" "[]"] f2 last assms(7) by auto
  have "processRequestVoteRequest (req\<lparr>rv_CandidateName := c\<rparr>) s2 =
      Some ((newRequestVoteResponse (rv_Term req) True, True), s3\<lparr>votedFor := c\<rparr>)"
    using s3 f2 last assms(7) g by (auto simp: processRequestVoteRequest_def Let_def split: prod.splits)
  then show ?thesis using start g by auto
qed

definition demo_env :: "(byte list, byte list, byte list) env" where
  "demo_env = \<lparr>env_codec = demo_codec, env_newCommand = (\<lambda>n b. Some (Client b)),
     env_encode = (\<lambda>c. case c of Client b \<Rightarrow> (''set'', Some b) | _ \<Rightarrow> ([], None)), env_apply = (\<lambda>b _ a. (a, b)),
     env_Save = Some, env_Recovery = (\<lambda>b _. Some b)\<rparr>"

definition demo_new :: "string \<Rightarrow> (byte list, byte list) server" where
  "demo_new i = the (NewServer i True [] [])"

definition demo_voter :: "(byte list, byte list) server" where
  "demo_voter = (demo_new ''b'')\<lparr>state := Follower, currentTerm := 1, log := demo_log\<rparr>"

theorem raft_restart_votes_twice_witness:
  "\<exists>s2 s3. Start demo_env (map_option content (log_file demo_log)) (demo_new ''b'') = Some s2 \<and>
     votedFor (snd (the (processRequestVoteRequest (newRequestVoteRequest 2 ''a'' 1 1) demo_voter))) = ''a'' \<and>
     processRequestVoteRequest (newRequestVoteRequest 2 ''c'' 1 1) s2 = Some ((newRequestVoteResponse 2 True, True), s3) \<and> votedFor s3 = ''c''"
proof -
  obtain f where f: "log_file demo_log = Some f" using demo_log_on_disk by (auto simp: on_disk_def)
  have n: "NewServer ''b'' True [] [] = Some (demo_new ''b'')" by (simp add: demo_new_def NewServer_def)
  obtain resp b s1 where v: "processRequestVoteRequest (newRequestVoteRequest 2 ''a'' 1 1) demo_voter = Some ((resp, b), s1)"
    by (metis processVote_spec)
  have "map_option (\<lambda>((r, b), s). rvr_VoteGranted r) (processRequestVoteRequest (newRequestVoteRequest 2 ''a'' 1 1) demo_voter) = Some True"
    "snd (lastInfo demo_log) < 2" by code_simp+
  then show ?thesis
    using raft_restart_votes_twice [where ev = demo_env and s = demo_voter and f = f and n = "''b''" and has = True and a = "[]" and conn = "[]"
        and c = "''c''" and req = "newRequestVoteRequest 2 ''a'' 1 1", OF _ _ _ _ _ _ _ v _ n]
      demo_codec_good demo_log_on_disk demo_log_ok demo_log_facts f v by (simp add: demo_env_def demo_voter_def newRequestVoteRequest_def)
qed

end
