(* ===== verification/RaftDemo.thy ===== *)
theory RaftDemo
  imports RaftMatching RaftDisk
begin

text \<open>A cluster of three servers with one entry each, for concrete runs.\<close>

definition demo_entry :: entry_pb where "demo_entry = demo_pb 1 [7]"

definition demo_server :: "string list \<Rightarrow> string \<Rightarrow> (byte list, byte list) server" where
  "demo_server C i = (case NewServer i True [] [] of Some s \<Rightarrow>
     s\<lparr>state := Follower, currentTerm := 1, log := demo_log,
       peers := map (\<lambda>j. (j, \<lparr>prevLogIndex = 0, ConnectionString = []\<rparr>)) (filter (\<lambda>j. j \<noteq> i) C)\<rparr>)"

definition demo_members :: "string list" where "demo_members = [''a'', ''b'', ''c'']"

definition demo_net :: "(byte list, byte list) net" where
  "demo_net = \<lparr>srv = demo_server demo_members, calls = [], inv = (\<lambda>_. 0), rounds = (\<lambda>_ _. 0), captured = (\<lambda>_ _. (0, 0)),
     votes = (\<lambda>_. 0), appends = [], answers = [], inbox = [], elected = []\<rparr>"

lemma demo_log_pbs: "pbs demo_log = [demo_entry]"
  by (simp add: demo_log_facts demo_entry_def)

lemma demo_server_start:
  assumes "[] \<notin> set C" and "distinct C" and "i \<in> set C"
  shows "server_start C [demo_entry] i (demo_server C i)"
proof -
  have "i \<noteq> []" using assms(1,3) by auto
  then have s: "demo_server C i = \<lparr>sname = i, state = Follower, currentTerm = 1, votedFor = [], log = demo_log, leader = [],
      peers = map (\<lambda>j. (j, \<lparr>prevLogIndex = 0, ConnectionString = []\<rparr>)) (filter (\<lambda>j. j \<noteq> i) C),
      syncedPeer = None, snap = None, pendingSnapshot = None, has_stateMachine = True, app = [],
      connectionString = [], snapshot_files = [], conf_file = None\<rparr>"
    by (simp add: demo_server_def NewServer_def)
  have "map fst (peers (demo_server C i)) = filter (\<lambda>j. j \<noteq> i) C" by (simp add: s o_def)
  then have "distinct (map fst (peers (demo_server C i)))" "set (map fst (peers (demo_server C i))) = set C - {i}"
    using assms(2) by (auto simp del: set_map)
  then show ?thesis using demo_log_facts demo_log_pbs by (simp add: server_start_def s demo_log_ok demo_entry_def demo_pb_def del: set_map)
qed

lemma demo_start: "net_start demo_members [demo_entry] demo_net"
proof -
  have "srv demo_net i = demo_server demo_members i" if "i \<in> set demo_members" for i
    using that by (auto simp: demo_net_def demo_members_def)
  then have "list_all (\<lambda>i. server_start demo_members [demo_entry] i (srv demo_net i)) demo_members"
    using demo_server_start [of demo_members] by (simp add: list_all_iff demo_members_def)
  moreover have "roomy demo_members demo_net" "distinct demo_members" "[] \<notin> set demo_members" by code_simp+
  ultimately show ?thesis by (simp add: net_start_def) (simp add: demo_net_def)
qed

lemma demo_static: "static demo_env"
  by (simp add: static_def demo_env_def)

end
