(* ===== verification/RaftProps.thy ===== *)
theory RaftProps
  imports RaftDemo
begin

text \<open>The cluster of go-raft servers: what holds in every calm run, and runs that break what it should keep.\<close>

section \<open>Safety\<close>

lemma reachable_raft_inv:
  assumes "static ev" and "net_start C ps w0" and "calm_run ev C as w0 = Some w"
  shows "\<exists>t0. raft_inv C t0 w \<and> roomy C w"
proof -
  obtain t0 where "raft_inv C t0 w0" using raft_inv_start [OF assms(2)] by blast
  moreover have "roomy C w0" using assms(2) by (simp add: net_start_def)
  ultimately show ?thesis using raft_inv_run [OF assms(1) _ _ assms(3)] by blast
qed

lemma flush_panics:
  assumes ok: "log_ok (log s)" and z: "startIndex (log s) = 0" and p: "map_of (peers s) j = Some p" and f: "flush s j = None"
  shows "end_index (log s) < prevLogIndex p"
proof (rule ccontr)
  assume c: "\<not> ?thesis"
  then have "unat (prevLogIndex p) \<le> length (entries (log s))" using log_ok_end [OF ok] z by (simp add: not_less word_le_nat_alt)
  then have "\<exists>es t. getEntriesAfter (log s) (prevLogIndex p) MaxLogEntriesPerRequest = Some (Some es, t)"
    by (rule getEntriesAfter_Some [OF ok z])
  then show False using f p by (auto simp: flush_def)
qed

text \<open>C3. Election safety, in every run of a cluster that is calm, however its messages are delayed,
  lost, repeated and reordered: a term has at most one elected leader, and a server that acts as the
  leader was elected in its term.\<close>

theorem raft_election_safety:
  assumes "static ev" and "net_start C ps w0" and "calm_run ev C as w0 = Some w"
  shows "(\<forall>i j T. (i, T) \<in> set (elected w) \<longrightarrow> (j, T) \<in> set (elected w) \<longrightarrow> i = j) \<and>
    (\<forall>i \<in> set C. state (srv w i) = Leader \<longrightarrow> (i, currentTerm (srv w i)) \<in> set (elected w))"
proof -
  obtain t0 V Cn where "election_inv C V w" "log_inv C t0 Cn w" using reachable_raft_inv [OF assms] by (auto simp: raft_inv_def)
  then show ?thesis using election_inv_safe by (fastforce simp: log_inv_def log_of_ok_def)
qed

definition demo_election :: "byte list action list" where
  "demo_election = [Election_timeout ''a'', Run_call 0, Run_call 1, Answer_vote 0, Receive_vote 0]"

definition demo_write :: "byte list action list" where
  "demo_write = [Heartbeat ''a'' ''b'', Client_command ''a'' (Client [1]) 1, Heartbeat ''a'' ''b'', Deliver_append 1, Receive_append 0, Process_append 0]"

text \<open>A run as a state, and what it shows of the servers: role, term, commit index, application, commands of the log.\<close>

definition after :: "byte list action list \<Rightarrow> (byte list, byte list) net" where
  "after as = the (calm_run demo_env demo_members as demo_net)"

definition shown :: "(byte list, byte list) net \<Rightarrow> (role \<times> u64 \<times> u64 \<times> byte list \<times> byte list list) list" where
  "shown w = map (\<lambda>i. (state (srv w i), currentTerm (srv w i), commitIndex (log (srv w i)), app (srv w i),
     map pb_Command (pbs (log (srv w i))))) demo_members"

lemma after_run: "calm_run demo_env demo_members as demo_net \<noteq> None \<Longrightarrow> calm_run demo_env demo_members as demo_net = Some (after as)"
  by (auto simp: after_def)

lemma demo_write_shown: "shown (after (demo_election @ demo_write)) =
    [(Leader, 2, 2, [1], [[7], [1]]), (Follower, 2, 0, [], [[7], [1]]), (Follower, 1, 0, [], [[7]])]"
  by code_simp

lemma demo_write_run: "calm_run demo_env demo_members (demo_election @ demo_write) demo_net = Some (after (demo_election @ demo_write))"
  by (rule after_run) code_simp

theorem raft_election_safety_witness:
  "elected (after (demo_election @ demo_write)) = [(''a'', 2)] \<and> (''a'', currentTerm (srv (after (demo_election @ demo_write)) ''a'')) \<in> {(''a'', 2)}"
proof -
  have e: "elected (after (demo_election @ demo_write)) = [(''a'', 2)]" by code_simp
  have l: "state (srv (after (demo_election @ demo_write)) ''a'') = Leader" by code_simp
  show ?thesis using raft_election_safety [OF demo_static demo_start demo_write_run] e l by (auto simp: demo_members_def)
qed

text \<open>C4. Log matching, in the same runs: if the logs of two servers have entries of the same term at an
  index, they are the same up to it; and the index that an entry carries is its place.\<close>

theorem raft_log_matching:
  assumes "static ev" and "net_start C ps w0" and "calm_run ev C as w0 = Some w" and "i \<in> set C" and "j \<in> set C"
    and "k < length (pbs (log (srv w i)))" and "k < length (pbs (log (srv w j)))"
    and "pb_Term (pbs (log (srv w i)) ! k) = pb_Term (pbs (log (srv w j)) ! k)"
  shows "take (k + 1) (pbs (log (srv w i))) = take (k + 1) (pbs (log (srv w j))) \<and>
    pb_Index (pbs (log (srv w i)) ! k) = of_nat (k + 1)"
proof -
  obtain t0 Cn where l: "log_inv C t0 Cn w" using reachable_raft_inv [OF assms(1-3)] by (auto simp: raft_inv_def)
  then have c: "on_chains (known t0 w) Cn (pbs (log (srv w i)))" "on_chains (known t0 w) Cn (pbs (log (srv w j)))"
    using assms(4,5) by (simp_all add: log_inv_def log_of_ok_def)
  show ?thesis using on_chains_agree [OF c assms(6-8)] c(1) assms(6) by (simp add: on_chains_def indexed_def)
qed

theorem raft_log_matching_witness:
  "take 2 (pbs (log (srv (after (demo_election @ demo_write)) ''a''))) = take 2 (pbs (log (srv (after (demo_election @ demo_write)) ''b'')))"
proof -
  have t: "map pb_Term (pbs (log (srv (after (demo_election @ demo_write)) ''a''))) = [1, 2]"
    "map pb_Term (pbs (log (srv (after (demo_election @ demo_write)) ''b''))) = [1, 2]" by code_simp+
  then have n: "length (pbs (log (srv (after (demo_election @ demo_write)) ''a''))) = 2"
    "length (pbs (log (srv (after (demo_election @ demo_write)) ''b''))) = 2" by (auto dest!: arg_cong [where f = length])
  have "pb_Term (pbs (log (srv (after (demo_election @ demo_write)) ''a'')) ! 1) = 2"
    "pb_Term (pbs (log (srv (after (demo_election @ demo_write)) ''b'')) ! 1) = 2"
    using t n by (metis One_nat_def lessI nth_Cons_0 nth_Cons_Suc nth_map numeral_2_eq_2)+
  then show ?thesis
    using raft_log_matching [OF demo_static demo_start demo_write_run, of "''a''" "''b''" 1] n by (simp add: demo_members_def)
qed

text \<open>C32. In the same runs, no step panics but the heartbeat of a leader that takes a peer to have more
  entries than its own log has.\<close>

theorem raft_panics_only_past_the_log:
  assumes "static ev" and "net_start C ps w0" and "calm_run ev C as w0 = Some w" and "enabled a w" and "action_in C a" and "act ev a w = None"
  shows "\<exists>i j p. a = Heartbeat i j \<and> map_of (peers (srv w i)) j = Some p \<and> end_index (log (srv w i)) < prevLogIndex p"
proof -
  obtain t0 V Cn where el: "election_inv C V w" and lg: "log_inv C t0 Cn w" and room: "roomy C w"
    using reachable_raft_inv [OF assms(1-3)] by (auto simp: raft_inv_def)
  note en = assms(4) and ac = assms(6)
  show ?thesis
  proof (cases a)
    case (Answer_vote g)
    then obtain req r where "g < length (calls w)" "vc_stage (calls w ! g) = Sent req r" using en by (auto simp: enabled_def split: stage.splits)
    then show ?thesis using election_inv_answer [OF el] ac Answer_vote by (fastforce simp: act_def)
  next
    case (Receive_vote g)
    then obtain resp r where "g < length (calls w)" "vc_stage (calls w ! g) = Answered resp r" "vc_inv (calls w ! g) = inv w (vc_from (calls w ! g))"
      "r = rounds w (vc_from (calls w ! g)) (vc_inv (calls w ! g))" using en by (auto simp: enabled_def Let_def split: stage.splits)
    then show ?thesis using election_inv_receive [OF el] ac Receive_vote by (fastforce simp: act_def)
  next
    case (Client_command i c v)
    then show ?thesis using log_inv_client [OF lg el _ assms(1) room, of i c v] en ac assms(5) by (auto simp: act_def enabled_def action_in_def)
  next
    case (Heartbeat i j)
    then have i: "i \<in> set C" "map_of (peers (srv w i)) j \<noteq> None" "flush (srv w i) j = None"
      using en ac assms(5) by (auto simp: act_def enabled_def action_in_def)
    then have "log_ok (log (srv w i))" "startIndex (log (srv w i)) = 0" using lg by (simp_all add: log_inv_def log_of_ok_def)
    then show ?thesis using flush_panics i Heartbeat by blast
  next
    case (Deliver_append k)
    then show ?thesis using log_inv_deliver [OF lg el assms(1), of k] en ac by (auto simp: enabled_def)
  next
    case (Receive_append k)
    then show ?thesis using log_inv_receive_append [OF lg, of k ev] en ac by (auto simp: enabled_def)
  next
    case (Process_append k)
    then show ?thesis using log_inv_process [OF lg assms(1), of k] en ac by (auto simp: enabled_def)
  qed (use ac in \<open>auto simp: act_def\<close>)
qed

text \<open>The stale request: an append request without entries from before the write, delivered after it; then \<open>''c''\<close> is elected.\<close>

definition demo_stale :: "byte list action list" where
  "demo_stale = [Deliver_append 0, Election_timeout ''c'', Run_call 2, Run_call 3, Election_timeout ''c'', Run_call 4, Run_call 5,
     Answer_vote 5, Receive_vote 5]"

definition demo_overwrite :: "byte list action list" where
  "demo_overwrite = [Client_command ''c'' (Client [2]) 2, Heartbeat ''c'' ''b'', Deliver_append 2, Receive_append 2, Process_append 1]"

definition demo_beyond :: "byte list action list" where
  "demo_beyond = [Heartbeat ''c'' ''a'', Deliver_append 2, Receive_append 2]"

lemma demo_beyond_run: "calm_run demo_env demo_members (demo_election @ demo_write @ demo_stale @ demo_beyond) demo_net =
    Some (after (demo_election @ demo_write @ demo_stale @ demo_beyond))"
  by (rule after_run) code_simp

theorem raft_panics_only_past_the_log_witness:
  "\<exists>p. map_of (peers (srv (after (demo_election @ demo_write @ demo_stale @ demo_beyond)) ''c'')) ''a'' = Some p \<and>
     end_index (log (srv (after (demo_election @ demo_write @ demo_stale @ demo_beyond)) ''c'')) < prevLogIndex p"
proof -
  let ?w = "after (demo_election @ demo_write @ demo_stale @ demo_beyond)"
  have "enabled (Heartbeat ''c'' ''a'' :: byte list action) ?w" by code_simp
  moreover have "action_in demo_members (Heartbeat ''c'' ''a'' :: byte list action)" by code_simp
  moreover have "act demo_env (Heartbeat ''c'' ''a'') ?w = None" by code_simp
  ultimately show ?thesis using raft_panics_only_past_the_log [OF demo_static demo_start demo_beyond_run] by blast
qed

text \<open>C23. A committed entry can be lost, in a calm run without a restart: \<open>truncate\<close> drops the entries that
  follow the requested index even when the request has nothing in their place, so a delayed request
  takes an entry that is committed back from a follower; the follower elects a server without it,
  and another command is committed and applied at its index.\<close>

theorem raft_loses_a_committed_entry:
  "net_start demo_members [demo_entry] demo_net \<and> static demo_env \<and>
   calm_run demo_env demo_members (demo_election @ demo_write @ demo_stale @ demo_overwrite) demo_net =
     Some (after (demo_election @ demo_write @ demo_stale @ demo_overwrite)) \<and>
   shown (after (demo_election @ demo_write)) =
     [(Leader, 2, 2, [1], [[7], [1]]), (Follower, 2, 0, [], [[7], [1]]), (Follower, 1, 0, [], [[7]])] \<and>
   shown (after (demo_election @ demo_write @ demo_stale @ demo_overwrite)) =
     [(Leader, 2, 2, [1], [[7], [1]]), (Follower, 3, 0, [], [[7], [2]]), (Leader, 3, 2, [2], [[7], [2]])]"
proof (intro conjI)
  show "calm_run demo_env demo_members (demo_election @ demo_write @ demo_stale @ demo_overwrite) demo_net =
     Some (after (demo_election @ demo_write @ demo_stale @ demo_overwrite))" by (rule after_run) code_simp
  show "shown (after (demo_election @ demo_write @ demo_stale @ demo_overwrite)) =
     [(Leader, 2, 2, [1], [[7], [1]]), (Follower, 3, 0, [], [[7], [2]]), (Leader, 3, 2, [2], [[7], [2]])]" by code_simp
qed (fact demo_start demo_static demo_write_shown)+

definition demo_five :: "string list" where "demo_five = [''a'', ''b'', ''c'', ''d'', ''e'']"

definition five_net :: "(byte list, byte list) net" where "five_net = demo_net\<lparr>srv := demo_server demo_five\<rparr>"

definition demo_late :: "byte list action list" where
  "demo_late = [Election_timeout ''a'', Run_call 1, Run_call 2, Run_call 3, Election_timeout ''a'', Run_call 0, Run_call 4,
     Election_timeout ''e'', Election_timeout ''e'', Run_call 14, Run_call 15,
     Answer_vote 0, Answer_vote 4, Receive_vote 0, Receive_vote 4, Answer_vote 14, Answer_vote 15, Receive_vote 14, Receive_vote 15]"

text \<open>C28. Without calm two servers can lead the same term: a goroutine of a round of voting that runs only
  when the next round has begun reads the new term and the new channel, its peer is asked twice,
  grants the vote to the same candidate twice, and both count.\<close>

theorem raft_late_goroutine_elects_two:
  "net_start demo_five [demo_entry] five_net \<and> calm_run demo_env demo_five demo_late five_net = None \<and>
   map_option elected (run demo_env demo_five demo_late five_net) = Some [(''a'', 3), (''e'', 3)]"
proof (intro conjI)
  have "srv five_net i = demo_server demo_five i" for i by (simp add: five_net_def)
  then have "list_all (\<lambda>i. server_start demo_five [demo_entry] i (srv five_net i)) demo_five"
    using demo_server_start [of demo_five] by (simp add: list_all_iff demo_five_def)
  moreover have "roomy demo_five five_net" "distinct demo_five" "[] \<notin> set demo_five" by code_simp+
  ultimately show "net_start demo_five [demo_entry] five_net" by (simp add: net_start_def) (simp add: five_net_def demo_net_def)
qed code_simp+

end
