(* ===== verification/RaftReplicate.thy ===== *)
theory RaftReplicate
  imports RaftDisk
begin

text \<open>
  Replication between two servers: committed entries are applied in their order, each once; an append
  request does to a follower's log what an abstract append does; the index that a leader commits is the
  largest that a quorum has; a follower catches up.
\<close>

section \<open>Applying\<close>

text \<open>What an applied entry does to the application, the members and the configuration file, and what it
  returns: a client's command goes to the application with the term, the index of the last entry and
  its own index; a join or a leave changes the members and writes the file; a NOP does nothing.\<close>

type_synonym 'm applied_state = "'m \<times> peer_map \<times> (u64 \<times> peer_map) option"

definition effect ::
  "('c, 'r, 'm) env \<Rightarrow> string \<Rightarrow> u64 \<Rightarrow> u64 \<Rightarrow> u64 \<Rightarrow> 'c command \<Rightarrow> 'm applied_state \<Rightarrow> 'r applied \<times> 'm applied_state" where
  "effect ev me T z i c st =
     (case st of (a, ps, cf) \<Rightarrow>
        case c of
          Client c \<Rightarrow> (case env_apply ev c (T, z, i) a of (r, a1) \<Rightarrow> (Client_reply r, a1, ps, cf))
        | NOPCommand \<Rightarrow> (Nop_reply, a, ps, cf)
        | DefaultJoin n conn \<Rightarrow>
            (Join_reply,
             if n \<in> fst ` set ps then (a, ps, cf)
             else let qs = (if n = me then ps else ps @ [(n, \<lparr>prevLogIndex = 0, ConnectionString = conn\<rparr>)]) in (a, qs, Some (i, qs)))
        | DefaultLeave n \<Rightarrow>
            if n \<noteq> me \<and> n \<notin> fst ` set ps then (Leave_reply False, a, ps, cf)
            else let qs = (if n = me then ps else AList.delete n ps) in (Leave_reply True, a, qs, Some (i, qs)))"

definition decoded :: "('c, 'r, 'm) env \<Rightarrow> LogEntry \<Rightarrow> 'c command option" where
  "decoded ev e = env_newCommand ev (CommandName e) (Command e)"

text \<open>A commit ends at a command that the server does not know, and behind a join.\<close>

definition ends_commit :: "('c, 'r, 'm) env \<Rightarrow> LogEntry \<Rightarrow> bool" where
  "ends_commit ev e \<longleftrightarrow> (case decoded ev e of None \<Rightarrow> True | Some c \<Rightarrow> (case c of DefaultJoin _ _ \<Rightarrow> True | _ \<Rightarrow> False))"

definition batch :: "('c, 'r, 'm) env \<Rightarrow> LogEntry list \<Rightarrow> LogEntry list" where
  "batch ev es = takeWhile (\<lambda>e. \<not> ends_commit ev e) es @ take 1 (dropWhile (\<lambda>e. \<not> ends_commit ev e) es)"

fun in_order ::
  "('c, 'r, 'm) env \<Rightarrow> string \<Rightarrow> u64 \<Rightarrow> u64 \<Rightarrow> LogEntry list \<Rightarrow> 'm applied_state \<Rightarrow> (nat \<times> 'r applied notice) list \<times> 'm applied_state" where
  "in_order ev me T z [] st = ([], st)"
| "in_order ev me T z (e # es) st =
     (case decoded ev e of
        None \<Rightarrow> ([], st)
      | Some c \<Rightarrow>
          (case effect ev me T z (Index e) c st of (r, st1) \<Rightarrow>
             (case in_order ev me T z es st1 of (ns, st2) \<Rightarrow>
                ((case event e of None \<Rightarrow> [] | Some v \<Rightarrow> [(v, Committed r)]) @ ns, st2))))"

lemma batch_Nil [simp]: "batch ev [] = []"
  by (simp add: batch_def)

lemma batch_Cons [simp]: "batch ev (e # es) = (if ends_commit ev e then [e] else e # batch ev es)"
  by (simp add: batch_def)

lemma batch_length: "length (batch ev es) \<le> length es"
  by (induction es) simp_all

lemma batch_all: "\<not> list_ex (ends_commit ev) es \<Longrightarrow> batch ev es = es"
  by (induction es) simp_all

lemma map_of_peer: "map_of ps n = None \<longleftrightarrow> n \<notin> fst ` set ps"
  by (simp add: map_of_eq_None_iff)

text \<open>A server with an applied state and a log.\<close>

definition with_state :: "'m applied_state \<Rightarrow> 'r applied log \<Rightarrow> ('r, 'm) server \<Rightarrow> ('r, 'm) server" where
  "with_state st l s = (case st of (a, ps, cf) \<Rightarrow> s\<lparr>app := a, peers := ps, conf_file := cf, log := l\<rparr>)"

definition state_of :: "('r, 'm) server \<Rightarrow> 'm applied_state" where
  "state_of s = (app s, peers s, conf_file s)"

lemma with_state_fields [simp]:
  "log (with_state st l s) = l" "currentTerm (with_state st l s) = currentTerm s" "sname (with_state st l s) = sname s"
  "state (with_state st l s) = state s" "votedFor (with_state st l s) = votedFor s" "syncedPeer (with_state st l s) = syncedPeer s"
  "state_of (with_state st l s) = st" "with_state st l (with_state st' l' s) = with_state st l s"
  "(with_state st l s)\<lparr>log := l'\<rparr> = with_state st l' s"
  by (simp_all add: with_state_def state_of_def split: prod.split)

lemma with_state_same [simp]: "with_state (state_of s) (log s) s = s"
  by (simp add: with_state_def state_of_def)

lemma with_state_self: "with_state (state_of s) l s = s\<lparr>log := l\<rparr>"
  by (simp add: with_state_def state_of_def)

lemma server_apply_effect:
  assumes "effect ev (sname s) (currentTerm s) (internalCurrentIndex l) (commitIndex l) c (state_of s) = (r, st)"
  shows "server_apply ev e c l s = (r, with_state st l s)"
proof -
  obtain a ps cf where st: "st = (a, ps, cf)" by (cases st) auto
  show ?thesis
  proof (cases c)
    case (DefaultJoin n conn)
    have m: "k \<in> fst ` set (peers s) \<longleftrightarrow> map_of (peers s) k \<noteq> None" for k using map_of_peer [of "peers s" k] by simp
    show ?thesis using assms unfolding DefaultJoin
      by (cases "map_of (peers s) n"; cases "n = sname s")
        (simp_all add: st effect_def server_apply_def AddPeer_def writeConf_def with_state_def state_of_def Let_def m, safe?)
  next
    case (DefaultLeave n)
    have m: "k \<in> fst ` set (peers s) \<longleftrightarrow> map_of (peers s) k \<noteq> None" for k using map_of_peer [of "peers s" k] by simp
    show ?thesis using assms unfolding DefaultLeave
      by (cases "map_of (peers s) n"; cases "n = sname s")
        (simp_all add: st effect_def server_apply_def RemovePeer_def writeConf_def with_state_def state_of_def Let_def m, safe?)
  next
    case NOPCommand
    then show ?thesis using assms by (auto simp: st effect_def server_apply_def with_state_def state_of_def)
  next
    case (Client d)
    then show ?thesis using assms by (auto simp: st effect_def server_apply_def with_state_def state_of_def Let_def split: prod.splits)
  qed
qed

lemma take_step:
  assumes "k < length xs" and "0 < n"
  shows "take n (drop k xs) = xs ! k # take (n - 1) (drop (k + 1) xs)"
proof -
  have "drop k xs = xs ! k # drop (Suc k) xs" using assms(1) by (simp add: Cons_nth_drop_Suc)
  then show ?thesis using assms(2) by (cases n) simp_all
qed

lemma commit_loop_applies:
  assumes "log_ok l" and "b - 1 \<le> unat (startIndex l) + length (entries l)" and "unat (commitIndex l) < b"
    and "batch ev (take (b - 1 - unat (commitIndex l)) (drop (unat (commitIndex l) - unat (startIndex l)) (entries l))) = ds"
    and "in_order ev (sname s) (currentTerm s) (end_index l) ds (state_of s) = (ns, st)"
  shows "\<exists>s' l'. commit_loop (server_machine ev) [unat (commitIndex l) + 1..<b] (l, s) =
      Some (if list_all (\<lambda>e. decoded ev e \<noteq> None) ds then None else Some Unknown_command, l', s') \<and>
    l' = l\<lparr>commitIndex := of_nat (unat (commitIndex l) + length ds), notices := notices l @ ns\<rparr> \<and> s'\<lparr>log := l'\<rparr> = with_state st l' s"
  using assms
proof (induction "b - unat (commitIndex l) - 1" arbitrary: l s ns ds)
  case 0
  then have "b - 1 = unat (commitIndex l)" by simp
  then show ?case using "0.prems"(4,5) by (auto simp: with_state_self)
next
  case (Suc d)
  let ?c = "unat (commitIndex l)" and ?s = "unat (startIndex l)" and ?m = "server_machine ev"
  have lt: "?c + 1 < b" using Suc.hyps(2) by simp
  then have list: "[?c + 1..<b] = (?c + 1) # [?c + 2..<b]" by (simp add: upt_conv_Cons)
  have ok: "?s \<le> ?c" "?s + length (entries l) < 2 ^ 64 - 1" using Suc.prems(1) by (simp_all add: log_ok_def word_le_nat_alt)
  have k: "?c - ?s < length (entries l)" using lt Suc.prems(2) ok by simp
  have at: "of_nat (?c + 1) - 1 - startIndex l = commitIndex l - startIndex l" by simp
  have "unat (commitIndex l - startIndex l) = ?c - ?s" by (rule unat_sub) (use ok in \<open>simp add: word_le_nat_alt\<close>)
  then have e: "entry_at l (of_nat (?c + 1) - 1 - startIndex l) = Some (entries l ! (?c - ?s))" using k at by (simp add: entry_at_def)
  let ?e = "entries l ! (?c - ?s)"
  have ix: "Index ?e = of_nat (?c + 1)" using entry_index [OF Suc.prems(1) k] ok by simp
  have u: "unat (Index ?e) = ?c + 1" unfolding ix by (rule unat_of_nat64) (use lt Suc.prems(2) ok in simp)
  let ?l1 = "l\<lparr>commitIndex := Index ?e\<rparr>"
  have ii: "internalCurrentIndex ?l1 = end_index l"
    using currentIndex_ok [OF Suc.prems(1)] by (simp add: currentIndex_def internalCurrentIndex_def split: if_splits)
  have pending: "take (b - 1 - ?c) (drop (?c - ?s) (entries l)) = ?e # take (b - 1 - (?c + 1)) (drop (?c + 1 - ?s) (entries l))"
    using take_step [OF k, of "b - 1 - ?c"] lt ok by (simp add: Suc_diff_le)
  have nc: "newCommand ?m (CommandName ?e) (Command ?e) = decoded ev ?e" by (simp add: server_machine_def decoded_def)
  show ?case
  proof (cases "decoded ev ?e")
    case None
    then have "ds = [?e]" using Suc.prems(4) unfolding pending by (simp add: ends_commit_def)
    moreover from this have "ns = []" "st = state_of s" using Suc.prems(5) None by simp_all
    ultimately show ?thesis using None e nc ix unfolding list by (simp add: with_state_self)
  next
    case (Some c)
    obtain r st1 where ef: "effect ev (sname s) (currentTerm s) (end_index l) (Index ?e) c (state_of s) = (r, st1)" by (rule prod.exhaust)
    define l2 where "l2 = notify ?e (Committed r) ?l1"
    define s2 where "s2 = with_state st1 ?l1 s"
    have a2: "ApplyFunc ?m ?e c ?l1 s = (r, s2)"
      using server_apply_effect [of ev s ?l1 c r st1 ?e] ef ii by (simp add: server_machine_def s2_def)
    have f2: "entries l2 = entries l" "startIndex l2 = startIndex l" "commitIndex l2 = Index ?e" "end_index l2 = end_index l"
      by (simp_all add: l2_def end_index_def)
    have n2: "l2 = l\<lparr>commitIndex := Index ?e, notices := notices l @ (case event ?e of None \<Rightarrow> [] | Some v \<Rightarrow> [(v, Committed r)])\<rparr>"
      by (simp add: l2_def notify_def split: option.split)
    have s2: "sname s2 = sname s" "currentTerm s2 = currentTerm s" "state_of s2 = st1" "\<And>l. with_state st l s2 = with_state st l s"
      by (simp_all add: s2_def)
    have ij: "isJoin ?m c \<longleftrightarrow> ends_commit ev ?e" using Some by (simp add: server_machine_def ends_commit_def)
    show ?thesis
    proof (cases "ends_commit ev ?e")
      case True
      then have d: "ds = [?e]" using Suc.prems(4) unfolding pending by simp
      then have "ns = (case event ?e of None \<Rightarrow> [] | Some v \<Rightarrow> [(v, Committed r)])" "st = st1" using Suc.prems(5) Some ef by simp_all
      then show ?thesis using Some e nc a2 ij True d ix n2 unfolding list
        by (intro exI [of _ s2] exI [of _ l2]) (simp add: Let_def s2_def notify_def split: option.split)
    next
      case False
      then obtain rest where d: "ds = ?e # rest" "batch ev (take (b - 1 - (?c + 1)) (drop (?c + 1 - ?s) (entries l))) = rest"
        using Suc.prems(4) unfolding pending by auto
      obtain ns2 where o2: "in_order ev (sname s2) (currentTerm s2) (end_index l2) rest (state_of s2) = (ns2, st)"
        and ns: "ns = (case event ?e of None \<Rightarrow> [] | Some v \<Rightarrow> [(v, Committed r)]) @ ns2"
        using Suc.prems(5) Some ef unfolding d(1) f2 s2 by (auto split: prod.splits)
      have step: "commit_loop ?m [?c + 1..<b] (l, s) = commit_loop ?m [?c + 2..<b] (l2, s2)"
        unfolding list using e nc a2 ij False Some by (simp add: l2_def Let_def)
      have ok2: "log_ok l2" using Suc.prems(1) u k ok by (auto simp: log_ok_def l2_def pbs_def word_le_nat_alt)
      have "d = b - unat (commitIndex l2) - 1" using Suc.hyps(2) u f2 by simp
      moreover have "batch ev (take (b - 1 - unat (commitIndex l2)) (drop (unat (commitIndex l2) - unat (startIndex l2)) (entries l2))) = rest"
        using d(2) f2 u by simp
      ultimately obtain s' l' where "commit_loop ?m [unat (commitIndex l2) + 1..<b] (l2, s2) =
          Some (if list_all (\<lambda>e. decoded ev e \<noteq> None) rest then None else Some Unknown_command, l', s')"
        "l' = l2\<lparr>commitIndex := of_nat (unat (commitIndex l2) + length rest), notices := notices l2 @ ns2\<rparr>" "s'\<lparr>log := l'\<rparr> = with_state st l' s2"
        using Suc.hyps(1) [OF _ ok2 _ _ _ o2] Suc.prems(2) f2 u lt by auto
      then show ?thesis using step f2 u ns d(1) Some s2 n2 by (intro exI [of _ s'] exI [of _ l']) (simp add: add.commute)
    qed
  qed
qed

text \<open>Where a commit to an index would end, as a number, and the entries up to there that are not
  committed.\<close>

definition commit_end :: "'r log \<Rightarrow> u64 \<Rightarrow> nat" where
  "commit_end l i = max (unat (commitIndex l)) (min (unat i) (unat (startIndex l) + length (entries l)))"

definition pending :: "'r log \<Rightarrow> u64 \<Rightarrow> LogEntry list" where
  "pending l i = take (commit_end l i - unat (commitIndex l)) (drop (unat (commitIndex l) - unat (startIndex l)) (entries l))"

lemma log_ok_bounds:
  "log_ok l \<Longrightarrow> unat (startIndex l) \<le> unat (commitIndex l) \<and> unat (commitIndex l) \<le> unat (startIndex l) + length (entries l) \<and>
     unat (startIndex l) + length (entries l) < 2 ^ 64 - 1"
  by (simp add: log_ok_def word_le_nat_alt)

lemma length_pending:
  assumes "log_ok l"
  shows "length (pending l i) = commit_end l i - unat (commitIndex l)"
proof -
  let ?z = "unat (startIndex l) + length (entries l)"
  have b: "unat (startIndex l) \<le> unat (commitIndex l)" "unat (commitIndex l) \<le> ?z" using log_ok_bounds [OF assms] by simp_all
  then have "length (entries l) - (unat (commitIndex l) - unat (startIndex l)) = ?z - unat (commitIndex l)" by simp
  moreover have "commit_end l i \<le> ?z" using b(2) by (simp add: commit_end_def)
  ultimately show ?thesis by (simp add: pending_def)
qed

lemma server_commit_applies:
  assumes ok: "log_ok (log s)" and b: "batch ev (pending (log s) i) = es"
    and o: "in_order ev (sname s) (currentTerm s) (end_index (log s)) es (state_of s) = (ns, st)"
  shows "server_commit ev i s = Some (if list_all (\<lambda>e. decoded ev e \<noteq> None) es then None else Some Unknown_command,
      with_state st ((log s)\<lparr>commitIndex := of_nat (unat (commitIndex (log s)) + length es), notices := notices (log s) @ ns\<rparr>) s)"
    and "unat (commitIndex (log s)) + length es < 2 ^ 64 - 1"
proof -
  let ?l = "log s" and ?c = "unat (commitIndex (log s))" and ?z = "unat (startIndex (log s)) + length (entries (log s))"
  define j where "j = (if i > end_index ?l then end_index ?l else i)"
  have uj: "unat j = min (unat i) ?z" using log_ok_end [OF ok] by (auto simp: j_def word_less_nat_alt min_def)
  have z: "?c \<le> ?z" "?z < 2 ^ 64 - 1" using ok by (simp_all add: log_ok_def)
  have "length es \<le> commit_end ?l i - ?c" using batch_length [of ev "pending ?l i"] length_pending [OF ok] b by simp
  then show "?c + length es < 2 ^ 64 - 1" using z unfolding commit_end_def by linarith
  show "server_commit ev i s = Some (if list_all (\<lambda>e. decoded ev e \<noteq> None) es then None else Some Unknown_command,
      with_state st (?l\<lparr>commitIndex := of_nat (?c + length es), notices := notices ?l @ ns\<rparr>) s)"
  proof (cases "j < commitIndex ?l")
    case True
    then have e: "commit_end ?l i = ?c" using uj by (simp add: commit_end_def word_less_nat_alt)
    have c: "server_commit ev i s = Some (None, s)" using True by (simp add: server_commit_def setCommitIndex_def j_def [symmetric])
    have "es = []" using b e by (simp add: pending_def)
    then have "ns = []" "st = state_of s" using o by simp_all
    then show ?thesis using c \<open>es = []\<close> by (simp add: with_state_self)
  next
    case False
    then have e: "commit_end ?l i = unat j" using uj by (simp add: commit_end_def not_less word_le_nat_alt)
    have j: "unat j + 1 - 1 \<le> ?z" "?c < unat j + 1" using uj False by (simp_all add: not_less word_le_nat_alt less_Suc_eq_le)
    have "batch ev (take (unat j + 1 - 1 - ?c) (drop (?c - unat (startIndex ?l)) (entries ?l))) = es" using b e by (simp add: pending_def)
    from commit_loop_applies [OF ok j this o] obtain s' l' where
      c: "commit_loop (server_machine ev) [?c + 1..<unat j + 1] (?l, s) =
          Some (if list_all (\<lambda>e. decoded ev e \<noteq> None) es then None else Some Unknown_command, l', s')"
      "l' = ?l\<lparr>commitIndex := of_nat (?c + length es), notices := notices ?l @ ns\<rparr>" "s'\<lparr>log := l'\<rparr> = with_state st l' s"
      by blast
    show ?thesis using False c by (simp add: server_commit_def setCommitIndex_def j_def [symmetric] Let_def)
  qed
qed

text \<open>C14. Committing to an index applies the entries behind the commit index, up to the requested index or
  the end of the log, in their order and each once: a client's command to the application with its own
  index in its context, a join or a leave to the members and the configuration file, a NOP to nothing.
  It ends behind a join, so that the next commit counts the new majority, and at a command that the
  server does not know, which is an error and is not applied but counts as committed. Each waiting
  client is told its result; the commit index advances by the entries it took, and everything else of
  the server stays. The log satisfies \<open>log_ok\<close>.\<close>

theorem raft_commit_applies_in_order:
  assumes "log_ok (log s)"
  shows "\<exists>ns st. in_order ev (sname s) (currentTerm s) (end_index (log s)) (batch ev (pending (log s) i)) (state_of s) = (ns, st) \<and>
    (\<exists>l'. server_commit ev i s =
        Some (if list_all (\<lambda>e. decoded ev e \<noteq> None) (batch ev (pending (log s) i)) then None else Some Unknown_command, with_state st l' s) \<and>
      unat (commitIndex l') = unat (commitIndex (log s)) + length (batch ev (pending (log s) i)) \<and>
      l' = (log s)\<lparr>commitIndex := commitIndex l', notices := notices (log s) @ ns\<rparr>)"
proof -
  let ?es = "batch ev (pending (log s) i)"
  obtain ns st where o: "in_order ev (sname s) (currentTerm s) (end_index (log s)) ?es (state_of s) = (ns, st)" by (rule prod.exhaust)
  note c = server_commit_applies [OF assms refl o]
  show ?thesis using o c(1) unat_of_nat64 [of "unat (commitIndex (log s)) + length ?es"] c(2) by fastforce
qed

definition demo_committed :: "(byte list, byte list) server" where
  "demo_committed = demo_voter\<lparr>log := snd (appendEntry demo_codec \<lparr>pb = demo_pb 2 [8], Position = 0, event = Some 5\<rparr> demo_log)\<rparr>"

lemma demo_committed_facts:
  "pbs (log demo_committed) = [demo_pb 1 [7], demo_pb 2 [8]]" "startIndex (log demo_committed) = 0" "commitIndex (log demo_committed) = 0"
  "length (entries (log demo_committed)) = 2" "app demo_committed = []" "notices (log demo_committed) = []"
  "log_file (log demo_committed) \<noteq> None" "state demo_committed = Follower" "currentTerm demo_committed = 1"
  unfolding pbs_def by code_simp+

lemma demo_committed_ok: "log_ok (log demo_committed)"
  unfolding log_ok_def demo_committed_facts by (simp add: indexed_def demo_pb_def less_2_cases_iff nth_Cons split: nat.split)

text \<open>A NOP, a command, a join and a command behind it: a commit of all four ends at the join.\<close>

definition mixed_env :: "(byte list, byte list, byte list) env" where
  "mixed_env = demo_env\<lparr>env_newCommand := (\<lambda>n b. if b = [] then Some NOPCommand else if b = [99] then Some (DefaultJoin ''c'' []) else Some (Client b))\<rparr>"

definition demo_mixed :: "(byte list, byte list) server" where
  "demo_mixed = demo_voter\<lparr>log := demo_log\<lparr>entries := map (\<lambda>p. \<lparr>pb = p, Position = 0, event = Some 5\<rparr>)
     [demo_pb 1 [], demo_pb 2 [7], demo_pb 3 [99], demo_pb 4 [8]]\<rparr>\<rparr>"

lemma demo_mixed_ok: "log_ok (log demo_mixed)"
proof -
  have l: "pbs (log demo_mixed) = [demo_pb 1 [], demo_pb 2 [7], demo_pb 3 [99], demo_pb 4 [8]]" "startIndex (log demo_mixed) = 0"
    "commitIndex (log demo_mixed) = 0" "length (entries (log demo_mixed)) = 4" unfolding pbs_def by code_simp+
  show ?thesis unfolding log_ok_def l by (simp add: l indexed_def demo_pb_def nth_Cons split: nat.split)
qed

theorem raft_commit_applies_in_order_witness:
  "\<exists>s'. server_commit mixed_env 9 demo_mixed = Some (None, s') \<and> unat (commitIndex (log s')) = 3 \<and> app s' = [7] \<and>
     map fst (peers s') = [''c''] \<and> notices (log s') = [(5, Committed Nop_reply), (5, Committed (Client_reply [])), (5, Committed Join_reply)]"
proof -
  have f: "commitIndex (log demo_mixed) = 0" "startIndex (log demo_mixed) = 0" "length (entries (log demo_mixed)) = 4"
    "notices (log demo_mixed) = []" by code_simp+
  have p: "pending (log demo_mixed) 9 = entries (log demo_mixed)" unfolding pending_def commit_end_def f by (simp add: f)
  have o: "in_order mixed_env (sname demo_mixed) (currentTerm demo_mixed) (end_index (log demo_mixed))
      (batch mixed_env (entries (log demo_mixed))) (state_of demo_mixed) =
      ([(5, Committed Nop_reply), (5, Committed (Client_reply [])), (5, Committed Join_reply)], [7],
       [(''c'', \<lparr>prevLogIndex = 0, ConnectionString = []\<rparr>)], Some (3, [(''c'', \<lparr>prevLogIndex = 0, ConnectionString = []\<rparr>)]))"
    "list_all (\<lambda>e. decoded mixed_env e \<noteq> None) (batch mixed_env (entries (log demo_mixed)))"
    "length (batch mixed_env (entries (log demo_mixed))) = 3" by code_simp+
  from raft_commit_applies_in_order [OF demo_mixed_ok, of mixed_env 9] obtain l' where
    c: "server_commit mixed_env 9 demo_mixed = Some (None, with_state ([7], [(''c'', \<lparr>prevLogIndex = 0, ConnectionString = []\<rparr>)],
        Some (3, [(''c'', \<lparr>prevLogIndex = 0, ConnectionString = []\<rparr>)])) l' demo_mixed)"
    "unat (commitIndex l') = 3"
    "l' = (log demo_mixed)\<lparr>commitIndex := commitIndex l', notices := [(5, Committed Nop_reply), (5, Committed (Client_reply [])), (5, Committed Join_reply)]\<rparr>"
    unfolding p using o f by auto
  have "notices l' = [(5, Committed Nop_reply), (5, Committed (Client_reply [])), (5, Committed Join_reply)]" by (subst c(3)) simp
  then show ?thesis using c(1,2) by (simp add: with_state_def)
qed

section \<open>Appending\<close>

text \<open>An append request on a log as a list, of which the entries up to \<open>z\<close> were compacted: from \<open>prev\<close> on,
  the entries replace what the log has.\<close>

definition abstract_append :: "nat \<Rightarrow> nat \<Rightarrow> u64 \<Rightarrow> entry_pb list \<Rightarrow> nat \<Rightarrow> entry_pb list \<Rightarrow> entry_pb list option" where
  "abstract_append z prev t es c L =
     (if prev < c \<or> z + length L < prev \<or> prev \<noteq> z \<and> pb_Term (L ! (prev - z - 1)) \<noteq> t then None else Some (take (prev - z) L @ es))"

lemma abstract_append_cases: "abstract_append z p t es c L = None \<or> abstract_append z p t es c L = Some (take (p - z) L @ es)"
  by (simp add: abstract_append_def)

lemma truncate_abstract:
  assumes "log_ok l"
  shows "truncate_error i t l = None \<longleftrightarrow>
    abstract_append (unat (startIndex l)) (unat i) t es (unat (commitIndex l)) (pbs l) = Some (take (unat i - unat (startIndex l)) (pbs l) @ es)"
proof -
  let ?z = "unat (startIndex l)"
  have e: "i > end_index l \<longleftrightarrow> ?z + length (pbs l) < unat i" using log_ok_end [OF assms] by (simp add: word_less_nat_alt)
  have c: "?z \<le> unat (commitIndex l)" using log_ok_bounds [OF assms] by simp
  have "Term (entries l ! (unat i - ?z - 1)) = pb_Term (pbs l ! (unat i - ?z - 1))"
    if "\<not> i < commitIndex l" "\<not> ?z + length (pbs l) < unat i" "i \<noteq> startIndex l"
  proof -
    have "unat (commitIndex l) \<le> unat i" "unat i \<noteq> ?z" using that(1,3) by (simp_all add: word_less_nat_alt word_unat_eq_iff)
    then have "?z < unat i" using c by simp
    then have "unat i - ?z - 1 < length (entries l)" using that(2) by simp
    then show ?thesis by (simp add: pbs_def Term_def)
  qed
  moreover have "i \<noteq> startIndex l \<longleftrightarrow> unat i \<noteq> ?z" by (simp add: word_unat_eq_iff)
  ultimately show ?thesis using e by (auto simp: truncate_error_def abstract_append_def word_less_nat_alt split: if_splits)
qed

text \<open>What the entries of a leader's request are: they can be encoded, they are numbered from the
  requested index on, and their terms continue those of the log where they are put.\<close>

definition fits :: "('c, 'r, 'm) env \<Rightarrow> AppendEntriesRequest \<Rightarrow> ('r, 'm) server \<Rightarrow> bool" where
  "fits ev req s \<longleftrightarrow>
     list_all (\<lambda>p. Marshal (env_codec ev) p \<noteq> None) (ae_Entries req) \<and> indexed (unat (ae_PrevLogIndex req)) (ae_Entries req) \<and>
     (abstract_append (unat (startIndex (log s))) (unat (ae_PrevLogIndex req)) (ae_PrevLogTerm req) (ae_Entries req)
        (unat (commitIndex (log s))) (pbs (log s)) = None \<or>
      sorted (map pb_Term (take (unat (ae_PrevLogIndex req) - unat (startIndex (log s))) (pbs (log s)) @ ae_Entries req))) \<and>
     unat (ae_PrevLogIndex req) + length (ae_Entries req) < 2 ^ 64 - 1"

text \<open>What an accepted request commits of the new log.\<close>

definition committed_by :: "('c, 'r, 'm) env \<Rightarrow> AppendEntriesRequest \<Rightarrow> ('r, 'm) server \<Rightarrow> LogEntry list \<Rightarrow> LogEntry list" where
  "committed_by ev req s es = batch ev (pending ((log s)\<lparr>entries := es\<rparr>) (ae_CommitIndex req))"

lemma ae_accept_state:
  "ae_accept_leader req s = Some s1 \<Longrightarrow>
   state_of s1 = state_of s \<and> sname s1 = sname s \<and>
   state s1 = (if ae_Term req = currentTerm s \<and> state s \<noteq> Candidate then state s else Follower) \<or> ae_Term req < currentTerm s"
  by (auto simp: ae_accept_leader_def updateCurrentTerm_def setState_def state_of_def leader_exit_def Let_def split: if_splits)

lemma pending_cong: "entries l = entries l' \<Longrightarrow> commitIndex l = commitIndex l' \<Longrightarrow> startIndex l = startIndex l' \<Longrightarrow> pending l i = pending l' i"
  by (simp add: pending_def commit_end_def)

lemma log_ok_committed:
  assumes "log_ok l" and "unat (commitIndex l) + length (batch ev (pending l i)) = unat c"
  shows "log_ok (l\<lparr>commitIndex := c, notices := ns\<rparr>)"
proof -
  have b: "unat (startIndex l) \<le> unat (commitIndex l)" "unat (commitIndex l) \<le> unat (startIndex l) + length (entries l)"
    using log_ok_bounds [OF assms(1)] by simp_all
  have "length (batch ev (pending l i)) \<le> commit_end l i - unat (commitIndex l)"
    using batch_length [of ev "pending l i"] length_pending [OF assms(1)] by simp
  then have "unat c \<le> unat (startIndex l) + length (entries l)" using b assms(2) by (simp add: commit_end_def)
  then show ?thesis using assms b(1) by (simp add: log_ok_def word_le_nat_alt)
qed

lemma currentIndex_length: "log_ok l \<Longrightarrow> currentIndex l = of_nat (unat (startIndex l) + length (pbs l))"
  using currentIndex_ok [of l] by (simp add: end_index_def)

lemma append_refines:
  assumes ok: "log_ok (log s)" and f: "log_file (log s) \<noteq> None" and lead: "\<not> (ae_Term req = currentTerm s \<and> state s = Leader)"
    and new: "\<not> ae_Term req < currentTerm s" and fit: "fits ev req s"
  shows "\<exists>resp s'. processAppendEntriesRequest ev req s = Some ((resp, True), s') \<and> currentTerm s' = ae_Term req \<and>
    state s' = (if ae_Term req = currentTerm s \<and> state s \<noteq> Candidate then state s else Follower) \<and>
    log_ok (log s') \<and> startIndex (log s') = startIndex (log s) \<and> log_file (log s') \<noteq> None \<and> aer_Term resp = ae_Term req \<and>
    aer_Index resp = of_nat (unat (startIndex (log s)) + length (pbs (log s'))) \<and> aer_CommitIndex resp = commitIndex (log s') \<and>
    (case abstract_append (unat (startIndex (log s))) (unat (ae_PrevLogIndex req)) (ae_PrevLogTerm req) (ae_Entries req)
        (unat (commitIndex (log s))) (pbs (log s)) of
       None \<Rightarrow> \<not> aer_Success resp \<and> log s' = log s \<and> state_of s' = state_of s
     | Some L \<Rightarrow> pbs (log s') = L \<and>
         unat (commitIndex (log s')) = unat (commitIndex (log s)) + length (committed_by ev req s (entries (log s'))) \<and>
         state_of s' = snd (in_order ev (sname s) (ae_Term req) (end_index (log s')) (committed_by ev req s (entries (log s'))) (state_of s)) \<and>
         (aer_Success resp \<longleftrightarrow> list_all (\<lambda>e. decoded ev e \<noteq> None) (committed_by ev req s (entries (log s')))))"
proof -
  let ?p = "unat (ae_PrevLogIndex req)" and ?es = "ae_Entries req" and ?z = "unat (startIndex (log s))" and ?c = "unat (commitIndex (log s))"
  let ?A = "abstract_append ?z ?p (ae_PrevLogTerm req) ?es ?c (pbs (log s))"
  have ix: "indexed ?p ?es" and so: "?A = None \<or> sorted (map pb_Term (take (?p - ?z) (pbs (log s)) @ ?es))"
    and room: "?p + length ?es < 2 ^ 64 - 1" and ma: "\<forall>p \<in> set ?es. Marshal (env_codec ev) p \<noteq> None"
    using fit by (simp_all add: fits_def list_all_iff)
  obtain s1 where s1: "ae_accept_leader req s = Some s1" "log s1 = log s" "currentTerm s1 = ae_Term req"
    using ae_accept_spec [OF new] lead by auto
  have st1: "state_of s1 = state_of s" "sname s1 = sname s"
    "state s1 = (if ae_Term req = currentTerm s \<and> state s \<noteq> Candidate then state s else Follower)"
    using ae_accept_state [OF s1(1)] new by auto
  obtain l where t: "log_truncate (ae_PrevLogIndex req) (ae_PrevLogTerm req) (log s) =
      Some (truncate_error (ae_PrevLogIndex req) (ae_PrevLogTerm req) (log s), l)" and same: "same_but_entries (log s) l"
    and err: "truncate_error (ae_PrevLogIndex req) (ae_PrevLogTerm req) (log s) \<noteq> None \<longrightarrow> l = log s"
    and cut: "truncate_error (ae_PrevLogIndex req) (ae_PrevLogTerm req) (log s) = None \<longrightarrow> entries l = take (?p - ?z) (entries (log s))"
    using truncate_spec [OF ok] by metis
  note abs = truncate_abstract [OF ok, of "ae_PrevLogIndex req" "ae_PrevLogTerm req" ?es]
  note ci = currentIndex_length
  show ?thesis
  proof (cases "truncate_error (ae_PrevLogIndex req) (ae_PrevLogTerm req) (log s)")
    case (Some e)
    then have "?A = None" using abs abstract_append_cases by (metis option.distinct(1))
    moreover have "processAppendEntriesRequest ev req s = Some ((ae_response False (s1\<lparr>log := log s\<rparr>), True), s1\<lparr>log := log s\<rparr>)"
      using new s1 t Some err by (simp add: processAppendEntriesRequest_def Let_def)
    moreover have "state_of (s1\<lparr>log := log s\<rparr>) = state_of s" using st1 by (simp add: state_of_def)
    ultimately show ?thesis using s1 st1 ok f ci [OF ok] by (simp add: ae_response_def newAppendEntriesResponse_def)
  next
    case None
    have a: "?A = Some (take (?p - ?z) (pbs (log s)) @ ?es)" using abs None by simp
    have el: "entries l = take (?p - ?z) (entries (log s))" "pbs l = take (?p - ?z) (pbs (log s))" using cut None by (simp_all add: pbs_def take_map)
    have okl: "log_ok l" by (rule truncate_ok [OF ok t])
    have sl: "startIndex l = startIndex (log s)" "log_file l \<noteq> None" "commitIndex l = commitIndex (log s)" using same f by (simp_all add: same_but_entries_def)
    have p: "?z \<le> ?p" "?p \<le> ?z + length (entries (log s))"
      using a log_ok_bounds [OF ok] by (auto simp: abstract_append_def split: if_splits)
    have len: "length (entries l) = ?p - ?z" using p el(1) by simp
    have "continues l ?es" using ix so a room sl len el(2) p by (simp add: continues_def)
    then obtain l2 where l2: "appendEntries (env_codec ev) ?es l = Some (None, l2)" "pbs l2 = pbs l @ ?es" "same_but_entries l l2" "log_ok l2"
      using appendEntries_all [OF ma sl(2) okl] by blast
    have sl2: "startIndex l2 = startIndex (log s)" "commitIndex l2 = commitIndex (log s)" "log_file l2 \<noteq> None"
      using l2(3) sl by (simp_all add: same_but_entries_def)
    let ?s3 = "s1\<lparr>log := l2\<rparr>" and ?todo = "batch ev (pending l2 (ae_CommitIndex req))"
    obtain ns st where o: "in_order ev (sname ?s3) (currentTerm ?s3) (end_index (log ?s3)) ?todo (state_of ?s3) = (ns, st)" by (rule prod.exhaust)
    have ok3: "log_ok (log ?s3)" using l2(4) by simp
    let ?l4 = "l2\<lparr>commitIndex := of_nat (unat (commitIndex l2) + length ?todo), notices := notices l2 @ ns\<rparr>"
    let ?e = "if list_all (\<lambda>e. decoded ev e \<noteq> None) ?todo then None else Some Unknown_command"
    have cm: "server_commit ev (ae_CommitIndex req) ?s3 = Some (?e, with_state st ?l4 ?s3)" "unat (commitIndex l2) + length ?todo < 2 ^ 64 - 1"
      using server_commit_applies [OF ok3 refl, of ev "ae_CommitIndex req"] o by simp_all
    have u: "unat (commitIndex ?l4) = ?c + length ?todo" using cm(2) unat_of_nat64 [of "unat (commitIndex l2) + length ?todo"] sl2(2) by simp
    have ok4: "log_ok ?l4" by (rule log_ok_committed [OF l2(4)]) (use u sl2 in simp)
    have cb: "committed_by ev req s (entries ?l4) = ?todo"
      unfolding committed_by_def by (rule arg_cong [OF pending_cong]) (simp_all add: sl2)
    have pr: "processAppendEntriesRequest ev req s = Some ((ae_response (?e = None) (with_state st ?l4 ?s3), True), with_state st ?l4 ?s3)"
      using new s1 t None l2(1) cm(1) by (simp add: processAppendEntriesRequest_def Let_def)
    have "st = snd (in_order ev (sname s) (ae_Term req) (end_index ?l4) ?todo (state_of s))"
    proof -
      have "state_of ?s3 = state_of s" "end_index ?l4 = end_index l2" using st1(1) by (simp_all add: state_of_def end_index_def)
      then show ?thesis using o st1(2) s1(3) by simp
    qed
    moreover have "pbs ?l4 = take (?p - ?z) (pbs (log s)) @ ?es" using l2(2) el(2) by (simp add: pbs_def)
    ultimately show ?thesis using pr a u cb ok4 ci [OF ok4] s1(3) st1(3) sl2
      by (intro exI [of _ "ae_response (?e = None) (with_state st ?l4 ?s3)"] exI [of _ "with_state st ?l4 ?s3"])
         (simp add: ae_response_def newAppendEntriesResponse_def)
  qed
qed

text \<open>C7. An append request that is not from an older term puts a server into its term, where a candidate or
  a leader of an older term follows (the leader of the same term panics), and does to the log, which may
  be compacted, what the abstract append does: it fails, and leaves the log, if the requested index is
  below the commit index or past the log or has another term; else the log is its entries up to that
  index and the entries of the request, and the server applies what this log has up to the leader's
  commit index, as far as one commit goes: not past a join, and not past a command that it does not
  know, in which case it answers that it failed though it has appended. The log has a file and
  satisfies \<open>log_ok\<close> (indices without gaps, the commit index inside the log); the entries are such as a leader sends: encodable, numbered from the index on, with terms that continue
  those of the log.\<close>

theorem raft_append_refines:
  assumes "log_ok (log s)" and "log_file (log s) \<noteq> None" and "\<not> (ae_Term req = currentTerm s \<and> state s = Leader)"
    and "\<not> ae_Term req < currentTerm s" and "fits ev req s"
  shows "\<exists>resp s'. processAppendEntriesRequest ev req s = Some ((resp, True), s') \<and> currentTerm s' = ae_Term req \<and>
    state s' = (if ae_Term req = currentTerm s \<and> state s \<noteq> Candidate then state s else Follower) \<and> aer_Term resp = ae_Term req \<and>
    aer_Index resp = of_nat (unat (startIndex (log s)) + length (pbs (log s'))) \<and> aer_CommitIndex resp = commitIndex (log s') \<and>
    (case abstract_append (unat (startIndex (log s))) (unat (ae_PrevLogIndex req)) (ae_PrevLogTerm req) (ae_Entries req)
        (unat (commitIndex (log s))) (pbs (log s)) of
       None \<Rightarrow> \<not> aer_Success resp \<and> log s' = log s \<and> state_of s' = state_of s
     | Some L \<Rightarrow> pbs (log s') = L \<and>
         unat (commitIndex (log s')) = unat (commitIndex (log s)) + length (committed_by ev req s (entries (log s'))) \<and>
         state_of s' = snd (in_order ev (sname s) (ae_Term req) (end_index (log s')) (committed_by ev req s (entries (log s'))) (state_of s)) \<and>
         (aer_Success resp \<longleftrightarrow> list_all (\<lambda>e. decoded ev e \<noteq> None) (committed_by ev req s (entries (log s')))))"
  using append_refines [OF assms] by blast

definition demo_request :: AppendEntriesRequest where
  "demo_request = newAppendEntriesRequest 3 1 1 1 ''a'' [\<lparr>pb = demo_pb 2 [9], Position = 0, event = None\<rparr>]"

theorem raft_append_refines_witness:
  "\<exists>resp s'. processAppendEntriesRequest demo_env demo_request demo_committed = Some ((resp, True), s') \<and> aer_Success resp \<and>
     map pb_Command (pbs (log s')) = [[7], [9]] \<and> unat (commitIndex (log s')) = 1"
proof -
  note p = demo_committed_facts
  have q: "ae_Term demo_request = 3" "ae_PrevLogIndex demo_request = 1" "ae_PrevLogTerm demo_request = 1" "ae_CommitIndex demo_request = 1"
    "ae_Entries demo_request = [demo_pb 2 [9]]" by (simp_all add: demo_request_def newAppendEntriesRequest_def)
  have "fits demo_env demo_request demo_committed"
    unfolding fits_def q p by (intro conjI) (code_simp, simp_all add: indexed_def demo_pb_def)
  moreover have "decoded demo_env e \<noteq> None" "\<not> ends_commit demo_env e" for e by (simp_all add: decoded_def ends_commit_def demo_env_def)
  moreover have "committed_by demo_env demo_request demo_committed es = take 1 es" if "length es = 2" for es
    unfolding committed_by_def using that batch_all [of demo_env] \<open>\<And>e. \<not> ends_commit demo_env e\<close>
    by (simp add: pending_def commit_end_def p q list_ex_iff)
  moreover have "length (entries (log s')) = 2" if "pbs (log s') = [demo_pb 1 [7], demo_pb 2 [9]]" for s' :: "(byte list, byte list) server"
    using arg_cong [OF that, of length] by simp
  ultimately show ?thesis
    using raft_append_refines [of demo_committed demo_request demo_env] demo_committed_ok p q
    by (fastforce simp: abstract_append_def demo_pb_def list_all_iff)
qed

section \<open>What a quorum has\<close>

lemma ranked:
  assumes s: "sorted_wrt (\<ge>) ys" and k: "k < length (ys :: u64 list)"
  shows "k < length (filter (\<lambda>x. ys ! k \<le> x) ys)" and "ys ! k < i \<Longrightarrow> length (filter (\<lambda>x. i \<le> x) ys) \<le> k"
proof -
  have "filter (\<lambda>x. ys ! k \<le> x) (take (k + 1) ys) = take (k + 1) ys"
  proof (rule filter_True, rule ballI)
    fix x assume "x \<in> set (take (k + 1) ys)"
    then obtain j where "j < k + 1" "j < length ys" "x = ys ! j" by (auto simp: in_set_conv_nth)
    then show "ys ! k \<le> x" using sorted_wrt_nth_less [OF s, of j k] k by (cases "j = k") auto
  qed
  moreover have "filter P ys = filter P (take (k + 1) ys) @ filter P (drop (k + 1) ys)" for P by (simp flip: filter_append)
  ultimately show "k < length (filter (\<lambda>x. ys ! k \<le> x) ys)" using k by (simp add: min_def)
  assume i: "ys ! k < i"
  have "filter (\<lambda>x. i \<le> x) (drop k ys) = []"
  proof (rule filter_False, rule ballI)
    fix x assume "x \<in> set (drop k ys)"
    then obtain j where "j < length (drop k ys)" "x = drop k ys ! j" unfolding in_set_conv_nth by blast
    then have "k + j < length ys" "x = ys ! (k + j)" by simp_all
    then have "x \<le> ys ! k" using sorted_wrt_nth_less [OF s, of k "k + j"] by (cases "j = 0") auto
    then show "\<not> i \<le> x" using i by auto
  qed
  then have "filter (\<lambda>x. i \<le> x) ys = filter (\<lambda>x. i \<le> x) (take k ys)"
    by (metis append_Nil2 append_take_drop_id filter_append)
  then show "length (filter (\<lambda>x. i \<le> x) ys) \<le> k" by (metis length_filter_le length_take min.boundedE)
qed

definition member_indices :: "('r, 'm) server \<Rightarrow> u64 list" where
  "member_indices s = currentIndex (log s) # map (\<lambda>p. prevLogIndex (snd p)) (peers s)"

text \<open>C30. The index that a leader commits, which the code finds by sorting, is the largest that a quorum of
  the members has: so many members have it or a later one, and no later index has as many.\<close>

theorem raft_quorum_index:
  "QuorumSize s \<le> length (filter (\<lambda>x. quorum_index s \<le> x) (member_indices s)) \<and>
   (\<forall>i. quorum_index s < i \<longrightarrow> length (filter (\<lambda>x. i \<le> x) (member_indices s)) < QuorumSize s)"
proof -
  let ?xs = "member_indices s"
  define ys where "ys = rev (sort ?xs)"
  have same: "length (filter P ys) = length (filter P ?xs)" for P
  proof -
    have "mset ys = mset ?xs" by (simp add: ys_def)
    then show ?thesis by (metis mset_filter size_mset)
  qed
  have s: "sorted_wrt (\<ge>) ys" by (simp add: ys_def sorted_wrt_rev)
  have q: "QuorumSize s - 1 < length ys" "QuorumSize s > 0" by (simp_all add: ys_def member_indices_def QuorumSize_def MemberCount_def)
  have qi: "quorum_index s = ys ! (QuorumSize s - 1)" by (simp add: quorum_index_def ys_def member_indices_def)
  show ?thesis using ranked [OF s q(1)] q(2) unfolding qi same [symmetric] by fastforce
qed

theorem raft_quorum_index_witness:
  "quorum_index (demo_voter\<lparr>peers := [(''a'', \<lparr>prevLogIndex = 5, ConnectionString = []\<rparr>), (''c'', \<lparr>prevLogIndex = 3, ConnectionString = []\<rparr>)]\<rparr>) = 3 \<and>
   length (filter (\<lambda>x. 4 \<le> x) (member_indices (demo_voter\<lparr>peers := [(''a'', \<lparr>prevLogIndex = 5, ConnectionString = []\<rparr>),
     (''c'', \<lparr>prevLogIndex = 3, ConnectionString = []\<rparr>)]\<rparr>))) < 2"
proof -
  let ?s = "demo_voter\<lparr>peers := [(''a'', \<lparr>prevLogIndex = 5, ConnectionString = []\<rparr>), (''c'', \<lparr>prevLogIndex = 3, ConnectionString = []\<rparr>)]\<rparr>"
  have "quorum_index ?s = 3" "QuorumSize ?s = 2" by code_simp+
  then show ?thesis using raft_quorum_index [of ?s] by simp
qed

section \<open>Catching up\<close>

text \<open>Heartbeats of a leader to one peer, one after the other, until the peer takes a request.\<close>

fun catch_up :: "nat \<Rightarrow> ('c, 'r, 'm) env \<Rightarrow> string \<Rightarrow> ('r, 'm) server \<times> ('r, 'm) server \<Rightarrow> (('r, 'm) server \<times> ('r, 'm) server) option" where
  "catch_up 0 ev j sf = None"
| "catch_up (Suc n) ev j (ld, fl) =
     (case flush ld j of
        Some (Send_entries req) \<Rightarrow>
          (case processAppendEntriesRequest ev req fl of
             None \<Rightarrow> None
           | Some ((resp, _), fl1) \<Rightarrow>
               (case peer_response j req resp ld of
                  (_, ld1) \<Rightarrow> if aer_Success resp then Some (ld1, fl1) else catch_up n ev j (ld1, fl1)))
      | _ \<Rightarrow> None)"

text \<open>A leader and a server that it can bring up to date: neither log was compacted, the server has no newer
  term, what it has committed is in the leader's log, equal terms at an index mean equal logs up to it,
  and the server knows the commands (those of clients and those of the library).\<close>

definition matching :: "entry_pb list \<Rightarrow> entry_pb list \<Rightarrow> bool" where
  "matching L F \<longleftrightarrow> list_all (\<lambda>k. pb_Term (L ! k) = pb_Term (F ! k) \<longrightarrow> take (k + 1) L = take (k + 1) F) [0..<min (length L) (length F)]"

definition known :: "('c, 'r, 'm) env \<Rightarrow> entry_pb \<Rightarrow> bool" where
  "known ev p \<longleftrightarrow> env_newCommand ev (pb_CommandName p) (pb_Command p) \<noteq> None"

lemma decoded_known: "decoded ev e \<noteq> None \<longleftrightarrow> known ev (pb e)"
  by (simp add: decoded_def known_def CommandName_def Command_def)

lemma set_batch: "set (batch ev es) \<subseteq> set es"
  by (induction es) auto

lemma set_pending: "set (pending l i) \<subseteq> set (entries l)"
  unfolding pending_def by (meson order_trans set_drop_subset set_take_subset)

lemma committed_known:
  assumes "list_all (known ev) (pbs l)"
  shows "list_all (\<lambda>e. decoded ev e \<noteq> None) (committed_by ev req s (entries l))"
proof -
  have "set (committed_by ev req s (entries l)) \<subseteq> set (entries l)"
    unfolding committed_by_def using set_batch [of ev] set_pending [of "(log s)\<lparr>entries := entries l\<rparr>"] by fastforce
  then show ?thesis using assms unfolding list_all_iff decoded_known pbs_def by auto
qed

definition leads :: "('c, 'r, 'm) env \<Rightarrow> ('r, 'm) server \<Rightarrow> bool" where
  "leads ev ld \<longleftrightarrow> log_ok (log ld) \<and> startIndex (log ld) = 0 \<and> sorted (map pb_Term (pbs (log ld))) \<and>
     list_all (\<lambda>p. Marshal (env_codec ev) p \<noteq> None \<and> known ev p) (pbs (log ld))"

definition follows :: "('c, 'r, 'm) env \<Rightarrow> ('r, 'm) server \<Rightarrow> ('r, 'm) server \<Rightarrow> bool" where
  "follows ev ld fl \<longleftrightarrow> log_ok (log fl) \<and> startIndex (log fl) = 0 \<and> log_file (log fl) \<noteq> None \<and> list_all (known ev) (pbs (log fl)) \<and> currentTerm fl \<le> currentTerm ld \<and>
     \<not> (currentTerm ld = currentTerm fl \<and> state fl = Leader) \<and> matching (pbs (log ld)) (pbs (log fl)) \<and>
     (let c = unat (commitIndex (log fl)) in
        c \<le> length (pbs (log ld)) \<and> (c = 0 \<or> pb_Term (pbs (log ld) ! (c - 1)) = pb_Term (pbs (log fl) ! (c - 1))))"

lemma matchingD: "matching L F \<Longrightarrow> k < length L \<Longrightarrow> k < length F \<Longrightarrow> pb_Term (L ! k) = pb_Term (F ! k) \<Longrightarrow> take (k + 1) L = take (k + 1) F"
  by (simp add: matching_def list_all_iff)

lemma map_of_answered:
  "map_of (map (\<lambda>(k, p). (k, if k = n then g p else p)) ps) n = map_option g (map_of ps n)"
  by (induction ps) auto

lemma abstract_append_matches:
  assumes m: "matching L F" and a: "abstract_append 0 p t es c F = Some M" and t: "p \<noteq> 0 \<longrightarrow> t = pb_Term (L ! (p - 1))" and p: "p \<le> length L"
  shows "M = take p L @ es"
proof -
  have f: "p \<le> length F" "p \<noteq> 0 \<longrightarrow> pb_Term (F ! (p - 1)) = t" "M = take p F @ es" using a by (auto simp: abstract_append_def split: if_splits)
  show ?thesis
  proof (cases "p = 0")
    case False
    then have "take (p - 1 + 1) L = take (p - 1 + 1) F" using matchingD [OF m, of "p - 1"] f(1,2) t p by simp
    then show ?thesis using f(3) False by simp
  qed (use f(3) in simp)
qed

lemma catch_up_round:
  assumes ld: "leads ev ld" and fl: "follows ev ld fl" and pj: "map_of (peers ld) j = Some p" and le: "unat (prevLogIndex p) \<le> length (pbs (log ld))"
  shows "\<exists>req resp b fl1 resp1 ld1 p1. flush ld j = Some (Send_entries req) \<and> processAppendEntriesRequest ev req fl = Some ((resp, b), fl1) \<and>
    peer_response j req resp ld = (resp1, ld1) \<and> leads ev ld1 \<and> log ld1 = log ld \<and> map_of (peers ld1) j = Some p1 \<and>
    (if aer_Success resp then pbs (log fl1) = take (length (pbs (log fl1))) (pbs (log ld)) \<and> prevLogIndex p1 = of_nat (length (pbs (log fl1)))
     else follows ev ld1 fl1 \<and> log fl1 = log fl \<and> unat (prevLogIndex p1) \<le> length (pbs (log ld)) \<and> commitIndex (log fl) \<le> prevLogIndex p1 \<and>
       (if prevLogIndex p < commitIndex (log fl) then prevLogIndex p1 = commitIndex (log fl) else prevLogIndex p1 < prevLogIndex p))"
proof -
  let ?P = "prevLogIndex p" and ?L = "pbs (log ld)" and ?F = "pbs (log fl)" and ?c = "commitIndex (log fl)"
  have L: "log_ok (log ld)" "startIndex (log ld) = 0" "sorted (map pb_Term ?L)"
    "\<forall>p \<in> set ?L. Marshal (env_codec ev) p \<noteq> None \<and> known ev p"
    using ld by (simp_all add: leads_def list_all_iff)
  have F: "log_ok (log fl)" "startIndex (log fl) = 0" "log_file (log fl) \<noteq> None" "list_all (known ev) ?F" "currentTerm fl \<le> currentTerm ld" "\<not> (currentTerm ld = currentTerm fl \<and> state fl = Leader)"
    "matching ?L ?F" "unat ?c \<le> length ?L" "unat ?c = 0 \<or> pb_Term (?L ! (unat ?c - 1)) = pb_Term (?F ! (unat ?c - 1))"
    using fl by (simp_all add: follows_def Let_def)
  obtain es t where g: "getEntriesAfter (log ld) ?P MaxLogEntriesPerRequest = Some (Some es, t)"
    using getEntriesAfter_Some [OF L(1,2)] le by fastforce
  obtain n where n: "map pb es = take n (drop (unat ?P) ?L)" "unat ?P \<noteq> 0 \<longrightarrow> t = pb_Term (?L ! (unat ?P - 1))"
    using getEntriesAfter_spec [OF L(1,2) g] by blast
  define req where "req = newAppendEntriesRequest (currentTerm ld) ?P t (commitIndex (log ld)) (sname ld) es"
  have req: "ae_Term req = currentTerm ld" "ae_PrevLogIndex req = ?P" "ae_PrevLogTerm req = t" "ae_Entries req = map pb es"
    by (simp_all add: req_def newAppendEntriesRequest_def)
  have fl1: "flush ld j = Some (Send_entries req)" using pj g by (simp add: flush_def req_def)
  let ?A = "abstract_append 0 (unat ?P) t (map pb es) (unat ?c) ?F" and ?M = "take (unat ?P) ?L @ map pb es"
  have M: "?A = Some X \<Longrightarrow> X = ?M" for X using abstract_append_matches [OF F(7) _ n(2) le] by blast
  have pre: "?M = take (unat ?P + n) ?L" using n(1) by (simp add: take_add)
  have lenM: "length ?M = unat ?P + length es" "length ?M \<le> length ?L" using le unfolding pre [symmetric] by (simp, simp only: pre, simp)
  have "indexed 0 ?L" "length ?L < 2 ^ 64 - 1" using L(1,2) by (simp_all add: log_ok_def)
  then have ixM: "indexed 0 ?M" "length ?M < 2 ^ 64 - 1" using lenM(2) pre indexed_take [of 0 ?L] by (metis, linarith)
  then have ix: "indexed (unat ?P) (map pb es)" using le by (simp add: indexed_append)
  have soM: "sorted (map pb_Term ?M)" unfolding pre using sorted_wrt_take [OF L(3), of "unat ?P + n"] by (simp only: take_map)
  have "?A = None \<or> sorted (map pb_Term (take (unat ?P) ?F @ map pb es))"
    using abstract_append_cases [of 0 "unat ?P" t "map pb es" "unat ?c" ?F] M soM by (metis diff_zero)
  moreover have "set (map pb es) \<subseteq> set ?L" unfolding n(1) by (meson order_trans set_drop_subset set_take_subset)
  ultimately have fit: "fits ev req fl" using F(2) L(4) ix ixM(2) lenM(1) by (simp add: fits_def req list_all_iff subset_iff)
  obtain resp f1 where p1: "processAppendEntriesRequest ev req fl = Some ((resp, True), f1)" "currentTerm f1 = currentTerm ld"
    "state f1 = (if currentTerm ld = currentTerm fl \<and> state fl \<noteq> Candidate then state fl else Follower)"
    "log_ok (log f1)" "startIndex (log f1) = 0" "log_file (log f1) \<noteq> None" "aer_Term resp = currentTerm ld"
    "aer_Index resp = of_nat (length (pbs (log f1)))" "aer_CommitIndex resp = commitIndex (log f1)"
    and out0: "case ?A of None \<Rightarrow> \<not> aer_Success resp \<and> log f1 = log fl
      | Some X \<Rightarrow> pbs (log f1) = X \<and> (aer_Success resp \<longleftrightarrow> list_all (\<lambda>e. decoded ev e \<noteq> None) (committed_by ev req fl (entries (log f1))))"
    using append_refines [OF F(1,3) _ _ fit] F(2,5,6) unfolding req by (fastforce split: option.splits)
  have out: "case ?A of None \<Rightarrow> \<not> aer_Success resp \<and> log f1 = log fl | Some X \<Rightarrow> aer_Success resp \<and> pbs (log f1) = X"
  proof (cases ?A)
    case (Some X)
    then have "pbs (log f1) = take (unat ?P + n) ?L" using out0 M pre by auto
    then have "list_all (known ev) (pbs (log f1))" using L(4) by (auto simp: list_all_iff dest: in_set_takeD)
    then show ?thesis using out0 Some committed_known [of ev "log f1" req fl] by simp
  qed (use out0 in simp)
  let ?g = "\<lambda>p. p\<lparr>prevLogIndex := next_prevLogIndex ld req resp (prevLogIndex p)\<rparr>"
  obtain resp1 ld1 where pr: "peer_response j req resp ld = (resp1, ld1)" by (rule prod.exhaust)
  then have l1: "log ld1 = log ld" "currentTerm ld1 = currentTerm ld" "map_of (peers ld1) j = Some (?g p)"
    using map_of_answered [of j ?g "peers ld"] pj by (auto simp: peer_response_def)
  have ldd: "leads ev ld1" using ld l1(1) by (simp add: leads_def)
  have nx: "prevLogIndex (?g p) = next_prevLogIndex ld req resp ?P" by simp
  have "if aer_Success resp then pbs (log f1) = take (length (pbs (log f1))) ?L \<and> next_prevLogIndex ld req resp ?P = of_nat (length (pbs (log f1)))
     else follows ev ld1 f1 \<and> log f1 = log fl \<and> unat (next_prevLogIndex ld req resp ?P) \<le> length ?L \<and> ?c \<le> next_prevLogIndex ld req resp ?P \<and>
       (if ?P < ?c then next_prevLogIndex ld req resp ?P = ?c else next_prevLogIndex ld req resp ?P < ?P)"
  proof (cases ?A)
    case (Some X)
    then have s: "aer_Success resp" "pbs (log f1) = ?M" using out M by auto
    have "next_prevLogIndex ld req resp ?P = of_nat (length ?M)"
    proof (cases "es = []")
      case True
      then show ?thesis using s(1) le by (simp add: next_prevLogIndex_def req min_def)
    next
      case False
      then have k: "length es - 1 < length (map pb es)" "unat ?P + (length es - 1) + 1 = length ?M" using lenM(1) by (cases es; simp)+
      have "pb_Index (map pb es ! (length es - 1)) = of_nat (length ?M)"
        using ix [unfolded indexed_def, rule_format, OF k(1)] by (simp only: k(2))
      moreover have "last (map pb es) = map pb es ! (length es - 1)" using False by (simp only: last_conv_nth map_is_Nil_conv length_map not_False_eq_True)
      ultimately have "pb_Index (last (map pb es)) = of_nat (length ?M)" by (simp only:)
      then show ?thesis using s(1) False by (simp add: next_prevLogIndex_def req)
    qed
    moreover have "?M = take (length ?M) ?L" using lenM(2) unfolding pre by (simp add: min_def)
    ultimately have "pbs (log f1) = take (length (pbs (log f1))) ?L \<and> next_prevLogIndex ld req resp ?P = of_nat (length (pbs (log f1)))"
      unfolding s(2) by (intro conjI)
    then show ?thesis by (simp only: s(1) if_True)
  next
    case None
    then have s: "\<not> aer_Success resp" "log f1 = log fl" using out by auto
    have f: "follows ev ld1 f1" using fl p1(2,3) s(2) l1(1,2) by (auto simp: follows_def)
    have i: "aer_Index resp = of_nat (length ?F)" "aer_CommitIndex resp = ?c" using p1(8,9) s(2) by simp_all
    have room: "length ?F < 2 ^ 64" "unat ?c \<le> length ?F" using F(1,2) by (simp_all add: log_ok_def)
    have "?P \<noteq> ?c"
    proof
      assume "?P = ?c"
      then have "?A \<noteq> None" using F(9) n(2) room(2) by (cases "unat ?c = 0") (simp_all add: abstract_append_def)
      then show False using None by simp
    qed
    then consider "?P < ?c" | "?c < ?P" by (metis linorder_neqE)
    then show ?thesis
    proof cases
      case 1
      then have "next_prevLogIndex ld req resp ?P = ?c"
        using s(1) i p1(7) less_imp_le [OF 1] by (simp add: next_prevLogIndex_def req)
      then show ?thesis using s f F(8) 1 by simp
    next
      case 2
      then have u: "unat (?P - 1) = unat ?P - 1" "?P - 1 < ?P" "?c \<le> ?P - 1"
        using unat_sub_1 [of 0 ?P] by (simp_all add: word_less_nat_alt word_le_nat_alt)
      have v: "unat (of_nat (length ?F) :: u64) = length ?F" "?c \<le> of_nat (length ?F)"
        using room by (simp_all add: unat_of_nat64 word_le_nat_alt)
      have "next_prevLogIndex ld req resp ?P = (if ?P - 1 > of_nat (length ?F) then of_nat (length ?F) else ?P - 1)"
        using s(1) i p1(7) 2 [folded not_le] le_less_trans [OF word_zero_le 2] by (simp add: next_prevLogIndex_def req)
      then show ?thesis using s f u v le by (auto simp: word_less_nat_alt word_le_nat_alt)
    qed
  qed
  note result = this
  show ?thesis
    by (intro exI [of _ req] exI [of _ resp] exI [of _ True] exI [of _ f1] exI [of _ resp1] exI [of _ ld1] exI [of _ "?g p"] conjI)
      (rule fl1 p1(1) pr ldd l1(1,3) | simp only: nx, rule result)+
qed

lemma catch_up_from:
  assumes "leads ev ld" and "follows ev ld fl" and "map_of (peers ld) j = Some p" and "unat (prevLogIndex p) \<le> length (pbs (log ld))"
    and "commitIndex (log fl) \<le> prevLogIndex p" and "unat (prevLogIndex p) - unat (commitIndex (log fl)) < n"
  shows "\<exists>ld' fl' p'. catch_up n ev j (ld, fl) = Some (ld', fl') \<and> log ld' = log ld \<and> pbs (log fl') = take (length (pbs (log fl'))) (pbs (log ld)) \<and>
    map_of (peers ld') j = Some p' \<and> prevLogIndex p' = of_nat (length (pbs (log fl')))"
  using assms
proof (induction n arbitrary: ld fl p)
  case (Suc n)
  obtain req resp b fl1 resp1 ld1 p1 where r: "flush ld j = Some (Send_entries req)" "processAppendEntriesRequest ev req fl = Some ((resp, b), fl1)"
    "peer_response j req resp ld = (resp1, ld1)" "leads ev ld1" "log ld1 = log ld" "map_of (peers ld1) j = Some p1"
    "if aer_Success resp then pbs (log fl1) = take (length (pbs (log fl1))) (pbs (log ld)) \<and> prevLogIndex p1 = of_nat (length (pbs (log fl1)))
     else follows ev ld1 fl1 \<and> log fl1 = log fl \<and> unat (prevLogIndex p1) \<le> length (pbs (log ld)) \<and> commitIndex (log fl) \<le> prevLogIndex p1 \<and>
       (if prevLogIndex p < commitIndex (log fl) then prevLogIndex p1 = commitIndex (log fl) else prevLogIndex p1 < prevLogIndex p)"
    using catch_up_round [OF Suc.prems(1-4)] by blast
  show ?case
  proof (cases "aer_Success resp")
    case True
    then show ?thesis using r by simp
  next
    case False
    then have d: "follows ev ld1 fl1" "log fl1 = log fl" "unat (prevLogIndex p1) \<le> length (pbs (log ld1))"
      "commitIndex (log fl1) \<le> prevLogIndex p1" "prevLogIndex p1 < prevLogIndex p" using r(5,7) Suc.prems(5) by (auto split: if_splits)
    then have "unat (prevLogIndex p1) - unat (commitIndex (log fl1)) < n"
      using Suc.prems(5,6) by (auto simp: word_less_nat_alt word_le_nat_alt)
    then show ?thesis using Suc.IH [OF r(4) d(1) r(6) d(3,4)] r False by simp
  qed
qed simp

text \<open>C11. A server that is behind catches up: the heartbeats of a leader to it, each delivered and answered,
  come to one that the server takes after at most two more than the index from which the leader
  begins; the server's log is then a beginning of the leader's, and the leader knows how long it is.
  This is for logs that begin at index 1 (neither is compacted), where entries with the same index and
  term have the same entries before them, what the server has committed is in the leader's log, and
  the server has no later term than the leader and does not lead in its term; the index from which the
  leader begins is not behind the end of its log; the leader's terms do not fall, its entries can be
  encoded, and every entry of both is a command that the server can decode: of clients, a join, a
  leave or the NOP that a leader begins with. Both logs satisfy \<open>log_ok\<close>, and the server's has a file.\<close>

theorem raft_follower_catches_up:
  assumes "leads ev ld" and "follows ev ld fl" and "map_of (peers ld) j = Some p" and "unat (prevLogIndex p) \<le> length (pbs (log ld))"
  shows "\<exists>ld' fl' p'. catch_up (unat (prevLogIndex p) + 2) ev j (ld, fl) = Some (ld', fl') \<and> log ld' = log ld \<and>
    pbs (log fl') = take (length (pbs (log fl'))) (pbs (log ld)) \<and>
    map_of (peers ld') j = Some p' \<and> prevLogIndex p' = of_nat (length (pbs (log fl')))"
proof (cases "commitIndex (log fl) \<le> prevLogIndex p")
  case True
  then show ?thesis using catch_up_from [OF assms True, of "unat (prevLogIndex p) + 2"] by simp
next
  case False
  obtain req resp b fl1 resp1 ld1 p1 where r: "flush ld j = Some (Send_entries req)" "processAppendEntriesRequest ev req fl = Some ((resp, b), fl1)"
    "peer_response j req resp ld = (resp1, ld1)" "leads ev ld1" "log ld1 = log ld" "map_of (peers ld1) j = Some p1"
    "if aer_Success resp then pbs (log fl1) = take (length (pbs (log fl1))) (pbs (log ld)) \<and> prevLogIndex p1 = of_nat (length (pbs (log fl1)))
     else follows ev ld1 fl1 \<and> log fl1 = log fl \<and> unat (prevLogIndex p1) \<le> length (pbs (log ld)) \<and> commitIndex (log fl) \<le> prevLogIndex p1 \<and>
       (if prevLogIndex p < commitIndex (log fl) then prevLogIndex p1 = commitIndex (log fl) else prevLogIndex p1 < prevLogIndex p)"
    using catch_up_round [OF assms] by blast
  show ?thesis
  proof (cases "aer_Success resp")
    case True
    then show ?thesis using r by simp
  next
    case f: False
    then have d: "follows ev ld1 fl1" "log fl1 = log fl" "unat (prevLogIndex p1) \<le> length (pbs (log ld1))"
      "commitIndex (log fl1) \<le> prevLogIndex p1" "prevLogIndex p1 = commitIndex (log fl)" using r(5,7) False by (auto split: if_splits)
    have "\<exists>ld' fl' p'. catch_up (unat (prevLogIndex p) + 1) ev j (ld1, fl1) = Some (ld', fl') \<and> log ld' = log ld1 \<and>
        pbs (log fl') = take (length (pbs (log fl'))) (pbs (log ld1)) \<and> map_of (peers ld') j = Some p' \<and> prevLogIndex p' = of_nat (length (pbs (log fl')))"
      by (rule catch_up_from [OF r(4) d(1) r(6) d(3,4)]) (simp add: d(2,5))
    then show ?thesis using r f by simp
  qed
qed

text \<open>A leader with three entries and a server with two others, of an older term.\<close>

definition demo_leader :: "(byte list, byte list) server" where
  "demo_leader = demo_voter\<lparr>state := Leader, currentTerm := 3, peers := [(''b'', \<lparr>prevLogIndex = 3, ConnectionString = []\<rparr>)],
     log := demo_log\<lparr>entries := map (\<lambda>p. \<lparr>pb = p, Position = 0, event = None\<rparr>)
       [demo_pb 1 [7], (demo_pb 2 [1])\<lparr>pb_Term := 2\<rparr>, (demo_pb 3 [2])\<lparr>pb_Term := 3\<rparr>]\<rparr>\<rparr>"

lemma demo_leads: "leads demo_env demo_leader" "follows demo_env demo_leader demo_committed"
proof -
  have l: "pbs (log demo_leader) = [demo_pb 1 [7], (demo_pb 2 [1])\<lparr>pb_Term := 2\<rparr>, (demo_pb 3 [2])\<lparr>pb_Term := 3\<rparr>]"
    "startIndex (log demo_leader) = 0" "commitIndex (log demo_leader) = 0" "length (entries (log demo_leader)) = 3"
    unfolding pbs_def by code_simp+
  have ok: "log_ok (log demo_leader)"
    unfolding log_ok_def l by (simp add: l indexed_def demo_pb_def nth_Cons split: nat.split)
  have a: "sorted (map pb_Term (pbs (log demo_leader)))" unfolding l by (simp add: demo_pb_def)
  have b: "list_all (\<lambda>p. Marshal (env_codec demo_env) p \<noteq> None \<and> known demo_env p) (pbs (log demo_leader))"
    unfolding l by code_simp
  show "leads demo_env demo_leader" unfolding leads_def using ok l(2) a b by simp
  have c: "list_all (known demo_env) (pbs (log demo_committed))" unfolding demo_committed_facts by code_simp
  have d: "matching (pbs (log demo_leader)) (pbs (log demo_committed))" unfolding l demo_committed_facts by code_simp
  have e: "currentTerm demo_leader = 3" by code_simp
  show "follows demo_env demo_leader demo_committed"
    unfolding follows_def Let_def using c d e demo_committed_ok demo_committed_facts by simp
qed

theorem raft_follower_catches_up_witness:
  "\<exists>ld' fl'. catch_up 5 demo_env ''b'' (demo_leader, demo_committed) = Some (ld', fl') \<and>
     pbs (log fl') = take (length (pbs (log fl'))) (pbs (log demo_leader)) \<and>
     map_option (\<lambda>(l, f). map pb_Command (pbs (log f))) (catch_up 3 demo_env ''b'' (demo_leader, demo_committed)) = Some [[7], [1], [2]]"
proof -
  have "map_of (peers demo_leader) ''b'' = Some \<lparr>prevLogIndex = 3, ConnectionString = []\<rparr>" by code_simp
  moreover have "length (pbs (log demo_leader)) = 3" unfolding pbs_def by code_simp
  ultimately obtain ld' fl' where c: "catch_up 5 demo_env ''b'' (demo_leader, demo_committed) = Some (ld', fl')"
    "pbs (log fl') = take (length (pbs (log fl'))) (pbs (log demo_leader))"
    using raft_follower_catches_up [OF demo_leads, of "''b''"] by (auto simp del: catch_up.simps)
  have "map_option (\<lambda>(l, f). map pb_Command (pbs (log f))) (catch_up 3 demo_env ''b'' (demo_leader, demo_committed)) = Some [[7], [1], [2]]"
    by code_simp
  then show ?thesis using c by blast
qed

end
