(* ===== verification/GoFmt.thy ===== *)
theory GoFmt
  imports Prelude
begin

text \<open>
  What several programs use of Go's library: decimal numbers (\<open>%v\<close> and \<open>strconv.Itoa\<close>), the bytes of a
  string and the checksum \<open>hash/crc32\<close>.
\<close>

section \<open>Decimal numbers\<close>

function dec_string :: "nat \<Rightarrow> string" where
  "dec_string n = (if n < 10 then [char_of (48 + n)] else dec_string (n div 10) @ [char_of (48 + n mod 10)])"
  by pat_completeness auto
termination by (relation "measure (\<lambda>n. n)") auto

declare dec_string.simps [simp del]

definition dec_nat :: "string \<Rightarrow> nat" where
  "dec_nat ds = foldl (\<lambda>n d. 10 * n + (of_char d - 48)) 0 ds"

lemma dec_digit: "d < 10 \<Longrightarrow> of_char (char_of (48 + d)) = 48 + (d :: nat)"
  by simp

lemma dec_string_digits: "dec_nat (dec_string n) = n \<and> CHR ''_'' \<notin> set (dec_string n) \<and> CHR ''.'' \<notin> set (dec_string n)"
proof (induction n rule: dec_string.induct)
  case (1 n)
  have u: "char_of (48 + d) \<noteq> CHR ''_'' \<and> char_of (48 + d) \<noteq> CHR ''.''" if "d < 10" for d :: nat
  proof -
    have "of_char (CHR ''_'') = (95 :: nat)" "of_char (CHR ''.'') = (46 :: nat)" by simp_all
    then show ?thesis using dec_digit [OF that] that by fastforce
  qed
  show ?case
  proof (cases "n < 10")
    case True
    then have "dec_string n = [char_of (48 + n)]" by (subst dec_string.simps) simp
    then show ?thesis using u [OF True] dec_digit [OF True] by (auto simp: dec_nat_def)
  next
    case False
    then have d: "dec_string n = dec_string (n div 10) @ [char_of (48 + n mod 10)]" by (subst dec_string.simps) simp
    have "of_char (char_of (48 + n mod 10)) = 48 + n mod 10" by (rule dec_digit) simp
    then have "dec_nat (dec_string n) = n" unfolding d using 1 [OF False] by (simp add: dec_nat_def del: of_char_of)
    then show ?thesis using 1 [OF False] u [of "n mod 10"] by (auto simp: d)
  qed
qed

definition bytes_of :: "string \<Rightarrow> byte list" where
  "bytes_of s = map of_char s"

section \<open>Checksums\<close>

text \<open>\<open>crc32.ChecksumIEEE\<close>, bit by bit.\<close>

definition crc_bit :: "u32 \<Rightarrow> u32" where
  "crc_bit c = (if bit c 0 then Bit_Operations.xor (drop_bit 1 c) 0xEDB88320 else drop_bit 1 c)"

definition crc_byte :: "u32 \<Rightarrow> byte \<Rightarrow> u32" where
  "crc_byte c b = (crc_bit ^^ 8) (Bit_Operations.xor c (ucast b))"

definition ChecksumIEEE :: "byte list \<Rightarrow> u32" where
  "ChecksumIEEE bs = Bit_Operations.not (foldl crc_byte (- 1) bs)"

end
