(* ===== verification/RaftSnapshot.thy ===== *)
theory RaftSnapshot
  imports RaftServer GoFmt
begin

text \<open>
  The snapshots of \<open>benbjohnson/go-raft\<close> (\<open>snapshot.go\<close> and the parts of \<open>server.go\<close> and \<open>peer.go\<close> that
  take, save, send, receive and load them), and the loops of a server as what they do with the next
  event. A snapshot file is a line with a checksum and the JSON of the snapshot; the JSON is an
  argument (\<open>json\<close>). Opening, writing and deleting a file does not fail, and the directory exists.
\<close>

section \<open>Messages\<close>

record SnapshotRecoveryRequest =
  srr_LeaderName :: string
  srr_LastIndex :: u64
  srr_LastTerm :: u64
  srr_Peers :: peer_map
  srr_State :: "byte list"

record SnapshotResponse =
  sr_Success :: bool

record SnapshotRecoveryResponse =
  srr_Term :: u64
  srr_Success :: bool
  srr_CommitIndex :: u64

text \<open>A leader without a snapshot panics.\<close>

definition newSnapshotRecoveryRequest :: "string \<Rightarrow> snapshot option \<Rightarrow> SnapshotRecoveryRequest option" where
  "newSnapshotRecoveryRequest n ss =
     map_option (\<lambda>ss. \<lparr>srr_LeaderName = n, srr_LastIndex = LastIndex ss, srr_LastTerm = LastTerm ss,
       srr_Peers = Peers ss, srr_State = State ss\<rparr>) ss"

definition newSnapshotResponse :: "bool \<Rightarrow> SnapshotResponse" where
  "newSnapshotResponse ok = \<lparr>sr_Success = ok\<rparr>"

definition newSnapshotRecoveryResponse :: "u64 \<Rightarrow> bool \<Rightarrow> u64 \<Rightarrow> SnapshotRecoveryResponse" where
  "newSnapshotRecoveryResponse t ok ci = \<lparr>srr_Term = t, srr_Success = ok, srr_CommitIndex = ci\<rparr>"

text \<open>
  What a peer sends when its snapshot request is answered, and what it notes when the recovery is.
\<close>

definition sendSnapshotRequest :: "SnapshotResponse \<Rightarrow> ('r, 'm) server \<Rightarrow> SnapshotRecoveryRequest option option" where
  "sendSnapshotRequest resp s =
     (if sr_Success resp then map_option Some (newSnapshotRecoveryRequest (sname s) (snap s)) else Some None)"

definition sendSnapshotRecoveryRequest ::
  "string \<Rightarrow> SnapshotRecoveryRequest \<Rightarrow> SnapshotRecoveryResponse \<Rightarrow> ('r, 'm) server \<Rightarrow> ('r, 'm) server" where
  "sendSnapshotRecoveryRequest n req resp s =
     (if srr_Success resp then
        s\<lparr>peers := map (\<lambda>(k, p). (k, if k = n then p\<lparr>prevLogIndex := srr_LastIndex req\<rparr> else p)) (peers s)\<rparr>
      else s)"

section \<open>Snapshot files\<close>

record json =
  Marshal_snapshot :: "snapshot \<Rightarrow> byte list option"
  Unmarshal_snapshot :: "byte list \<Rightarrow> snapshot option"

text \<open>\<open>%08x\<close> for a \<open>uint32\<close>, printed and read: no sign is read.\<close>

definition hex08 :: "u32 \<Rightarrow> byte list" where
  "hex08 c = replicate (8 - length (hex (unat c))) 48 @ hex (unat c)"

definition scan_checksum :: "byte list \<Rightarrow> u32 option \<times> nat" where
  "scan_checksum bs =
     (let w = dropWhile scan_space bs in
      if w \<noteq> [] \<and> (hd w = 43 \<or> hd w = 45) then (None, length bs - length w)
      else (case scan_length bs of (v, k) \<Rightarrow> (map_option (\<lambda>v. word_of_int v) v, k)))"

text \<open>The name of the file of a snapshot in the directory.\<close>

definition SnapshotPath :: "u64 \<Rightarrow> u64 \<Rightarrow> string" where
  "SnapshotPath lastIndex lastTerm = dec_string (unat lastTerm) @ ''_'' @ dec_string (unat lastIndex) @ ''.ss''"

text \<open>
  \<open>save\<close> opens a file without truncating it, so what a longer file held behind the new bytes stays;
  the flag is false for an error, which leaves the file empty if it is new.
\<close>

definition snapshot_save :: "json \<Rightarrow> snapshot \<Rightarrow> (string \<times> byte list) list \<Rightarrow> bool \<times> (string \<times> byte list) list" where
  "snapshot_save js ss files =
     (let old = (case map_of files (Path ss) of None \<Rightarrow> [] | Some bs \<Rightarrow> bs) in
      case Marshal_snapshot js ss of
        None \<Rightarrow> (False, AList.update (Path ss) old files)
      | Some b \<Rightarrow> (True, AList.update (Path ss)
          (content (file_write b (file_write (hex08 (ChecksumIEEE b) @ [10]) (opened old)))) files))"

definition snapshot_remove :: "snapshot \<Rightarrow> (string \<times> byte list) list \<Rightarrow> (string \<times> byte list) list" where
  "snapshot_remove ss files = AList.delete (Path ss) files"

definition saveSnapshot :: "json \<Rightarrow> ('r, 'm) server \<Rightarrow> bool \<times> ('r, 'm) server" where
  "saveSnapshot js s =
     (case pendingSnapshot s of
        None \<Rightarrow> (False, s)
      | Some p \<Rightarrow>
          (case snapshot_save js p (snapshot_files s) of
             (False, fs) \<Rightarrow> (False, s\<lparr>snapshot_files := fs\<rparr>)
           | (True, fs) \<Rightarrow>
               let fs1 = (case snap s of
                   None \<Rightarrow> fs
                 | Some tmp \<Rightarrow> if \<not> (LastIndex tmp = LastIndex p \<and> LastTerm tmp = LastTerm p) then snapshot_remove tmp fs else fs)
               in (True, s\<lparr>snapshot_files := fs1, snap := Some p, pendingSnapshot := None\<rparr>)))"

section \<open>Taking a snapshot\<close>

datatype snapshot_error = No_state_machine | Not_finished | Save_error | Bad_file | Bad_json | Recovery_error

text \<open>\<open>clone\<close> copies a peer; the server itself is added as one. An error of \<open>saveSnapshot\<close> or \<open>compact\<close> is ignored.\<close>

definition snapshot_peers :: "('r, 'm) server \<Rightarrow> peer_map" where
  "snapshot_peers s = peers s @ [(sname s, \<lparr>prevLogIndex = 0, ConnectionString = connectionString s\<rparr>)]"

definition compact_after_snapshot :: "codec \<Rightarrow> u64 \<Rightarrow> ('r, 'm) server \<Rightarrow> ('r, 'm) server option" where
  "compact_after_snapshot cd lastIndex s =
     (if lastIndex - startIndex (log s) > NumberOfLogEntriesAfterSnapshot then do {
        let compactIndex = lastIndex - NumberOfLogEntriesAfterSnapshot;
        e \<leftarrow> getEntry (log s) compactIndex;
        e \<leftarrow> e;
        (_, l) \<leftarrow> compact cd compactIndex (Term e) (log s);
        Some (s\<lparr>log := l\<rparr>) }
      else Some s)"

definition TakeSnapshot ::
  "('c, 'r, 'm) env \<Rightarrow> json \<Rightarrow> ('r, 'm) server \<Rightarrow> (snapshot_error option \<times> ('r, 'm) server) option" where
  "TakeSnapshot ev js s =
     (if \<not> has_stateMachine s then Some (Some No_state_machine, s)
      else if pendingSnapshot s \<noteq> None then Some (Some Not_finished, s)
      else do {
        (lastIndex, lastTerm) \<leftarrow> commitInfo (log s);
        if lastIndex = startIndex (log s) then Some (None, s)
        else
          let p = \<lparr>LastIndex = lastIndex, LastTerm = lastTerm, Peers = [], State = [], Path = SnapshotPath lastIndex lastTerm\<rparr> in
          case env_Save ev (app s) of
            None \<Rightarrow> Some (Some Save_error, s\<lparr>pendingSnapshot := Some p\<rparr>)
          | Some st \<Rightarrow>
              let s1 = snd (saveSnapshot js (s\<lparr>pendingSnapshot := Some (p\<lparr>Peers := snapshot_peers s, State := st\<rparr>)\<rparr>))
              in map_option (Pair None) (compact_after_snapshot (env_codec ev) lastIndex s1) })"

section \<open>Receiving a snapshot\<close>

definition processSnapshotRequest :: "SnapshotRequest \<Rightarrow> ('r, 'm) server \<Rightarrow> (SnapshotResponse \<times> ('r, 'm) server) option" where
  "processSnapshotRequest req s =
     do { e \<leftarrow> getEntry (log s) (sr_LastIndex req);
          if (case e of None \<Rightarrow> False | Some e \<Rightarrow> Term e = sr_LastTerm req) then Some (newSnapshotResponse False, s)
          else Some (newSnapshotResponse True, setState Snapshotting s) }"

definition add_peers :: "peer_map \<Rightarrow> ('r, 'm) server \<Rightarrow> ('r, 'm) server" where
  "add_peers ps s = foldl (\<lambda>s p. AddPeer (fst p) (ConnectionString (snd p)) s) s ps"

text \<open>A state machine that is missing or does not recover is a panic.\<close>

definition processSnapshotRecoveryRequest ::
  "('c, 'r, 'm) env \<Rightarrow> json \<Rightarrow> SnapshotRecoveryRequest \<Rightarrow> ('r, 'm) server \<Rightarrow> (SnapshotRecoveryResponse \<times> ('r, 'm) server) option" where
  "processSnapshotRecoveryRequest ev js req s =
     (if \<not> has_stateMachine s then None
      else do {
        a \<leftarrow> env_Recovery ev (srr_State req) (app s);
        let s1 = add_peers (srr_Peers req) (s\<lparr>app := a, peers := []\<rparr>);
        let s2 = s1\<lparr>currentTerm := srr_LastTerm req, log := updateCommitIndex (srr_LastIndex req) (log s1)\<rparr>;
        let p = \<lparr>LastIndex = srr_LastIndex req, LastTerm = srr_LastTerm req, Peers = srr_Peers req, State = srr_State req,
          Path = SnapshotPath (srr_LastIndex req) (srr_LastTerm req)\<rparr>;
        let s3 = snd (saveSnapshot js (s2\<lparr>pendingSnapshot := Some p\<rparr>));
        (_, l) \<leftarrow> compact (env_codec ev) (srr_LastIndex req) (srr_LastTerm req) (log s3);
        Some (newSnapshotRecoveryResponse (srr_LastTerm req) True (srr_LastIndex req), s3\<lparr>log := l\<rparr>) })"

section \<open>Loading a snapshot\<close>

text \<open>The file that \<open>LoadSnapshot\<close> picks: the last of the names in their order as strings.\<close>

definition latest_file :: "(string \<times> byte list) list \<Rightarrow> byte list option" where
  "latest_file fs = (if fs = [] then None else map_of fs (last (sort (map fst fs))))"

definition read_snapshot :: "json \<Rightarrow> byte list \<Rightarrow> snapshot_error + snapshot" where
  "read_snapshot js bs =
     (case scan_checksum bs of
        (None, _) \<Rightarrow> Inl Bad_file
      | (Some c, k) \<Rightarrow>
          let b = drop k bs in
          if c \<noteq> ChecksumIEEE b then Inl Bad_file
          else (case Unmarshal_snapshot js b of None \<Rightarrow> Inl Bad_json | Some ss \<Rightarrow> Inr ss))"

definition LoadSnapshot ::
  "('c, 'r, 'm) env \<Rightarrow> json \<Rightarrow> ('r, 'm) server \<Rightarrow> (snapshot_error option \<times> ('r, 'm) server) option" where
  "LoadSnapshot ev js s =
     (case latest_file (snapshot_files s) of
        None \<Rightarrow> Some (None, s)
      | Some bs \<Rightarrow>
          (case read_snapshot js bs of
             Inl e \<Rightarrow> Some (Some e, s)
           | Inr ss \<Rightarrow>
               let s1 = s\<lparr>snap := Some ss\<rparr> in
               if \<not> has_stateMachine s1 then None
               else
                 case env_Recovery ev (State ss) (app s1) of
                   None \<Rightarrow> Some (Some Recovery_error, s1)
                 | Some a \<Rightarrow>
                     let s2 = add_peers (Peers ss) (s1\<lparr>app := a\<rparr>)
                     in Some (None, s2\<lparr>log := updateCommitIndex (LastIndex ss)
                          ((log s2)\<lparr>startTerm := LastTerm ss, startIndex := LastIndex ss\<rparr>)\<rparr>)))"

section \<open>The loops\<close>

text \<open>
  The next event of a loop, with the number of the request for a command. The loop answers an event
  with an error or without one (\<open>Nil_reply\<close>); a leader leaves the answer to a command to its commit
  (\<open>No_reply\<close>).
\<close>

datatype 'c event =
    Command_event "'c command" nat
  | Append_request AppendEntriesRequest
  | Append_response AppendEntriesResponse
  | Vote_request RequestVoteRequest
  | Snapshot_request SnapshotRequest
  | Recovery_request SnapshotRecoveryRequest

datatype reply =
    No_reply
  | Nil_reply
  | Not_leader
  | Append_reply AppendEntriesResponse
  | Vote_reply RequestVoteResponse
  | Snapshot_reply SnapshotResponse
  | Recovery_reply SnapshotRecoveryResponse

definition append_reply :: "('c, 'r, 'm) env \<Rightarrow> AppendEntriesRequest \<Rightarrow> ('r, 'm) server \<Rightarrow> (reply \<times> ('r, 'm) server) option" where
  "append_reply ev req s = map_option (\<lambda>((resp, _), s1). (Append_reply resp, s1)) (processAppendEntriesRequest ev req s)"

definition vote_reply :: "RequestVoteRequest \<Rightarrow> ('r, 'm) server \<Rightarrow> (reply \<times> ('r, 'm) server) option" where
  "vote_reply req s = map_option (\<lambda>((resp, _), s1). (Vote_reply resp, s1)) (processRequestVoteRequest req s)"

definition not_leader :: "nat \<Rightarrow> ('r, 'm) server \<Rightarrow> (reply \<times> ('r, 'm) server) option" where
  "not_leader v s = Some (Not_leader, refuse v ''not leader'' s)"

fun follower_event :: "('c, 'r, 'm) env \<Rightarrow> 'c event \<Rightarrow> ('r, 'm) server \<Rightarrow> (reply \<times> ('r, 'm) server) option" where
  "follower_event ev (Command_event (DefaultJoin n conn) v) s =
     (if currentIndex (log s) = 0 \<and> n = sname s
      then map_option (Pair Nil_reply) (processCommand ev (DefaultJoin n conn) v (setState Leader s))
      else not_leader v s)"
| "follower_event ev (Append_request req) s = append_reply ev req s"
| "follower_event ev (Vote_request req) s = vote_reply req s"
| "follower_event ev (Snapshot_request req) s = map_option (\<lambda>(resp, s1). (Snapshot_reply resp, s1)) (processSnapshotRequest req s)"
| "follower_event ev (Command_event c v) s = not_leader v s"
| "follower_event ev _ s = Some (Not_leader, s)"

fun candidate_event :: "('c, 'r, 'm) env \<Rightarrow> 'c event \<Rightarrow> ('r, 'm) server \<Rightarrow> (reply \<times> ('r, 'm) server) option" where
  "candidate_event ev (Command_event c v) s = not_leader v s"
| "candidate_event ev (Append_request req) s = append_reply ev req s"
| "candidate_event ev (Vote_request req) s = vote_reply req s"
| "candidate_event ev _ s = Some (Nil_reply, s)"

fun leader_event :: "('c, 'r, 'm) env \<Rightarrow> 'c event \<Rightarrow> ('r, 'm) server \<Rightarrow> (reply \<times> ('r, 'm) server) option" where
  "leader_event ev (Command_event c v) s = map_option (Pair No_reply) (processCommand ev c v s)"
| "leader_event ev (Append_request req) s = append_reply ev req s"
| "leader_event ev (Append_response resp) s = map_option (Pair Nil_reply) (processAppendEntriesResponse ev resp s)"
| "leader_event ev (Vote_request req) s = vote_reply req s"
| "leader_event ev _ s = Some (Nil_reply, s)"

fun snapshot_event :: "('c, 'r, 'm) env \<Rightarrow> json \<Rightarrow> 'c event \<Rightarrow> ('r, 'm) server \<Rightarrow> (reply \<times> ('r, 'm) server) option" where
  "snapshot_event ev js (Command_event c v) s = not_leader v s"
| "snapshot_event ev js (Append_request req) s = append_reply ev req s"
| "snapshot_event ev js (Vote_request req) s = vote_reply req s"
| "snapshot_event ev js (Recovery_request req) s =
     map_option (\<lambda>(resp, s1). (Recovery_reply resp, s1)) (processSnapshotRecoveryRequest ev js req s)"
| "snapshot_event ev js _ s = Some (Nil_reply, s)"

text \<open>
  One turn of \<open>loop\<close>: the event goes to the loop of the role; a server that becomes a leader enters
  its loop, and one that stops being one leaves it. A server that is not running takes no events.
\<close>

definition loop_event :: "('c, 'r, 'm) env \<Rightarrow> json \<Rightarrow> 'c event \<Rightarrow> ('r, 'm) server \<Rightarrow> (reply \<times> ('r, 'm) server) option" where
  "loop_event ev js e s =
     (case state s of
        Follower \<Rightarrow> map_option (\<lambda>(r, s1). (r, if state s1 = Leader then leader_enter s1 else s1)) (follower_event ev e s)
      | Candidate \<Rightarrow> candidate_event ev e s
      | Leader \<Rightarrow> map_option (\<lambda>(r, s1). (r, leader_exit s1)) (leader_event ev e s)
      | Snapshotting \<Rightarrow> snapshot_event ev js e s
      | _ \<Rightarrow> Some (No_reply, s))"

fun serve :: "('c, 'r, 'm) env \<Rightarrow> json \<Rightarrow> 'c event list \<Rightarrow> ('r, 'm) server \<Rightarrow> (reply list \<times> ('r, 'm) server) option" where
  "serve ev js [] s = Some ([], s)"
| "serve ev js (e # es) s =
     do { (r, s1) \<leftarrow> loop_event ev js e s;
          (rs, s2) \<leftarrow> serve ev js es s1;
          Some (r # rs, s2) }"

end
