(* ===== verification/RaftRestore.thy ===== *)
theory RaftRestore
  imports RaftDisk RaftSnapshot
begin

text \<open>
  What the loops of a server and its snapshots keep: one vote for each term, unless a snapshot is
  received, and the state, the log and the peers over a snapshot and a restart.
\<close>

section \<open>Votes\<close>

text \<open>The term does not fall, and a vote is not taken back in its term.\<close>

definition keeps_vote :: "('r, 'm) server \<Rightarrow> ('r, 'm) server \<Rightarrow> bool" where
  "keeps_vote s s' \<longleftrightarrow> currentTerm s < currentTerm s' \<or>
     currentTerm s' = currentTerm s \<and> (votedFor s' = votedFor s \<or> votedFor s = [])"

lemma keeps_vote_refl [simp]: "keeps_vote s s"
  by (simp add: keeps_vote_def)

lemma keeps_vote_trans: "keeps_vote a b \<Longrightarrow> keeps_vote b c \<Longrightarrow> keeps_vote a c"
  by (auto simp: keeps_vote_def)

lemma keeps_vote_same: "currentTerm s' = currentTerm s \<Longrightarrow> votedFor s' = votedFor s \<Longrightarrow> keeps_vote s s'"
  by (simp add: keeps_vote_def)

lemma keeps_vote_move: "vote_move s s' \<Longrightarrow> keeps_vote s s'"
  by (auto simp: vote_move_def keeps_vote_def)

lemma keeps_vote_update: "updateCurrentTerm t n s = Some s' \<Longrightarrow> keeps_vote s s'"
  by (auto simp: updateCurrentTerm_def keeps_vote_def Let_def split: if_splits)

lemma setState_vote [simp]: "currentTerm (setState st s) = currentTerm s" "votedFor (setState st s) = votedFor s"
  by (simp_all add: setState_def Let_def)

lemma AddPeer_vote [simp]:
  "currentTerm (AddPeer n c s) = currentTerm s" "votedFor (AddPeer n c s) = votedFor s"
  by (simp_all add: AddPeer_def writeConf_def Let_def)

lemma RemovePeer_vote: "RemovePeer n s = (ok, s') \<Longrightarrow> currentTerm s' = currentTerm s \<and> votedFor s' = votedFor s"
  by (auto simp: RemovePeer_def writeConf_def split: if_splits)

lemma server_apply_vote:
  "currentTerm (snd (server_apply ev e c l s)) = currentTerm s \<and> votedFor (snd (server_apply ev e c l s)) = votedFor s"
  by (cases c) (auto simp: server_apply_def Let_def dest: RemovePeer_vote split: prod.splits)

lemma server_commit_vote:
  assumes "server_commit ev i s = Some (e, s')"
  shows "currentTerm s' = currentTerm s \<and> votedFor s' = votedFor s"
proof -
  obtain l x where c: "setCommitIndex (server_machine ev) i (log s, s) = Some (e, l, x)" "s' = x\<lparr>log := l\<rparr>"
    using assms by (auto simp: server_commit_def)
  let ?Q = "\<lambda>x. currentTerm x = currentTerm s \<and> votedFor x = votedFor s"
  have "?Q x"
  proof (cases "(if i > end_index (log s) then end_index (log s) else i) < commitIndex (log s)")
    case True
    then show ?thesis using c(1) by (simp add: setCommitIndex_def Let_def)
  next
    case False
    let ?j = "if i > end_index (log s) then end_index (log s) else i"
    have l: "commit_loop (server_machine ev) [unat (commitIndex (log s)) + 1..<unat ?j + 1] (log s, s) = Some (e, l, x)"
      using c(1) False by (simp add: setCommitIndex_def Let_def)
    have "ApplyFunc (server_machine ev) = server_apply ev" by (simp add: server_machine_def)
    then show ?thesis using commit_loop_inv [OF _ l, where Q = ?Q] server_apply_vote by metis
  qed
  then show ?thesis using c(2) by simp
qed

lemma mark_synced_vote: "mark_synced n s = Some s' \<Longrightarrow> currentTerm s' = currentTerm s \<and> votedFor s' = votedFor s"
  by (auto simp: mark_synced_def)

lemma processCommand_vote: "processCommand ev c v s = Some s' \<Longrightarrow> keeps_vote s s'"
  by (rule keeps_vote_same)
     (auto simp: processCommand_def refuse_def dest!: mark_synced_vote server_commit_vote
       split: option.splits prod.splits if_splits bind_splits)

lemma ae_accept_vote: "ae_accept_leader req s = Some s' \<Longrightarrow> keeps_vote s s'"
  by (auto simp: ae_accept_leader_def Let_def intro: keeps_vote_same keeps_vote_update split: if_splits)

lemma processAppend_vote:
  assumes "processAppendEntriesRequest ev req s = Some (r, s')"
  shows "keeps_vote s s'"
proof (cases "ae_Term req < currentTerm s")
  case True
  then show ?thesis using assms by (simp add: processAppendEntriesRequest_def)
next
  case False
  then obtain s1 where s1: "ae_accept_leader req s = Some s1" using assms by (auto simp: processAppendEntriesRequest_def split: bind_splits)
  have "keeps_vote s1 s'"
    by (rule keeps_vote_same)
       (use assms False s1 in \<open>auto simp: processAppendEntriesRequest_def Let_def dest!: server_commit_vote split: bind_splits if_splits\<close>)
  then show ?thesis using ae_accept_vote [OF s1] keeps_vote_trans by blast
qed

lemma processResponse_vote:
  assumes "processAppendEntriesResponse ev resp s = Some s'"
  shows "keeps_vote s s'"
proof (cases "aer_Term resp > currentTerm s")
  case True
  then show ?thesis using assms keeps_vote_update by (simp add: processAppendEntriesResponse_def)
next
  case False
  show ?thesis
    by (rule keeps_vote_same)
       (use assms False in \<open>auto simp: processAppendEntriesResponse_def dest!: mark_synced_vote server_commit_vote split: bind_splits if_splits option.splits\<close>)
qed

lemma processVote_vote: "processRequestVoteRequest req s = Some (r, s') \<Longrightarrow> keeps_vote s s'"
  using processVote_spec [of req s] keeps_vote_move by fastforce

lemma processSnapshot_vote: "processSnapshotRequest req s = Some (r, s') \<Longrightarrow> keeps_vote s s'"
  by (auto simp: processSnapshotRequest_def intro: keeps_vote_same split: bind_splits if_splits)

lemma leader_loop_vote [simp]:
  "currentTerm (leader_enter s) = currentTerm s" "votedFor (leader_enter s) = votedFor s"
  by (simp_all add: leader_enter_def Let_def)

definition is_recovery :: "'c event \<Rightarrow> bool" where
  "is_recovery e \<longleftrightarrow> (case e of Recovery_request _ \<Rightarrow> True | _ \<Rightarrow> False)"

lemmas event_votes = processAppend_vote processVote_vote processResponse_vote processCommand_vote processSnapshot_vote

lemma not_leader_vote: "not_leader v s = Some (r, s') \<Longrightarrow> keeps_vote s s'"
  by (auto simp: not_leader_def refuse_def intro: keeps_vote_same)

lemma keeps_vote_setState [simp]: "keeps_vote (setState st s) s' = keeps_vote s s'"
  by (simp add: keeps_vote_def)

lemma follower_event_vote: "follower_event ev e s = Some (r, s') \<Longrightarrow> keeps_vote s s'"
  by (induction ev e s rule: follower_event.induct)
     (auto simp: append_reply_def vote_reply_def dest!: event_votes not_leader_vote split: if_splits)

lemma candidate_event_vote: "candidate_event ev e s = Some (r, s') \<Longrightarrow> keeps_vote s s'"
  by (induction ev e s rule: candidate_event.induct)
     (auto simp: append_reply_def vote_reply_def dest!: event_votes not_leader_vote)

lemma leader_event_vote: "leader_event ev e s = Some (r, s') \<Longrightarrow> keeps_vote s s'"
  by (induction ev e s rule: leader_event.induct)
     (auto simp: append_reply_def vote_reply_def dest!: event_votes)

lemma snapshot_event_vote: "snapshot_event ev js e s = Some (r, s') \<Longrightarrow> \<not> is_recovery e \<Longrightarrow> keeps_vote s s'"
  by (induction ev js e s rule: snapshot_event.induct)
     (auto simp: append_reply_def vote_reply_def is_recovery_def dest!: event_votes not_leader_vote)

lemma loop_event_vote:
  assumes "loop_event ev js e s = Some (r, s')" and "\<not> is_recovery e"
  shows "keeps_vote s s'"
proof -
  have f: "keeps_vote s (leader_enter s1) = keeps_vote s s1" "keeps_vote s (leader_exit s1) = keeps_vote s s1" for s1
    by (simp_all add: keeps_vote_def)
  show ?thesis using assms
    by (auto simp: loop_event_def f follower_event_vote candidate_event_vote leader_event_vote snapshot_event_vote
        split: role.splits if_splits)
qed

text \<open>What a granted vote says of the server after it.\<close>

lemma loop_event_grant:
  assumes "loop_event ev js (Vote_request req) s = Some (Vote_reply (newRequestVoteResponse t True), s')"
  shows "currentTerm s' = t \<and> votedFor s' = rv_CandidateName req"
proof -
  obtain resp b s1 where v: "processRequestVoteRequest req s = Some ((resp, b), s1)"
    "rvr_VoteGranted resp \<longrightarrow> votedFor s1 = rv_CandidateName req \<and> rvr_Term resp = currentTerm s1"
    by (metis processVote_spec)
  show ?thesis using assms v
    by (auto simp: loop_event_def vote_reply_def newRequestVoteResponse_def split: role.splits if_splits)
qed

lemma serve_nth:
  assumes "serve ev js es s = Some (rs, s')" and "i < length es"
  shows "length rs = length es \<and> (\<exists>s1 s2. serve ev js (take i es) s = Some (take i rs, s1) \<and>
    loop_event ev js (es ! i) s1 = Some (rs ! i, s2) \<and> serve ev js (drop (Suc i) es) s2 = Some (drop (Suc i) rs, s'))"
  using assms
proof (induction es arbitrary: s rs i)
  case (Cons e es)
  then obtain r s1 rs1 where r: "loop_event ev js e s = Some (r, s1)" "serve ev js es s1 = Some (rs1, s')" "rs = r # rs1"
    by (auto split: bind_splits)
  have len: "length rs1 = length es" using Cons.IH [OF r(2)] r(2) by (cases es) auto
  show ?case
  proof (cases i)
    case 0
    then show ?thesis using r len by simp
  next
    case (Suc k)
    then show ?thesis using Cons.IH [OF r(2), of k] Cons.prems(2) r by auto
  qed
qed simp

lemma serve_vote:
  "serve ev js es s = Some (rs, s') \<Longrightarrow> \<forall>e \<in> set es. \<not> is_recovery e \<Longrightarrow> keeps_vote s s'"
proof (induction es arbitrary: s rs)
  case (Cons e es)
  then obtain r s1 rs1 where "loop_event ev js e s = Some (r, s1)" "serve ev js es s1 = Some (rs1, s')" by (auto split: bind_splits)
  then show ?case using Cons loop_event_vote keeps_vote_trans by (metis list.set_intros)
qed simp

lemma later_vote:
  assumes sv: "serve ev js es s = Some (rs, s')" and n: "\<forall>e \<in> set es. \<not> is_recovery e"
    and ij: "i < j" "j < length es" and v: "es ! i = Vote_request r1" "es ! j = Vote_request r2"
    and g: "rs ! i = Vote_reply (newRequestVoteResponse t True)" "rs ! j = Vote_reply (newRequestVoteResponse t True)"
    and c: "rv_CandidateName r1 \<noteq> []"
  shows "rv_CandidateName r2 = rv_CandidateName r1"
proof -
  let ?es = "drop (Suc i) es" and ?rs = "drop (Suc i) rs"
  obtain s1 s2 where i: "loop_event ev js (es ! i) s1 = Some (rs ! i, s2)" "serve ev js ?es s2 = Some (?rs, s')" and len: "length rs = length es"
    using serve_nth [OF sv, of i] ij by auto
  have s2: "currentTerm s2 = t" "votedFor s2 = rv_CandidateName r1" using loop_event_grant i(1) v(1) g(1) by metis+
  let ?k = "j - Suc i"
  have k: "?k < length ?es" "?es ! ?k = es ! j" "?rs ! ?k = rs ! j" using ij len by simp_all
  obtain s3 s4 where j: "serve ev js (take ?k ?es) s2 = Some (take ?k ?rs, s3)" "loop_event ev js (es ! j) s3 = Some (rs ! j, s4)"
    using serve_nth [OF i(2) k(1)] k by auto
  have n': "\<forall>e \<in> set (take ?k ?es). \<not> is_recovery e" "\<not> is_recovery (es ! j)"
    using n ij by (meson in_set_dropD in_set_takeD) (simp add: n ij(2))
  have "keeps_vote s2 s4" using serve_vote [OF j(1) n'(1)] loop_event_vote [OF j(2) n'(2)] keeps_vote_trans by blast
  moreover have "currentTerm s4 = t" "votedFor s4 = rv_CandidateName r2" using loop_event_grant j(2) v(2) g(2) by metis+
  ultimately show ?thesis using s2 c by (auto simp: keeps_vote_def)
qed

text \<open>C29. A server that stays up votes once: whatever commands, requests and responses its loops take, in
  whichever roles, two votes that it grants in the same term go to the same candidate, as long as no
  snapshot is received between them.\<close>

theorem raft_grants_one_vote:
  assumes "serve ev js es s = Some (rs, s')" and "\<forall>e \<in> set es. \<not> is_recovery e" and "i < length es" and "j < length es"
    and "es ! i = Vote_request r1" and "es ! j = Vote_request r2"
    and "rs ! i = Vote_reply (newRequestVoteResponse t True)" and "rs ! j = Vote_reply (newRequestVoteResponse t True)"
    and "rv_CandidateName r1 \<noteq> []" and "rv_CandidateName r2 \<noteq> []"
  shows "rv_CandidateName r1 = rv_CandidateName r2"
proof (cases i j rule: linorder_cases)
  case less
  then show ?thesis using later_vote [OF assms(1,2) less assms(4-9)] by simp
next
  case equal
  then show ?thesis using assms(5,6) by simp
next
  case greater
  then show ?thesis using later_vote [OF assms(1,2) greater assms(3,6,5,8,7,10)] by simp
qed

definition demo_ask :: "string \<Rightarrow> byte list event" where
  "demo_ask c = Vote_request (newRequestVoteRequest 2 c 1 1)"

definition demo_send :: "byte list event" where
  "demo_send = Snapshot_request \<lparr>sr_LeaderName = ''d'', sr_LastIndex = 5, sr_LastTerm = 1\<rparr>"

text \<open>No snapshot is encoded by this JSON.\<close>

definition no_json :: json where
  "no_json = \<lparr>Marshal_snapshot = (\<lambda>_. None), Unmarshal_snapshot = (\<lambda>_. None)\<rparr>"

theorem raft_grants_one_vote_witness:
  "\<exists>rs s'. serve demo_env no_json [demo_ask ''a'', demo_send, demo_ask ''c'', demo_ask ''a''] demo_voter = Some (rs, s') \<and>
     rs ! 0 = Vote_reply (newRequestVoteResponse 2 True) \<and> rs ! 2 = Vote_reply (newRequestVoteResponse 2 False) \<and>
     (\<forall>c. demo_ask c = demo_ask ''a'' \<and> rs ! 3 = Vote_reply (newRequestVoteResponse 2 True) \<longrightarrow> c = ''a'')"
proof -
  let ?es = "[demo_ask ''a'', demo_send, demo_ask ''c'', demo_ask ''a'']"
  have "map_option fst (serve demo_env no_json ?es demo_voter) =
    Some [Vote_reply (newRequestVoteResponse 2 True), Snapshot_reply (newSnapshotResponse True),
      Vote_reply (newRequestVoteResponse 2 False), Vote_reply (newRequestVoteResponse 2 True)]" by code_simp
  then obtain rs s' where s: "serve demo_env no_json ?es demo_voter = Some (rs, s')"
    "rs = [Vote_reply (newRequestVoteResponse 2 True), Snapshot_reply (newSnapshotResponse True),
      Vote_reply (newRequestVoteResponse 2 False), Vote_reply (newRequestVoteResponse 2 True)]" by auto
  have n: "\<forall>e \<in> set ?es. \<not> is_recovery e" by (simp add: is_recovery_def demo_ask_def demo_send_def)
  have "c = ''a''" if "demo_ask c = demo_ask ''a''" for c
    using raft_grants_one_vote [OF s(1) n, of 0 3 "newRequestVoteRequest 2 ''a'' 1 1" "newRequestVoteRequest 2 c 1 1" 2] s(2) that
    by (auto simp: demo_ask_def newRequestVoteRequest_def)
  then show ?thesis using s by auto
qed

section \<open>A received snapshot\<close>

lemma add_peers_fields [simp]:
  "currentTerm (add_peers ps s) = currentTerm s" "votedFor (add_peers ps s) = votedFor s" "log (add_peers ps s) = log s"
  by (induction ps arbitrary: s) (auto simp: add_peers_def AddPeer_def writeConf_def Let_def)

lemma saveSnapshot_fields [simp]:
  "currentTerm (snd (saveSnapshot js s)) = currentTerm s" "votedFor (snd (saveSnapshot js s)) = votedFor s"
  "log (snd (saveSnapshot js s)) = log s" "peers (snd (saveSnapshot js s)) = peers s" "app (snd (saveSnapshot js s)) = app s"
  "sname (snd (saveSnapshot js s)) = sname s" "state (snd (saveSnapshot js s)) = state s"
  by (simp_all add: saveSnapshot_def Let_def split: option.splits prod.splits bool.splits)

lemma processRecovery_term:
  "processSnapshotRecoveryRequest ev js req s = Some (resp, s') \<Longrightarrow> currentTerm s' = srr_LastTerm req"
  by (auto simp: processSnapshotRecoveryRequest_def Let_def split: if_splits bind_splits)

text \<open>C39. A server that receives a snapshot forgets its vote: \<open>processSnapshotRecoveryRequest\<close> sets the term to
  the term of the last entry of the snapshot, which may be lower than the term the server has voted in,
  so it grants a second vote in that term, to any candidate whose log is far enough.\<close>

theorem raft_recovery_votes_twice:
  assumes "processRequestVoteRequest req s = Some ((resp, b), s1)" and "rvr_VoteGranted resp" and "rvr_Term resp = rv_Term req"
    and "processSnapshotRecoveryRequest ev js sn s1 = Some (r, s2)" and "srr_LastTerm sn < rv_Term req"
    and "fst (lastInfo (log s2)) \<le> rv_LastLogIndex req" and "snd (lastInfo (log s2)) \<le> rv_LastLogTerm req"
  shows "votedFor s1 = rv_CandidateName req \<and> currentTerm s1 = rv_Term req \<and>
    (\<exists>s3. processRequestVoteRequest (req\<lparr>rv_CandidateName := c\<rparr>) s2 = Some ((newRequestVoteResponse (rv_Term req) True, True), s3) \<and>
      votedFor s3 = c \<and> currentTerm s3 = rv_Term req)"
proof -
  have v: "votedFor s1 = rv_CandidateName req" "currentTerm s1 = rv_Term req" using processVote_spec [of req s] assms(1-3) by auto
  have t: "currentTerm s2 < rv_Term req" using processRecovery_term [OF assms(4)] assms(5) by simp
  obtain s3 where s3: "updateCurrentTerm (rv_Term req) [] s2 = Some s3" "log s3 = log s2" "currentTerm s3 = rv_Term req"
    using updateCurrentTerm_spec [OF t, of "[]"] by auto
  have "processRequestVoteRequest (req\<lparr>rv_CandidateName := c\<rparr>) s2 =
      Some ((newRequestVoteResponse (rv_Term req) True, True), s3\<lparr>votedFor := c\<rparr>)"
    using t s3 assms(6,7) by (auto simp: processRequestVoteRequest_def Let_def split: prod.splits)
  then show ?thesis using v s3(3) by auto
qed

definition demo_snapshot :: SnapshotRecoveryRequest where
  "demo_snapshot = \<lparr>srr_LeaderName = ''d'', srr_LastIndex = 5, srr_LastTerm = 1, srr_Peers = [], srr_State = [9]\<rparr>"

theorem raft_recovery_votes_twice_witness:
  "\<exists>s1 s2 s3. votedFor s1 = ''a'' \<and> currentTerm s1 = 2 \<and>
     processSnapshotRecoveryRequest demo_env no_json demo_snapshot s1 = Some (newSnapshotRecoveryResponse 1 True 5, s2) \<and>
     processRequestVoteRequest (newRequestVoteRequest 2 ''c'' 5 1) s2 = Some ((newRequestVoteResponse 2 True, True), s3) \<and>
     votedFor s3 = ''c'' \<and> currentTerm s3 = 2"
proof -
  let ?req = "newRequestVoteRequest 2 ''a'' 5 1"
  obtain resp b s1 where v: "processRequestVoteRequest ?req demo_voter = Some ((resp, b), s1)" by (metis processVote_spec)
  have d: "map_option (\<lambda>((r, b), s). (rvr_VoteGranted r, rvr_Term r,
      map_option (\<lambda>(r, s). (r, lastInfo (log s))) (processSnapshotRecoveryRequest demo_env no_json demo_snapshot s)))
    (processRequestVoteRequest ?req demo_voter) = Some (True, 2, Some (newSnapshotRecoveryResponse 1 True 5, (5, 1)))" by code_simp
  then obtain s2 where s2: "processSnapshotRecoveryRequest demo_env no_json demo_snapshot s1 = Some (newSnapshotRecoveryResponse 1 True 5, s2)"
    "lastInfo (log s2) = (5, 1)" "rvr_VoteGranted resp" "rvr_Term resp = 2" using v by auto
  then show ?thesis
    using raft_recovery_votes_twice [OF v, of demo_env no_json demo_snapshot _ s2 "''c''"]
    by (force simp: newRequestVoteRequest_def demo_snapshot_def)
qed

end
