(* ===== verification/RaftReload.thy ===== *)
theory RaftReload
  imports RaftRestore
begin

text \<open>
  A snapshot and a restart: what \<open>TakeSnapshot\<close> writes, and leaves in the file of the log, is what
  \<open>LoadSnapshot\<close> and \<open>Start\<close> of a new process make the same server from.
\<close>

section \<open>The checksum line\<close>

lemma hex_nat_zeros: "hex_nat (replicate k 48 @ ds) = hex_nat ds"
  by (induction k) (simp_all add: hex_nat_def hex_value_def word_le_nat_alt)

lemma length_hex08: "length (hex08 c) = 8"
proof -
  have "unat c < 2 ^ LENGTH(32)" by (rule unsigned_less)
  then show ?thesis using length_hex [of "unat c" 8] by (simp add: hex08_def)
qed

lemma hex08_is_hex: "b \<in> set (hex08 c) \<Longrightarrow> is_hex b"
proof -
  have "is_hex 48" by (simp add: is_hex_def hex_value_def word_le_nat_alt)
  then show "b \<in> set (hex08 c) \<Longrightarrow> is_hex b" by (auto simp: hex08_def dest: hex_is_hex)
qed

lemma scan_checksum_hex08: "scan_checksum (hex08 c @ 10 # r) = (Some c, 9)"
proof -
  let ?bs = "hex08 c @ 10 # r"
  obtain d ds where h: "hex08 c = d # ds" using length_hex08 [of c] by (cases "hex08 c") auto
  have d: "\<not> scan_space d" "d \<noteq> 43" "d \<noteq> 45" using hex_plain hex08_is_hex [of d c] h by auto
  have s: "takeWhile scan_space ?bs = []" "dropWhile scan_space ?bs = ?bs" using d(1) by (simp_all add: h)
  have w: "take 8 ?bs = hex08 c" using length_hex08 [of c] by simp
  have t: "takeWhile is_hex (hex08 c) = hex08 c" using hex08_is_hex by simp
  have n: "hex_nat (hex08 c) = unat c" by (simp add: hex08_def hex_nat_zeros hex_nat_hex)
  have e: "drop 8 ?bs = 10 # r" using length_hex08 [of c] by simp
  have "scan_length ?bs = (Some (int (unat c)), 9)"
    unfolding scan_length_def Let_def s list.size drop_0 w using h d t n e length_hex08 [of c] by simp
  then show ?thesis using s(2) d by (simp add: scan_checksum_def h)
qed

section \<open>One snapshot file\<close>

definition fresh_peers :: "peer_map \<Rightarrow> peer_map" where
  "fresh_peers ps = map (\<lambda>(n, p). (n, p\<lparr>prevLogIndex := 0\<rparr>)) ps"

lemma fresh_peers_simps [simp]:
  "fresh_peers [] = []" "fresh_peers ((n, p) # ps) = (n, p\<lparr>prevLogIndex := 0\<rparr>) # fresh_peers ps"
  "fresh_peers (ps @ qs) = fresh_peers ps @ fresh_peers qs" "map fst (fresh_peers ps) = map fst ps"
  "fresh_peers (fresh_peers ps) = fresh_peers ps" "fresh_peers ps = [] \<longleftrightarrow> ps = []" "fst ` set (fresh_peers ps) = fst ` set ps"
  by (auto simp: fresh_peers_def case_prod_beta image_image)

text \<open>What JSON promises: the unexported fields of a peer are not in it.\<close>

definition json_ok :: "json \<Rightarrow> bool" where
  "json_ok js \<longleftrightarrow> (\<forall>ss b. Marshal_snapshot js ss = Some b \<longrightarrow>
     Unmarshal_snapshot js b = Some (ss\<lparr>Peers := fresh_peers (Peers ss)\<rparr>))"

lemma read_saved:
  assumes "json_ok js" and "Marshal_snapshot js ss = Some b"
  shows "read_snapshot js (hex08 (ChecksumIEEE b) @ 10 # b) =
    Inr (ss\<lparr>Peers := fresh_peers (Peers ss)\<rparr>)"
  using assms length_hex08 [of "ChecksumIEEE b"]
  by (simp add: read_snapshot_def scan_checksum_hex08 json_ok_def)

lemma save_new:
  assumes "Marshal_snapshot js ss = Some b" and "map_of fs (Path ss) = None"
  shows "snapshot_save js ss fs = (True, AList.update (Path ss) (hex08 (ChecksumIEEE b) @ 10 # b) fs)"
proof -
  let ?h = "hex08 (ChecksumIEEE b) @ [10]"
  have "content (file_write b (file_write ?h (opened []))) = ?h @ b"
    by (simp add: opened_def file_write_def pad_to_def Let_def)
  then show ?thesis using assms by (simp add: snapshot_save_def Let_def)
qed

section \<open>Names of snapshots\<close>

lemma cut_at:
  "c \<notin> set xs \<Longrightarrow> takeWhile (\<lambda>x. x \<noteq> c) (xs @ c # ys) = xs" "c \<notin> set xs \<Longrightarrow> dropWhile (\<lambda>x. x \<noteq> c) (xs @ c # ys) = c # ys"
  by (induction xs) auto

lemma SnapshotPath_inj:
  assumes "SnapshotPath i t = SnapshotPath j u"
  shows "i = j \<and> t = u"
proof -
  have cut: "takeWhile (\<lambda>c. c \<noteq> CHR ''_'') (SnapshotPath i t) = dec_string (unat t)"
    "takeWhile (\<lambda>c. c \<noteq> CHR ''.'') (tl (dropWhile (\<lambda>c. c \<noteq> CHR ''_'') (SnapshotPath i t))) = dec_string (unat i)" for i t
    using dec_string_digits [of "unat t"] dec_string_digits [of "unat i"] by (simp_all add: SnapshotPath_def cut_at)
  have "dec_string (unat t) = dec_string (unat u)" "dec_string (unat i) = dec_string (unat j)" using cut assms by metis+
  then have "unat t = unat u" "unat i = unat j" using dec_string_digits by metis+
  then show ?thesis by (simp add: word_unat_eq_iff)
qed

text \<open>The names are ordered as strings, so the latest file is not the one of the latest snapshot.\<close>

lemma latest_file_by_name: "latest_file [(SnapshotPath 9 1, older), (SnapshotPath 10 1, newer)] = Some older"
proof -
  have "SnapshotPath 9 1 = ''1_9.ss''" "SnapshotPath 10 1 = ''1_10.ss''" by code_simp+
  moreover have "last (sort [''1_9.ss'', ''1_10.ss'']) = ''1_9.ss''" by code_simp
  ultimately show ?thesis by (simp add: latest_file_def)
qed

text \<open>The directory holds the file of the current snapshot only.\<close>

definition snapshots_ok :: "('r, 'm) server \<Rightarrow> bool" where
  "snapshots_ok s \<longleftrightarrow> pendingSnapshot s = None \<and>
     (case snap s of
        None \<Rightarrow> snapshot_files s = []
      | Some ss \<Rightarrow> map fst (snapshot_files s) = [Path ss] \<and> Path ss = SnapshotPath (LastIndex ss) (LastTerm ss))"

lemma saveSnapshot_new:
  assumes ok: "snapshots_ok s" and p: "Path p = SnapshotPath (LastIndex p) (LastTerm p)"
    and new: "\<forall>ss. snap s = Some ss \<longrightarrow> LastIndex ss \<noteq> LastIndex p" and b: "Marshal_snapshot js p = Some b"
  shows "saveSnapshot js (s\<lparr>pendingSnapshot := Some p\<rparr>) =
    (True, s\<lparr>snapshot_files := [(Path p, hex08 (ChecksumIEEE b) @ 10 # b)], snap := Some p, pendingSnapshot := None\<rparr>)"
proof (cases "snap s")
  case None
  then show ?thesis using ok save_new [OF b, of "[]"] by (simp add: saveSnapshot_def snapshots_ok_def)
next
  case (Some ss)
  then obtain c where f: "snapshot_files s = [(Path ss, c)]" "Path ss = SnapshotPath (LastIndex ss) (LastTerm ss)"
    using ok by (auto simp: snapshots_ok_def)
  have ne: "Path ss \<noteq> Path p" using new Some f(2) p SnapshotPath_inj by metis
  then show ?thesis using f Some new save_new [OF b, of "snapshot_files s"]
    by (simp add: saveSnapshot_def snapshot_remove_def)
qed

section \<open>The file of the log\<close>

text \<open>The file holds the entries of the log; the positions do not matter for reading it.\<close>

definition stored :: "codec \<Rightarrow> 'r log \<Rightarrow> bool" where
  "stored cd l \<longleftrightarrow> (\<exists>f. log_file l = Some f \<and> content f = file_bytes cd (pbs l)) \<and> (\<forall>p \<in> set (pbs l). Marshal cd p \<noteq> None)"

lemma on_disk_stored: "on_disk cd l \<Longrightarrow> stored cd l"
  by (auto simp: on_disk_def stored_def)

text \<open>Reading a file into a log that begins behind some of its entries.\<close>

lemma open_loop_after:
  assumes cd: "good_codec (the_codec m)"
  shows "content f = pre @ file_bytes (the_codec m) ps \<Longrightarrow> offset f = length pre \<Longrightarrow> \<forall>p \<in> set ps. Marshal (the_codec m) p \<noteq> None \<Longrightarrow>
    commitIndex l \<le> startIndex l \<Longrightarrow>
    \<exists>es. open_loop m f r (l, x) = Some (f\<lparr>offset := length (content f)\<rparr>, l\<lparr>entries := entries l @ es\<rparr>, x) \<and>
      map pb es = filter (\<lambda>p. startIndex l < pb_Index p) ps"
proof (induction ps arbitrary: pre f r l)
  case Nil
  then have "Decode (the_codec m) f = Some (EOF, f)" by (simp add: Decode_def)
  then show ?case using Nil by (subst open_loop.simps) simp
next
  case (Cons p ps)
  let ?cd = "the_codec m" and ?e = "\<lparr>pb = p, Position = offset f, event = None\<rparr>"
  obtain b where b: "Marshal ?cd p = Some b" using Cons.prems(3) by auto
  let ?f1 = "f\<lparr>offset := length pre + length (entry_bytes ?cd p)\<rparr>"
  define l1 where "l1 = (if startIndex l < pb_Index p then l\<lparr>entries := entries l @ [?e]\<rparr> else l)"
  have d: "Decode ?cd f = Some (Got p (length b + 9), ?f1)"
    using Decode_entry [OF cd b _ Cons.prems(2), of "file_bytes ?cd ps"] Cons.prems(1) by simp
  have "\<not> pb_Index p \<le> commitIndex l" if "startIndex l < pb_Index p" using that Cons.prems(4) by simp
  then have step: "open_loop m f r (l, x) = open_loop m ?f1 (r + (length b + 9)) (l1, x)"
    using d by (subst open_loop.simps) (auto simp: Let_def l1_def Index_def)
  have "\<exists>es. open_loop m ?f1 (r + (length b + 9)) (l1, x) =
      Some (?f1\<lparr>offset := length (content ?f1)\<rparr>, l1\<lparr>entries := entries l1 @ es\<rparr>, x) \<and> map pb es = filter (\<lambda>p. startIndex l1 < pb_Index p) ps"
    by (rule Cons.IH [of ?f1 "pre @ entry_bytes ?cd p"]) (use Cons.prems in \<open>simp_all add: l1_def\<close>)
  then obtain es where es: "open_loop m ?f1 (r + (length b + 9)) (l1, x) =
      Some (?f1\<lparr>offset := length (content ?f1)\<rparr>, l1\<lparr>entries := entries l1 @ es\<rparr>, x)" "map pb es = filter (\<lambda>p. startIndex l1 < pb_Index p) ps"
    by blast
  show ?case
  proof (cases "startIndex l < pb_Index p")
    case True
    then show ?thesis using step es Cons.prems(2) by (intro exI [of _ "?e # es"]) (simp add: l1_def)
  next
    case False
    then show ?thesis using step es Cons.prems(2) by (intro exI [of _ es]) (simp add: l1_def)
  qed
qed

lemma indexed_filter:
  assumes "indexed n ps" and "n + length ps < 2 ^ 64" and "n \<le> unat i"
  shows "filter (\<lambda>p. i < pb_Index p) ps = drop (unat i - n) ps"
  using assms
proof (induction ps arbitrary: n)
  case (Cons p ps)
  have p: "unat (pb_Index p) = n + 1" and i: "indexed (n + 1) ps"
    using Cons.prems(1,2) indexed_append [of n "[p]" ps] unat_of_nat64 [of "n + 1"] by (auto simp: indexed_def)
  show ?case
  proof (cases "unat i = n")
    case True
    have "i < pb_Index q" if q: "q \<in> set (p # ps)" for q
    proof -
      obtain k where k: "k < length (p # ps)" "q = (p # ps) ! k" using q by (metis in_set_conv_nth)
      then have "unat (pb_Index q) = n + k + 1" using Cons.prems(1,2) unat_of_nat64 [of "n + k + 1"] by (auto simp: indexed_def)
      then show ?thesis using True by (simp add: word_less_nat_alt)
    qed
    then show ?thesis using True by (simp add: filter_id_conv)
  next
    case False
    then have "\<not> i < pb_Index p" "unat i - n = Suc (unat i - (n + 1))" using p Cons.prems(3) by (auto simp: word_less_nat_alt)
    then show ?thesis using Cons.IH [OF i] Cons.prems(2,3) False by simp
  qed
qed simp

section \<open>Compaction\<close>

lemma compact_loop_stored:
  assumes "\<forall>e \<in> set es. Marshal cd (pb e) \<noteq> None" and "append_mode f"
  shows "\<exists>ds f1. compact_loop cd p es f = (True, ds, f1) \<and> map pb ds = map pb es \<and> append_mode f1 \<and>
    content f1 = content f @ file_bytes cd (map pb es)"
  using assms
proof (induction es arbitrary: f)
  case (Cons e es)
  obtain b where b: "Marshal cd (pb e) = Some b" using Cons.prems(1) by auto
  let ?f1 = "file_write b (file_write (hex8 (length b) @ [10]) f)"
  have am: "append_mode (file_write bs g) = append_mode g" for bs g by (simp add: file_write_def Let_def)
  have c: "content ?f1 = content f @ entry_bytes cd (pb e)" using Cons.prems(2) b by (simp add: file_write_append_mode am entry_bytes_def)
  obtain ds f2 where r: "compact_loop cd p es ?f1 = (True, ds, f2)" "map pb ds = map pb es" "append_mode f2"
    "content f2 = content ?f1 @ file_bytes cd (map pb es)" using Cons.IH [of ?f1] Cons.prems am by auto
  have "Encode cd file_write (e\<lparr>Position := p\<rparr>) f = Some (length b, ?f1)" using b by (simp add: Encode_def)
  then show ?case using r c by (simp add: Let_def)
qed simp

lemma unat_minus: "(b :: u64) \<le> a \<Longrightarrow> unat (a - b) = unat a - unat b"
  by (rule unat_sub)

lemma compact_stored:
  assumes ok: "log_ok l" and st: "stored cd l" and i: "startIndex l \<le> i" "i \<le> commitIndex l" "i \<noteq> 0"
  shows "\<exists>l1. compact cd i t l = Some (None, l1) \<and> pbs l1 = drop (unat i - unat (startIndex l)) (pbs l) \<and>
    startIndex l1 = i \<and> startTerm l1 = t \<and> commitIndex l1 = commitIndex l \<and> log_ok l1 \<and> stored cd l1"
proof -
  let ?k = "unat i - unat (startIndex l)" and ?es = "drop (unat i - unat (startIndex l)) (entries l)"
  have le: "unat (startIndex l) \<le> unat i" "unat i \<le> unat (commitIndex l)" "unat (commitIndex l) \<le> unat (startIndex l) + length (entries l)"
    using ok i by (auto simp: log_ok_def word_le_nat_alt)
  have cur: "unat (internalCurrentIndex l) = unat (startIndex l) + length (entries l)"
    using currentIndex_ok [OF ok] log_ok_end [OF ok] by (simp add: currentIndex_def)
  have "(if i \<ge> internalCurrentIndex l then Some [] else entries_from l (i - startIndex l)) = Some ?es"
    using le cur unat_minus [OF i(1)] by (auto simp: entries_from_def word_le_nat_alt)
  moreover obtain ds f1 where "compact_loop cd (case log_file l of None \<Rightarrow> 0 | Some f \<Rightarrow> offset f) ?es \<lparr>content = [], offset = 0, append_mode = True\<rparr> =
      (True, ds, f1)" "map pb ds = map pb ?es" "content f1 = file_bytes cd (map pb ?es)"
    using compact_loop_stored [of ?es cd "\<lparr>content = [], offset = 0, append_mode = True\<rparr>" "case log_file l of None \<Rightarrow> 0 | Some f \<Rightarrow> offset f"] st
    by (auto simp: stored_def pbs_def dest!: in_set_dropD)
  ultimately have c: "compact cd i t l = Some (None, l\<lparr>log_file := Some f1, entries := ds, startIndex := i, startTerm := t\<rparr>)"
    (is "_ = Some (None, ?l1)") and f1: "content f1 = file_bytes cd (map pb ds)" and ds: "map pb ds = drop ?k (pbs l)"
    using i(3) by (auto simp: compact_def Let_def pbs_def drop_map)
  have n: "length ds = length (entries l) - ?k" using ds by (metis length_drop length_map length_pbs)
  have "indexed (unat (startIndex l)) (take ?k (pbs l) @ drop ?k (pbs l))" using ok by (simp add: log_ok_def)
  then have "indexed (unat (startIndex l) + length (take ?k (pbs l))) (drop ?k (pbs l))" unfolding indexed_append by blast
  moreover have "unat (startIndex l) + length (take ?k (pbs l)) = unat i" using le by simp
  ultimately have "log_ok ?l1" using ok n le i(2) by (auto simp: log_ok_def ds)
  moreover have "stored cd ?l1" using st f1 by (auto simp: stored_def ds dest: in_set_dropD)
  ultimately show ?thesis using c ds by auto
qed

section \<open>Taking a snapshot\<close>

lemma committed_entry:
  assumes ok: "log_ok l" and ne: "commitIndex l \<noteq> startIndex l"
  shows "\<exists>e. commitInfo l = Some (commitIndex l, Term e) \<and> e = entries l ! (unat (commitIndex l) - unat (startIndex l) - 1) \<and>
    Index e = commitIndex l \<and> unat (startIndex l) < unat (commitIndex l) \<and> commitIndex l \<noteq> 0"
proof -
  let ?c = "unat (commitIndex l)" and ?s = "unat (startIndex l)"
  have "startIndex l < commitIndex l" using ok ne by (simp add: log_ok_def order_less_le)
  then have le: "?s < ?c" "?c \<le> ?s + length (entries l)" using ok by (simp_all add: log_ok_def word_less_nat_alt)
  have nz: "commitIndex l \<noteq> 0" using le by auto
  have u: "unat (commitIndex l - 1 - startIndex l) = ?c - ?s - 1"
  proof -
    have "1 \<le> commitIndex l" using nz by (simp add: word_le_nat_alt unat_gt_0 Suc_le_eq)
    then have "unat (commitIndex l - 1) = ?c - 1" using unat_minus [of 1 "commitIndex l"] by simp
    then show ?thesis using unat_minus [of "startIndex l" "commitIndex l - 1"] le by (simp add: word_le_nat_alt)
  qed
  have k: "?c - ?s - 1 < length (entries l)" using le by simp
  have "pb_Index (pbs l ! (?c - ?s - 1)) = of_nat (?s + (?c - ?s - 1) + 1)"
    using ok k unfolding log_ok_def indexed_def by (metis length_pbs)
  then have ix: "Index (entries l ! (?c - ?s - 1)) = commitIndex l" using k le by (simp add: Index_def pbs_def)
  show ?thesis using ne nz u k ix le by (auto simp: commitInfo_def entry_at_def)
qed

text \<open>What \<open>TakeSnapshot\<close> leaves, if it saves a snapshot.\<close>

lemma TakeSnapshot_spec:
  assumes t: "TakeSnapshot ev js s = Some (None, s1)" and saved: "pendingSnapshot s1 = None"
    and ok: "log_ok (log s)" and st: "stored (env_codec ev) (log s)" and dir: "snapshots_ok s"
    and ne: "commitIndex (log s) \<noteq> startIndex (log s)" and new: "\<forall>ss. snap s = Some ss \<longrightarrow> LastIndex ss \<noteq> commitIndex (log s)"
  shows "\<exists>a e p b l1. env_Save ev (app s) = Some a \<and> e = entries (log s) ! (unat (commitIndex (log s)) - unat (startIndex (log s)) - 1) \<and>
    p = \<lparr>LastIndex = commitIndex (log s), LastTerm = Term e, Peers = snapshot_peers s, State = a,
      Path = SnapshotPath (commitIndex (log s)) (Term e)\<rparr> \<and> Marshal_snapshot js p = Some b \<and>
    s1 = s\<lparr>snapshot_files := [(Path p, hex08 (ChecksumIEEE b) @ 10 # b)], snap := Some p, pendingSnapshot := None, log := l1\<rparr> \<and>
    log_ok l1 \<and> stored (env_codec ev) l1 \<and> startIndex (log s) \<le> startIndex l1 \<and> startIndex l1 \<le> commitIndex (log s) \<and>
    pbs l1 = drop (unat (startIndex l1) - unat (startIndex (log s))) (pbs (log s))"
proof -
  let ?c = "commitIndex (log s)" and ?i = "startIndex (log s)" and ?cd = "env_codec ev"
  obtain e where e: "commitInfo (log s) = Some (?c, Term e)" "e = entries (log s) ! (unat ?c - unat ?i - 1)" "Index e = ?c" "unat ?i < unat ?c"
    using committed_entry [OF ok ne] by blast
  define q where "q = (\<lambda>a. \<lparr>LastIndex = ?c, LastTerm = Term e, Peers = snapshot_peers s, State = a, Path = SnapshotPath ?c (Term e)\<rparr>)"
  obtain a where a: "env_Save ev (app s) = Some a" using t e(1) ne dir
    by (auto simp: TakeSnapshot_def Let_def split: if_splits option.splits)
  define s0 where "s0 = snd (saveSnapshot js (s\<lparr>pendingSnapshot := Some (q a)\<rparr>))"
  have c0: "compact_after_snapshot ?cd ?c s0 = Some s1"
    using t e(1) ne a dir by (auto simp: TakeSnapshot_def Let_def s0_def q_def split: if_splits)
  have ps: "pendingSnapshot s0 = pendingSnapshot s1" using c0 by (auto simp: compact_after_snapshot_def Let_def split: if_splits bind_splits)
  obtain b where b: "Marshal_snapshot js (q a) = Some b"
    using ps saved by (cases "Marshal_snapshot js (q a)") (auto simp: s0_def saveSnapshot_def snapshot_save_def Let_def)
  have s0: "s0 = s\<lparr>snapshot_files := [(Path (q a), hex08 (ChecksumIEEE b) @ 10 # b)], snap := Some (q a), pendingSnapshot := None\<rparr>"
    unfolding s0_def by (subst saveSnapshot_new [OF dir _ _ b]) (use new in \<open>simp_all add: q_def\<close>)
  have "\<exists>l1. s1 = s0\<lparr>log := l1\<rparr> \<and> log_ok l1 \<and> stored ?cd l1 \<and> ?i \<le> startIndex l1 \<and> startIndex l1 \<le> ?c \<and>
      pbs l1 = drop (unat (startIndex l1) - unat ?i) (pbs (log s))"
  proof (cases "?c - ?i > NumberOfLogEntriesAfterSnapshot")
    case False
    then have "s1 = s0" using c0 s0 by (simp add: compact_after_snapshot_def)
    then show ?thesis using ok st s0 e(4) by (intro exI [of _ "log s"]) (simp add: word_le_nat_alt)
  next
    case True
    let ?x = "?c - NumberOfLogEntriesAfterSnapshot"
    have "unat (?c - ?i) = unat ?c - unat ?i" using unat_minus [of ?i ?c] e(4) by (simp add: word_le_nat_alt)
    then have big: "200 < unat ?c - unat ?i" using True by (simp add: NumberOfLogEntriesAfterSnapshot_def word_less_nat_alt)
    have x: "unat ?x = unat ?c - 200" unfolding NumberOfLogEntriesAfterSnapshot_def
      using unat_minus [of 200 ?c] big by (simp add: word_le_nat_alt)
    have xs: "?i \<le> ?x" "?x \<le> ?c" "?x \<noteq> 0" using x big by (auto simp: word_le_nat_alt)
    obtain d where d: "getEntry (log s) ?x = Some (Some d)"
    proof -
      have "unat ?c \<le> unat ?i + length (entries (log s))" using ok by (simp add: log_ok_def)
      then have "?i < ?x \<and> ?x \<le> end_index (log s)" using x big log_ok_end [OF ok] by (auto simp: word_less_nat_alt word_le_nat_alt)
      then show ?thesis using getEntry_ok [OF ok, of ?x] that by simp
    qed
    obtain l1 where l1: "compact ?cd ?x (Term d) (log s) = Some (None, l1)" "pbs l1 = drop (unat ?x - unat ?i) (pbs (log s))"
      "startIndex l1 = ?x" "log_ok l1" "stored ?cd l1"
      using compact_stored [OF ok st xs, of "Term d"] by blast
    have "s1 = s0\<lparr>log := l1\<rparr>" using c0 True d l1(1) s0 by (simp add: compact_after_snapshot_def Let_def)
    then show ?thesis using l1 xs by auto
  qed
  then obtain l1 where "s1 = s0\<lparr>log := l1\<rparr>" "log_ok l1" "stored ?cd l1" "?i \<le> startIndex l1" "startIndex l1 \<le> ?c"
    "pbs l1 = drop (unat (startIndex l1) - unat ?i) (pbs (log s))" by blast
  then show ?thesis using a b e(2) s0 unfolding q_def by auto
qed

section \<open>Starting again\<close>

text \<open>A new process: what the disk holds stays, with the state machine that the process begins with.\<close>

definition reboot :: "'m \<Rightarrow> ('r, 'm) server \<Rightarrow> ('r, 'm) server option" where
  "reboot a s = map_option (\<lambda>s0. s0\<lparr>snapshot_files := snapshot_files s, conf_file := conf_file s\<rparr>)
     (NewServer (sname s) (has_stateMachine s) a (connectionString s))"

lemma add_peers_simps [simp]:
  "add_peers [] s = s" "add_peers (p # ps) s = add_peers ps (AddPeer (fst p) (ConnectionString (snd p)) s)"
  "add_peers (ps @ qs) s = add_peers qs (add_peers ps s)"
  by (simp_all add: add_peers_def)

lemma add_peers_new:
  "distinct (map fst (peers s @ ps)) \<Longrightarrow> sname s \<notin> set (map fst ps) \<Longrightarrow>
   add_peers ps s = s\<lparr>peers := peers s @ fresh_peers ps,
     conf_file := (if ps = [] then conf_file s else Some (commitIndex (log s), peers s @ fresh_peers ps))\<rparr>"
proof (induction ps arbitrary: s)
  case (Cons p ps)
  obtain n q where p: "p = (n, q)" by (rule prod.exhaust)
  have "map_of (peers s) n = None" "sname s \<noteq> n" using Cons.prems by (auto simp: p map_of_eq_None_iff)
  then have a: "AddPeer n (ConnectionString q) s = s\<lparr>peers := peers s @ [(n, q\<lparr>prevLogIndex := 0\<rparr>)],
      conf_file := Some (commitIndex (log s), peers s @ [(n, q\<lparr>prevLogIndex := 0\<rparr>)])\<rparr>"
    by (cases q) (simp add: AddPeer_def writeConf_def Let_def)
  show ?case using Cons.IH [of "AddPeer n (ConnectionString q) s"] Cons.prems unfolding p
    by (simp add: a)
qed simp

lemma lastInfo_pbs: "lastInfo l = (if pbs l = [] then (startIndex l, startTerm l) else (pb_Index (last (pbs l)), pb_Term (last (pbs l))))"
  by (simp add: lastInfo_def pbs_def last_map Index_def Term_def)

text \<open>Loading the one snapshot in the directory, in a new process.\<close>

lemma LoadSnapshot_spec:
  assumes r: "reboot a s = Some s0" and f: "snapshot_files s = [(Path p, hex08 (ChecksumIEEE b) @ 10 # b)]"
    and js: "json_ok js" "Marshal_snapshot js p = Some b" and m: "has_stateMachine s" and rec: "env_Recovery ev (State p) a = Some x"
    and ps: "Peers p = ps @ [(sname s, q)]" "distinct (map fst ps)" "sname s \<notin> set (map fst ps)" and ci: "LastIndex p \<noteq> 0"
  shows "\<exists>s2. LoadSnapshot ev js s0 = Some (None, s2) \<and> app s2 = x \<and> peers s2 = fresh_peers ps \<and> conf_file s2 = Some (0, fresh_peers ps) \<and>
    log s2 = newLog\<lparr>startTerm := LastTerm p, startIndex := LastIndex p, commitIndex := LastIndex p\<rparr> \<and> state s2 = Stopped \<and> sname s2 = sname s"
proof -
  have s0: "sname s0 = sname s" "log s0 = newLog" "peers s0 = []" "app s0 = a" "has_stateMachine s0" "snapshot_files s0 = snapshot_files s" "state s0 = Stopped"
    using r m by (auto simp: reboot_def NewServer_def split: if_splits)
  let ?ss = "p\<lparr>Peers := fresh_peers (Peers p)\<rparr>"
  let ?s1 = "s0\<lparr>snap := Some ?ss, app := x\<rparr>"
  have "latest_file (snapshot_files s0) = Some (hex08 (ChecksumIEEE b) @ 10 # b)" by (simp add: s0 f latest_file_def)
  then have l: "LoadSnapshot ev js s0 = (let s2 = add_peers (fresh_peers (Peers p)) ?s1 in
      Some (None, s2\<lparr>log := updateCommitIndex (LastIndex p) ((log s2)\<lparr>startTerm := LastTerm p, startIndex := LastIndex p\<rparr>)\<rparr>))"
    using read_saved [OF js] s0 rec by (simp add: LoadSnapshot_def Let_def)
  have "add_peers (fresh_peers ps) ?s1 = ?s1\<lparr>peers := fresh_peers ps,
      conf_file := (if ps = [] then conf_file s0 else Some (0, fresh_peers ps))\<rparr>"
    using add_peers_new [of ?s1 "fresh_peers ps"] ps(2,3) s0 by (simp add: newLog_def)
  moreover have "map_of (fresh_peers ps) (sname s) = None" using ps(3) by (simp add: map_of_eq_None_iff)
  ultimately have "add_peers (fresh_peers (Peers p)) ?s1 = ?s1\<lparr>peers := fresh_peers ps, conf_file := Some (0, fresh_peers ps)\<rparr>"
    using s0 by (simp add: ps(1) AddPeer_def writeConf_def newLog_def)
  then show ?thesis using l s0 ci by (simp add: updateCommitIndex_def newLog_def word_neq_0_conv)
qed

text \<open>\<open>Save\<close> and \<open>Recovery\<close> of the state machine restore its state.\<close>

definition saves_state :: "('c, 'r, 'm) env \<Rightarrow> bool" where
  "saves_state ev \<longleftrightarrow> (\<forall>a b x. env_Save ev a = Some b \<longrightarrow> env_Recovery ev b x = Some a)"

text \<open>C20. A snapshot and the file of the log restore a server: after \<open>TakeSnapshot\<close>, whether it compacts the
  log or not, a new process that loads the snapshot and starts from the files has the state machine
  of the snapshot, the same peers, the same last entry, and exactly the entries behind the commit
  index in its log. It is committed up to the snapshot, whatever was in the configuration file: adding
  the peers of the snapshot has overwritten that with 0.\<close>

theorem raft_snapshot_restores:
  assumes "good_codec (env_codec ev)" and "json_ok js" and "saves_state ev"
    and "log_ok (log s)" and "stored (env_codec ev) (log s)" and "snapshots_ok s"
    and "distinct (map fst (peers s))" and "sname s \<notin> set (map fst (peers s))"
    and "commitIndex (log s) \<noteq> startIndex (log s)" and "\<forall>ss. snap s = Some ss \<longrightarrow> LastIndex ss \<noteq> commitIndex (log s)"
    and "TakeSnapshot ev js s = Some (None, s1)" and "pendingSnapshot s1 = None" and "reboot a s1 = Some s0"
  shows "\<exists>f s2 s3. log_file (log s1) = Some f \<and> LoadSnapshot ev js s0 = Some (None, s2) \<and>
    Start ev (Some (content f)) s2 = Some s3 \<and> conf_file s2 = Some (0, fresh_peers (peers s)) \<and>
    app s3 = app s \<and> peers s3 = fresh_peers (peers s) \<and> state s3 = Follower \<and>
    startIndex (log s3) = commitIndex (log s) \<and> commitIndex (log s3) = commitIndex (log s) \<and>
    pbs (log s3) = drop (unat (commitIndex (log s)) - unat (startIndex (log s))) (pbs (log s)) \<and>
    lastInfo (log s3) = lastInfo (log s) \<and> currentTerm s3 = snd (lastInfo (log s))"
proof -
  let ?c = "commitIndex (log s)" and ?i = "startIndex (log s)" and ?cd = "env_codec ev"
  let ?k = "unat ?c - unat ?i"
  obtain x e p b l1 where t: "env_Save ev (app s) = Some x" "e = entries (log s) ! (?k - 1)"
    "p = \<lparr>LastIndex = ?c, LastTerm = Term e, Peers = snapshot_peers s, State = x, Path = SnapshotPath ?c (Term e)\<rparr>"
    "Marshal_snapshot js p = Some b"
    "s1 = s\<lparr>snapshot_files := [(Path p, hex08 (ChecksumIEEE b) @ 10 # b)], snap := Some p, pendingSnapshot := None, log := l1\<rparr>"
    "log_ok l1" "stored ?cd l1" "?i \<le> startIndex l1" "startIndex l1 \<le> ?c" "pbs l1 = drop (unat (startIndex l1) - unat ?i) (pbs (log s))"
    using TakeSnapshot_spec [OF assms(11,12,4,5,6,9,10)] by blast
  obtain e' where e': "Index e' = ?c" "e' = entries (log s) ! (?k - 1)" "unat ?i < unat ?c" "?c \<noteq> 0"
    using committed_entry [OF assms(4,9)] by blast
  have m: "has_stateMachine s1" using assms(11) t(5) by (auto simp: TakeSnapshot_def split: if_splits)
  obtain s2 where s2: "LoadSnapshot ev js s0 = Some (None, s2)" "app s2 = app s" "peers s2 = fresh_peers (peers s)"
    "conf_file s2 = Some (0, fresh_peers (peers s))" "log s2 = newLog\<lparr>startTerm := Term e, startIndex := ?c, commitIndex := ?c\<rparr>"
    "state s2 = Stopped"
  proof -
    have r: "env_Recovery ev (State p) a = Some (app s)" using assms(3) t(1,3) by (simp add: saves_state_def)
    have "snapshot_files s1 = [(Path p, hex08 (ChecksumIEEE b) @ 10 # b)]" using t(5) by simp
    moreover have "Peers p = peers s @ [(sname s1, \<lparr>prevLogIndex = 0, ConnectionString = connectionString s\<rparr>)]" "LastIndex p = ?c" "LastTerm p = Term e"
      using t(3,5) by (simp_all add: snapshot_peers_def)
    moreover have "sname s1 \<notin> set (map fst (peers s))" using t(5) assms(8) by simp
    ultimately show ?thesis using LoadSnapshot_spec [OF assms(13) _ assms(2) t(4) m r _ assms(7)] e'(4) that by metis
  qed
  obtain f where f: "log_file l1 = Some f" "content f = file_bytes ?cd (pbs l1)" "\<forall>q \<in> set (pbs l1). Marshal ?cd q \<noteq> None"
    using t(7) by (auto simp: stored_def)
  obtain es where es: "open_loop (server_machine ev) (opened (content f)) 0 (log s2, s2) =
      Some (opened (content f)\<lparr>offset := length (content f)\<rparr>, (log s2)\<lparr>entries := es\<rparr>, s2)" "map pb es = filter (\<lambda>q. ?c < pb_Index q) (pbs l1)"
    using open_loop_after [of "server_machine ev" "opened (content f)" "[]" "pbs l1" "log s2" 0 s2] assms(1) f s2(5)
    by (auto simp: server_machine_def opened_def newLog_def)
  have le: "unat ?i \<le> unat (startIndex l1)" "unat (startIndex l1) \<le> unat ?c" using t(8,9) by (simp_all add: word_le_nat_alt)
  have "map pb es = drop (unat ?c - unat (startIndex l1)) (pbs l1)"
    using indexed_filter [of "unat (startIndex l1)" "pbs l1" ?c] t(6) le(2) es(2) by (simp add: log_ok_def)
  then have rest: "map pb es = drop ?k (pbs (log s))" using t(10) le by simp
  define l3 where "l3 = (log s2)\<lparr>entries := es, log_file := Some (opened (content f)\<lparr>offset := length (content f)\<rparr>), initialized := True\<rparr>"
  have rc: "readConf s2 = s2" using s2(4,5) e'(4) by (simp add: readConf_def updateCommitIndex_def newLog_def)
  have "log_open (server_machine ev) (Some (content f)) (log s2, s2) = Some (l3, s2)"
    using es(1) by (simp add: log_open_def l3_def)
  then have st: "Start ev (Some (content f)) s2 = Some (setState Follower (s2\<lparr>log := l3, currentTerm := snd (lastInfo l3), state := Initialized\<rparr>))"
    using s2(5,6) rc by (simp add: Start_def Init_def Running_def newLog_def Let_def)
  have p3: "pbs l3 = drop ?k (pbs (log s))" "startIndex l3 = ?c" "startTerm l3 = Term e" "commitIndex l3 = ?c"
    using rest s2(5) by (simp_all add: l3_def pbs_def newLog_def)
  have "lastInfo l3 = lastInfo (log s)"
  proof (cases "?k < length (pbs (log s))")
    case True
    then have "pbs (log s) \<noteq> []" by (cases "pbs (log s)") (simp_all del: length_pbs)
    then show ?thesis using True p3 by (simp add: lastInfo_pbs)
  next
    case False
    then have n: "length (pbs (log s)) = ?k" using assms(4) e'(3) by (auto simp: log_ok_def)
    then have "entries (log s) \<noteq> []" using e'(3) by auto
    moreover then have "last (entries (log s)) = e" using n t(2) by (simp add: last_conv_nth)
    ultimately have "last (pbs (log s)) = pb e" "pbs (log s) \<noteq> []" by (simp_all add: pbs_def last_map)
    then show ?thesis using False p3 e' t(2) by (simp add: lastInfo_pbs Index_def Term_def)
  qed
  then show ?thesis using f(1) t(5) s2 st p3 by (simp add: setState_def Let_def)
qed

text \<open>A JSON of the snapshots of a server without peers, for a concrete run.\<close>

definition demo_json :: json where
  "demo_json = \<lparr>Marshal_snapshot = (\<lambda>ss.
       if LastIndex ss < 256 \<and> LastTerm ss < 256 \<and> Path ss = SnapshotPath (LastIndex ss) (LastTerm ss) \<and>
         Peers ss = [(''b'', \<lparr>prevLogIndex = 0, ConnectionString = []\<rparr>)]
       then Some (ucast (LastIndex ss) # ucast (LastTerm ss) # State ss) else None),
     Unmarshal_snapshot = (\<lambda>bs. case bs of i # t # st \<Rightarrow>
         Some \<lparr>LastIndex = ucast i, LastTerm = ucast t, Peers = [(''b'', \<lparr>prevLogIndex = 0, ConnectionString = []\<rparr>)], State = st,
           Path = SnapshotPath (ucast i) (ucast t)\<rparr> | _ \<Rightarrow> None)\<rparr>"

lemma demo_json_ok: "json_ok demo_json"
proof -
  have "ucast (ucast x :: byte) = x" if "x < 256" for x :: u64
    using that by (simp add: word_unat_eq_iff unsigned_ucast_eq unsigned_take_bit_eq word_less_nat_alt take_bit_nat_eq_self)
  then show ?thesis by (auto simp: json_ok_def demo_json_def split: if_splits)
qed

definition demo_two :: "byte list applied log" where
  "demo_two = (snd (appendEntry demo_codec \<lparr>pb = demo_pb 2 [8], Position = 0, event = None\<rparr> demo_log))\<lparr>commitIndex := 1\<rparr>"

definition demo_saver :: "(byte list, byte list) server" where
  "demo_saver = (demo_new ''b'')\<lparr>state := Follower, currentTerm := 1, log := demo_two, app := [7]\<rparr>"

lemma demo_two_facts:
  "pbs demo_two = [demo_pb 1 [7], demo_pb 2 [8]]" "startIndex demo_two = 0" "commitIndex demo_two = 1" "length (entries demo_two) = 2"
  unfolding pbs_def by code_simp+

lemma demo_two_ok: "log_ok demo_two" "stored demo_codec demo_two"
proof -
  show "log_ok demo_two" unfolding log_ok_def demo_two_facts
    by (simp add: indexed_def demo_pb_def less_2_cases_iff nth_Cons split: nat.split)
  let ?a = "appendEntry demo_codec \<lparr>pb = demo_pb 2 [8], Position = 0, event = None\<rparr> demo_log"
  have "fst ?a = None" by code_simp
  then have "?a = (None, snd ?a)" by (metis prod.collapse)
  from appendEntry_on_disk(1) [OF demo_log_on_disk this] show "stored demo_codec demo_two"
    by (auto simp: on_disk_def stored_def demo_two_def)
qed

theorem raft_snapshot_restores_witness:
  "\<exists>s1 s2 s3. TakeSnapshot demo_env demo_json demo_saver = Some (None, s1) \<and> map fst (snapshot_files s1) = [''1_1.ss''] \<and>
     LoadSnapshot demo_env demo_json ((demo_new ''b'')\<lparr>snapshot_files := snapshot_files s1, conf_file := conf_file s1\<rparr>) = Some (None, s2) \<and>
     Start demo_env (map_option content (log_file (log s1))) s2 = Some s3 \<and> app s3 = [7] \<and> commitIndex (log s3) = 1 \<and>
     pbs (log s3) = [demo_pb 2 [8]]"
proof -
  have c: "env_codec demo_env = demo_codec" "saves_state demo_env" by (simp_all add: demo_env_def saves_state_def)
  have d: "log demo_saver = demo_two" "snapshots_ok demo_saver" "peers demo_saver = []" "snap demo_saver = None" "app demo_saver = [7]"
    "pendingSnapshot demo_saver = None" "has_stateMachine demo_saver" "sname demo_saver = ''b''" "connectionString demo_saver = []"
    by (simp_all add: demo_saver_def demo_new_def NewServer_def snapshots_ok_def)
  have ci: "commitInfo demo_two = Some (1, 1)" by code_simp
  let ?p = "\<lparr>LastIndex = 1, LastTerm = 1, Peers = snapshot_peers demo_saver, State = [7], Path = SnapshotPath 1 1\<rparr>"
  have m: "Marshal_snapshot demo_json ?p = Some [1, 1, 7]" using d by (simp add: demo_json_def snapshot_peers_def)
  have path: "SnapshotPath 1 1 = ''1_1.ss''" by code_simp
  define s1 where "s1 = demo_saver\<lparr>snapshot_files := [(Path ?p, hex08 (ChecksumIEEE [1, 1, 7]) @ 10 # [1, 1, 7])], snap := Some ?p, pendingSnapshot := None\<rparr>"
  have sv: "saveSnapshot demo_json (demo_saver\<lparr>pendingSnapshot := Some ?p\<rparr>) = (True, s1)"
    unfolding s1_def by (rule saveSnapshot_new [OF d(2) _ _ m]) (simp_all add: d)
  have s1: "TakeSnapshot demo_env demo_json demo_saver = Some (None, s1)"
  proof -
    have "compact_after_snapshot (env_codec demo_env) 1 s1 = Some s1"
      using d by (simp add: compact_after_snapshot_def s1_def demo_two_facts NumberOfLogEntriesAfterSnapshot_def)
    moreover have "env_Save demo_env [7] = Some [7]" by (simp add: demo_env_def)
    ultimately show ?thesis using d ci sv by (simp add: TakeSnapshot_def demo_two_facts Let_def)
  qed
  have f1: "pendingSnapshot s1 = None" "map fst (snapshot_files s1) = [''1_1.ss'']" "sname s1 = ''b''" "has_stateMachine s1" "connectionString s1 = []"
    using d path by (simp_all add: s1_def)
  then have r: "reboot [] s1 = Some ((demo_new ''b'')\<lparr>snapshot_files := snapshot_files s1, conf_file := conf_file s1\<rparr>)"
    by (simp add: reboot_def demo_new_def NewServer_def)
  show ?thesis
    using raft_snapshot_restores [OF _ demo_json_ok c(2) _ _ d(2) _ _ _ _ s1 f1(1) r] c(1) d demo_codec_good demo_two_ok demo_two_facts s1 f1
    by fastforce
qed

end
