(* ===== verification/GcLru.thy ===== *)
theory GcLru
  imports Prelude
begin

text \<open>
  \<open>golang/groupcache/lru/lru.go\<close>: a cache that drops the entry that was not used for longest. The
  linked list of \<open>container/list\<close> is a list of elements with their addresses, front first; the map
  \<open>cache\<close> holds the addresses. \<open>OnEvicted\<close> is a function on the state \<open>'s\<close> of whoever set it.
\<close>

section \<open>The list\<close>

type_synonym ('k, 'v) elements = "(addr \<times> 'k \<times> 'v) list"

definition MoveToFront :: "addr \<Rightarrow> ('k, 'v) elements \<Rightarrow> ('k, 'v) elements" where
  "MoveToFront e l = (case map_of l e of None \<Rightarrow> l | Some x \<Rightarrow> (e, x) # AList.delete e l)"

definition set_value :: "addr \<Rightarrow> 'v \<Rightarrow> ('k, 'v) elements \<Rightarrow> ('k, 'v) elements" where
  "set_value e v l = map (\<lambda>(a, k, w). (a, k, if a = e then v else w)) l"

section \<open>The cache\<close>

record ('k, 'v, 's) Cache =
  MaxEntries :: int
  OnEvicted :: "('k \<Rightarrow> 'v \<Rightarrow> 's \<Rightarrow> 's) option"
  ll :: "('k, 'v) elements"
  lru_map :: "('k \<Rightarrow> addr option) option"
  next_addr :: addr

definition lru_New :: "int \<Rightarrow> ('k, 'v, 's) Cache" where
  "lru_New n = \<lparr>MaxEntries = n, OnEvicted = None, ll = [], lru_map = Some Map.empty, next_addr = 0\<rparr>"

text \<open>\<open>&lru.Cache{OnEvicted: f}\<close>, with a nil map.\<close>

definition lru_literal :: "('k \<Rightarrow> 'v \<Rightarrow> 's \<Rightarrow> 's) \<Rightarrow> ('k, 'v, 's) Cache" where
  "lru_literal f = \<lparr>MaxEntries = 0, OnEvicted = Some f, ll = [], lru_map = None, next_addr = 0\<rparr>"

definition removeElement :: "addr \<times> 'k \<times> 'v \<Rightarrow> ('k, 'v, 's) Cache \<times> 's \<Rightarrow> ('k, 'v, 's) Cache \<times> 's" where
  "removeElement e cs =
     (case (e, cs) of ((a, k, v), (c, s)) \<Rightarrow>
        (c\<lparr>ll := AList.delete a (ll c), lru_map := map_option (\<lambda>m. m(k := None)) (lru_map c)\<rparr>,
         case OnEvicted c of None \<Rightarrow> s | Some f \<Rightarrow> f k v s))"

definition lru_RemoveOldest :: "('k, 'v, 's) Cache \<times> 's \<Rightarrow> ('k, 'v, 's) Cache \<times> 's" where
  "lru_RemoveOldest cs =
     (case cs of (c, s) \<Rightarrow>
        if lru_map c = None then (c, s)
        else if ll c = [] then (c, s)
        else removeElement (last (ll c)) (c, s))"

definition lru_Add :: "'k \<Rightarrow> 'v \<Rightarrow> ('k, 'v, 's) Cache \<times> 's \<Rightarrow> ('k, 'v, 's) Cache \<times> 's" where
  "lru_Add k v cs =
     (case cs of (c0, s) \<Rightarrow>
        let c = (case lru_map c0 of None \<Rightarrow> c0\<lparr>lru_map := Some Map.empty, ll := []\<rparr> | Some _ \<Rightarrow> c0);
            m = the (lru_map c)
        in case m k of
             Some e \<Rightarrow> (c\<lparr>ll := set_value e v (MoveToFront e (ll c))\<rparr>, s)
           | None \<Rightarrow>
               let c1 = c\<lparr>ll := (next_addr c, k, v) # ll c, lru_map := Some (m(k \<mapsto> next_addr c)), next_addr := next_addr c + 1\<rparr>
               in if MaxEntries c1 \<noteq> 0 \<and> int (length (ll c1)) > MaxEntries c1 then lru_RemoveOldest (c1, s) else (c1, s))"

definition lru_Get :: "'k \<Rightarrow> ('k, 'v, 's) Cache \<Rightarrow> 'v option \<times> ('k, 'v, 's) Cache" where
  "lru_Get k c =
     (case lru_map c of
        None \<Rightarrow> (None, c)
      | Some m \<Rightarrow>
          (case m k of
             None \<Rightarrow> (None, c)
           | Some e \<Rightarrow> (map_option snd (map_of (ll c) e), c\<lparr>ll := MoveToFront e (ll c)\<rparr>)))"

definition lru_Remove :: "'k \<Rightarrow> ('k, 'v, 's) Cache \<times> 's \<Rightarrow> ('k, 'v, 's) Cache \<times> 's" where
  "lru_Remove k cs =
     (case cs of (c, s) \<Rightarrow>
        case lru_map c of
          None \<Rightarrow> (c, s)
        | Some m \<Rightarrow>
            (case m k of
               None \<Rightarrow> (c, s)
             | Some e \<Rightarrow> (case map_of (ll c) e of None \<Rightarrow> (c, s) | Some kv \<Rightarrow> removeElement (e, kv) (c, s))))"

definition lru_Len :: "('k, 'v, 's) Cache \<Rightarrow> nat" where
  "lru_Len c = (case lru_map c of None \<Rightarrow> 0 | Some _ \<Rightarrow> length (ll c))"

section \<open>The abstract cache\<close>

text \<open>A list of keys and values, the last used first, of at most \<open>n\<close> entries unless \<open>n\<close> is 0.\<close>

definition evicted :: "('k \<Rightarrow> 'v \<Rightarrow> 's \<Rightarrow> 's) option \<Rightarrow> 'k \<times> 'v \<Rightarrow> 's \<Rightarrow> 's" where
  "evicted f kv s = (case f of None \<Rightarrow> s | Some f \<Rightarrow> f (fst kv) (snd kv) s)"

definition r_oldest :: "('k \<Rightarrow> 'v \<Rightarrow> 's \<Rightarrow> 's) option \<Rightarrow> ('k \<times> 'v) list \<times> 's \<Rightarrow> ('k \<times> 'v) list \<times> 's" where
  "r_oldest f xs = (case xs of (xs, s) \<Rightarrow> if xs = [] then (xs, s) else (butlast xs, evicted f (last xs) s))"

definition r_add :: "int \<Rightarrow> ('k \<Rightarrow> 'v \<Rightarrow> 's \<Rightarrow> 's) option \<Rightarrow> 'k \<Rightarrow> 'v \<Rightarrow> ('k \<times> 'v) list \<times> 's \<Rightarrow> ('k \<times> 'v) list \<times> 's" where
  "r_add n f k v xs =
     (case xs of (xs, s) \<Rightarrow>
        let ys = (k, v) # AList.delete k xs
        in if map_of xs k = None \<and> n \<noteq> 0 \<and> int (length ys) > n then r_oldest f (ys, s) else (ys, s))"

definition r_get :: "'k \<Rightarrow> ('k \<times> 'v) list \<Rightarrow> 'v option \<times> ('k \<times> 'v) list" where
  "r_get k xs = (map_of xs k, case map_of xs k of None \<Rightarrow> xs | Some v \<Rightarrow> (k, v) # AList.delete k xs)"

definition r_remove :: "('k \<Rightarrow> 'v \<Rightarrow> 's \<Rightarrow> 's) option \<Rightarrow> 'k \<Rightarrow> ('k \<times> 'v) list \<times> 's \<Rightarrow> ('k \<times> 'v) list \<times> 's" where
  "r_remove f k xs =
     (case xs of (xs, s) \<Rightarrow> case map_of xs k of None \<Rightarrow> (xs, s) | Some v \<Rightarrow> (AList.delete k xs, evicted f (k, v) s))"

section \<open>The refinement\<close>

definition recency :: "('k, 'v, 's) Cache \<Rightarrow> ('k \<times> 'v) list" where
  "recency c = map snd (ll c)"

definition lru_ok :: "('k, 'v, 's) Cache \<Rightarrow> bool" where
  "lru_ok c \<longleftrightarrow> distinct (map fst (ll c)) \<and> distinct (map fst (recency c)) \<and> (\<forall>a \<in> fst ` set (ll c). a < next_addr c) \<and>
     (case lru_map c of None \<Rightarrow> ll c = [] | Some m \<Rightarrow> \<forall>k a. m k = Some a \<longleftrightarrow> (\<exists>v. (a, k, v) \<in> set (ll c)))"

lemma recency_update [simp]:
  "recency (c\<lparr>ll := l\<rparr>) = map snd l" "recency (c\<lparr>lru_map := m\<rparr>) = recency c" "recency (c\<lparr>next_addr := a\<rparr>) = recency c"
  by (simp_all add: recency_def)

lemma lru_ok_new: "lru_ok (lru_New n)" "lru_ok (lru_literal f)" "recency (lru_New n) = []" "recency (lru_literal f) = []"
  by (simp_all add: lru_ok_def lru_New_def lru_literal_def recency_def)

text \<open>Deleting by the address and by the key is the same.\<close>

lemma delete_element:
  assumes "distinct (map fst l)" and "distinct (map fst (map snd l))" and "(a, k, v) \<in> set l"
  shows "map snd (AList.delete a l) = AList.delete k (map snd l)"
proof -
  have "a = fst x \<longleftrightarrow> k = fst (snd x)" if x: "x \<in> set l" for x
  proof
    assume "a = fst x"
    then have "snd x = (k, v)" using eq_key_imp_eq_value [OF assms(1), of a "snd x" "(k, v)"] x assms(3) by simp
    then show "k = fst (snd x)" by simp
  next
    assume k: "k = fst (snd x)"
    have "inj_on (fst \<circ> snd) (set l)" using assms(2) by (simp add: distinct_map)
    then have "x = (a, k, v)" by (rule inj_onD) (use k x assms(3) in simp_all)
    then show "a = fst x" by simp
  qed
  then have "filter (\<lambda>x. a \<noteq> fst x) l = filter ((\<lambda>x. k \<noteq> fst x) \<circ> snd) l" by (intro filter_cong) auto
  then show ?thesis by (simp add: AList.delete_eq filter_map case_prod_beta')
qed

lemma delete_last: "distinct (map fst xs) \<Longrightarrow> xs \<noteq> [] \<Longrightarrow> AList.delete (fst (last xs)) xs = butlast xs"
proof (induction xs rule: rev_induct)
  case (snoc x xs)
  then have "fst x \<notin> fst ` set xs" by simp
  then have "\<forall>y \<in> set xs. fst x \<noteq> fst y" by blast
  then show ?case by (simp add: AList.delete_eq filter_id_conv case_prod_beta)
qed simp

lemma lru_ok_map:
  assumes "lru_ok c" and "lru_map c = Some m"
  shows "m k = Some a \<Longrightarrow> \<exists>v. map_of (ll c) a = Some (k, v) \<and> (a, k, v) \<in> set (ll c) \<and> map_of (recency c) k = Some v"
    and "m k = None \<Longrightarrow> map_of (recency c) k = None"
proof -
  have ok: "distinct (map fst (ll c))" "distinct (map fst (recency c))" "\<And>k a. m k = Some a \<longleftrightarrow> (\<exists>v. (a, k, v) \<in> set (ll c))"
    using assms by (simp_all add: lru_ok_def)
  {
    assume "m k = Some a"
    then obtain v where v: "(a, k, v) \<in> set (ll c)" using ok(3) by blast
    then have "(k, v) \<in> set (recency c)" by (force simp: recency_def)
    then show "\<exists>v. map_of (ll c) a = Some (k, v) \<and> (a, k, v) \<in> set (ll c) \<and> map_of (recency c) k = Some v"
      using v ok(1,2) by (intro exI [of _ v]) simp
  }
  {
    assume "m k = None"
    then have "(a, k, v) \<notin> set (ll c)" for a v using ok(3) [of k a] by auto
    then show "map_of (recency c) k = None" by (force simp: map_of_eq_None_iff recency_def)
  }
qed

lemma recency_nil: "lru_ok c \<Longrightarrow> lru_map c = None \<Longrightarrow> recency c = []"
  by (simp add: lru_ok_def recency_def)

lemma in_delete: "(x \<in> set (AList.delete a l)) = (x \<in> set l \<and> fst x \<noteq> a)"
  by (simp add: set_delete)

lemma removeElement_refines:
  assumes ok: "lru_ok c" and e: "(a, k, v) \<in> set (ll c)"
  shows "\<exists>c'. removeElement (a, k, v) (c, s) = (c', evicted (OnEvicted c) (k, v) s) \<and> lru_ok c' \<and>
    recency c' = AList.delete k (recency c) \<and> MaxEntries c' = MaxEntries c \<and> OnEvicted c' = OnEvicted c"
proof -
  obtain m where m: "lru_map c = Some m" using ok e by (cases "lru_map c") (auto simp: lru_ok_def)
  let ?c = "c\<lparr>ll := AList.delete a (ll c), lru_map := Some (m(k := None))\<rparr>"
  have d: "distinct (map fst (ll c))" "distinct (map fst (recency c))" "\<And>k a. m k = Some a \<longleftrightarrow> (\<exists>v. (a, k, v) \<in> set (ll c))"
    using ok m by (simp_all add: lru_ok_def)
  have r: "recency ?c = AList.delete k (recency c)" using delete_element [OF d(1) _ e] d(2) by (simp add: recency_def)
  have mk: "m k = Some a" using d(3) e by blast
  have "(m(k := None)) j = Some b \<longleftrightarrow> (\<exists>v. (b, j, v) \<in> set (AList.delete a (ll c)))" for j b
  proof (cases "j = k")
    case True
    then have "b \<noteq> a \<Longrightarrow> (b, k, w) \<notin> set (ll c)" for w using d(3) [of k b] mk by auto
    then show ?thesis using True by (auto simp: in_delete)
  next
    case False
    then have "(a, j, w) \<notin> set (ll c)" for w using eq_key_imp_eq_value [OF d(1), of a "(j, w)" "(k, v)"] e by auto
    then show ?thesis using False d(3) [of j b] by (auto simp: in_delete)
  qed
  then have "lru_ok ?c" using ok d r by (auto simp: lru_ok_def distinct_fst_delete set_delete)
  then show ?thesis using r m by (intro exI [of _ ?c]) (auto simp: removeElement_def evicted_def split: option.splits)
qed

lemma RemoveOldest_refines:
  assumes ok: "lru_ok c"
  shows "\<exists>c' s'. lru_RemoveOldest (c, s) = (c', s') \<and> lru_ok c' \<and> (recency c', s') = r_oldest (OnEvicted c) (recency c, s) \<and>
    MaxEntries c' = MaxEntries c \<and> OnEvicted c' = OnEvicted c"
proof (cases "ll c = []")
  case True
  then show ?thesis using ok by (auto simp: lru_RemoveOldest_def r_oldest_def recency_def)
next
  case False
  obtain a k v where l: "last (ll c) = (a, k, v)" by (rule prod_cases3)
  then have e: "(a, k, v) \<in> set (ll c)" using False last_in_set by metis
  then have m: "lru_map c \<noteq> None" using ok by (auto simp: lru_ok_def split: option.splits)
  have r: "last (recency c) = (k, v)" "recency c \<noteq> []" using l False by (simp_all add: recency_def last_map)
  then have "AList.delete k (recency c) = butlast (recency c)" using delete_last [of "recency c"] ok by (simp add: lru_ok_def)
  then show ?thesis using removeElement_refines [OF ok e, of s] m False l r by (auto simp: lru_RemoveOldest_def r_oldest_def)
qed

lemma map_snd_MoveToFront:
  assumes ok: "lru_ok c" and e: "(a, k, v) \<in> set (ll c)"
  shows "MoveToFront a (ll c) = (a, k, v) # AList.delete a (ll c)" and "map snd (AList.delete a (ll c)) = AList.delete k (recency c)"
    and "lru_ok (c\<lparr>ll := (a, k, w) # AList.delete a (ll c)\<rparr>)"
proof -
  have d: "distinct (map fst (ll c))" "distinct (map fst (recency c))" using ok by (simp_all add: lru_ok_def)
  show mf: "MoveToFront a (ll c) = (a, k, v) # AList.delete a (ll c)" using d(1) e by (simp add: MoveToFront_def)
  show r: "map snd (AList.delete a (ll c)) = AList.delete k (recency c)" using delete_element [OF d(1) _ e] d(2) by (simp add: recency_def)
  obtain m where m: "lru_map c = Some m" using ok e by (cases "lru_map c") (auto simp: lru_ok_def)
  have mm: "\<And>k a. m k = Some a \<longleftrightarrow> (\<exists>v. (a, k, v) \<in> set (ll c))" using ok m by (simp add: lru_ok_def)
  have "m j = Some b \<longleftrightarrow> (\<exists>u. (b, j, u) \<in> set ((a, k, w) # AList.delete a (ll c)))" for j b
  proof (cases "b = a")
    case True
    then have "(a, j, u) \<in> set (ll c) \<Longrightarrow> j = k" for u using eq_key_imp_eq_value [OF d(1), of a "(j, u)" "(k, v)"] e by auto
    then show ?thesis using True mm e by (auto simp: in_delete)
  next
    case False
    then show ?thesis using mm by (auto simp: in_delete)
  qed
  then show "lru_ok (c\<lparr>ll := (a, k, w) # AList.delete a (ll c)\<rparr>)" using ok d m e
    by (auto simp: lru_ok_def r distinct_fst_delete set_delete)
qed

lemma Get_refines:
  assumes ok: "lru_ok c"
  shows "\<exists>c'. lru_Get k c = (fst (r_get k (recency c)), c') \<and> lru_ok c' \<and> recency c' = snd (r_get k (recency c)) \<and>
    MaxEntries c' = MaxEntries c \<and> OnEvicted c' = OnEvicted c \<and> (lru_map c' = None) = (lru_map c = None)"
proof (cases "lru_map c")
  case None
  then show ?thesis using ok recency_nil [OF ok] by (simp add: lru_Get_def r_get_def)
next
  case (Some m)
  show ?thesis
  proof (cases "m k")
    case None
    then show ?thesis using ok Some lru_ok_map(2) [OF ok Some] by (simp add: lru_Get_def r_get_def)
  next
    case (Some a)
    obtain v where v: "map_of (ll c) a = Some (k, v)" "(a, k, v) \<in> set (ll c)" "map_of (recency c) k = Some v"
      using lru_ok_map(1) [OF ok \<open>lru_map c = Some m\<close> Some] by blast
    show ?thesis using Some \<open>lru_map c = Some m\<close> v map_snd_MoveToFront [OF ok v(2)]
      by (simp add: lru_Get_def r_get_def)
  qed
qed

lemma Remove_refines:
  assumes ok: "lru_ok c"
  shows "\<exists>c' s'. lru_Remove k (c, s) = (c', s') \<and> lru_ok c' \<and> (recency c', s') = r_remove (OnEvicted c) k (recency c, s) \<and>
    MaxEntries c' = MaxEntries c \<and> OnEvicted c' = OnEvicted c"
proof (cases "lru_map c")
  case None
  then show ?thesis using ok recency_nil [OF ok] by (simp add: lru_Remove_def r_remove_def)
next
  case (Some m)
  show ?thesis
  proof (cases "m k")
    case None
    then show ?thesis using ok Some lru_ok_map(2) [OF ok Some] by (simp add: lru_Remove_def r_remove_def)
  next
    case (Some a)
    obtain v where v: "map_of (ll c) a = Some (k, v)" "(a, k, v) \<in> set (ll c)" "map_of (recency c) k = Some v"
      using lru_ok_map(1) [OF ok \<open>lru_map c = Some m\<close> Some] by blast
    show ?thesis using Some \<open>lru_map c = Some m\<close> v removeElement_refines [OF ok v(2), of s]
      by (auto simp: lru_Remove_def r_remove_def)
  qed
qed

lemma Add_refines:
  assumes ok: "lru_ok c"
  shows "\<exists>c' s'. lru_Add k v (c, s) = (c', s') \<and> lru_ok c' \<and> (recency c', s') = r_add (MaxEntries c) (OnEvicted c) k v (recency c, s) \<and>
    MaxEntries c' = MaxEntries c \<and> OnEvicted c' = OnEvicted c"
proof -
  define c0 where "c0 = (case lru_map c of None \<Rightarrow> c\<lparr>lru_map := Some Map.empty, ll := []\<rparr> | Some _ \<Rightarrow> c)"
  have c0: "lru_ok c0" "recency c0 = recency c" "MaxEntries c0 = MaxEntries c" "OnEvicted c0 = OnEvicted c"
    using ok recency_nil [OF ok] by (auto simp: c0_def lru_ok_def split: option.splits)
  obtain m where m: "lru_map c0 = Some m" by (cases "lru_map c") (simp_all add: c0_def)
  show ?thesis
  proof (cases "m k")
    case (Some a)
    obtain w where w: "(a, k, w) \<in> set (ll c0)" "map_of (recency c0) k = Some w" using lru_ok_map(1) [OF c0(1) m Some] by blast
    note M = map_snd_MoveToFront [OF c0(1) w(1)]
    have "set_value a v ((a, k, w) # AList.delete a (ll c0)) = (a, k, v) # AList.delete a (ll c0)"
    proof -
      have "map (\<lambda>(b, j, w). (b, j, if b = a then v else w)) (AList.delete a (ll c0)) = AList.delete a (ll c0)"
        by (rule map_idI) (auto simp: in_delete)
      then show ?thesis by (simp add: set_value_def)
    qed
    then have "lru_Add k v (c, s) = (c0\<lparr>ll := (a, k, v) # AList.delete a (ll c0)\<rparr>, s)"
      using Some m M(1) by (simp add: lru_Add_def c0_def [symmetric] Let_def)
    then show ?thesis using M(2,3) c0 w(2) by (simp add: r_add_def Let_def)
  next
    case None
    have n: "map_of (recency c0) k = None" by (rule lru_ok_map(2) [OF c0(1) m None])
    let ?c1 = "c0\<lparr>ll := (next_addr c0, k, v) # ll c0, lru_map := Some (m(k \<mapsto> next_addr c0)), next_addr := next_addr c0 + 1\<rparr>"
    have fresh: "next_addr c0 \<notin> fst ` set (ll c0)" using c0(1) by (auto simp: lru_ok_def)
    have mm: "\<And>k a. m k = Some a \<longleftrightarrow> (\<exists>v. (a, k, v) \<in> set (ll c0))" using c0(1) m by (simp add: lru_ok_def)
    have "(m(k \<mapsto> next_addr c0)) j = Some b \<longleftrightarrow> (\<exists>u. (b, j, u) \<in> set (ll ?c1))" for j b
      using mm [of j b] None fresh mm [of k b] by (cases "j = k") (auto simp: image_iff)
    then have ok1: "lru_ok ?c1" using c0(1) fresh n by (auto simp: lru_ok_def map_of_eq_None_iff recency_def less_Suc_eq)
    have "AList.delete k (recency c0) = recency c0" using n by (simp add: map_of_eq_None_iff)
    moreover have "recency ?c1 = (k, v) # recency c0" by (simp add: recency_def)
    ultimately have r1: "recency ?c1 = (k, v) # AList.delete k (recency c)" using c0(2) by simp
    have a: "lru_Add k v (c, s) = (if MaxEntries c \<noteq> 0 \<and> int (length (ll ?c1)) > MaxEntries c then lru_RemoveOldest (?c1, s) else (?c1, s))"
      using None m c0(3) by (simp add: lru_Add_def c0_def [symmetric] Let_def)
    have len: "length (ll ?c1) = length (recency ?c1)" by (simp add: recency_def)
    show ?thesis unfolding a r_add_def using RemoveOldest_refines [OF ok1, of s] ok1 r1 len n c0 by (auto simp: Let_def)
  qed
qed

section \<open>Runs\<close>

datatype ('k, 'v) lru_op = Add 'k 'v | Get 'k | Remove 'k | RemoveOldest | Len

datatype 'v lru_out = Silent | Found "'v option" | Size nat

fun lru_exec :: "('k, 'v) lru_op \<Rightarrow> ('k, 'v, 's) Cache \<times> 's \<Rightarrow> 'v lru_out \<times> ('k, 'v, 's) Cache \<times> 's" where
  "lru_exec (Add k v) cs = (Silent, lru_Add k v cs)"
| "lru_exec (Get k) (c, s) = (case lru_Get k c of (r, c1) \<Rightarrow> (Found r, c1, s))"
| "lru_exec (Remove k) cs = (Silent, lru_Remove k cs)"
| "lru_exec RemoveOldest cs = (Silent, lru_RemoveOldest cs)"
| "lru_exec Len (c, s) = (Size (lru_Len c), c, s)"

fun lru_run :: "('k, 'v) lru_op list \<Rightarrow> ('k, 'v, 's) Cache \<times> 's \<Rightarrow> 'v lru_out list \<times> ('k, 'v, 's) Cache \<times> 's" where
  "lru_run [] cs = ([], cs)"
| "lru_run (a # as) cs = (case lru_exec a cs of (r, cs1) \<Rightarrow> case lru_run as cs1 of (rs, cs2) \<Rightarrow> (r # rs, cs2))"

fun r_exec :: "int \<Rightarrow> ('k \<Rightarrow> 'v \<Rightarrow> 's \<Rightarrow> 's) option \<Rightarrow> ('k, 'v) lru_op \<Rightarrow> ('k \<times> 'v) list \<times> 's \<Rightarrow> 'v lru_out \<times> ('k \<times> 'v) list \<times> 's" where
  "r_exec n f (Add k v) xs = (Silent, r_add n f k v xs)"
| "r_exec n f (Get k) (xs, s) = (case r_get k xs of (r, ys) \<Rightarrow> (Found r, ys, s))"
| "r_exec n f (Remove k) xs = (Silent, r_remove f k xs)"
| "r_exec n f RemoveOldest xs = (Silent, r_oldest f xs)"
| "r_exec n f Len (xs, s) = (Size (length xs), xs, s)"

fun r_run :: "int \<Rightarrow> ('k \<Rightarrow> 'v \<Rightarrow> 's \<Rightarrow> 's) option \<Rightarrow> ('k, 'v) lru_op list \<Rightarrow> ('k \<times> 'v) list \<times> 's \<Rightarrow> 'v lru_out list \<times> ('k \<times> 'v) list \<times> 's" where
  "r_run n f [] xs = ([], xs)"
| "r_run n f (a # as) xs = (case r_exec n f a xs of (r, xs1) \<Rightarrow> case r_run n f as xs1 of (rs, xs2) \<Rightarrow> (r # rs, xs2))"

lemma exec_refines:
  assumes ok: "lru_ok c"
  shows "\<exists>r c' s'. lru_exec a (c, s) = (r, c', s') \<and> lru_ok c' \<and> r_exec (MaxEntries c) (OnEvicted c) a (recency c, s) = (r, recency c', s') \<and>
    MaxEntries c' = MaxEntries c \<and> OnEvicted c' = OnEvicted c"
proof (cases a)
  case (Add k v)
  then show ?thesis using Add_refines [OF ok, of k v s] by fastforce
next
  case (Get k)
  then show ?thesis using Get_refines [OF ok, of k] by (fastforce split: prod.splits)
next
  case (Remove k)
  then show ?thesis using Remove_refines [OF ok, of k s] by fastforce
next
  case RemoveOldest
  then show ?thesis using RemoveOldest_refines [OF ok, of s] by fastforce
next
  case Len
  have "lru_Len c = length (recency c)" using recency_nil [OF ok] by (cases "lru_map c") (simp_all add: lru_Len_def recency_def)
  then show ?thesis using Len ok by simp
qed

lemma run_refines:
  "lru_ok c \<Longrightarrow> \<exists>rs c' s'. lru_run as (c, s) = (rs, c', s') \<and> lru_ok c' \<and>
     r_run (MaxEntries c) (OnEvicted c) as (recency c, s) = (rs, recency c', s')"
proof (induction as arbitrary: c s)
  case (Cons a as)
  obtain r c1 s1 where 1: "lru_exec a (c, s) = (r, c1, s1)" "lru_ok c1" "r_exec (MaxEntries c) (OnEvicted c) a (recency c, s) = (r, recency c1, s1)"
    "MaxEntries c1 = MaxEntries c" "OnEvicted c1 = OnEvicted c" using exec_refines [OF Cons.prems] by blast
  obtain rs c2 s2 where "lru_run as (c1, s1) = (rs, c2, s2)" "lru_ok c2"
    "r_run (MaxEntries c1) (OnEvicted c1) as (recency c1, s1) = (rs, recency c2, s2)" using Cons.IH [OF 1(2)] by blast
  then show ?case using 1 by simp
qed simp

text \<open>A cache that nothing was put into: with a nil map or an empty one.\<close>

definition empty_cache :: "int \<Rightarrow> ('k \<Rightarrow> 'v \<Rightarrow> 's \<Rightarrow> 's) option \<Rightarrow> bool \<Rightarrow> ('k, 'v, 's) Cache" where
  "empty_cache n f literal = \<lparr>MaxEntries = n, OnEvicted = f, ll = [], lru_map = (if literal then None else Some Map.empty), next_addr = 0\<rparr>"

lemma empty_cache_ok [simp]: "lru_ok (empty_cache n f b)" "recency (empty_cache n f b) = []"
  "MaxEntries (empty_cache n f b) = n" "OnEvicted (empty_cache n f b) = f"
  by (simp_all add: empty_cache_def lru_ok_def recency_def)

lemma lru_is_list:
  "\<exists>rs c s'. lru_run as (empty_cache n f literal, s) = (rs, c, s') \<and> r_run n f as ([], s) = (rs, recency c, s') \<and> lru_ok c"
  using run_refines [of "empty_cache n f literal" as s] by auto

text \<open>C16. The cache is a list of keys and values in the order of their last use: whatever sequence of
  operations is run on a new cache, with whatever limit and callback, it answers as the list does, the
  callback is called for the same entries in the same order, and the elements of the linked list and
  the map of their addresses stay consistent.\<close>

theorem lru_is_recency_list:
  "\<exists>rs c s'. lru_run as (empty_cache n f literal, s) = (rs, c, s') \<and> r_run n f as ([], s) = (rs, recency c, s') \<and> lru_ok c"
  by (rule lru_is_list)

section \<open>What is kept\<close>

definition uses :: "('k, 'v) lru_op \<Rightarrow> 'k set" where
  "uses a = (case a of Add k v \<Rightarrow> {k} | Get k \<Rightarrow> {k} | _ \<Rightarrow> {})"

definition drops :: "('k, 'v) lru_op \<Rightarrow> bool" where
  "drops a \<longleftrightarrow> (case a of Remove _ \<Rightarrow> True | RemoveOldest \<Rightarrow> True | _ \<Rightarrow> False)"

text \<open>The entry is in the list, and what is before it are other keys in use.\<close>

definition kept :: "'k \<Rightarrow> 'v \<Rightarrow> 'k set \<Rightarrow> ('k \<times> 'v) list \<Rightarrow> bool" where
  "kept k v K xs \<longleftrightarrow> distinct (map fst xs) \<and> (\<exists>ys zs. xs = ys @ (k, v) # zs \<and> fst ` set ys \<subseteq> K - {k})"

lemma kept_front: "kept k v K xs \<Longrightarrow> kept k v K ((k, v) # AList.delete k xs)"
  by (force simp: kept_def distinct_fst_delete set_delete intro: exI [of _ "[]"])

lemma kept_other:
  assumes "kept k v K xs" and "j \<noteq> k" and "j \<in> K"
  shows "kept k v K ((j, w) # AList.delete j xs)"
proof -
  obtain ys zs where x: "xs = ys @ (k, v) # zs" "fst ` set ys \<subseteq> K - {k}" "distinct (map fst xs)" using assms(1) by (auto simp: kept_def)
  have "(j, w) # AList.delete j xs = ((j, w) # AList.delete j ys) @ (k, v) # AList.delete j zs"
    using assms(2) x(1) by (simp add: AList.delete_eq)
  moreover have "fst ` set ((j, w) # AList.delete j ys) \<subseteq> K - {k}" using x(2) assms(2,3) by (auto simp: set_delete)
  moreover have "distinct (map fst ((j, w) # AList.delete j xs))" using x(3) by (auto simp: distinct_fst_delete set_delete)
  ultimately show ?thesis unfolding kept_def by blast
qed

lemma kept_butlast:
  assumes "kept k v K xs" and "finite K" and "card (K - {k}) < n" and "n < length xs"
  shows "kept k v K (butlast xs)"
proof -
  obtain ys zs where x: "xs = ys @ (k, v) # zs" "fst ` set ys \<subseteq> K - {k}" "distinct (map fst xs)" using assms(1) by (auto simp: kept_def)
  have "length ys = card (fst ` set ys)" using x by (metis distinct_append distinct_card length_map map_append list.set_map)
  then have "length ys \<le> card (K - {k})" using x(2) assms(2) by (simp add: card_mono)
  then have "zs \<noteq> []" using x(1) assms(3,4) by auto
  then have "butlast xs = ys @ (k, v) # butlast zs" using x(1) by (simp add: butlast_append)
  moreover have "distinct (map fst (butlast xs))" using x(3) by (simp add: map_butlast distinct_butlast)
  ultimately show ?thesis using x(2) unfolding kept_def by blast
qed

lemma kept_map_of: "kept k v K xs \<Longrightarrow> map_of xs k = Some v"
  by (auto simp: kept_def)

lemma kept_exec:
  assumes k: "kept k v K xs" and K: "finite K" "card (K - {k}) < n" and a: "uses a \<subseteq> K" "\<not> drops a" "\<forall>w. a \<noteq> Add k w"
  shows "\<exists>r ys s'. r_exec (int n) f a (xs, s) = (r, ys, s') \<and> kept k v K ys"
proof (cases a)
  case (Add j w)
  then have j: "j \<noteq> k" "j \<in> K" using a by (auto simp: uses_def)
  let ?ys = "(j, w) # AList.delete j xs"
  have y: "kept k v K ?ys" by (rule kept_other [OF k j])
  show ?thesis
  proof (cases "map_of xs j = None \<and> int (length ?ys) > int n")
    case True
    then show ?thesis using Add kept_butlast [OF y K] K(2) by (auto simp: r_add_def r_oldest_def Let_def)
  next
    case False
    then show ?thesis using Add y by (auto simp: r_add_def Let_def)
  qed
next
  case (Get j)
  then show ?thesis using k kept_front [OF k] kept_other [OF k, of j] a(1) kept_map_of [OF k]
    by (cases "j = k"; cases "map_of xs j") (auto simp: r_get_def uses_def)
next
  case (Remove j)
  then show ?thesis using a by (simp add: drops_def)
next
  case RemoveOldest
  then show ?thesis using a by (simp add: drops_def)
next
  case Len
  then show ?thesis using k by simp
qed

lemma kept_run:
  "kept k v K xs \<Longrightarrow> finite K \<Longrightarrow> card (K - {k}) < n \<Longrightarrow> \<forall>a \<in> set as. uses a \<subseteq> K \<and> \<not> drops a \<and> (\<forall>w. a \<noteq> Add k w) \<Longrightarrow>
   \<exists>rs ys s'. r_run (int n) f as (xs, s) = (rs, ys, s') \<and> kept k v K ys"
proof (induction as arbitrary: xs s)
  case (Cons a as)
  have a: "uses a \<subseteq> K" "\<not> drops a" "\<forall>w. a \<noteq> Add k w" and rest: "\<forall>a \<in> set as. uses a \<subseteq> K \<and> \<not> drops a \<and> (\<forall>w. a \<noteq> Add k w)"
    using Cons.prems(4) by simp_all
  obtain r ys s1 where e: "r_exec (int n) f a (xs, s) = (r, ys, s1)" "kept k v K ys"
    using kept_exec [OF Cons.prems(1-3) a, of f s] by blast
  obtain rs zs s2 where "r_run (int n) f as (ys, s1) = (rs, zs, s2)" "kept k v K zs"
    using Cons.IH [OF e(2) Cons.prems(2,3) rest] by blast
  then show ?case using e(1) by simp
qed simp

lemma r_run_append: "r_run n f (as @ bs) xs = (case r_run n f as xs of (rs, ys) \<Rightarrow> case r_run n f bs ys of (qs, zs) \<Rightarrow> (rs @ qs, zs))"
  by (induction as arbitrary: xs) (simp_all split: prod.splits)

lemma kept_added:
  assumes "distinct (map fst xs)" and "finite K" and "card (K - {k}) < n"
  shows "\<exists>r ys s'. r_exec (int n) f (Add k v) (xs, s) = (r, ys, s') \<and> kept k v K ys"
proof -
  let ?ys = "(k, v) # AList.delete k xs"
  have y: "kept k v K ?ys" using assms(1) by (force simp: kept_def distinct_fst_delete set_delete intro: exI [of _ "[]"])
  show ?thesis
  proof (cases "map_of xs k = None \<and> int (length ?ys) > int n")
    case True
    then show ?thesis using kept_butlast [OF y assms(2,3)] assms(3) by (auto simp: r_add_def r_oldest_def Let_def)
  next
    case False
    then show ?thesis using y by (auto simp: r_add_def Let_def)
  qed
qed

text \<open>A cache of n entries keeps what was used last: a value that was added is found again after any
  operations on fewer than n other keys, none of which removes entries or adds this key again.\<close>

theorem lru_keeps_recent:
  assumes "\<forall>a \<in> set bs. \<not> drops a \<and> (\<forall>w. a \<noteq> Add k w)" and "card ((\<Union>a \<in> set bs. uses a) - {k}) < n"
  shows "last (fst (lru_run (as @ Add k v # bs @ [Get k]) (empty_cache (int n) f literal, s))) = Found (Some v)"
proof -
  let ?K = "\<Union>a \<in> set bs. uses a"
  have K: "finite ?K" by (auto simp: uses_def split: lru_op.splits)
  have lr: "fst (lru_run cs (empty_cache (int n) f literal, s)) = fst (r_run (int n) f cs ([], s))" for cs :: "('a, 'b) lru_op list"
    using lru_is_list [of cs "int n" f literal s] by auto
  obtain rs xs s1 where 1: "r_run (int n) f as ([], s) = (rs, xs, s1)" "distinct (map fst xs)"
    using lru_is_list [of as "int n" f literal s] by (auto simp: lru_ok_def)
  obtain r ys s2 where 2: "r_exec (int n) f (Add k v) (xs, s1) = (r, ys, s2)" "kept k v ?K ys"
    using kept_added [OF 1(2) K assms(2), of f v s1] by blast
  have "\<forall>a \<in> set bs. uses a \<subseteq> ?K \<and> \<not> drops a \<and> (\<forall>w. a \<noteq> Add k w)" using assms(1) by blast
  then obtain qs zs s3 where 3: "r_run (int n) f bs (ys, s2) = (qs, zs, s3)" "kept k v ?K zs"
    using kept_run [OF 2(2) K assms(2), of bs f s2] by blast
  have "r_run (int n) f (as @ Add k v # bs @ [Get k]) ([], s) = (rs @ r # qs @ [Found (Some v)], snd (r_get k zs), s3)"
    using 1(1) 2(1) 3(1) kept_map_of [OF 3(2)] by (simp add: r_run_append r_get_def)
  then show ?thesis unfolding lr by simp
qed

theorem lru_keeps_recent_witness:
  "last (fst (lru_run [Add (1 :: int) ''x'', Add 2 ''y'', Get 1, Add 3 ''z'', Get 2, Get 2] (empty_cache 2 None True, ()))) = Found None \<and>
   last (fst (lru_run [Add (1 :: int) ''x'', Add 2 ''y'', Add 3 ''z'', Get 2] (empty_cache 2 None True, ()))) = Found (Some ''y'')"
proof -
  have "card ((\<Union>a \<in> set [Add (3 :: int) ''z'']. uses a) - {2}) < 2" by (simp add: uses_def)
  from lru_keeps_recent [where as = "[Add 1 ''x'']" and k = 2 and v = "''y''" and f = None and literal = True and s = "()", OF _ this]
  show ?thesis by (simp add: drops_def) code_simp
qed

end
