(* ===== verification/GcView.thy ===== *)
theory GcView
  imports Prelude
begin

text \<open>
  \<open>golang/groupcache/byteview.go\<close> and \<open>sinks.go\<close>: immutable bytes, held as a slice or as a string, and
  the destinations that a value is written to. Slices are their contents, since what is shared is
  never written. Protocol buffers are an argument (\<open>proto\<close>). \<open>None\<close> is a panic.
\<close>

section \<open>Views\<close>

record ByteView =
  vb :: "byte list option"
  vs :: "byte list"

definition of_bytes :: "byte list \<Rightarrow> ByteView" where "of_bytes b = \<lparr>vb = Some b, vs = []\<rparr>"
definition of_str :: "byte list \<Rightarrow> ByteView" where "of_str s = \<lparr>vb = None, vs = s\<rparr>"

definition view_Len :: "ByteView \<Rightarrow> nat" where
  "view_Len v = (case vb v of Some b \<Rightarrow> length b | None \<Rightarrow> length (vs v))"

definition ByteSlice :: "ByteView \<Rightarrow> byte list" where
  "ByteSlice v = (case vb v of Some b \<Rightarrow> b | None \<Rightarrow> vs v)"

definition view_String :: "ByteView \<Rightarrow> byte list" where
  "view_String v = (case vb v of Some b \<Rightarrow> b | None \<Rightarrow> vs v)"

definition index_bytes :: "byte list \<Rightarrow> int \<Rightarrow> byte option" where
  "index_bytes b i = (if 0 \<le> i \<and> i < int (length b) then Some (b ! nat i) else None)"

definition slice_bytes :: "byte list \<Rightarrow> int \<Rightarrow> int \<Rightarrow> byte list option" where
  "slice_bytes b i j = (if 0 \<le> i \<and> i \<le> j \<and> j \<le> int (length b) then Some (drop (nat i) (take (nat j) b)) else None)"

definition At :: "ByteView \<Rightarrow> int \<Rightarrow> byte option" where
  "At v i = (case vb v of Some b \<Rightarrow> index_bytes b i | None \<Rightarrow> index_bytes (vs v) i)"

definition Slice :: "ByteView \<Rightarrow> int \<Rightarrow> int \<Rightarrow> ByteView option" where
  "Slice v i j =
     (case vb v of Some b \<Rightarrow> map_option of_bytes (slice_bytes b i j) | None \<Rightarrow> map_option of_str (slice_bytes (vs v) i j))"

definition SliceFrom :: "ByteView \<Rightarrow> int \<Rightarrow> ByteView option" where
  "SliceFrom v i =
     (case vb v of
        Some b \<Rightarrow> map_option of_bytes (slice_bytes b i (int (length b)))
      | None \<Rightarrow> map_option of_str (slice_bytes (vs v) i (int (length (vs v)))))"

text \<open>\<open>copy\<close>: the number of bytes and the destination after it.\<close>

definition copy_bytes :: "byte list \<Rightarrow> byte list \<Rightarrow> nat \<times> byte list" where
  "copy_bytes dest b = (let n = min (length dest) (length b) in (n, take n b @ drop n dest))"

definition Copy :: "ByteView \<Rightarrow> byte list \<Rightarrow> nat \<times> byte list" where
  "Copy v dest = (case vb v of Some b \<Rightarrow> copy_bytes dest b | None \<Rightarrow> copy_bytes dest (vs v))"

fun same_bytes :: "byte list \<Rightarrow> byte list \<Rightarrow> bool" where
  "same_bytes (x # xs) (y # ys) = (if x \<noteq> y then False else same_bytes xs ys)"
| "same_bytes _ _ = True"

definition EqualString :: "ByteView \<Rightarrow> byte list \<Rightarrow> bool" where
  "EqualString v s =
     (case vb v of
        None \<Rightarrow> vs v = s
      | Some b \<Rightarrow> if length s \<noteq> view_Len v then False else same_bytes b s)"

definition EqualBytes :: "ByteView \<Rightarrow> byte list \<Rightarrow> bool" where
  "EqualBytes v b2 =
     (case vb v of
        Some b \<Rightarrow> b = b2
      | None \<Rightarrow> if length b2 \<noteq> view_Len v then False else same_bytes b2 (vs v))"

definition Equal :: "ByteView \<Rightarrow> ByteView \<Rightarrow> bool" where
  "Equal v w = (case vb w of None \<Rightarrow> EqualString v (vs w) | Some b \<Rightarrow> EqualBytes v b)"

datatype read_error = Invalid_offset | End_of_file

text \<open>\<open>ReadAt\<close>: the number of bytes, the error and the buffer.\<close>

definition ReadAt :: "ByteView \<Rightarrow> byte list \<Rightarrow> int \<Rightarrow> (nat \<times> read_error option \<times> byte list) option" where
  "ReadAt v p off =
     (if off < 0 then Some (0, Some Invalid_offset, p)
      else if off \<ge> int (view_Len v) then Some (0, Some End_of_file, p)
      else
        map_option (\<lambda>w. case Copy w p of (n, q) \<Rightarrow> (n, if n < length p then Some End_of_file else None, q)) (SliceFrom v off))"

text \<open>A view is its bytes.\<close>

lemma view_Len_bytes: "view_Len v = length (ByteSlice v)"
  by (simp add: view_Len_def ByteSlice_def split: option.split)

lemma ByteSlice_of [simp]: "ByteSlice (of_bytes b) = b" "ByteSlice (of_str s) = s"
  by (simp_all add: ByteSlice_def of_bytes_def of_str_def)

lemma ByteSlice_None: "vb v = None \<Longrightarrow> ByteSlice v = vs v"
  by (simp add: ByteSlice_def)

lemma ByteSlice_Some: "vb v = Some b \<Longrightarrow> ByteSlice v = b"
  by (simp add: ByteSlice_def)

lemma same_bytes_iff: "length xs = length ys \<Longrightarrow> same_bytes xs ys \<longleftrightarrow> xs = ys"
  by (induction xs ys rule: list_induct2) auto

lemma EqualString_iff: "EqualString v s \<longleftrightarrow> ByteSlice v = s"
  by (auto simp: EqualString_def ByteSlice_def view_Len_def same_bytes_iff split: option.split)

lemma EqualBytes_iff: "EqualBytes v b \<longleftrightarrow> ByteSlice v = b"
  by (auto simp: EqualBytes_def ByteSlice_def view_Len_def same_bytes_iff split: option.split)

text \<open>Two views are equal exactly if their bytes are, and reading and slicing read these bytes.\<close>

theorem view_is_its_bytes:
  "Equal v w \<longleftrightarrow> ByteSlice v = ByteSlice w"
  "map_option ByteSlice (Slice v i j) = slice_bytes (ByteSlice v) i j"
  "0 \<le> off \<Longrightarrow> off < int (length (ByteSlice v)) \<Longrightarrow>
     ReadAt v p off = (let n = min (length p) (length (ByteSlice v) - nat off)
       in Some (n, if n < length p then Some End_of_file else None, take n (drop (nat off) (ByteSlice v)) @ drop n p))"
proof -
  show "Equal v w \<longleftrightarrow> ByteSlice v = ByteSlice w"
    by (cases "vb w") (auto simp: Equal_def EqualString_iff EqualBytes_iff ByteSlice_None ByteSlice_Some)
  show "map_option ByteSlice (Slice v i j) = slice_bytes (ByteSlice v) i j"
    by (cases "vb v"; cases "slice_bytes (ByteSlice v) i j") (simp_all add: Slice_def ByteSlice_None ByteSlice_Some)
  assume o: "0 \<le> off" "off < int (length (ByteSlice v))"
  have c: "Copy w p = copy_bytes p (ByteSlice w)" for w by (simp add: Copy_def ByteSlice_def split: option.split)
  have "map_option ByteSlice (SliceFrom v off) = slice_bytes (ByteSlice v) off (int (length (ByteSlice v)))"
    by (cases "vb v"; cases "slice_bytes (ByteSlice v) off (int (length (ByteSlice v)))")
       (simp_all add: SliceFrom_def ByteSlice_None ByteSlice_Some)
  then obtain w where w: "SliceFrom v off = Some w" "ByteSlice w = drop (nat off) (ByteSlice v)"
    using o by (auto simp: slice_bytes_def)
  show "ReadAt v p off = (let n = min (length p) (length (ByteSlice v) - nat off)
       in Some (n, if n < length p then Some End_of_file else None, take n (drop (nat off) (ByteSlice v)) @ drop n p))"
    using o w by (simp add: ReadAt_def view_Len_bytes c copy_bytes_def Let_def)
qed

section \<open>Sinks\<close>

record 'm proto =
  proto_Marshal :: "'m \<Rightarrow> byte list option"
  proto_Unmarshal :: "byte list \<Rightarrow> 'm \<Rightarrow> 'm \<times> bool"

text \<open>The destinations, with the encoded view that some keep; a missing slice is a nil pointer.\<close>

datatype 'm sink =
    StringSink "byte list" ByteView
  | ByteViewSink ByteView
  | ProtoSink 'm ByteView
  | AllocSink "byte list option" ByteView
  | TruncSink "byte list option" ByteView

definition sink_view :: "'m sink \<Rightarrow> ByteView" where
  "sink_view d = (case d of StringSink _ v \<Rightarrow> v | ByteViewSink v \<Rightarrow> v | ProtoSink _ v \<Rightarrow> v | AllocSink _ v \<Rightarrow> v | TruncSink _ v \<Rightarrow> v)"

text \<open>\<open>copy(*dst, b)\<close> and the shrinking of \<open>dst\<close>.\<close>

definition truncating :: "byte list \<Rightarrow> byte list \<Rightarrow> byte list" where
  "truncating dst b = (case copy_bytes dst b of (n, q) \<Rightarrow> if n < length dst then take n q else q)"

fun SetString :: "'m proto \<Rightarrow> byte list \<Rightarrow> 'm sink \<Rightarrow> bool \<times> 'm sink" where
  "SetString pr s (StringSink _ _) = (True, StringSink s (of_str s))"
| "SetString pr s (ByteViewSink _) = (True, ByteViewSink (of_str s))"
| "SetString pr s (ProtoSink m v) =
     (case proto_Unmarshal pr s m of (m1, ok) \<Rightarrow> (ok, ProtoSink m1 (if ok then of_bytes s else v)))"
| "SetString pr s (AllocSink None v) = (False, AllocSink None v)"
| "SetString pr s (AllocSink (Some _) _) = (True, AllocSink (Some s) (of_str s))"
| "SetString pr s (TruncSink None v) = (False, TruncSink None v)"
| "SetString pr s (TruncSink (Some d) _) = (True, TruncSink (Some (truncating d s)) (of_str s))"

fun SetBytes :: "'m proto \<Rightarrow> byte list \<Rightarrow> 'm sink \<Rightarrow> bool \<times> 'm sink" where
  "SetBytes pr b (StringSink p v) = SetString pr b (StringSink p v)"
| "SetBytes pr b (ByteViewSink _) = (True, ByteViewSink (of_bytes b))"
| "SetBytes pr b (ProtoSink m v) =
     (case proto_Unmarshal pr b m of (m1, ok) \<Rightarrow> (ok, ProtoSink m1 (if ok then of_bytes b else v)))"
| "SetBytes pr b (AllocSink None v) = (False, AllocSink None v)"
| "SetBytes pr b (AllocSink (Some _) _) = (True, AllocSink (Some b) (of_bytes b))"
| "SetBytes pr b (TruncSink None v) = (False, TruncSink None v)"
| "SetBytes pr b (TruncSink (Some d) _) = (True, TruncSink (Some (truncating d b)) (of_bytes b))"

text \<open>\<open>stringSink\<close> sets the slice of its view and leaves the string.\<close>

fun SetProto :: "'m proto \<Rightarrow> 'm \<Rightarrow> 'm sink \<Rightarrow> bool \<times> 'm sink" where
  "SetProto pr m (StringSink p v) =
     (case proto_Marshal pr m of None \<Rightarrow> (False, StringSink p v) | Some b \<Rightarrow> (True, StringSink b (v\<lparr>vb := Some b\<rparr>)))"
| "SetProto pr m d =
     (case proto_Marshal pr m of None \<Rightarrow> (False, d) | Some b \<Rightarrow> SetBytes pr b d)"

text \<open>\<open>setSinkView\<close>; the two sinks that take a view as it is panic or not at a nil pointer.\<close>

fun setSinkView :: "'m proto \<Rightarrow> ByteView \<Rightarrow> 'm sink \<Rightarrow> (bool \<times> 'm sink) option" where
  "setSinkView pr v (ByteViewSink _) = Some (True, ByteViewSink v)"
| "setSinkView pr v (AllocSink d _) = (case d of None \<Rightarrow> None | Some _ \<Rightarrow> Some (True, AllocSink (Some (ByteSlice v)) v))"
| "setSinkView pr v d = Some (case vb v of Some b \<Rightarrow> SetBytes pr b d | None \<Rightarrow> SetString pr (vs v) d)"

text \<open>What a destination holds after a value was written to it.\<close>

definition delivered :: "'m proto \<Rightarrow> byte list \<Rightarrow> 'm sink \<Rightarrow> 'm sink \<Rightarrow> bool" where
  "delivered pr b d0 d =
     (case d0 of
        StringSink _ _ \<Rightarrow> (case d of StringSink s _ \<Rightarrow> s = b | _ \<Rightarrow> False)
      | ByteViewSink _ \<Rightarrow> (case d of ByteViewSink v \<Rightarrow> ByteSlice v = b | _ \<Rightarrow> False)
      | ProtoSink m _ \<Rightarrow> (case d of ProtoSink m1 _ \<Rightarrow> proto_Unmarshal pr b m = (m1, True) | _ \<Rightarrow> False)
      | AllocSink _ _ \<Rightarrow> (case d of AllocSink s _ \<Rightarrow> s = Some b | _ \<Rightarrow> False)
      | TruncSink s0 _ \<Rightarrow> (case d of TruncSink s _ \<Rightarrow> s0 \<noteq> None \<and> s = Some (take (length (the s0)) b) | _ \<Rightarrow> False))"

lemma truncating_take: "truncating d b = take (length d) b"
  by (simp add: truncating_def copy_bytes_def Let_def min_def)

lemma SetString_delivers: "SetString pr s d0 = (True, d) \<Longrightarrow> delivered pr s d0 d \<and> ByteSlice (sink_view d) = s"
  by (induction pr s d0 rule: SetString.induct) (auto simp: delivered_def sink_view_def truncating_take split: prod.splits)

lemma SetBytes_delivers: "SetBytes pr b d0 = (True, d) \<Longrightarrow> delivered pr b d0 d \<and> ByteSlice (sink_view d) = b"
  by (induction pr b d0 rule: SetBytes.induct) (auto simp: delivered_def sink_view_def truncating_take split: prod.splits)

lemma SetProto_delivers:
  assumes s: "SetProto pr m d0 = (True, d)"
  shows "\<exists>b. proto_Marshal pr m = Some b \<and> delivered pr b d0 d \<and> ByteSlice (sink_view d) = b"
proof -
  obtain b where b: "proto_Marshal pr m = Some b"
    using s by (cases "(pr, m, d0)" rule: SetProto.cases) (auto split: option.splits)
  show ?thesis
  proof (cases "\<exists>p v. d0 = StringSink p v")
    case True
    then show ?thesis using s b by (auto simp: delivered_def sink_view_def ByteSlice_def)
  next
    case False
    then have "SetBytes pr b d0 = (True, d)"
      using s b by (cases "(pr, m, d0)" rule: SetProto.cases) auto
    then show ?thesis using SetBytes_delivers b by blast
  qed
qed

lemma setSinkView_delivers:
  assumes s: "setSinkView pr v d0 = Some (True, d)"
  shows "delivered pr (ByteSlice v) d0 d"
proof -
  have "delivered pr (ByteSlice v) d0 d"
    if "Some (case vb v of Some b \<Rightarrow> SetBytes pr b d0 | None \<Rightarrow> SetString pr (vs v) d0) = Some (True, d)"
    using that SetBytes_delivers [of pr _ d0 d] SetString_delivers [of pr _ d0 d]
    by (cases "vb v") (auto simp: ByteSlice_None ByteSlice_Some)
  then show ?thesis using s
    by (cases "(pr, v, d0)" rule: setSinkView.cases)
       (simp_all del: SetBytes.simps SetString.simps add: delivered_def, auto split: option.splits)
qed

end
