(* ===== verification/GcCache.thy ===== *)
theory GcCache
  imports GcLru GcView "HOL-Library.While_Combinator" "HOL-Library.Signed_Division"
begin

text \<open>
  The two caches of a group in \<open>golang/groupcache/groupcache.go\<close>: the type \<open>cache\<close>, which counts the bytes
  of the keys and values that its LRU cache holds, \<open>lookupCache\<close>, and \<open>populateCache\<close> with its loop that
  evicts until the two caches fit. The \<open>int64\<close> counters are integers; they count bytes in memory. The
  loop is a \<open>while_option\<close>: \<open>None\<close> means that it runs forever.
\<close>

section \<open>One cache\<close>

type_synonym lru = "(byte list, ByteView, int \<times> int) Cache"

record cache =
  nbytes :: int
  c_lru :: "lru option"
  nhit :: int
  nget :: int
  nevict :: int

definition no_cache :: cache where
  "no_cache = \<lparr>nbytes = 0, c_lru = None, nhit = 0, nget = 0, nevict = 0\<rparr>"

definition entry_bytes :: "byte list \<Rightarrow> ByteView \<Rightarrow> int" where
  "entry_bytes k v = int (length k) + int (view_Len v)"

text \<open>The callback of the LRU cache works on \<open>nbytes\<close> and \<open>nevict\<close>.\<close>

definition on_evicted :: "byte list \<Rightarrow> ByteView \<Rightarrow> int \<times> int \<Rightarrow> int \<times> int" where
  "on_evicted k v s = (fst s - entry_bytes k v, snd s + 1)"

definition cache_add :: "byte list \<Rightarrow> ByteView \<Rightarrow> cache \<Rightarrow> cache" where
  "cache_add k v c =
     (let l = (case c_lru c of None \<Rightarrow> lru_literal on_evicted | Some l \<Rightarrow> l)
      in case lru_Add k v (l, (nbytes c, nevict c)) of (l1, nb, ne) \<Rightarrow>
           c\<lparr>nbytes := nb + entry_bytes k v, c_lru := Some l1, nevict := ne\<rparr>)"

definition cache_get :: "byte list \<Rightarrow> cache \<Rightarrow> ByteView option \<times> cache" where
  "cache_get k c =
     (let c1 = c\<lparr>nget := nget c + 1\<rparr>
      in case c_lru c of
           None \<Rightarrow> (None, c1)
         | Some l \<Rightarrow>
             (case lru_Get k l of
                (None, l1) \<Rightarrow> (None, c1\<lparr>c_lru := Some l1\<rparr>)
              | (Some v, l1) \<Rightarrow> (Some v, c1\<lparr>c_lru := Some l1, nhit := nhit c + 1\<rparr>)))"

definition cache_removeOldest :: "cache \<Rightarrow> cache" where
  "cache_removeOldest c =
     (case c_lru c of
        None \<Rightarrow> c
      | Some l \<Rightarrow> (case lru_RemoveOldest (l, (nbytes c, nevict c)) of (l1, nb, ne) \<Rightarrow> c\<lparr>nbytes := nb, c_lru := Some l1, nevict := ne\<rparr>))"

definition cache_bytes :: "cache \<Rightarrow> int" where "cache_bytes c = nbytes c"

definition itemsLocked :: "cache \<Rightarrow> int" where
  "itemsLocked c = (case c_lru c of None \<Rightarrow> 0 | Some l \<Rightarrow> int (lru_Len l))"

record CacheStats =
  Bytes :: int
  Items :: int
  Gets :: int
  Hits :: int
  Evictions :: int

definition cache_stats :: "cache \<Rightarrow> CacheStats" where
  "cache_stats c = \<lparr>Bytes = nbytes c, Items = itemsLocked c, Gets = nget c, Hits = nhit c, Evictions = nevict c\<rparr>"

text \<open>What a cache holds, the last used first; its callback is the one above and it has no limit of its
  own. \<open>wasted\<close> is what the counter is too high by.\<close>

definition cache_list :: "cache \<Rightarrow> (byte list \<times> ByteView) list" where
  "cache_list c = (case c_lru c of None \<Rightarrow> [] | Some l \<Rightarrow> recency l)"

definition cache_ok :: "cache \<Rightarrow> bool" where
  "cache_ok c \<longleftrightarrow> (case c_lru c of None \<Rightarrow> True | Some l \<Rightarrow> lru_ok l \<and> MaxEntries l = 0 \<and> OnEvicted l = Some on_evicted)"

definition list_bytes :: "(byte list \<times> ByteView) list \<Rightarrow> int" where
  "list_bytes xs = (\<Sum>(k, v) \<leftarrow> xs. entry_bytes k v)"

definition wasted :: "cache \<Rightarrow> int" where
  "wasted c = nbytes c - list_bytes (cache_list c)"

lemma no_cache_ok: "cache_ok no_cache" "cache_list no_cache = []" "wasted no_cache = 0"
  by (simp_all add: no_cache_def cache_ok_def cache_list_def wasted_def list_bytes_def)

lemma cache_ok_distinct: "cache_ok c \<Longrightarrow> distinct (map fst (cache_list c))"
  by (auto simp: cache_ok_def cache_list_def lru_ok_def split: option.splits)

lemma entry_bytes_pos: "0 \<le> entry_bytes k v"
  by (simp add: entry_bytes_def)

lemma list_bytes_pos: "0 \<le> list_bytes xs"
  unfolding list_bytes_def by (induction xs) (auto simp: entry_bytes_pos)

lemma cache_add_list:
  assumes "cache_ok c"
  shows "cache_ok (cache_add k v c)" and "cache_list (cache_add k v c) = (k, v) # AList.delete k (cache_list c)"
    and "nbytes (cache_add k v c) = nbytes c + entry_bytes k v"
proof -
  define l where "l = (case c_lru c of None \<Rightarrow> lru_literal on_evicted | Some l \<Rightarrow> l)"
  have l: "lru_ok l" "MaxEntries l = 0" "OnEvicted l = Some on_evicted" "recency l = cache_list c"
    using assms lru_ok_new by (auto simp: l_def cache_ok_def cache_list_def lru_literal_def split: option.splits)
  obtain l1 s1 where 1: "lru_Add k v (l, (nbytes c, nevict c)) = (l1, s1)" "lru_ok l1"
    "(recency l1, s1) = r_add (MaxEntries l) (OnEvicted l) k v (recency l, (nbytes c, nevict c))"
    "MaxEntries l1 = MaxEntries l" "OnEvicted l1 = OnEvicted l" using Add_refines [OF l(1)] by blast
  have r: "recency l1 = (k, v) # AList.delete k (cache_list c)" "s1 = (nbytes c, nevict c)"
    using 1(3) l by (simp_all add: r_add_def Let_def)
  have c: "cache_add k v c = c\<lparr>nbytes := nbytes c + entry_bytes k v, c_lru := Some l1, nevict := nevict c\<rparr>"
    using 1(1) r(2) by (simp add: cache_add_def l_def)
  show "cache_ok (cache_add k v c)" "cache_list (cache_add k v c) = (k, v) # AList.delete k (cache_list c)"
    "nbytes (cache_add k v c) = nbytes c + entry_bytes k v"
    using 1 l r by (simp_all add: c cache_ok_def cache_list_def)
qed

lemma cache_get_list:
  assumes "cache_ok c"
  shows "fst (cache_get k c) = map_of (cache_list c) k" and "cache_ok (snd (cache_get k c))"
    and "cache_list (snd (cache_get k c)) = snd (r_get k (cache_list c))" and "nbytes (snd (cache_get k c)) = nbytes c"
proof -
  have "fst (cache_get k c) = map_of (cache_list c) k \<and> cache_ok (snd (cache_get k c)) \<and>
    cache_list (snd (cache_get k c)) = snd (r_get k (cache_list c)) \<and> nbytes (snd (cache_get k c)) = nbytes c"
  proof (cases "c_lru c")
    case None
    then show ?thesis by (simp add: cache_get_def cache_list_def cache_ok_def r_get_def)
  next
    case (Some l)
    then have l: "lru_ok l" "MaxEntries l = 0" "OnEvicted l = Some on_evicted" using assms by (simp_all add: cache_ok_def)
    show ?thesis using Get_refines [OF l(1), of k] l(2,3) Some
      by (cases "map_of (recency l) k") (auto simp: cache_get_def cache_list_def cache_ok_def r_get_def)
  qed
  then show "fst (cache_get k c) = map_of (cache_list c) k" "cache_ok (snd (cache_get k c))"
    "cache_list (snd (cache_get k c)) = snd (r_get k (cache_list c))" "nbytes (snd (cache_get k c)) = nbytes c" by auto
qed

lemma cache_removeOldest_list:
  assumes "cache_ok c"
  shows "cache_ok (cache_removeOldest c)" and "cache_list (cache_removeOldest c) = butlast (cache_list c)"
    and "nbytes (cache_removeOldest c) = nbytes c - list_bytes (drop (length (cache_list c) - 1) (cache_list c))"
proof -
  have last: "drop (length xs - 1) xs = (if xs = [] then [] else [last xs])" for xs :: "'a list"
    by (cases xs rule: rev_cases) auto
  note last' = last [unfolded One_nat_def]
  have "cache_ok (cache_removeOldest c) \<and> cache_list (cache_removeOldest c) = butlast (cache_list c) \<and>
    nbytes (cache_removeOldest c) = nbytes c - list_bytes (drop (length (cache_list c) - 1) (cache_list c))"
  proof (cases "c_lru c")
    case None
    then show ?thesis by (simp add: cache_removeOldest_def cache_list_def cache_ok_def list_bytes_def)
  next
    case (Some l)
    then have l: "lru_ok l" "MaxEntries l = 0" "OnEvicted l = Some on_evicted" using assms by (simp_all add: cache_ok_def)
    obtain l1 s1 where 1: "lru_RemoveOldest (l, (nbytes c, nevict c)) = (l1, s1)" "lru_ok l1"
      "(recency l1, s1) = r_oldest (OnEvicted l) (recency l, (nbytes c, nevict c))"
      "MaxEntries l1 = MaxEntries l" "OnEvicted l1 = OnEvicted l" using RemoveOldest_refines [OF l(1)] by blast
    show ?thesis using 1 l Some
      by (cases "recency l = []")
         (auto simp: cache_removeOldest_def cache_list_def cache_ok_def r_oldest_def evicted_def on_evicted_def list_bytes_def last case_prod_beta
           last' split: prod.splits)
  qed
  then show "cache_ok (cache_removeOldest c)" "cache_list (cache_removeOldest c) = butlast (cache_list c)"
    "nbytes (cache_removeOldest c) = nbytes c - list_bytes (drop (length (cache_list c) - 1) (cache_list c))" by auto
qed

lemma list_bytes_butlast: "list_bytes xs = list_bytes (butlast xs) + list_bytes (drop (length xs - 1) xs)"
proof -
  have "xs = butlast xs @ drop (length xs - 1) xs" by (simp add: butlast_conv_take)
  then show ?thesis unfolding list_bytes_def by (metis map_append sum_list_append)
qed

lemma wasted_removeOldest: "cache_ok c \<Longrightarrow> wasted (cache_removeOldest c) = wasted c"
  using list_bytes_butlast [of "cache_list c"] by (simp add: wasted_def cache_removeOldest_list)

lemma wasted_le: "wasted c \<le> nbytes c"
  using list_bytes_pos [of "cache_list c"] by (simp add: wasted_def)

lemma list_bytes_delete:
  "distinct (map fst xs) \<Longrightarrow>
   list_bytes (AList.delete k xs) = list_bytes xs - (case map_of xs k of None \<Rightarrow> 0 | Some v \<Rightarrow> entry_bytes k v)"
proof (induction xs)
  case (Cons x xs)
  show ?case
  proof (cases "fst x = k")
    case True
    then have "k \<notin> fst ` set xs" using Cons.prems by auto
    then show ?thesis using True by (cases x) (simp add: list_bytes_def)
  next
    case False
    then show ?thesis using Cons by (cases x) (simp add: list_bytes_def)
  qed
qed (simp add: list_bytes_def)

text \<open>Adding a key again counts its old entry for good.\<close>

lemma wasted_add:
  "cache_ok c \<Longrightarrow>
   wasted (cache_add k v c) = wasted c + (case map_of (cache_list c) k of None \<Rightarrow> 0 | Some w \<Rightarrow> entry_bytes k w)"
  using list_bytes_delete [OF cache_ok_distinct, of c k]
  by (simp add: wasted_def cache_add_list) (simp add: list_bytes_def split: option.split)

lemma wasted_get: "cache_ok c \<Longrightarrow> wasted (snd (cache_get k c)) = wasted c"
  using list_bytes_delete [OF cache_ok_distinct, of c k]
  by (simp add: wasted_def cache_get_list r_get_def) (simp add: list_bytes_def split: option.split)

section \<open>The two caches\<close>

datatype which = Main | Hot

record caches =
  mainCache :: cache
  hotCache :: cache

definition cache_of :: "which \<Rightarrow> caches \<Rightarrow> cache" where
  "cache_of w cs = (case w of Main \<Rightarrow> mainCache cs | Hot \<Rightarrow> hotCache cs)"

definition on_cache :: "which \<Rightarrow> (cache \<Rightarrow> cache) \<Rightarrow> caches \<Rightarrow> caches" where
  "on_cache w f cs = (case w of Main \<Rightarrow> cs\<lparr>mainCache := f (mainCache cs)\<rparr> | Hot \<Rightarrow> cs\<lparr>hotCache := f (hotCache cs)\<rparr>)"

definition no_caches :: caches where "no_caches = \<lparr>mainCache = no_cache, hotCache = no_cache\<rparr>"

definition get_in :: "which \<Rightarrow> byte list \<Rightarrow> caches \<Rightarrow> ByteView option \<times> caches" where
  "get_in w k cs = (case cache_get k (cache_of w cs) of (r, c) \<Rightarrow> (r, on_cache w (\<lambda>_. c) cs))"

definition lookupCache :: "int \<Rightarrow> byte list \<Rightarrow> caches \<Rightarrow> ByteView option \<times> caches" where
  "lookupCache cacheBytes k cs =
     (if cacheBytes \<le> 0 then (None, cs)
      else case get_in Main k cs of (Some v, cs1) \<Rightarrow> (Some v, cs1) | (None, cs1) \<Rightarrow> get_in Hot k cs1)"

definition fits :: "int \<Rightarrow> int \<Rightarrow> int \<Rightarrow> bool" where
  "fits cacheBytes mainBytes hotBytes \<longleftrightarrow> mainBytes + hotBytes \<le> cacheBytes"

text \<open>Go's division truncates.\<close>

definition victim :: "int \<Rightarrow> int \<Rightarrow> which" where
  "victim mainBytes hotBytes = (if hotBytes > mainBytes sdiv 8 then Hot else Main)"

definition evict_round :: "caches \<Rightarrow> caches" where
  "evict_round cs = on_cache (victim (cache_bytes (mainCache cs)) (cache_bytes (hotCache cs))) cache_removeOldest cs"

definition evict_loop :: "int \<Rightarrow> caches \<Rightarrow> caches option" where
  "evict_loop cacheBytes cs =
     while_option (\<lambda>cs. \<not> fits cacheBytes (cache_bytes (mainCache cs)) (cache_bytes (hotCache cs))) evict_round cs"

definition populateCache :: "int \<Rightarrow> byte list \<Rightarrow> ByteView \<Rightarrow> which \<Rightarrow> caches \<Rightarrow> caches option" where
  "populateCache cacheBytes k v w cs =
     (if cacheBytes \<le> 0 then Some cs else evict_loop cacheBytes (on_cache w (cache_add k v) cs))"

definition caches_ok :: "caches \<Rightarrow> bool" where
  "caches_ok cs \<longleftrightarrow> cache_ok (mainCache cs) \<and> cache_ok (hotCache cs)"

text \<open>The counters are exact.\<close>

definition exact :: "caches \<Rightarrow> bool" where
  "exact cs \<longleftrightarrow> wasted (mainCache cs) = 0 \<and> wasted (hotCache cs) = 0"

lemma cache_of_on [simp]: "cache_of w (on_cache x f cs) = (if w = x then f (cache_of w cs) else cache_of w cs)"
  by (simp add: cache_of_def on_cache_def split: which.split)

lemma caches_ok_iff: "caches_ok cs \<longleftrightarrow> (\<forall>w. cache_ok (cache_of w cs))"
  unfolding caches_ok_def cache_of_def by (metis which.exhaust which.simps(3,4))

lemma exact_iff: "exact cs \<longleftrightarrow> (\<forall>w. wasted (cache_of w cs) = 0)"
  unfolding exact_def cache_of_def by (metis which.exhaust which.simps(3,4))

lemma cache_of_cases: "mainCache cs = cache_of Main cs" "hotCache cs = cache_of Hot cs"
  by (simp_all add: cache_of_def)

section \<open>Eviction ends\<close>

lemma exact_bytes: "exact cs \<Longrightarrow> nbytes (cache_of w cs) = list_bytes (cache_list (cache_of w cs))"
  by (simp add: exact_iff wasted_def)

text \<open>With exact counters the victim is never an empty cache.\<close>

lemma victim_nonempty:
  assumes n: "0 < n" and e: "exact cs" and o: "\<not> fits n (nbytes (mainCache cs)) (nbytes (hotCache cs))"
  shows "cache_list (cache_of (victim (nbytes (mainCache cs)) (nbytes (hotCache cs))) cs) \<noteq> []"
proof -
  let ?m = "nbytes (mainCache cs)" and ?h = "nbytes (hotCache cs)"
  have p: "0 \<le> ?m" "0 \<le> ?h" using exact_bytes [OF e] list_bytes_pos by (simp_all add: cache_of_cases)
  then have d: "0 \<le> ?m sdiv 8" "?m = 0 \<Longrightarrow> ?m sdiv 8 = 0" by (simp_all add: signed_divide_int_def sgn_if)
  have "0 < nbytes (cache_of (victim ?m ?h) cs)"
    using p d n o by (cases "?m = 0") (auto simp: victim_def fits_def cache_of_def)
  then show ?thesis using exact_bytes [OF e] by (auto simp: list_bytes_def)
qed

text \<open>Eviction leaves a front part of each list.\<close>

definition front_of :: "caches \<Rightarrow> caches \<Rightarrow> bool" where
  "front_of cs0 cs \<longleftrightarrow> (\<forall>w. prefix (cache_list (cache_of w cs)) (cache_list (cache_of w cs0)))"

lemma front_of_trans: "front_of a b \<Longrightarrow> front_of b c \<Longrightarrow> front_of a c"
  unfolding front_of_def using prefix_order.trans by blast

lemma evict_round_inv:
  assumes ok: "caches_ok cs"
  shows "caches_ok (evict_round cs)" and "exact cs \<Longrightarrow> exact (evict_round cs)" and "front_of cs (evict_round cs)"
  using ok by (auto simp: evict_round_def caches_ok_iff exact_iff front_of_def cache_removeOldest_list wasted_removeOldest prefixeq_butlast)

lemma evict_loop_ends:
  assumes n: "0 < n" and ok: "caches_ok cs" and e: "exact cs"
  shows "\<exists>cs'. evict_loop n cs = Some cs' \<and> caches_ok cs' \<and> exact cs' \<and> front_of cs cs' \<and>
    fits n (nbytes (mainCache cs')) (nbytes (hotCache cs'))"
proof -
  let ?P = "\<lambda>cs'. caches_ok cs' \<and> exact cs' \<and> front_of cs cs'"
  let ?b = "\<lambda>cs. \<not> fits n (cache_bytes (mainCache cs)) (cache_bytes (hotCache cs))"
  let ?f = "\<lambda>cs. length (cache_list (mainCache cs)) + length (cache_list (hotCache cs))"
  have step: "?P (evict_round s) \<and> ?f (evict_round s) < ?f s" if "?P s" "?b s" for s
  proof -
    let ?w = "victim (nbytes (mainCache s)) (nbytes (hotCache s))"
    have ne: "cache_list (cache_of ?w s) \<noteq> []" using victim_nonempty [OF n] that by (simp add: cache_bytes_def)
    have "cache_ok (cache_of ?w s)" using that by (simp add: caches_ok_iff)
    then have "length (cache_list (cache_removeOldest (cache_of ?w s))) < length (cache_list (cache_of ?w s))"
      using ne by (simp add: cache_removeOldest_list)
    then have "?f (evict_round s) < ?f s" by (cases ?w) (simp_all add: evict_round_def cache_bytes_def cache_of_def on_cache_def)
    then show ?thesis using evict_round_inv that front_of_trans by blast
  qed
  have P: "?P cs" using ok e by (simp add: front_of_def)
  obtain cs' where c: "evict_loop n cs = Some cs'"
    using measure_while_option_Some [of ?P ?b evict_round ?f cs, OF step P] by (auto simp: evict_loop_def)
  have "?P cs'" using while_option_rule [of ?P ?b evict_round cs cs'] step P c by (simp add: evict_loop_def)
  moreover have "\<not> ?b cs'" using while_option_stop c by (fastforce simp: evict_loop_def)
  ultimately show ?thesis using c by (auto simp: cache_bytes_def)
qed

lemma get_in_cache:
  assumes "caches_ok cs"
  shows "fst (get_in w k cs) = map_of (cache_list (cache_of w cs)) k" and "caches_ok (snd (get_in w k cs))"
    and "wasted (cache_of x (snd (get_in w k cs))) = wasted (cache_of x cs)"
    and "nbytes (cache_of x (snd (get_in w k cs))) = nbytes (cache_of x cs)"
    and "set (cache_list (cache_of x (snd (get_in w k cs)))) \<subseteq> set (cache_list (cache_of x cs))"
    and "map_of (cache_list (cache_of x (snd (get_in w k cs)))) j = map_of (cache_list (cache_of x cs)) j"
proof -
  have g: "snd (get_in w k cs) = on_cache w (\<lambda>_. snd (cache_get k (cache_of w cs))) cs"
    by (simp add: get_in_def split: prod.splits)
  have o: "cache_ok (cache_of w cs)" for w using assms by (simp add: caches_ok_iff)
  show "fst (get_in w k cs) = map_of (cache_list (cache_of w cs)) k"
    using cache_get_list(1) [OF o, of k w] by (simp add: get_in_def case_prod_beta)
  show "caches_ok (snd (get_in w k cs))" using cache_get_list [OF o] o by (simp add: g caches_ok_iff)
  show "wasted (cache_of x (snd (get_in w k cs))) = wasted (cache_of x cs)" using wasted_get [OF o] by (simp add: g)
  show "nbytes (cache_of x (snd (get_in w k cs))) = nbytes (cache_of x cs)" using cache_get_list [OF o] by (simp add: g)
  show "set (cache_list (cache_of x (snd (get_in w k cs)))) \<subseteq> set (cache_list (cache_of x cs))"
    using cache_get_list(3) [OF o, of k w] by (auto simp: g r_get_def set_delete dest: map_of_SomeD split: option.splits)
  show "map_of (cache_list (cache_of x (snd (get_in w k cs)))) j = map_of (cache_list (cache_of x cs)) j"
    using cache_get_list(3) [OF o, of k w] by (auto simp: g r_get_def map_of_delete_eq split: option.splits)
qed

text \<open>C15. \<open>populateCache\<close> returns when the lookup before it missed the key and the counters are exact: its
  loop ends, the counters are exact afterwards and within \<open>cacheBytes\<close>, and only the entries that were
  not used for longest are gone.\<close>

theorem populate_after_miss_returns:
  assumes ok: "caches_ok cs" and e: "exact cs" and n: "0 < cacheBytes" and l: "lookupCache cacheBytes k cs = (None, cs1)"
  shows "\<exists>cs2. populateCache cacheBytes k v w cs1 = Some cs2 \<and> caches_ok cs2 \<and> exact cs2 \<and>
    nbytes (mainCache cs2) + nbytes (hotCache cs2) \<le> cacheBytes \<and> front_of (on_cache w (cache_add k v) cs1) cs2"
proof -
  obtain m where m: "get_in Main k cs = (None, m)" "get_in Hot k m = (None, cs1)"
    using l n by (auto simp: lookupCache_def split: prod.splits option.splits)
  note gm = get_in_cache [OF ok, where w = Main and k = k, unfolded m(1) fst_conv snd_conv]
  note gh = get_in_cache [OF gm(2), where w = Hot and k = k, unfolded m(2) fst_conv snd_conv]
  have none: "map_of (cache_list (cache_of x cs1)) k = None" for x
    using gm(1) gh(1) gm(6) gh(6) by (cases x) metis+
  have w1: "wasted (cache_of x cs1) = 0" for x using e gm(3) gh(3) by (simp add: exact_iff)
  have o1: "cache_ok (cache_of x cs1)" for x using gh(2) by (simp add: caches_ok_iff)
  let ?a = "on_cache w (cache_add k v) cs1"
  have "caches_ok ?a" using o1 cache_add_list(1) [OF o1] by (simp add: caches_ok_iff)
  moreover have "exact ?a" using wasted_add [OF o1] w1 none by (simp add: exact_iff)
  ultimately show ?thesis using evict_loop_ends [OF n, of ?a] n by (auto simp: populateCache_def fits_def)
qed

theorem populate_after_miss_returns_witness:
  "\<exists>cs2. populateCache 10 [97] (of_str [1, 2]) Main (snd (lookupCache 10 [97] no_caches)) = Some cs2 \<and>
     nbytes (mainCache cs2) + nbytes (hotCache cs2) \<le> 10"
proof -
  have l: "lookupCache 10 [97] no_caches = (None, snd (lookupCache 10 [97] no_caches))"
    by (simp add: lookupCache_def get_in_def cache_get_def cache_of_def on_cache_def no_cache_def no_caches_def)
  have "caches_ok no_caches" "exact no_caches" by (simp_all add: caches_ok_def exact_def no_caches_def no_cache_ok)
  from populate_after_miss_returns [OF this _ l, of "of_str [1, 2]" Main] show ?thesis by auto
qed

section \<open>Eviction that does not end\<close>

text \<open>What the counter of the hot cache is too high by is never evicted. Once it is more than an eighth
  of the main cache, and together with the main cache more than \<open>cacheBytes\<close>, the loop chooses the hot
  cache even when it is empty, and \<open>populateCache\<close> does not return.\<close>

theorem wasted_bytes_hang:
  assumes n: "0 < cacheBytes" and ok: "caches_ok cs" and a: "cs1 = on_cache w (cache_add k v) cs"
    and h: "nbytes (mainCache cs1) sdiv 8 < wasted (hotCache cs1)" "cacheBytes < nbytes (mainCache cs1) + wasted (hotCache cs1)"
  shows "populateCache cacheBytes k v w cs = None"
proof (rule ccontr)
  have o: "cache_ok (cache_of x cs)" for x using ok by (simp add: caches_ok_iff)
  then have ok1: "cache_ok (hotCache cs1)"
    using cache_add_list(1) [OF o] unfolding a cache_of_cases by simp
  assume "populateCache cacheBytes k v w cs \<noteq> None"
  then obtain cs' where c: "evict_loop cacheBytes cs1 = Some cs'" using n a by (auto simp: populateCache_def)
  let ?P = "\<lambda>s. cache_ok (hotCache s) \<and> mainCache s = mainCache cs1 \<and> wasted (hotCache s) = wasted (hotCache cs1)"
  have "?P (evict_round s)" if "?P s" for s
  proof -
    have "victim (nbytes (mainCache s)) (nbytes (hotCache s)) = Hot"
      using that h(1) wasted_le [of "hotCache s"] by (simp add: victim_def)
    then show ?thesis using that by (simp add: evict_round_def cache_bytes_def on_cache_def cache_removeOldest_list wasted_removeOldest)
  qed
  then have "?P cs'" using while_option_rule [of ?P _ evict_round cs1 cs'] c ok1 by (simp add: evict_loop_def)
  moreover have "fits cacheBytes (nbytes (mainCache cs')) (nbytes (hotCache cs'))"
    using while_option_stop c by (fastforce simp: evict_loop_def cache_bytes_def)
  ultimately show False using h(2) wasted_le [of "hotCache cs'"] by (simp add: fits_def)
qed

text \<open>The hot cache after the same key was added twice.\<close>

definition twice :: caches where
  "twice = on_cache Hot (cache_add [97] (of_str [1, 2, 3, 4])) (on_cache Hot (cache_add [97] (of_str [1, 2, 3, 4])) no_caches)"

theorem wasted_bytes_hang_witness:
  "populateCache 10 [98, 99] (of_str [1, 2, 3, 4]) Main twice = None"
proof -
  have ok: "caches_ok twice" using cache_add_list(1) no_cache_ok(1)
    by (simp add: twice_def caches_ok_def no_caches_def on_cache_def)
  let ?c = "on_cache Main (cache_add [98, 99] (of_str [1, 2, 3, 4])) twice"
  have "nbytes (mainCache ?c) sdiv 8 < wasted (hotCache ?c)" by code_simp
  moreover have "10 < nbytes (mainCache ?c) + wasted (hotCache ?c)" by code_simp
  ultimately show ?thesis using wasted_bytes_hang [OF _ ok refl, of 10 Main "[98, 99]" "of_str [1, 2, 3, 4]"] by simp
qed

section \<open>What the group relies on\<close>

text \<open>A store of values: finding answers with an entry that it has, and no operation makes up an entry.\<close>

locale value_store =
  fixes valid :: "'c \<Rightarrow> bool"
    and entries :: "'c \<Rightarrow> ('k \<times> 'v) set"
    and find :: "'k \<Rightarrow> 'c \<Rightarrow> 'v option \<times> 'c"
    and put :: "'k \<Rightarrow> 'v \<Rightarrow> 'c \<Rightarrow> 'c"
    and shrink :: "'c \<Rightarrow> 'c"
  assumes find_valid: "valid c \<Longrightarrow> valid (snd (find k c))"
    and find_entry: "valid c \<Longrightarrow> fst (find k c) = Some v \<Longrightarrow> (k, v) \<in> entries c"
    and find_entries: "valid c \<Longrightarrow> entries (snd (find k c)) \<subseteq> entries c"
    and put_valid: "valid c \<Longrightarrow> valid (put k v c)"
    and put_entries: "valid c \<Longrightarrow> entries (put k v c) \<subseteq> insert (k, v) (entries c)"
    and shrink_valid: "valid c \<Longrightarrow> valid (shrink c)"
    and shrink_entries: "valid c \<Longrightarrow> entries (shrink c) \<subseteq> entries c"
begin

lemma find_keeps: "valid c \<and> entries c \<subseteq> E \<Longrightarrow> valid (snd (find k c)) \<and> entries (snd (find k c)) \<subseteq> E"
  using find_valid find_entries by blast

lemma find_from: "valid c \<and> entries c \<subseteq> E \<Longrightarrow> fst (find k c) = Some v \<Longrightarrow> (k, v) \<in> E"
  using find_entry by blast

lemma put_keeps: "valid c \<and> entries c \<subseteq> E \<Longrightarrow> (k, v) \<in> E \<Longrightarrow> valid (put k v c) \<and> entries (put k v c) \<subseteq> E"
  using put_valid put_entries by blast

lemma shrink_keeps: "valid c \<and> entries c \<subseteq> E \<Longrightarrow> valid (shrink c) \<and> entries (shrink c) \<subseteq> E"
  using shrink_valid shrink_entries by blast

end

interpretation gc: value_store cache_ok "\<lambda>c. set (cache_list c)" cache_get cache_add cache_removeOldest
proof
  fix c k v assume ok: "cache_ok c"
  show "cache_ok (snd (cache_get k c))" "cache_ok (cache_add k v c)" "cache_ok (cache_removeOldest c)"
    using cache_get_list(2) cache_add_list(1) cache_removeOldest_list(1) ok by auto
  show "fst (cache_get k c) = Some v \<Longrightarrow> (k, v) \<in> set (cache_list c)"
    using cache_get_list(1) [OF ok] by (simp add: map_of_SomeD)
  show "set (cache_list (snd (cache_get k c))) \<subseteq> set (cache_list c)"
    using cache_get_list(3) [OF ok, of k] by (auto simp: r_get_def set_delete dest: map_of_SomeD split: option.splits)
  show "set (cache_list (cache_add k v c)) \<subseteq> insert (k, v) (set (cache_list c))"
    using cache_add_list(2) [OF ok] by (auto simp: set_delete)
  show "set (cache_list (cache_removeOldest c)) \<subseteq> set (cache_list c)"
    using cache_removeOldest_list(2) [OF ok] by (auto dest: in_set_butlastD)
qed

text \<open>The entries of both caches are among \<open>E\<close>.\<close>

definition holds_only :: "(byte list \<times> ByteView) set \<Rightarrow> caches \<Rightarrow> bool" where
  "holds_only E cs \<longleftrightarrow> (\<forall>w. cache_ok (cache_of w cs) \<and> set (cache_list (cache_of w cs)) \<subseteq> E)"

lemma holds_only_new: "holds_only E no_caches"
  using no_cache_ok by (simp add: holds_only_def cache_of_def no_caches_def split: which.split)

lemma holds_only_get:
  assumes "holds_only E cs" and "get_in w k cs = (r, cs1)"
  shows "holds_only E cs1" and "r = Some v \<Longrightarrow> (k, v) \<in> E"
proof -
  have g: "cs1 = on_cache w (\<lambda>_. snd (cache_get k (cache_of w cs))) cs" "r = fst (cache_get k (cache_of w cs))"
    using assms(2) by (auto simp: get_in_def split: prod.splits)
  show "holds_only E cs1" using assms(1) gc.find_keeps [of "cache_of w cs" E k] by (simp add: g holds_only_def)
  show "r = Some v \<Longrightarrow> (k, v) \<in> E" using assms(1) gc.find_from [of "cache_of w cs" E k v] by (simp add: g holds_only_def)
qed

lemma holds_only_add: "holds_only E cs \<Longrightarrow> (k, v) \<in> E \<Longrightarrow> holds_only E (on_cache w (cache_add k v) cs)"
  using gc.put_keeps [of "cache_of w cs" E k v] by (simp add: holds_only_def)

lemma holds_only_removeOldest: "holds_only E cs \<Longrightarrow> holds_only E (on_cache w cache_removeOldest cs)"
  using gc.shrink_keeps [of "cache_of w cs" E] by (simp add: holds_only_def)

end
