(* ===== verification/GcGroup.thy ===== *)
theory GcGroup
  imports GcCache
begin

text \<open>
  \<open>golang/groupcache/groupcache.go\<close> and \<open>singleflight/singleflight.go\<close>: any number of goroutines that call
  \<open>Group.Get\<close> on one group. A goroutine moves by single steps between its accesses to what is shared
  (the two caches and the map of calls, each under its lock), so a run is a list of actions, and a theorem
  about all runs is one about all schedules. The getter, the choice of a peer and the answer of a peer are
  in the \<open>env\<close> of the step that runs the loading function.
\<close>

section \<open>The environment\<close>

text \<open>What a getter does with its sink; one that does not set it fails.\<close>

datatype 'm set_call = Set_string "byte list" | Set_bytes "byte list" | Set_proto 'm

fun do_set :: "'m proto \<Rightarrow> 'm set_call \<Rightarrow> 'm sink \<Rightarrow> bool \<times> 'm sink" where
  "do_set pr (Set_string s) d = SetString pr s d"
| "do_set pr (Set_bytes b) d = SetBytes pr b d"
| "do_set pr (Set_proto m) d = SetProto pr m d"

text \<open>\<open>ask_peer k\<close>: no peer owns \<open>k\<close>, or its answer, which may be an error; \<open>rand10\<close> is \<open>rand.Intn(10)\<close>.\<close>

record 'm env =
  ask_peer :: "byte list \<Rightarrow> byte list option option"
  getter :: "byte list \<Rightarrow> 'm set_call option"
  rand10 :: nat

section \<open>The group\<close>

type_synonym cid = nat
type_synonym tid = nat

datatype group_error = Nil_dest | Getter_failed | Set_failed

text \<open>\<open>singleflight\<close>'s \<open>call\<close>; the result is there once \<open>wg.Done\<close> was called. Its key is kept for the proofs.\<close>

record call =
  c_key :: "byte list"
  c_result :: "(group_error + ByteView) option"

record Stats =
  sGets :: int
  sCacheHits :: int
  sPeerLoads :: int
  sPeerErrors :: int
  sLoads :: int
  sLoadsDeduped :: int
  sLocalLoads :: int
  sLocalLoadErrs :: int

datatype stage = Reading | Read_main int | Read_both int int

text \<open>Where a goroutine is: in \<open>lookupCache\<close>, before \<open>loadGroup.Do\<close>, in the function that loads (with the
  call it created), in the loop of \<open>populateCache\<close>, between the function's return and \<open>wg.Done\<close>, between
  that and the removal of the call, waiting for another's call, or back.\<close>

datatype phase =
    Looking_main | Looking_hot | Loading
  | Leading cid
  | Evicting cid ByteView bool stage
  | Ran cid "group_error + ByteView" bool
  | Unlisting cid "group_error + ByteView" bool
  | Waiting cid
  | Returned "group_error option"
  | Panicked

text \<open>\<open>t_dest0\<close> is the destination as it was passed, for the proofs.\<close>

record 'm thread =
  t_key :: "byte list"
  t_dest :: "'m sink"
  t_dest0 :: "'m sink"
  t_phase :: phase

record 'm group =
  cacheBytes :: int
  g_caches :: caches
  calls :: "cid \<Rightarrow> call"
  loading :: "byte list \<Rightarrow> cid option"
  next_call :: cid
  stats :: Stats
  threads :: "tid \<Rightarrow> 'm thread option"

definition new_group :: "int \<Rightarrow> 'm group" where
  "new_group n = \<lparr>cacheBytes = n, g_caches = no_caches, calls = (\<lambda>_. \<lparr>c_key = [], c_result = None\<rparr>), loading = Map.empty, next_call = 0,
     stats = \<lparr>sGets = 0, sCacheHits = 0, sPeerLoads = 0, sPeerErrors = 0, sLoads = 0, sLoadsDeduped = 0, sLocalLoads = 0, sLocalLoadErrs = 0\<rparr>,
     threads = Map.empty\<rparr>"

section \<open>Steps\<close>

text \<open>A goroutine's record after a step.\<close>

definition put_thread :: "tid \<Rightarrow> 'm thread \<Rightarrow> 'm group \<Rightarrow> 'm group" where
  "put_thread t th g = g\<lparr>threads := (threads g)(t \<mapsto> th)\<rparr>"

definition count :: "(Stats \<Rightarrow> Stats) \<Rightarrow> 'm group \<Rightarrow> 'm group" where
  "count f g = g\<lparr>stats := f (stats g)\<rparr>"

text \<open>\<open>Get\<close> up to its look into the caches; a nil destination is an error.\<close>

definition begin_get :: "tid \<Rightarrow> byte list \<Rightarrow> 'm sink \<Rightarrow> 'm group \<Rightarrow> 'm group" where
  "begin_get t k d g = count (\<lambda>s. s\<lparr>sGets := sGets s + 1\<rparr>)
     (put_thread t \<lparr>t_key = k, t_dest = d, t_dest0 = d, t_phase = (if cacheBytes g \<le> 0 then Loading else Looking_main)\<rparr> g)"

text \<open>\<open>return setSinkView(dest, value)\<close>.\<close>

definition give :: "'m proto \<Rightarrow> ByteView \<Rightarrow> 'm thread \<Rightarrow> 'm thread" where
  "give pr v th =
     (case setSinkView pr v (t_dest th) of
        None \<Rightarrow> th\<lparr>t_phase := Panicked\<rparr>
      | Some (ok, d) \<Rightarrow> th\<lparr>t_dest := d, t_phase := Returned (if ok then None else Some Set_failed)\<rparr>)"

text \<open>The end of \<open>Get\<close> with the results of \<open>load\<close>.\<close>

definition after_load :: "'m proto \<Rightarrow> group_error + ByteView \<Rightarrow> bool \<Rightarrow> 'm thread \<Rightarrow> 'm thread" where
  "after_load pr r destPopulated th =
     (case r of
        Inl e \<Rightarrow> th\<lparr>t_phase := Returned (Some e)\<rparr>
      | Inr v \<Rightarrow> if destPopulated then th\<lparr>t_phase := Returned None\<rparr> else give pr v th)"

definition found :: "'m proto \<Rightarrow> ByteView option \<Rightarrow> phase \<Rightarrow> tid \<Rightarrow> 'm thread \<Rightarrow> 'm group \<Rightarrow> 'm group" where
  "found pr r p t th g =
     (case r of
        Some v \<Rightarrow> count (\<lambda>s. s\<lparr>sCacheHits := sCacheHits s + 1\<rparr>) (put_thread t (give pr v th) g)
      | None \<Rightarrow> put_thread t (th\<lparr>t_phase := p\<rparr>) g)"

definition look :: "'m proto \<Rightarrow> which \<Rightarrow> phase \<Rightarrow> tid \<Rightarrow> 'm thread \<Rightarrow> 'm group \<Rightarrow> 'm group" where
  "look pr w p t th g = (case get_in w (t_key th) (g_caches g) of (r, cs) \<Rightarrow> found pr r p t th (g\<lparr>g_caches := cs\<rparr>))"

text \<open>\<open>loadGroup.Do\<close> up to the wait or the call of the function.\<close>

definition enter_Do :: "tid \<Rightarrow> 'm thread \<Rightarrow> 'm group \<Rightarrow> 'm group" where
  "enter_Do t th g0 =
     (let g = count (\<lambda>s. s\<lparr>sLoads := sLoads s + 1\<rparr>) g0 in
      case loading g (t_key th) of
        Some c \<Rightarrow> put_thread t (th\<lparr>t_phase := Waiting c\<rparr>) g
      | None \<Rightarrow>
          put_thread t (th\<lparr>t_phase := Leading (next_call g)\<rparr>)
            (g\<lparr>calls := (calls g)(next_call g := \<lparr>c_key = t_key th, c_result = None\<rparr>),
               loading := (loading g)(t_key th \<mapsto> next_call g), next_call := next_call g + 1\<rparr>))"

text \<open>\<open>populateCache\<close> up to its loop; without a cache the loading function is done.\<close>

definition populate :: "cid \<Rightarrow> ByteView \<Rightarrow> which \<Rightarrow> bool \<Rightarrow> tid \<Rightarrow> 'm thread \<Rightarrow> 'm group \<Rightarrow> 'm group" where
  "populate c v w destPopulated t th g =
     (if cacheBytes g \<le> 0 then put_thread t (th\<lparr>t_phase := Ran c (Inr v) destPopulated\<rparr>) g
      else put_thread t (th\<lparr>t_phase := Evicting c v destPopulated Reading\<rparr>)
             (g\<lparr>g_caches := on_cache w (cache_add (t_key th) v) (g_caches g)\<rparr>))"

definition fetched_from_peer :: "bool \<Rightarrow> 'm group \<Rightarrow> 'm group" where
  "fetched_from_peer destPopulated g = (if destPopulated then g else count (\<lambda>s. s\<lparr>sPeerLoads := sPeerLoads s + 1\<rparr>) g)"

definition getLocally :: "'m proto \<Rightarrow> 'm env \<Rightarrow> byte list \<Rightarrow> 'm sink \<Rightarrow> (group_error + ByteView) \<times> 'm sink" where
  "getLocally pr env k d =
     (case getter env k of
        None \<Rightarrow> (Inl Getter_failed, d)
      | Some s \<Rightarrow> (case do_set pr s d of (ok, d1) \<Rightarrow> (if ok then Inr (sink_view d1) else Inl Set_failed, d1)))"

definition load_locally :: "'m proto \<Rightarrow> 'm env \<Rightarrow> cid \<Rightarrow> tid \<Rightarrow> 'm thread \<Rightarrow> 'm group \<Rightarrow> 'm group" where
  "load_locally pr env c t th g =
     (case getLocally pr env (t_key th) (t_dest th) of
        (Inl e, d) \<Rightarrow> count (\<lambda>s. s\<lparr>sLocalLoadErrs := sLocalLoadErrs s + 1\<rparr>) (put_thread t (th\<lparr>t_dest := d, t_phase := Ran c (Inl e) False\<rparr>) g)
      | (Inr v, d) \<Rightarrow> populate c v Main True t (th\<lparr>t_dest := d\<rparr>) (count (\<lambda>s. s\<lparr>sLocalLoads := sLocalLoads s + 1\<rparr>) g))"

text \<open>The function that \<open>load\<close> hands to \<open>loadGroup.Do\<close>, up to the loop of \<open>populateCache\<close>.\<close>

definition run_load :: "'m proto \<Rightarrow> 'm env \<Rightarrow> cid \<Rightarrow> tid \<Rightarrow> 'm thread \<Rightarrow> 'm group \<Rightarrow> 'm group" where
  "run_load pr env c t th g0 =
     (let g = count (\<lambda>s. s\<lparr>sLoadsDeduped := sLoadsDeduped s + 1\<rparr>) g0 in
      case ask_peer env (t_key th) of
        None \<Rightarrow> load_locally pr env c t th g
      | Some None \<Rightarrow> load_locally pr env c t th (count (\<lambda>s. s\<lparr>sPeerErrors := sPeerErrors s + 1\<rparr>) g)
      | Some (Some b) \<Rightarrow>
          if rand10 env = 0 then
            (if cacheBytes g \<le> 0 then fetched_from_peer False else id) (populate c (of_bytes b) Hot False t th g)
          else fetched_from_peer False (put_thread t (th\<lparr>t_phase := Ran c (Inr (of_bytes b)) False\<rparr>) g))"

definition evict_step :: "cid \<Rightarrow> ByteView \<Rightarrow> bool \<Rightarrow> stage \<Rightarrow> tid \<Rightarrow> 'm thread \<Rightarrow> 'm group \<Rightarrow> 'm group" where
  "evict_step c v p st t th g =
     (case st of
        Reading \<Rightarrow> put_thread t (th\<lparr>t_phase := Evicting c v p (Read_main (cache_bytes (mainCache (g_caches g))))\<rparr>) g
      | Read_main m \<Rightarrow>
          let h = cache_bytes (hotCache (g_caches g)) in
          if fits (cacheBytes g) m h then fetched_from_peer p (put_thread t (th\<lparr>t_phase := Ran c (Inr v) p\<rparr>) g)
          else put_thread t (th\<lparr>t_phase := Evicting c v p (Read_both m h)\<rparr>) g
      | Read_both m h \<Rightarrow>
          put_thread t (th\<lparr>t_phase := Evicting c v p Reading\<rparr>)
            (g\<lparr>g_caches := on_cache (victim m h) cache_removeOldest (g_caches g)\<rparr>))"

text \<open>One step of a goroutine; \<open>None\<close>: it is blocked or done.\<close>

definition step_thread :: "'m proto \<Rightarrow> 'm env \<Rightarrow> tid \<Rightarrow> 'm thread \<Rightarrow> 'm group \<Rightarrow> 'm group option" where
  "step_thread pr env t th g =
     (case t_phase th of
        Looking_main \<Rightarrow> Some (look pr Main Looking_hot t th g)
      | Looking_hot \<Rightarrow> Some (look pr Hot Loading t th g)
      | Loading \<Rightarrow> Some (enter_Do t th g)
      | Leading c \<Rightarrow> Some (run_load pr env c t th g)
      | Evicting c v p st \<Rightarrow> Some (evict_step c v p st t th g)
      | Ran c r p \<Rightarrow> Some (put_thread t (th\<lparr>t_phase := Unlisting c r p\<rparr>) (g\<lparr>calls := (calls g)(c := (calls g c)\<lparr>c_result := Some r\<rparr>)\<rparr>))
      | Unlisting c r p \<Rightarrow> Some (put_thread t (after_load pr r p th) (g\<lparr>loading := (loading g)(t_key th := None)\<rparr>))
      | Waiting c \<Rightarrow> (case c_result (calls g c) of None \<Rightarrow> None | Some r \<Rightarrow> Some (put_thread t (after_load pr r False th) g))
      | Returned _ \<Rightarrow> None
      | Panicked \<Rightarrow> None)"

text \<open>A goroutine calls \<open>Get\<close> (once), with a nil destination, or moves on.\<close>

datatype 'm action = Begin tid "byte list" "'m sink option" | Move tid "'m env"

definition gexec :: "'m proto \<Rightarrow> 'm action \<Rightarrow> 'm group \<Rightarrow> 'm group option" where
  "gexec pr a g =
     (case a of
        Begin t k None \<Rightarrow> Some (count (\<lambda>s. s\<lparr>sGets := sGets s + 1\<rparr>) g)
      | Begin t k (Some d) \<Rightarrow> if threads g t = None then Some (begin_get t k d g) else None
      | Move t env \<Rightarrow> (case threads g t of None \<Rightarrow> None | Some th \<Rightarrow> step_thread pr env t th g))"

fun grun :: "'m proto \<Rightarrow> 'm action list \<Rightarrow> 'm group \<Rightarrow> 'm group option" where
  "grun pr [] g = Some g"
| "grun pr (a # as) g = (case gexec pr a g of None \<Rightarrow> None | Some g1 \<Rightarrow> grun pr as g1)"

lemma grun_induct:
  assumes "grun pr as g = Some g1" and "P g" and "\<And>a g g1. a \<in> set as \<Longrightarrow> P g \<Longrightarrow> gexec pr a g = Some g1 \<Longrightarrow> P g1"
  shows "P g1"
  using assms
proof (induction as arbitrary: g)
  case (Cons a as)
  then obtain g2 where "gexec pr a g = Some g2" "grun pr as g2 = Some g1" by (auto split: option.splits)
  then show ?case using Cons.IH [of g2] Cons.prems by auto
qed simp

lemma group_fields [simp]:
  "threads (put_thread t th g) = (threads g)(t \<mapsto> th)" "g_caches (put_thread t th g) = g_caches g"
  "calls (put_thread t th g) = calls g" "loading (put_thread t th g) = loading g" "next_call (put_thread t th g) = next_call g"
  "cacheBytes (put_thread t th g) = cacheBytes g"
  "threads (count f g) = threads g" "g_caches (count f g) = g_caches g" "calls (count f g) = calls g"
  "loading (count f g) = loading g" "next_call (count f g) = next_call g" "cacheBytes (count f g) = cacheBytes g"
  by (simp_all add: put_thread_def count_def)

lemma fetched_fields [simp]:
  "threads (fetched_from_peer p g) = threads g" "g_caches (fetched_from_peer p g) = g_caches g" "calls (fetched_from_peer p g) = calls g"
  "loading (fetched_from_peer p g) = loading g" "next_call (fetched_from_peer p g) = next_call g"
  by (simp_all add: fetched_from_peer_def)

section \<open>One load at a time\<close>

text \<open>The call whose function a goroutine runs, until it is off the map.\<close>

definition in_call :: "phase \<Rightarrow> cid option" where
  "in_call p = (case p of Leading c \<Rightarrow> Some c | Evicting c _ _ _ \<Rightarrow> Some c | Ran c _ _ \<Rightarrow> Some c | Unlisting c _ _ \<Rightarrow> Some c | _ \<Rightarrow> None)"

definition unlisting :: "phase \<Rightarrow> bool" where
  "unlisting p = (case p of Unlisting _ _ _ \<Rightarrow> True | _ \<Rightarrow> False)"

lemma in_call_simps [simp]:
  "in_call (Leading c) = Some c" "in_call (Evicting c v b st) = Some c" "in_call (Ran c r b) = Some c" "in_call (Unlisting c r b) = Some c"
  "in_call Looking_main = None" "in_call Looking_hot = None" "in_call Loading = None" "in_call (Waiting c) = None"
  "in_call (Returned e) = None" "in_call Panicked = None"
  "unlisting (Unlisting c r b)" "\<not> unlisting (Leading c)" "\<not> unlisting (Evicting c v b st)" "\<not> unlisting (Ran c r b)"
  by (simp_all add: in_call_def unlisting_def)

lemma after_load_phase [simp]:
  "in_call (t_phase (give pr v th)) = None" "in_call (t_phase (after_load pr r b th)) = None"
  "t_phase (give pr v th) \<noteq> Waiting c" "t_phase (after_load pr r b th) \<noteq> Waiting c"
  "t_key (give pr v th) = t_key th" "t_key (after_load pr r b th) = t_key th"
  "t_dest0 (give pr v th) = t_dest0 th" "t_dest0 (after_load pr r b th) = t_dest0 th"
  by (auto simp: give_def after_load_def split: option.splits prod.splits sum.splits)

definition listed :: "'m group \<Rightarrow> bool" where
  "listed g \<longleftrightarrow>
     (\<forall>k c. loading g k = Some c \<longrightarrow> c < next_call g \<and> c_key (calls g c) = k) \<and>
     (\<forall>t th c. threads g t = Some th \<longrightarrow> in_call (t_phase th) = Some c \<longrightarrow> loading g (t_key th) = Some c) \<and>
     (\<forall>t u th uh c. threads g t = Some th \<longrightarrow> threads g u = Some uh \<longrightarrow>
        in_call (t_phase th) = Some c \<longrightarrow> in_call (t_phase uh) = Some c \<longrightarrow> t = u) \<and>
     (\<forall>t th c. threads g t = Some th \<longrightarrow> t_phase th = Waiting c \<longrightarrow> c < next_call g \<and> c_key (calls g c) = t_key th) \<and>
     (\<forall>c < next_call g. c_result (calls g c) = None \<longrightarrow>
        (\<exists>t th. threads g t = Some th \<and> in_call (t_phase th) = Some c \<and> \<not> unlisting (t_phase th)))"

lemma listed_new: "listed (new_group n)"
  by (simp add: listed_def new_group_def)

lemma listed_cong:
  "threads g1 = threads g \<Longrightarrow> calls g1 = calls g \<Longrightarrow> loading g1 = loading g \<Longrightarrow> next_call g1 = next_call g \<Longrightarrow> listed g1 = listed g"
  by (simp add: listed_def)

lemma listedD:
  assumes "listed g"
  shows "loading g k = Some c \<Longrightarrow> c < next_call g \<and> c_key (calls g c) = k"
    and "threads g t = Some th \<Longrightarrow> in_call (t_phase th) = Some c \<Longrightarrow> loading g (t_key th) = Some c"
    and "threads g t = Some th \<Longrightarrow> threads g u = Some uh \<Longrightarrow> in_call (t_phase th) = Some c \<Longrightarrow> in_call (t_phase uh) = Some c \<Longrightarrow> t = u"
    and "threads g t = Some th \<Longrightarrow> t_phase th = Waiting c \<Longrightarrow> c < next_call g \<and> c_key (calls g c) = t_key th"
    and "c < next_call g \<Longrightarrow> c_result (calls g c) = None \<Longrightarrow>
      \<exists>t th. threads g t = Some th \<and> in_call (t_phase th) = Some c \<and> \<not> unlisting (t_phase th)"
  using assms unfolding listed_def by blast+

lemma listedI:
  assumes "\<And>k c. loading g k = Some c \<Longrightarrow> c < next_call g \<and> c_key (calls g c) = k"
    and "\<And>t th c. threads g t = Some th \<Longrightarrow> in_call (t_phase th) = Some c \<Longrightarrow> loading g (t_key th) = Some c"
    and "\<And>t u th uh c. threads g t = Some th \<Longrightarrow> threads g u = Some uh \<Longrightarrow>
      in_call (t_phase th) = Some c \<Longrightarrow> in_call (t_phase uh) = Some c \<Longrightarrow> t = u"
    and "\<And>t th c. threads g t = Some th \<Longrightarrow> t_phase th = Waiting c \<Longrightarrow> c < next_call g \<and> c_key (calls g c) = t_key th"
    and "\<And>c. c < next_call g \<Longrightarrow> c_result (calls g c) = None \<Longrightarrow>
      \<exists>t th. threads g t = Some th \<and> in_call (t_phase th) = Some c \<and> \<not> unlisting (t_phase th)"
  shows "listed g"
  unfolding listed_def using assms by blast

text \<open>A step that stays in the call, or outside of one.\<close>

lemma listed_put:
  assumes g: "listed g" and k: "\<And>th0. threads g t = Some th0 \<Longrightarrow> t_key th1 = t_key th0"
    and c: "in_call (t_phase th1) = (case threads g t of None \<Rightarrow> None | Some th0 \<Rightarrow> in_call (t_phase th0))"
    and u: "in_call (t_phase th1) \<noteq> None \<Longrightarrow> \<not> unlisting (t_phase th1)"
    and w: "\<And>c. t_phase th1 = Waiting c \<Longrightarrow> c < next_call g \<and> c_key (calls g c) = t_key th1"
  shows "listed (put_thread t th1 g)"
proof -
  have old: "\<exists>th0. threads g s = Some th0 \<and> in_call (t_phase th0) = Some x \<and> t_key th0 = t_key th"
    if "((threads g)(t \<mapsto> th1)) s = Some th" "in_call (t_phase th) = Some x" for s th x
  proof (cases "s = t")
    case True
    then have "in_call (t_phase th1) = Some x" "th = th1" using that by simp_all
    then show ?thesis using c k True by (cases "threads g t") auto
  next
    case False
    then show ?thesis using that by simp
  qed
  show ?thesis
  proof (rule listedI, simp_all only: group_fields)
    fix j x assume "loading g j = Some x"
    then show "x < next_call g \<and> c_key (calls g x) = j" by (rule listedD(1) [OF g])
  next
    fix s th x assume a: "((threads g)(t \<mapsto> th1)) s = Some th" "in_call (t_phase th) = Some x"
    obtain th0 where "threads g s = Some th0" "in_call (t_phase th0) = Some x" "t_key th0 = t_key th" using old [OF a] by blast
    then show "loading g (t_key th) = Some x" using listedD(2) [OF g] by metis
  next
    fix s v th uh x assume a: "((threads g)(t \<mapsto> th1)) s = Some th" "((threads g)(t \<mapsto> th1)) v = Some uh"
      "in_call (t_phase th) = Some x" "in_call (t_phase uh) = Some x"
    show "s = v" using old [OF a(1,3)] old [OF a(2,4)] listedD(3) [OF g] by blast
  next
    fix s th x assume "((threads g)(t \<mapsto> th1)) s = Some th" "t_phase th = Waiting x"
    then show "x < next_call g \<and> c_key (calls g x) = t_key th" using w listedD(4) [OF g] by (cases "s = t") auto
  next
    fix x assume "x < next_call g" "c_result (calls g x) = None"
    then obtain s th where s: "threads g s = Some th" "in_call (t_phase th) = Some x" "\<not> unlisting (t_phase th)"
      using listedD(5) [OF g] by blast
    show "\<exists>s th. ((threads g)(t \<mapsto> th1)) s = Some th \<and> in_call (t_phase th) = Some x \<and> \<not> unlisting (t_phase th)"
    proof (cases "s = t")
      case True
      then show ?thesis using s c u by (intro exI [of _ t] exI [of _ th1]) auto
    next
      case False
      then show ?thesis using s by (intro exI [of _ s] exI [of _ th]) auto
    qed
  qed
qed

text \<open>A new call.\<close>

lemma listed_enter:
  assumes g: "listed g" and t: "threads g t = Some th" and p: "in_call (t_phase th) = None" and l: "loading g (t_key th) = None"
  shows "listed (put_thread t (th\<lparr>t_phase := Leading (next_call g)\<rparr>)
    (g\<lparr>calls := (calls g)(next_call g := \<lparr>c_key = t_key th, c_result = None\<rparr>),
       loading := (loading g)(t_key th \<mapsto> next_call g), next_call := next_call g + 1\<rparr>))"
    (is "listed ?g")
proof -
  let ?th = "th\<lparr>t_phase := Leading (next_call g)\<rparr>"
  have old: "threads g s = Some uh \<and> x < next_call g \<and> t_key uh \<noteq> t_key th \<and> s \<noteq> t"
    if "s \<noteq> t" "threads g s = Some uh" "in_call (t_phase uh) = Some x" for s uh x
    using that l listedD(2) [OF g that(2,3)] listedD(1) [OF g] by force
  show ?thesis
  proof (rule listedI)
    fix j x assume "loading ?g j = Some x"
    then show "x < next_call ?g \<and> c_key (calls ?g x) = j" using listedD(1) [OF g, of j x] by (auto split: if_splits)
  next
    fix s uh x assume "threads ?g s = Some uh" "in_call (t_phase uh) = Some x"
    then show "loading ?g (t_key uh) = Some x" using old [of s uh x] listedD(2) [OF g, of s uh x] by (cases "s = t") auto
  next
    fix s v uh vh x assume "threads ?g s = Some uh" "threads ?g v = Some vh" "in_call (t_phase uh) = Some x" "in_call (t_phase vh) = Some x"
    then show "s = v" using old [of s uh x] old [of v vh x] listedD(3) [OF g, of s uh v vh x] by (cases "s = t"; cases "v = t") auto
  next
    fix s uh x assume "threads ?g s = Some uh" "t_phase uh = Waiting x"
    then show "x < next_call ?g \<and> c_key (calls ?g x) = t_key uh" using listedD(4) [OF g, of s uh x] by (cases "s = t") auto
  next
    fix x assume a: "x < next_call ?g" "c_result (calls ?g x) = None"
    show "\<exists>s uh. threads ?g s = Some uh \<and> in_call (t_phase uh) = Some x \<and> \<not> unlisting (t_phase uh)"
    proof (cases "x = next_call g")
      case True
      then show ?thesis by (intro exI [of _ t] exI [of _ ?th]) simp
    next
      case False
      then obtain s uh where s: "threads g s = Some uh" "in_call (t_phase uh) = Some x" "\<not> unlisting (t_phase uh)"
        using a listedD(5) [OF g, of x] by auto
      then have "s \<noteq> t" using t p by auto
      then show ?thesis using s by (intro exI [of _ s] exI [of _ uh]) simp
    qed
  qed
qed

text \<open>\<open>wg.Done\<close>.\<close>

lemma listed_done:
  assumes g: "listed g" and t: "threads g t = Some th" and p: "t_phase th = Ran c r b"
  shows "listed (put_thread t (th\<lparr>t_phase := Unlisting c r b\<rparr>) (g\<lparr>calls := (calls g)(c := (calls g c)\<lparr>c_result := Some r\<rparr>)\<rparr>))"
    (is "listed ?g")
proof -
  have ic: "in_call (t_phase th) = Some c" using p by simp
  have old: "\<exists>vh. threads g s = Some vh \<and> in_call (t_phase vh) = Some x \<and> t_key vh = t_key uh"
    if "threads ?g s = Some uh" "in_call (t_phase uh) = Some x" for s uh x using that t ic by (cases "s = t") auto
  show ?thesis
  proof (rule listedI)
    fix j x assume "loading ?g j = Some x"
    then show "x < next_call ?g \<and> c_key (calls ?g x) = j" using listedD(1) [OF g, of j x] by auto
  next
    fix s uh x assume "threads ?g s = Some uh" "in_call (t_phase uh) = Some x"
    then obtain vh where "threads g s = Some vh" "in_call (t_phase vh) = Some x" "t_key vh = t_key uh" using old by blast
    then show "loading ?g (t_key uh) = Some x" using listedD(2) [OF g, of s vh x] by simp
  next
    fix s v uh vh x assume "threads ?g s = Some uh" "threads ?g v = Some vh" "in_call (t_phase uh) = Some x" "in_call (t_phase vh) = Some x"
    then show "s = v" using old [of s uh x] old [of v vh x] listedD(3) [OF g] by blast
  next
    fix s uh x assume "threads ?g s = Some uh" "t_phase uh = Waiting x"
    then show "x < next_call ?g \<and> c_key (calls ?g x) = t_key uh" using listedD(4) [OF g, of s uh x] by (cases "s = t") auto
  next
    fix x assume a: "x < next_call ?g" "c_result (calls ?g x) = None"
    then have x: "x \<noteq> c" by auto
    then obtain s uh where s: "threads g s = Some uh" "in_call (t_phase uh) = Some x" "\<not> unlisting (t_phase uh)"
      using a listedD(5) [OF g, of x] by auto
    then have "s \<noteq> t" using t ic x by auto
    then show "\<exists>s uh. threads ?g s = Some uh \<and> in_call (t_phase uh) = Some x \<and> \<not> unlisting (t_phase uh)"
      using s by (intro exI [of _ s] exI [of _ uh]) simp
  qed
qed

text \<open>The removal from the map.\<close>

lemma listed_unlist:
  assumes g: "listed g" and t: "threads g t = Some th" and p: "t_phase th = Unlisting c r b"
    and n: "in_call (t_phase th1) = None" "\<And>x. t_phase th1 \<noteq> Waiting x"
  shows "listed (put_thread t th1 (g\<lparr>loading := (loading g)(t_key th := None)\<rparr>))" (is "listed ?g")
proof -
  have l: "loading g (t_key th) = Some c" using listedD(2) [OF g t] p by simp
  have old: "s \<noteq> t \<and> threads g s = Some uh \<and> t_key uh \<noteq> t_key th"
    if "threads ?g s = Some uh" "in_call (t_phase uh) = Some x" for s uh x
  proof -
    have s: "s \<noteq> t" "threads g s = Some uh" using that n by (auto split: if_splits)
    have "t_key uh \<noteq> t_key th"
    proof
      assume "t_key uh = t_key th"
      then have "x = c" using listedD(2) [OF g s(2) that(2)] l by simp
      then show False using listedD(3) [OF g s(2) t that(2)] p s(1) by simp
    qed
    then show ?thesis using s by simp
  qed
  show ?thesis
  proof (rule listedI)
    fix j x assume "loading ?g j = Some x"
    then show "x < next_call ?g \<and> c_key (calls ?g x) = j" using listedD(1) [OF g, of j x] by (auto split: if_splits)
  next
    fix s uh x assume u: "threads ?g s = Some uh" "in_call (t_phase uh) = Some x"
    have s: "threads g s = Some uh" "t_key uh \<noteq> t_key th" using old [OF u] by auto
    show "loading ?g (t_key uh) = Some x" using listedD(2) [OF g s(1) u(2)] s(2) by simp
  next
    fix s v uh vh x assume "threads ?g s = Some uh" "threads ?g v = Some vh" "in_call (t_phase uh) = Some x" "in_call (t_phase vh) = Some x"
    then show "s = v" using old listedD(3) [OF g] by blast
  next
    fix s uh x assume "threads ?g s = Some uh" "t_phase uh = Waiting x"
    then show "x < next_call ?g \<and> c_key (calls ?g x) = t_key uh" using listedD(4) [OF g, of s uh x] n(2) by (cases "s = t") auto
  next
    fix x assume "x < next_call ?g" "c_result (calls ?g x) = None"
    then obtain s uh where s: "threads g s = Some uh" "in_call (t_phase uh) = Some x" "\<not> unlisting (t_phase uh)"
      using listedD(5) [OF g, of x] by auto
    then have "s \<noteq> t" using t p by auto
    then show "\<exists>s uh. threads ?g s = Some uh \<and> in_call (t_phase uh) = Some x \<and> \<not> unlisting (t_phase uh)"
      using s by (intro exI [of _ s] exI [of _ uh]) simp
  qed
qed

lemma listed_frame [simp]:
  "listed (count f g) = listed g" "listed (fetched_from_peer p g) = listed g" "listed (g\<lparr>g_caches := cs\<rparr>) = listed g"
  by (rule listed_cong; simp)+

lemma listed_found:
  assumes g: "listed g" and t: "threads g t = Some th" and p: "in_call (t_phase th) = None"
    and q: "in_call q = None" "\<And>c. q \<noteq> Waiting c"
  shows "listed (found pr r q t th g)"
  using p q by (cases r) (auto simp: found_def t intro!: listed_put [OF g])

lemma listed_populate:
  assumes g: "listed g" and t: "threads g t = Some th0" and p: "in_call (t_phase th0) = Some c" and k: "t_key th = t_key th0"
  shows "listed (populate c v w b t th g)"
proof -
  have "listed (put_thread t (th\<lparr>t_phase := q\<rparr>) (g\<lparr>g_caches := cs\<rparr>))" if "q = Ran c (Inr v) b \<or> q = Evicting c v b Reading" for q cs
    using g t p k that by (intro listed_put) auto
  moreover have "listed (put_thread t (th\<lparr>t_phase := Ran c (Inr v) b\<rparr>) g)" using g t p k by (intro listed_put) auto
  ultimately show ?thesis by (simp add: populate_def)
qed

lemma listed_load_locally:
  assumes g: "listed g" and t: "threads g t = Some th" and p: "t_phase th = Leading c"
  shows "listed (load_locally pr env c t th g)"
proof -
  have "listed (put_thread t (th\<lparr>t_dest := d, t_phase := Ran c (Inl e) False\<rparr>) g)" for d e
    using g t p by (intro listed_put) auto
  moreover have "listed (populate c v Main True t (th\<lparr>t_dest := d\<rparr>) (count f g))" for v d f
    using listed_populate [of "count f g" t th c "th\<lparr>t_dest := d\<rparr>" v Main True] g t p by simp
  ultimately show ?thesis by (auto simp: load_locally_def split: prod.splits sum.splits)
qed

lemma listed_run_load:
  assumes g: "listed g" and t: "threads g t = Some th" and p: "t_phase th = Leading c"
  shows "listed (run_load pr env c t th g)"
proof -
  let ?g = "count (\<lambda>s. s\<lparr>sLoadsDeduped := sLoadsDeduped s + 1\<rparr>) g"
  have l: "listed (load_locally pr env c t th ?g)" "listed (load_locally pr env c t th (count f ?g))" for f
    by (rule listed_load_locally; use g t p in simp)+
  have q: "listed (populate c v Hot False t th ?g)" for v by (rule listed_populate [where th0 = th]) (use g t p in simp_all)
  have r: "listed (put_thread t (th\<lparr>t_phase := Ran c (Inr v) False\<rparr>) ?g)" for v by (rule listed_put) (use g t p in simp_all)
  show ?thesis using l q r by (simp add: run_load_def Let_def split: option.split)
qed

lemma listed_evict_step:
  assumes g: "listed g" and t: "threads g t = Some th" and p: "t_phase th = Evicting c v b st"
  shows "listed (evict_step c v b st t th g)"
proof -
  have "listed (put_thread t (th\<lparr>t_phase := q\<rparr>) (g\<lparr>g_caches := cs\<rparr>))" "listed (put_thread t (th\<lparr>t_phase := q\<rparr>) g)"
    if "in_call q = Some c" "\<not> unlisting q" "\<And>x. q \<noteq> Waiting x" for q cs
    using that by (intro listed_put; use g t p in simp)+
  then show ?thesis by (simp add: evict_step_def Let_def split: stage.split)
qed

lemma listed_enter_Do:
  assumes g: "listed g" and t: "threads g t = Some th" and p: "t_phase th = Loading"
  shows "listed (enter_Do t th g)"
proof -
  let ?g = "count (\<lambda>s. s\<lparr>sLoads := sLoads s + 1\<rparr>) g"
  have g1: "listed ?g" "threads ?g t = Some th" using g t by simp_all
  show ?thesis
  proof (cases "loading ?g (t_key th)")
    case None
    show ?thesis using listed_enter [OF g1 _ None] p None by (simp add: enter_Do_def Let_def)
  next
    case (Some c)
    then have "listed (put_thread t (th\<lparr>t_phase := Waiting c\<rparr>) ?g)"
      using listedD(1) [OF g1(1) Some] by (intro listed_put) (use g1 t p in auto)
    then show ?thesis using Some by (simp add: enter_Do_def Let_def)
  qed
qed

lemma listed_step:
  assumes g: "listed g" and t: "threads g t = Some th" and s: "step_thread pr env t th g = Some g1"
  shows "listed g1"
proof (cases "t_phase th")
  case Looking_main
  then show ?thesis using s g t by (auto simp: step_thread_def look_def split: prod.splits intro!: listed_found)
next
  case Looking_hot
  then show ?thesis using s g t by (auto simp: step_thread_def look_def split: prod.splits intro!: listed_found)
next
  case Loading
  then show ?thesis using s listed_enter_Do [OF g t] by (auto simp: step_thread_def)
next
  case (Leading c)
  then show ?thesis using s listed_run_load [OF g t] by (auto simp: step_thread_def)
next
  case (Evicting c v b st)
  then show ?thesis using s listed_evict_step [OF g t] by (auto simp: step_thread_def)
next
  case (Ran c r b)
  then show ?thesis using s listed_done [OF g t] by (auto simp: step_thread_def)
next
  case (Unlisting c r b)
  then show ?thesis using s listed_unlist [OF g t] by (auto simp: step_thread_def)
next
  case (Waiting c)
  then obtain r where "g1 = put_thread t (after_load pr r False th) g" using s by (auto simp: step_thread_def split: option.splits)
  then show ?thesis using Waiting t by (auto intro!: listed_put [OF g])
qed (use s in \<open>simp_all add: step_thread_def\<close>)

lemma listed_exec: "listed g \<Longrightarrow> gexec pr a g = Some g1 \<Longrightarrow> listed g1"
  by (auto simp: gexec_def begin_get_def intro: listed_step split: action.splits option.splits if_splits intro!: listed_put)

lemma listed_run: "grun pr as (new_group n) = Some g \<Longrightarrow> listed g"
  by (rule grun_induct [of pr as "new_group n" g listed]) (auto simp: listed_new intro: listed_exec)

text \<open>C24. At any time at most one goroutine loads a given key, by its getter or from a peer: the one that is
  in the call that the map has for it. And whoever waits for a call that has no result waits for a
  goroutine that is running the call's function for the same key.\<close>

theorem one_load_per_key:
  assumes r: "grun pr as (new_group n) = Some g"
  shows "(\<forall>t u th uh. threads g t = Some th \<and> threads g u = Some uh \<and> in_call (t_phase th) \<noteq> None \<and> in_call (t_phase uh) \<noteq> None \<and>
       t_key th = t_key uh \<longrightarrow> t = u) \<and>
     (\<forall>t th c. threads g t = Some th \<and> t_phase th = Waiting c \<and> c_result (calls g c) = None \<longrightarrow>
       (\<exists>u uh. threads g u = Some uh \<and> in_call (t_phase uh) = Some c \<and> \<not> unlisting (t_phase uh) \<and> t_key uh = t_key th))"
proof -
  have g: "listed g" by (rule listed_run [OF r])
  have one: "t = u"
    if t: "threads g t = Some th" and u: "threads g u = Some uh" "t_key th = t_key uh"
      and i: "in_call (t_phase th) \<noteq> None" "in_call (t_phase uh) \<noteq> None" for t u th uh
  proof -
    obtain c d where c: "in_call (t_phase th) = Some c" "in_call (t_phase uh) = Some d" using i by blast
    then have "c = d" using listedD(2) [OF g t c(1)] listedD(2) [OF g u(1) c(2)] u(2) by simp
    then show "t = u" using listedD(3) [OF g t u(1) c(1)] c(2) by simp
  qed
  have wait: "\<exists>u uh. threads g u = Some uh \<and> in_call (t_phase uh) = Some c \<and> \<not> unlisting (t_phase uh) \<and> t_key uh = t_key th"
    if t: "threads g t = Some th" and w: "t_phase th = Waiting c" "c_result (calls g c) = None" for t th c
  proof -
    have c: "c < next_call g" "c_key (calls g c) = t_key th" using listedD(4) [OF g t w(1)] by simp_all
    obtain u uh where u: "threads g u = Some uh" "in_call (t_phase uh) = Some c" "\<not> unlisting (t_phase uh)"
      using listedD(5) [OF g c(1) w(2)] by blast
    have "t_key uh = t_key th" using listedD(1) [OF g listedD(2) [OF g u(1,2)]] c(2) by simp
    then show ?thesis using u by blast
  qed
  show ?thesis using one wait by blast
qed

section \<open>What a get returns\<close>

text \<open>What a getter sets, as bytes.\<close>

definition set_bytes :: "'m proto \<Rightarrow> 'm set_call \<Rightarrow> byte list option" where
  "set_bytes pr s = (case s of Set_string b \<Rightarrow> Some b | Set_bytes b \<Rightarrow> Some b | Set_proto m \<Rightarrow> proto_Marshal pr m)"

lemma do_set_delivers:
  "do_set pr s d0 = (True, d) \<Longrightarrow> \<exists>b. set_bytes pr s = Some b \<and> delivered pr b d0 d \<and> ByteSlice (sink_view d) = b"
  using SetString_delivers [of pr _ d0 d] SetBytes_delivers [of pr _ d0 d] SetProto_delivers [of pr _ d0 d]
  by (cases s) (auto simp: set_bytes_def)

text \<open>A getter or a peer that answers for \<open>k\<close> answers with \<open>val k\<close>: the data are not versioned.\<close>

definition unversioned :: "'m proto \<Rightarrow> (byte list \<Rightarrow> byte list) \<Rightarrow> 'm action \<Rightarrow> bool" where
  "unversioned pr val a \<longleftrightarrow>
     (case a of
        Begin t k d \<Rightarrow> True
      | Move t env \<Rightarrow>
          (\<forall>k b. ask_peer env k = Some (Some b) \<longrightarrow> b = val k) \<and>
          (\<forall>k s b. getter env k = Some s \<longrightarrow> set_bytes pr s = Some b \<longrightarrow> b = val k))"

definition right :: "(byte list \<Rightarrow> byte list) \<Rightarrow> (byte list \<times> ByteView) set" where
  "right val = {(k, v). ByteSlice v = val k}"

definition loaded :: "'m proto \<Rightarrow> (byte list \<Rightarrow> byte list) \<Rightarrow> group_error + ByteView \<Rightarrow> bool \<Rightarrow> 'm thread \<Rightarrow> bool" where
  "loaded pr val r b th \<longleftrightarrow>
     (case r of
        Inl e \<Rightarrow> True
      | Inr v \<Rightarrow> ByteSlice v = val (t_key th) \<and>
          (if b then delivered pr (val (t_key th)) (t_dest0 th) (t_dest th) else t_dest th = t_dest0 th))"

definition thread_ok :: "'m proto \<Rightarrow> (byte list \<Rightarrow> byte list) \<Rightarrow> 'm thread \<Rightarrow> bool" where
  "thread_ok pr val th \<longleftrightarrow>
     (case t_phase th of
        Evicting c v b _ \<Rightarrow> loaded pr val (Inr v) b th
      | Ran c r b \<Rightarrow> loaded pr val r b th
      | Unlisting c r b \<Rightarrow> loaded pr val r b th
      | Returned e \<Rightarrow> e = None \<longrightarrow> delivered pr (val (t_key th)) (t_dest0 th) (t_dest th)
      | Panicked \<Rightarrow> True
      | _ \<Rightarrow> t_dest th = t_dest0 th)"

definition group_ok :: "'m proto \<Rightarrow> (byte list \<Rightarrow> byte list) \<Rightarrow> 'm group \<Rightarrow> bool" where
  "group_ok pr val g \<longleftrightarrow>
     listed g \<and> holds_only (right val) (g_caches g) \<and>
     (\<forall>t th. threads g t = Some th \<longrightarrow> thread_ok pr val th) \<and>
     (\<forall>c v. c_result (calls g c) = Some (Inr v) \<longrightarrow> ByteSlice v = val (c_key (calls g c)))"

lemma give_ok:
  assumes "ByteSlice v = val (t_key th)" and "t_dest th = t_dest0 th"
  shows "thread_ok pr val (give pr v th)"
proof (cases "setSinkView pr v (t_dest th)")
  case None
  then show ?thesis by (simp add: give_def thread_ok_def)
next
  case (Some x)
  obtain ok d where x: "x = (ok, d)" by (cases x)
  show ?thesis using Some x assms setSinkView_delivers [of pr v "t_dest th" d]
    by (cases ok) (simp_all add: give_def thread_ok_def)
qed

lemma after_load_ok: "loaded pr val r b th \<Longrightarrow> thread_ok pr val (after_load pr r b th)"
  using give_ok [of _ val th pr] by (auto simp: after_load_def loaded_def thread_ok_def [of _ _ "th\<lparr>t_phase := Returned _\<rparr>"] split: sum.splits if_splits)

lemma found_value:
  "(\<forall>t th. threads g t = Some th \<longrightarrow> thread_ok pr val th) \<Longrightarrow> t_dest th = t_dest0 th \<Longrightarrow> q = Looking_hot \<or> q = Loading \<Longrightarrow>
   (\<forall>v. r = Some v \<longrightarrow> ByteSlice v = val (t_key th)) \<Longrightarrow>
   threads (found pr r q t th g) u = Some uh \<Longrightarrow> thread_ok pr val uh"
  using give_ok [of _ val th pr]
  by (cases r; cases "u = t") (auto simp: found_def thread_ok_def [of _ _ "th\<lparr>t_phase := _\<rparr>"])

lemma found_fields [simp]:
  "g_caches (found pr r q t th g) = g_caches g" "calls (found pr r q t th g) = calls g"
  by (simp_all add: found_def split: option.split)

lemma look_ok:
  assumes g: "group_ok pr val g" and l: "listed (look pr w q t th g)" and d: "t_dest th = t_dest0 th" and q: "q = Looking_hot \<or> q = Loading"
  shows "group_ok pr val (look pr w q t th g)"
proof -
  obtain r cs where r: "get_in w (t_key th) (g_caches g) = (r, cs)" by (cases "get_in w (t_key th) (g_caches g)")
  have h: "holds_only (right val) (g_caches g)" using g by (simp add: group_ok_def)
  have e: "holds_only (right val) cs" "\<forall>v. r = Some v \<longrightarrow> ByteSlice v = val (t_key th)"
    using holds_only_get [OF h r] by (auto simp: right_def)
  have k: "look pr w q t th g = found pr r q t th (g\<lparr>g_caches := cs\<rparr>)" by (simp add: look_def r)
  have "\<forall>t th. threads (g\<lparr>g_caches := cs\<rparr>) t = Some th \<longrightarrow> thread_ok pr val th" using g by (simp add: group_ok_def)
  from found_value [OF this d q e(2)] show ?thesis using g l e(1) by (simp add: k group_ok_def)
qed

text \<open>What the step of a goroutine may do to the rest.\<close>

definition extends :: "'m proto \<Rightarrow> (byte list \<Rightarrow> byte list) \<Rightarrow> tid \<Rightarrow> 'm group \<Rightarrow> 'm group \<Rightarrow> bool" where
  "extends pr val t g g1 \<longleftrightarrow>
     (\<forall>u. u \<noteq> t \<longrightarrow> threads g1 u = threads g u) \<and> (\<forall>th. threads g1 t = Some th \<longrightarrow> thread_ok pr val th) \<and>
     holds_only (right val) (g_caches g1) \<and> calls g1 = calls g"

lemma extends_ok: "group_ok pr val g \<Longrightarrow> listed g1 \<Longrightarrow> extends pr val t g g1 \<Longrightarrow> group_ok pr val g1"
  unfolding group_ok_def extends_def by metis

lemma populate_extends:
  assumes h: "holds_only (right val) (g_caches g)" and v: "loaded pr val (Inr v) b th"
  shows "extends pr val t g (populate c v w b t th g)"
proof -
  have "(t_key th, v) \<in> right val" using v by (simp add: loaded_def right_def)
  moreover have "thread_ok pr val (th\<lparr>t_phase := Ran c (Inr v) b\<rparr>)" "thread_ok pr val (th\<lparr>t_phase := Evicting c v b Reading\<rparr>)"
    using v by (simp_all add: thread_ok_def loaded_def)
  ultimately show ?thesis using h holds_only_add [OF h] by (simp add: populate_def extends_def)
qed

lemma extends_frame [simp]:
  "extends pr val t (count f g) g1 = extends pr val t g g1" "extends pr val t g (count f g1) = extends pr val t g g1"
  "extends pr val t g (fetched_from_peer p g1) = extends pr val t g g1"
  by (simp_all add: extends_def)

lemma load_locally_extends:
  assumes h: "holds_only (right val) (g_caches g)" and d: "t_dest th = t_dest0 th" and e: "unversioned pr val (Move t env)"
  shows "extends pr val t g (load_locally pr env c t th g)"
proof -
  have ge: "\<And>k s b. getter env k = Some s \<Longrightarrow> set_bytes pr s = Some b \<Longrightarrow> b = val k" using e by (simp add: unversioned_def)
  obtain r d1 where r: "getLocally pr env (t_key th) (t_dest th) = (r, d1)" by (cases "getLocally pr env (t_key th) (t_dest th)")
  show ?thesis
  proof (cases r)
    case (Inl x)
    have "thread_ok pr val (th\<lparr>t_dest := d1, t_phase := Ran c (Inl x) False\<rparr>)" by (simp add: thread_ok_def loaded_def)
    then show ?thesis using Inl r h by (simp add: load_locally_def extends_def)
  next
    case (Inr v)
    then obtain s where s: "getter env (t_key th) = Some s" "do_set pr s (t_dest th) = (True, d1)" "v = sink_view d1"
      using r by (auto simp: getLocally_def split: option.splits prod.splits if_splits)
    then have "delivered pr (val (t_key th)) (t_dest0 th) d1 \<and> ByteSlice v = val (t_key th)"
      using do_set_delivers [OF s(2)] ge [OF s(1)] d by auto
    then have "loaded pr val (Inr v) True (th\<lparr>t_dest := d1\<rparr>)" by (simp add: loaded_def)
    then show ?thesis using Inr r populate_extends [where g = "count _ g"] h by (simp add: load_locally_def)
  qed
qed

lemma run_load_extends:
  assumes h: "holds_only (right val) (g_caches g)" and d: "t_dest th = t_dest0 th" and e: "unversioned pr val (Move t env)"
  shows "extends pr val t g (run_load pr env c t th g)"
proof -
  let ?g = "count (\<lambda>s. s\<lparr>sLoadsDeduped := sLoadsDeduped s + 1\<rparr>) g"
  have l: "extends pr val t g (load_locally pr env c t th ?g)" "extends pr val t g (load_locally pr env c t th (count f ?g))" for f
    using load_locally_extends [of val "?g", OF _ d e] load_locally_extends [of val "count f ?g", OF _ d e] h by simp_all
  have p: "loaded pr val (Inr (of_bytes b)) False th" if "ask_peer env (t_key th) = Some (Some b)" for b
    using e that d by (auto simp: unversioned_def loaded_def)
  have q: "extends pr val t g (populate c (of_bytes b) Hot False t th ?g)" if "ask_peer env (t_key th) = Some (Some b)" for b
    using populate_extends [where g = ?g, OF _ p [OF that]] h by simp
  have r: "extends pr val t g (put_thread t (th\<lparr>t_phase := Ran c (Inr (of_bytes b)) False\<rparr>) ?g)"
    if "ask_peer env (t_key th) = Some (Some b)" for b
    using p [OF that] h by (simp add: extends_def thread_ok_def loaded_def)
  show ?thesis using l q r by (simp add: run_load_def Let_def split: option.split)
qed

lemma evict_step_extends:
  assumes h: "holds_only (right val) (g_caches g)" and v: "loaded pr val (Inr v) b th"
  shows "extends pr val t g (evict_step c v b st t th g)"
proof -
  have "thread_ok pr val (th\<lparr>t_phase := Ran c (Inr v) b\<rparr>)" "thread_ok pr val (th\<lparr>t_phase := Evicting c v b s\<rparr>)" for s
    using v by (simp_all add: thread_ok_def loaded_def)
  then show ?thesis using h holds_only_removeOldest [OF h] by (simp add: evict_step_def Let_def extends_def split: stage.split)
qed

lemma group_ok_step:
  assumes g: "group_ok pr val g" and t: "threads g t = Some th" and s: "step_thread pr env t th g = Some g1"
    and e: "unversioned pr val (Move t env)"
  shows "group_ok pr val g1"
proof -
  have G: "listed g" "holds_only (right val) (g_caches g)" "thread_ok pr val th"
    "\<And>u uh. threads g u = Some uh \<Longrightarrow> thread_ok pr val uh" "\<And>c v. c_result (calls g c) = Some (Inr v) \<Longrightarrow> ByteSlice v = val (c_key (calls g c))"
    using g t by (auto simp: group_ok_def)
  have l: "listed g1" by (rule listed_step [OF G(1) t s])
  show ?thesis
  proof (cases "t_phase th")
    case Looking_main
    then have "g1 = look pr Main Looking_hot t th g" "t_dest th = t_dest0 th" using s G(3) by (simp_all add: step_thread_def thread_ok_def)
    then show ?thesis using look_ok [OF g] l by simp
  next
    case Looking_hot
    then have "g1 = look pr Hot Loading t th g" "t_dest th = t_dest0 th" using s G(3) by (simp_all add: step_thread_def thread_ok_def)
    then show ?thesis using look_ok [OF g] l by simp
  next
    case Loading
    then have 1: "g1 = enter_Do t th g" "t_dest th = t_dest0 th" using s G(3) by (simp_all add: step_thread_def thread_ok_def)
    have "thread_ok pr val (th\<lparr>t_phase := Waiting c\<rparr>)" "thread_ok pr val (th\<lparr>t_phase := Leading c\<rparr>)" for c
      using 1(2) by (simp_all add: thread_ok_def)
    then show ?thesis using G l unfolding 1(1) by (auto simp: enter_Do_def Let_def group_ok_def split: option.splits if_splits)
  next
    case (Leading c)
    then have "g1 = run_load pr env c t th g" "t_dest th = t_dest0 th" using s G(3) by (simp_all add: step_thread_def thread_ok_def)
    then show ?thesis using extends_ok [OF g l, of t] run_load_extends [OF G(2) _ e, where th = th and c = c] by simp
  next
    case (Evicting c v b st)
    then have "g1 = evict_step c v b st t th g" "loaded pr val (Inr v) b th" using s G(3) by (simp_all add: step_thread_def thread_ok_def)
    then show ?thesis using extends_ok [OF g l, of t] evict_step_extends [OF G(2), where v = v and b = b and th = th and t = t and c = c and st = st] by simp
  next
    case (Ran c r b)
    then have 1: "g1 = put_thread t (th\<lparr>t_phase := Unlisting c r b\<rparr>) (g\<lparr>calls := (calls g)(c := (calls g c)\<lparr>c_result := Some r\<rparr>)\<rparr>)"
      "loaded pr val r b th" using s G(3) by (simp_all add: step_thread_def thread_ok_def)
    have "c_key (calls g c) = t_key th" using listedD(1,2) [OF G(1)] t Ran by fastforce
    moreover have "thread_ok pr val (th\<lparr>t_phase := Unlisting c r b\<rparr>)" using 1(2) by (cases r) (simp_all add: thread_ok_def loaded_def)
    ultimately show ?thesis using G l 1(2) unfolding 1(1) by (auto simp: group_ok_def loaded_def split: if_splits)
  next
    case (Unlisting c r b)
    then have 1: "g1 = put_thread t (after_load pr r b th) (g\<lparr>loading := (loading g)(t_key th := None)\<rparr>)"
      "loaded pr val r b th" using s G(3) by (simp_all add: step_thread_def thread_ok_def)
    show ?thesis using G l after_load_ok [OF 1(2)] unfolding 1(1) by (auto simp: group_ok_def split: if_splits)
  next
    case (Waiting c)
    then obtain r where 1: "c_result (calls g c) = Some r" "g1 = put_thread t (after_load pr r False th) g"
      using s by (auto simp: step_thread_def split: option.splits)
    have "c_key (calls g c) = t_key th" by (rule conjunct2 [OF listedD(4) [OF G(1) t Waiting]])
    then have "loaded pr val r False th" using G(3,5) 1(1) Waiting by (auto simp: loaded_def thread_ok_def split: sum.split)
    then show ?thesis using G l after_load_ok unfolding 1(2) by (auto simp: group_ok_def split: if_splits)
  qed (use s in \<open>simp_all add: step_thread_def\<close>)
qed

lemma group_ok_exec:
  assumes g: "group_ok pr val g" and a: "gexec pr a g = Some g1" and e: "unversioned pr val a"
  shows "group_ok pr val g1"
proof (cases a)
  case (Begin t k d)
  have l: "listed g1" by (rule listed_exec [OF _ a]) (use g in \<open>simp add: group_ok_def\<close>)
  show ?thesis
  proof (cases d)
    case None
    then show ?thesis using a g l Begin by (auto simp: gexec_def group_ok_def)
  next
    case (Some x)
    then show ?thesis using a g l Begin by (auto simp: gexec_def begin_get_def group_ok_def thread_ok_def split: if_splits)
  qed
next
  case (Move t env)
  then obtain th where "threads g t = Some th" "step_thread pr env t th g = Some g1" using a by (auto simp: gexec_def split: option.splits)
  then show ?thesis using group_ok_step [OF g] e Move by blast
qed

lemma group_ok_new: "group_ok pr val (new_group n)"
  using listed_new holds_only_new by (simp add: group_ok_def) (simp add: new_group_def)

text \<open>C8. Every call of \<open>Get\<close> that returns without an error has written the value of its key to its
  destination, whoever loaded it: this process or a peer, this goroutine or one that it waited for, now
  or before (from the caches). It holds for any number of goroutines and keys, under every schedule,
  whatever fails and whatever is evicted, when the getter and the peers answer for a key with its value.\<close>

theorem get_delivers_the_value:
  assumes r: "grun pr as (new_group n) = Some g" and e: "\<And>a. a \<in> set as \<Longrightarrow> unversioned pr val a"
    and t: "threads g t = Some th" and p: "t_phase th = Returned None"
  shows "delivered pr (val (t_key th)) (t_dest0 th) (t_dest th)"
proof -
  have "group_ok pr val g"
  proof (rule grun_induct [OF r, of "group_ok pr val"])
    show "group_ok pr val (new_group n)" by (rule group_ok_new)
    show "group_ok pr val g2" if "a \<in> set as" "group_ok pr val g1" "gexec pr a g1 = Some g2" for a g1 g2
      using group_ok_exec [OF that(2,3) e [OF that(1)]] .
  qed
  then have "thread_ok pr val th" using t by (simp add: group_ok_def)
  then show ?thesis using p by (simp add: thread_ok_def)
qed

section \<open>Examples\<close>

definition no_proto :: "unit proto" where
  "no_proto = \<lparr>proto_Marshal = (\<lambda>_. None), proto_Unmarshal = (\<lambda>_ m. (m, False))\<rparr>"

text \<open>Every value is four bytes; a peer answers for the key \<open>a\<close>.\<close>

definition four :: "byte list" where "four = [1, 2, 3, 4]"

definition demo_env :: "unit env" where
  "demo_env = \<lparr>ask_peer = (\<lambda>k. if k = [97] then Some (Some four) else None), getter = (\<lambda>k. Some (Set_bytes four)), rand10 = 0\<rparr>"

definition demo_dest :: "unit sink" where "demo_dest = AllocSink (Some []) (of_str [])"

definition moves :: "tid \<Rightarrow> nat \<Rightarrow> unit action list" where "moves t n = replicate n (Move t demo_env)"

text \<open>Two goroutines get the same key and both miss it in the caches; then the first loads it, and after
  it the second.\<close>

definition twice_loaded :: "unit action list" where
  "twice_loaded = [Begin 0 [97] (Some demo_dest), Begin 1 [97] (Some demo_dest)] @ moves 0 2 @ moves 1 2 @ moves 0 6 @ moves 1 6"

definition at :: "int \<Rightarrow> unit action list \<Rightarrow> unit group" where
  "at n as = (case grun no_proto as (new_group n) of Some g \<Rightarrow> g | None \<Rightarrow> new_group n)"

lemma runs_at: "grun no_proto as (new_group n) \<noteq> None \<Longrightarrow> grun no_proto as (new_group n) = Some (at n as)"
  by (auto simp: at_def)

lemma demo_unversioned: "unversioned no_proto (\<lambda>_. four) (Begin t k d)" "unversioned no_proto (\<lambda>_. four) (Move t demo_env)"
  by (simp_all add: unversioned_def demo_env_def set_bytes_def)

theorem get_delivers_the_value_witness:
  "\<exists>th. threads (at 10 twice_loaded) 1 = Some th \<and> t_phase th = Returned None \<and> delivered no_proto four (t_dest0 th) (t_dest th)"
proof -
  have "\<not> Option.is_none (grun no_proto twice_loaded (new_group 10))" by code_simp
  then have r: "grun no_proto twice_loaded (new_group 10) = Some (at 10 twice_loaded)" by (intro runs_at) (simp add: Option.is_none_def)
  have "map_option t_phase (threads (at 10 twice_loaded) 1) = Some (Returned None)" by code_simp
  then obtain th where th: "threads (at 10 twice_loaded) 1 = Some th" "t_phase th = Returned None" by auto
  have u: "unversioned no_proto (\<lambda>_. four) a" if "a \<in> set twice_loaded" for a
    using that demo_unversioned by (auto simp: twice_loaded_def moves_def split: if_splits)
  show ?thesis using get_delivers_the_value [OF r u th] th by simp
qed

definition one_waits :: "unit action list" where
  "one_waits = [Begin 0 [97] (Some demo_dest), Begin 1 [97] (Some demo_dest)] @ moves 0 2 @ moves 1 2 @ moves 0 2 @ moves 1 1"

theorem one_load_per_key_witness:
  "(\<exists>u uh. threads (at 10 one_waits) u = Some uh \<and> in_call (t_phase uh) = Some 0 \<and> \<not> unlisting (t_phase uh) \<and> t_key uh = [97]) \<and>
   {u. \<exists>uh. threads (at 10 one_waits) u = Some uh \<and> in_call (t_phase uh) \<noteq> None \<and> t_key uh = [97]} = {0}"
proof -
  have "\<not> Option.is_none (grun no_proto one_waits (new_group 10))" by code_simp
  then have r: "grun no_proto one_waits (new_group 10) = Some (at 10 one_waits)" by (intro runs_at) (simp add: Option.is_none_def)
  have "map_option (\<lambda>th. (t_phase th, t_key th)) (threads (at 10 one_waits) 1) = Some (Waiting 0, [97])" by code_simp
  then obtain th where th: "threads (at 10 one_waits) 1 = Some th" "t_phase th = Waiting 0" "t_key th = [97]" by auto
  have w: "c_result (calls (at 10 one_waits) 0) = None" by code_simp
  have "map_option (\<lambda>th. (in_call (t_phase th), t_key th)) (threads (at 10 one_waits) 0) = Some (Some 0, [97])" by code_simp
  then obtain lh where lh: "threads (at 10 one_waits) 0 = Some lh" "in_call (t_phase lh) = Some 0" "t_key lh = [97]" by auto
  note one = one_load_per_key [OF r, THEN conjunct1, rule_format, OF conjI] and wait = one_load_per_key [OF r, THEN conjunct2, rule_format]
  have "u = 0" if u: "threads (at 10 one_waits) u = Some uh" "in_call (t_phase uh) \<noteq> None" "t_key uh = [97]" for u uh
    using one [of 0 lh u uh] lh u by simp
  then have "{u. \<exists>uh. threads (at 10 one_waits) u = Some uh \<and> in_call (t_phase uh) \<noteq> None \<and> t_key uh = [97]} = {0}"
    using lh by force
  then show ?thesis using wait [of 1 th 0] th w by simp
qed

section \<open>The loop of populateCache\<close>

text \<open>A goroutine that runs alone evicts as \<open>populateCache\<close> does.\<close>

lemma evicts_once:
  assumes t: "threads g t = Some th" and p: "t_phase th = Evicting c v b Reading"
    and n: "\<not> fits (cacheBytes g) (cache_bytes (mainCache (g_caches g))) (cache_bytes (hotCache (g_caches g)))"
  shows "grun pr (replicate 3 (Move t env)) g = Some (g\<lparr>g_caches := evict_round (g_caches g)\<rparr>)"
proof -
  have "th\<lparr>t_phase := Evicting c v b Reading\<rparr> = th" using p by simp
  then have "(threads g)(t \<mapsto> th\<lparr>t_phase := Evicting c v b Reading\<rparr>) = threads g" using t by auto
  moreover have "g\<lparr>g_caches := cs, threads := threads g\<rparr> = g\<lparr>g_caches := cs\<rparr>" for cs by simp
  ultimately show ?thesis using t p n
    by (simp add: numeral_3_eq_3 gexec_def step_thread_def evict_step_def Let_def evict_round_def put_thread_def)
qed

lemma grun_append: "grun pr (as @ bs) g = (case grun pr as g of None \<Rightarrow> None | Some g1 \<Rightarrow> grun pr bs g1)"
  by (induction as arbitrary: g) (auto split: option.splits)

text \<open>When the loop of \<open>populateCache\<close> ends so does the goroutine's, with the same caches.\<close>

lemma evicts_alone:
  assumes t: "threads g t = Some th" and p: "t_phase th = Evicting c v b Reading" and l: "evict_loop (cacheBytes g) (g_caches g) = Some cs"
  shows "\<exists>n. grun pr (replicate n (Move t env)) g = Some (g\<lparr>g_caches := cs\<rparr>)"
proof -
  define P where "P cs \<longleftrightarrow> (\<exists>n. grun pr (replicate n (Move t env)) g = Some (g\<lparr>g_caches := cs\<rparr>))" for cs
  have step: "P (evict_round s)"
    if "P s" and f: "\<not> fits (cacheBytes g) (cache_bytes (mainCache s)) (cache_bytes (hotCache s))" for s
  proof -
    obtain n where n: "grun pr (replicate n (Move t env)) g = Some (g\<lparr>g_caches := s\<rparr>)" using \<open>P s\<close> unfolding P_def by (rule exE)
    have "grun pr (replicate 3 (Move t env)) (g\<lparr>g_caches := s\<rparr>) = Some (g\<lparr>g_caches := evict_round s\<rparr>)"
      using evicts_once [of "g\<lparr>g_caches := s\<rparr>" t th c v b pr env] t p f by simp
    then have "grun pr (replicate (n + 3) (Move t env)) g = Some (g\<lparr>g_caches := evict_round s\<rparr>)"
      using n by (simp only: replicate_add grun_append option.case)
    then show ?thesis unfolding P_def by (rule exI)
  qed
  have "grun pr (replicate 0 (Move t env)) g = Some (g\<lparr>g_caches := g_caches g\<rparr>)" by simp
  then have "P (g_caches g)" unfolding P_def by (rule exI)
  from while_option_rule [OF step l [unfolded evict_loop_def] this] have "P cs" .
  then show ?thesis unfolding P_def .
qed

text \<open>The victim is an empty cache: the goroutine is back where it was.\<close>

lemma evicts_in_vain:
  assumes "threads g t = Some th" and "t_phase th = Evicting c v b Reading"
    and "\<not> fits (cacheBytes g) (cache_bytes (mainCache (g_caches g))) (cache_bytes (hotCache (g_caches g)))"
    and e: "evict_round (g_caches g) = g_caches g"
  shows "grun pr (concat (replicate n (replicate 3 (Move t env)))) g = Some g"
proof (induction n)
  case (Suc n)
  have "grun pr (replicate 3 (Move t env)) g = Some g" using evicts_once [OF assms(1-3)] e by simp
  then show ?case using Suc by (simp only: replicate_Suc concat.simps grun_append option.case)
qed simp

text \<open>After these two, a goroutine gets another key (and evicts the entry), and then one gets a third.\<close>

definition later :: "unit action list" where
  "later = [Begin 2 [98] (Some demo_dest)] @ moves 2 11 @ [Begin 3 [99] (Some demo_dest)] @ moves 3 4"

text \<open>C34. Calls of \<open>Get\<close> that overlap can make a later one hang. In a group of 11 bytes two goroutines miss
  a key whose entry takes five, one loads it after the other, and when both have returned the hot cache
  holds the entry once and counts it twice, ten bytes; a later \<open>Get\<close> of another key returns and leaves
  the hot cache without entries and with five bytes counted, and the next \<open>Get\<close> never leaves the loop of
  \<open>populateCache\<close>, however long it runs, though the entries of both caches take ten bytes, less than
  \<open>cacheBytes\<close>.\<close>

theorem overlapping_gets_hang:
  "\<exists>g1 g. grun no_proto twice_loaded (new_group 11) = Some g1 \<and>
     map (\<lambda>t. map_option t_phase (threads g1 t)) [0, 1] = replicate 2 (Some (Returned None)) \<and>
     list_bytes (cache_list (hotCache (g_caches g1))) = 5 \<and> cache_bytes (hotCache (g_caches g1)) = 10 \<and>
     grun no_proto later g1 = Some g \<and> map_option t_phase (threads g 2) = Some (Returned None) \<and>
     cache_list (hotCache (g_caches g)) = [] \<and> cache_bytes (hotCache (g_caches g)) = 5 \<and>
     list_bytes (cache_list (mainCache (g_caches g))) = 10 \<and> cacheBytes g = 11 \<and>
     (\<forall>n. grun no_proto (concat (replicate n (replicate 3 (Move 3 demo_env)))) g = Some g) \<and>
     (\<exists>th c v b. threads g 3 = Some th \<and> t_phase th = Evicting c v b Reading)"
proof -
  let ?g1 = "at 11 twice_loaded" and ?g = "at 11 (twice_loaded @ later)"
  have "\<not> Option.is_none (grun no_proto twice_loaded (new_group 11))" by code_simp
  then have r1: "grun no_proto twice_loaded (new_group 11) = Some ?g1" by (intro runs_at) (simp add: Option.is_none_def)
  have "\<not> Option.is_none (grun no_proto (twice_loaded @ later) (new_group 11))" by code_simp
  then have "grun no_proto (twice_loaded @ later) (new_group 11) = Some ?g" by (intro runs_at) (simp add: Option.is_none_def)
  then have r: "grun no_proto later ?g1 = Some ?g" using r1 by (simp add: grun_append)
  have p1: "map_option t_phase (threads ?g1 0) = Some (Returned None)" "map_option t_phase (threads ?g1 1) = Some (Returned None)" by code_simp+
  have b1: "list_bytes (cache_list (hotCache (g_caches ?g1))) = 5" "cache_bytes (hotCache (g_caches ?g1)) = 10" by code_simp+
  have p: "map_option t_phase (threads ?g 2) = Some (Returned None)" by code_simp
  have b: "cache_list (hotCache (g_caches ?g)) = []" "cache_bytes (hotCache (g_caches ?g)) = 5"
    "list_bytes (cache_list (mainCache (g_caches ?g))) = 10" "cacheBytes ?g = 11" by code_simp+
  have "map_option t_phase (threads ?g 3) = Some (Evicting 3 (of_bytes four) True Reading)" by code_simp
  then obtain th where th: "threads ?g 3 = Some th" "t_phase th = Evicting 3 (of_bytes four) True Reading" by auto
  have f: "\<not> fits (cacheBytes ?g) (cache_bytes (mainCache (g_caches ?g))) (cache_bytes (hotCache (g_caches ?g)))" by code_simp
  have "map_option ll (c_lru (hotCache (g_caches ?g))) = Some []" by code_simp
  then obtain l where l: "c_lru (hotCache (g_caches ?g)) = Some l" "ll l = []" by auto
  have e: "cache_removeOldest (hotCache (g_caches ?g)) = hotCache (g_caches ?g)"
    using l by (simp add: cache_removeOldest_def lru_RemoveOldest_def)
  have "victim (cache_bytes (mainCache (g_caches ?g))) (cache_bytes (hotCache (g_caches ?g))) = Hot" by code_simp
  then have "evict_round (g_caches ?g) = g_caches ?g" using e by (simp add: evict_round_def on_cache_def)
  note vain = evicts_in_vain [OF th f this]
  have "map (\<lambda>t. map_option t_phase (threads ?g1 t)) [0, 1] = replicate 2 (Some (Returned None))"
    using p1 by (simp add: numeral_2_eq_2)
  then show ?thesis using r1 b1 r p b vain th by (intro exI [of _ ?g1] exI [of _ ?g] conjI) (assumption | blast)+
qed

end
