(* ===== verification/GcRing.thy ===== *)
theory GcRing
  imports GoFmt
begin

text \<open>
  \<open>golang/groupcache/consistenthash/consistenthash.go\<close>: a ring of hashes, several for each member; a
  key belongs to the member of the first hash at or behind its own. With it the part of \<open>http.go\<close>
  that chooses the peer of a key. Strings are their bytes.
\<close>

section \<open>The ring\<close>

record ring =
  ring_hash :: "byte list \<Rightarrow> u32"
  replicas :: int
  ring_keys :: "int list"
  hashMap :: "int \<Rightarrow> byte list option"

definition ring_New :: "int \<Rightarrow> (byte list \<Rightarrow> u32) option \<Rightarrow> ring" where
  "ring_New n fn = \<lparr>ring_hash = (case fn of None \<Rightarrow> ChecksumIEEE | Some f \<Rightarrow> f), replicas = n, ring_keys = [], hashMap = Map.empty\<rparr>"

definition ring_IsEmpty :: "ring \<Rightarrow> bool" where
  "ring_IsEmpty m \<longleftrightarrow> ring_keys m = []"

definition replica_hash :: "ring \<Rightarrow> byte list \<Rightarrow> nat \<Rightarrow> int" where
  "replica_hash m key i = uint (ring_hash m (bytes_of (dec_string i) @ key))"

definition add_replica :: "byte list \<Rightarrow> ring \<Rightarrow> nat \<Rightarrow> ring" where
  "add_replica key m i =
     (let h = replica_hash m key i in m\<lparr>ring_keys := ring_keys m @ [h], hashMap := (hashMap m)(h \<mapsto> key)\<rparr>)"

definition add_member :: "ring \<Rightarrow> byte list \<Rightarrow> ring" where
  "add_member m key = foldl (add_replica key) m [0..<nat (replicas m)]"

definition ring_Add :: "byte list list \<Rightarrow> ring \<Rightarrow> ring" where
  "ring_Add keys m = (let m1 = foldl add_member m keys in m1\<lparr>ring_keys := sort (ring_keys m1)\<rparr>)"

text \<open>\<open>sort.Search\<close>: binary search for the least index with the property.\<close>

function search_loop :: "(nat \<Rightarrow> bool) \<Rightarrow> nat \<Rightarrow> nat \<Rightarrow> nat" where
  "search_loop f i j =
     (if i < j then
        let h = i + (j - i) div 2
        in if \<not> f h then search_loop f (h + 1) j else search_loop f i h
      else i)"
  by pat_completeness auto
termination by (relation "measure (\<lambda>(f, i, j). j - i)") auto

declare search_loop.simps [simp del]

definition Search :: "nat \<Rightarrow> (nat \<Rightarrow> bool) \<Rightarrow> nat" where
  "Search n f = search_loop f 0 n"

text \<open>A key that is not in the map reads as the empty string.\<close>

definition ring_Get :: "byte list \<Rightarrow> ring \<Rightarrow> byte list" where
  "ring_Get key m =
     (if ring_IsEmpty m then []
      else
        let hash = uint (ring_hash m key);
            idx = Search (length (ring_keys m)) (\<lambda>i. ring_keys m ! i \<ge> hash);
            idx = (if idx = length (ring_keys m) then 0 else idx)
        in case hashMap m (ring_keys m ! idx) of None \<Rightarrow> [] | Some s \<Rightarrow> s)"

section \<open>The pool of peers\<close>

record pool =
  self :: "byte list"
  peers :: ring

definition defaultReplicas :: int where "defaultReplicas = 50"

definition NewHTTPPool :: "byte list \<Rightarrow> pool" where
  "NewHTTPPool s = \<lparr>self = s, peers = ring_New defaultReplicas None\<rparr>"

definition pool_Set :: "byte list list \<Rightarrow> pool \<Rightarrow> pool" where
  "pool_Set ps p = p\<lparr>peers := ring_Add ps (ring_New defaultReplicas None)\<rparr>"

text \<open>The peer to ask, \<open>None\<close> for the process itself.\<close>

definition PickPeer :: "byte list \<Rightarrow> pool \<Rightarrow> byte list option" where
  "PickPeer key p =
     (if ring_IsEmpty (peers p) then None
      else let peer = ring_Get key (peers p) in if peer \<noteq> self p then Some peer else None)"

section \<open>What the ring holds\<close>

definition points :: "ring \<Rightarrow> byte list list \<Rightarrow> (int \<times> byte list) list" where
  "points m keys = concat (map (\<lambda>k. map (\<lambda>i. (replica_hash m k i, k)) [0..<nat (replicas m)]) keys)"

lemma add_replicas:
  "foldl (add_replica k) m is = m\<lparr>ring_keys := ring_keys m @ map (replica_hash m k) is,
     hashMap := hashMap m ++ map_of (rev (map (\<lambda>i. (replica_hash m k i, k)) is))\<rparr>"
proof (induction "is" arbitrary: m)
  case (Cons i "is")
  have h: "replica_hash (add_replica k m i) = replica_hash m" by (simp add: replica_hash_def add_replica_def Let_def fun_eq_iff)
  show ?case by (simp add: Cons.IH h) (simp add: add_replica_def Let_def fun_upd_def)
qed simp

lemma add_members:
  "foldl add_member m ks = m\<lparr>ring_keys := ring_keys m @ map fst (points m ks), hashMap := hashMap m ++ map_of (rev (points m ks))\<rparr>"
proof (induction ks arbitrary: m)
  case (Cons k ks)
  have p: "points (add_member m k) ks = points m ks" by (simp add: points_def add_member_def add_replicas replica_hash_def)
  show ?case by (simp add: Cons.IH p) (simp add: add_member_def add_replicas points_def o_def)
qed (simp add: points_def)

lemma ring_Add_fields:
  "ring_keys (ring_Add ks m) = sort (ring_keys m @ map fst (points m ks))"
  "hashMap (ring_Add ks m) = hashMap m ++ map_of (rev (points m ks))"
  "ring_hash (ring_Add ks m) = ring_hash m" "replicas (ring_Add ks m) = replicas m"
  by (simp_all add: ring_Add_def Let_def add_members)

section \<open>Search\<close>

lemma search_loop_least:
  assumes f: "\<And>a b. a \<le> b \<Longrightarrow> b < n \<Longrightarrow> f a \<Longrightarrow> f b"
  shows "i \<le> j \<Longrightarrow> j \<le> n \<Longrightarrow> \<forall>a < i. \<not> f a \<Longrightarrow> \<forall>a. j \<le> a \<and> a < n \<longrightarrow> f a \<Longrightarrow>
    search_loop f i j \<le> n \<and> (\<forall>a < search_loop f i j. \<not> f a) \<and> (\<forall>a. search_loop f i j \<le> a \<and> a < n \<longrightarrow> f a)"
proof (induction "j - i" arbitrary: i j rule: less_induct)
  case less
  show ?case
  proof (cases "i < j")
    case False
    then have "search_loop f i j = i" by (subst search_loop.simps) simp
    moreover have "i = j" using False less.prems(1) by simp
    ultimately show ?thesis using less.prems by simp
  next
    case True
    let ?h = "i + (j - i) div 2"
    have h: "i \<le> ?h" "?h < j" using True by auto
    show ?thesis
    proof (cases "f ?h")
      case F: True
      have s: "search_loop f i j = search_loop f i ?h" using True F by (subst search_loop.simps) (simp add: Let_def)
      have up: "\<forall>a. ?h \<le> a \<and> a < n \<longrightarrow> f a" using f [of ?h] F by blast
      show ?thesis unfolding s by (rule less.hyps) (use h less.prems(2,3) up in simp_all)
    next
      case F: False
      have s: "search_loop f i j = search_loop f (?h + 1) j" using True F by (subst search_loop.simps) (simp add: Let_def)
      have low: "\<forall>a < ?h + 1. \<not> f a"
      proof (intro allI impI)
        fix a assume "a < ?h + 1"
        then have "a \<le> ?h" "?h < n" using h less.prems(2) by simp_all
        then show "\<not> f a" using f F by blast
      qed
      show ?thesis unfolding s by (rule less.hyps) (use h less.prems(2,4) low in simp_all)
    qed
  qed
qed

lemma Search_least:
  assumes "\<And>a b. a \<le> b \<Longrightarrow> b < n \<Longrightarrow> f a \<Longrightarrow> f b"
  shows "Search n f \<le> n" and "a < Search n f \<Longrightarrow> \<not> f a" and "Search n f \<le> a \<Longrightarrow> a < n \<Longrightarrow> f a"
proof -
  have "search_loop f 0 n \<le> n \<and> (\<forall>a < search_loop f 0 n. \<not> f a) \<and> (\<forall>a. search_loop f 0 n \<le> a \<and> a < n \<longrightarrow> f a)"
    by (rule search_loop_least [OF assms]) auto
  then show "Search n f \<le> n" "a < Search n f \<Longrightarrow> \<not> f a" "Search n f \<le> a \<Longrightarrow> a < n \<Longrightarrow> f a" by (simp_all add: Search_def)
qed

text \<open>The first point at or behind a hash, around the ring.\<close>

definition clockwise :: "int set \<Rightarrow> int \<Rightarrow> int" where
  "clockwise K h = (if \<exists>x \<in> K. h \<le> x then Min {x \<in> K. h \<le> x} else Min K)"

lemma clockwise_in: "finite K \<Longrightarrow> K \<noteq> {} \<Longrightarrow> clockwise K h \<in> K"
proof -
  assume K: "finite K" "K \<noteq> {}"
  have "Min {x \<in> K. h \<le> x} \<in> {x \<in> K. h \<le> x}" if "\<exists>x \<in> K. h \<le> x" using K that by (intro Min_in) auto
  then show ?thesis using K by (auto simp: clockwise_def)
qed

lemma Min_subset_eq: "finite B \<Longrightarrow> A \<subseteq> B \<Longrightarrow> Min B \<in> A \<Longrightarrow> Min A = (Min B :: int)"
  by (intro Min_eqI) (auto intro: finite_subset)

text \<open>Points that are taken away do not matter unless the point of the key is one of them.\<close>

lemma clockwise_subset:
  assumes "finite K" and "K' \<subseteq> K" and "clockwise K h \<in> K'"
  shows "clockwise K' h = clockwise K h"
proof (cases "\<exists>x \<in> K. h \<le> x")
  case True
  then have c: "clockwise K h = Min {x \<in> K. h \<le> x}" by (simp add: clockwise_def)
  have "Min {x \<in> K. h \<le> x} \<in> {x \<in> K. h \<le> x}" using assms(1) True by (intro Min_in) auto
  then have "h \<le> clockwise K h" using c by simp
  then have "\<exists>x \<in> K'. h \<le> x" using assms(3) by blast
  moreover have "Min {x \<in> K'. h \<le> x} = Min {x \<in> K. h \<le> x}"
    by (rule Min_subset_eq) (use assms c \<open>h \<le> clockwise K h\<close> in auto)
  ultimately show ?thesis using c by (simp add: clockwise_def)
next
  case False
  then have "\<not> (\<exists>x \<in> K'. h \<le> x)" using assms(2) by blast
  moreover have "Min K' = Min K" by (rule Min_subset_eq) (use assms False in \<open>auto simp: clockwise_def\<close>)
  ultimately show ?thesis using False by (auto simp: clockwise_def)
qed

lemma Search_clockwise:
  fixes h :: int
  assumes s: "sorted xs" and ne: "xs \<noteq> []"
  defines "i \<equiv> Search (length xs) (\<lambda>i. h \<le> xs ! i)"
  shows "xs ! (if i = length xs then 0 else i) = clockwise (set xs) h"
proof -
  have m: "a \<le> b \<Longrightarrow> b < length xs \<Longrightarrow> h \<le> xs ! a \<Longrightarrow> h \<le> xs ! b" for a b using sorted_nth_mono [OF s, of a b] by linarith
  have S: "i \<le> length xs" "\<And>a. a < i \<Longrightarrow> \<not> h \<le> xs ! a" "\<And>a. i \<le> a \<Longrightarrow> a < length xs \<Longrightarrow> h \<le> xs ! a"
    unfolding i_def using Search_least [of "length xs" "\<lambda>i. h \<le> xs ! i"] m by blast+
  show ?thesis
  proof (cases "i = length xs")
    case True
    then have "\<not> h \<le> x" if "x \<in> set xs" for x using S(2) that by (auto simp: in_set_conv_nth)
    moreover have "Min (set xs) = xs ! 0"
      by (rule Min_eqI) (use s ne in \<open>auto simp: in_set_conv_nth intro: sorted_nth_mono\<close>)
    ultimately show ?thesis using True by (auto simp: clockwise_def)
  next
    case False
    then have i: "i < length xs" using S(1) by simp
    then have h: "h \<le> xs ! i" using S(3) by simp
    have "Min {x \<in> set xs. h \<le> x} = xs ! i"
    proof (rule Min_eqI)
      fix y assume "y \<in> {x \<in> set xs. h \<le> x}"
      then obtain k where k: "k < length xs" "y = xs ! k" "h \<le> xs ! k" by (auto simp: in_set_conv_nth)
      then have "i \<le> k" using S(2) [of k] by (meson not_less)
      then show "xs ! i \<le> y" using k sorted_nth_mono [OF s] by simp
    qed (use i h in auto)
    then show ?thesis using False i h by (auto simp: clockwise_def intro: nth_mem)
  qed
qed

section \<open>Who owns a key\<close>

definition ring_of :: "int \<Rightarrow> (byte list \<Rightarrow> u32) option \<Rightarrow> byte list list \<Rightarrow> ring" where
  "ring_of n fn ks = ring_Add ks (ring_New n fn)"

definition ring_points :: "int \<Rightarrow> (byte list \<Rightarrow> u32) option \<Rightarrow> byte list list \<Rightarrow> (int \<times> byte list) list" where
  "ring_points n fn ks = points (ring_New n fn) ks"

definition key_hash :: "(byte list \<Rightarrow> u32) option \<Rightarrow> byte list \<Rightarrow> int" where
  "key_hash fn key = uint ((case fn of None \<Rightarrow> ChecksumIEEE | Some f \<Rightarrow> f) key)"

lemma Get_owner:
  "ring_Get key (ring_of n fn ks) =
     (let ps = ring_points n fn ks in
      if ps = [] then [] else the (map_of (rev ps) (clockwise (fst ` set ps) (key_hash fn key))))"
proof -
  let ?m = "ring_of n fn ks" and ?ps = "ring_points n fn ks"
  have f: "ring_keys ?m = sort (map fst ?ps)" "hashMap ?m = map_of (rev ?ps)" "uint (ring_hash ?m key) = key_hash fn key"
    by (simp_all add: ring_of_def ring_points_def ring_Add_fields) (simp_all add: ring_New_def key_hash_def)
  show ?thesis
  proof (cases "?ps = []")
    case True
    then show ?thesis using f(1) by (simp add: ring_Get_def ring_IsEmpty_def)
  next
    case False
    let ?xs = "ring_keys ?m" and ?h = "key_hash fn key"
    have xs: "?xs \<noteq> []" "sorted ?xs" "set ?xs = fst ` set ?ps" using False f(1) by (auto simp flip: set_empty)
    let ?i = "Search (length ?xs) (\<lambda>i. ?h \<le> ?xs ! i)"
    have c: "?xs ! (if ?i = length ?xs then 0 else ?i) = clockwise (fst ` set ?ps) ?h"
      using Search_clockwise [OF xs(2,1)] xs(3) by simp
    have "clockwise (fst ` set ?ps) ?h \<in> fst ` set (rev ?ps)" using clockwise_in [of "fst ` set ?ps" ?h] False by simp
    then obtain q where "map_of (rev ?ps) (clockwise (fst ` set ?ps) ?h) = Some q" by (metis map_of_eq_None_iff not_None_eq)
    then show ?thesis using False xs(1) c f(2,3) by (simp add: ring_Get_def ring_IsEmpty_def Let_def)
  qed
qed

lemma points_filter: "ring_points n fn (filter P ks) = filter (\<lambda>(h, k). P k) (ring_points n fn ks)"
proof -
  have "filter (\<lambda>(h, k). P k) (map (\<lambda>i. (f i, k)) is) = (if P k then map (\<lambda>i. (f i, k)) is else [])" for f :: "nat \<Rightarrow> int" and k "is"
    by (induction "is") auto
  then show ?thesis by (induction ks) (simp_all add: ring_points_def points_def)
qed

lemma map_of_filter_keep: "map_of xs x = Some q \<Longrightarrow> P q \<Longrightarrow> map_of (filter (\<lambda>(h, k). P k) xs) x = Some q"
  by (induction xs) (auto split: if_splits)

text \<open>C26. Only the keys of a member move when it leaves the ring, or joins it: a key that belongs to
  another member belongs to the same one in the ring without it, whatever the hash function, the
  number of replicas and the order of the members are, and even if hashes collide.\<close>

theorem ring_moves_only_its_keys:
  assumes "ring_Get key (ring_Add ks (ring_New n fn)) \<noteq> p"
  shows "ring_Get key (ring_Add (filter (\<lambda>k. k \<noteq> p) ks) (ring_New n fn)) = ring_Get key (ring_Add ks (ring_New n fn))"
proof (cases "ring_points n fn ks = []")
  case True
  then show ?thesis using points_filter [of n fn "\<lambda>k. k \<noteq> p" ks] by (simp add: Get_owner flip: ring_of_def)
next
  case False
  let ?ps = "ring_points n fn ks" and ?ps' = "ring_points n fn (filter (\<lambda>k. k \<noteq> p) ks)"
  let ?K = "fst ` set ?ps" and ?h = "key_hash fn key"
  have ps': "?ps' = filter (\<lambda>(h, k). k \<noteq> p) ?ps" by (rule points_filter)
  have "clockwise ?K ?h \<in> fst ` set (rev ?ps)" using clockwise_in [of ?K ?h] False by simp
  then obtain q where q: "map_of (rev ?ps) (clockwise ?K ?h) = Some q" by (metis map_of_eq_None_iff not_None_eq)
  then have ne: "q \<noteq> p" using assms False by (simp add: Get_owner Let_def flip: ring_of_def)
  have q': "map_of (rev ?ps') (clockwise ?K ?h) = Some q" unfolding ps' rev_filter by (rule map_of_filter_keep [where P = "\<lambda>k. k \<noteq> p", OF q ne])
  then have c: "clockwise ?K ?h \<in> fst ` set ?ps'" by (metis map_of_SomeD fst_conv image_eqI set_rev)
  then have "?ps' \<noteq> []" by auto
  moreover have "clockwise (fst ` set ?ps') ?h = clockwise ?K ?h" by (rule clockwise_subset [OF _ _ c]) (auto simp: ps')
  ultimately
  show ?thesis using q q' False by (simp add: Get_owner Let_def flip: ring_of_def)
qed

text \<open>A small ring for concrete runs: two replicas, and a hash that adds the bytes.\<close>

definition demo_hash :: "byte list \<Rightarrow> u32" where
  "demo_hash bs = sum_list (map ucast bs)"

theorem ring_moves_only_its_keys_witness:
  "ring_Get [150] (ring_Add [[100], [110], [120]] (ring_New 2 (Some demo_hash))) = [110] \<and>
   ring_Get [150] (ring_Add [[110], [120]] (ring_New 2 (Some demo_hash))) = [110] \<and>
   ring_Get [149] (ring_Add [[100], [110], [120]] (ring_New 2 (Some demo_hash))) = [100] \<and>
   ring_Get [149] (ring_Add [[110], [120]] (ring_New 2 (Some demo_hash))) = [110]"
proof -
  have "ring_Get [150] (ring_Add [[100], [110], [120]] (ring_New 2 (Some demo_hash))) = [110]"
    "ring_Get [149] (ring_Add [[100], [110], [120]] (ring_New 2 (Some demo_hash))) = [100]"
    "ring_Get [149] (ring_Add [[110], [120]] (ring_New 2 (Some demo_hash))) = [110]" by code_simp+
  then show ?thesis using ring_moves_only_its_keys [of "[150]" "[[100], [110], [120]]" 2 "Some demo_hash" "[100]"] by simp
qed

section \<open>Agreement\<close>

text \<open>No hash is shared by two members.\<close>

definition no_collisions :: "int \<Rightarrow> (byte list \<Rightarrow> u32) option \<Rightarrow> byte list list \<Rightarrow> bool" where
  "no_collisions n fn ks \<longleftrightarrow> (\<forall>(h, j) \<in> set (ring_points n fn ks). \<forall>(g, k) \<in> set (ring_points n fn ks). h = g \<longrightarrow> j = k)"

lemma set_points: "set (ring_points n fn ks) = {(replica_hash (ring_New n fn) k i, k) | k i. k \<in> set ks \<and> i < nat n}"
  by (auto simp: ring_points_def points_def ring_New_def)

lemma map_of_functional:
  assumes "\<forall>(h, j) \<in> set xs. \<forall>(g, k) \<in> set xs. h = g \<longrightarrow> j = k" and "(h, k) \<in> set xs"
  shows "map_of xs h = Some k"
proof -
  obtain j where j: "map_of xs h = Some j" using assms(2) by (metis map_of_eq_None_iff not_None_eq image_eqI fst_conv)
  then show ?thesis using assms map_of_SomeD [OF j] by fast
qed

text \<open>C33. The processes of a cluster agree on who owns a key, in whatever order each of them lists the
  members, as long as no two members share a hash: exactly the owner finds that the key is its own, and
  all others pick the owner.\<close>

theorem pool_agrees_on_owner:
  assumes "no_collisions defaultReplicas None ks" and "ks \<noteq> []"
  shows "\<exists>owner \<in> set ks. \<forall>qs s. set qs = set ks \<longrightarrow>
    PickPeer key (pool_Set qs (NewHTTPPool s)) = (if s = owner then None else Some owner)"
proof -
  let ?P = "\<lambda>qs. ring_points defaultReplicas None qs" and ?h = "key_hash None key"
  let ?c = "clockwise (fst ` set (?P ks)) ?h"
  have ne: "?P qs \<noteq> []" if q: "qs \<noteq> []" for qs
  proof -
    obtain k where "k \<in> set qs" using q by (cases qs) auto
    then have "(replica_hash (ring_New defaultReplicas None) k 0, k) \<in> set (?P qs)" unfolding set_points by (auto simp: defaultReplicas_def)
    then show ?thesis by auto
  qed
  have "?c \<in> fst ` set (?P ks)" using clockwise_in [of "fst ` set (?P ks)" ?h] ne [OF assms(2)] by simp
  then obtain owner where o: "(?c, owner) \<in> set (?P ks)" by force
  then have k: "owner \<in> set ks" unfolding set_points by auto
  have g: "ring_Get key (ring_of defaultReplicas None qs) = owner \<and> ring_keys (ring_of defaultReplicas None qs) \<noteq> []" if q: "set qs = set ks" for qs
  proof -
    have s: "set (?P qs) = set (?P ks)" unfolding set_points q ..
    have n: "?P qs \<noteq> []" using ne q assms(2) by (metis set_empty)
    have "map_of (rev (?P qs)) ?c = Some owner"
      by (rule map_of_functional) (use assms(1) o s in \<open>simp_all add: no_collisions_def\<close>)
    moreover have "ring_keys (ring_of defaultReplicas None qs) = sort (map fst (?P qs))"
      by (simp add: ring_of_def ring_points_def ring_Add_fields) (simp add: ring_New_def)
    ultimately show ?thesis using n s by (simp add: Get_owner Let_def flip: set_empty)
  qed
  show ?thesis
  proof (rule bexI [OF _ k], intro allI impI)
    fix qs s assume "set qs = set ks"
    from g [OF this] show "PickPeer key (pool_Set qs (NewHTTPPool s)) = (if s = owner then None else Some owner)"
      by (auto simp: PickPeer_def pool_Set_def NewHTTPPool_def ring_IsEmpty_def Let_def ring_of_def)
  qed
qed

theorem pool_agrees_on_owner_witness:
  "PickPeer [107] (pool_Set [[97]] (NewHTTPPool [97])) = None \<and> PickPeer [107] (pool_Set [[97]] (NewHTTPPool [98])) = Some [97]"
proof -
  have "no_collisions defaultReplicas None [[97]]" by (auto simp: no_collisions_def set_points)
  then obtain owner where o: "owner \<in> set [[97]]" and p: "\<And>qs s. set qs = set [[97]] \<Longrightarrow>
      PickPeer [107] (pool_Set qs (NewHTTPPool s)) = (if s = owner then None else Some owner)"
    using pool_agrees_on_owner [of "[[97]]" "[107]"] by blast
  show ?thesis using p [of "[[97]]"] o by simp
qed

end
