(* ===== verification/Spec2Isabelle.thy ===== *)
theory Spec2Isabelle
  imports EtcdRun NatsBroker RaftProps RaftReplicate RaftReload GcGroup GcRing
begin

text \<open>
  A verification of four programs of this collection of Go programs (\<open>src/src/github.com\<close>): the
  key-value store of etcd (\<open>coreos/etcd/store\<close>, \<open>coreos/etcd/error\<close>), the message broker
  gnatsd (\<open>apcera/gnatsd\<close>), the consensus library go-raft (\<open>benbjohnson/go-raft\<close>), which
  replicates the log whose commands the etcd store applies, and the cache groupcache
  (\<open>golang/groupcache\<close>). The first two are state machines whose
  clients see only what their operations promise, so each has an abstract specification and its
  operations are shown to implement it; the third is a protocol, shown on the runs of a cluster, and
  the fourth a concurrent cache, shown under every schedule of its goroutines.

  \<^bold>\<open>The etcd store.\<close> A command of the replicated log (\<open>EtcdCommand\<close>, from
  \<open>command_factory.go\<close> and \<open>v2/*.go\<close>) calls an operation of the store (\<open>EtcdStore\<close>, \<open>store.go\<close>), which
  changes a tree of nodes in an explicit memory (\<open>EtcdNode\<close>, \<open>node.go\<close>), keeps the nodes that
  expire in a heap (\<open>EtcdHeap\<close>, \<open>ttl_key_heap.go\<close>, on \<open>GoHeap\<close>, Go's \<open>container/heap\<close>), counts
  (\<open>EtcdStats\<close>, \<open>stats.go\<close>), builds an event (\<open>EtcdEvent\<close>, \<open>event.go\<close>, \<open>node_extern.go\<close>,
  \<open>event_queue.go\<close>, \<open>event_history.go\<close>) and tells the watchers (\<open>EtcdWatch\<close>, \<open>watcher.go\<close>,
  \<open>watcher_hub.go\<close>). Paths are \<open>GoPath\<close>, errors \<open>EtcdError\<close> (\<open>error.go\<close>). The lemmas: \<open>EtcdTree\<close>
  holds the invariant that the nodes below the root form a tree and its view as a map from
  paths to entries; \<open>EtcdCreate\<close>, \<open>EtcdOps\<close> and \<open>EtcdDelete\<close> show for every operation that it
  keeps the invariant, does not panic and does to the map what the abstract operation
  (\<open>kv_...\<close>) does. \<open>EtcdProps\<close> states the properties of the operations, \<open>EtcdRun\<close> those of whole
  runs: replicas that apply the same log agree, syncs included unless a directory and something below
  it expire at once, a reachable store does not panic, a watcher receives the change it waits for.

  \<^bold>\<open>The message broker.\<close> A connection's read loop hands each buffer to the parser
  (\<open>NatsParser\<close>, \<open>server/parser.go\<close>), which calls the operations of the connection
  (\<open>NatsServer\<close>: \<open>client.go\<close>, \<open>route.go\<close>, \<open>server.go\<close>; \<open>NatsClient\<close>: the commands of \<open>client.go\<close>,
  \<open>util.go\<close> and the routed queue subscriptions of \<open>route.go\<close>). Subscriptions are filed in the
  sublist (\<open>NatsSublist\<close>, \<open>sublist/sublist.go\<close>), a trie with a cache in front, whose levels and
  cache are hash maps (\<open>NatsHashMap\<close>, \<open>hashmap/*.go\<close>) over the hash functions (\<open>NatsHash\<close>,
  \<open>hash/hash.go\<close>). The lemmas, from the bottom: \<open>NatsHash\<close> shows which bytes the hashes read;
  \<open>NatsHashMap\<close> the invariant of the hash map and that it is a finite map, through the locale
  \<open>byte_map\<close> which its clients use; \<open>NatsTrie\<close> what the trie holds, \<open>NatsLiteral\<close> what the test
  for the cache decides, \<open>NatsRefine\<close> that a sublist under any operations is a list of filed
  subscriptions with a well-defined matching (\<open>spec_run\<close>); \<open>NatsStream\<close> that the parser, however
  a stream is cut into buffers, does what a machine that reads byte by byte does
  (locale \<open>line_parser\<close>, interpreted on the operations of the connection in \<open>NatsLines\<close>).
  \<open>NatsProps\<close>, \<open>NatsLines\<close> and \<open>NatsBroker\<close> state the properties of the sublist, of the protocol and
  of the broker.

  \<^bold>\<open>The consensus library.\<close> A server (\<open>RaftServer\<close>, \<open>server.go\<close>, \<open>peer.go\<close>, \<open>append_entries.go\<close>,
  \<open>request_vote.go\<close>, \<open>commands.go\<close>) votes, takes commands and appends what a leader sends to its log
  (\<open>RaftLog\<close>, \<open>log.go\<close>), which is a list of entries in memory and a file (\<open>RaftFile\<close>,
  \<open>log_entry.go\<close>, with the behaviour of \<open>os.File\<close>, \<open>bufio\<close> and \<open>fmt\<close> that the code relies on).
  \<open>RaftFacts\<close> shows that the operations of the log are operations on lists under the invariant
  \<open>log_ok\<close>; \<open>RaftDisk\<close> what the file holds, that it is read back and where it is not what the
  log takes it for, which is behind a request of several entries; \<open>RaftReplicate\<close> that an append request
  implements the abstract append, that committing applies the entries (clients' commands, NOPs, joins and
  leaves) once and in order and ends behind a join and at a command that the server does not know, that
  a follower catches up and which index a leader commits. \<open>RaftSnapshot\<close> (\<open>snapshot.go\<close>, the rest of \<open>server.go\<close> and
  \<open>peer.go\<close>) takes, saves, sends, receives and loads snapshots, and is the loops of a server as what they
  do with an event: a command, an append request or response, a vote, snapshot or recovery request;
  timeouts and the answers to votes are not among these events but actions of \<open>RaftNet\<close>; \<open>RaftRestore\<close> shows that a server votes once in a term and how a received snapshot
  breaks that, \<open>RaftReload\<close> that a snapshot and the file of the log restore a server.
  \<open>RaftNet\<close> is a cluster: servers, vote goroutines and messages that are lost, delayed and
  reordered; append requests and their answers are also repeated, while a vote request is a call that is
  answered once or not at all, as the transports do it; an action is an iteration of a loop of a server or
  of a goroutine.
  \<open>RaftSteps\<close> says what each does to votes and logs, \<open>RaftElection\<close> proves the election invariant (on
  the locale \<open>quorum_system\<close>, interpreted on majorities), \<open>RaftMatching\<close> that all logs are beginnings of
  one chain for each term. \<open>RaftProps\<close> states the properties of the runs and, on the runs of
  \<open>RaftDemo\<close>, where the protocol of the code is not the one of the paper.

  \<^bold>\<open>The cache.\<close> A value is a view of bytes that is written to one of five sinks (\<open>GcView\<close>,
  \<open>byteview.go\<close>, \<open>sinks.go\<close>). A group keeps values in two caches with byte counters (\<open>GcCache\<close>, the
  type \<open>cache\<close> of \<open>groupcache.go\<close>), each over an LRU cache (\<open>GcLru\<close>, \<open>lru/lru.go\<close>), which refines a
  list in the order of use. The group is a client of the caches through the locale \<open>value_store\<close>,
  interpreted on them. \<open>GcGroup\<close> (\<open>groupcache.go\<close>, \<open>singleflight/singleflight.go\<close>) is any number of
  goroutines in \<open>Get\<close>, each with its place in the code; a step goes from one access to what is shared to
  the next. Its lemmas are the invariant of the map of calls (\<open>listed\<close>) and that of the values
  (\<open>group_ok\<close>), and the schedule that makes \<open>populateCache\<close> hang. Which process owns a key is \<open>GcRing\<close>
  (\<open>consistenthash/consistenthash.go\<close> and the pool of \<open>http.go\<close>). Decimal numbers and checksums of Go's
  library, which \<open>GcRing\<close> and \<open>RaftSnapshot\<close> use, are \<open>GoFmt\<close>.

  \<^bold>\<open>Correspondence.\<close> Definitions have the names of the code, with a prefix where a name of the
  library or of another package is in the way (\<open>store_Set\<close>, \<open>hm_Get\<close>, \<open>sl_Insert\<close>). Structs are
  records. A pointer that several parts share (etcd's nodes, watchers and lists; gnatsd's
  clients and subscriptions) is a key into a store; a pointer with one owner is its value.
  Machine integers are words where the code can wrap them (\<open>uint64\<close> indices, \<open>uint32\<close> counts and
  hashes); Go's \<open>int\<close> is \<open>int\<close>, with its wrap-around where a size is parsed, and so are the
  \<open>int64\<close> counters of groupcache, which count bytes and hits and are not followed to \<open>2 ^ 63\<close>. A panic, an index out of
  bounds included, is \<open>None\<close>; an error is the value the code returns. A Go map that the code ranges
  over is a list in the order of the range.

  \<^bold>\<open>Bounds and hypotheses.\<close> The loops of the hashes, of \<open>matchLiteral\<close>, of \<open>visitLevel\<close>, of the heap,
  of reading a log file and of the binary search end by a measure, the loop of \<open>populateCache\<close> is a
  \<open>while_option\<close>, since it may run forever, the others run along data. Some of the etcd store take fuel,
  since what they follow is in the memory: the recursions over a tree (\<open>Remove\<close>, \<open>Repr\<close>, \<open>Clone\<close>,
  \<open>recoverAndclean\<close> of \<open>EtcdNode\<close>) get one more than the number of nodes ever made, \<open>expire_loop\<close> one
  more than the length of the heap, \<open>scan_loop\<close> the length of the history. Running out is \<open>None\<close>, and the
  theorems on the operations that use them say that their results are not: the fuel is enough under the
  invariant of the store. (\<open>Clone\<close> and \<open>recoverAndclean\<close>, of \<open>Save\<close> and \<open>Recovery\<close>, have definitions but
  no theorems yet.) \<open>catch_up\<close> counts heartbeats, and its theorem says how many are enough. The theorems on hash maps assume
  that the count of entries stays below the bounds of the 32-bit counter and of the largest bucket
  array; those on sublists that there were fewer than \<open>2 ^ 32\<close> operations and that the subjects in use
  fit into the cache (\<open>cache_fit\<close>). The runs of a cluster are \<open>roomy\<close> (terms and logs stay below
  the range of \<open>uint64\<close>), \<open>static\<close> (no command changes the members) and, where a theorem says so, \<open>calm\<close>
  (the goroutines of a round of voting run before anything else happens to their server). JSON
  decoding, random numbers and the outcomes of writes are arguments of the model; the theorems hold for
  all of them unless they name a condition.

  \<^bold>\<open>Not modelled.\<close> Locks: what a lock holds together is one step. Clocks, timers that
  fire, sockets, logging, tracing, HTTP, JSON encoding, configuration and process set-up, in all
  programs. Of go-raft: restarts, snapshots and changes of the members inside a run of the
  cluster (they are modelled for a single server), timers, event listeners and transports. Of
  groupcache: the registry of groups and the HTTP client and handler. The other programs of the collection are not modelled: most are glue around
  system calls, networks and vendored libraries. Those with a core of their own are next: the
  Lamport clock and coalescers of serf, the
  version comparison of aptly, the channels of nsq, the ordering of epaxos,
  and, for etcd, the round trip of \<open>Save\<close> and \<open>Recovery\<close>.
\<close>

end
